(* ===== verification/Kokage_Prelude.thy ===== *)
theory Kokage_Prelude
  imports Main "HOL-Library.Word" "HOL-Library.Multiset"
begin

text \<open>
  Shared vocabulary of the development: Rust's saturating integer arithmetic and
  \<open>Duration\<close>/\<open>Instant\<close> values, the slab container in which a supervisor keeps its
  children, fallible computations on a mutable state (\<open>&mut self\<close> methods that return a
  \<open>Result\<close>), and the generic lemmas on lists the components use.

  Unsigned counters that the code only ever changes with saturating operations are natural
  numbers with the bound written out; bit manipulation uses 64 bit words.  Durations and
  instants are nanoseconds.
\<close>

named_theorems slab_simps \<open>lookup laws of the child slab\<close>
named_theorems run_simps \<open>unfolding of fallible state computations\<close>

section \<open>Integers and time\<close>

type_synonym u64 = nat
type_synonym usize = nat
type_synonym duration = nat
type_synonym instant = nat

definition u64_max :: u64 where
  "u64_max = 2 ^ 64 - 1"

definition u64_saturating_add :: "u64 \<Rightarrow> u64 \<Rightarrow> u64" where
  "u64_saturating_add a b = min (a + b) u64_max"

definition duration_max :: duration where
  "duration_max = (2 ^ 64 - 1) * 1000000000 + 999999999"

definition from_secs :: "nat \<Rightarrow> duration" where
  "from_secs n = n * 1000000000"

definition from_millis :: "nat \<Rightarrow> duration" where
  "from_millis n = n * 1000000"

definition duration_saturating_mul :: "duration \<Rightarrow> nat \<Rightarrow> duration" where
  "duration_saturating_mul d n = min (d * n) duration_max"

text \<open>\<open>Instant::duration_since\<close> saturates at zero, as subtraction on naturals does.\<close>

definition duration_since :: "instant \<Rightarrow> instant \<Rightarrow> duration" where
  "duration_since now earlier = now - earlier"

lemma u64_saturating_add_le: "u64_saturating_add a b \<le> u64_max"
  by (simp add: u64_saturating_add_def)

lemma u64_saturating_add_mono: "a \<le> u64_max \<Longrightarrow> a \<le> u64_saturating_add a b"
  by (simp add: u64_saturating_add_def)

lemma u64_saturating_add_strict: "a < u64_max \<Longrightarrow> 0 < b \<Longrightarrow> a < u64_saturating_add a b"
  by (simp add: u64_saturating_add_def)

lemma u64_saturating_add_Suc: "a < u64_max \<Longrightarrow> u64_saturating_add a 1 = Suc a"
  by (simp add: u64_saturating_add_def)

section \<open>The slab of children\<close>

text \<open>
  The supervisor stores its children in the third-party container \<open>slab::Slab\<close>: a growable
  array of occupied and vacant slots whose index is the child key.  Which vacant index an
  insertion picks is the container's business; the operations below take it as an argument.
  Iteration visits the occupied slots by ascending key.
\<close>

type_synonym 'a slab = "'a option list"

definition slab_get :: "'a slab \<Rightarrow> nat \<Rightarrow> 'a option" where
  "slab_get sl k = (if k < length sl then sl ! k else None)"

definition slab_put :: "nat \<Rightarrow> 'a \<Rightarrow> 'a slab \<Rightarrow> 'a slab" where
  "slab_put k v sl =
     (if k < length sl then sl[k := Some v]
      else sl @ replicate (k - length sl) None @ [Some v])"

definition slab_remove :: "nat \<Rightarrow> 'a slab \<Rightarrow> 'a slab" where
  "slab_remove k sl = sl[k := None]"

definition slab_update :: "nat \<Rightarrow> ('a \<Rightarrow> 'a) \<Rightarrow> 'a slab \<Rightarrow> 'a slab" where
  "slab_update k f sl =
     (case slab_get sl k of None \<Rightarrow> sl | Some v \<Rightarrow> slab_put k (f v) sl)"

definition slab_map :: "('a \<Rightarrow> 'a) \<Rightarrow> 'a slab \<Rightarrow> 'a slab" where
  "slab_map f sl = map (map_option f) sl"

definition slab_iter :: "'a slab \<Rightarrow> (nat \<times> 'a) list" where
  "slab_iter sl =
     concat (map (\<lambda>k. case slab_get sl k of None \<Rightarrow> [] | Some v \<Rightarrow> [(k, v)]) [0..<length sl])"

definition slab_count :: "('a \<Rightarrow> bool) \<Rightarrow> 'a slab \<Rightarrow> nat" where
  "slab_count P sl = length (filter (\<lambda>x. case x of None \<Rightarrow> False | Some v \<Rightarrow> P v) sl)"

lemma slab_get_put_same [simp, slab_simps]: "slab_get (slab_put k v sl) k = Some v"
  by (auto simp: slab_get_def slab_put_def nth_append)

lemma slab_get_put_other [simp, slab_simps]:
  "j \<noteq> k \<Longrightarrow> slab_get (slab_put k v sl) j = slab_get sl j"
  by (auto simp: slab_get_def slab_put_def nth_append nth_Cons')

lemma slab_get_put: "slab_get (slab_put k v sl) j = (if j = k then Some v else slab_get sl j)"
  by simp

lemma slab_get_remove [simp, slab_simps]:
  "slab_get (slab_remove k sl) j = (if j = k then None else slab_get sl j)"
  by (auto simp: slab_get_def slab_remove_def nth_list_update)

lemma slab_get_update [simp, slab_simps]:
  "slab_get (slab_update k f sl) j =
     (if j = k then map_option f (slab_get sl j) else slab_get sl j)"
  by (auto simp: slab_update_def split: option.splits)

lemma slab_get_map [simp, slab_simps]:
  "slab_get (slab_map f sl) j = map_option f (slab_get sl j)"
  by (simp add: slab_get_def slab_map_def)

lemma slab_get_Nil [simp, slab_simps]: "slab_get [] k = None"
  by (simp add: slab_get_def)

lemma slab_get_Some_length: "slab_get sl k = Some v \<Longrightarrow> k < length sl \<and> sl ! k = Some v"
  by (auto simp: slab_get_def split: if_splits)

lemma slab_iter_iff: "(k, v) \<in> set (slab_iter sl) \<longleftrightarrow> slab_get sl k = Some v"
  by (auto simp: slab_iter_def dest: slab_get_Some_length split: option.splits)

lemma slab_iter_fst_sorted: "sorted (map fst (slab_iter sl)) \<and> distinct (map fst (slab_iter sl))"
proof -
  have "map fst (concat (map (\<lambda>k. case slab_get sl k of None \<Rightarrow> [] | Some v \<Rightarrow> [(k, v)]) ks))
      = filter (\<lambda>k. slab_get sl k \<noteq> None) ks" for ks
    by (induction ks) (auto split: option.splits)
  then show ?thesis
    by (simp add: slab_iter_def sorted_wrt_filter)
qed

subsection \<open>Counting occupied slots\<close>

lemma slab_count_Nil [simp]: "slab_count P [] = 0"
  by (simp add: slab_count_def)

lemma length_filter_update:
  "k < length xs \<Longrightarrow>
   length (filter Q (xs[k := y])) + (if Q (xs ! k) then 1 else 0)
     = length (filter Q xs) + (if Q y then 1 else 0)"
proof (induction xs arbitrary: k)
  case Nil
  then show ?case by simp
next
  case (Cons x xs)
  then show ?case by (cases k) auto
qed

lemma slab_count_put:
  "slab_count P (slab_put k v sl)
     + (case slab_get sl k of None \<Rightarrow> 0 | Some w \<Rightarrow> if P w then 1 else 0)
   = slab_count P sl + (if P v then 1 else 0)"
proof (cases "k < length sl")
  case True
  from length_filter_update [OF True, of "case_option False P" "Some v"] show ?thesis
    by (cases "sl ! k") (simp_all add: slab_count_def slab_put_def slab_get_def True)
next
  case False
  then show ?thesis by (simp add: slab_count_def slab_put_def slab_get_def)
qed

lemma slab_count_remove:
  "slab_count P (slab_remove k sl)
     + (case slab_get sl k of None \<Rightarrow> 0 | Some w \<Rightarrow> if P w then 1 else 0) = slab_count P sl"
proof (cases "k < length sl")
  case True
  from length_filter_update [OF True, of "case_option False P" None] show ?thesis
    by (cases "sl ! k") (simp_all add: slab_count_def slab_remove_def slab_get_def True)
next
  case False
  then show ?thesis
    by (simp add: slab_count_def slab_remove_def slab_get_def list_update_beyond)
qed

lemma slab_count_zero_iff:
  "slab_count P sl = 0 \<longleftrightarrow> (\<forall>k v. slab_get sl k = Some v \<longrightarrow> \<not> P v)"
proof -
  have "slab_count P sl = 0 \<longleftrightarrow> (\<forall>x \<in> set sl. \<not> case_option False P x)"
    by (simp add: slab_count_def filter_empty_conv)
  also have "\<dots> \<longleftrightarrow> (\<forall>k < length sl. \<not> case_option False P (sl ! k))"
    by (simp add: all_set_conv_all_nth)
  also have "\<dots> \<longleftrightarrow> (\<forall>k v. slab_get sl k = Some v \<longrightarrow> \<not> P v)"
    by (simp add: slab_get_def) (metis case_optionE option.simps(5))
  finally show ?thesis .
qed

lemma slab_count_pos: "slab_get sl k = Some v \<Longrightarrow> P v \<Longrightarrow> 0 < slab_count P sl"
  using slab_count_zero_iff [of P sl] by (metis gr0I)

lemma slab_count_map:
  "(\<And>v. P (f v) = P v) \<Longrightarrow> slab_count P (slab_map f sl) = slab_count P sl"
  unfolding slab_count_def slab_map_def
  by (induction sl) (auto split: option.splits)

lemma slab_put_put [simp]: "slab_put k v (slab_put k w sl) = slab_put k v sl"
  by (auto simp: slab_put_def list_update_append nth_append)

lemma slab_update_present: "slab_get sl k = Some v \<Longrightarrow> slab_update k f sl = slab_put k (f v) sl"
  by (simp add: slab_update_def)

lemma slab_update_missing: "slab_get sl k = None \<Longrightarrow> slab_update k f sl = sl"
  by (simp add: slab_update_def)

subsection \<open>Collecting from occupied slots\<close>

definition slab_collect :: "('a \<Rightarrow> 'b list) \<Rightarrow> 'a slab \<Rightarrow> 'b multiset" where
  "slab_collect g sl = mset (concat (map (case_option [] g) sl))"

lemma slab_collect_Nil [simp]: "slab_collect g [] = {#}"
  by (simp add: slab_collect_def)

lemma mset_concat_update:
  "k < length xs \<Longrightarrow>
   mset (concat (map h (xs[k := y]))) + mset (h (xs ! k)) = mset (concat (map h xs)) + mset (h y)"
proof (induction xs arbitrary: k)
  case (Cons x xs)
  then show ?case by (cases k) (simp_all add: ac_simps)
qed simp

lemma slab_collect_put:
  "slab_collect g (slab_put k v sl) + mset (case_option [] g (slab_get sl k))
     = slab_collect g sl + mset (g v)"
proof (cases "k < length sl")
  case True
  from mset_concat_update [OF True, of "case_option [] g" "Some v"] show ?thesis
    by (simp add: slab_collect_def slab_put_def slab_get_def True)
next
  case False
  then show ?thesis by (simp add: slab_collect_def slab_put_def slab_get_def)
qed

lemma slab_collect_remove:
  "slab_collect g (slab_remove k sl) + mset (case_option [] g (slab_get sl k)) = slab_collect g sl"
proof (cases "k < length sl")
  case True
  from mset_concat_update [OF True, of "case_option [] g" None] show ?thesis
    by (simp add: slab_collect_def slab_remove_def slab_get_def True)
next
  case False
  then show ?thesis
    by (simp add: slab_collect_def slab_remove_def slab_get_def list_update_beyond)
qed

lemma slab_collect_update:
  assumes "\<And>v. slab_get sl k = Some v \<Longrightarrow> g (f v) = g v"
  shows "slab_collect g (slab_update k f sl) = slab_collect g sl"
proof (cases "slab_get sl k")
  case (Some v)
  with slab_collect_put [of g k "f v" sl] assms show ?thesis by (simp add: slab_update_present)
qed (simp add: slab_update_missing)

lemma slab_collect_empty:
  "(\<And>k v. slab_get sl k = Some v \<Longrightarrow> g v = []) \<Longrightarrow> slab_collect g sl = {#}"
  unfolding slab_collect_def
  by (auto simp: slab_get_def in_set_conv_nth split: option.split) (metis option.exhaust)+

section \<open>Fallible computations on a mutable state\<close>

text \<open>
  A method \<open>fn m(&mut self) -> Result<T, E>\<close> is a function from the state to a result and
  the state it leaves behind.  An error keeps every mutation made before it, exactly as
  the early return of the \<open>?\<close> operator does.
\<close>

type_synonym ('s, 'e, 'a) run = "'s \<Rightarrow> ('e + 'a) \<times> 's"

definition return_ok :: "'a \<Rightarrow> ('s, 'e, 'a) run" where
  "return_ok x s = (Inr x, s)"

definition return_err :: "'e \<Rightarrow> ('s, 'e, 'a) run" where
  "return_err e s = (Inl e, s)"

definition and_then ::
    "('s, 'e, 'a) run \<Rightarrow> ('a \<Rightarrow> ('s, 'e, 'b) run) \<Rightarrow> ('s, 'e, 'b) run" where
  "and_then m f s =
     (case m s of (Inl e, s') \<Rightarrow> (Inl e, s') | (Inr x, s') \<Rightarrow> f x s')"

fun for_each :: "('k \<Rightarrow> ('s, 'e, unit) run) \<Rightarrow> 'k list \<Rightarrow> ('s, 'e, unit) run" where
  "for_each f [] s = (Inr (), s)"
| "for_each f (k # ks) s =
     (case f k s of (Inl e, s') \<Rightarrow> (Inl e, s') | (Inr _, s') \<Rightarrow> for_each f ks s')"

text \<open>
  An outcome is acceptable for an invariant and a set of tolerated errors when the state left
  behind satisfies the invariant, on success and on failure, and an error is a tolerated one.
  A computation is sound when it turns every state of the invariant into such an outcome.
\<close>

definition outcome_ok :: "('s \<Rightarrow> bool) \<Rightarrow> ('e \<Rightarrow> bool) \<Rightarrow> ('e + 'a) \<times> 's \<Rightarrow> bool" where
  "outcome_ok I Q p \<longleftrightarrow> I (snd p) \<and> (\<forall>e. fst p = Inl e \<longrightarrow> Q e)"

definition sound :: "('s \<Rightarrow> bool) \<Rightarrow> ('e \<Rightarrow> bool) \<Rightarrow> ('s, 'e, 'a) run \<Rightarrow> bool" where
  "sound I Q m \<longleftrightarrow> (\<forall>s. I s \<longrightarrow> outcome_ok I Q (m s))"

lemma outcome_ok_simps [simp, run_simps]:
  "outcome_ok I Q (Inr x, s) = I s" "outcome_ok I Q (Inl e, s) = (I s \<and> Q e)"
  by (auto simp: outcome_ok_def)

lemma outcome_ok_state: "outcome_ok I Q p \<Longrightarrow> I (snd p)"
  by (simp add: outcome_ok_def)

lemma outcome_ok_error: "outcome_ok I Q p \<Longrightarrow> fst p = Inl e \<Longrightarrow> Q e"
  by (simp add: outcome_ok_def)

lemma outcome_ok_bind:
  assumes "outcome_ok I Q p"
    and "\<And>x s. I s \<Longrightarrow> p = (Inr x, s) \<Longrightarrow> outcome_ok I Q (f x s)"
  shows "outcome_ok I Q (case p of (Inl e, s) \<Rightarrow> (Inl e, s) | (Inr x, s) \<Rightarrow> f x s)"
  using assms by (cases p; cases "fst p") (auto simp: outcome_ok_def)

lemma soundI: "(\<And>s. I s \<Longrightarrow> outcome_ok I Q (m s)) \<Longrightarrow> sound I Q m"
  by (simp add: sound_def)

lemma soundD: "sound I Q m \<Longrightarrow> I s \<Longrightarrow> outcome_ok I Q (m s)"
  by (simp add: sound_def)

lemma sound_and_then [intro]:
  assumes "sound I Q m" and "\<And>x. sound I Q (f x)"
  shows "sound I Q (and_then m f)"
  unfolding and_then_def using assms by (intro soundI outcome_ok_bind) (auto dest: soundD)

lemma sound_for_each [intro]:
  assumes "\<And>k. sound I Q (f k)"
  shows "sound I Q (for_each f ks)"
proof (rule soundI)
  fix s assume "I s"
  then show "outcome_ok I Q (for_each f ks s)"
  proof (induction ks arbitrary: s)
    case (Cons k ks)
    with assms show ?case by (auto intro!: outcome_ok_bind dest: soundD)
  qed simp
qed

end
