(* ===== verification/Policies.thy ===== *)
theory Policies
  imports Kokage_Prelude
begin

text \<open>
  The policy values of \<open>supervisor/restart.rs\<close>, \<open>supervisor/shutdown.rs\<close>,
  \<open>supervisor/strategy.rs\<close>, \<open>supervisor/scope.rs\<close> and the errors of
  \<open>supervisor/error.rs\<close>: restart conditions with their budget and backoff, shutdown grace,
  the tidy-abort window, and the validation every supervisor build runs.
\<close>

section \<open>Errors\<close>

datatype build_error =
    DuplicateChildId string
  | InvalidConfig string

datatype supervisor_error =
    StartupAborted string
  | RestartIntensityExceeded
  | ShutdownTimedOut string
  | Internal string

datatype control_error =
    UnknownChildId string
  | UnknownChildHandle
  | ChildRemovalInProgress string
  | Rejected build_error
  | Failed supervisor_error
  | Unavailable

section \<open>Strategies and scopes\<close>

datatype strategy = OneForOne | OneForAll | RestForOne

datatype scope_kind = Ordered | Dynamic

definition default_strategy :: strategy where
  "default_strategy = OneForOne"

fun scope_kind_display :: "scope_kind \<Rightarrow> string" where
  "scope_kind_display Ordered = ''ordered''"
| "scope_kind_display Dynamic = ''dynamic''"

record scope_path_segment =
  seg_id :: string
  seg_lineage :: u64
  seg_generation :: u64

section \<open>Backoff\<close>

datatype backoff =
    BackoffNone
  | Fixed duration
  | Exponential (base: duration) (factor: nat) (max_delay: duration) (jitter: bool)

definition exponential :: "duration \<Rightarrow> nat \<Rightarrow> duration \<Rightarrow> backoff" where
  "exponential b f m = Exponential b f m False"

definition exponential_with_jitter :: "duration \<Rightarrow> nat \<Rightarrow> duration \<Rightarrow> backoff" where
  "exponential_with_jitter b f m = Exponential b f m True"

definition require_non_zero_duration :: "duration \<Rightarrow> string \<Rightarrow> build_error + unit" where
  "require_non_zero_duration d message = (if d = 0 then Inl (InvalidConfig message) else Inr ())"

fun backoff_validate :: "backoff \<Rightarrow> build_error + unit" where
  "backoff_validate BackoffNone = Inr ()"
| "backoff_validate (Fixed delay) =
     require_non_zero_duration delay ''fixed backoff delay must be non-zero''"
| "backoff_validate (Exponential b f m j) =
     (case require_non_zero_duration b ''exponential backoff base must be non-zero'' of
        Inl e \<Rightarrow> Inl e
      | Inr _ \<Rightarrow>
          if f = 0 then Inl (InvalidConfig ''exponential backoff factor must be non-zero'')
          else require_non_zero_duration m ''exponential backoff max must be non-zero'')"

section \<open>Restart policies\<close>

datatype restart_policy =
    Always (max_restarts_of: usize) (within_of: duration) (backoff_of: backoff)
  | OnFailure (max_restarts_of: usize) (within_of: duration) (backoff_of: backoff)
  | Never

definition always :: restart_policy where
  "always = Always 5 (from_secs 30) BackoffNone"

definition on_failure :: restart_policy where
  "on_failure = OnFailure 5 (from_secs 30) BackoffNone"

definition never :: restart_policy where
  "never = Never"

definition default_restart_policy :: restart_policy where
  "default_restart_policy = on_failure"

fun limit :: "restart_policy \<Rightarrow> usize \<Rightarrow> duration \<Rightarrow> restart_policy" where
  "limit (Always m w b) m' w' = Always m' w' b"
| "limit (OnFailure m w b) m' w' = OnFailure m' w' b"
| "limit Never m' w' = Never"

fun with_backoff :: "restart_policy \<Rightarrow> backoff \<Rightarrow> restart_policy" where
  "with_backoff (Always m w b) b' = Always m w b'"
| "with_backoff (OnFailure m w b) b' = OnFailure m w b'"
| "with_backoff Never b' = Never"

fun should_restart :: "restart_policy \<Rightarrow> bool \<Rightarrow> bool" where
  "should_restart (Always m w b) is_failure = True"
| "should_restart (OnFailure m w b) is_failure = is_failure"
| "should_restart Never is_failure = False"

fun is_never :: "restart_policy \<Rightarrow> bool" where
  "is_never Never = True"
| "is_never p = False"

fun restart_validate :: "restart_policy \<Rightarrow> build_error + unit" where
  "restart_validate (Always m w b) =
     (case require_non_zero_duration w ''restart intensity window must be non-zero'' of
        Inl e \<Rightarrow> Inl e | Inr _ \<Rightarrow> backoff_validate b)"
| "restart_validate (OnFailure m w b) =
     (case require_non_zero_duration w ''restart intensity window must be non-zero'' of
        Inl e \<Rightarrow> Inl e | Inr _ \<Rightarrow> backoff_validate b)"
| "restart_validate Never = Inr ()"

fun policy_max_restarts :: "restart_policy \<Rightarrow> usize option" where
  "policy_max_restarts (Always m w b) = Some m"
| "policy_max_restarts (OnFailure m w b) = Some m"
| "policy_max_restarts Never = None"

fun policy_within :: "restart_policy \<Rightarrow> duration option" where
  "policy_within (Always m w b) = Some w"
| "policy_within (OnFailure m w b) = Some w"
| "policy_within Never = None"

fun backoff_policy :: "restart_policy \<Rightarrow> backoff option" where
  "backoff_policy (Always m w b) = Some b"
| "backoff_policy (OnFailure m w b) = Some b"
| "backoff_policy Never = None"

section \<open>Shutdown policies\<close>

definition min_tidy_abort_beat :: duration where
  "min_tidy_abort_beat = from_millis 1"

definition max_tidy_abort_beat :: duration where
  "max_tidy_abort_beat = from_millis 10"

definition tidy_abort_beat :: "duration \<Rightarrow> duration" where
  "tidy_abort_beat grace = max min_tidy_abort_beat (min (grace div 10) max_tidy_abort_beat)"

datatype shutdown = Graceful duration | Abort

definition graceful_for :: "duration \<Rightarrow> shutdown" where
  "graceful_for bound = Graceful bound"

definition default_shutdown :: shutdown where
  "default_shutdown = graceful_for (from_secs 5)"

fun grace :: "shutdown \<Rightarrow> duration option" where
  "grace (Graceful g) = Some g"
| "grace Abort = None"

fun is_abort :: "shutdown \<Rightarrow> bool" where
  "is_abort Abort = True"
| "is_abort (Graceful g) = False"

datatype mailbox_shutdown = Drain | Discard

fun drains :: "mailbox_shutdown \<Rightarrow> bool" where
  "drains Drain = True"
| "drains Discard = False"

section \<open>Laws of the policies\<close>

lemma grace_None_iff: "grace p = None \<longleftrightarrow> is_abort p"
  by (cases p) auto

text \<open>What a validated policy guarantees to the restart tracker.\<close>

fun backoff_ok :: "backoff \<Rightarrow> bool" where
  "backoff_ok BackoffNone = True"
| "backoff_ok (Fixed d) = (0 < d)"
| "backoff_ok (Exponential b f m j) = (0 < b \<and> 0 < f \<and> 0 < m)"

lemma backoff_validate_iff: "backoff_validate b = Inr () \<longleftrightarrow> backoff_ok b"
  by (cases b) (auto simp: require_non_zero_duration_def)

text \<open>
  A restart policy passes validation exactly when it can never restart, or its window is
  non-zero and its backoff is well formed (non-zero fixed delay; non-zero base, factor and
  maximum).  The budget \<open>max_restarts\<close> is not validated: zero restarts is a legal budget.
\<close>

theorem restart_validate_iff:
  "restart_validate p = Inr () \<longleftrightarrow>
     p = Never \<or>
     (\<exists>w b. policy_within p = Some w \<and> backoff_policy p = Some b \<and> 0 < w \<and> backoff_ok b)"
  by (cases p) (auto simp: require_non_zero_duration_def backoff_validate_iff)

text \<open>
  The tidy-abort window stays between one and ten milliseconds, and never exceeds the
  child's own grace when that grace is at least one millisecond.  A shorter grace is
  extended: the window of one millisecond is then longer than the grace itself.
\<close>

lemma tidy_abort_beat_bounds:
  "from_millis 1 \<le> tidy_abort_beat g \<and> tidy_abort_beat g \<le> from_millis 10 \<and>
   (tidy_abort_beat g \<le> g \<longleftrightarrow> from_millis 1 \<le> g)"
  by (auto simp: tidy_abort_beat_def min_tidy_abort_beat_def max_tidy_abort_beat_def
      from_millis_def)

end
