(* ===== verification/Exit_Status.thy ===== *)
theory Exit_Status
  imports Policies
begin

text \<open>
  How a child task's end is classified: the runtime status of
  \<open>supervisor/runtime/exit.rs\<close>, its cloneable view and the runtime events of
  \<open>supervisor/event.rs\<close>, and the public exit status of \<open>supervisor/snapshot.rs\<close>.
  A boxed error is either one of the two readiness timeouts the classifier downcasts to, or
  an arbitrary error known by its display text.
\<close>

datatype box_error =
    TaskReadinessTimedOut string duration
  | ActorChildReadinessTimedOut duration
  | OtherError string

type_synonym exit_result = "box_error + unit"

datatype runtime_exit_status =
    Completed
  | FailedWith box_error
  | ReadinessTimedOut duration
  | Panicked
  | Aborted
  | ShutdownTimedOutExit

datatype exit_kind =
    KCompleted
  | KFailed string
  | KReadinessTimedOut duration
  | KPanicked
  | KAborted (after_grace: bool)

datatype exit_status =
    ECompleted (cancelled: bool)
  | EFailed (message: string) (cancelled: bool)
  | EReadinessTimedOut duration (cancelled: bool)
  | EPanicked (cancelled: bool)
  | EAborted bool (cancelled: bool)

fun from_child_result :: "exit_result \<Rightarrow> runtime_exit_status" where
  "from_child_result (Inr _) = Completed"
| "from_child_result (Inl (TaskReadinessTimedOut tid timeout)) = ReadinessTimedOut timeout"
| "from_child_result (Inl (ActorChildReadinessTimedOut timeout)) = ReadinessTimedOut timeout"
| "from_child_result (Inl e) = FailedWith e"

definition is_failure :: "runtime_exit_status \<Rightarrow> bool" where
  "is_failure st \<longleftrightarrow> st \<noteq> Completed"

text \<open>
  The display text of a boxed error.  The two readiness timeouts format a duration, which
  the parameter supplies.
\<close>

fun error_to_string :: "(duration \<Rightarrow> string) \<Rightarrow> box_error \<Rightarrow> string" where
  "error_to_string show_dur (TaskReadinessTimedOut tid timeout) =
     ''task `'' @ tid @ ''` did not report readiness within '' @ show_dur timeout"
| "error_to_string show_dur (ActorChildReadinessTimedOut timeout) =
     ''actor child did not report readiness within '' @ show_dur timeout"
| "error_to_string show_dur (OtherError msg) = msg"

fun view :: "(duration \<Rightarrow> string) \<Rightarrow> runtime_exit_status \<Rightarrow> exit_kind" where
  "view show_dur Completed = KCompleted"
| "view show_dur (FailedWith e) = KFailed (error_to_string show_dur e)"
| "view show_dur (ReadinessTimedOut timeout) = KReadinessTimedOut timeout"
| "view show_dur Panicked = KPanicked"
| "view show_dur Aborted = KAborted False"
| "view show_dur ShutdownTimedOutExit = KAborted True"

fun exit_status_new :: "exit_kind \<Rightarrow> bool \<Rightarrow> exit_status" where
  "exit_status_new KCompleted c = ECompleted c"
| "exit_status_new (KFailed msg) c = EFailed msg c"
| "exit_status_new (KReadinessTimedOut timeout) c = EReadinessTimedOut timeout c"
| "exit_status_new KPanicked c = EPanicked c"
| "exit_status_new (KAborted g) c = EAborted g c"

fun status_is_failure :: "exit_status \<Rightarrow> bool" where
  "status_is_failure (ECompleted c) = False"
| "status_is_failure _ = True"

fun status_is_completed :: "exit_status \<Rightarrow> bool" where
  "status_is_completed (ECompleted c) = True"
| "status_is_completed _ = False"

fun failure_message :: "exit_status \<Rightarrow> string option" where
  "failure_message (EFailed msg c) = Some msg"
| "failure_message _ = None"

fun readiness_timeout :: "exit_status \<Rightarrow> duration option" where
  "readiness_timeout (EReadinessTimedOut t c) = Some t"
| "readiness_timeout _ = None"

fun is_panicked :: "exit_status \<Rightarrow> bool" where
  "is_panicked (EPanicked c) = True"
| "is_panicked _ = False"

fun timed_out :: "exit_status \<Rightarrow> bool" where
  "timed_out (EAborted True c) = True"
| "timed_out _ = False"

section \<open>Runtime events\<close>

datatype runtime_event =
    SupervisorStartedEv
  | SupervisorStoppingEv
  | SupervisorStoppedEv
  | ChildStartedEv string u64
  | ChildRemovedEv string
  | ChildExitedEv string u64 exit_kind
  | ChildRestartScheduledEv string u64 u64 duration u64 u64
  | ChildRestartedEv string u64 u64
  | RestartIntensityExceededEv

fun event_updates_snapshot :: "runtime_event \<Rightarrow> bool" where
  "event_updates_snapshot (ChildRestartScheduledEv i l g d t c) = False"
| "event_updates_snapshot (ChildRestartedEv i g g') = False"
| "event_updates_snapshot _ = True"

fun event_child_id :: "runtime_event \<Rightarrow> string option" where
  "event_child_id (ChildStartedEv i g) = Some i"
| "event_child_id (ChildExitedEv i g k) = Some i"
| "event_child_id (ChildRestartScheduledEv i l g d t c) = Some i"
| "event_child_id (ChildRestartedEv i g g') = Some i"
| "event_child_id (ChildRemovedEv i) = Some i"
| "event_child_id _ = None"

section \<open>The public projection\<close>

text \<open>
  The public exit status keeps the classification the restart decision was made on: it
  reports a failure exactly for a failed runtime status, a grace timeout exactly for an
  escalated shutdown, a panic exactly for a panic, the readiness bound of either readiness
  timeout, and the cancellation flag it was built with.
\<close>

theorem exit_status_projection:
  "let p = exit_status_new (view show_dur st) c in
     status_is_failure p = is_failure st \<and> status_is_completed p = (\<not> is_failure st) \<and>
     timed_out p = (st = ShutdownTimedOutExit) \<and> is_panicked p = (st = Panicked) \<and>
     readiness_timeout p = (case st of ReadinessTimedOut d \<Rightarrow> Some d | _ \<Rightarrow> None) \<and>
     cancelled p = c"
  by (cases st) (auto simp: is_failure_def Let_def)

lemma from_child_result_failure_iff: "is_failure (from_child_result r) \<longleftrightarrow> (\<exists>e. r = Inl e)"
  by (cases r rule: from_child_result.cases) (auto simp: is_failure_def)

end
