(* ===== verification/Child_Spec.thy ===== *)
theory Child_Spec
  imports Exit_Status
begin

text \<open>
  Child declarations and supervisor configuration (\<open>supervisor/child.rs\<close>,
  \<open>supervisor/builder.rs\<close>): the definition every child carries, the task, one-shot and
  nested-supervisor constructors with their setters, inheritance of the scope's defaults, the
  one-shot factory, and the validation performed by the two supervisor builders.

  The future a task factory produces is the user's program and does not appear; a nested
  supervisor is known by the number of its stable channels.  A process-local attachment is an
  opaque value, here a number.
\<close>

section \<open>Definitions\<close>

datatype child_readiness = Immediate | Manual duration | Automatic

fun is_gated :: "child_readiness \<Rightarrow> bool" where
  "is_gated Immediate = False"
| "is_gated (Manual timeout) = True"
| "is_gated Automatic = True"

datatype child_kind = ChildTask | ChildSupervisor nat

fun is_supervisor :: "child_kind \<Rightarrow> bool" where
  "is_supervisor ChildTask = False"
| "is_supervisor (ChildSupervisor i) = True"

record child_definition =
  cd_id :: string
  cd_restart :: restart_policy
  cd_restart_is_default :: bool
  cd_shutdown_policy :: shutdown
  cd_shutdown_is_default :: bool
  cd_remove_on_terminal_exit :: bool
  cd_readiness :: child_readiness
  cd_attachment :: "nat option"
  cd_kind :: child_kind

definition task_spec_new :: "string \<Rightarrow> child_definition" where
  "task_spec_new i =
     \<lparr>cd_id = i, cd_restart = default_restart_policy, cd_restart_is_default = True,
      cd_shutdown_policy = default_shutdown, cd_shutdown_is_default = True,
      cd_remove_on_terminal_exit = False, cd_readiness = Immediate,
      cd_attachment = None, cd_kind = ChildTask\<rparr>"

definition one_shot_spec_new :: "string \<Rightarrow> child_definition" where
  "one_shot_spec_new i =
     \<lparr>cd_id = i, cd_restart = never, cd_restart_is_default = False,
      cd_shutdown_policy = default_shutdown, cd_shutdown_is_default = True,
      cd_remove_on_terminal_exit = True, cd_readiness = Immediate,
      cd_attachment = None, cd_kind = ChildTask\<rparr>"

definition supervisor_spec :: "string \<Rightarrow> nat \<Rightarrow> child_definition" where
  "supervisor_spec i channels =
     \<lparr>cd_id = i, cd_restart = default_restart_policy, cd_restart_is_default = True,
      cd_shutdown_policy = default_shutdown, cd_shutdown_is_default = True,
      cd_remove_on_terminal_exit = False, cd_readiness = Automatic,
      cd_attachment = None, cd_kind = ChildSupervisor channels\<rparr>"

definition spec_restart :: "restart_policy \<Rightarrow> child_definition \<Rightarrow> child_definition" where
  "spec_restart p d = d\<lparr>cd_restart := p, cd_restart_is_default := False\<rparr>"

definition spec_shutdown :: "shutdown \<Rightarrow> child_definition \<Rightarrow> child_definition" where
  "spec_shutdown p d = d\<lparr>cd_shutdown_policy := p, cd_shutdown_is_default := False\<rparr>"

definition remove_on_terminal_exit :: "child_definition \<Rightarrow> child_definition" where
  "remove_on_terminal_exit d = d\<lparr>cd_remove_on_terminal_exit := True\<rparr>"

definition retain_on_terminal_exit :: "child_definition \<Rightarrow> child_definition" where
  "retain_on_terminal_exit d = d\<lparr>cd_remove_on_terminal_exit := False\<rparr>"

definition spec_attachment :: "nat \<Rightarrow> child_definition \<Rightarrow> child_definition" where
  "spec_attachment a d = d\<lparr>cd_attachment := Some a\<rparr>"

definition manual_readiness :: "duration \<Rightarrow> child_definition \<Rightarrow> child_definition" where
  "manual_readiness timeout d = d\<lparr>cd_readiness := Manual timeout\<rparr>"

definition automatic_readiness :: "child_definition \<Rightarrow> child_definition" where
  "automatic_readiness d = d\<lparr>cd_readiness := Automatic\<rparr>"

definition resolved_policies ::
    "child_definition \<Rightarrow> restart_policy \<Rightarrow> shutdown \<Rightarrow> restart_policy \<times> shutdown" where
  "resolved_policies d default_restart default_sd =
     (if cd_restart_is_default d then default_restart else cd_restart d,
      if cd_shutdown_is_default d then default_sd else cd_shutdown_policy d)"

definition apply_defaults ::
    "restart_policy \<Rightarrow> shutdown \<Rightarrow> child_definition \<Rightarrow> child_definition" where
  "apply_defaults r sd d =
     (let d1 = (if cd_restart_is_default d then d\<lparr>cd_restart := r\<rparr> else d)
      in if cd_shutdown_is_default d1 then d1\<lparr>cd_shutdown_policy := sd\<rparr> else d1)"

section \<open>The one-shot factory\<close>

text \<open>
  The factory's state is whether it still holds its consuming closure; \<open>run\<close> is what the
  closure would return.
\<close>

definition one_shot_make :: "(unit \<Rightarrow> exit_result) \<Rightarrow> bool \<Rightarrow> exit_result \<times> bool" where
  "one_shot_make run present =
     (if present then (run (), False)
      else (Inl (OtherError ''one-shot task factory invoked more than once''), False))"

section \<open>Builders\<close>

record supervisor_config =
  cfg_kind :: scope_kind
  cfg_strategy :: strategy
  cfg_default_child_restart :: restart_policy
  cfg_default_child_shutdown :: shutdown
  cfg_children :: "child_definition list"
  cfg_control_channel_capacity :: nat

definition default_control_channel_capacity :: nat where
  "default_control_channel_capacity = 64"

record ordered_builder =
  ob_strategy :: strategy
  ob_default_child_restart :: restart_policy
  ob_default_child_shutdown :: shutdown
  ob_children :: "child_definition list"

definition ordered_builder_new :: ordered_builder where
  "ordered_builder_new =
     \<lparr>ob_strategy = default_strategy, ob_default_child_restart = default_restart_policy,
      ob_default_child_shutdown = default_shutdown, ob_children = []\<rparr>"

definition ordered_config :: "ordered_builder \<Rightarrow> supervisor_config" where
  "ordered_config b =
     \<lparr>cfg_kind = Ordered, cfg_strategy = ob_strategy b,
      cfg_default_child_restart = ob_default_child_restart b,
      cfg_default_child_shutdown = ob_default_child_shutdown b,
      cfg_children = ob_children b,
      cfg_control_channel_capacity = default_control_channel_capacity\<rparr>"

definition child_spec :: "child_definition \<Rightarrow> ordered_builder \<Rightarrow> ordered_builder" where
  "child_spec d b = b\<lparr>ob_children := ob_children b @ [d]\<rparr>"

definition empty_id_error :: build_error where
  "empty_id_error = InvalidConfig ''child id must not be empty''"

fun validate_children ::
    "string list \<Rightarrow> child_definition list \<Rightarrow> build_error + unit" where
  "validate_children ids [] = Inr ()"
| "validate_children ids (d # ds) =
     (if cd_id d = [] then Inl empty_id_error
      else (case restart_validate (cd_restart d) of
              Inl e \<Rightarrow> Inl e
            | Inr _ \<Rightarrow>
                if cd_id d \<in> set ids then Inl (DuplicateChildId (cd_id d))
                else validate_children (cd_id d # ids) ds))"

definition build_ordered :: "ordered_builder \<Rightarrow> build_error + supervisor_config" where
  "build_ordered b =
     (case restart_validate (ob_default_child_restart b) of
        Inl e \<Rightarrow> Inl e
      | Inr _ \<Rightarrow>
          (case validate_children [] (ob_children b) of
             Inl e \<Rightarrow> Inl e
           | Inr _ \<Rightarrow>
               Inr (ordered_config (b\<lparr>ob_children :=
                 map (apply_defaults (ob_default_child_restart b) (ob_default_child_shutdown b))
                   (ob_children b)\<rparr>))))"

record dynamic_builder =
  db_default_child_restart :: restart_policy
  db_default_child_shutdown :: shutdown

definition dynamic_config :: "dynamic_builder \<Rightarrow> supervisor_config" where
  "dynamic_config b =
     \<lparr>cfg_kind = Dynamic, cfg_strategy = OneForOne,
      cfg_default_child_restart = db_default_child_restart b,
      cfg_default_child_shutdown = db_default_child_shutdown b,
      cfg_children = [], cfg_control_channel_capacity = default_control_channel_capacity\<rparr>"

definition build_dynamic :: "dynamic_builder \<Rightarrow> build_error + supervisor_config" where
  "build_dynamic b =
     (case restart_validate (db_default_child_restart b) of
        Inl e \<Rightarrow> Inl e
      | Inr _ \<Rightarrow> Inr (dynamic_config b))"

section \<open>What a built configuration guarantees\<close>

lemma apply_defaults_id [simp]:
  "cd_id (apply_defaults r sd d) = cd_id d"
  "cd_kind (apply_defaults r sd d) = cd_kind d"
  "cd_readiness (apply_defaults r sd d) = cd_readiness d"
  "cd_attachment (apply_defaults r sd d) = cd_attachment d"
  "cd_remove_on_terminal_exit (apply_defaults r sd d) = cd_remove_on_terminal_exit d"
  by (simp_all add: apply_defaults_def Let_def)

lemma apply_defaults_resolved:
  "(cd_restart (apply_defaults r sd d), cd_shutdown_policy (apply_defaults r sd d))
     = resolved_policies d r sd"
  by (simp add: apply_defaults_def resolved_policies_def Let_def)

lemma validate_children_ok:
  "validate_children ids ds = Inr () \<longleftrightarrow>
     (\<forall>d \<in> set ds. cd_id d \<noteq> [] \<and> restart_validate (cd_restart d) = Inr ()) \<and>
     distinct (map cd_id ds) \<and> set (map cd_id ds) \<inter> set ids = {}"
  by (induction ids ds rule: validate_children.induct) (auto split: sum.splits)

text \<open>
  Building an ordered supervisor succeeds exactly when the scope's default restart policy
  and every child's own policy validate, every id is non-empty and no id repeats; the result
  then keeps the declared children in order, each with the policies its declaration resolves
  to (an explicit policy is never overridden), and every policy in it validates.
\<close>

theorem build_ordered_iff:
  "(case build_ordered b of
      Inl _ \<Rightarrow>
        \<not> (restart_validate (ob_default_child_restart b) = Inr () \<and>
           distinct (map cd_id (ob_children b)) \<and>
           list_all (\<lambda>d. cd_id d \<noteq> [] \<and> restart_validate (cd_restart d) = Inr ()) (ob_children b))
    | Inr c \<Rightarrow>
        restart_validate (ob_default_child_restart b) = Inr () \<and>
        distinct (map cd_id (cfg_children c)) \<and> [] \<notin> set (map cd_id (cfg_children c)) \<and>
        map cd_id (cfg_children c) = map cd_id (ob_children b) \<and>
        map (\<lambda>d. (cd_restart d, cd_shutdown_policy d)) (cfg_children c) =
          map (\<lambda>d. resolved_policies d (ob_default_child_restart b) (ob_default_child_shutdown b))
            (ob_children b) \<and>
        list_all (\<lambda>d. restart_validate (cd_restart d) = Inr ()) (cfg_children c))"
proof (cases "build_ordered b")
  case (Inl e)
  have "restart_validate (ob_default_child_restart b) \<noteq> Inr () \<or>
      validate_children [] (ob_children b) \<noteq> Inr ()"
    using Inl by (auto simp: build_ordered_def split: sum.splits)
  then show ?thesis using Inl by (auto simp: validate_children_ok list_all_iff)
next
  case (Inr c)
  let ?f = "apply_defaults (ob_default_child_restart b) (ob_default_child_shutdown b)"
  have ok: "restart_validate (ob_default_child_restart b) = Inr ()"
    "validate_children [] (ob_children b) = Inr ()"
    and c: "cfg_children c = map ?f (ob_children b)"
    using Inr by (auto simp: build_ordered_def ordered_config_def split: sum.splits)
  have "list_all (\<lambda>d. restart_validate (cd_restart d) = Inr ()) (cfg_children c)"
    using ok by (auto simp: c list_all_iff validate_children_ok apply_defaults_def Let_def)
  moreover have "[] \<notin> set (map cd_id (ob_children b))"
    using ok(2) by (force simp: validate_children_ok)
  ultimately show ?thesis
    using ok by (simp add: Inr c validate_children_ok apply_defaults_resolved comp_def)
qed

lemma one_shot_runs_once:
  "\<not> snd (one_shot_make run present) \<and> fst (one_shot_make run True) = run () \<and>
   is_failure (from_child_result (fst (one_shot_make run False)))"
  by (simp add: one_shot_make_def is_failure_def)

end
