(* ===== verification/Restart_Tracker.thy ===== *)
theory Restart_Tracker
  imports Policies
begin

unbundle bit_operations_syntax

text \<open>
  The sliding-window restart limiter of \<open>supervisor/runtime/intensity.rs\<close>: the deque of
  restart timestamps, the consecutive-restart counter that drives exponential backoff, and
  the xorshift generator behind jitter.  The window is refined against the complete restart
  history, the backoff against its closed form.
\<close>

section \<open>Jitter\<close>

definition xorshift64 :: "64 word \<Rightarrow> 64 word" where
  "xorshift64 st =
     (let s0 = (if st = 0 then 1 else st);
          s1 = s0 XOR push_bit 13 s0;
          s2 = s1 XOR drop_bit 7 s1
      in s2 XOR push_bit 17 s2)"

text \<open>The wall clock's nanoseconds since the epoch are an input.\<close>

definition seed_jitter_rng :: "nat \<Rightarrow> 64 word" where
  "seed_jitter_rng nanos =
     (let seed = (of_nat nanos :: 64 word) XOR of_nat (nanos div 2 ^ 64) XOR 0x9e3779b97f4a7c15
      in if seed = 0 then 1 else seed)"

definition duration_from_nanos :: "nat \<Rightarrow> duration" where
  "duration_from_nanos nanos =
     (nanos div 1000000000) mod 2 ^ 64 * 1000000000 + nanos mod 1000000000"

definition jitter_between :: "64 word \<Rightarrow> duration \<Rightarrow> duration \<Rightarrow> duration \<times> 64 word" where
  "jitter_between st mn mx =
     (if mx \<le> mn then (mx, st)
      else let span = mx - mn;
               st' = xorshift64 st;
               offset = unat st' mod (span + 1)
           in (duration_from_nanos (mn + offset), st'))"

section \<open>Exponential backoff\<close>

fun exponential_loop :: "duration \<Rightarrow> nat \<Rightarrow> duration \<Rightarrow> nat \<Rightarrow> duration" where
  "exponential_loop delay f mx 0 = min delay mx"
| "exponential_loop delay f mx (Suc n) =
     (let delay' = duration_saturating_mul delay f
      in if mx \<le> delay' then mx else exponential_loop delay' f mx n)"

definition exponential_backoff :: "duration \<Rightarrow> nat \<Rightarrow> duration \<Rightarrow> usize \<Rightarrow> duration" where
  "exponential_backoff b f mx steps = exponential_loop b f mx steps"

section \<open>The tracker\<close>

record restart_tracker =
  tr_max_restarts :: usize
  tr_within :: duration
  tr_backoff :: backoff
  tr_times :: "instant list"
  tr_rng :: "64 word"
  tr_total_restarts :: u64
  tr_consecutive_restarts :: usize
  tr_run_started_at :: "instant option"

definition tracker_new :: "nat \<Rightarrow> restart_policy \<Rightarrow> restart_tracker" where
  "tracker_new seed_nanos intensity =
     \<lparr>tr_max_restarts = (case policy_max_restarts intensity of None \<Rightarrow> 0 | Some m \<Rightarrow> m),
      tr_within = (case policy_within intensity of None \<Rightarrow> from_secs 30 | Some w \<Rightarrow> w),
      tr_backoff = (case backoff_policy intensity of None \<Rightarrow> BackoffNone | Some b \<Rightarrow> b),
      tr_times = [], tr_rng = seed_jitter_rng seed_nanos,
      tr_total_restarts = 0, tr_consecutive_restarts = 0, tr_run_started_at = None\<rparr>"

definition record_spawn :: "instant \<Rightarrow> restart_tracker \<Rightarrow> restart_tracker" where
  "record_spawn now t = t\<lparr>tr_run_started_at := Some now\<rparr>"

definition tracker_record_exit :: "instant \<Rightarrow> restart_tracker \<Rightarrow> restart_tracker" where
  "tracker_record_exit now t =
     (let t' = t\<lparr>tr_run_started_at := None\<rparr>
      in case tr_run_started_at t of
           None \<Rightarrow> t'
         | Some started \<Rightarrow>
             if tr_within t < duration_since now started
             then t'\<lparr>tr_consecutive_restarts := 0\<rparr> else t')"

fun evict :: "instant \<Rightarrow> duration \<Rightarrow> instant list \<Rightarrow> instant list" where
  "evict now w [] = []"
| "evict now w (front # rest) =
     (if w < duration_since now front then evict now w rest else front # rest)"

definition record_restart :: "instant \<Rightarrow> restart_tracker \<Rightarrow> restart_tracker" where
  "record_restart now t =
     t\<lparr>tr_times := evict now (tr_within t) (tr_times t) @ [now],
       tr_total_restarts := u64_saturating_add (tr_total_restarts t) 1,
       tr_consecutive_restarts := u64_saturating_add (tr_consecutive_restarts t) 1\<rparr>"

definition exceeded :: "restart_tracker \<Rightarrow> bool" where
  "exceeded t \<longleftrightarrow> tr_max_restarts t < length (tr_times t)"

definition tracker_backoff :: "restart_tracker \<Rightarrow> duration \<times> restart_tracker" where
  "tracker_backoff t =
     (case tr_backoff t of
        BackoffNone \<Rightarrow> (0, t)
      | Fixed delay \<Rightarrow> (delay, t)
      | Exponential b f mx jit \<Rightarrow>
          let deterministic = exponential_backoff b f mx (tr_consecutive_restarts t - 1)
          in if jit
             then case jitter_between (tr_rng t) (deterministic div 2) deterministic of
                    (d, st) \<Rightarrow> (d, t\<lparr>tr_rng := st\<rparr>)
             else (deterministic, t))"

section \<open>The generator never gets stuck\<close>

lemma xor_shift_nonzero:
  fixes x :: "'a::len word"
  assumes "x \<noteq> 0" and "0 < k"
  shows "x XOR push_bit k x \<noteq> 0" and "x XOR drop_bit k x \<noteq> 0"
proof -
  let ?B = "{i. bit x i}"
  have fin: "finite ?B"
    by (rule finite_subset [of _ "{..<LENGTH('a)}"]) (auto dest: bit_imp_le_length)
  have ne: "?B \<noteq> {}"
    using assms(1) by (auto simp: bit_eq_iff)
  define lo where "lo = Min ?B"
  have lo: "\<not> bit x i" if "i < lo" for i
  proof
    assume "bit x i"
    then have "lo \<le> i" using Min_le [OF fin, of i] by (simp add: lo_def)
    with that show False by simp
  qed
  have lo': "bit x lo" using Min_in [OF fin ne] by (simp add: lo_def)
  have "bit (x XOR push_bit k x) lo"
    using lo lo' assms(2) bit_imp_le_length [OF lo']
    by (auto simp: bit_xor_iff bit_push_bit_iff)
  then show "x XOR push_bit k x \<noteq> 0" by auto
  define hi where "hi = Max ?B"
  have hi: "\<not> bit x i" if "hi < i" for i
  proof
    assume "bit x i"
    then have "i \<le> hi" using Max_ge [OF fin, of i] by (simp add: hi_def)
    with that show False by simp
  qed
  have hi': "bit x hi" using Max_in [OF fin ne] by (simp add: hi_def)
  have "bit (x XOR drop_bit k x) hi"
    using hi [of "k + hi"] hi' assms(2) by (simp add: bit_xor_iff bit_drop_bit_eq)
  then show "x XOR drop_bit k x \<noteq> 0" by auto
qed

lemma xorshift64_nonzero: "xorshift64 st \<noteq> 0"
  unfolding xorshift64_def Let_def
  by (intro xor_shift_nonzero) auto

lemma duration_from_nanos_id: "n \<le> duration_max \<Longrightarrow> duration_from_nanos n = n"
proof -
  assume "n \<le> duration_max"
  then have "n div 1000000000 \<le> duration_max div 1000000000" by (rule div_le_mono)
  also have "\<dots> < 2 ^ 64" by (simp add: duration_max_def)
  finally have "n div 1000000000 < 2 ^ 64" .
  then show ?thesis by (simp add: duration_from_nanos_def)
qed

lemma jitter_between_bounds:
  assumes "mn \<le> mx" and "mx \<le> duration_max"
  shows "mn \<le> fst (jitter_between st mn mx) \<and> fst (jitter_between st mn mx) \<le> mx"
proof (cases "mx \<le> mn")
  case True
  with assms show ?thesis by (simp add: jitter_between_def)
next
  case False
  let ?o = "unat (xorshift64 st) mod (mx - mn + 1)"
  have o: "?o \<le> mx - mn"
    using mod_less_divisor [of "mx - mn + 1" "unat (xorshift64 st)"] by linarith
  with assms False have "duration_from_nanos (mn + ?o) = mn + ?o"
    by (intro duration_from_nanos_id) linarith
  moreover have "mn + ?o \<le> mx" using o False by linarith
  ultimately show ?thesis using False by (simp add: jitter_between_def Let_def)
qed

section \<open>Backoff agrees with its closed form\<close>

lemma exponential_loop_closed:
  assumes "1 \<le> f" and "mx \<le> duration_max"
  shows "exponential_loop delay f mx n = min mx (delay * f ^ n)"
proof (induction n arbitrary: delay)
  case 0
  then show ?case by (simp add: min.commute)
next
  case (Suc n)
  have grow: "delay * f \<le> delay * f * f ^ n"
    using assms(1) by simp
  show ?case
  proof (cases "mx \<le> duration_saturating_mul delay f")
    case True
    then have "mx \<le> delay * f" by (simp add: duration_saturating_mul_def)
    with grow have "mx \<le> delay * f * f ^ n" by linarith
    then have "mx \<le> delay * f ^ Suc n" by (simp add: mult.assoc)
    with True show ?thesis by (simp add: Let_def)
  next
    case False
    with assms(2) have "duration_saturating_mul delay f = delay * f"
      by (auto simp: duration_saturating_mul_def min_def split: if_splits)
    with False Suc.IH show ?thesis by (simp add: Let_def algebra_simps)
  qed
qed

text \<open>
  The restart delay loop, with its saturating multiplication and early return, computes
  \<open>base * factor ^ steps\<close> clamped to the configured maximum, for every validated factor.
\<close>

theorem exponential_backoff_closed:
  assumes "1 \<le> f" and "mx \<le> duration_max"
  shows "exponential_backoff b f mx steps = min mx (b * f ^ steps)"
  using exponential_loop_closed [OF assms] by (simp add: exponential_backoff_def)

theorem exponential_backoff_closed_witness:
  "(1::nat) \<le> 3 \<and> from_secs 10 \<le> duration_max \<and>
   exponential_backoff (from_secs 1) 3 (from_secs 10) 2 = min (from_secs 10) (from_secs 1 * 3 ^ 2)"
proof -
  have h: "(1::nat) \<le> 3" "from_secs 10 \<le> duration_max"
    by (simp_all add: from_secs_def duration_max_def)
  with exponential_backoff_closed [OF h, of "from_secs 1" 2] show ?thesis by simp
qed

text \<open>
  Equal jitter: with jitter enabled the delay lies between half of the deterministic
  delay and all of it; the delay never exceeds the configured maximum.
\<close>

theorem tracker_backoff_jitter_bounds:
  assumes "tr_backoff t = Exponential b f mx jit" and "1 \<le> f" and "mx \<le> duration_max"
  shows "min mx (b * f ^ (tr_consecutive_restarts t - 1)) div 2 \<le> fst (tracker_backoff t) \<and>
         fst (tracker_backoff t) \<le> min mx (b * f ^ (tr_consecutive_restarts t - 1))"
proof -
  define d where "d = exponential_backoff b f mx (tr_consecutive_restarts t - 1)"
  have d: "d = min mx (b * f ^ (tr_consecutive_restarts t - 1))"
    using exponential_loop_closed [OF assms(2,3)] by (simp add: exponential_backoff_def d_def)
  with assms(3) have "d \<le> duration_max" by simp
  then have j: "d div 2 \<le> fst (jitter_between (tr_rng t) (d div 2) d) \<and>
      fst (jitter_between (tr_rng t) (d div 2) d) \<le> d"
    by (intro jitter_between_bounds) simp_all
  have "fst (tracker_backoff t) =
      (if jit then fst (jitter_between (tr_rng t) (d div 2) d) else d)"
    by (simp add: tracker_backoff_def assms(1) d_def Let_def split: prod.splits)
  with j have "d div 2 \<le> fst (tracker_backoff t) \<and> fst (tracker_backoff t) \<le> d" by simp
  then show ?thesis by (simp add: d)
qed

theorem tracker_backoff_jitter_bounds_witness:
  "let t = tracker_new 0 (OnFailure 5 10 (Exponential 4 2 100 True))
   in min 100 (4 * 2 ^ (tr_consecutive_restarts t - 1)) div 2 \<le> fst (tracker_backoff t) \<and>
      fst (tracker_backoff t) \<le> min 100 (4 * 2 ^ (tr_consecutive_restarts t - 1))"
  unfolding Let_def
  by (rule tracker_backoff_jitter_bounds [where jit = True])
    (simp_all add: tracker_new_def duration_max_def)

section \<open>The window is exact\<close>

lemma evict_filter:
  "sorted ts \<Longrightarrow> evict now w ts = filter (\<lambda>t. duration_since now t \<le> w) ts"
proof (induction ts)
  case Nil
  then show ?case by simp
next
  case (Cons t ts)
  have "filter (\<lambda>u. duration_since now u \<le> w) ts = ts" if "duration_since now t \<le> w"
    using that Cons.prems by (auto simp: filter_id_conv duration_since_def)
  with Cons show ?case by auto
qed

definition record_all :: "instant list \<Rightarrow> restart_tracker \<Rightarrow> restart_tracker" where
  "record_all ts t = fold record_restart ts t"

lemma record_restart_frame [simp]:
  "tr_within (record_restart now t) = tr_within t"
  "tr_max_restarts (record_restart now t) = tr_max_restarts t"
  "tr_backoff (record_restart now t) = tr_backoff t"
  by (simp_all add: record_restart_def)

lemma record_all_frame [simp]:
  "tr_within (record_all ts t) = tr_within t" "tr_max_restarts (record_all ts t) = tr_max_restarts t"
  by (induction ts arbitrary: t) (simp_all add: record_all_def)

lemma filter_window_shrinks:
  "now \<le> now' \<Longrightarrow>
   filter (\<lambda>t. duration_since now' t \<le> w) (filter (\<lambda>t. duration_since now t \<le> w) ts)
     = filter (\<lambda>t. duration_since now' t \<le> w) ts"
  by (auto simp: duration_since_def intro!: filter_cong)

lemma record_all_times:
  assumes "sorted ts" and "ts \<noteq> []" and "tr_times t = []"
  shows "tr_times (record_all ts t) = filter (\<lambda>u. duration_since (last ts) u \<le> tr_within t) ts"
  using assms
proof (induction ts rule: rev_induct)
  case Nil
  then show ?case by simp
next
  case (snoc now ts)
  have IH: "tr_times (record_all ts t) =
      (if ts = [] then [] else filter (\<lambda>u. duration_since (last ts) u \<le> tr_within t) ts)"
    using snoc.IH snoc.prems by (auto simp: sorted_append record_all_def)
  have step: "tr_times (record_all (ts @ [now]) t)
      = evict now (tr_within t) (tr_times (record_all ts t)) @ [now]"
    using record_all_frame(1) [of ts t] by (simp add: record_all_def record_restart_def)
  have "evict now (tr_within t) (tr_times (record_all ts t))
      = filter (\<lambda>u. duration_since now u \<le> tr_within t) ts"
  proof (cases "ts = []")
    case True
    with snoc.prems(3) show ?thesis by (simp add: record_all_def)
  next
    case False
    from snoc.prems(1) have "sorted ts" "\<forall>u \<in> set ts. u \<le> now"
      by (auto simp: sorted_append)
    with False show ?thesis
      by (simp add: IH evict_filter sorted_wrt_filter filter_window_shrinks del: filter_filter)
  qed
  with step show ?case by (simp add: duration_since_def)
qed

text \<open>
  C25. The restart budget is exact: after any sequence of restarts on a monotone clock, the
  tracker reports the budget exceeded exactly when more than \<open>max_restarts\<close> of all
  restarts so far lie within the window that ends at the latest one.  Evicting timestamps
  early loses nothing.
\<close>

theorem exceeded_iff_window_count:
  assumes "sorted ts" and "ts \<noteq> []" and "tr_times t = []"
  shows "exceeded (record_all ts t) \<longleftrightarrow>
     tr_max_restarts t < length (filter (\<lambda>u. duration_since (last ts) u \<le> tr_within t) ts)"
  using record_all_times [OF assms] by (simp add: exceeded_def)

theorem exceeded_iff_window_count_witness:
  "let t = tracker_new 0 (OnFailure 1 10 BackoffNone)
   in exceeded (record_all [1, 5, 12] t) \<longleftrightarrow>
        1 < length (filter (\<lambda>u. duration_since 12 u \<le> 10) [1, 5, 12])"
proof -
  have "sorted [1, 5, 12 :: nat]" "[1, 5, 12 :: nat] \<noteq> []"
      "tr_times (tracker_new 0 (OnFailure 1 10 BackoffNone)) = []"
    by (simp_all add: tracker_new_def)
  from exceeded_iff_window_count [OF this] show ?thesis
    by (simp add: tracker_new_def Let_def)
qed

text \<open>The deque stays sorted and within its budget plus the restart that exceeds it.\<close>

definition tracker_inv :: "instant \<Rightarrow> restart_tracker \<Rightarrow> bool" where
  "tracker_inv now t \<longleftrightarrow>
     sorted (tr_times t) \<and> (\<forall>u \<in> set (tr_times t). u \<le> now) \<and>
     tr_total_restarts t \<le> u64_max \<and> tr_consecutive_restarts t \<le> u64_max"

lemma set_evict: "set (evict now w ts) \<subseteq> set ts"
  by (induction ts) auto

lemma sorted_evict: "sorted ts \<Longrightarrow> sorted (evict now w ts)"
  by (simp add: evict_filter sorted_wrt_filter)

lemma length_evict: "length (evict now w ts) \<le> length ts"
  by (induction ts) auto

lemma record_restart_inv: "tracker_inv now t \<Longrightarrow> now \<le> now' \<Longrightarrow> tracker_inv now' (record_restart now' t)"
  using set_evict [of now' "tr_within t" "tr_times t"]
  by (fastforce simp: tracker_inv_def record_restart_def sorted_append sorted_evict
      u64_saturating_add_le)

lemma record_restart_budget:
  "\<not> exceeded t \<Longrightarrow> length (tr_times (record_restart now t)) \<le> Suc (tr_max_restarts t)"
  using length_evict [of now "tr_within t" "tr_times t"]
  by (simp add: exceeded_def record_restart_def)

end
