(* ===== verification/Lag_Queue.thy ===== *)
theory Lag_Queue
  imports Kokage_Prelude
begin

text \<open>
  The contract shared by the two bounded observation buffers of the program, the lifecycle
  event queue (trait \<open>Laggable\<close> in \<open>supervisor/lifecycle.rs\<close>) and the actor watch queue
  (\<open>actor/monitor.rs\<close>).  Both make room by folding the oldest real events into one lag
  marker at the front.  The laws a provider promises are the two cases of its
  \<open>record_drop\<close> step and the unfolding of its compaction loop; the clients' lemmas say that
  the buffer stays bounded, that the newest events survive in order, and that every discarded
  event is accounted for by the marker.
\<close>

locale lag_compaction =
  fixes is_lagged :: "'e \<Rightarrow> bool"
    and lost :: "'e \<Rightarrow> nat"
    and marker :: "'e \<Rightarrow> 'e"
    and bump :: "'e \<Rightarrow> 'e \<Rightarrow> 'e"
    and record_drop :: "'e list \<Rightarrow> 'e list"
    and bound :: nat
    and compact :: "'e list \<Rightarrow> 'e list"
  assumes bound_ge: "2 \<le> bound"
    and marker_lagged: "is_lagged (marker e)"
    and marker_lost: "lost (marker e) = 1"
    and bump_lagged: "is_lagged m \<Longrightarrow> is_lagged (bump m e)"
    and bump_lost: "is_lagged m \<Longrightarrow> lost (bump m e) = u64_saturating_add (lost m) 1"
    and drop_fresh: "\<not> is_lagged e \<Longrightarrow> record_drop (e # q) = marker e # q"
    and drop_more: "is_lagged m \<Longrightarrow> record_drop (m # e # q) = bump m e # q"
    and compact_step:
      "compact q = (if bound \<le> length q then compact (record_drop q) else q)"
begin

text \<open>Events a queue stands for: each real event once, a marker as many as it lost.\<close>

definition weight :: "'e list \<Rightarrow> nat" where
  "weight q = sum_list (map (\<lambda>e. if is_lagged e then lost e else 1) q)"

definition reals :: "'e list \<Rightarrow> 'e list" where
  "reals q = filter (\<lambda>e. \<not> is_lagged e) q"

definition front_marked :: "'e list \<Rightarrow> bool" where
  "front_marked q \<longleftrightarrow> (\<forall>e \<in> set (tl q). \<not> is_lagged e)"

definition slack :: "'e list \<Rightarrow> nat" where
  "slack q = 2 * length q + (case q of [] \<Rightarrow> 0 | e # _ \<Rightarrow> if is_lagged e then 0 else 1)"

lemma drop_cases:
  assumes "2 \<le> length q"
  obtains (fresh) e r where "q = e # r" and "\<not> is_lagged e" and "record_drop q = marker e # r"
    | (more) m e r where "q = m # e # r" and "is_lagged m" and "record_drop q = bump m e # r"
proof -
  from assms obtain a b r where q: "q = a # b # r"
    by (cases q; cases "tl q") auto
  show thesis
  proof (cases "is_lagged a")
    case True
    with q show thesis by (intro more [of a b r]) (simp_all add: drop_more)
  next
    case False
    with q show thesis by (intro fresh [of a "b # r"]) (simp_all add: drop_fresh)
  qed
qed

lemma record_drop_slack: "2 \<le> length q \<Longrightarrow> slack (record_drop q) < slack q"
  by (cases q rule: drop_cases) (auto simp: slack_def marker_lagged bump_lagged)

lemma record_drop_front: "2 \<le> length q \<Longrightarrow> front_marked q \<Longrightarrow> front_marked (record_drop q)"
  by (cases q rule: drop_cases) (auto simp: front_marked_def)

lemma record_drop_nonempty: "2 \<le> length q \<Longrightarrow> record_drop q \<noteq> []"
  by (cases q rule: drop_cases) auto

lemma record_drop_weight:
  assumes "2 \<le> length q" and "front_marked q" and "weight q \<le> u64_max"
  shows "weight (record_drop q) = weight q"
  using assms(1)
proof (cases q rule: drop_cases)
  case (fresh e r)
  then show ?thesis by (simp add: weight_def marker_lagged marker_lost)
next
  case (more m e r)
  with assms show ?thesis
    by (simp add: weight_def bump_lagged bump_lost front_marked_def u64_saturating_add_def)
qed

lemma record_drop_reals:
  assumes "2 \<le> length q" and "front_marked q"
  shows "\<exists>n. reals (record_drop q) = drop n (reals q)"
  using assms(1)
proof (cases q rule: drop_cases)
  case (fresh e r)
  then show ?thesis by (intro exI [of _ 1]) (simp add: reals_def marker_lagged)
next
  case (more m e r)
  with assms show ?thesis
    by (intro exI [of _ 1]) (simp add: reals_def bump_lagged front_marked_def)
qed

lemma record_drop_last:
  assumes "2 \<le> length q" and "q' = record_drop q" and "2 \<le> length q'"
  shows "last q' = last q"
  using assms(1)
proof (cases q rule: drop_cases)
  case (fresh e r)
  with assms show ?thesis by auto
next
  case (more m e r)
  with assms show ?thesis by auto
qed

lemma compact_props:
  assumes "front_marked q"
  shows "length (compact q) < bound \<and> front_marked (compact q) \<and>
    (\<exists>n. reals (compact q) = drop n (reals q)) \<and>
    (weight q \<le> u64_max \<longrightarrow> weight (compact q) = weight q) \<and>
    (compact q = [] \<longleftrightarrow> q = [])"
  using assms
proof (induction "slack q" arbitrary: q rule: less_induct)
  case less
  show ?case
  proof (cases "bound \<le> length q")
    case False
    then have eq: "compact q = q" by (subst compact_step) simp
    have "\<exists>n. reals q = drop n (reals q)" by (rule exI [of _ 0]) simp
    with False less.prems show ?thesis unfolding eq by simp
  next
    case True
    with bound_ge have two: "2 \<le> length q" by simp
    define q' where "q' = record_drop q"
    have eq: "compact q = compact q'"
      using True by (subst compact_step) (simp add: q'_def)
    have front: "front_marked q'"
      unfolding q'_def by (rule record_drop_front [OF two less.prems])
    have IH: "length (compact q') < bound \<and> front_marked (compact q') \<and>
        (\<exists>n. reals (compact q') = drop n (reals q')) \<and>
        (weight q' \<le> u64_max \<longrightarrow> weight (compact q') = weight q') \<and>
        (compact q' = [] \<longleftrightarrow> q' = [])"
      using record_drop_slack [OF two] front by (intro less.hyps) (simp_all add: q'_def)
    obtain n m where "reals q' = drop n (reals q)" and "reals (compact q') = drop m (reals q')"
      using record_drop_reals [OF two less.prems] IH unfolding q'_def by blast
    then have "reals (compact q') = drop (m + n) (reals q)" by simp
    moreover have "weight q \<le> u64_max \<longrightarrow> weight (compact q') = weight q"
      using record_drop_weight [OF two less.prems] IH by (simp add: q'_def)
    moreover have "q' \<noteq> []" "q \<noteq> []"
      using record_drop_nonempty [OF two] two by (auto simp: q'_def)
    ultimately show ?thesis using IH unfolding eq by blast
  qed
qed

lemma compact_last:
  assumes "3 \<le> bound" and "q \<noteq> []"
  shows "last (compact q) = last q"
  using assms(2)
proof (induction "slack q" arbitrary: q rule: less_induct)
  case less
  show ?case
  proof (cases "bound \<le> length q")
    case False
    then show ?thesis by (subst compact_step) simp
  next
    case True
    with assms(1) have three: "3 \<le> length q" by simp
    then have two: "2 \<le> length q" by simp
    have "2 \<le> length (record_drop q)"
      using two
    proof (cases q rule: drop_cases)
      case (fresh e r)
      with two show ?thesis by simp
    next
      case (more m e r)
      with three show ?thesis by simp
    qed
    then have "last (record_drop q) = last q" using record_drop_last [OF two] by simp
    moreover have "compact q = compact (record_drop q)"
      using True by (subst compact_step) simp
    ultimately show ?thesis
      using less.hyps [of "record_drop q"] record_drop_slack [OF two]
        record_drop_nonempty [OF two] by simp
  qed
qed

end

text \<open>A bounded queue: an insertion compacts first and then appends.\<close>

locale lag_queue = lag_compaction +
  fixes push :: "'a \<Rightarrow> 'a list \<Rightarrow> 'a list"
  assumes push_compacts: "push e q = compact q @ [e]"
begin

lemma push_bounded: "front_marked q \<Longrightarrow> length (push e q) \<le> bound"
  using compact_props [of q] by (simp add: push_compacts)

lemma push_front: "front_marked q \<Longrightarrow> \<not> is_lagged e \<Longrightarrow> front_marked (push e q)"
  using compact_props [of q]
  by (cases "compact q") (auto simp: push_compacts front_marked_def)

lemma push_last [simp]: "last (push e q) = e"
  by (simp add: push_compacts)

lemma push_weight:
  "front_marked q \<Longrightarrow> \<not> is_lagged e \<Longrightarrow> weight q \<le> u64_max \<Longrightarrow> weight (push e q) = weight q + 1"
  using compact_props [of q] by (simp add: push_compacts weight_def)

lemma push_reals:
  "front_marked q \<Longrightarrow> \<not> is_lagged e \<Longrightarrow> \<exists>n. reals (push e q) = drop n (reals q) @ [e]"
  using compact_props [of q] by (auto simp: push_compacts reals_def)

lemma push_small: "length q < bound \<Longrightarrow> push e q = q @ [e]"
  by (subst push_compacts, subst compact_step) simp

text \<open>A whole history of pushes into an empty queue.\<close>

lemma push_history:
  assumes "\<forall>e \<in> set es. \<not> is_lagged e" and "length es \<le> u64_max"
  shows "length (fold push es []) \<le> bound \<and> front_marked (fold push es []) \<and>
    weight (fold push es []) = length es \<and>
    (\<exists>n. reals (fold push es []) = drop n es)"
  using assms
proof (induction es rule: rev_induct)
  case Nil
  then show ?case by (simp add: front_marked_def weight_def reals_def)
next
  case (snoc e es)
  let ?q = "fold push es []"
  from snoc have IH: "front_marked ?q" "weight ?q = length es"
      and r: "\<exists>n. reals ?q = drop n es"
    by simp_all
  from r obtain n where n: "reals ?q = drop n es" ..
  have e: "\<not> is_lagged e" using snoc.prems by simp
  obtain m where m: "reals (push e ?q) = drop m (reals ?q) @ [e]"
    using push_reals [OF IH(1) e] by blast
  have "drop m (drop n es) @ [e] = drop (min (m + n) (length es)) (es @ [e])"
    by (simp add: min_def)
  then have "\<exists>n. reals (push e ?q) = drop n (es @ [e])" using m n by metis
  with push_bounded [OF IH(1)] push_front [OF IH(1) e] push_weight [OF IH(1) e] IH(2) snoc.prems
  show ?case by simp
qed

end

end
