(* ===== verification/Snapshot.thy ===== *)
theory Snapshot
  imports Exit_Status
begin

text \<open>
  Point-in-time supervisor state (\<open>supervisor/snapshot.rs\<close>): the recursive snapshot values
  and their lookups, the waiting loops over a conflating snapshot stream, and the coalescing
  cell through which a nested supervisor forwards its snapshots to its parent.
\<close>

datatype supervisor_state_view = SVRunning | SVStopping | SVStopped

datatype child_state_view =
    CVStarting (previous_exit: "exit_status option")
  | CVRunning (previous_exit: "exit_status option")
  | CVStopping (started: bool) (previous_exit: "exit_status option")
  | CVStopped (started: bool) (exit_of: "exit_status option")
  | CVStartupAborted (aborted_exit: exit_status)

datatype child_membership_view = MVActive | MVRemoving

datatype supervisor_snapshot = SupervisorSnapshot
    (ss_state: supervisor_state_view)
    (ss_kind: scope_kind)
    (ss_strategy: strategy)
    (ss_total_restarts: u64)
    (ss_lifecycle_seq: u64)
    (ss_children: "child_snapshot list")
and child_snapshot = ChildSnapshot
    (cs_id: string)
    (cs_lineage: u64)
    (cs_generation: u64)
    (cs_state: child_state_view)
    (cs_membership: child_membership_view)
    (cs_restart_count: u64)
    (cs_restart_policy: restart_policy)
    (cs_remove_on_terminal_exit: bool)
    (cs_next_restart_in: "duration option")
    (cs_supervisor: "supervisor_snapshot option")

fun view_is_running :: "child_state_view \<Rightarrow> bool" where
  "view_is_running (CVRunning p) = True"
| "view_is_running _ = False"

fun view_is_terminal :: "child_state_view \<Rightarrow> bool" where
  "view_is_terminal (CVStopped st e) = True"
| "view_is_terminal (CVStartupAborted e) = True"
| "view_is_terminal _ = False"

fun view_last_exit :: "child_state_view \<Rightarrow> exit_status option" where
  "view_last_exit (CVStarting p) = p"
| "view_last_exit (CVRunning p) = p"
| "view_last_exit (CVStopping st p) = p"
| "view_last_exit (CVStopped st e) = e"
| "view_last_exit (CVStartupAborted e) = Some e"

definition snapshot_child :: "supervisor_snapshot \<Rightarrow> string \<Rightarrow> child_snapshot option" where
  "snapshot_child s cid = find (\<lambda>c. cs_id c = cid) (ss_children s)"

fun descend :: "child_snapshot \<Rightarrow> string list \<Rightarrow> child_snapshot option" where
  "descend c [] = Some c"
| "descend c (seg # path) =
     (case cs_supervisor c of
        None \<Rightarrow> None
      | Some s \<Rightarrow> (case snapshot_child s seg of None \<Rightarrow> None | Some c' \<Rightarrow> descend c' path))"

fun descendant :: "supervisor_snapshot \<Rightarrow> string list \<Rightarrow> child_snapshot option" where
  "descendant s [] = None"
| "descendant s (seg # path) =
     (case snapshot_child s seg of None \<Rightarrow> None | Some c \<Rightarrow> descend c path)"

section \<open>Waiting on a conflating stream\<close>

datatype snapshot_recv_error = StreamClosed | ChildRemoved

text \<open>
  A waiter examines the current snapshot, then one later snapshot per wake-up; the list
  holds the snapshots it examines, and its end is the closing of the stream.
\<close>

fun wait_for ::
    "(supervisor_snapshot \<Rightarrow> bool) \<Rightarrow> supervisor_snapshot list
       \<Rightarrow> snapshot_recv_error + supervisor_snapshot" where
  "wait_for P [] = Inl StreamClosed"
| "wait_for P (s # ss) = (if P s then Inr s else wait_for P ss)"

fun wait_for_child_loop ::
    "string \<Rightarrow> (child_snapshot \<Rightarrow> bool) \<Rightarrow> bool \<Rightarrow> supervisor_snapshot list
       \<Rightarrow> snapshot_recv_error + child_snapshot" where
  "wait_for_child_loop cid P seen [] = Inl StreamClosed"
| "wait_for_child_loop cid P seen (s # ss) =
     (case snapshot_child s cid of
        Some c \<Rightarrow> if P c then Inr c else wait_for_child_loop cid P True ss
      | None \<Rightarrow> if seen then Inl ChildRemoved else wait_for_child_loop cid P seen ss)"

definition wait_for_child ::
    "string \<Rightarrow> (child_snapshot \<Rightarrow> bool) \<Rightarrow> supervisor_snapshot list
       \<Rightarrow> snapshot_recv_error + child_snapshot" where
  "wait_for_child cid P ss = wait_for_child_loop cid P False ss"

lemma wait_for_child_loop_Inr:
  "wait_for_child_loop cid P seen ss = Inr c \<Longrightarrow>
     P c \<and> cs_id c = cid \<and> (\<exists>s \<in> set ss. c \<in> set (ss_children s))"
  by (induction cid P seen ss rule: wait_for_child_loop.induct)
    (auto simp: snapshot_child_def find_Some_iff in_set_conv_nth
      split: option.splits if_splits)

lemma wait_for_child_loop_Removed:
  "wait_for_child_loop cid P seen ss = Inl ChildRemoved \<Longrightarrow>
     \<exists>pre s post. ss = pre @ s # post \<and> snapshot_child s cid = None \<and>
       (seen \<or> (\<exists>t \<in> set pre. snapshot_child t cid \<noteq> None)) \<and>
       (\<forall>t \<in> set pre. \<forall>c. snapshot_child t cid = Some c \<longrightarrow> \<not> P c)"
proof (induction cid P seen ss rule: wait_for_child_loop.induct)
  case (1 cid P seen)
  then show ?case by simp
next
  case (2 cid P seen s ss)
  show ?case
  proof (cases "snapshot_child s cid")
    case None
    show ?thesis
    proof (cases seen)
      case True
      with None show ?thesis by (intro exI [of _ "[]"]) auto
    next
      case False
      with None "2.IH" "2.prems" have
        "\<exists>pre t post. ss = pre @ t # post \<and> snapshot_child t cid = None \<and>
           (\<exists>t \<in> set pre. snapshot_child t cid \<noteq> None) \<and>
           (\<forall>t \<in> set pre. \<forall>c. snapshot_child t cid = Some c \<longrightarrow> \<not> P c)"
        by simp
      then obtain pre t post where
        "ss = pre @ t # post" "snapshot_child t cid = None"
        "\<exists>t \<in> set pre. snapshot_child t cid \<noteq> None"
        "\<forall>t \<in> set pre. \<forall>c. snapshot_child t cid = Some c \<longrightarrow> \<not> P c"
        by blast
      with None False show ?thesis by (intro exI [of _ "s # pre"] exI) auto
    qed
  next
    case (Some c)
    with "2.prems" have "\<not> P c" by auto
    with Some "2.IH" "2.prems" obtain pre t post where
      "ss = pre @ t # post" "snapshot_child t cid = None"
      "\<forall>t \<in> set pre. \<forall>c. snapshot_child t cid = Some c \<longrightarrow> \<not> P c"
      by auto
    with Some \<open>\<not> P c\<close> show ?thesis by (intro exI [of _ "s # pre"] exI) auto
  qed
qed

text \<open>
  Waiting for a child returns only a snapshot of that child that satisfies the predicate
  and was really published, and it reports the child as removed only after the receiver had
  observed the child in an earlier snapshot, never for a child that has yet to appear.
\<close>

theorem wait_for_child_sound:
  "case wait_for_child cid P ss of
     Inr c \<Rightarrow> P c \<and> cs_id c = cid \<and> (\<exists>s \<in> set ss. c \<in> set (ss_children s))
   | Inl ChildRemoved \<Rightarrow>
       (\<exists>pre s post. ss = pre @ s # post \<and> snapshot_child s cid = None \<and>
          (\<exists>t \<in> set pre. snapshot_child t cid \<noteq> None) \<and>
          \<not> (\<exists>t \<in> set pre. \<exists>c. snapshot_child t cid = Some c \<and> P c))
   | Inl StreamClosed \<Rightarrow> True"
  using wait_for_child_loop_Inr [of cid P False ss] wait_for_child_loop_Removed [of cid P False ss]
  by (auto simp: wait_for_child_def split: sum.splits snapshot_recv_error.splits)

section \<open>Forwarding nested snapshots\<close>

record nested_snapshot_notification =
  parent_key :: nat
  parent_lineage :: u64
  nsn_generation :: u64

record nested_snapshot_state =
  latest :: "supervisor_snapshot option"
  queued :: bool

definition nested_snapshot_default :: nested_snapshot_state where
  "nested_snapshot_default = \<lparr>latest = None, queued = False\<rparr>"

definition nested_clear :: "nested_snapshot_state \<Rightarrow> nested_snapshot_state" where
  "nested_clear c = c\<lparr>latest := None, queued := False\<rparr>"

definition replace_if_changed ::
    "supervisor_snapshot \<Rightarrow> nested_snapshot_state \<Rightarrow> bool \<times> nested_snapshot_state" where
  "replace_if_changed s c =
     (if latest c = Some s then (False, c) else (True, c\<lparr>latest := Some s\<rparr>))"

definition try_queue :: "nested_snapshot_state \<Rightarrow> bool \<times> nested_snapshot_state" where
  "try_queue c = (\<not> queued c, c\<lparr>queued := True\<rparr>)"

definition mark_dequeued :: "nested_snapshot_state \<Rightarrow> nested_snapshot_state" where
  "mark_dequeued c = c\<lparr>queued := False\<rparr>"

record snapshot_cell =
  sc_open :: bool
  sc_notifications :: "nested_snapshot_notification list"
  sc_state :: nested_snapshot_state
  sc_parent_key :: nat
  sc_parent_lineage :: u64

definition forward :: "supervisor_snapshot \<Rightarrow> u64 \<Rightarrow> snapshot_cell \<Rightarrow> snapshot_cell" where
  "forward s gen c =
     (case replace_if_changed s (sc_state c) of
        (False, _) \<Rightarrow> c
      | (True, st1) \<Rightarrow>
          (case try_queue st1 of
             (False, st2) \<Rightarrow> c\<lparr>sc_state := st2\<rparr>
           | (True, st2) \<Rightarrow>
               if sc_open c
               then c\<lparr>sc_state := st2,
                      sc_notifications := sc_notifications c @
                        [\<lparr>parent_key = sc_parent_key c, parent_lineage = sc_parent_lineage c,
                          nsn_generation = gen\<rparr>]\<rparr>
               else c\<lparr>sc_state := mark_dequeued st2\<rparr>))"

text \<open>
  The nested supervisor and its parent run concurrently.  The steps below are the atomic
  accesses the two sides make to the shared cell: the child replaces the snapshot and then
  queues a notification; the parent takes a notification, clears the flag and then reads.
\<close>

datatype producer_phase = PIdle | PReplaced
datatype consumer_phase = CIdle | CTaken | CCleared

record forwarding =
  fw_cell :: nested_snapshot_state
  fw_channel :: nat
  fw_producer :: producer_phase
  fw_consumer :: consumer_phase
  fw_parent_view :: "supervisor_snapshot option"

definition forwarding_init :: forwarding where
  "forwarding_init =
     \<lparr>fw_cell = nested_snapshot_default, fw_channel = 0, fw_producer = PIdle,
      fw_consumer = CIdle, fw_parent_view = None\<rparr>"

inductive forwarding_step :: "forwarding \<Rightarrow> forwarding \<Rightarrow> bool" where
  unchanged: "fw_producer f = PIdle \<Longrightarrow> replace_if_changed s (fw_cell f) = (False, c) \<Longrightarrow>
    forwarding_step f f"
| replaced: "fw_producer f = PIdle \<Longrightarrow> replace_if_changed s (fw_cell f) = (True, c) \<Longrightarrow>
    forwarding_step f (f\<lparr>fw_cell := c, fw_producer := PReplaced\<rparr>)"
| queue_new: "fw_producer f = PReplaced \<Longrightarrow> try_queue (fw_cell f) = (True, c) \<Longrightarrow>
    forwarding_step f (f\<lparr>fw_cell := c, fw_channel := Suc (fw_channel f), fw_producer := PIdle\<rparr>)"
| queue_coalesced: "fw_producer f = PReplaced \<Longrightarrow> try_queue (fw_cell f) = (False, c) \<Longrightarrow>
    forwarding_step f (f\<lparr>fw_cell := c, fw_producer := PIdle\<rparr>)"
| take: "fw_consumer f = CIdle \<Longrightarrow> fw_channel f = Suc n \<Longrightarrow>
    forwarding_step f (f\<lparr>fw_channel := n, fw_consumer := CTaken\<rparr>)"
| clear: "fw_consumer f = CTaken \<Longrightarrow>
    forwarding_step f (f\<lparr>fw_cell := mark_dequeued (fw_cell f), fw_consumer := CCleared\<rparr>)"
| read: "fw_consumer f = CCleared \<Longrightarrow>
    forwarding_step f (f\<lparr>fw_parent_view := latest (fw_cell f), fw_consumer := CIdle\<rparr>)"

inductive forwarding_reachable :: "forwarding \<Rightarrow> bool" where
  start: "forwarding_reachable forwarding_init"
| step: "forwarding_reachable f \<Longrightarrow> forwarding_step f f' \<Longrightarrow> forwarding_reachable f'"

definition forwarding_inv :: "forwarding \<Rightarrow> bool" where
  "forwarding_inv f \<longleftrightarrow>
     fw_channel f + (if fw_consumer f = CTaken then 1 else 0) =
       (if queued (fw_cell f) then 1 else 0) \<and>
     (latest (fw_cell f) \<noteq> fw_parent_view f \<longrightarrow>
        queued (fw_cell f) \<or> fw_producer f = PReplaced \<or> fw_consumer f = CCleared)"

lemma forwarding_step_inv: "forwarding_step f f' \<Longrightarrow> forwarding_inv f \<Longrightarrow> forwarding_inv f'"
  by (induction rule: forwarding_step.induct)
    (auto simp: forwarding_inv_def replace_if_changed_def try_queue_def mark_dequeued_def
      split: if_splits)

lemma forwarding_init_inv: "forwarding_inv forwarding_init"
  by (simp add: forwarding_inv_def forwarding_init_def nested_snapshot_default_def)

lemma forwarding_reachable_inv: "forwarding_reachable f \<Longrightarrow> forwarding_inv f"
  by (induction rule: forwarding_reachable.induct)
    (blast intro: forwarding_init_inv forwarding_step_inv)+

text \<open>
  Nested snapshot forwarding loses no update and floods no channel: in every reachable
  interleaving of child and parent at most one notification is in flight, and a parent view
  that is out of date is always about to be refreshed, by a notification in flight, by a
  child that has replaced the snapshot and not yet queued, or by a parent between clearing
  the flag and reading.
\<close>

theorem forwarding_no_lost_update:
  assumes "forwarding_reachable f"
  shows "fw_channel f \<le> 1 \<and>
    (latest (fw_cell f) = fw_parent_view f \<or> 0 < fw_channel f \<or> fw_consumer f \<noteq> CIdle \<or>
     fw_producer f = PReplaced)"
  using forwarding_reachable_inv [OF assms]
  by (cases "fw_consumer f") (auto simp: forwarding_inv_def split: if_splits)

theorem forwarding_no_lost_update_witness:
  "\<exists>f. forwarding_reachable f \<and> latest (fw_cell f) \<noteq> fw_parent_view f \<and> fw_channel f = 1 \<and>
     fw_channel f \<le> 1 \<and>
    (latest (fw_cell f) = fw_parent_view f \<or> 0 < fw_channel f \<or> fw_consumer f \<noteq> CIdle \<or>
     fw_producer f = PReplaced)"
proof -
  define s where "s = SupervisorSnapshot SVRunning Ordered OneForOne 0 0 []"
  define f1 where "f1 = forwarding_init\<lparr>fw_cell := \<lparr>latest = Some s, queued = False\<rparr>,
      fw_producer := PReplaced\<rparr>"
  define f2 where "f2 = f1\<lparr>fw_cell := \<lparr>latest = Some s, queued = True\<rparr>, fw_channel := 1,
      fw_producer := PIdle\<rparr>"
  have "forwarding_step forwarding_init f1"
    using forwarding_step.replaced [of forwarding_init s "\<lparr>latest = Some s, queued = False\<rparr>"]
    by (simp add: forwarding_init_def replace_if_changed_def nested_snapshot_default_def f1_def)
  moreover have "forwarding_step f1 f2"
    using forwarding_step.queue_new [of f1 "\<lparr>latest = Some s, queued = True\<rparr>"]
    by (simp add: f1_def f2_def try_queue_def forwarding_init_def)
  ultimately have "forwarding_reachable f2"
    using forwarding_reachable.intros by metis
  moreover from forwarding_no_lost_update [OF this] show ?thesis
    using calculation by (intro exI [of _ f2]) (simp add: f2_def f1_def forwarding_init_def)
qed

text \<open>One whole forward call is the child's two steps in sequence.\<close>

lemma forward_notifications:
  "sc_notifications (forward s gen c) =
     (if latest (sc_state c) \<noteq> Some s \<and> \<not> queued (sc_state c) \<and> sc_open c
      then sc_notifications c @
        [\<lparr>parent_key = sc_parent_key c, parent_lineage = sc_parent_lineage c,
          nsn_generation = gen\<rparr>]
      else sc_notifications c)"
  by (cases "queued (sc_state c)")
    (auto simp: forward_def replace_if_changed_def try_queue_def mark_dequeued_def)

lemma forward_latest: "latest (sc_state (forward s gen c)) = Some s"
  by (cases "queued (sc_state c)")
    (auto simp: forward_def replace_if_changed_def try_queue_def mark_dequeued_def)

end
