(* ===== verification/Lifecycle.thy ===== *)
theory Lifecycle
  imports Lag_Queue Snapshot
begin

text \<open>
  Lifecycle observation (\<open>supervisor/lifecycle.rs\<close>): events, the bounded per-subscription
  queues with their direct-child filter, the restart-stable hub that assigns sequence numbers
  and lineages, the sink that forwards an event to every watch at or above its scope, and the
  self-recovering child observation.

  Mutexes and atomics are the record fields they protect; an operation is one critical
  section.  A subscription that was dropped is a watcher whose \<open>alive\<close> flag is off.
\<close>

section \<open>Events\<close>

datatype child_event_kind =
    Added
  | Started u64
  | Exited u64 exit_status
  | Removed
  | RestartScheduled u64 duration

record child_event =
  ev_seq :: u64
  ev_child_id :: string
  ev_lineage :: u64
  ev_total_restarts :: u64
  ev_child_restart_count :: u64
  ev_kind :: child_event_kind

datatype lifecycle_event_kind =
    LSupervisorStarted
  | LSupervisorStopping
  | LSupervisorStopped
  | LChild child_event
  | LRestartIntensityExceeded u64
  | LLagged u64

record lifecycle_event =
  scope_path :: "scope_path_segment list"
  le_kind :: lifecycle_event_kind

record lifecycle_event_draft =
  dr_child_id :: string
  dr_lineage :: u64
  dr_total_restarts :: u64
  dr_child_restart_count :: u64
  dr_kind :: child_event_kind

definition local_event :: "lifecycle_event_kind \<Rightarrow> lifecycle_event" where
  "local_event k = \<lparr>scope_path = [], le_kind = k\<rparr>"

fun child_identity :: "lifecycle_event_kind \<Rightarrow> (string \<times> u64) option" where
  "child_identity (LChild e) = Some (ev_child_id e, ev_lineage e)"
| "child_identity _ = None"

fun event_seq :: "lifecycle_event_kind \<Rightarrow> u64 option" where
  "event_seq (LChild e) = Some (ev_seq e)"
| "event_seq _ = None"

fun event_total_restarts :: "lifecycle_event_kind \<Rightarrow> u64 option" where
  "event_total_restarts (LChild e) = Some (ev_total_restarts e)"
| "event_total_restarts (LRestartIntensityExceeded n) = Some n"
| "event_total_restarts _ = None"

section \<open>The bounded queue\<close>

definition lifecycle_buffer_capacity :: nat where
  "lifecycle_buffer_capacity = 128"

fun kind_dropped :: "lifecycle_event_kind \<Rightarrow> u64 option" where
  "kind_dropped (LLagged d) = Some d"
| "kind_dropped _ = None"

definition is_lagged :: "lifecycle_event \<Rightarrow> bool" where
  "is_lagged e \<longleftrightarrow> kind_dropped (le_kind e) \<noteq> None"

definition into_lagged :: "lifecycle_event \<Rightarrow> u64 \<Rightarrow> lifecycle_event" where
  "into_lagged e dropped = local_event (LLagged dropped)"

definition accumulate_lagged :: "lifecycle_event \<Rightarrow> lifecycle_event \<Rightarrow> lifecycle_event" where
  "accumulate_lagged m newest =
     (case kind_dropped (le_kind m) of
        None \<Rightarrow> m
      | Some dropped \<Rightarrow> into_lagged newest (u64_saturating_add dropped 1))"

fun record_drop :: "lifecycle_event list \<Rightarrow> lifecycle_event list" where
  "record_drop [] = []"
| "record_drop (e # q) =
     (if is_lagged e
      then (case q of [] \<Rightarrow> [e] | d # r \<Rightarrow> accumulate_lagged e d # r)
      else into_lagged e 1 # q)"

definition queue_slack :: "lifecycle_event list \<Rightarrow> nat" where
  "queue_slack q =
     2 * length q + (case q of [] \<Rightarrow> 0 | e # _ \<Rightarrow> if is_lagged e then 0 else 1)"

lemma is_lagged_into [simp]: "is_lagged (into_lagged e n)"
  by (simp add: is_lagged_def into_lagged_def local_event_def)

lemma is_lagged_accumulate: "is_lagged m \<Longrightarrow> is_lagged (accumulate_lagged m e)"
  by (auto simp: accumulate_lagged_def is_lagged_def into_lagged_def local_event_def)

lemma record_drop_decreases: "2 \<le> length q \<Longrightarrow> queue_slack (record_drop q) < queue_slack q"
  by (cases q; cases "tl q") (auto simp: queue_slack_def is_lagged_accumulate)

text \<open>The loop that frees one slot before a push, and the one that enforces the capacity.\<close>

function make_room :: "lifecycle_event list \<Rightarrow> lifecycle_event list" where
  "make_room q =
     (if lifecycle_buffer_capacity \<le> length q then make_room (record_drop q) else q)"
  by pat_completeness auto
termination
  by (relation "measure queue_slack")
    (auto intro!: record_drop_decreases simp: lifecycle_buffer_capacity_def)

function enforce_capacity :: "lifecycle_event list \<Rightarrow> lifecycle_event list" where
  "enforce_capacity q =
     (if lifecycle_buffer_capacity < length q then enforce_capacity (record_drop q) else q)"
  by pat_completeness auto
termination
  by (relation "measure queue_slack")
    (auto intro!: record_drop_decreases simp: lifecycle_buffer_capacity_def)

declare make_room.simps [simp del] enforce_capacity.simps [simp del]

definition queue_push :: "lifecycle_event \<Rightarrow> lifecycle_event list \<Rightarrow> lifecycle_event list" where
  "queue_push e q = make_room q @ [e]"

definition event_lost :: "lifecycle_event \<Rightarrow> u64" where
  "event_lost e = (case kind_dropped (le_kind e) of None \<Rightarrow> 0 | Some d \<Rightarrow> d)"

lemma event_lost_into [simp]: "event_lost (into_lagged e n) = n"
  by (simp add: event_lost_def into_lagged_def local_event_def)

lemma event_lost_accumulate:
  "is_lagged m \<Longrightarrow> event_lost (accumulate_lagged m e) = u64_saturating_add (event_lost m) 1"
  by (auto simp: accumulate_lagged_def is_lagged_def event_lost_def into_lagged_def local_event_def)

interpretation lq: lag_queue is_lagged event_lost "\<lambda>e. into_lagged e 1" accumulate_lagged
  record_drop lifecycle_buffer_capacity make_room queue_push
proof unfold_locales
  show "make_room q = (if lifecycle_buffer_capacity \<le> length q then make_room (record_drop q) else q)"
    for q by (rule make_room.simps)
qed (simp_all add: lifecycle_buffer_capacity_def queue_push_def is_lagged_accumulate
    event_lost_accumulate)

interpretation lenf: lag_compaction is_lagged event_lost "\<lambda>e. into_lagged e 1" accumulate_lagged
  record_drop "Suc lifecycle_buffer_capacity" enforce_capacity
proof unfold_locales
  show "enforce_capacity q =
      (if Suc lifecycle_buffer_capacity \<le> length q then enforce_capacity (record_drop q) else q)"
    for q using enforce_capacity.simps [of q] by (simp add: less_eq_Suc_le)
qed (simp_all add: lifecycle_buffer_capacity_def is_lagged_accumulate event_lost_accumulate)

section \<open>Watchers\<close>

record lifecycle_event_queue =
  q_events :: "lifecycle_event list"
  q_terminal :: bool

definition new_queue :: lifecycle_event_queue where
  "new_queue = \<lparr>q_events = [], q_terminal = False\<rparr>"

record direct_child_filter =
  f_id :: string
  f_lineage :: "u64 option"

definition filter_pending :: "string \<Rightarrow> direct_child_filter" where
  "filter_pending i = \<lparr>f_id = i, f_lineage = None\<rparr>"

definition filter_exact :: "string \<Rightarrow> u64 \<Rightarrow> direct_child_filter" where
  "filter_exact i l = \<lparr>f_id = i, f_lineage = Some l\<rparr>"

definition is_pending :: "direct_child_filter \<Rightarrow> bool" where
  "is_pending f \<longleftrightarrow> f_lineage f = None"

definition filter_matches :: "direct_child_filter \<Rightarrow> lifecycle_event \<Rightarrow> bool" where
  "filter_matches f e \<longleftrightarrow>
     scope_path e = [] \<and>
     (case child_identity (le_kind e) of
        None \<Rightarrow> False
      | Some (i, l) \<Rightarrow>
          i = f_id f \<and> (case f_lineage f of None \<Rightarrow> True | Some expected \<Rightarrow> l = expected))"

record lifecycle_watcher =
  w_recursive :: lifecycle_event_queue
  w_direct :: lifecycle_event_queue
  w_direct_child :: "direct_child_filter option"
  w_alive :: bool

definition new_watcher :: lifecycle_watcher where
  "new_watcher =
     \<lparr>w_recursive = new_queue, w_direct = new_queue, w_direct_child = None, w_alive = True\<rparr>"

definition q_push :: "lifecycle_event \<Rightarrow> lifecycle_event_queue \<Rightarrow> lifecycle_event_queue" where
  "q_push e q = q\<lparr>q_events := queue_push e (q_events q)\<rparr>"

definition q_push_unbounded ::
    "lifecycle_event \<Rightarrow> lifecycle_event_queue \<Rightarrow> lifecycle_event_queue" where
  "q_push_unbounded e q = q\<lparr>q_events := q_events q @ [e]\<rparr>"

definition watcher_push :: "lifecycle_event \<Rightarrow> lifecycle_watcher \<Rightarrow> lifecycle_watcher" where
  "watcher_push e w =
     (let w1 =
        (if scope_path e = [] \<and>
            (case w_direct_child w of None \<Rightarrow> True | Some f \<Rightarrow> filter_matches f e)
         then if (case w_direct_child w of None \<Rightarrow> False | Some f \<Rightarrow> is_pending f)
              then w\<lparr>w_direct := q_push_unbounded e (w_direct w)\<rparr>
              else w\<lparr>w_direct := q_push e (w_direct w)\<rparr>
         else w)
      in w1\<lparr>w_recursive := q_push e (w_recursive w1)\<rparr>)"

definition retain_direct_child ::
    "direct_child_filter \<Rightarrow> lifecycle_watcher \<Rightarrow> lifecycle_watcher" where
  "retain_direct_child f w =
     (let kept = filter (filter_matches f) (q_events (w_direct w));
          bounded = (if is_pending f then kept else enforce_capacity kept)
      in w\<lparr>w_direct := (w_direct w)\<lparr>q_events := bounded\<rparr>, w_direct_child := Some f\<rparr>)"

definition watcher_mark_terminal :: "lifecycle_watcher \<Rightarrow> lifecycle_watcher" where
  "watcher_mark_terminal w =
     w\<lparr>w_recursive := (w_recursive w)\<lparr>q_terminal := True\<rparr>,
       w_direct := (w_direct w)\<lparr>q_terminal := True\<rparr>\<rparr>"

section \<open>The hub\<close>

record lifecycle_hub =
  hub_seq :: u64
  hub_next_lineage :: u64
  hub_watcher_count :: nat
  hub_terminal :: bool
  hub_watchers :: "lifecycle_watcher list"

definition hub_new :: lifecycle_hub where
  "hub_new = \<lparr>hub_seq = 0, hub_next_lineage = 0, hub_watcher_count = 0,
     hub_terminal = False, hub_watchers = []\<rparr>"

definition next_lineage :: "lifecycle_hub \<Rightarrow> u64 \<times> lifecycle_hub" where
  "next_lineage h =
     (hub_next_lineage h, h\<lparr>hub_next_lineage := u64_saturating_add (hub_next_lineage h) 1\<rparr>)"

definition peek_lineage :: "lifecycle_hub \<Rightarrow> u64" where
  "peek_lineage h = hub_next_lineage h"

definition observe_lineage :: "u64 \<Rightarrow> lifecycle_hub \<Rightarrow> lifecycle_hub" where
  "observe_lineage l h =
     (let nxt = u64_saturating_add l 1
      in if hub_next_lineage h < nxt then h\<lparr>hub_next_lineage := nxt\<rparr> else h)"

text \<open>
  Registering a watch.  A terminal hub hands out an already terminal watcher that is not
  registered and does not count.
\<close>

definition hub_watch :: "lifecycle_hub \<Rightarrow> lifecycle_watcher \<times> lifecycle_hub" where
  "hub_watch h =
     (let live = filter w_alive (hub_watchers h)
      in if hub_terminal h
         then (watcher_mark_terminal new_watcher, h\<lparr>hub_watchers := live\<rparr>)
         else (new_watcher,
               h\<lparr>hub_watchers := live @ [new_watcher],
                 hub_watcher_count := Suc (hub_watcher_count h)\<rparr>))"

definition hub_observe ::
    "'a \<Rightarrow> lifecycle_hub \<Rightarrow> ('a \<times> lifecycle_watcher) \<times> lifecycle_hub" where
  "hub_observe snapshot h = (case hub_watch h of (w, h') \<Rightarrow> ((snapshot, w), h'))"

definition emit :: "lifecycle_event_draft \<Rightarrow> lifecycle_hub \<Rightarrow> lifecycle_event \<times> lifecycle_hub" where
  "emit d h =
     (let s = u64_saturating_add (hub_seq h) 1
      in (local_event (LChild
            \<lparr>ev_seq = s, ev_child_id = dr_child_id d, ev_lineage = dr_lineage d,
             ev_total_restarts = dr_total_restarts d,
             ev_child_restart_count = dr_child_restart_count d, ev_kind = dr_kind d\<rparr>),
          h\<lparr>hub_seq := s\<rparr>))"

definition emit_recursive :: "lifecycle_event \<Rightarrow> lifecycle_hub \<Rightarrow> lifecycle_hub" where
  "emit_recursive e h =
     (if hub_terminal h then h
      else h\<lparr>hub_watchers := map (watcher_push e) (filter w_alive (hub_watchers h))\<rparr>)"

definition has_recursive_watchers :: "lifecycle_hub \<Rightarrow> bool" where
  "has_recursive_watchers h \<longleftrightarrow> 0 < hub_watcher_count h"

text \<open>
  Terminating the hub forgets its registrations; the first component is what the live
  subscriptions hold afterwards, still able to drain what was staged.
\<close>

definition hub_terminate :: "lifecycle_hub \<Rightarrow> lifecycle_watcher list \<times> lifecycle_hub" where
  "hub_terminate h =
     (if hub_terminal h then ([], h)
      else (map watcher_mark_terminal (filter w_alive (hub_watchers h)),
            h\<lparr>hub_terminal := True, hub_watchers := []\<rparr>))"

text \<open>Dropping the \<open>i\<close>-th registered subscription, and reading from a subscription.\<close>

definition watch_drop :: "nat \<Rightarrow> lifecycle_hub \<Rightarrow> lifecycle_hub" where
  "watch_drop i h =
     (if i < length (hub_watchers h) \<and> w_alive (hub_watchers h ! i)
      then h\<lparr>hub_watchers := (hub_watchers h)[i := (hub_watchers h ! i)\<lparr>w_alive := False\<rparr>],
             hub_watcher_count := hub_watcher_count h - 1\<rparr>
      else h)"

datatype 'a poll = Ready 'a | Pending

definition q_pop :: "lifecycle_event_queue \<Rightarrow> lifecycle_event option \<times> lifecycle_event_queue" where
  "q_pop q = (case q_events q of [] \<Rightarrow> (None, q) | e # es \<Rightarrow> (Some e, q\<lparr>q_events := es\<rparr>))"

definition queue_next ::
    "lifecycle_event_queue \<Rightarrow> lifecycle_event option poll \<times> lifecycle_event_queue" where
  "queue_next q =
     (case q_pop q of
        (Some e, q') \<Rightarrow> (Ready (Some e), q')
      | (None, q') \<Rightarrow> (if q_terminal q' then Ready None else Pending, q'))"

definition watch_next ::
    "bool \<Rightarrow> lifecycle_watcher \<Rightarrow> lifecycle_event option poll \<times> lifecycle_watcher" where
  "watch_next direct_only w =
     (if direct_only
      then (case queue_next (w_direct w) of (r, q) \<Rightarrow> (r, w\<lparr>w_direct := q\<rparr>))
      else (case queue_next (w_recursive w) of (r, q) \<Rightarrow> (r, w\<lparr>w_recursive := q\<rparr>)))"

section \<open>Forwarding to ancestors\<close>

datatype lifecycle_tree_sink =
    Sink (sink_hub: lifecycle_hub) (sink_parent: "(lifecycle_tree_sink \<times> scope_path_segment) option")

definition prepend_path :: "scope_path_segment \<Rightarrow> lifecycle_event \<Rightarrow> lifecycle_event" where
  "prepend_path seg e = e\<lparr>scope_path := seg # scope_path e\<rparr>"

fun has_recursive_watchers_in_chain :: "lifecycle_tree_sink \<Rightarrow> bool" where
  "has_recursive_watchers_in_chain (Sink h p) \<longleftrightarrow>
     has_recursive_watchers h \<or>
     (case p of None \<Rightarrow> False | Some (s, seg) \<Rightarrow> has_recursive_watchers_in_chain s)"

fun sink_forward :: "lifecycle_event \<Rightarrow> lifecycle_tree_sink \<Rightarrow> lifecycle_tree_sink" where
  "sink_forward e (Sink h p) =
     (let h' = (if has_recursive_watchers h then emit_recursive e h else h)
      in case p of
           None \<Rightarrow> Sink h' None
         | Some (s, seg) \<Rightarrow>
             if has_recursive_watchers_in_chain s
             then Sink h' (Some (sink_forward (prepend_path seg e) s, seg))
             else Sink h' (Some (s, seg)))"

definition forward_child :: "lifecycle_event \<Rightarrow> lifecycle_tree_sink \<Rightarrow> lifecycle_tree_sink" where
  "forward_child e s = (if has_recursive_watchers_in_chain s then sink_forward e s else s)"

text \<open>The snapshot publication inside \<open>emit_aligned\<close> is the caller's; the hub part is here.\<close>

fun sink_emit_aligned :: "lifecycle_event \<Rightarrow> lifecycle_tree_sink \<Rightarrow> lifecycle_tree_sink" where
  "sink_emit_aligned e (Sink h p) =
     (let h' = emit_recursive e h
      in case p of
           None \<Rightarrow> Sink h' None
         | Some (s, seg) \<Rightarrow>
             if has_recursive_watchers_in_chain s
             then Sink h' (Some (sink_forward (prepend_path seg e) s, seg))
             else Sink h' (Some (s, seg)))"

section \<open>Child observation\<close>

datatype child_observation_update =
    Transition child_event
  | Reset supervisor_snapshot u64

record child_observation_watch =
  ow_events :: "lifecycle_event list"
  ow_snapshot :: supervisor_snapshot
  ow_minimum_sequence :: u64

definition recovery_reset ::
    "u64 \<Rightarrow> child_observation_watch \<Rightarrow> child_observation_update \<times> child_observation_watch" where
  "recovery_reset dropped w =
     (Reset (ow_snapshot w) dropped,
      w\<lparr>ow_minimum_sequence := max (ow_minimum_sequence w) (ss_lifecycle_seq (ow_snapshot w))\<rparr>)"

text \<open>
  One call to \<open>next\<close> over the staged events: \<open>None\<close> when they are exhausted, in which case
  the call waits for more or reports the end of a terminal stream.
\<close>

fun observation_next_loop ::
    "lifecycle_event list \<Rightarrow> child_observation_watch
       \<Rightarrow> child_observation_update option \<times> child_observation_watch" where
  "observation_next_loop [] w = (None, w\<lparr>ow_events := []\<rparr>)"
| "observation_next_loop (e # es) w =
     (case le_kind e of
        LChild c \<Rightarrow>
          if ow_minimum_sequence w < ev_seq c
          then (Some (Transition c), w\<lparr>ow_events := es\<rparr>)
          else observation_next_loop es w
      | LLagged dropped \<Rightarrow>
          (case recovery_reset dropped (w\<lparr>ow_events := es\<rparr>) of (u, w') \<Rightarrow> (Some u, w'))
      | _ \<Rightarrow> (case recovery_reset 0 (w\<lparr>ow_events := es\<rparr>) of (u, w') \<Rightarrow> (Some u, w')))"

definition observation_next ::
    "child_observation_watch \<Rightarrow> child_observation_update option \<times> child_observation_watch" where
  "observation_next w = observation_next_loop (ow_events w) w"

section \<open>The queue keeps the newest events and accounts for the rest\<close>

definition staged_events :: "lifecycle_event list \<Rightarrow> lifecycle_event list" where
  "staged_events es = fold queue_push es []"

definition events_accounted :: "lifecycle_event list \<Rightarrow> nat" where
  "events_accounted q =
     sum_list (map (\<lambda>e. case kind_dropped (le_kind e) of None \<Rightarrow> 1 | Some d \<Rightarrow> d) q)"

lemma events_accounted_weight: "events_accounted q = lq.weight q"
  unfolding events_accounted_def lq.weight_def
  by (rule arg_cong [where f = sum_list], rule map_cong)
    (auto simp: is_lagged_def event_lost_def split: option.splits)

text \<open>
  C26. However many events a slow subscriber misses, its queue never holds more than 128
  entries, the real events it still holds are the newest ones in emission order, and the lag
  marker accounts for every discarded event: delivered events plus the marker's count equal
  the number of events emitted.
\<close>

theorem lifecycle_queue_history:
  assumes "\<forall>e \<in> set es. \<not> is_lagged e" and "length es \<le> u64_max"
  shows "length (staged_events es) \<le> 128 \<and>
    (\<exists>n. filter (\<lambda>e. \<not> is_lagged e) (staged_events es) = drop n es) \<and>
    events_accounted (staged_events es) = length es"
  using lq.push_history [OF assms]
  by (simp add: staged_events_def events_accounted_weight lq.reals_def lifecycle_buffer_capacity_def)

theorem lifecycle_queue_history_witness:
  "let es = replicate 3 (local_event LSupervisorStarted) in
     (\<forall>e \<in> set es. \<not> is_lagged e) \<and> length es \<le> u64_max \<and>
     length (staged_events es) \<le> 128 \<and> events_accounted (staged_events es) = 3"
proof -
  let ?es = "replicate 3 (local_event LSupervisorStarted)"
  have "\<forall>e \<in> set ?es. \<not> is_lagged e" "length ?es \<le> u64_max"
    by (simp_all add: is_lagged_def local_event_def u64_max_def)
  from lifecycle_queue_history [OF this] this show ?thesis by (simp add: Let_def)
qed

section \<open>Scope-local projections\<close>

lemma make_room_small [simp]: "length q < 128 \<Longrightarrow> make_room q = q"
  by (subst make_room.simps) (simp add: lifecycle_buffer_capacity_def)

definition direct_view_ok :: "lifecycle_watcher \<Rightarrow> bool" where
  "direct_view_ok w \<longleftrightarrow>
     (\<forall>e \<in> set (q_events (w_direct w)).
        scope_path e = [] \<and>
        (\<forall>f. w_direct_child w = Some f \<longrightarrow> is_lagged e \<or> filter_matches f e))"

lemma into_lagged_path: "scope_path (into_lagged e n) = []"
  by (simp add: into_lagged_def local_event_def)

lemma accumulate_lagged_path: "scope_path m = [] \<Longrightarrow> scope_path (accumulate_lagged m e) = []"
  by (simp add: accumulate_lagged_def into_lagged_path split: option.split)

lemma record_drop_local:
  "\<forall>e \<in> set q. scope_path e = [] \<and> (is_lagged e \<or> P e) \<Longrightarrow>
   \<forall>e \<in> set (record_drop q). scope_path e = [] \<and> (is_lagged e \<or> P e)"
proof (cases q)
  case (Cons e r)
  assume q: "\<forall>e \<in> set q. scope_path e = [] \<and> (is_lagged e \<or> P e)"
  show ?thesis
  proof (cases "is_lagged e")
    case True
    with q Cons show ?thesis by (cases r) (simp_all add: is_lagged_accumulate accumulate_lagged_path)
  next
    case False
    with q Cons show ?thesis by (simp add: into_lagged_path)
  qed
qed simp

lemma make_room_local:
  "\<forall>e \<in> set q. scope_path e = [] \<and> (is_lagged e \<or> P e) \<Longrightarrow>
   \<forall>e \<in> set (make_room q). scope_path e = [] \<and> (is_lagged e \<or> P e)"
proof (induction q rule: make_room.induct)
  case (1 q)
  note drop = record_drop_local [OF "1.prems"]
  show ?case
  proof (cases "lifecycle_buffer_capacity \<le> length q")
    case True
    with "1.IH" [OF True drop] show ?thesis by (subst make_room.simps) (simp only: if_True)
  next
    case False
    with "1.prems" show ?thesis by (subst make_room.simps) (simp only: if_False)
  qed
qed

lemma enforce_capacity_local:
  "\<forall>e \<in> set q. scope_path e = [] \<and> (is_lagged e \<or> P e) \<Longrightarrow>
   \<forall>e \<in> set (enforce_capacity q). scope_path e = [] \<and> (is_lagged e \<or> P e)"
proof (induction q rule: enforce_capacity.induct)
  case (1 q)
  note drop = record_drop_local [OF "1.prems"]
  show ?case
  proof (cases "lifecycle_buffer_capacity < length q")
    case True
    with "1.IH" [OF True drop] show ?thesis by (subst enforce_capacity.simps) (simp only: if_True)
  next
    case False
    with "1.prems" show ?thesis by (subst enforce_capacity.simps) (simp only: if_False)
  qed
qed

lemma direct_view_push:
  assumes "direct_view_ok w" and "scope_path e = []"
    and "case w_direct_child w of None \<Rightarrow> True | Some f \<Rightarrow> filter_matches f e"
  shows "direct_view_ok (w\<lparr>w_direct := q_push e (w_direct w)\<rparr>)"
    and "direct_view_ok (w\<lparr>w_direct := q_push_unbounded e (w_direct w)\<rparr>)"
proof -
  let ?P = "\<lambda>d. \<forall>f. w_direct_child w = Some f \<longrightarrow> filter_matches f d"
  have ok: "\<forall>d \<in> set (q_events (w_direct w)). scope_path d = [] \<and> (is_lagged d \<or> ?P d)"
    using assms(1) by (auto simp: direct_view_ok_def)
  have e: "?P e" using assms(3) by auto
  show "direct_view_ok (w\<lparr>w_direct := q_push e (w_direct w)\<rparr>)"
    using make_room_local [OF ok] e assms(2)
    by (simp add: direct_view_ok_def q_push_def queue_push_def) blast
  show "direct_view_ok (w\<lparr>w_direct := q_push_unbounded e (w_direct w)\<rparr>)"
    using ok e assms(2) by (simp add: direct_view_ok_def q_push_unbounded_def) blast
qed

lemma watcher_push_direct_view:
  assumes "direct_view_ok w"
  shows "direct_view_ok (watcher_push e w)"
proof -
  have upd: "direct_view_ok (v\<lparr>w_recursive := r\<rparr>) = direct_view_ok v" for v r
    by (simp add: direct_view_ok_def)
  show ?thesis
    using assms direct_view_push [OF assms, of e] by (simp add: watcher_push_def Let_def upd)
qed

lemma retain_direct_child_view:
  "direct_view_ok (retain_direct_child f w)"
proof -
  let ?q = "filter (filter_matches f) (q_events (w_direct w))"
  have kept: "\<forall>e \<in> set ?q. scope_path e = [] \<and> (is_lagged e \<or> filter_matches f e)"
    by (simp add: filter_matches_def)
  note bounded = enforce_capacity_local [OF kept]
  show ?thesis
  proof (cases "is_pending f")
    case True
    with kept show ?thesis
      by (simp add: direct_view_ok_def retain_direct_child_def Let_def del: set_filter)
  next
    case False
    with bounded show ?thesis
      by (simp add: direct_view_ok_def retain_direct_child_def Let_def del: set_filter)
  qed
qed

text \<open>
  A scope-local watch sees only its own scope: an event forwarded from a nested scope
  never enters its direct queue nor consumes capacity there, and once the watch is narrowed to
  one child membership the queue holds nothing but that membership's events and lag markers,
  however events keep arriving.
\<close>

theorem direct_watch_isolated:
  "(scope_path e \<noteq> [] \<longrightarrow> w_direct (watcher_push e w) = w_direct w) \<and>
   direct_view_ok (fold watcher_push es (retain_direct_child f w))"
proof
  show "scope_path e \<noteq> [] \<longrightarrow> w_direct (watcher_push e w) = w_direct w"
    by (simp add: watcher_push_def Let_def)
  have "direct_view_ok v \<Longrightarrow> direct_view_ok (fold watcher_push es v)" for v
    by (induction es arbitrary: v) (simp_all add: watcher_push_direct_view)
  then show "direct_view_ok (fold watcher_push es (retain_direct_child f w))"
    by (simp add: retain_direct_child_view)
qed

theorem direct_watch_isolated_witness:
  "let seg = \<lparr>seg_id = ''s'', seg_lineage = 0, seg_generation = 0\<rparr>;
       e = prepend_path seg (local_event LSupervisorStarted)
   in scope_path e \<noteq> [] \<and> w_direct (watcher_push e new_watcher) = w_direct new_watcher"
  using direct_watch_isolated
    [of "prepend_path \<lparr>seg_id = ''s'', seg_lineage = 0, seg_generation = 0\<rparr>
          (local_event LSupervisorStarted)" new_watcher "[]" "filter_pending ''s''"]
  by (simp add: Let_def prepend_path_def)

section \<open>The watcher-count hint is transparent\<close>

text \<open>The reference: every hub of the chain receives the event with its path.\<close>

fun forward_everywhere :: "lifecycle_event \<Rightarrow> lifecycle_tree_sink \<Rightarrow> lifecycle_tree_sink" where
  "forward_everywhere e (Sink h p) =
     Sink (emit_recursive e h)
       (case p of None \<Rightarrow> None
        | Some (s, seg) \<Rightarrow> Some (forward_everywhere (prepend_path seg e) s, seg))"

fun sink_live :: "lifecycle_tree_sink \<Rightarrow> lifecycle_tree_sink" where
  "sink_live (Sink h p) =
     Sink (h\<lparr>hub_watchers := filter w_alive (hub_watchers h)\<rparr>)
       (case p of None \<Rightarrow> None | Some (s, seg) \<Rightarrow> Some (sink_live s, seg))"

definition hub_counted :: "lifecycle_hub \<Rightarrow> bool" where
  "hub_counted h \<longleftrightarrow>
     hub_terminal h \<or> hub_watcher_count h = length (filter w_alive (hub_watchers h))"

fun sink_counted :: "lifecycle_tree_sink \<Rightarrow> bool" where
  "sink_counted (Sink h p) \<longleftrightarrow>
     hub_counted h \<and> (case p of None \<Rightarrow> True | Some (s, seg) \<Rightarrow> sink_counted s)"

lemma watcher_push_alive [simp]: "w_alive (watcher_push e w) = w_alive w"
  by (simp add: watcher_push_def Let_def)

lemma filter_alive_push:
  "filter w_alive (map (watcher_push e) (filter w_alive ws)) = map (watcher_push e) (filter w_alive ws)"
  by (induction ws) auto

lemma emit_recursive_unwatched:
  assumes "hub_counted h" and "\<not> has_recursive_watchers h"
  shows "(emit_recursive e h)\<lparr>hub_watchers := filter w_alive (hub_watchers (emit_recursive e h))\<rparr>
     = h\<lparr>hub_watchers := filter w_alive (hub_watchers h)\<rparr>"
proof (cases "hub_terminal h")
  case True
  then show ?thesis by (simp add: emit_recursive_def)
next
  case False
  with assms have "filter w_alive (hub_watchers h) = []"
    by (auto simp: hub_counted_def has_recursive_watchers_def)
  with False show ?thesis by (simp add: emit_recursive_def)
qed

lemma forward_everywhere_unwatched:
  "sink_counted s \<Longrightarrow> \<not> has_recursive_watchers_in_chain s \<Longrightarrow>
   sink_live (forward_everywhere e s) = sink_live s"
proof (induction e s rule: forward_everywhere.induct)
  case (1 e h p)
  then show ?case
    using emit_recursive_unwatched [of h e] by (cases p) auto
qed

lemma sink_forward_everywhere:
  "sink_counted s \<Longrightarrow> sink_live (sink_forward e s) = sink_live (forward_everywhere e s)"
proof (induction e s rule: forward_everywhere.induct)
  case (1 e h p)
  have h: "(if has_recursive_watchers h then emit_recursive e h else h)
        \<lparr>hub_watchers := filter w_alive (hub_watchers
          (if has_recursive_watchers h then emit_recursive e h else h))\<rparr>
      = (emit_recursive e h)\<lparr>hub_watchers := filter w_alive (hub_watchers (emit_recursive e h))\<rparr>"
    using "1.prems" emit_recursive_unwatched [of h e] by auto
  show ?case
  proof (cases p)
    case None
    with h show ?thesis by (simp add: Let_def)
  next
    case (Some q)
    obtain s seg where q: "q = (s, seg)" by (cases q)
    with Some "1.prems" have "sink_counted s" by simp
    with "1.IH" Some q forward_everywhere_unwatched [of s "prepend_path seg e"] h show ?thesis
      by (auto simp: Let_def)
  qed
qed

text \<open>
  Skipping scopes without watchers is only an optimisation: with watcher counts that match
  the live subscriptions, forwarding an event leaves every live subscription of the whole chain
  exactly as if each scope had been visited, each one seeing the path from itself down to
  the emitting scope.
\<close>

theorem forward_child_equivalent:
  assumes "sink_counted s"
  shows "sink_live (forward_child e s) = sink_live (forward_everywhere e s)"
  using assms sink_forward_everywhere [OF assms, of e] forward_everywhere_unwatched [OF assms, of e]
  by (simp add: forward_child_def)

theorem forward_child_equivalent_witness:
  "let s = Sink hub_new (Some (Sink (snd (hub_watch hub_new)) None,
             \<lparr>seg_id = ''child'', seg_lineage = 3, seg_generation = 1\<rparr>));
       e = local_event LSupervisorStarted
   in sink_counted s \<and> sink_live (forward_child e s) = sink_live (forward_everywhere e s)"
proof -
  have "sink_counted (Sink hub_new (Some (Sink (snd (hub_watch hub_new)) None,
             \<lparr>seg_id = ''child'', seg_lineage = 3, seg_generation = 1\<rparr>)))"
    by (simp add: hub_new_def hub_watch_def hub_counted_def new_watcher_def Let_def)
  with forward_child_equivalent [OF this] show ?thesis by (simp add: Let_def)
qed

lemma hub_watch_counted: "hub_counted h \<Longrightarrow> hub_counted (snd (hub_watch h))"
  by (auto simp: hub_counted_def hub_watch_def Let_def new_watcher_def)

lemma filter_length_drop:
  "i < length ws \<Longrightarrow> w_alive (ws ! i) \<Longrightarrow>
   length (filter w_alive (ws[i := (ws ! i)\<lparr>w_alive := False\<rparr>])) = length (filter w_alive ws) - 1"
proof (induction ws arbitrary: i)
  case (Cons w ws)
  show ?case
  proof (cases i)
    case 0
    with Cons.prems show ?thesis by simp
  next
    case (Suc j)
    with Cons.prems have "0 < length (filter w_alive ws)"
      by (auto simp: filter_empty_conv intro: nth_mem)
    with Suc Cons show ?thesis by auto
  qed
qed simp

lemma watch_drop_counted: "hub_counted h \<Longrightarrow> hub_counted (watch_drop i h)"
  by (auto simp: hub_counted_def watch_drop_def filter_length_drop)

lemma emit_recursive_counted: "hub_counted h \<Longrightarrow> hub_counted (emit_recursive e h)"
  by (auto simp: hub_counted_def emit_recursive_def filter_alive_push)

fun watch_drain :: "nat \<Rightarrow> bool \<Rightarrow> lifecycle_watcher \<Rightarrow> lifecycle_event option poll list" where
  "watch_drain 0 d w = []"
| "watch_drain (Suc n) d w = (case watch_next d w of (r, w') \<Rightarrow> r # watch_drain n d w')"

lemma watch_drain_terminal:
  assumes "n = Suc (length (q_events (if d then w_direct w else w_recursive w)))"
    and "q_terminal (if d then w_direct w else w_recursive w)"
  shows "watch_drain n d w =
    map (\<lambda>e. Ready (Some e)) (q_events (if d then w_direct w else w_recursive w)) @ [Ready None]"
  using assms
proof (induction n arbitrary: w)
  case (Suc n)
  show ?case
  proof (cases "q_events (if d then w_direct w else w_recursive w)")
    case Nil
    with Suc.prems show ?thesis
      by (cases d) (simp_all add: watch_next_def queue_next_def q_pop_def)
  next
    case (Cons e es)
    let ?w = "snd (watch_next d w)"
    have step: "fst (watch_next d w) = Ready (Some e)"
      "q_events (if d then w_direct ?w else w_recursive ?w) = es"
      "q_terminal (if d then w_direct ?w else w_recursive ?w)"
      using Cons Suc.prems by (cases d; simp add: watch_next_def queue_next_def q_pop_def)+
    with Cons Suc.prems(1) have "n = Suc (length (q_events (if d then w_direct ?w else w_recursive ?w)))"
      by simp
    from Suc.IH [OF this step(3)] step Cons show ?thesis
      by (simp add: case_prod_unfold del: if_split_asm split del: if_split)
  qed
qed simp

text \<open>
  Terminating a hub loses nothing a subscriber has staged: every live subscription can
  still be read to the end, giving its staged events in order and then the end-of-stream
  marker, and a hub that is already terminal is left alone.
\<close>

theorem terminate_drains:
  "fst (hub_terminate (h\<lparr>hub_terminal := False\<rparr>)) =
     map watcher_mark_terminal (filter w_alive (hub_watchers h)) \<and>
   watch_drain (Suc (length (q_events (w_recursive w)))) False (watcher_mark_terminal w) =
     map (\<lambda>e. Ready (Some e)) (q_events (w_recursive w)) @ [Ready None] \<and>
   watch_drain (Suc (length (q_events (w_direct w)))) True (watcher_mark_terminal w) =
     map (\<lambda>e. Ready (Some e)) (q_events (w_direct w)) @ [Ready None] \<and>
   hub_terminate (snd (hub_terminate h)) = ([], snd (hub_terminate h))"
  using watch_drain_terminal [of _ False "watcher_mark_terminal w"]
    watch_drain_terminal [of _ True "watcher_mark_terminal w"]
  by (simp add: hub_terminate_def watcher_mark_terminal_def del: watch_drain.simps)

section \<open>Sequence numbers and lineages\<close>

lemma next_lineage_fresh:
  "hub_next_lineage h < u64_max \<Longrightarrow> next_lineage h = (l, h') \<Longrightarrow> l < hub_next_lineage h'"
  by (auto simp: next_lineage_def u64_saturating_add_def)

lemma observe_lineage_covers: "l < u64_max \<Longrightarrow> l < hub_next_lineage (observe_lineage l h)"
  by (auto simp: observe_lineage_def Let_def u64_saturating_add_def)

lemma observe_lineage_mono: "hub_next_lineage h \<le> hub_next_lineage (observe_lineage l h)"
  by (auto simp: observe_lineage_def Let_def)

fun emit_all :: "lifecycle_event_draft list \<Rightarrow> lifecycle_hub \<Rightarrow> u64 list \<times> lifecycle_hub" where
  "emit_all [] h = ([], h)"
| "emit_all (d # ds) h =
     (case emit d h of (e, h') \<Rightarrow>
        (case emit_all ds h' of (ss, h'') \<Rightarrow>
           (case event_seq (le_kind e) of None \<Rightarrow> ss | Some n \<Rightarrow> n # ss, h'')))"

text \<open>
  Child transitions of one stable identity are numbered without gaps or repetitions: any
  run of emissions below the saturation point receives consecutive sequence numbers starting
  right after the hub's current one, and the hub's sequence ends at the last number issued.
\<close>

theorem emit_sequences_consecutive:
  assumes "hub_seq h + length ds \<le> u64_max"
  shows "fst (emit_all ds h) = [Suc (hub_seq h)..<Suc (hub_seq h + length ds)] \<and>
         hub_seq (snd (emit_all ds h)) = hub_seq h + length ds"
  using assms
proof (induction ds arbitrary: h)
  case Nil
  then show ?case by simp
next
  case (Cons d ds)
  let ?h = "h\<lparr>hub_seq := Suc (hub_seq h)\<rparr>"
  from Cons.prems have seq: "u64_saturating_add (hub_seq h) (Suc 0) = Suc (hub_seq h)"
    by (simp add: u64_saturating_add_def)
  from Cons.IH [of ?h] Cons.prems have
    "fst (emit_all ds ?h) = [Suc (Suc (hub_seq h))..<Suc (Suc (hub_seq h + length ds))]"
    "hub_seq (snd (emit_all ds ?h)) = Suc (hub_seq h + length ds)"
    by simp_all
  moreover have "emit d h = (fst (emit d h), ?h)" "event_seq (le_kind (fst (emit d h))) = Some (Suc (hub_seq h))"
    by (simp_all add: emit_def Let_def seq local_event_def)
  moreover have "[Suc (hub_seq h)..<Suc (hub_seq h + length (d # ds))] =
      Suc (hub_seq h) # [Suc (Suc (hub_seq h))..<Suc (Suc (hub_seq h + length ds))]"
    by (subst upt_conv_Cons) simp_all
  ultimately show ?case
    by (cases "emit_all ds ?h") (auto simp del: upt_Suc split: prod.splits)
qed

theorem emit_sequences_consecutive_witness:
  "fst (emit_all [\<lparr>dr_child_id = ''a'', dr_lineage = 0, dr_total_restarts = 0,
       dr_child_restart_count = 0, dr_kind = Added\<rparr>] hub_new) = [1]"
proof -
  have "hub_seq hub_new + length [\<lparr>dr_child_id = ''a'', dr_lineage = 0, dr_total_restarts = 0,
       dr_child_restart_count = 0, dr_kind = Added\<rparr>] \<le> u64_max"
    by (simp add: hub_new_def u64_max_def)
  from emit_sequences_consecutive [OF this] show ?thesis by (simp add: hub_new_def)
qed

section \<open>Self-recovering observation\<close>

lemma observation_next_loop_spec:
  "observation_next_loop es w = (r, w') \<Longrightarrow>
     ow_minimum_sequence w \<le> ow_minimum_sequence w' \<and>
     (case r of
        Some (Transition c) \<Rightarrow>
          ow_minimum_sequence w < ev_seq c \<and> ow_minimum_sequence w' = ow_minimum_sequence w \<and>
          (\<exists>pre e post. es = pre @ e # post \<and> le_kind e = LChild c \<and> ow_events w' = post)
      | Some (Reset s d) \<Rightarrow>
          s = ow_snapshot w \<and> ss_lifecycle_seq s \<le> ow_minimum_sequence w'
      | None \<Rightarrow>
          (\<forall>e \<in> set es. \<exists>c. le_kind e = LChild c \<and> ev_seq c \<le> ow_minimum_sequence w))"
proof (induction es w arbitrary: r w' rule: observation_next_loop.induct)
  case (1 w)
  then show ?case by auto
next
  case (2 e es w)
  show ?case
  proof (cases "\<exists>c. le_kind e = LChild c \<and> ev_seq c \<le> ow_minimum_sequence w")
    case True
    then obtain c where c: "le_kind e = LChild c" "ev_seq c \<le> ow_minimum_sequence w" by blast
    with "2.prems" have "observation_next_loop es w = (r, w')" by simp
    with "2.IH" [OF c(1)] c show ?thesis
      by (auto split: option.splits child_observation_update.splits)
  next
    case False
    show ?thesis
    proof (cases "\<exists>c. le_kind e = LChild c")
      case True
      with False "2.prems" show ?thesis by (force simp: not_le)
    next
      case no_child: False
      with "2.prems" show ?thesis
        by (cases "le_kind e") (auto simp: recovery_reset_def)
    qed
  qed
qed

text \<open>
  Child observation never replays and never silently skips: a transition it reports is newer
  than everything the current baseline reflects, a reset hands over the latest snapshot and
  lifts the baseline to it, the baseline never moves backwards, and the staged events are
  exhausted without a report only when every one of them is already reflected.
\<close>

theorem observation_next_sound:
  "case observation_next w of (r, w') \<Rightarrow>
     ow_minimum_sequence w \<le> ow_minimum_sequence w' \<and>
     (case r of
        Some (Transition c) \<Rightarrow>
          ow_minimum_sequence w < ev_seq c \<and> ow_minimum_sequence w' = ow_minimum_sequence w \<and>
          (\<exists>pre e post. ow_events w = pre @ e # post \<and> le_kind e = LChild c \<and> ow_events w' = post)
      | Some (Reset s d) \<Rightarrow>
          s = ow_snapshot w \<and> ss_lifecycle_seq s \<le> ow_minimum_sequence w'
      | None \<Rightarrow>
          \<not> (\<exists>e \<in> set (ow_events w).
               \<not> (\<exists>c. le_kind e = LChild c \<and> ev_seq c \<le> ow_minimum_sequence w)))"
  using observation_next_loop_spec [of "ow_events w" w]
  by (cases "observation_next w") (auto simp: observation_next_def split: option.splits
      child_observation_update.splits)

end
