(* ===== verification/Stable_Channels.thy ===== *)
theory Stable_Channels
  imports Lifecycle Child_Spec
begin

text \<open>
  The restart-stable identity of a supervisor (\<open>supervisor/handle.rs\<close>): the binding of the
  current incarnation with its epoch, the snapshot slot, the attachment view and the edge kind,
  with binding, publication, retirement and terminalisation; and the cascade of terminality to
  the identities nested below.

  The mutexes of the identity are the fields they guard.  Completion channels are numbered;
  the list of signalled epochs records the incarnations whose shutdown channel was raised.
  Epochs and revisions wrap at 64 bits as the code's \<open>wrapping_add\<close> does.
\<close>

record attached_child_state =
  at_id :: string
  at_lineage :: u64
  at_generation :: u64
  at_attachment :: "nat option"
  at_supervisor :: "nat option"

record attached_children_view =
  av_generation :: "u64 option"
  av_binding_epoch :: u64
  av_terminal :: bool
  av_children :: "attached_child_state list"

datatype edge_kind = EdgeUnclaimed | EdgeDynamic | EdgeStatic

datatype root_extra_slot = NotRoot | RootPending | RootReady

record incarnation_binding =
  ib_epoch :: u64
  ib_done :: nat

record stable_channels =
  st_current :: "incarnation_binding option"
  st_last_done :: "nat option"
  st_next_binding_epoch :: u64
  st_bound_once :: bool
  st_terminal :: bool
  st_revision :: u64
  st_signalled :: "u64 list"
  st_initial_incarnation :: bool
  st_lifecycle :: lifecycle_hub
  st_snapshot :: supervisor_snapshot
  st_snapshot_open :: bool
  st_attached :: attached_children_view
  st_edge :: edge_kind
  st_root_extra :: root_extra_slot

definition u64_wrapping_succ :: "u64 \<Rightarrow> u64" where
  "u64_wrapping_succ n = Suc n mod 2 ^ 64"

definition stable_new :: "supervisor_snapshot \<Rightarrow> attached_child_state list \<Rightarrow> stable_channels" where
  "stable_new snapshot attached =
     \<lparr>st_current = None, st_last_done = None, st_next_binding_epoch = 0, st_bound_once = False,
      st_terminal = False, st_revision = 0, st_signalled = [], st_initial_incarnation = True,
      st_lifecycle = hub_new, st_snapshot = snapshot, st_snapshot_open = True,
      st_attached = \<lparr>av_generation = Some 0, av_binding_epoch = 0, av_terminal = False,
                     av_children = attached\<rparr>,
      st_edge = EdgeUnclaimed, st_root_extra = NotRoot\<rparr>"

definition statically_configured :: "stable_channels \<Rightarrow> bool" where
  "statically_configured c \<longleftrightarrow> st_edge c = EdgeStatic"

definition claim_edge :: "bool \<Rightarrow> stable_channels \<Rightarrow> stable_channels" where
  "claim_edge static c = c\<lparr>st_edge := (if static then EdgeStatic else EdgeDynamic)\<rparr>"

definition bump_binding_revision :: "stable_channels \<Rightarrow> stable_channels" where
  "bump_binding_revision c = c\<lparr>st_revision := u64_wrapping_succ (st_revision c)\<rparr>"

definition invalidate_attachment_view :: "stable_channels \<Rightarrow> stable_channels" where
  "invalidate_attachment_view c =
     (if av_terminal (st_attached c) then c
      else c\<lparr>st_attached := (st_attached c)\<lparr>av_generation := None, av_children := []\<rparr>\<rparr>)"

text \<open>
  An identity is classified as root at most once, and its root slot is filled exactly once after
  that; the panics of the two assertions are \<open>None\<close>.
\<close>

definition mark_root :: "stable_channels \<Rightarrow> stable_channels option" where
  "mark_root c =
     (if st_root_extra c = NotRoot
      then Some (c\<lparr>st_root_extra := RootPending,
                   st_attached := (st_attached c)\<lparr>av_generation := None\<rparr>\<rparr>)
      else None)"

definition install_root_extra :: "stable_channels \<Rightarrow> stable_channels option" where
  "install_root_extra c =
     (if st_root_extra c = RootPending
      then Some (bump_binding_revision (c\<lparr>st_root_extra := RootReady\<rparr>)) else None)"

text \<open>
  Reconfiguring a reserved identity is allowed only before it is bound and while it is not
  terminal; the assertion's panic is \<open>None\<close>.
\<close>

definition reset_declared_view ::
    "supervisor_snapshot \<Rightarrow> attached_child_state list \<Rightarrow> stable_channels \<Rightarrow> stable_channels option" where
  "reset_declared_view snapshot attached c =
     (if st_current c = None \<and> \<not> st_terminal c
      then Some (c\<lparr>st_snapshot := snapshot,
                   st_attached := \<lparr>av_generation = Some 0, av_binding_epoch = 0,
                                   av_terminal = False, av_children = attached\<rparr>\<rparr>)
      else None)"

section \<open>The initial snapshot\<close>

definition declared_child :: "nat \<Rightarrow> child_definition \<Rightarrow> child_snapshot" where
  "declared_child lineage d =
     ChildSnapshot (cd_id d) lineage 0 (CVStarting None) MVActive 0 (cd_restart d)
       (cd_remove_on_terminal_exit d) None None"

definition initial_snapshot :: "supervisor_config \<Rightarrow> supervisor_snapshot" where
  "initial_snapshot c =
     SupervisorSnapshot SVRunning (cfg_kind c) (cfg_strategy c) 0 0
       (map (\<lambda>(l, d). declared_child l d) (enumerate 0 (cfg_children c)))"

section \<open>Binding an incarnation\<close>

fun with_lineage :: "u64 \<Rightarrow> child_snapshot \<Rightarrow> child_snapshot" where
  "with_lineage l (ChildSnapshot i _ g st m rc rp rm nr nested) =
     ChildSnapshot i l g st m rc rp rm nr nested"

fun set_attached_lineage ::
    "string \<Rightarrow> u64 \<Rightarrow> attached_child_state list \<Rightarrow> attached_child_state list" where
  "set_attached_lineage i l [] = []"
| "set_attached_lineage i l (a # as) =
     (if at_id a = i then a\<lparr>at_lineage := l\<rparr> # as else a # set_attached_lineage i l as)"

fun assign_lineages ::
    "child_snapshot list \<Rightarrow> attached_child_state list \<Rightarrow> lifecycle_hub
       \<Rightarrow> child_snapshot list \<times> attached_child_state list \<times> lifecycle_hub" where
  "assign_lineages [] as h = ([], as, h)"
| "assign_lineages (c # cs) as h =
     (case next_lineage h of (l, h1) \<Rightarrow>
        (case assign_lineages cs (set_attached_lineage (cs_id c) l as) h1 of
           (cs', as', h2) \<Rightarrow> (with_lineage l c # cs', as', h2)))"

definition bind_prepared ::
    "u64 \<Rightarrow> nat \<Rightarrow> supervisor_snapshot \<Rightarrow> attached_child_state list \<Rightarrow> stable_channels
       \<Rightarrow> u64 option \<times> stable_channels" where
  "bind_prepared generation done snapshot attached c =
     (if st_terminal c then (None, c)
      else let epoch = st_next_binding_epoch c in
        case assign_lineages (ss_children snapshot) attached (st_lifecycle c) of
          (children, attached', hub) \<Rightarrow>
            (Some epoch,
             bump_binding_revision (c\<lparr>
               st_next_binding_epoch := u64_wrapping_succ epoch,
               st_lifecycle := hub,
               st_snapshot := SupervisorSnapshot (ss_state snapshot) (ss_kind snapshot)
                 (ss_strategy snapshot) (ss_total_restarts (st_snapshot c)) (hub_seq hub) children,
               st_attached := \<lparr>av_generation =
                   (case st_root_extra c of NotRoot \<Rightarrow> Some generation | _ \<Rightarrow> None),
                 av_binding_epoch = epoch, av_terminal = False, av_children = attached'\<rparr>,
               st_current := Some \<lparr>ib_epoch = epoch, ib_done = done\<rparr>,
               st_bound_once := True\<rparr>)))"

definition owns_binding :: "u64 \<Rightarrow> stable_channels \<Rightarrow> bool" where
  "owns_binding epoch c \<longleftrightarrow>
     \<not> st_terminal c \<and>
     (case st_current c of None \<Rightarrow> False | Some b \<Rightarrow> ib_epoch b = epoch)"

definition publish_snapshot_slot ::
    "u64 \<Rightarrow> supervisor_snapshot \<Rightarrow> stable_channels \<Rightarrow> stable_channels" where
  "publish_snapshot_slot epoch snapshot c =
     (if owns_binding epoch c then c\<lparr>st_snapshot := snapshot\<rparr> else c)"

definition binding_guard_drop :: "u64 \<Rightarrow> stable_channels \<Rightarrow> stable_channels" where
  "binding_guard_drop epoch c =
     (case st_current c of
        None \<Rightarrow> c
      | Some b \<Rightarrow>
          if ib_epoch b = epoch
          then bump_binding_revision (invalidate_attachment_view
                 (c\<lparr>st_current := None, st_signalled := st_signalled c @ [epoch],
                    st_last_done := Some (ib_done b)\<rparr>))
          else c)"

definition take_initial_incarnation :: "u64 \<Rightarrow> stable_channels \<Rightarrow> bool \<times> stable_channels" where
  "take_initial_incarnation generation c =
     (if generation \<noteq> 0 \<or> st_terminal c then (False, c)
      else (st_initial_incarnation c, c\<lparr>st_initial_incarnation := False\<rparr>))"

datatype wait_target =
    WaitBound
  | WaitNeverBound
  | WaitBetweenIncarnations
  | WaitTerminal "nat option"

definition wait_target :: "stable_channels \<Rightarrow> wait_target" where
  "wait_target c =
     (if st_terminal c then WaitTerminal (st_last_done c)
      else if st_current c \<noteq> None then WaitBound
      else if st_bound_once c then WaitBetweenIncarnations
      else WaitNeverBound)"

datatype startup_snapshot = StartupBound supervisor_snapshot | StartupUnbound | StartupTerminal

definition startup_snapshot :: "stable_channels \<Rightarrow> startup_snapshot" where
  "startup_snapshot c =
     (if st_terminal c then StartupTerminal
      else if st_current c = None then StartupUnbound
      else StartupBound (st_snapshot c))"

definition terminal :: "stable_channels \<Rightarrow> stable_channels" where
  "terminal c =
     (let c1 = bump_binding_revision (case st_current c of
            None \<Rightarrow> c\<lparr>st_terminal := True\<rparr>
          | Some b \<Rightarrow> c\<lparr>st_terminal := True, st_current := None,
                         st_last_done := Some (ib_done b),
                         st_signalled := st_signalled c @ [ib_epoch b]\<rparr>)
      in c1\<lparr>st_initial_incarnation := False,
            st_attached := (st_attached c1)\<lparr>av_terminal := True, av_children := []\<rparr>,
            st_snapshot_open := False,
            st_lifecycle := snd (hub_terminate (st_lifecycle c1))\<rparr>)"

section \<open>Nested identities\<close>

datatype stable_tree =
  StableTree (st_root: stable_channels) (st_nested: "(string \<times> stable_tree) list")

fun terminal_tree :: "stable_tree \<Rightarrow> stable_tree" where
  "terminal_tree (StableTree c ns) =
     StableTree (terminal c) (map (\<lambda>(i, t). (i, terminal_tree t)) ns)"

fun tree_identities :: "stable_tree \<Rightarrow> stable_channels list" where
  "tree_identities (StableTree c ns) = c # concat (map (\<lambda>(i, t). tree_identities t) ns)"

text \<open>Binding an incarnation also hides the stale views of its direct nested identities.\<close>

fun invalidate_root :: "stable_tree \<Rightarrow> stable_tree" where
  "invalidate_root (StableTree c ns) = StableTree (invalidate_attachment_view c) ns"

fun bind_tree ::
    "u64 \<Rightarrow> nat \<Rightarrow> supervisor_snapshot \<Rightarrow> attached_child_state list \<Rightarrow> stable_tree
       \<Rightarrow> u64 option \<times> stable_tree" where
  "bind_tree g d s attached (StableTree c ns) =
     (case bind_prepared g d s attached c of
        (None, c') \<Rightarrow> (None, StableTree c' ns)
      | (Some epoch, c') \<Rightarrow>
          (Some epoch, StableTree c' (map (\<lambda>(i, t).
             (i, if \<exists>a \<in> set attached. at_id a = i \<and> at_supervisor a \<noteq> None
                 then invalidate_root t else t)) ns)))"

section \<open>Properties\<close>

lemma terminal_fields [simp]:
  "st_terminal (terminal c)" "st_current (terminal c) = None"
  "\<not> st_snapshot_open (terminal c)" "av_children (st_attached (terminal c)) = []"
  "av_terminal (st_attached (terminal c))" "st_snapshot (terminal c) = st_snapshot c"
  "hub_terminal (st_lifecycle (terminal c))"
  by (simp_all add: terminal_def Let_def bump_binding_revision_def hub_terminate_def
      split: option.split)

definition identity_closed :: "stable_channels \<Rightarrow> bool" where
  "identity_closed c \<longleftrightarrow>
     st_terminal c \<and> st_current c = None \<and> \<not> st_snapshot_open c \<and>
     hub_terminal (st_lifecycle c) \<and> av_terminal (st_attached c) \<and>
     av_children (st_attached c) = [] \<and> \<not> st_initial_incarnation c"

lemma terminal_closed: "identity_closed (terminal c)"
  by (simp add: identity_closed_def) (simp add: terminal_def Let_def)

lemma terminal_tree_all: "list_all identity_closed (tree_identities (terminal_tree t))"
  by (induction t rule: terminal_tree.induct) (auto simp: list_all_iff terminal_closed)

text \<open>
  Terminality is final and cascades: after \<open>terminal\<close> every identity of the subtree is
  closed, keeps serving its last snapshot and the result of its last incarnation, and from
  then on no incarnation can bind, no writer of any epoch can publish and no initial
  channels can be taken.
\<close>

theorem terminal_final:
  "list_all identity_closed (tree_identities (terminal_tree t)) \<and>
   st_snapshot (terminal c) = st_snapshot c \<and>
   wait_target (terminal c) =
     WaitTerminal (case st_current c of None \<Rightarrow> st_last_done c | Some b \<Rightarrow> Some (ib_done b)) \<and>
   bind_prepared g d s as (terminal c) = (None, terminal c) \<and>
   publish_snapshot_slot epoch s (terminal c) = terminal c \<and>
   binding_guard_drop epoch (terminal c) = terminal c \<and>
   take_initial_incarnation g (terminal c) = (False, terminal c) \<and>
   startup_snapshot (terminal c) = StartupTerminal"
proof -
  have "st_last_done (terminal c) =
      (case st_current c of None \<Rightarrow> st_last_done c | Some b \<Rightarrow> Some (ib_done b))"
    by (simp add: terminal_def Let_def bump_binding_revision_def split: option.split)
  then show ?thesis
    by (simp add: terminal_tree_all wait_target_def bind_prepared_def publish_snapshot_slot_def
        owns_binding_def binding_guard_drop_def take_initial_incarnation_def startup_snapshot_def)
qed

lemma assign_lineages_spec:
  assumes "assign_lineages cs as h = (cs', as', h')"
    and "hub_next_lineage h + length cs \<le> u64_max"
  shows "map cs_lineage cs' = [hub_next_lineage h..<hub_next_lineage h + length cs] \<and>
         hub_next_lineage h' = hub_next_lineage h + length cs \<and> hub_seq h' = hub_seq h \<and>
         map cs_id cs' = map cs_id cs"
  using assms
proof (induction cs arbitrary: as h cs' as' h')
  case Nil
  then show ?case by simp
next
  case (Cons c cs)
  let ?l = "hub_next_lineage h"
  let ?h = "h\<lparr>hub_next_lineage := Suc ?l\<rparr>"
  have nl: "next_lineage h = (?l, ?h)"
    using Cons.prems(2) by (simp add: next_lineage_def u64_saturating_add_def)
  obtain ds bs k where rec: "assign_lineages cs (set_attached_lineage (cs_id c) ?l as) ?h = (ds, bs, k)"
    by (cases "assign_lineages cs (set_attached_lineage (cs_id c) ?l as) ?h") auto
  have eqs: "cs' = with_lineage ?l c # ds" "as' = bs" "h' = k"
    using Cons.prems(1) by (simp_all add: nl rec)
  have w: "cs_lineage (with_lineage ?l c) = ?l" "cs_id (with_lineage ?l c) = cs_id c"
    by (cases c; simp)+
  from Cons.IH [OF rec] Cons.prems(2) have
    "map cs_lineage ds = [Suc ?l..<Suc ?l + length cs]" "hub_next_lineage k = Suc ?l + length cs"
    "hub_seq k = hub_seq h" "map cs_id ds = map cs_id cs"
    by simp_all
  then show ?case by (simp add: eqs w upt_conv_Cons del: upt_Suc)
qed

text \<open>
  Rebinding an identity starts a fresh incarnation without losing continuity: the static
  memberships receive consecutive lineages never used before, the restart total and the event
  sequence carry over into the published baseline, and the incarnation displaced by the new
  binding can neither publish a snapshot nor release the binding any more.
\<close>

theorem rebind_displaces:
  assumes "\<not> st_terminal c"
    and "hub_next_lineage (st_lifecycle c) + length (ss_children s) \<le> u64_max"
    and "bind_prepared g d s as c = (r, c')"
  shows "r = Some (st_next_binding_epoch c) \<and>
    owns_binding (st_next_binding_epoch c) c' \<and>
    map cs_lineage (ss_children (st_snapshot c')) =
      [hub_next_lineage (st_lifecycle c)..<hub_next_lineage (st_lifecycle c)
        + length (ss_children s)] \<and>
    hub_next_lineage (st_lifecycle c') =
      hub_next_lineage (st_lifecycle c) + length (ss_children s) \<and>
    map cs_id (ss_children (st_snapshot c')) = map cs_id (ss_children s) \<and>
    ss_total_restarts (st_snapshot c') = ss_total_restarts (st_snapshot c) \<and>
    ss_lifecycle_seq (st_snapshot c') = hub_seq (st_lifecycle c) \<and>
    (old \<noteq> st_next_binding_epoch c \<longrightarrow>
       publish_snapshot_slot old x c' = c' \<and> binding_guard_drop old c' = c')"
proof -
  obtain cs' as' h' where al: "assign_lineages (ss_children s) as (st_lifecycle c) = (cs', as', h')"
    by (cases "assign_lineages (ss_children s) as (st_lifecycle c)") auto
  from assign_lineages_spec [OF al assms(2)] assms(1,3) show ?thesis
    by (auto simp: bind_prepared_def Let_def al bump_binding_revision_def owns_binding_def
        publish_snapshot_slot_def binding_guard_drop_def)
qed

theorem rebind_displaces_witness:
  "let s = initial_snapshot (ordered_config (child_spec (task_spec_new ''a'') ordered_builder_new));
       c = stable_new s []
   in \<not> st_terminal c \<and>
      hub_next_lineage (st_lifecycle c) + length (ss_children s) \<le> u64_max \<and>
      fst (bind_prepared 0 7 s [] c) = Some 0 \<and>
      map cs_lineage (ss_children (st_snapshot (snd (bind_prepared 0 7 s [] c)))) = [0] \<and>
      publish_snapshot_slot 5 s (snd (bind_prepared 0 7 s [] c)) = snd (bind_prepared 0 7 s [] c)"
proof -
  let ?s = "initial_snapshot (ordered_config (child_spec (task_spec_new ''a'') ordered_builder_new))"
  let ?c = "stable_new ?s []"
  have len: "length (ss_children ?s) = 1"
    by (simp add: initial_snapshot_def ordered_config_def child_spec_def ordered_builder_new_def)
  have h: "\<not> st_terminal ?c" "hub_next_lineage (st_lifecycle ?c) + length (ss_children ?s) \<le> u64_max"
    by (simp_all add: len stable_new_def hub_new_def u64_max_def)
  have e: "bind_prepared 0 7 ?s [] ?c = (fst (bind_prepared 0 7 ?s [] ?c), snd (bind_prepared 0 7 ?s [] ?c))"
    by simp
  from rebind_displaces [OF h e, of 5 ?s] h show ?thesis
    unfolding Let_def by (simp add: len stable_new_def hub_new_def)
qed

end
