(* ===== verification/Runtime_State.thy ===== *)
theory Runtime_State
  imports Restart_Tracker Stable_Channels "HOL-Library.AList"
begin

text \<open>
  The state of one supervisor incarnation (\<open>supervisor/runtime/supervision.rs\<close>,
  \<open>supervisor/runtime/child_runtime.rs\<close>) and the operations through which it is observed:
  snapshot views, lifecycle drafts, runtime events and their publication.

  One clock value \<open>rt_now\<close> stands for the reads of \<open>Instant::now\<close> inside one synchronous
  handler.  The channels of the runtime appear through what passes them: the commands
  received (by their reply channel), the replies sent, the readiness report to the parent,
  aborted tasks and the event trace are fields that only grow.  Cancellation tokens are flags; a child token belongs to the group token it
  was derived from and is cancelled with it.  Nested supervisors are known through the trees of
  stable identities in \<open>rt_stable\<close>.  The formatted child paths, tracing spans and metrics
  of the observability layer have no influence on the state and are left out.
\<close>

section \<open>Child state\<close>

datatype completion_flag = CompletionPending | CompletionCancelled | CompletionClean

definition mark_cancelled :: "completion_flag \<Rightarrow> completion_flag" where
  "mark_cancelled f = (if f = CompletionPending then CompletionCancelled else f)"

definition mark_clean :: "completion_flag \<Rightarrow> completion_flag" where
  "mark_clean f = (if f = CompletionPending then CompletionClean else f)"

definition is_clean :: "completion_flag \<Rightarrow> bool" where
  "is_clean f \<longleftrightarrow> f = CompletionClean"

definition is_cancelled :: "completion_flag \<Rightarrow> bool" where
  "is_cancelled f \<longleftrightarrow> f = CompletionCancelled"

datatype runtime_child_state = StartQueued | Starting | Running | Stopping | Stopped

fun is_active :: "runtime_child_state \<Rightarrow> bool" where
  "is_active Starting = True"
| "is_active Running = True"
| "is_active Stopping = True"
| "is_active _ = False"

record token =
  tk_group :: nat
  tk_cancelled :: bool

record child_runtime =
  cr_definition :: child_definition
  cr_restart_tracker :: restart_tracker
  cr_generation :: u64
  cr_state :: runtime_child_state
  cr_active_token :: "token option"
  cr_active_abort_token :: "bool option"
  cr_abort_handle :: "nat option"
  cr_nested_abort_cascades :: bool
  cr_has_started :: bool
  cr_has_reported_ready :: bool
  cr_startup_aborted :: bool
  cr_next_restart_deadline :: "instant option"
  cr_completion :: completion_flag
  cr_shutdown_timed_out :: bool

definition child_runtime_new :: "nat \<Rightarrow> child_definition \<Rightarrow> child_runtime" where
  "child_runtime_new seed d =
     \<lparr>cr_definition = d, cr_restart_tracker = tracker_new seed (cd_restart d),
      cr_generation = 0, cr_state = Stopped, cr_active_token = None,
      cr_active_abort_token = None, cr_abort_handle = None, cr_nested_abort_cascades = True,
      cr_has_started = False, cr_has_reported_ready = False, cr_startup_aborted = False,
      cr_next_restart_deadline = None, cr_completion = CompletionPending,
      cr_shutdown_timed_out = False\<rparr>"

section \<open>Entries\<close>

datatype membership_state = MActive | MRemoving | MRemoved

record pending_removal =
  pr_reply :: nat
  pr_policy :: shutdown
  pr_grace_deadline :: instant
  pr_grace_expired :: bool
  pr_hard_abort_deadline :: "instant option"

record child_entry =
  ce_id :: string
  ce_lineage :: u64
  ce_attachment :: "nat option"
  ce_runtime :: child_runtime
  ce_last_exit :: "exit_kind option"
  ce_last_exit_cancelled :: bool
  ce_nested_snapshot :: "supervisor_snapshot option"
  ce_nested_snapshot_state :: "nested_snapshot_state option"
  ce_nested_channels :: "nat option"
  ce_membership :: membership_state
  ce_pending_removal :: "pending_removal option"

definition child_entry_new ::
    "nat \<Rightarrow> string \<Rightarrow> child_definition \<Rightarrow> nat option \<Rightarrow> u64 \<Rightarrow> child_entry" where
  "child_entry_new seed i d channels lineage =
     \<lparr>ce_id = i, ce_lineage = lineage, ce_attachment = cd_attachment d,
      ce_runtime = child_runtime_new seed d, ce_last_exit = None,
      ce_last_exit_cancelled = False, ce_nested_snapshot = None,
      ce_nested_snapshot_state = None, ce_nested_channels = channels,
      ce_membership = MActive, ce_pending_removal = None\<rparr>"

text \<open>Updating the runtime part of an entry.\<close>

definition on_runtime :: "(child_runtime \<Rightarrow> child_runtime) \<Rightarrow> child_entry \<Rightarrow> child_entry" where
  "on_runtime f e = e\<lparr>ce_runtime := f (ce_runtime e)\<rparr>"

abbreviation child_state :: "child_entry \<Rightarrow> runtime_child_state" where
  "child_state e \<equiv> cr_state (ce_runtime e)"

abbreviation child_definition_of :: "child_entry \<Rightarrow> child_definition" where
  "child_definition_of e \<equiv> cr_definition (ce_runtime e)"

abbreviation child_deadline :: "child_entry \<Rightarrow> instant option" where
  "child_deadline e \<equiv> cr_next_restart_deadline (ce_runtime e)"

definition has_task :: "child_entry \<Rightarrow> bool" where
  "has_task e \<longleftrightarrow> cr_abort_handle (ce_runtime e) \<noteq> None"

section \<open>Runtime state\<close>

record task_meta =
  tm_key :: nat
  tm_lineage :: u64
  tm_generation :: u64

datatype supervisor_state = SupRunning | SupStopping | SupStopped

datatype exit_reason = ShutdownRequested | Failure supervisor_error

text \<open>
  What stops a handler early.  \<open>Blocked\<close> is a drain that waits for an event that its
  environment has not delivered; \<open>Panic\<close> is a failed assertion, an \<open>unreachable!\<close> or
  an index of the child slab that does not exist.
\<close>

datatype halt = Exit exit_reason | Blocked | Panic

record start_item =
  si_key :: nat
  si_lineage :: u64
  si_emit_restart_event :: bool

record start_gate =
  sg_key :: nat
  sg_lineage :: u64
  sg_generation :: u64

record start_sequence =
  sq_queue :: "start_item list"
  sq_gate :: "start_gate option"

definition start_sequence_default :: start_sequence where
  "start_sequence_default = \<lparr>sq_queue = [], sq_gate = None\<rparr>"

record parent_link =
  pl_tree :: lifecycle_tree_sink
  pl_cell :: snapshot_cell
  pl_id :: string
  pl_lineage :: u64
  pl_generation :: u64

record runtime_meta =
  rm_strategy :: strategy
  rm_kind :: scope_kind
  rm_default_child_restart :: restart_policy
  rm_default_child_shutdown :: shutdown
  rm_binding_epoch :: u64
  rm_revivable :: bool

datatype reply = ReplyAdd "control_error + u64" | ReplyRemove "control_error + unit"

record runtime =
  rt_meta :: runtime_meta
  rt_state :: supervisor_state
  rt_stopping :: bool
  rt_group :: nat
  rt_group_cancelled :: bool
  rt_join_set :: "nat list"
  rt_children :: "child_entry slab"
  rt_children_by_id :: "string \<rightharpoonup> nat"
  rt_child_order :: "nat list"
  rt_live_tasks :: nat
  rt_own :: stable_channels
  rt_parent_link :: "parent_link option"
  rt_shutdown_requested :: bool
  rt_nested_channels :: "(string \<times> nat) list"
  rt_stable :: "nat \<Rightarrow> stable_tree"
  rt_commands_open :: bool
  rt_task_map :: "nat \<rightharpoonup> task_meta"
  rt_start_sequence :: "start_sequence option"
  rt_startup_gate :: "(nat \<times> u64) list option"
  rt_total_restarts :: u64
  rt_now :: instant
  rt_reported_ready :: bool
  rt_received :: "nat list"
  rt_replies :: "(nat \<times> reply) list"
  rt_aborted :: "nat list"
  rt_trace :: "(runtime_event \<times> nat) list"
  rt_panicked :: bool

type_synonym 'a runtime_run = "(runtime, halt, 'a) run"

text \<open>
  What the runtime takes from outside: the key an insertion into the slab uses, the id Tokio
  gives a spawned task, the clock seed of a restart tracker and the text of a duration.
\<close>

record runtime_env =
  env_vacant_key :: "child_entry slab \<Rightarrow> nat"
  env_task_id :: "nat list \<Rightarrow> nat"
  env_seed :: "instant \<Rightarrow> nat"
  env_show_duration :: "duration \<Rightarrow> string"

text \<open>
  The documented behaviour the theorems rely on: an insertion uses a vacant key, and a new
  task's id differs from those of the tasks that have not been joined.
\<close>

definition env_ok :: "runtime_env \<Rightarrow> bool" where
  "env_ok E \<longleftrightarrow>
     (\<forall>sl. slab_get sl (env_vacant_key E sl) = None) \<and> (\<forall>ts. env_task_id E ts \<notin> set ts)"

abbreviation rt_hub :: "runtime \<Rightarrow> lifecycle_hub" where
  "rt_hub s \<equiv> st_lifecycle (rt_own s)"

abbreviation child_at :: "runtime \<Rightarrow> nat \<Rightarrow> child_entry option" where
  "child_at s k \<equiv> slab_get (rt_children s) k"

definition update_child :: "nat \<Rightarrow> (child_entry \<Rightarrow> child_entry) \<Rightarrow> runtime \<Rightarrow> runtime" where
  "update_child k f s = s\<lparr>rt_children := slab_update k f (rt_children s)\<rparr>"

definition update_runtime :: "nat \<Rightarrow> (child_runtime \<Rightarrow> child_runtime) \<Rightarrow> runtime \<Rightarrow> runtime" where
  "update_runtime k f s = update_child k (on_runtime f) s"

text \<open>
  Indexing the slab panics on a vacant key.  An operation whose result carries a halt returns
  \<open>Panic\<close>; one that only changes the state sets \<open>rt_panicked\<close>, which is never reset: a
  state with that flag is one the source does not reach, because the task has panicked before.
\<close>

definition panic_if :: "bool \<Rightarrow> runtime \<Rightarrow> runtime" where
  "panic_if b s = s\<lparr>rt_panicked := rt_panicked s \<or> b\<rparr>"

definition index_child :: "nat \<Rightarrow> (child_entry \<Rightarrow> child_entry) \<Rightarrow> runtime \<Rightarrow> runtime" where
  "index_child k f s = panic_if (child_at s k = None) (update_child k f s)"

definition index_runtime :: "nat \<Rightarrow> (child_runtime \<Rightarrow> child_runtime) \<Rightarrow> runtime \<Rightarrow> runtime" where
  "index_runtime k f s = index_child k (on_runtime f) s"

definition child_index :: "nat \<Rightarrow> child_entry runtime_run" where
  "child_index k s = (case child_at s k of None \<Rightarrow> (Inl Panic, s) | Some e \<Rightarrow> (Inr e, s))"

section \<open>Snapshots\<close>

text \<open>The view of a removed membership is marked \<open>unreachable!\<close>.\<close>

fun membership_view :: "membership_state \<Rightarrow> child_membership_view option" where
  "membership_view MActive = Some MVActive"
| "membership_view MRemoving = Some MVRemoving"
| "membership_view MRemoved = None"

definition public_last_exit :: "child_entry \<Rightarrow> exit_status option" where
  "public_last_exit e =
     map_option (\<lambda>k. exit_status_new k (ce_last_exit_cancelled e)) (ce_last_exit e)"

definition child_view :: "instant \<Rightarrow> child_entry \<Rightarrow> child_snapshot option" where
  "child_view now e =
     (let r = ce_runtime e; last = public_last_exit e in
      map_option (\<lambda>membership. ChildSnapshot (ce_id e) (ce_lineage e) (cr_generation r)
        (case cr_state r of
           StartQueued \<Rightarrow> CVStarting last
         | Starting \<Rightarrow> CVStarting last
         | Running \<Rightarrow> CVRunning last
         | Stopping \<Rightarrow> CVStopping (cr_has_reported_ready r) last
         | Stopped \<Rightarrow>
             if cr_startup_aborted r
             then (case last of Some ex \<Rightarrow> CVStartupAborted ex | None \<Rightarrow> CVStopped False None)
             else CVStopped (cr_has_reported_ready r) last)
        membership
        (tr_total_restarts (cr_restart_tracker r)) (cd_restart (cr_definition r))
        (cd_remove_on_terminal_exit (cr_definition r))
        (map_option (\<lambda>d. duration_since d now) (cr_next_restart_deadline r))
        (ce_nested_snapshot e)) (membership_view (ce_membership e)))"

fun state_view :: "supervisor_state \<Rightarrow> supervisor_state_view" where
  "state_view SupRunning = SVRunning"
| "state_view SupStopping = SVStopping"
| "state_view SupStopped = SVStopped"

definition ordered_entries :: "runtime \<Rightarrow> child_entry list" where
  "ordered_entries s = List.map_filter (child_at s) (rt_child_order s)"

definition snapshot_view :: "runtime \<Rightarrow> supervisor_snapshot" where
  "snapshot_view s =
     SupervisorSnapshot (state_view (rt_state s)) (rm_kind (rt_meta s)) (rm_strategy (rt_meta s))
       (rt_total_restarts s) (hub_seq (rt_hub s)) (List.map_filter (child_view (rt_now s)) (ordered_entries s))"

definition attached_child :: "child_entry \<Rightarrow> attached_child_state" where
  "attached_child e =
     \<lparr>at_id = ce_id e, at_lineage = ce_lineage e, at_generation = cr_generation (ce_runtime e),
      at_attachment = ce_attachment e, at_supervisor = ce_nested_channels e\<rparr>"

definition attached_children :: "runtime \<Rightarrow> attached_child_state list" where
  "attached_children s = map attached_child (ordered_entries s)"

definition publish_snapshot :: "runtime \<Rightarrow> runtime" where
  "publish_snapshot s =
     (let epoch = rm_binding_epoch (rt_meta s);
          av = st_attached (rt_own s);
          own = (if \<not> av_terminal av \<and> av_generation av = map_option pl_generation (rt_parent_link s)
                    \<and> av_binding_epoch av = epoch
                 then (rt_own s)\<lparr>st_attached := av\<lparr>av_children := attached_children s\<rparr>\<rparr>
                 else rt_own s);
          snapshot = snapshot_view s
      in panic_if (\<exists>e \<in> set (ordered_entries s). child_view (rt_now s) e = None)
           (s\<lparr>rt_own := publish_snapshot_slot epoch snapshot own,
              rt_parent_link := map_option
                (\<lambda>l. l\<lparr>pl_cell := forward snapshot (pl_generation l) (pl_cell l)\<rparr>)
                (rt_parent_link s)\<rparr>))"

section \<open>Lifecycle and runtime events\<close>

definition rt_sink :: "runtime \<Rightarrow> lifecycle_tree_sink" where
  "rt_sink s =
     Sink (rt_hub s)
       (map_option (\<lambda>l. (pl_tree l, \<lparr>seg_id = pl_id l, seg_lineage = pl_lineage l,
                                       seg_generation = pl_generation l\<rparr>)) (rt_parent_link s))"

definition set_sink :: "lifecycle_tree_sink \<Rightarrow> runtime \<Rightarrow> runtime" where
  "set_sink k s =
     s\<lparr>rt_own := (rt_own s)\<lparr>st_lifecycle := sink_hub k\<rparr>,
       rt_parent_link :=
         (case (rt_parent_link s, sink_parent k) of
            (Some l, Some (t, seg)) \<Rightarrow> Some (l\<lparr>pl_tree := t\<rparr>)
          | (l, _) \<Rightarrow> l)\<rparr>"

definition counts_as_running :: "membership_state \<Rightarrow> runtime_child_state \<Rightarrow> bool" where
  "counts_as_running m st \<longleftrightarrow> m \<noteq> MRemoved \<and> (st = Starting \<or> st = Running)"

definition running_child_count :: "runtime \<Rightarrow> nat" where
  "running_child_count s =
     slab_count (\<lambda>e. counts_as_running (ce_membership e) (child_state e)) (rt_children s)"

definition lifecycle_draft :: "nat \<Rightarrow> child_event_kind \<Rightarrow> runtime \<Rightarrow> lifecycle_event_draft option" where
  "lifecycle_draft k kind s =
     map_option (\<lambda>e. \<lparr>dr_child_id = ce_id e, dr_lineage = ce_lineage e,
        dr_total_restarts = rt_total_restarts s,
        dr_child_restart_count = tr_total_restarts (cr_restart_tracker (ce_runtime e)),
        dr_kind = kind\<rparr>) (child_at s k)"

definition send_lifecycle_draft :: "lifecycle_event_draft \<Rightarrow> runtime \<Rightarrow> runtime" where
  "send_lifecycle_draft d s =
     (case emit d (rt_hub s) of (e, h) \<Rightarrow>
        let s1 = s\<lparr>rt_own := (rt_own s)\<lparr>st_lifecycle := h\<rparr>\<rparr>;
            s2 = (if hub_terminal h then s1 else publish_snapshot s1)
        in set_sink (forward_child e (rt_sink s2)) s2)"

definition send_lifecycle :: "nat \<Rightarrow> child_event_kind \<Rightarrow> runtime \<Rightarrow> runtime" where
  "send_lifecycle k kind s =
     (case lifecycle_draft k kind s of None \<Rightarrow> s | Some d \<Rightarrow> send_lifecycle_draft d s)"

fun event_lifecycle :: "u64 \<Rightarrow> runtime_event \<Rightarrow> lifecycle_event option" where
  "event_lifecycle restarts SupervisorStartedEv = Some (local_event LSupervisorStarted)"
| "event_lifecycle restarts SupervisorStoppingEv = Some (local_event LSupervisorStopping)"
| "event_lifecycle restarts SupervisorStoppedEv = Some (local_event LSupervisorStopped)"
| "event_lifecycle restarts RestartIntensityExceededEv =
     Some (local_event (LRestartIntensityExceeded restarts))"
| "event_lifecycle restarts _ = None"

text \<open>The path of the child an event names is read through the index by id.\<close>

definition child_path_dangles :: "runtime_event \<Rightarrow> runtime \<Rightarrow> bool" where
  "child_path_dangles ev s \<longleftrightarrow>
     (case Option.bind (event_child_id ev) (rt_children_by_id s) of
        None \<Rightarrow> False
      | Some k \<Rightarrow> child_at s k = None)"

definition send_event :: "runtime_event \<Rightarrow> runtime \<Rightarrow> runtime" where
  "send_event ev s =
     (let s0 = panic_if (child_path_dangles ev s) s;
          s1 = (if event_updates_snapshot ev then publish_snapshot s0 else s0);
          s2 = s1\<lparr>rt_trace := rt_trace s1 @ [(ev, running_child_count s1)]\<rparr>
      in case event_lifecycle (rt_total_restarts s) ev of
           None \<Rightarrow> s2
         | Some e \<Rightarrow> set_sink (sink_emit_aligned e (rt_sink s2)) s2)"

definition send_restart_event :: "nat \<Rightarrow> u64 \<Rightarrow> u64 \<Rightarrow> runtime \<Rightarrow> runtime" where
  "send_restart_event k old_generation new_generation s =
     (case child_at s k of
        None \<Rightarrow> s
      | Some e \<Rightarrow>
          if cr_generation (ce_runtime e) \<noteq> new_generation then s
          else send_event (ChildRestartedEv (ce_id e) old_generation new_generation) s)"

section \<open>Observation leaves the supervision state alone\<close>

text \<open>
  The part of the state that decides supervision: everything but the trace, the parent link, the
  panic flag and what the identity shows, of which only the lineage counter remains.
\<close>

definition blank_identity :: stable_channels where
  "blank_identity = stable_new (SupervisorSnapshot SVRunning Ordered OneForOne 0 0 []) []"

definition core :: "runtime \<Rightarrow> runtime \<times> u64" where
  "core s = (s\<lparr>rt_own := blank_identity, rt_parent_link := None, rt_trace := [],
                rt_panicked := False\<rparr>,
             hub_next_lineage (rt_hub s))"

lemma core_fields:
  assumes "core s = core s'"
  shows "rt_meta s = rt_meta s'" "rt_state s = rt_state s'" "rt_stopping s = rt_stopping s'"
    "rt_group s = rt_group s'" "rt_group_cancelled s = rt_group_cancelled s'"
    "rt_join_set s = rt_join_set s'" "rt_children s = rt_children s'"
    "rt_children_by_id s = rt_children_by_id s'" "rt_child_order s = rt_child_order s'"
    "rt_live_tasks s = rt_live_tasks s'" "rt_shutdown_requested s = rt_shutdown_requested s'"
    "rt_nested_channels s = rt_nested_channels s'" "rt_stable s = rt_stable s'"
    "rt_commands_open s = rt_commands_open s'" "rt_task_map s = rt_task_map s'"
    "rt_start_sequence s = rt_start_sequence s'" "rt_startup_gate s = rt_startup_gate s'"
    "rt_total_restarts s = rt_total_restarts s'" "rt_now s = rt_now s'"
    "rt_reported_ready s = rt_reported_ready s'" "rt_received s = rt_received s'"
    "rt_replies s = rt_replies s'"
    "rt_aborted s = rt_aborted s'"
    "hub_next_lineage (rt_hub s) = hub_next_lineage (rt_hub s')"
  using assms by (cases s; cases s'; simp add: core_def)+

lemma panic_if_fields [simp]:
  "core (panic_if b s) = core s" "rt_own (panic_if b s) = rt_own s"
  "rt_parent_link (panic_if b s) = rt_parent_link s" "rt_trace (panic_if b s) = rt_trace s"
  "rt_panicked (panic_if b s) \<longleftrightarrow> rt_panicked s \<or> b"
  by (simp_all add: panic_if_def core_def)

lemmas panic_if_core [simp] = core_fields [OF panic_if_fields(1)]

lemma panic_if_False [simp]: "panic_if False s = s"
  by (simp add: panic_if_def)

lemma index_child_present: "child_at s k \<noteq> None \<Longrightarrow> index_child k f s = update_child k f s"
  by (auto simp: index_child_def)

lemma index_runtime_present: "child_at s k \<noteq> None \<Longrightarrow> index_runtime k f s = update_runtime k f s"
  by (simp add: index_runtime_def index_child_present update_runtime_def)

lemma publish_snapshot_hub [simp]: "rt_hub (publish_snapshot s) = rt_hub s"
  by (simp add: publish_snapshot_def Let_def publish_snapshot_slot_def)

lemma publish_snapshot_core [simp]: "core (publish_snapshot s) = core s"
  using publish_snapshot_hub [of s] by (simp add: core_def) (simp add: publish_snapshot_def Let_def)

lemma emit_recursive_next [simp]: "hub_next_lineage (emit_recursive e h) = hub_next_lineage h"
  "hub_seq (emit_recursive e h) = hub_seq h"
  by (simp_all add: emit_recursive_def)

lemma sink_forward_hub [simp]:
  "hub_next_lineage (sink_hub (sink_forward e k)) = hub_next_lineage (sink_hub k)"
  "hub_seq (sink_hub (sink_forward e k)) = hub_seq (sink_hub k)"
  by (cases k; auto simp: Let_def split: option.splits)+

lemma sink_emit_aligned_hub [simp]:
  "hub_next_lineage (sink_hub (sink_emit_aligned e k)) = hub_next_lineage (sink_hub k)"
  "hub_seq (sink_hub (sink_emit_aligned e k)) = hub_seq (sink_hub k)"
  by (cases k; auto simp: Let_def split: option.splits)+

lemma forward_child_hub [simp]:
  "hub_next_lineage (sink_hub (forward_child e k)) = hub_next_lineage (sink_hub k)"
  "hub_seq (sink_hub (forward_child e k)) = hub_seq (sink_hub k)"
  by (simp_all add: forward_child_def)

lemma rt_sink_hub [simp]: "sink_hub (rt_sink s) = rt_hub s"
  by (simp add: rt_sink_def)

lemma set_sink_hub [simp]: "rt_hub (set_sink k s) = sink_hub k"
  by (simp add: set_sink_def)

lemma set_sink_core: "hub_next_lineage (sink_hub k) = hub_next_lineage (rt_hub s) \<Longrightarrow>
  core (set_sink k s) = core s"
  by (simp add: core_def) (simp add: set_sink_def)

lemma core_hub_update: "hub_next_lineage h = hub_next_lineage (rt_hub s) \<Longrightarrow>
  core (s\<lparr>rt_own := (rt_own s)\<lparr>st_lifecycle := h\<rparr>\<rparr>) = core s"
  by (simp add: core_def)

lemma core_trace [simp]: "core (s\<lparr>rt_trace := t\<rparr>) = core s"
  by (simp add: core_def)

lemma emit_next: "emit d h = (e, h') \<Longrightarrow> hub_next_lineage h' = hub_next_lineage h"
  by (auto simp: emit_def Let_def)

lemma send_lifecycle_draft_core [simp]: "core (send_lifecycle_draft d s) = core s"
proof -
  obtain e h where em: "emit d (rt_hub s) = (e, h)" by (cases "emit d (rt_hub s)")
  from emit_next [OF em] show ?thesis
    by (simp add: send_lifecycle_draft_def em Let_def set_sink_core core_hub_update)
qed

lemma send_lifecycle_core [simp]: "core (send_lifecycle k kind s) = core s"
  by (simp add: send_lifecycle_def split: option.split)

lemma send_event_core [simp]: "core (send_event ev s) = core s"
  by (simp add: send_event_def Let_def set_sink_core split: option.split)

lemma send_restart_event_core [simp]: "core (send_restart_event k g g' s) = core s"
  by (simp add: send_restart_event_def split: option.split)

lemmas publish_snapshot_fields [simp] = core_fields [OF publish_snapshot_core]
lemmas send_lifecycle_draft_fields [simp] = core_fields [OF send_lifecycle_draft_core]
lemmas send_lifecycle_fields [simp] = core_fields [OF send_lifecycle_core]
lemmas send_event_fields [simp] = core_fields [OF send_event_core]
lemmas send_restart_event_fields [simp] = core_fields [OF send_restart_event_core]

end
