(* ===== verification/Runtime_Start.thy ===== *)
theory Runtime_Start
  imports Runtime_State
begin

text \<open>
  Starting, stopping and finalising the children of one supervisor incarnation
  (\<open>runtime/spawn.rs\<close> and the start, readiness and removal parts of
  \<open>runtime/supervision.rs\<close>): spawning a generation, the ordered start sequence with its
  readiness gate, the startup gate reported to the parent, the cancel, abort and escalate
  signals, and the finalisation of a removed child.

  The task a child runs is the user's program: spawning records the task id that its join
  result will carry.
\<close>

section \<open>Signals to a child\<close>

definition cancel_token :: "token option \<Rightarrow> token option" where
  "cancel_token t = map_option (\<lambda>k. k\<lparr>tk_cancelled := True\<rparr>) t"

definition cancel_child :: "nat \<Rightarrow> runtime \<Rightarrow> runtime" where
  "cancel_child k s =
     index_runtime k (\<lambda>r. r\<lparr>cr_completion := mark_cancelled (cr_completion r),
                             cr_active_token := cancel_token (cr_active_token r)\<rparr>) s"

definition abort_child :: "nat \<Rightarrow> runtime \<Rightarrow> runtime" where
  "abort_child k s =
     (let s1 = index_runtime k (\<lambda>r. r\<lparr>cr_completion := mark_cancelled (cr_completion r),
                                      cr_nested_abort_cascades := True\<rparr>) s
      in case child_at s k of
           None \<Rightarrow> s1
         | Some e \<Rightarrow>
             (case cr_abort_handle (ce_runtime e) of
                None \<Rightarrow> s1
              | Some t \<Rightarrow> s1\<lparr>rt_aborted := rt_aborted s1 @ [t]\<rparr>))"

definition escalate_child :: "nat \<Rightarrow> runtime \<Rightarrow> runtime" where
  "escalate_child k s =
     index_runtime k (\<lambda>r. r\<lparr>cr_completion := mark_cancelled (cr_completion r),
                             cr_shutdown_timed_out := True,
                             cr_active_abort_token :=
                               map_option (\<lambda>c. True) (cr_active_abort_token r)\<rparr>) s"

section \<open>Finalising a child\<close>

definition send_reply :: "nat \<Rightarrow> reply \<Rightarrow> runtime \<Rightarrow> runtime" where
  "send_reply r a s = s\<lparr>rt_replies := rt_replies s @ [(r, a)]\<rparr>"

definition terminal_identity :: "nat \<Rightarrow> runtime \<Rightarrow> runtime" where
  "terminal_identity i s = s\<lparr>rt_stable := (rt_stable s)(i := terminal_tree (rt_stable s i))\<rparr>"

definition mark_child_terminal :: "nat \<Rightarrow> runtime \<Rightarrow> runtime" where
  "mark_child_terminal k s =
     (case child_at s k of
        None \<Rightarrow> s
      | Some e \<Rightarrow>
          (case ce_nested_channels e of
             None \<Rightarrow> s
           | Some i \<Rightarrow>
               if rm_revivable (rt_meta s) \<and> statically_configured (st_root (rt_stable s i))
               then s else terminal_identity i s))"

definition retire_nested_identity :: "string \<Rightarrow> nat \<Rightarrow> runtime \<Rightarrow> runtime" where
  "retire_nested_identity i n s =
     (if owns_binding (rm_binding_epoch (rt_meta s)) (rt_own s)
      then terminal_identity n
             (if map_of (rt_nested_channels s) i = Some n
              then s\<lparr>rt_nested_channels := AList.delete i (rt_nested_channels s)\<rparr> else s)
      else s)"

definition pending_removal_result ::
    "string \<Rightarrow> pending_removal \<Rightarrow> bool \<Rightarrow> supervisor_error option \<Rightarrow> instant
       \<Rightarrow> control_error + unit" where
  "pending_removal_result i p check_elapsed_grace failure now =
     (if failure \<noteq> None then Inl Unavailable
      else if pr_grace_expired p \<or>
              (check_elapsed_grace \<and> \<not> is_abort (pr_policy p) \<and> pr_grace_deadline p \<le> now)
      then Inl (Failed (ShutdownTimedOut i))
      else Inr ())"

definition detach_entry :: "nat \<Rightarrow> child_entry \<Rightarrow> runtime \<Rightarrow> runtime" where
  "detach_entry k e s =
     s\<lparr>rt_children := slab_remove k (rt_children s),
       rt_live_tasks := rt_live_tasks s - (if has_task e then 1 else 0),
       rt_children_by_id := (rt_children_by_id s)(ce_id e := None),
       rt_child_order := filter (\<lambda>j. j \<noteq> k) (rt_child_order s)\<rparr>"

definition finalize_removed_child :: "nat \<Rightarrow> bool \<Rightarrow> runtime \<Rightarrow> runtime" where
  "finalize_removed_child k check_elapsed_grace s =
     (case child_at s k of
        None \<Rightarrow> s
      | Some e \<Rightarrow>
          let draft = lifecycle_draft k Removed s;
              s1 = detach_entry k e s;
              s2 = (if is_supervisor (cd_kind (child_definition_of e))
                    then (case ce_nested_channels e of
                            None \<Rightarrow> s1
                          | Some n \<Rightarrow> retire_nested_identity (ce_id e) n s1)
                    else s1);
              s3 = (case draft of None \<Rightarrow> s2 | Some d \<Rightarrow> send_lifecycle_draft d s2);
              s4 = send_event (ChildRemovedEv (ce_id e)) s3
          in case ce_pending_removal e of
               None \<Rightarrow> s4
             | Some p \<Rightarrow>
                 send_reply (pr_reply p) (ReplyRemove
                   (pending_removal_result (ce_id e) p check_elapsed_grace None (rt_now s4))) s4)"

section \<open>The startup gate\<close>

definition complete_empty_startup_gate :: "runtime \<Rightarrow> runtime" where
  "complete_empty_startup_gate s =
     (if rt_startup_gate s = Some []
      then s\<lparr>rt_startup_gate := None, rt_reported_ready := True\<rparr> else s)"

definition startup_member_ready :: "nat \<Rightarrow> u64 \<Rightarrow> runtime \<Rightarrow> runtime" where
  "startup_member_ready k l s =
     (case rt_startup_gate s of
        None \<Rightarrow> s
      | Some pending \<Rightarrow>
          complete_empty_startup_gate
            (s\<lparr>rt_startup_gate := Some (filter (\<lambda>(k', l'). k' \<noteq> k \<or> l' \<noteq> l) pending)\<rparr>))"

definition startup_aborted_error :: "string \<Rightarrow> halt" where
  "startup_aborted_error i =
     Exit (Failure (StartupAborted (''child `'' @ i @ ''` exited before reporting readiness'')))"

definition startup_member_aborted :: "nat \<Rightarrow> u64 \<Rightarrow> unit runtime_run" where
  "startup_member_aborted k l s =
     (case rt_startup_gate s of
        None \<Rightarrow> (Inr (), s)
      | Some pending \<Rightarrow>
          if (k, l) \<in> set pending
          then (Inl (startup_aborted_error
                  (case child_at s k of None \<Rightarrow> ''unknown'' | Some e \<Rightarrow> ce_id e)), s)
          else (Inr (), s))"

definition startup_member_removed :: "nat \<Rightarrow> u64 \<Rightarrow> runtime \<Rightarrow> runtime" where
  "startup_member_removed k l s = startup_member_ready k l s"

section \<open>Spawning a generation\<close>

text \<open>The child's state while its task is being created.\<close>

definition spawn_plan :: "runtime \<Rightarrow> child_entry \<Rightarrow> child_entry" where
  "spawn_plan s e =
     (let r = ce_runtime e in
      e\<lparr>ce_runtime := r\<lparr>
          cr_generation := (if cr_has_started r then u64_saturating_add (cr_generation r) 1
                            else cr_generation r),
          cr_restart_tracker := record_spawn (rt_now s) (cr_restart_tracker r),
          cr_active_token := Some \<lparr>tk_group = rt_group s, tk_cancelled = rt_group_cancelled s\<rparr>,
          cr_active_abort_token := Some False,
          cr_shutdown_timed_out := False,
          cr_state := Starting,
          cr_has_reported_ready := False,
          cr_startup_aborted := False,
          cr_next_restart_deadline := None,
          cr_completion := CompletionPending,
          cr_nested_abort_cascades := True\<rparr>,
        ce_nested_snapshot := None,
        ce_nested_snapshot_state :=
          (if is_supervisor (cd_kind (cr_definition r)) then Some nested_snapshot_default else None)\<rparr>)"

definition spawned :: "nat \<Rightarrow> child_entry \<Rightarrow> child_entry" where
  "spawned t e =
     on_runtime (\<lambda>r. r\<lparr>cr_has_started := True,
        cr_state := (if cd_readiness (cr_definition r) = Immediate then Running else Starting),
        cr_has_reported_ready :=
          (if cd_readiness (cr_definition r) = Immediate then True else cr_has_reported_ready r),
        cr_abort_handle := Some t\<rparr>) e"

definition internal_error :: "string \<Rightarrow> halt" where
  "internal_error m = Exit (Failure (Internal m))"

definition spawn_child :: "runtime_env \<Rightarrow> nat \<Rightarrow> (u64 option \<times> u64) runtime_run" where
  "spawn_child E k s =
     (case child_at s k of
        None \<Rightarrow> (Inl (internal_error ''missing child slot''), s)
      | Some e \<Rightarrow>
          let old_generation = (if cr_has_started (ce_runtime e)
                                then Some (cr_generation (ce_runtime e)) else None);
              s1 = update_child k (spawn_plan s) s;
              e1 = spawn_plan s e;
              generation = cr_generation (ce_runtime e1)
          in if is_supervisor (cd_kind (child_definition_of e)) \<and> ce_nested_channels e = None
             then (Inl (internal_error ''missing stable channels for nested supervisor''), s1)
             else
               let t = env_task_id E (rt_join_set s1);
                   s2 = update_child k (spawned t)
                          (s1\<lparr>rt_join_set := rt_join_set s1 @ [t]\<rparr>);
                   s3 = s2\<lparr>rt_live_tasks := Suc (rt_live_tasks s2),
                           rt_task_map := (rt_task_map s2)(t \<mapsto>
                             \<lparr>tm_key = k, tm_lineage = ce_lineage e, tm_generation = generation\<rparr>)\<rparr>
               in (Inr (old_generation, generation),
                   if cd_readiness (child_definition_of e) = Immediate
                   then send_event (ChildStartedEv (ce_id e) generation)
                          (send_lifecycle k (Started generation) s3)
                   else publish_snapshot s3))"

section \<open>The start sequence\<close>

definition set_gate :: "start_gate option \<Rightarrow> runtime \<Rightarrow> runtime" where
  "set_gate g s =
     s\<lparr>rt_start_sequence :=
         Some ((case rt_start_sequence s of None \<Rightarrow> start_sequence_default | Some q \<Rightarrow> q)
               \<lparr>sq_gate := g\<rparr>)\<rparr>"

definition clear_gate :: "runtime \<Rightarrow> runtime" where
  "clear_gate s =
     s\<lparr>rt_start_sequence := map_option (\<lambda>q. q\<lparr>sq_gate := None\<rparr>) (rt_start_sequence s)\<rparr>"

definition current_gate :: "runtime \<Rightarrow> start_gate option" where
  "current_gate s = Option.bind (rt_start_sequence s) sq_gate"

definition queued_items :: "runtime \<Rightarrow> start_item list" where
  "queued_items s = (case rt_start_sequence s of None \<Rightarrow> [] | Some q \<Rightarrow> sq_queue q)"

definition startable :: "child_entry \<Rightarrow> bool" where
  "startable e \<longleftrightarrow>
     ce_membership e = MActive \<and> (child_state e = Stopped \<or> child_state e = StartQueued)"

definition spawn_start_item :: "runtime_env \<Rightarrow> start_item \<Rightarrow> unit runtime_run" where
  "spawn_start_item E item s =
     (case child_at s (si_key item) of
        None \<Rightarrow> (Inr (), s)
      | Some e \<Rightarrow>
          if ce_lineage e \<noteq> si_lineage item \<or> \<not> startable e then (Inr (), s)
          else
            let readiness_gated = is_gated (cd_readiness (child_definition_of e)) in
            case spawn_child E (si_key item) s of
              (Inl err, s1) \<Rightarrow> (Inl err, s1)
            | (Inr (old_generation, new_generation), s1) \<Rightarrow>
                let s2 = (if rm_kind (rt_meta s1) = Ordered \<and> readiness_gated
                          then set_gate (Some \<lparr>sg_key = si_key item, sg_lineage = si_lineage item,
                                               sg_generation = new_generation\<rparr>) s1
                          else if \<not> readiness_gated
                          then startup_member_ready (si_key item) (si_lineage item) s1
                          else s1)
                in (Inr (),
                    case old_generation of
                      Some old \<Rightarrow>
                        if si_emit_restart_event item
                        then send_restart_event (si_key item) old new_generation s2 else s2
                    | None \<Rightarrow> s2))"

text \<open>
  The loop that pops start items until one of them leaves a gate.  Spawning an item never
  touches the queue, so the remaining items are passed along.
\<close>

fun start_queued :: "runtime_env \<Rightarrow> start_item list \<Rightarrow> unit runtime_run" where
  "start_queued E [] s = (Inr (), s\<lparr>rt_start_sequence := None\<rparr>)"
| "start_queued E (item # rest) s =
     (let s1 = s\<lparr>rt_start_sequence :=
                   map_option (\<lambda>q. q\<lparr>sq_queue := rest\<rparr>) (rt_start_sequence s)\<rparr>
      in case spawn_start_item E item s1 of
           (Inl err, s2) \<Rightarrow> (Inl err, s2)
         | (Inr _, s2) \<Rightarrow>
             if current_gate s2 \<noteq> None then (Inr (), s2) else start_queued E rest s2)"

definition gate_state :: "runtime \<Rightarrow> start_gate \<Rightarrow> (runtime_child_state \<times> instant option) option" where
  "gate_state s g =
     (case child_at s (sg_key g) of
        None \<Rightarrow> None
      | Some e \<Rightarrow>
          if ce_lineage e = sg_lineage g \<and> ce_membership e = MActive
          then Some (child_state e, child_deadline e) else None)"

definition gate_waits :: "runtime_child_state \<times> instant option \<Rightarrow> bool" where
  "gate_waits st \<longleftrightarrow>
     fst st = Starting \<or> fst st = Stopping \<or> (fst st = Stopped \<and> snd st \<noteq> None)"

definition advance_start_sequence :: "runtime_env \<Rightarrow> unit runtime_run" where
  "advance_start_sequence E s =
     (case current_gate s of
        None \<Rightarrow> start_queued E (queued_items s) s
      | Some g \<Rightarrow>
          let s1 = clear_gate s in
          (case gate_state s g of
             None \<Rightarrow> start_queued E (queued_items s1) s1
           | Some st \<Rightarrow>
               if gate_waits st then (Inr (), s)
               else if fst st = Running
               then let s2 = startup_member_ready (sg_key g) (sg_lineage g) s1
                    in start_queued E (queued_items s2) s2
               else if fst st = Stopped
               then (case startup_member_aborted (sg_key g) (sg_lineage g) s1 of
                       (Inl err, s2) \<Rightarrow> (Inl err, s2)
                     | (Inr _, s2) \<Rightarrow> start_queued E (queued_items s2) s2)
               else start_queued E (queued_items s1) s1))"

section \<open>Group respawn\<close>

datatype group_respawn_disposition = Respawn | Skip | Finalize (fin_startup_aborted: bool)

definition group_respawn_disposition :: "nat \<Rightarrow> runtime \<Rightarrow> group_respawn_disposition" where
  "group_respawn_disposition k s =
     (case child_at s k of
        None \<Rightarrow> Skip
      | Some e \<Rightarrow>
          if ce_membership e \<noteq> MActive then Skip
          else if cr_has_started (ce_runtime e) \<and> is_never (cd_restart (child_definition_of e))
          then Finalize (\<not> cr_has_reported_ready (ce_runtime e))
          else Respawn)"

definition finalize_skipped_group_respawn :: "nat \<Rightarrow> bool \<Rightarrow> unit runtime_run" where
  "finalize_skipped_group_respawn k startup_aborted s =
     (case child_at s k of
        None \<Rightarrow> (Inl Panic, s)
      | Some e \<Rightarrow>
          (case (if startup_aborted
                 then startup_member_aborted k (ce_lineage e)
                        (publish_snapshot
                          (update_runtime k (\<lambda>r. r\<lparr>cr_startup_aborted := True\<rparr>) s))
                 else (Inr (), s)) of
             (Inl err, s1) \<Rightarrow> (Inl err, s1)
           | (Inr _, s1) \<Rightarrow>
               (Inr (),
                if cd_remove_on_terminal_exit (child_definition_of e)
                then finalize_removed_child k False s1
                else mark_child_terminal k s1)))"

definition queue_start_item :: "start_item \<Rightarrow> runtime \<Rightarrow> runtime" where
  "queue_start_item item s =
     (let s1 = index_runtime (si_key item)
                 (\<lambda>r. r\<lparr>cr_state := StartQueued, cr_has_reported_ready := False,
                        cr_next_restart_deadline := None\<rparr>) s;
          q = (case rt_start_sequence s1 of None \<Rightarrow> start_sequence_default | Some q \<Rightarrow> q)
      in s1\<lparr>rt_start_sequence := Some (q\<lparr>sq_queue := sq_queue q @ [item]\<rparr>)\<rparr>)"

definition schedule_start_member :: "runtime_env \<Rightarrow> bool \<Rightarrow> nat \<Rightarrow> unit runtime_run" where
  "schedule_start_member E emit_restart_events k s =
     (case (if emit_restart_events then group_respawn_disposition k s else Respawn) of
        Skip \<Rightarrow> (Inr (), s)
      | Finalize startup_aborted \<Rightarrow> finalize_skipped_group_respawn k startup_aborted s
      | Respawn \<Rightarrow>
          (case child_at s k of
             None \<Rightarrow> (Inr (), s)
           | Some e \<Rightarrow>
               if \<not> startable e then (Inr (), s)
               else let item = \<lparr>si_key = k, si_lineage = ce_lineage e,
                                si_emit_restart_event = emit_restart_events\<rparr>
                    in if rm_kind (rt_meta s) = Dynamic then spawn_start_item E item s
                       else (Inr (), queue_start_item item s)))"

definition schedule_start_sequence :: "runtime_env \<Rightarrow> nat list \<Rightarrow> bool \<Rightarrow> unit runtime_run" where
  "schedule_start_sequence E ks emit_restart_events =
     and_then (for_each (schedule_start_member E emit_restart_events) ks)
       (\<lambda>_ s. if rm_kind (rt_meta s) = Ordered then advance_start_sequence E (publish_snapshot s)
              else (Inr (), s))"

section \<open>Leaving the start sequence, and readiness\<close>

definition gate_matches :: "nat \<Rightarrow> u64 \<Rightarrow> start_gate option \<Rightarrow> bool" where
  "gate_matches k l g \<longleftrightarrow>
     (case g of None \<Rightarrow> False | Some g \<Rightarrow> sg_key g = k \<and> sg_lineage g = l)"

definition remove_start_sequence_member :: "nat \<Rightarrow> u64 \<Rightarrow> runtime \<Rightarrow> bool \<times> runtime" where
  "remove_start_sequence_member k l s =
     (case rt_start_sequence s of
        None \<Rightarrow> (False, s)
      | Some q \<Rightarrow>
          let q1 = q\<lparr>sq_queue := filter (\<lambda>i. si_key i \<noteq> k \<or> si_lineage i \<noteq> l) (sq_queue q)\<rparr>
          in if gate_matches k l (sq_gate q)
             then (True, s\<lparr>rt_start_sequence := Some (q1\<lparr>sq_gate := None\<rparr>)\<rparr>)
             else (False, s\<lparr>rt_start_sequence := Some q1\<rparr>))"

definition detach_start_member :: "runtime_env \<Rightarrow> nat \<Rightarrow> u64 \<Rightarrow> unit runtime_run" where
  "detach_start_member E k l s =
     (case remove_start_sequence_member k l s of (cleared_gate, s1) \<Rightarrow>
        let s2 = startup_member_removed k l s1
        in if cleared_gate then advance_start_sequence E s2 else (Inr (), s2))"

definition terminal_start_member :: "runtime_env \<Rightarrow> nat \<Rightarrow> u64 \<Rightarrow> unit runtime_run" where
  "terminal_start_member E k l s =
     (case remove_start_sequence_member k l s of (cleared_gate, s1) \<Rightarrow>
        (case startup_member_aborted k l s1 of
           (Inl err, s2) \<Rightarrow> (Inl err, s2)
         | (Inr _, s2) \<Rightarrow>
             if cleared_gate then advance_start_sequence E s2 else (Inr (), s2)))"

record child_ready =
  ry_key :: nat
  ry_lineage :: u64
  ry_generation :: u64

definition handle_child_ready :: "runtime_env \<Rightarrow> child_ready \<Rightarrow> unit runtime_run" where
  "handle_child_ready E ready s =
     (case child_at s (ry_key ready) of
        None \<Rightarrow> (Inr (), s)
      | Some e \<Rightarrow>
          if ce_lineage e \<noteq> ry_lineage ready
             \<or> cr_generation (ce_runtime e) \<noteq> ry_generation ready
             \<or> ce_membership e \<noteq> MActive \<or> child_state e \<noteq> Starting
          then (Inr (), s)
          else
            let s1 = update_runtime (ry_key ready)
                       (\<lambda>r. r\<lparr>cr_state := Running, cr_has_reported_ready := True\<rparr>) s;
                s2 = send_lifecycle (ry_key ready) (Started (ry_generation ready)) s1;
                s3 = send_event (ChildStartedEv (ce_id e) (ry_generation ready)) s2;
                s4 = startup_member_ready (ry_key ready) (ry_lineage ready) s3
            in (case current_gate s4 of
                  None \<Rightarrow> (Inr (), s4)
                | Some g \<Rightarrow>
                    if sg_key g = ry_key ready \<and> sg_lineage g = ry_lineage ready
                       \<and> sg_generation g = ry_generation ready
                    then advance_start_sequence E (clear_gate s4)
                    else (Inr (), s4)))"

end
