(* ===== verification/Runtime_Invariant.thy ===== *)
theory Runtime_Invariant
  imports Runtime_Start
begin

text \<open>
  The consistency invariant of the runtime state and its preservation by the operations of
  \<open>Runtime_Start\<close>.  It relates the child slab, the index by id, the insertion order, the
  count of live tasks, the join set and the task map the way the documentation of
  \<open>SupervisorRuntime\<close> promises, and says that a child has a task exactly while its state is
  active and that this task is the only unjoined one of its membership.
\<close>

section \<open>The invariant\<close>

definition entry_ok :: "child_entry \<Rightarrow> bool" where
  "entry_ok e \<longleftrightarrow>
     ce_id e \<noteq> [] \<and>
     (has_task e \<longleftrightarrow> is_active (child_state e)) \<and>
     (ce_pending_removal e \<noteq> None \<longleftrightarrow> ce_membership e = MRemoving) \<and>
     ce_membership e \<noteq> MRemoved \<and>
     (is_active (child_state e) \<longrightarrow> cr_has_started (ce_runtime e)) \<and>
     (child_state e = Running \<longrightarrow> cr_has_reported_ready (ce_runtime e)) \<and>
     (is_supervisor (cd_kind (child_definition_of e)) \<longrightarrow> ce_nested_channels e \<noteq> None)"

definition task_meta_of :: "nat \<Rightarrow> child_entry \<Rightarrow> task_meta" where
  "task_meta_of k e =
     \<lparr>tm_key = k, tm_lineage = ce_lineage e, tm_generation = cr_generation (ce_runtime e)\<rparr>"

definition order_ok :: "child_entry slab \<Rightarrow> nat list \<Rightarrow> bool" where
  "order_ok sl ord \<longleftrightarrow> distinct ord \<and> (\<forall>k. k \<in> set ord \<longleftrightarrow> slab_get sl k \<noteq> None)"

definition index_ok :: "child_entry slab \<Rightarrow> (string \<rightharpoonup> nat) \<Rightarrow> bool" where
  "index_ok sl ix \<longleftrightarrow>
     (\<forall>i k. ix i = Some k \<longleftrightarrow> (\<exists>e. slab_get sl k = Some e \<and> ce_id e = i))"

definition entries_ok :: "child_entry slab \<Rightarrow> u64 \<Rightarrow> bool" where
  "entries_ok sl next \<longleftrightarrow>
     (\<forall>k e. slab_get sl k = Some e \<longrightarrow> entry_ok e \<and> ce_lineage e < next)"

text \<open>
  Every task is attributed: a live child's task is mapped to that child's generation, and a
  mapped task whose membership still exists is that membership's live task.
\<close>

definition tasks_ok :: "child_entry slab \<Rightarrow> nat list \<Rightarrow> (nat \<rightharpoonup> task_meta) \<Rightarrow> u64 \<Rightarrow> bool" where
  "tasks_ok sl js tm next \<longleftrightarrow>
     distinct js \<and> dom tm = set js \<and>
     (\<forall>k e t. slab_get sl k = Some e \<and> cr_abort_handle (ce_runtime e) = Some t \<longrightarrow>
        tm t = Some (task_meta_of k e)) \<and>
     (\<forall>t m. tm t = Some m \<longrightarrow> tm_lineage m < next \<and>
        (\<forall>e. slab_get sl (tm_key m) = Some e \<and> ce_lineage e = tm_lineage m \<longrightarrow>
           cr_abort_handle (ce_runtime e) = Some t \<and> m = task_meta_of (tm_key m) e))"

lemma tasks_ok_child:
  "tasks_ok sl js tm n \<Longrightarrow> slab_get sl k = Some e \<Longrightarrow> cr_abort_handle (ce_runtime e) = Some t \<Longrightarrow>
   tm t = Some (task_meta_of k e)"
  unfolding tasks_ok_def by blast

lemma tasks_ok_meta:
  "tasks_ok sl js tm n \<Longrightarrow> tm t = Some m \<Longrightarrow> slab_get sl (tm_key m) = Some e \<Longrightarrow>
   ce_lineage e = tm_lineage m \<Longrightarrow>
   cr_abort_handle (ce_runtime e) = Some t \<and> m = task_meta_of (tm_key m) e"
  unfolding tasks_ok_def by blast

lemma tasks_ok_lineage: "tasks_ok sl js tm n \<Longrightarrow> tm t = Some m \<Longrightarrow> tm_lineage m < n"
  unfolding tasks_ok_def by blast

lemma tasks_ok_dom: "tasks_ok sl js tm n \<Longrightarrow> distinct js \<and> dom tm = set js"
  unfolding tasks_ok_def by blast

lemma tasks_okI:
  assumes "distinct js" "dom tm = set js"
    and "\<And>k e t. slab_get sl k = Some e \<Longrightarrow> cr_abort_handle (ce_runtime e) = Some t \<Longrightarrow>
           tm t = Some (task_meta_of k e)"
    and "\<And>t m. tm t = Some m \<Longrightarrow> tm_lineage m < n"
    and "\<And>t m e. tm t = Some m \<Longrightarrow> slab_get sl (tm_key m) = Some e \<Longrightarrow>
           ce_lineage e = tm_lineage m \<Longrightarrow>
           cr_abort_handle (ce_runtime e) = Some t \<and> m = task_meta_of (tm_key m) e"
  shows "tasks_ok sl js tm n"
  unfolding tasks_ok_def using assms by blast

lemma task_meta_of_fields [simp]:
  "tm_key (task_meta_of k e) = k" "tm_lineage (task_meta_of k e) = ce_lineage e"
  "tm_generation (task_meta_of k e) = cr_generation (ce_runtime e)"
  by (simp_all add: task_meta_of_def)

definition consistent :: "runtime \<Rightarrow> bool" where
  "consistent s \<longleftrightarrow>
     order_ok (rt_children s) (rt_child_order s) \<and>
     index_ok (rt_children s) (rt_children_by_id s) \<and>
     entries_ok (rt_children s) (hub_next_lineage (rt_hub s)) \<and>
     rt_live_tasks s = slab_count has_task (rt_children s) \<and>
     tasks_ok (rt_children s) (rt_join_set s) (rt_task_map s) (hub_next_lineage (rt_hub s)) \<and>
     \<not> rt_panicked s"

text \<open>
  Two states with the same supervision state are equally consistent when the panic flag agrees,
  which it does for every operation that only observes: no entry is a removed one, and the index
  by id leads to an entry.
\<close>

definition unpanicking :: "(runtime \<Rightarrow> runtime) \<Rightarrow> bool" where
  "unpanicking f \<longleftrightarrow>
     (\<forall>s. core (f s) = core s \<and>
        (entries_ok (rt_children s) (hub_next_lineage (rt_hub s)) \<and>
         index_ok (rt_children s) (rt_children_by_id s) \<longrightarrow> rt_panicked (f s) = rt_panicked s))"

lemma wf_core:
  "core s = core s' \<Longrightarrow> rt_panicked s = rt_panicked s' \<Longrightarrow> consistent s = consistent s'"
  using core_fields [of s s'] by (simp add: consistent_def)

lemma wf_unpanicking: "unpanicking f \<Longrightarrow> consistent (f s) = consistent s"
  using core_fields [of "f s" s] by (auto simp: consistent_def unpanicking_def)

lemma unpanickingI:
  assumes "\<And>s. core (f s) = core s"
    and "\<And>s. entries_ok (rt_children s) (hub_next_lineage (rt_hub s)) \<Longrightarrow>
      index_ok (rt_children s) (rt_children_by_id s) \<Longrightarrow> rt_panicked (f s) = rt_panicked s"
  shows "unpanicking f"
  using assms by (simp add: unpanicking_def)

lemma unpanickingD:
  "unpanicking f \<Longrightarrow> entries_ok (rt_children s) (hub_next_lineage (rt_hub s)) \<Longrightarrow>
   index_ok (rt_children s) (rt_children_by_id s) \<Longrightarrow> rt_panicked (f s) = rt_panicked s"
  by (simp add: unpanicking_def)

lemma unpanicking_publish: "unpanicking publish_snapshot"
proof (rule unpanickingI)
  fix s
  assume ok: "entries_ok (rt_children s) (hub_next_lineage (rt_hub s))"
  have "child_view (rt_now s) e \<noteq> None" if "e \<in> set (ordered_entries s)" for e
  proof -
    from that obtain k where "child_at s k = Some e"
      by (auto simp: ordered_entries_def List.map_filter_def)
    with ok have "ce_membership e \<noteq> MRemoved" by (auto simp: entries_ok_def entry_ok_def)
    then show ?thesis by (cases "ce_membership e") (simp_all add: child_view_def Let_def)
  qed
  then have "\<not> (\<exists>e \<in> set (ordered_entries s). child_view (rt_now s) e = None)" by blast
  then show "rt_panicked (publish_snapshot s) = rt_panicked s"
    by (simp only: publish_snapshot_def Let_def panic_if_False) simp
qed simp

lemma set_sink_panicked [simp]: "rt_panicked (set_sink k s) = rt_panicked s"
  by (simp add: set_sink_def)

lemma unpanicking_draft: "unpanicking (send_lifecycle_draft d)"
proof (rule unpanickingI)
  fix s
  assume ok: "entries_ok (rt_children s) (hub_next_lineage (rt_hub s))"
    "index_ok (rt_children s) (rt_children_by_id s)"
  obtain e h where em: "emit d (rt_hub s) = (e, h)" by (cases "emit d (rt_hub s)")
  let ?s = "s\<lparr>rt_own := (rt_own s)\<lparr>st_lifecycle := h\<rparr>\<rparr>"
  have "rt_panicked (publish_snapshot ?s) = rt_panicked ?s"
    using ok emit_next [OF em] by (intro unpanickingD [OF unpanicking_publish]) simp_all
  then show "rt_panicked (send_lifecycle_draft d s) = rt_panicked s"
    by (simp add: send_lifecycle_draft_def em Let_def)
qed simp

lemma unpanicking_lifecycle: "unpanicking (send_lifecycle k kind)"
  using unpanickingD [OF unpanicking_draft]
  by (intro unpanickingI) (auto simp: send_lifecycle_def split: option.split)

lemma unpanicking_event: "unpanicking (send_event ev)"
proof (rule unpanickingI)
  fix s
  assume ok: "entries_ok (rt_children s) (hub_next_lineage (rt_hub s))"
    "index_ok (rt_children s) (rt_children_by_id s)"
  then have "\<not> child_path_dangles ev s"
    by (auto simp: child_path_dangles_def index_ok_def bind_eq_Some_conv split: option.split)
  with unpanickingD [OF unpanicking_publish ok] show "rt_panicked (send_event ev s) = rt_panicked s"
    by (simp add: send_event_def Let_def split: option.split)
qed simp

lemma unpanicking_restart_event: "unpanicking (send_restart_event k g g')"
  using unpanickingD [OF unpanicking_event]
  by (intro unpanickingI) (auto simp: send_restart_event_def split: option.split)

lemmas unpanicking_observe =
  unpanicking_publish unpanicking_draft unpanicking_lifecycle unpanicking_event unpanicking_restart_event

lemma wf_observe [simp]:
  "consistent (publish_snapshot s) = consistent s" "consistent (send_lifecycle_draft d s) = consistent s"
  "consistent (send_lifecycle k kind s) = consistent s" "consistent (send_event ev s) = consistent s"
  "consistent (send_restart_event k g g' s) = consistent s"
  by (rule wf_unpanicking, rule unpanicking_observe)+

lemma wf_irrelevant [simp]:
  "consistent (s\<lparr>rt_start_sequence := q\<rparr>) = consistent s" "consistent (s\<lparr>rt_startup_gate := g\<rparr>) = consistent s"
  "consistent (s\<lparr>rt_reported_ready := b\<rparr>) = consistent s" "consistent (s\<lparr>rt_replies := rs\<rparr>) = consistent s"
  "consistent (s\<lparr>rt_aborted := ts\<rparr>) = consistent s" "consistent (s\<lparr>rt_now := n\<rparr>) = consistent s"
  "consistent (s\<lparr>rt_stable := st\<rparr>) = consistent s" "consistent (s\<lparr>rt_nested_channels := nc\<rparr>) = consistent s"
  "consistent (s\<lparr>rt_total_restarts := tr\<rparr>) = consistent s" "consistent (s\<lparr>rt_commands_open := co\<rparr>) = consistent s"
  "consistent (s\<lparr>rt_state := rs'\<rparr>) = consistent s" "consistent (s\<lparr>rt_stopping := sb\<rparr>) = consistent s"
  "consistent (s\<lparr>rt_group := gr\<rparr>) = consistent s" "consistent (s\<lparr>rt_group_cancelled := gc\<rparr>) = consistent s"
  "consistent (s\<lparr>rt_shutdown_requested := sr\<rparr>) = consistent s"
  by (simp_all add: consistent_def)

lemma wf_entry: "consistent s \<Longrightarrow> child_at s k = Some e \<Longrightarrow> entry_ok e"
  by (simp add: consistent_def entries_ok_def)

lemma wf_order: "consistent s \<Longrightarrow> k \<in> set (rt_child_order s) \<longleftrightarrow> child_at s k \<noteq> None"
  by (simp add: consistent_def order_ok_def)

lemma wf_index: "consistent s \<Longrightarrow> rt_children_by_id s i = Some k \<longleftrightarrow> (\<exists>e. child_at s k = Some e \<and> ce_id e = i)"
  by (simp add: consistent_def index_ok_def)

lemma wf_id_inj:
  "consistent s \<Longrightarrow> child_at s j = Some d \<Longrightarrow> child_at s k = Some e \<Longrightarrow> ce_id d = ce_id e \<Longrightarrow> j = k"
  using wf_index [of s "ce_id e" j] wf_index [of s "ce_id e" k] by auto

section \<open>Updates of one entry\<close>

lemma update_child_fields [simp]:
  "rt_child_order (update_child k f s) = rt_child_order s"
  "rt_children_by_id (update_child k f s) = rt_children_by_id s"
  "rt_live_tasks (update_child k f s) = rt_live_tasks s"
  "rt_join_set (update_child k f s) = rt_join_set s"
  "rt_task_map (update_child k f s) = rt_task_map s"
  "rt_own (update_child k f s) = rt_own s"
  "rt_meta (update_child k f s) = rt_meta s"
  "rt_start_sequence (update_child k f s) = rt_start_sequence s"
  "rt_startup_gate (update_child k f s) = rt_startup_gate s"
  "rt_replies (update_child k f s) = rt_replies s"
  "rt_now (update_child k f s) = rt_now s"
  "rt_state (update_child k f s) = rt_state s"
  "rt_aborted (update_child k f s) = rt_aborted s"
  "rt_shutdown_requested (update_child k f s) = rt_shutdown_requested s"
  "rt_children (update_child k f s) = slab_update k f (rt_children s)"
  "rt_total_restarts (update_child k f s) = rt_total_restarts s"
  "rt_received (update_child k f s) = rt_received s"
  "rt_group (update_child k f s) = rt_group s"
  "rt_group_cancelled (update_child k f s) = rt_group_cancelled s"
  "rt_trace (update_child k f s) = rt_trace s"
  "rt_parent_link (update_child k f s) = rt_parent_link s"
  "rt_panicked (update_child k f s) = rt_panicked s"
  by (simp_all add: update_child_def)

lemma on_runtime_fields [simp]:
  "ce_runtime (on_runtime f e) = f (ce_runtime e)" "ce_id (on_runtime f e) = ce_id e"
  "ce_lineage (on_runtime f e) = ce_lineage e" "ce_membership (on_runtime f e) = ce_membership e"
  "ce_pending_removal (on_runtime f e) = ce_pending_removal e"
  "ce_nested_channels (on_runtime f e) = ce_nested_channels e"
  "ce_attachment (on_runtime f e) = ce_attachment e"
  by (simp_all add: on_runtime_def)

lemma slab_count_update:
  assumes "slab_get sl k = Some e" and "P (f e) = P e"
  shows "slab_count P (slab_update k f sl) = slab_count P sl"
  using slab_count_put [of P k "f e" sl] assms by (simp add: slab_update_def split: if_splits)

text \<open>The changes of an entry that keep its identity and its task.\<close>

definition same_task :: "child_entry \<Rightarrow> child_entry \<Rightarrow> bool" where
  "same_task e e' \<longleftrightarrow>
     ce_id e' = ce_id e \<and> ce_lineage e' = ce_lineage e \<and>
     cr_generation (ce_runtime e') = cr_generation (ce_runtime e) \<and>
     cr_abort_handle (ce_runtime e') = cr_abort_handle (ce_runtime e)"

lemma wf_update_child:
  assumes consistent: "consistent s" and e: "child_at s k = Some e"
    and same: "same_task e (f e)" and ok: "entry_ok (f e)"
  shows "consistent (update_child k f s)"
proof -
  let ?sl = "rt_children s"
  let ?sl' = "slab_update k f ?sl"
  have get: "slab_get ?sl' j = (if j = k then Some (f e) else slab_get ?sl j)" for j
    using e by simp
  have "order_ok ?sl' (rt_child_order s)"
    using consistent e by (auto simp: consistent_def order_ok_def get)
  moreover have "index_ok ?sl' (rt_children_by_id s)"
    using consistent e same by (auto simp: consistent_def index_ok_def get same_task_def)
  moreover have "entries_ok ?sl' (hub_next_lineage (rt_hub s))"
    using consistent e same ok by (auto simp: consistent_def entries_ok_def get same_task_def)
  moreover have "slab_count has_task ?sl' = slab_count has_task ?sl"
    using e same by (intro slab_count_update [where e = e]) (simp_all add: has_task_def same_task_def)
  moreover have meta: "task_meta_of j (f e) = task_meta_of j e" for j
    using same by (simp add: task_meta_of_def same_task_def)
  moreover  have "tasks_ok ?sl' (rt_join_set s) (rt_task_map s) (hub_next_lineage (rt_hub s))"
  proof (rule tasks_okI)
    have t: "tasks_ok (rt_children s) (rt_join_set s) (rt_task_map s) (hub_next_lineage (rt_hub s))"
      using consistent by (simp add: consistent_def)
    note tasks_ok_dom [OF t]
    then show "distinct (rt_join_set s)" "dom (rt_task_map s) = set (rt_join_set s)" by simp_all
    show "rt_task_map s u = Some (task_meta_of j d)"
      if "slab_get ?sl' j = Some d" "cr_abort_handle (ce_runtime d) = Some u" for j d u
      using that tasks_ok_child [OF t, of j] same meta e
      by (cases "j = k") (auto simp: get same_task_def)
    show "tm_lineage m < hub_next_lineage (rt_hub s)" if "rt_task_map s u = Some m" for u m
      using tasks_ok_lineage [OF t that] .
    show "cr_abort_handle (ce_runtime d) = Some u \<and> m = task_meta_of (tm_key m) d"
      if "rt_task_map s u = Some m" "slab_get ?sl' (tm_key m) = Some d" "ce_lineage d = tm_lineage m"
      for u m d
      using that tasks_ok_meta [OF t that(1)] same meta e
      by (cases "tm_key m = k") (auto simp: get same_task_def)
  qed
  ultimately show ?thesis using consistent by (simp add: consistent_def)
qed

lemma wf_update_child_all:
  assumes "consistent s" and "\<And>e. child_at s k = Some e \<Longrightarrow> same_task e (f e) \<and> entry_ok (f e)"
  shows "consistent (update_child k f s)"
proof (cases "child_at s k")
  case None
  then have "update_child k f s = s" by (simp add: update_child_def slab_update_missing)
  with assms(1) show ?thesis by simp
next
  case (Some e)
  with assms show ?thesis by (auto intro: wf_update_child)
qed

lemma wf_update_runtime:
  assumes "consistent s"
    and "\<And>e. child_at s k = Some e \<Longrightarrow> entry_ok e \<Longrightarrow>
       entry_ok (on_runtime f e) \<and>
       cr_generation (f (ce_runtime e)) = cr_generation (ce_runtime e) \<and>
       cr_abort_handle (f (ce_runtime e)) = cr_abort_handle (ce_runtime e)"
  shows "consistent (update_runtime k f s)"
  unfolding update_runtime_def
  using assms wf_entry [OF assms(1)] by (intro wf_update_child_all) (auto simp: same_task_def)

section \<open>Removing an entry\<close>

lemma slab_count_remove_entry:
  assumes "slab_get sl k = Some e"
  shows "slab_count P (slab_remove k sl) = slab_count P sl - (if P e then 1 else 0)"
  using slab_count_remove [of P k sl] assms by auto

lemma wf_detach_entry:
  assumes consistent: "consistent s" and e: "child_at s k = Some e"
  shows "consistent (detach_entry k e s)"
proof -
  have "order_ok (slab_remove k (rt_children s)) (filter (\<lambda>j. j \<noteq> k) (rt_child_order s))"
    using consistent by (auto simp: consistent_def order_ok_def)
  moreover have "index_ok (slab_remove k (rt_children s)) ((rt_children_by_id s)(ce_id e := None))"
    unfolding index_ok_def
  proof (intro allI)
    fix i j
    show "((rt_children_by_id s)(ce_id e := None)) i = Some j \<longleftrightarrow>
        (\<exists>d. slab_get (slab_remove k (rt_children s)) j = Some d \<and> ce_id d = i)"
    proof (cases "j = k")
      case True
      with e wf_index [OF consistent, of i k] show ?thesis by auto
    next
      case False
      with e wf_id_inj [OF consistent _ e, of j] wf_index [OF consistent, of i j] show ?thesis by auto
    qed
  qed
  moreover have "entries_ok (slab_remove k (rt_children s)) (hub_next_lineage (rt_hub s))"
    using consistent by (auto simp: consistent_def entries_ok_def split: if_splits)
  moreover have "tasks_ok (slab_remove k (rt_children s)) (rt_join_set s) (rt_task_map s)
      (hub_next_lineage (rt_hub s))"
  proof (rule tasks_okI)
    have t: "tasks_ok (rt_children s) (rt_join_set s) (rt_task_map s) (hub_next_lineage (rt_hub s))"
      using consistent by (simp add: consistent_def)
    show "distinct (rt_join_set s)" "dom (rt_task_map s) = set (rt_join_set s)"
      using tasks_ok_dom [OF t] by simp_all
    show "rt_task_map s u = Some (task_meta_of j d)"
      if "slab_get (slab_remove k (rt_children s)) j = Some d" "cr_abort_handle (ce_runtime d) = Some u"
      for j d u
      using that tasks_ok_child [OF t, of j d u] by (simp split: if_splits)
    show "tm_lineage m < hub_next_lineage (rt_hub s)" if "rt_task_map s u = Some m" for u m
      using tasks_ok_lineage [OF t that] .
    show "cr_abort_handle (ce_runtime d) = Some u \<and> m = task_meta_of (tm_key m) d"
      if "rt_task_map s u = Some m" "slab_get (slab_remove k (rt_children s)) (tm_key m) = Some d"
        "ce_lineage d = tm_lineage m" for u m d
      using that(2,3) tasks_ok_meta [OF t that(1), of d] by (simp split: if_splits)
  qed
  moreover have "slab_count has_task (slab_remove k (rt_children s))
      = rt_live_tasks s - (if has_task e then 1 else 0)"
    using consistent e by (simp add: consistent_def slab_count_remove_entry)
  ultimately show ?thesis using consistent by (simp add: consistent_def detach_entry_def)
qed

lemma wf_terminal_identity [simp]: "consistent (terminal_identity i s) = consistent s"
  by (simp add: terminal_identity_def)

lemma wf_mark_child_terminal [simp]: "consistent (mark_child_terminal k s) = consistent s"
  by (simp add: mark_child_terminal_def split: option.split)

lemma wf_retire [simp]: "consistent (retire_nested_identity i n s) = consistent s"
  by (simp add: retire_nested_identity_def)

lemma wf_send_reply [simp]: "consistent (send_reply r a s) = consistent s"
  by (simp add: send_reply_def)

lemma wf_finalize_removed_child [simp]:
  assumes "consistent s"
  shows "consistent (finalize_removed_child k c s)"
proof (cases "child_at s k")
  case None
  with assms show ?thesis by (simp add: finalize_removed_child_def)
next
  case (Some e)
  from wf_detach_entry [OF assms this] Some show ?thesis
    by (simp add: finalize_removed_child_def Let_def split: option.split)
qed

section \<open>The startup gate and the start sequence\<close>

lemma wf_startup [simp]:
  "consistent (complete_empty_startup_gate s) = consistent s" "consistent (startup_member_ready k l s) = consistent s"
  "consistent (startup_member_removed k l s) = consistent s" "consistent (snd (startup_member_aborted k l s)) = consistent s"
  "consistent (set_gate g s) = consistent s" "consistent (clear_gate s) = consistent s"
  by (simp_all add: complete_empty_startup_gate_def startup_member_ready_def
      startup_member_removed_def startup_member_aborted_def set_gate_def clear_gate_def
      split: option.split)

lemma startup_member_aborted_state: "snd (startup_member_aborted k l s) = s"
  by (simp add: startup_member_aborted_def split: option.split)

lemma wf_remove_start_sequence_member [simp]:
  "consistent (snd (remove_start_sequence_member k l s)) = consistent s"
  by (simp add: remove_start_sequence_member_def Let_def split: option.split)

section \<open>Spawning\<close>

lemma spawn_plan_fields [simp]:
  "ce_id (spawn_plan s e) = ce_id e" "ce_lineage (spawn_plan s e) = ce_lineage e"
  "cr_abort_handle (ce_runtime (spawn_plan s e)) = cr_abort_handle (ce_runtime e)"
  "ce_membership (spawn_plan s e) = ce_membership e"
  "ce_pending_removal (spawn_plan s e) = ce_pending_removal e"
  "ce_nested_channels (spawn_plan s e) = ce_nested_channels e"
  "child_definition_of (spawn_plan s e) = child_definition_of e"
  "child_deadline (spawn_plan s e) = None"
  by (simp_all add: spawn_plan_def Let_def)

lemma spawned_fields [simp]:
  "ce_id (spawned t e) = ce_id e" "ce_lineage (spawned t e) = ce_lineage e"
  "cr_abort_handle (ce_runtime (spawned t e)) = Some t"
  "ce_membership (spawned t e) = ce_membership e"
  "ce_pending_removal (spawned t e) = ce_pending_removal e"
  "ce_nested_channels (spawned t e) = ce_nested_channels e"
  "child_definition_of (spawned t e) = child_definition_of e"
  "child_deadline (spawned t e) = child_deadline e"
  "cr_generation (ce_runtime (spawned t e)) = cr_generation (ce_runtime e)"
  by (simp_all add: spawned_def)

lemma entry_ok_spawned:
  "entry_ok e \<Longrightarrow> entry_ok (spawned t (spawn_plan s e))"
  by (auto simp: entry_ok_def has_task_def spawned_def)

text \<open>What spawning does to the supervision state of a child that has no task.\<close>

definition spawn_effect :: "runtime_env \<Rightarrow> nat \<Rightarrow> child_entry \<Rightarrow> runtime \<Rightarrow> runtime" where
  "spawn_effect E k e s =
     (let t = env_task_id E (rt_join_set s) in
      s\<lparr>rt_children := slab_put k (spawned t (spawn_plan s e)) (rt_children s),
        rt_join_set := rt_join_set s @ [t],
        rt_live_tasks := Suc (rt_live_tasks s),
        rt_task_map := (rt_task_map s)(t \<mapsto> task_meta_of k (spawn_plan s e))\<rparr>)"

lemma wf_spawn_effect:
  assumes E: "env_ok E" and consistent: "consistent s" and e: "child_at s k = Some e"
    and idle: "\<not> is_active (child_state e)"
  shows "consistent (spawn_effect E k e s)"
proof -
  let ?t = "env_task_id E (rt_join_set s)"
  let ?e = "spawned ?t (spawn_plan s e)"
  let ?sl = "slab_put k ?e (rt_children s)"
  let ?tm = "(rt_task_map s)(?t \<mapsto> task_meta_of k (spawn_plan s e))"
  let ?n = "hub_next_lineage (rt_hub s)"
  have ok: "entry_ok e" and lin: "ce_lineage e < ?n"
    using consistent e by (auto simp: consistent_def entries_ok_def)
  have none: "cr_abort_handle (ce_runtime e) = None"
    using ok idle by (simp add: entry_ok_def has_task_def)
  have get: "slab_get ?sl j = (if j = k then Some ?e else child_at s j)" for j
    by (simp add: slab_get_put)
  have fresh: "?t \<notin> set (rt_join_set s)" using E by (simp add: env_ok_def)
  have tasks: "tasks_ok (rt_children s) (rt_join_set s) (rt_task_map s) ?n"
    using consistent by (simp add: consistent_def)
  have meta: "task_meta_of k (spawn_plan s e) = task_meta_of k ?e"
    by (simp add: task_meta_of_def)
  have "order_ok ?sl (rt_child_order s)"
    using consistent e by (auto simp: consistent_def order_ok_def get)
  moreover have "index_ok ?sl (rt_children_by_id s)"
    using consistent e by (auto simp: consistent_def index_ok_def get)
  moreover have "entries_ok ?sl ?n"
    using consistent entry_ok_spawned [OF ok] lin by (auto simp: consistent_def entries_ok_def get)
  moreover have "slab_count has_task ?sl = Suc (slab_count has_task (rt_children s))"
    using slab_count_put [of has_task k ?e "rt_children s"] e none by (simp add: has_task_def)
  moreover have "tasks_ok ?sl (rt_join_set s @ [?t]) ?tm ?n"
  proof (rule tasks_okI)
    show "distinct (rt_join_set s @ [?t])" "dom ?tm = set (rt_join_set s @ [?t])"
      using tasks_ok_dom [OF tasks] fresh by auto
    have new: "rt_task_map s ?t = None"
      using tasks_ok_dom [OF tasks] fresh by blast
    show "?tm u = Some (task_meta_of j d)"
      if "slab_get ?sl j = Some d" "cr_abort_handle (ce_runtime d) = Some u" for j d u
    proof (cases "j = k")
      case True
      with that meta show ?thesis by (auto simp: get)
    next
      case False
      with that have "rt_task_map s u = Some (task_meta_of j d)"
        using tasks_ok_child [OF tasks] by (simp add: get)
      with new show ?thesis by auto
    qed
    show "tm_lineage m < ?n" if "?tm u = Some m" for u m
      using that tasks_ok_lineage [OF tasks, of u m] lin by (auto split: if_splits)
    show "cr_abort_handle (ce_runtime d) = Some u \<and> m = task_meta_of (tm_key m) d"
      if "?tm u = Some m" "slab_get ?sl (tm_key m) = Some d" "ce_lineage d = tm_lineage m" for u m d
    proof (cases "u = ?t")
      case True
      with that(1) meta have m: "m = task_meta_of k ?e" by simp
      with that(2) have "d = ?e" by (simp add: get)
      with m True show ?thesis by simp
    next
      case False
      with that have old: "rt_task_map s u = Some m" by simp
      show ?thesis
      proof (cases "tm_key m = k")
        case True
        with that(2,3) have "ce_lineage e = tm_lineage m" by (auto simp: get)
        with tasks_ok_meta [OF tasks old] True e none show ?thesis by simp
      next
        case False
        with that tasks_ok_meta [OF tasks old] show ?thesis by (simp add: get)
      qed
    qed
  qed
  ultimately show ?thesis using consistent by (simp add: consistent_def spawn_effect_def Let_def)
qed

text \<open>A spawn takes effect and is then observed.\<close>

definition spawn_observed :: "runtime_env \<Rightarrow> nat \<Rightarrow> child_entry \<Rightarrow> runtime \<Rightarrow> runtime" where
  "spawn_observed E k e s =
     (let g = cr_generation (ce_runtime (spawn_plan s e)) in
      if cd_readiness (child_definition_of e) = Immediate
      then send_event (ChildStartedEv (ce_id e) g) (send_lifecycle k (Started g) (spawn_effect E k e s))
      else publish_snapshot (spawn_effect E k e s))"

lemma spawn_child_eq:
  assumes consistent: "consistent s" and e: "child_at s k = Some e"
  shows "spawn_child E k s =
    (Inr (if cr_has_started (ce_runtime e) then Some (cr_generation (ce_runtime e)) else None,
          cr_generation (ce_runtime (spawn_plan s e))), spawn_observed E k e s)"
proof -
  let ?t = "env_task_id E (rt_join_set s)"
  have nested: "\<not> (is_supervisor (cd_kind (child_definition_of e)) \<and> ce_nested_channels e = None)"
    using wf_entry [OF consistent e] by (simp add: entry_ok_def)
  have sl: "slab_update k (spawned ?t) (slab_update k (spawn_plan s) (rt_children s))
      = slab_put k (spawned ?t (spawn_plan s e)) (rt_children s)"
    by (simp add: slab_update_present [OF e] slab_update_present [of _ _ "spawn_plan s e"])
  have eff: "(update_child k (spawned ?t)
        ((update_child k (spawn_plan s) s)\<lparr>rt_join_set := rt_join_set s @ [?t]\<rparr>))
        \<lparr>rt_live_tasks := Suc (rt_live_tasks s),
          rt_task_map := (rt_task_map s)(?t \<mapsto> task_meta_of k (spawn_plan s e))\<rparr>
      = spawn_effect E k e s"
    by (simp add: spawn_effect_def Let_def update_child_def sl)
  have meta: "\<lparr>tm_key = k, tm_lineage = ce_lineage e,
      tm_generation = cr_generation (ce_runtime (spawn_plan s e))\<rparr> = task_meta_of k (spawn_plan s e)"
    by (simp add: task_meta_of_def)
  show ?thesis
    using nested by (simp add: spawn_child_def spawn_observed_def Let_def e eff meta)
qed

lemma spawn_child_result:
  assumes "consistent s" and "child_at s k = Some e"
  shows "fst (spawn_child E k s) =
           Inr (if cr_has_started (ce_runtime e) then Some (cr_generation (ce_runtime e)) else None,
                cr_generation (ce_runtime (spawn_plan s e))) \<and>
         core (snd (spawn_child E k s)) = core (spawn_effect E k e s)"
  by (simp add: spawn_child_eq [OF assms] spawn_observed_def Let_def)

section \<open>The invariant of a run\<close>

text \<open>
  Next to the consistency of the state: the configuration does not change, a dynamic scope has
  no start sequence, and every reply channel received with a command is either answered or held
  by a pending removal, once, except for the channels in \<open>D\<close>, which are in the hands of the
  handler that is running.  The number \<open>N\<close> bounds the lineages handed out so far.
\<close>

definition pending_replies :: "child_entry \<Rightarrow> nat list" where
  "pending_replies e = (case ce_pending_removal e of None \<Rightarrow> [] | Some p \<Rightarrow> [pr_reply p])"

definition ledger :: "runtime \<Rightarrow> nat multiset" where
  "ledger s = mset (map fst (rt_replies s)) + slab_collect pending_replies (rt_children s)"

definition run_inv :: "u64 \<Rightarrow> runtime_meta \<Rightarrow> nat multiset \<Rightarrow> runtime \<Rightarrow> bool" where
  "run_inv N M D s \<longleftrightarrow>
     consistent s \<and> rt_meta s = M \<and> mset (rt_received s) = ledger s + D \<and>
     hub_next_lineage (rt_hub s) \<le> N \<and>
     (rm_kind M = Dynamic \<longrightarrow> rt_start_sequence s = None)"

lemma inv_wf: "run_inv N M L s \<Longrightarrow> consistent s"
  by (simp add: run_inv_def)

lemma ledger_core: "core s = core s' \<Longrightarrow> ledger s = ledger s'"
  using core_fields [of s s'] by (simp add: ledger_def)

lemma inv_core:
  "core s = core s' \<Longrightarrow> rt_panicked s = rt_panicked s' \<Longrightarrow> run_inv N M L s = run_inv N M L s'"
  using core_fields [of s s'] by (simp add: run_inv_def wf_core [of s s'] ledger_core [of s s'])

lemma inv_unpanicking: "unpanicking f \<Longrightarrow> run_inv N M L (f s) = run_inv N M L s"
  using core_fields [of "f s" s] wf_unpanicking [of f s] ledger_core [of "f s" s]
  by (simp add: run_inv_def unpanicking_def)

lemma inv_observe [simp]:
  "run_inv N M L (publish_snapshot s) = run_inv N M L s" "run_inv N M L (send_lifecycle_draft d s) = run_inv N M L s"
  "run_inv N M L (send_lifecycle k kind s) = run_inv N M L s" "run_inv N M L (send_event ev s) = run_inv N M L s"
  "run_inv N M L (send_restart_event k g g' s) = run_inv N M L s"
  by (rule inv_unpanicking, rule unpanicking_observe)+

lemma inv_irrelevant [simp]:
  "run_inv N M L (s\<lparr>rt_startup_gate := g\<rparr>) = run_inv N M L s"
  "run_inv N M L (s\<lparr>rt_reported_ready := b\<rparr>) = run_inv N M L s"
  "run_inv N M L (s\<lparr>rt_aborted := ts\<rparr>) = run_inv N M L s" "run_inv N M L (s\<lparr>rt_now := n\<rparr>) = run_inv N M L s"
  "run_inv N M L (s\<lparr>rt_stable := st\<rparr>) = run_inv N M L s"
  "run_inv N M L (s\<lparr>rt_nested_channels := nc\<rparr>) = run_inv N M L s"
  "run_inv N M L (s\<lparr>rt_total_restarts := tr\<rparr>) = run_inv N M L s"
  "run_inv N M L (s\<lparr>rt_commands_open := co\<rparr>) = run_inv N M L s"
  "run_inv N M L (s\<lparr>rt_state := rs'\<rparr>) = run_inv N M L s" "run_inv N M L (s\<lparr>rt_stopping := sb\<rparr>) = run_inv N M L s"
  "run_inv N M L (s\<lparr>rt_group := gr\<rparr>) = run_inv N M L s"
  "run_inv N M L (s\<lparr>rt_group_cancelled := gc\<rparr>) = run_inv N M L s"
  "run_inv N M L (s\<lparr>rt_shutdown_requested := sr\<rparr>) = run_inv N M L s"
  "run_inv N M L (s\<lparr>rt_start_sequence := None\<rparr>) = (run_inv N M L s \<or> run_inv N M L (s\<lparr>rt_start_sequence := None\<rparr>))"
  by (auto simp: run_inv_def ledger_def)

text \<open>The halts a handler may report in a consistent state: never a panic or an
  internal error, and only a drain can block.\<close>

fun tolerated :: "halt \<Rightarrow> bool" where
  "tolerated (Exit (Failure (Internal m))) = False"
| "tolerated (Exit x) = True"
| "tolerated Blocked = False"
| "tolerated Panic = False"

lemma ledger_update_child:
  assumes "\<And>e. child_at s k = Some e \<Longrightarrow> ce_pending_removal (f e) = ce_pending_removal e"
  shows "ledger (update_child k f s) = ledger s"
  using assms slab_collect_update [of "rt_children s" k pending_replies f]
  by (simp add: ledger_def pending_replies_def)

lemma inv_update_child:
  assumes "run_inv N M L s"
    and "\<And>e. child_at s k = Some e \<Longrightarrow> entry_ok e \<Longrightarrow>
      same_task e (f e) \<and> entry_ok (f e) \<and> ce_pending_removal (f e) = ce_pending_removal e"
  shows "run_inv N M L (update_child k f s)"
proof -
  have "consistent (update_child k f s)"
    using assms wf_entry by (intro wf_update_child_all) (auto simp: run_inv_def)
  moreover have "ledger (update_child k f s) = ledger s"
    using assms wf_entry [of s k] by (intro ledger_update_child) (auto simp: run_inv_def)
  ultimately show ?thesis using assms(1) by (simp add: run_inv_def)
qed

lemma inv_update_runtime:
  assumes "run_inv N M L s"
    and "\<And>e. child_at s k = Some e \<Longrightarrow> entry_ok e \<Longrightarrow>
      entry_ok (on_runtime f e) \<and>
      cr_generation (f (ce_runtime e)) = cr_generation (ce_runtime e) \<and>
      cr_abort_handle (f (ce_runtime e)) = cr_abort_handle (ce_runtime e)"
  shows "run_inv N M L (update_runtime k f s)"
  unfolding update_runtime_def using assms
  by (intro inv_update_child) (auto simp: same_task_def)

text \<open>A signal to a child that exists keeps the invariant; one to a vacant key panics.\<close>

lemma inv_index_runtime:
  assumes "run_inv N M L s" and "child_at s k \<noteq> None"
    and "\<And>e. child_at s k = Some e \<Longrightarrow> entry_ok e \<Longrightarrow>
      entry_ok (on_runtime f e) \<and>
      cr_generation (f (ce_runtime e)) = cr_generation (ce_runtime e) \<and>
      cr_abort_handle (f (ce_runtime e)) = cr_abort_handle (ce_runtime e)"
  shows "run_inv N M L (index_runtime k f s)"
  using assms by (simp add: index_runtime_present inv_update_runtime)

lemma index_children:
  "rt_children (index_child k f s) = slab_update k f (rt_children s)"
  "rt_children (index_runtime k g s) = slab_update k (on_runtime g) (rt_children s)"
  by (simp_all add: index_child_def index_runtime_def)

lemma inv_cancel_child:
  "run_inv N M L s \<Longrightarrow> child_at s k \<noteq> None \<Longrightarrow> run_inv N M L (cancel_child k s)"
  unfolding cancel_child_def by (rule inv_index_runtime) (auto simp: entry_ok_def has_task_def)

lemma inv_abort_child:
  assumes "run_inv N M L s" and "child_at s k \<noteq> None"
  shows "run_inv N M L (abort_child k s)"
proof -
  have "run_inv N M L (index_runtime k (\<lambda>r. r\<lparr>cr_completion := mark_cancelled (cr_completion r),
      cr_nested_abort_cascades := True\<rparr>) s)"
    using assms by (rule inv_index_runtime) (auto simp: entry_ok_def has_task_def)
  then show ?thesis by (auto simp: abort_child_def Let_def split: option.split)
qed

lemma inv_escalate_child:
  "run_inv N M L s \<Longrightarrow> child_at s k \<noteq> None \<Longrightarrow> run_inv N M L (escalate_child k s)"
  unfolding escalate_child_def by (rule inv_index_runtime) (auto simp: entry_ok_def has_task_def)

text \<open>The signals leave every child in place.\<close>

lemma signal_present [simp]:
  "child_at (cancel_child k s) j = None \<longleftrightarrow> child_at s j = None"
  "child_at (abort_child k s) j = None \<longleftrightarrow> child_at s j = None"
  "child_at (escalate_child k s) j = None \<longleftrightarrow> child_at s j = None"
  by (auto simp: cancel_child_def abort_child_def escalate_child_def index_children Let_def
      split: option.split if_splits)

lemma signal_exists [simp]:
  "(\<exists>e. child_at (cancel_child k s) j = Some e) \<longleftrightarrow> (\<exists>e. child_at s j = Some e)"
  "(\<exists>e. child_at (abort_child k s) j = Some e) \<longleftrightarrow> (\<exists>e. child_at s j = Some e)"
  "(\<exists>e. child_at (escalate_child k s) j = Some e) \<longleftrightarrow> (\<exists>e. child_at s j = Some e)"
  using signal_present [of k s j] by (simp_all only: not_None_eq [symmetric])

lemmas inv_signal = inv_cancel_child inv_abort_child inv_escalate_child

lemma inv_terminal_identity [simp]:
  "run_inv N M L (terminal_identity i s) = run_inv N M L s"
  "run_inv N M L (mark_child_terminal k s) = run_inv N M L s"
  "run_inv N M L (retire_nested_identity j n s) = run_inv N M L s"
  by (simp_all add: terminal_identity_def mark_child_terminal_def retire_nested_identity_def
      split: option.split)

lemma inv_startup [simp]:
  "run_inv N M L (complete_empty_startup_gate s) = run_inv N M L s"
  "run_inv N M L (startup_member_ready k l s) = run_inv N M L s"
  "run_inv N M L (startup_member_removed k l s) = run_inv N M L s"
  by (simp_all add: complete_empty_startup_gate_def startup_member_ready_def
      startup_member_removed_def split: option.split)

lemma ok_startup_member_aborted:
  "run_inv N M L s \<Longrightarrow> outcome_ok (run_inv N M L) tolerated (startup_member_aborted k l s)"
  by (auto simp: startup_member_aborted_def startup_aborted_error_def split: option.split)

lemma inv_gate [simp]:
  "run_inv N M L s \<Longrightarrow> rm_kind M = Ordered \<Longrightarrow> run_inv N M L (set_gate g s)"
  "run_inv N M L s \<Longrightarrow> run_inv N M L (clear_gate s)"
  by (simp_all add: run_inv_def set_gate_def clear_gate_def ledger_def)

lemma inv_detach_entry:
  assumes "run_inv N M L s" and e: "child_at s k = Some e"
  shows "run_inv N M (L + mset (pending_replies e)) (detach_entry k e s)"
proof -
  have "slab_collect pending_replies (slab_remove k (rt_children s)) + mset (pending_replies e)
      = slab_collect pending_replies (rt_children s)"
    using slab_collect_remove [of pending_replies k "rt_children s"] e by simp
  then have "ledger s = ledger (detach_entry k e s) + mset (pending_replies e)"
    by (simp add: ledger_def detach_entry_def)
  moreover have "rt_meta (detach_entry k e s) = rt_meta s"
    "rt_start_sequence (detach_entry k e s) = rt_start_sequence s"
    "rt_received (detach_entry k e s) = rt_received s" "rt_hub (detach_entry k e s) = rt_hub s"
    by (simp_all add: detach_entry_def)
  ultimately show ?thesis
    using assms wf_detach_entry [of s k e] by (simp add: run_inv_def ac_simps)
qed

lemma inv_send_reply [simp]:
  "run_inv N M L (send_reply r a s) = run_inv N M (add_mset r L) s"
  by (simp add: run_inv_def send_reply_def ledger_def)

lemma inv_finalize_removed_child [simp]:
  assumes "run_inv N M L s"
  shows "run_inv N M L (finalize_removed_child k c s)"
proof (cases "child_at s k")
  case None
  with assms show ?thesis by (simp add: finalize_removed_child_def)
next
  case (Some e)
  note det = inv_detach_entry [OF assms Some]
  show ?thesis
  proof (cases "ce_pending_removal e")
    case None
    with det Some show ?thesis
      by (simp add: finalize_removed_child_def Let_def pending_replies_def split: option.split)
  next
    case (Some p)
    with det have "run_inv N M (add_mset (pr_reply p) L) (detach_entry k e s)"
      by (simp add: pending_replies_def)
    with Some \<open>child_at s k = Some e\<close> show ?thesis
      by (simp add: finalize_removed_child_def Let_def split: option.split)
  qed
qed

section \<open>Soundness of the start operations\<close>

lemma inv_spawn_child:
  assumes "env_ok E" and inv: "run_inv N M L s" and e: "child_at s k = Some e"
    and "\<not> is_active (child_state e)"
  shows "run_inv N M L (snd (spawn_child E k s))"
proof -
  have "consistent (spawn_effect E k e s)"
    using assms wf_spawn_effect by (simp add: run_inv_def)
  moreover have "ledger (spawn_effect E k e s) = ledger s"
    using slab_collect_put [of pending_replies k "spawned (env_task_id E (rt_join_set s)) (spawn_plan s e)"
        "rt_children s"] e
    by (simp add: ledger_def spawn_effect_def Let_def pending_replies_def)
  ultimately have "run_inv N M L (spawn_effect E k e s)"
    using inv by (simp add: run_inv_def) (simp add: spawn_effect_def Let_def)
  then show ?thesis by (simp add: spawn_child_eq [OF inv_wf [OF inv] e] spawn_observed_def Let_def)
qed

lemma startable_idle: "startable e \<Longrightarrow> \<not> is_active (child_state e)"
  by (auto simp: startable_def)

lemma ok_spawn_child:
  assumes "env_ok E" and inv: "run_inv N M L s" and e: "child_at s k = Some e"
    and "\<not> is_active (child_state e)"
  shows "outcome_ok (run_inv N M L) tolerated (spawn_child E k s)"
  using inv_spawn_child [OF assms] spawn_child_result [OF inv_wf [OF inv] e, of E]
  by (simp add: outcome_ok_def)

lemma ok_spawn_start_item:
  assumes E: "env_ok E" and inv: "run_inv N M L s"
  shows "outcome_ok (run_inv N M L) tolerated (spawn_start_item E item s)"
proof (cases "\<exists>e. child_at s (si_key item) = Some e \<and> ce_lineage e = si_lineage item \<and> startable e")
  case False
  with inv show ?thesis by (auto simp: spawn_start_item_def split: option.split)
next
  case True
  then obtain e where e: "child_at s (si_key item) = Some e" "ce_lineage e = si_lineage item"
    "startable e" by blast
  obtain old new s1 where sp: "spawn_child E (si_key item) s = (Inr (old, new), s1)"
    using spawn_child_result [OF inv_wf [OF inv] e(1), of E]
    by (cases "spawn_child E (si_key item) s") auto
  have i1: "run_inv N M L s1"
    using inv_spawn_child [OF E inv e(1) startable_idle [OF e(3)]] sp by simp
  then have "rt_meta s1 = M" by (simp add: run_inv_def)
  with i1 e show ?thesis
    by (simp add: spawn_start_item_def sp Let_def split: option.split)
qed

lemma ok_start_queued:
  assumes E: "env_ok E"
  shows "run_inv N M L s \<Longrightarrow> outcome_ok (run_inv N M L) tolerated (start_queued E items s)"
proof (induction items arbitrary: s)
  case Nil
  then show ?case by (simp add: run_inv_def ledger_def)
next
  case (Cons item rest)
  let ?s = "s\<lparr>rt_start_sequence := map_option (sq_queue_update (\<lambda>_. rest)) (rt_start_sequence s)\<rparr>"
  have "run_inv N M L ?s" using Cons.prems by (simp add: run_inv_def ledger_def)
  then have "outcome_ok (run_inv N M L) tolerated (spawn_start_item E item ?s)"
    by (rule ok_spawn_start_item [OF E])
  with Cons.IH show ?case by (auto simp: Let_def intro!: outcome_ok_bind)
qed

lemma ok_advance_start_sequence:
  assumes E: "env_ok E" and inv: "run_inv N M L s"
  shows "outcome_ok (run_inv N M L) tolerated (advance_start_sequence E s)"
  using inv ok_start_queued [OF E] ok_startup_member_aborted [of N M L "clear_gate s"]
  by (auto simp: advance_start_sequence_def Let_def split: option.split intro!: outcome_ok_bind)

lemma ok_finalize_skipped:
  assumes "child_at s k \<noteq> None" and inv: "run_inv N M L s"
  shows "outcome_ok (run_inv N M L) tolerated (finalize_skipped_group_respawn k b s)"
proof -
  let ?s = "publish_snapshot (update_runtime k (\<lambda>r. r\<lparr>cr_startup_aborted := True\<rparr>) s)"
  from inv have "run_inv N M L ?s"
    by (simp, intro inv_update_runtime) (auto simp: entry_ok_def has_task_def)
  with assms ok_startup_member_aborted show ?thesis
    by (auto simp: finalize_skipped_group_respawn_def intro!: outcome_ok_bind)
qed

lemma inv_queue_start_item:
  assumes inv: "run_inv N M L s" and "rm_kind M = Ordered" and e: "child_at s (si_key item) = Some e"
    and "startable e"
  shows "run_inv N M L (queue_start_item item s)"
proof -
  have "run_inv N M L (update_runtime (si_key item) (\<lambda>r. r\<lparr>cr_state := StartQueued,
      cr_has_reported_ready := False, cr_next_restart_deadline := None\<rparr>) s)"
    using inv
    by (rule inv_update_runtime)
       (use e assms(4) in \<open>auto simp: entry_ok_def has_task_def startable_def\<close>)
  with assms(2) show ?thesis
    by (simp add: queue_start_item_def Let_def index_runtime_present e) (simp add: run_inv_def ledger_def)
qed

lemma scope_kind_cases: "rm_kind M \<noteq> Dynamic \<Longrightarrow> rm_kind M = Ordered"
  by (cases "rm_kind M") simp_all

lemma ok_schedule_start_member:
  assumes E: "env_ok E" and inv: "run_inv N M L s"
  shows "outcome_ok (run_inv N M L) tolerated (schedule_start_member E b k s)"
proof -
  have meta: "rt_meta s = M" using inv by (simp add: run_inv_def)
  have respawn: "outcome_ok (run_inv N M L) tolerated
     (case child_at s k of
        None \<Rightarrow> (Inr (), s)
      | Some e \<Rightarrow>
          if \<not> startable e then (Inr (), s)
          else let item = \<lparr>si_key = k, si_lineage = ce_lineage e, si_emit_restart_event = b\<rparr>
               in if rm_kind (rt_meta s) = Dynamic then spawn_start_item E item s
                  else (Inr (), queue_start_item item s))"
    using inv ok_spawn_start_item [OF E inv] inv_queue_start_item [OF inv scope_kind_cases]
    by (auto simp: meta Let_def split: option.split)
  have "child_at s k \<noteq> None" if "group_respawn_disposition k s = Finalize a" for a
    using that by (auto simp: group_respawn_disposition_def split: if_splits option.splits)
  then have "outcome_ok (run_inv N M L) tolerated (finalize_skipped_group_respawn k a s)"
    if "group_respawn_disposition k s = Finalize a" for a
    using that ok_finalize_skipped [OF _ inv] by blast
  with respawn inv show ?thesis
    by (auto simp: schedule_start_member_def split: group_respawn_disposition.split)
qed

lemma ok_schedule_start_sequence:
  assumes E: "env_ok E" and inv: "run_inv N M L s"
  shows "outcome_ok (run_inv N M L) tolerated (schedule_start_sequence E ks b s)"
proof -
  have "sound (run_inv N M L) tolerated (schedule_start_sequence E ks b)"
    unfolding schedule_start_sequence_def
    by (intro sound_and_then sound_for_each soundI)
      (auto intro: ok_schedule_start_member [OF E] ok_advance_start_sequence [OF E])
  then show ?thesis using inv by (rule soundD)
qed

lemma inv_remove_start_sequence_member:
  "run_inv N M L s \<Longrightarrow> remove_start_sequence_member k l s = (c, s1) \<Longrightarrow> run_inv N M L s1"
  by (auto simp: remove_start_sequence_member_def Let_def run_inv_def ledger_def
      split: option.splits if_splits)

lemma ok_detach_start_member:
  assumes E: "env_ok E" and inv: "run_inv N M L s"
  shows "outcome_ok (run_inv N M L) tolerated (detach_start_member E k l s)"
  using inv_remove_start_sequence_member [OF inv] ok_advance_start_sequence [OF E]
  by (auto simp: detach_start_member_def Let_def split: prod.split)

lemma ok_terminal_start_member:
  assumes E: "env_ok E" and inv: "run_inv N M L s"
  shows "outcome_ok (run_inv N M L) tolerated (terminal_start_member E k l s)"
proof -
  obtain c s1 where rm: "remove_start_sequence_member k l s = (c, s1)"
    by (cases "remove_start_sequence_member k l s")
  from ok_startup_member_aborted [OF inv_remove_start_sequence_member [OF inv rm]]
    ok_advance_start_sequence [OF E] show ?thesis
    by (auto simp: terminal_start_member_def rm intro!: outcome_ok_bind)
qed

lemma ok_handle_child_ready:
  assumes E: "env_ok E" and inv: "run_inv N M L s"
  shows "outcome_ok (run_inv N M L) tolerated (handle_child_ready E ready s)"
proof -
  have "run_inv N M L (update_runtime (ry_key ready)
      (\<lambda>r. r\<lparr>cr_state := Running, cr_has_reported_ready := True\<rparr>) s)"
    if "child_at s (ry_key ready) = Some e" "child_state e = Starting" for e
    using inv by (rule inv_update_runtime) (use that in \<open>auto simp: entry_ok_def has_task_def\<close>)
  with inv ok_advance_start_sequence [OF E] show ?thesis
    by (auto simp: handle_child_ready_def Let_def split: option.split)
qed

end
