(* ===== verification/Runtime_Control.thy ===== *)
theory Runtime_Control
  imports Runtime_Invariant
begin

text \<open>
  What a supervisor incarnation does with its inputs (\<open>runtime/supervision.rs\<close>): membership
  commands and their replies, nested snapshot notifications, joined tasks with their
  classification, the exit policy with restart scheduling, and the deadlines it waits for.
\<close>

section \<open>Joined tasks\<close>

datatype joined = JoinedOk nat exit_result | JoinedErr nat bool

fun joined_id :: "joined \<Rightarrow> nat" where
  "joined_id (JoinedOk t r) = t"
| "joined_id (JoinedErr t c) = t"

definition classify_join_error :: "bool \<Rightarrow> runtime_exit_status" where
  "classify_join_error join_cancelled = (if join_cancelled then Aborted else Panicked)"

record classified_exit =
  cx_key :: nat
  cx_lineage :: u64
  cx_generation :: u64
  cx_status :: runtime_exit_status

text \<open>
  A task that returns cleanly marks its completion flag before its result becomes joinable;
  this is the task's own step, made at the latest when the join result is taken.
\<close>

definition task_marks_clean :: "nat \<Rightarrow> runtime \<Rightarrow> runtime" where
  "task_marks_clean t s =
     (case rt_task_map s t of
        None \<Rightarrow> s
      | Some m \<Rightarrow>
          update_child (tm_key m)
            (\<lambda>e. if cr_abort_handle (ce_runtime e) = Some t
                 then on_runtime (\<lambda>r. r\<lparr>cr_completion := mark_clean (cr_completion r)\<rparr>) e
                 else e) s)"

definition join_next :: "joined \<Rightarrow> runtime \<Rightarrow> runtime" where
  "join_next j s =
     (let s1 = (case j of JoinedOk t (Inr _) \<Rightarrow> task_marks_clean t s | _ \<Rightarrow> s)
      in s1\<lparr>rt_join_set := remove1 (joined_id j) (rt_join_set s1)\<rparr>)"

definition classify_child_exit ::
    "task_meta \<Rightarrow> runtime_exit_status \<Rightarrow> runtime \<Rightarrow> runtime_exit_status" where
  "classify_child_exit m st s =
     (case child_at s (tm_key m) of
        None \<Rightarrow> st
      | Some e \<Rightarrow>
          if ce_lineage e = tm_lineage m \<and> cr_generation (ce_runtime e) = tm_generation m \<and>
             (cr_shutdown_timed_out (ce_runtime e) \<or>
              (case ce_pending_removal e of
                 None \<Rightarrow> False
               | Some p \<Rightarrow> \<not> is_abort (pr_policy p) \<and> pr_grace_expired p))
          then ShutdownTimedOutExit else st)"

fun joined_status :: "joined \<Rightarrow> runtime_exit_status" where
  "joined_status (JoinedOk t r) = from_child_result r"
| "joined_status (JoinedErr t c) = classify_join_error c"

definition classify_join :: "joined \<Rightarrow> classified_exit runtime_run" where
  "classify_join j s =
     (case rt_task_map s (joined_id j) of
        None \<Rightarrow> (Inl (internal_error ''missing task metadata''), s)
      | Some m \<Rightarrow>
          (Inr \<lparr>cx_key = tm_key m, cx_lineage = tm_lineage m, cx_generation = tm_generation m,
                cx_status = classify_child_exit m (joined_status j) s\<rparr>,
           s\<lparr>rt_task_map := (rt_task_map s)(joined_id j := None)\<rparr>))"

definition current_child_matches :: "nat \<Rightarrow> u64 \<Rightarrow> u64 \<Rightarrow> runtime \<Rightarrow> bool" where
  "current_child_matches k l g s \<longleftrightarrow>
     (case child_at s k of
        None \<Rightarrow> False
      | Some e \<Rightarrow> ce_lineage e = l \<and> cr_generation (ce_runtime e) = g)"

definition consume_joined_child :: "joined \<Rightarrow> classified_exit option runtime_run" where
  "consume_joined_child j s =
     (case classify_join j s of
        (Inl err, s1) \<Rightarrow> (Inl err, s1)
      | (Inr c, s1) \<Rightarrow>
          if current_child_matches (cx_key c) (cx_lineage c) (cx_generation c) s1
          then (Inr (Some c), s1\<lparr>rt_live_tasks := rt_live_tasks s1 - 1\<rparr>)
          else (Inr None, s1))"

definition exit_entry :: "runtime_env \<Rightarrow> instant \<Rightarrow> runtime_exit_status \<Rightarrow> child_entry \<Rightarrow> child_entry" where
  "exit_entry E now st e =
     (let r = ce_runtime e in
      e\<lparr>ce_runtime := r\<lparr>cr_restart_tracker := tracker_record_exit now (cr_restart_tracker r),
          cr_state := Stopped, cr_active_token := None, cr_active_abort_token := None,
          cr_abort_handle := None, cr_next_restart_deadline := None,
          cr_shutdown_timed_out := False\<rparr>,
        ce_last_exit := Some (view (env_show_duration E) st),
        ce_last_exit_cancelled := is_cancelled (cr_completion r),
        ce_nested_snapshot := None, ce_nested_snapshot_state := None\<rparr>)"

definition record_exit ::
    "runtime_env \<Rightarrow> nat \<Rightarrow> u64 \<Rightarrow> runtime_exit_status \<Rightarrow> runtime \<Rightarrow> runtime" where
  "record_exit E k generation st s =
     (case child_at s k of
        None \<Rightarrow> panic_if True s
      | Some e \<Rightarrow>
          let cancelled = is_cancelled (cr_completion (ce_runtime e));
              s1 = update_child k (exit_entry E (rt_now s) st) s;
              s2 = send_lifecycle k
                     (Exited generation (exit_status_new (view (env_show_duration E) st) cancelled)) s1
          in send_event (ChildExitedEv (ce_id e) generation (view (env_show_duration E) st)) s2)"

section \<open>The exit policy\<close>

definition schedule_restart :: "nat \<Rightarrow> duration runtime_run" where
  "schedule_restart k s =
     (let s1 = s\<lparr>rt_total_restarts := u64_saturating_add (rt_total_restarts s) 1\<rparr> in
      case child_at s1 k of
        None \<Rightarrow> (Inl Panic, s1)
      | Some e \<Rightarrow>
          let now = rt_now s1;
              tracker = record_restart now (cr_restart_tracker (ce_runtime e))
          in if exceeded tracker
             then (Inl (Exit (Failure RestartIntensityExceeded)),
                   send_event RestartIntensityExceededEv
                     (update_runtime k (\<lambda>r. r\<lparr>cr_restart_tracker := tracker\<rparr>) s1))
             else (case tracker_backoff tracker of (delay, tracker') \<Rightarrow>
                     (Inr delay,
                      update_runtime k (\<lambda>r. r\<lparr>cr_restart_tracker := tracker',
                        cr_next_restart_deadline := Some (now + delay)\<rparr>) s1)))"

definition stop_is_final :: "runtime \<Rightarrow> nat \<Rightarrow> restart_policy \<Rightarrow> bool" where
  "stop_is_final s k p =
     (case rm_strategy (rt_meta s) of
        OneForOne \<Rightarrow> True
      | OneForAll \<Rightarrow> is_never p
      | RestForOne \<Rightarrow> is_never p \<or>
          (case rt_child_order s of [] \<Rightarrow> False | first # _ \<Rightarrow> first = k))"

definition apply_exit_policy_inner ::
    "runtime_env \<Rightarrow> classified_exit \<Rightarrow> bool \<Rightarrow> unit runtime_run" where
  "apply_exit_policy_inner E c allow_restart s =
     (if rt_state s \<noteq> SupRunning then (Inr (), s)
      else case child_at s (cx_key c) of
        None \<Rightarrow> (Inl Panic, s)
      | Some e \<Rightarrow>
          let k = cx_key c; policy = cd_restart (child_definition_of e) in
          if ce_membership e = MRemoving then (Inr (), finalize_removed_child k False s)
          else if allow_restart \<and> should_restart policy (is_failure (cx_status c))
          then
            (let previous_generation = cr_generation (ce_runtime e) in
             case schedule_restart k s of
               (Inl err, s1) \<Rightarrow> (Inl err, s1)
             | (Inr delay, s1) \<Rightarrow>
                 (Inr (),
                  send_lifecycle k (RestartScheduled previous_generation delay)
                    (case child_at s1 k of
                       None \<Rightarrow> s1
                     | Some e1 \<Rightarrow>
                         send_event (ChildRestartScheduledEv (ce_id e1) (ce_lineage e1)
                           previous_generation delay (rt_total_restarts s1)
                           (tr_total_restarts (cr_restart_tracker (ce_runtime e1)))) s1)))
          else if allow_restart
          then
            (let startup_aborted = (\<not> cr_has_reported_ready (ce_runtime e));
                 s1 = (if startup_aborted
                       then publish_snapshot
                              (update_runtime k (\<lambda>r. r\<lparr>cr_startup_aborted := True\<rparr>) s)
                       else s)
             in if cd_remove_on_terminal_exit (child_definition_of e)
                then (case (if startup_aborted then terminal_start_member E k (ce_lineage e) s1
                            else (Inr (), s1)) of
                        (startup_result, s2) \<Rightarrow>
                          (startup_result, finalize_removed_child k False s2))
                else
                  let s2 = (if stop_is_final s1 k policy then mark_child_terminal k s1 else s1)
                  in if startup_aborted then terminal_start_member E k (ce_lineage e) s2
                     else (Inr (), s2))
          else (Inr (), s))"

definition dispatch_exit :: "runtime_env \<Rightarrow> classified_exit \<Rightarrow> unit runtime_run" where
  "dispatch_exit E c s =
     apply_exit_policy_inner E c True (record_exit E (cx_key c) (cx_generation c) (cx_status c) s)"

definition handle_joined_child :: "runtime_env \<Rightarrow> joined \<Rightarrow> unit runtime_run" where
  "handle_joined_child E j s =
     (case consume_joined_child j (join_next j s) of
        (Inl err, s1) \<Rightarrow> (Inl err, s1)
      | (Inr None, s1) \<Rightarrow> (Inr (), s1)
      | (Inr (Some c), s1) \<Rightarrow> dispatch_exit E c s1)"

section \<open>Nested snapshots\<close>

definition handle_nested_snapshot :: "nested_snapshot_notification \<Rightarrow> runtime \<Rightarrow> runtime" where
  "handle_nested_snapshot n s =
     (case child_at s (parent_key n) of
        None \<Rightarrow> s
      | Some e \<Rightarrow>
          if ce_lineage e \<noteq> parent_lineage n
             \<or> cr_generation (ce_runtime e) \<noteq> nsn_generation n then s
          else (case ce_nested_snapshot_state e of
                  None \<Rightarrow> s
                | Some st \<Rightarrow>
                    publish_snapshot
                      (update_child (parent_key n)
                         (\<lambda>e. e\<lparr>ce_nested_snapshot_state := Some (mark_dequeued st),
                                ce_nested_snapshot := latest (mark_dequeued st)\<rparr>) s)))"

section \<open>Membership commands\<close>

datatype command_failure = Reject control_error | Halted halt

fun halt_error :: "exit_reason \<Rightarrow> control_error" where
  "halt_error ShutdownRequested = Unavailable"
| "halt_error (Failure err) = Failed err"

definition complete_command :: "nat \<Rightarrow> (command_failure + u64) \<times> runtime \<Rightarrow> (halt + unit) \<times> runtime" where
  "complete_command reply result =
     (case result of
        (Inr lineage, s) \<Rightarrow> (Inr (), send_reply reply (ReplyAdd (Inr lineage)) s)
      | (Inl (Reject err), s) \<Rightarrow> (Inr (), send_reply reply (ReplyAdd (Inl err)) s)
      | (Inl (Halted (Exit x)), s) \<Rightarrow>
          (Inl (Exit x), send_reply reply (ReplyAdd (Inl (halt_error x))) s)
      | (Inl (Halted h), s) \<Rightarrow> (Inl h, s))"

definition insert_child ::
    "runtime_env \<Rightarrow> child_definition \<Rightarrow> nat option \<Rightarrow> runtime \<Rightarrow> nat \<times> u64 \<times> runtime" where
  "insert_child E d channels s =
     (case next_lineage (rt_hub s) of (lineage, h) \<Rightarrow>
        let k = env_vacant_key E (rt_children s);
            e = child_entry_new (env_seed E (rt_now s)) (cd_id d) d channels lineage
        in (k, lineage,
            s\<lparr>rt_own := (rt_own s)\<lparr>st_lifecycle := h\<rparr>,
              rt_children := slab_put k e (rt_children s),
              rt_children_by_id := (rt_children_by_id s)(cd_id d \<mapsto> k),
              rt_child_order := rt_child_order s @ [k]\<rparr>))"

definition membership_check :: "child_definition \<Rightarrow> runtime \<Rightarrow> command_failure + unit" where
  "membership_check d s =
     (if cd_id d = [] then Inl (Reject (Rejected empty_id_error))
      else case restart_validate (cd_restart d) of
        Inl err \<Rightarrow> Inl (Reject (Rejected err))
      | Inr _ \<Rightarrow>
          (case rt_children_by_id s (cd_id d) of
             None \<Rightarrow> Inr ()
           | Some k \<Rightarrow>
               (case child_at s k of
                  None \<Rightarrow> Inl (Halted Panic)
                | Some e \<Rightarrow>
                    if ce_membership e = MRemoving
                    then Inl (Reject (ChildRemovalInProgress (cd_id d)))
                    else Inl (Reject (Rejected (DuplicateChildId (cd_id d)))))))"

definition start_inserted :: "runtime_env \<Rightarrow> nat \<times> u64 \<times> runtime \<Rightarrow> (command_failure + u64) \<times> runtime" where
  "start_inserted E ins =
     (case ins of (k, lineage, s) \<Rightarrow>
        (case schedule_start_sequence E [k] False (send_lifecycle k Added s) of
           (Inl h, s1) \<Rightarrow> (Inl (Halted h), s1)
         | (Inr _, s1) \<Rightarrow> (Inr lineage, s1)))"

definition add_child ::
    "runtime_env \<Rightarrow> child_definition \<Rightarrow> runtime \<Rightarrow> (command_failure + u64) \<times> runtime" where
  "add_child E child s =
     (if rm_kind (rt_meta s) \<noteq> Dynamic then (Inl (Halted Panic), s)
      else let d = apply_defaults (rm_default_child_restart (rt_meta s))
                     (rm_default_child_shutdown (rt_meta s)) child
           in case membership_check d s of
                Inl f \<Rightarrow> (Inl f, s)
              | Inr _ \<Rightarrow> start_inserted E (insert_child E d None s))"

text \<open>
  A rejected nested supervisor is dropped, which terminates the identity its caller reserved.
\<close>

definition claim_identity :: "nat \<Rightarrow> bool \<Rightarrow> runtime \<Rightarrow> runtime" where
  "claim_identity i static s =
     s\<lparr>rt_stable := (rt_stable s)(i :=
         (case rt_stable s i of StableTree c ns \<Rightarrow> StableTree (claim_edge static c) ns))\<rparr>"

definition add_nested ::
    "runtime_env \<Rightarrow> child_definition \<Rightarrow> runtime \<Rightarrow> (command_failure + u64) \<times> runtime" where
  "add_nested E pending s =
     (if rm_kind (rt_meta s) \<noteq> Dynamic then (Inl (Halted Panic), s)
      else case cd_kind pending of
        ChildTask \<Rightarrow> (Inl (Halted Panic), s)
      | ChildSupervisor i \<Rightarrow>
          let d = apply_defaults (rm_default_child_restart (rt_meta s))
                    (rm_default_child_shutdown (rt_meta s)) pending
          in (case membership_check d s of
                Inl f \<Rightarrow> (Inl f, terminal_identity i s)
              | Inr _ \<Rightarrow>
                  (case insert_child E d (Some i) (claim_identity i False s) of
                     (k, lineage, s1) \<Rightarrow>
                       start_inserted E (k, lineage,
                         s1\<lparr>rt_nested_channels := AList.update (cd_id d) i (rt_nested_channels s1)\<rparr>))))"

definition remove_child :: "runtime_env \<Rightarrow> string \<Rightarrow> u64 option \<Rightarrow> nat \<Rightarrow> unit runtime_run" where
  "remove_child E i expected_lineage reply s =
     (if rm_kind (rt_meta s) \<noteq> Dynamic then (Inl Panic, s)
      else case rt_children_by_id s i of
        None \<Rightarrow> (Inr (), send_reply reply (ReplyRemove (Inl (UnknownChildId i))) s)
      | Some k \<Rightarrow>
          (case child_at s k of
             None \<Rightarrow> (Inl Panic, s)
           | Some e \<Rightarrow>
               if (case expected_lineage of None \<Rightarrow> False | Some l \<Rightarrow> ce_lineage e \<noteq> l)
               then (Inr (), send_reply reply (ReplyRemove (Inl (UnknownChildId i))) s)
               else if ce_membership e = MRemoving
               then (Inr (), send_reply reply (ReplyRemove (Inl (ChildRemovalInProgress i))) s)
               else
                 let active = is_active (child_state e);
                     policy = cd_shutdown_policy (child_definition_of e);
                     pending = \<lparr>pr_reply = reply, pr_policy = policy,
                        pr_grace_deadline =
                          rt_now s + (case grace policy of None \<Rightarrow> 0 | Some g \<Rightarrow> g),
                        pr_grace_expired = False, pr_hard_abort_deadline = None\<rparr>;
                     s1 = publish_snapshot (update_child k
                            (\<lambda>e. e\<lparr>ce_membership := MRemoving,
                                   ce_pending_removal := Some pending,
                                   ce_runtime := (ce_runtime e)
                                     \<lparr>cr_state := (if active then Stopping else child_state e)\<rparr>\<rparr>) s);
                     s2 = (if active
                           then if is_abort policy then abort_child k s1 else cancel_child k s1
                           else s1)
                 in (case detach_start_member E k (ce_lineage e) s2 of
                       (Inl err, s3) \<Rightarrow> (Inl err, s3)
                     | (Inr _, s3) \<Rightarrow>
                         (Inr (), if active then s3 else finalize_removed_child k False s3))))"

datatype supervisor_command =
    AddChild child_definition nat
  | RemoveChild string "u64 option" nat
  | AddNested child_definition nat

fun command_reply :: "supervisor_command \<Rightarrow> nat" where
  "command_reply (AddChild d r) = r"
| "command_reply (RemoveChild i l r) = r"
| "command_reply (AddNested d r) = r"

fun dispatch_command :: "runtime_env \<Rightarrow> supervisor_command \<Rightarrow> unit runtime_run" where
  "dispatch_command E (AddChild d r) s = complete_command r (add_child E d s)"
| "dispatch_command E (RemoveChild i l r) s = remove_child E i l r s"
| "dispatch_command E (AddNested d r) s = complete_command r (add_nested E d s)"

definition handle_command :: "runtime_env \<Rightarrow> supervisor_command \<Rightarrow> unit runtime_run" where
  "handle_command E cmd s =
     dispatch_command E cmd (s\<lparr>rt_received := rt_received s @ [command_reply cmd]\<rparr>)"

section \<open>The end of a run\<close>

definition resolve_pending_removals :: "supervisor_error option \<Rightarrow> runtime \<Rightarrow> runtime" where
  "resolve_pending_removals failure s =
     (let pending = List.map_filter (\<lambda>(k, e). map_option (\<lambda>p. (ce_id e, p)) (ce_pending_removal e))
                      (slab_iter (rt_children s));
          s1 = s\<lparr>rt_children := slab_map (\<lambda>e. e\<lparr>ce_pending_removal := None\<rparr>) (rt_children s)\<rparr>
      in fold (\<lambda>(i, p) s. send_reply (pr_reply p)
                (ReplyRemove (pending_removal_result i p True failure (rt_now s))) s) pending s1)"

definition detach_nested_children :: "runtime \<Rightarrow> runtime" where
  "detach_nested_children s =
     s\<lparr>rt_children := slab_map (\<lambda>e.
         if is_active (child_state e) \<and> is_supervisor (cd_kind (child_definition_of e))
         then on_runtime (\<lambda>r. r\<lparr>cr_nested_abort_cascades := False\<rparr>) e else e) (rt_children s)\<rparr>"

definition finish :: "runtime \<Rightarrow> runtime" where
  "finish s = send_event SupervisorStoppedEv (s\<lparr>rt_state := SupStopped\<rparr>)"

definition finalize_stable_channels :: "runtime \<Rightarrow> runtime" where
  "finalize_stable_channels s = fold mark_child_terminal (map fst (slab_iter (rt_children s))) s"

section \<open>Deadlines\<close>

definition removal_deadline :: "pending_removal \<Rightarrow> instant option" where
  "removal_deadline p =
     (if \<not> pr_grace_expired p \<and> \<not> is_abort (pr_policy p) then Some (pr_grace_deadline p)
      else pr_hard_abort_deadline p)"

definition entry_deadlines :: "child_entry \<Rightarrow> instant list" where
  "entry_deadlines e =
     List.map_filter id
       [Option.bind (ce_pending_removal e) removal_deadline, child_deadline e]"

definition earliest_deadline :: "runtime \<Rightarrow> instant option" where
  "earliest_deadline s =
     (case concat (map (\<lambda>(k, e). entry_deadlines e) (slab_iter (rt_children s))) of
        [] \<Rightarrow> None
      | d # ds \<Rightarrow> Some (foldl min d ds))"

section \<open>Consistency of joins\<close>

lemma inv_task_marks_clean [simp]: "run_inv N M L s \<Longrightarrow> run_inv N M L (task_marks_clean t s)"
  unfolding task_marks_clean_def
  by (auto split: option.split intro!: inv_update_child
      simp: same_task_def entry_ok_def has_task_def)

lemma task_marks_clean_fields [simp]:
  "rt_task_map (task_marks_clean t s) = rt_task_map s"
  "rt_join_set (task_marks_clean t s) = rt_join_set s"
  by (simp_all add: task_marks_clean_def split: option.split)

lemma consistent_tasks:
  "consistent s \<Longrightarrow>
   tasks_ok (rt_children s) (rt_join_set s) (rt_task_map s) (hub_next_lineage (rt_hub s))"
  by (simp add: consistent_def)

lemma task_known: "consistent s \<Longrightarrow> t \<in> set (rt_join_set s) \<Longrightarrow> \<exists>m. rt_task_map s t = Some m"
  using tasks_ok_dom [OF consistent_tasks] by blast

definition forget_task :: "nat \<Rightarrow> runtime \<Rightarrow> runtime" where
  "forget_task t s =
     s\<lparr>rt_join_set := remove1 t (rt_join_set s), rt_task_map := (rt_task_map s)(t := None)\<rparr>"

lemma forget_task_fields [simp]:
  "rt_children (forget_task t s) = rt_children s" "rt_now (forget_task t s) = rt_now s"
  "rt_live_tasks (forget_task t s) = rt_live_tasks s" "rt_own (forget_task t s) = rt_own s"
  "rt_children_by_id (forget_task t s) = rt_children_by_id s"
  "rt_child_order (forget_task t s) = rt_child_order s"
  "rt_meta (forget_task t s) = rt_meta s" "rt_received (forget_task t s) = rt_received s"
  "rt_replies (forget_task t s) = rt_replies s"
  "rt_start_sequence (forget_task t s) = rt_start_sequence s"
  "rt_state (forget_task t s) = rt_state s"
  by (simp_all add: forget_task_def)

text \<open>Forgetting a task keeps the attribution of all others, once no child holds it.\<close>

lemma tasks_ok_forget:
  assumes t: "tasks_ok sl js tm n"
    and get: "\<And>j e. slab_get sl' j = Some e \<Longrightarrow> cr_abort_handle (ce_runtime e) \<noteq> Some u \<and>
      (\<exists>d. slab_get sl j = Some d \<and> ce_lineage d = ce_lineage e \<and>
         (task_meta_of j d = task_meta_of j e \<and>
            cr_abort_handle (ce_runtime d) = cr_abort_handle (ce_runtime e) \<or>
          cr_abort_handle (ce_runtime d) = Some u \<and> cr_abort_handle (ce_runtime e) = None))"
  shows "tasks_ok sl' (remove1 u js) (tm(u := None)) n"
proof (rule tasks_okI)
  show "distinct (remove1 u js)" "dom (tm(u := None)) = set (remove1 u js)"
    using tasks_ok_dom [OF t] by auto
  show "tm_lineage m < n" if "(tm(u := None)) v = Some m" for v m
    using that tasks_ok_lineage [OF t] by (auto split: if_splits)
  show "(tm(u := None)) v = Some (task_meta_of k e)"
    if e: "slab_get sl' k = Some e" "cr_abort_handle (ce_runtime e) = Some v" for k e v
  proof -
    from get [OF e(1)] e(2) obtain d where "v \<noteq> u" "slab_get sl k = Some d"
      "task_meta_of k d = task_meta_of k e" "cr_abort_handle (ce_runtime d) = Some v" by auto
    with tasks_ok_child [OF t] show ?thesis by (metis fun_upd_apply)
  qed
  show "cr_abort_handle (ce_runtime e) = Some v \<and> m = task_meta_of (tm_key m) e"
    if m: "(tm(u := None)) v = Some m" "slab_get sl' (tm_key m) = Some e" "ce_lineage e = tm_lineage m"
    for v m e
  proof -
    from m(1) have v: "v \<noteq> u" "tm v = Some m" by (auto split: if_splits)
    from get [OF m(2)] obtain d where d: "slab_get sl (tm_key m) = Some d" "ce_lineage d = ce_lineage e"
      "task_meta_of (tm_key m) d = task_meta_of (tm_key m) e \<and>
         cr_abort_handle (ce_runtime d) = cr_abort_handle (ce_runtime e) \<or>
       cr_abort_handle (ce_runtime d) = Some u" by blast
    with m(3) tasks_ok_meta [OF t v(2), of d] v(1) show ?thesis by auto
  qed
qed

lemma holder_matches:
  assumes "consistent s" "rt_task_map s t = Some m" "child_at s j = Some e"
    "cr_abort_handle (ce_runtime e) = Some t"
  shows "m = task_meta_of j e"
  using tasks_ok_child [OF consistent_tasks [OF assms(1)] assms(3,4)] assms(2) by simp

lemma consistent_forget_stale:
  assumes c: "consistent s" and m: "rt_task_map s t = Some m"
    and stale: "\<not> current_child_matches (tm_key m) (tm_lineage m) (tm_generation m) s"
  shows "consistent (forget_task t s)"
proof -
  have "cr_abort_handle (ce_runtime e) \<noteq> Some t" if "child_at s j = Some e" for j e
    using holder_matches [OF c m that] stale that by (auto simp: current_child_matches_def)
  then have "tasks_ok (rt_children s) (remove1 t (rt_join_set s)) ((rt_task_map s)(t := None))
      (hub_next_lineage (rt_hub s))"
    by (intro tasks_ok_forget [OF consistent_tasks [OF c]]) auto
  with c show ?thesis by (simp add: consistent_def forget_task_def)
qed

lemma exit_entry_fields [simp]:
  "ce_id (exit_entry E now st e) = ce_id e" "ce_lineage (exit_entry E now st e) = ce_lineage e"
  "cr_abort_handle (ce_runtime (exit_entry E now st e)) = None"
  "ce_pending_removal (exit_entry E now st e) = ce_pending_removal e"
  "ce_membership (exit_entry E now st e) = ce_membership e"
  "child_state (exit_entry E now st e) = Stopped"
  "cr_generation (ce_runtime (exit_entry E now st e)) = cr_generation (ce_runtime e)"
  "child_definition_of (exit_entry E now st e) = child_definition_of e"
  "cr_completion (ce_runtime (exit_entry E now st e)) = cr_completion (ce_runtime e)"
  by (simp_all add: exit_entry_def Let_def)

lemma entry_ok_exit: "entry_ok e \<Longrightarrow> entry_ok (exit_entry E now st e)"
  by (auto simp: entry_ok_def has_task_def) (auto simp: exit_entry_def Let_def)

lemma consistent_task_exit:
  assumes c: "consistent s" and m: "rt_task_map s t = Some m" and e: "child_at s (tm_key m) = Some e"
    and lin: "ce_lineage e = tm_lineage m"
  shows "consistent (update_child (tm_key m) (exit_entry E now st)
           ((forget_task t s)\<lparr>rt_live_tasks := rt_live_tasks s - 1\<rparr>))"
proof -
  let ?k = "tm_key m"
  let ?e = "exit_entry E now st e"
  let ?sl = "slab_put ?k ?e (rt_children s)"
  note t = consistent_tasks [OF c]
  have abort: "cr_abort_handle (ce_runtime e) = Some t"
    using tasks_ok_meta [OF t m e lin] by simp
  have sl: "slab_update ?k (exit_entry E now st) (rt_children s) = ?sl"
    using e by (rule slab_update_present)
  have get: "slab_get ?sl j = (if j = ?k then Some ?e else child_at s j)" for j
    by (simp add: slab_get_put)
  have others: "cr_abort_handle (ce_runtime d) \<noteq> Some t" if "child_at s j = Some d" "j \<noteq> ?k" for j d
    using holder_matches [OF c m that(1)] that(2) by auto
  have "tasks_ok ?sl (remove1 t (rt_join_set s)) ((rt_task_map s)(t := None))
      (hub_next_lineage (rt_hub s))"
  proof (rule tasks_ok_forget [OF t])
    fix j d assume d: "slab_get ?sl j = Some d"
    show "cr_abort_handle (ce_runtime d) \<noteq> Some t \<and>
      (\<exists>f. child_at s j = Some f \<and> ce_lineage f = ce_lineage d \<and>
         (task_meta_of j f = task_meta_of j d \<and>
            cr_abort_handle (ce_runtime f) = cr_abort_handle (ce_runtime d) \<or>
          cr_abort_handle (ce_runtime f) = Some t \<and> cr_abort_handle (ce_runtime d) = None))"
      using d e abort others [of j d] by (cases "j = ?k") (auto simp: get)
  qed
  moreover have "order_ok ?sl (rt_child_order s)"
    using c e by (auto simp: consistent_def order_ok_def get)
  moreover have "index_ok ?sl (rt_children_by_id s)"
    using c e by (auto simp: consistent_def index_ok_def get)
  moreover have "entries_ok ?sl (hub_next_lineage (rt_hub s))"
    using c e entry_ok_exit [OF wf_entry [OF c e]] by (auto simp: consistent_def entries_ok_def get)
  moreover have "slab_count has_task ?sl = rt_live_tasks s - 1"
    using slab_count_put [of has_task ?k ?e "rt_children s"] c e abort
    by (simp add: consistent_def has_task_def)
  ultimately show ?thesis using c by (simp add: consistent_def sl) (simp add: forget_task_def)
qed

lemma ledger_exit: "ledger (update_child k (exit_entry E now st) s) = ledger s"
  by (rule ledger_update_child) simp

text \<open>Taking a join result and recording the exit it reports.\<close>

lemma consume_joined_child_ok:
  assumes inv: "run_inv N M L s" and t: "joined_id j \<in> set (rt_join_set s)"
  shows "\<exists>r s1. consume_joined_child j (join_next j s) = (Inr r, s1) \<and>
    (case r of
       None \<Rightarrow> run_inv N M L s1
     | Some c \<Rightarrow>
         child_at s1 (cx_key c) \<noteq> None \<and>
         run_inv N M L (record_exit E (cx_key c) (cx_generation c) st s1) \<and>
         child_at (record_exit E (cx_key c) (cx_generation c) st s1) (cx_key c) \<noteq> None)"
proof -
  let ?t = "joined_id j"
  let ?s = "case j of JoinedOk t (Inr _) \<Rightarrow> task_marks_clean t s | _ \<Rightarrow> s"
  have inv1: "run_inv N M L ?s" using inv by (auto split: joined.split sum.split)
  have js: "rt_join_set ?s = rt_join_set s" "rt_task_map ?s = rt_task_map s"
    by (auto split: joined.split sum.split)
  from task_known [OF inv_wf [OF inv] t] obtain m where m: "rt_task_map ?s ?t = Some m"
    using js by auto
  have classify: "classify_join j (join_next j s) =
      (Inr \<lparr>cx_key = tm_key m, cx_lineage = tm_lineage m, cx_generation = tm_generation m,
            cx_status = classify_child_exit m (joined_status j) (join_next j s)\<rparr>, forget_task ?t ?s)"
    using m by (simp add: classify_join_def join_next_def Let_def forget_task_def js)
  have keep: "rt_meta ?s = M" "mset (rt_received ?s) = ledger ?s + L" "rm_kind M = Dynamic \<longrightarrow> rt_start_sequence ?s = None"
    "hub_next_lineage (rt_hub ?s) \<le> N"
    using inv1 by (simp_all add: run_inv_def)
  show ?thesis
  proof (cases "current_child_matches (tm_key m) (tm_lineage m) (tm_generation m) ?s")
    case False
    from consistent_forget_stale [OF inv_wf [OF inv1] m False] keep
    have "run_inv N M L (forget_task ?t ?s)" by (simp add: run_inv_def ledger_def)
    with False show ?thesis
      by (simp add: consume_joined_child_def classify current_child_matches_def)
  next
    case True
    then obtain e where e: "child_at ?s (tm_key m) = Some e" "ce_lineage e = tm_lineage m"
      by (auto simp: current_child_matches_def split: option.splits)
    let ?s1 = "(forget_task ?t ?s)\<lparr>rt_live_tasks := rt_live_tasks ?s - 1\<rparr>"
    let ?s2 = "update_child (tm_key m) (exit_entry E (rt_now ?s) st) ?s1"
    have "consistent ?s2" by (rule consistent_task_exit [OF inv_wf [OF inv1] m e])
    moreover have "ledger ?s2 = ledger ?s"
      by (simp add: ledger_exit) (simp add: ledger_def)
    ultimately have inv2: "run_inv N M L ?s2" using keep by (simp add: run_inv_def)
    have "run_inv N M L (record_exit E (tm_key m) (tm_generation m) st ?s1)"
      using inv2 e(1) by (simp add: record_exit_def Let_def)
    moreover have "child_at (record_exit E (tm_key m) (tm_generation m) st ?s1) (tm_key m) \<noteq> None"
      using e(1) by (simp add: record_exit_def Let_def)
    ultimately show ?thesis
      using True e(1)
      by (simp add: consume_joined_child_def classify current_child_matches_def)
  qed
qed

section \<open>Soundness of the exit policy\<close>

lemma inv_set_runtime_fields:
  assumes "run_inv N M L s"
  shows "run_inv N M L (update_runtime k (\<lambda>r. r\<lparr>cr_restart_tracker := f r\<rparr>) s)"
    and "run_inv N M L (update_runtime k (\<lambda>r. r\<lparr>cr_startup_aborted := b\<rparr>) s)"
    and "run_inv N M L (update_runtime k (\<lambda>r. r\<lparr>cr_next_restart_deadline := d\<rparr>) s)"
    and "run_inv N M L (update_runtime k (\<lambda>r. r\<lparr>cr_restart_tracker := f r, cr_next_restart_deadline := d\<rparr>) s)"
  by (rule inv_update_runtime [OF assms]; auto simp: entry_ok_def has_task_def)+

lemma ok_schedule_restart:
  assumes inv: "run_inv N M L s" and "child_at s k \<noteq> None"
  shows "outcome_ok (run_inv N M L) tolerated (schedule_restart k s)"
  using assms
  by (auto simp: schedule_restart_def Let_def inv_set_runtime_fields split: prod.split)

lemma ok_apply_exit_policy:
  assumes E: "env_ok E" and inv: "run_inv N M L s" and "child_at s (cx_key c) \<noteq> None"
  shows "outcome_ok (run_inv N M L) tolerated (apply_exit_policy_inner E c b s)"
proof -
  obtain e where e: "child_at s (cx_key c) = Some e" using assms(3) by blast
  have ts: "outcome_ok (run_inv N M L) tolerated (terminal_start_member E k l s')"
    if "run_inv N M L s'" for k l s'
    using ok_terminal_start_member [OF E that] .
  have fin: "outcome_ok (run_inv N M L) tolerated
      (case p of (r, s2) \<Rightarrow> (r, finalize_removed_child k b s2))"
    if "outcome_ok (run_inv N M L) tolerated p" for p k b
    using that by (cases p; cases "fst p") auto
  show ?thesis
    using inv ok_schedule_restart [OF inv assms(3)]
    by (auto simp: apply_exit_policy_inner_def Let_def e inv_set_runtime_fields
        intro!: outcome_ok_bind fin ts split: option.split)
qed

lemma ok_handle_joined_child:
  assumes E: "env_ok E" and inv: "run_inv N M L s" and t: "joined_id j \<in> set (rt_join_set s)"
  shows "outcome_ok (run_inv N M L) tolerated (handle_joined_child E j s)"
proof -
  obtain r s1 where j: "consume_joined_child j (join_next j s) = (Inr r, s1)"
    using consume_joined_child_ok [OF inv t] by blast
  show ?thesis
  proof (cases r)
    case None
    with j consume_joined_child_ok [OF inv t, of E Completed] show ?thesis
      by (simp add: handle_joined_child_def)
  next
    case (Some c)
    with j consume_joined_child_ok [OF inv t, of E "cx_status c"]
    have "run_inv N M L (record_exit E (cx_key c) (cx_generation c) (cx_status c) s1)"
      "child_at (record_exit E (cx_key c) (cx_generation c) (cx_status c) s1) (cx_key c) \<noteq> None"
      by auto
    with j Some ok_apply_exit_policy [OF E] show ?thesis
      by (simp add: handle_joined_child_def dispatch_exit_def)
  qed
qed

lemma inv_handle_nested_snapshot:
  assumes "run_inv N M L s"
  shows "run_inv N M L (handle_nested_snapshot n s)"
  unfolding handle_nested_snapshot_def using assms
  by (auto split: option.split intro!: inv_update_child simp: same_task_def entry_ok_def has_task_def)

section \<open>Soundness of the commands\<close>

lemma run_inv_mono: "run_inv N M L s \<Longrightarrow> N \<le> N' \<Longrightarrow> run_inv N' M L s"
  by (simp add: run_inv_def)

lemma child_entry_new_fields [simp]:
  "ce_id (child_entry_new sd i d ch l) = i" "ce_lineage (child_entry_new sd i d ch l) = l"
  "cr_abort_handle (ce_runtime (child_entry_new sd i d ch l)) = None"
  "ce_pending_removal (child_entry_new sd i d ch l) = None"
  "ce_membership (child_entry_new sd i d ch l) = MActive"
  "child_state (child_entry_new sd i d ch l) = Stopped"
  "child_definition_of (child_entry_new sd i d ch l) = d"
  "ce_nested_channels (child_entry_new sd i d ch l) = ch"
  by (simp_all add: child_entry_new_def child_runtime_new_def)

text \<open>Placing a new membership in a vacant slot, under a lineage no task refers to there.\<close>

lemma inv_place_child:
  assumes inv: "run_inv N M L s" and vac: "child_at s k = None"
    and hub: "hub_next_lineage (rt_hub s) \<le> hub_next_lineage h" "hub_next_lineage h \<le> N'"
    and lin: "l < hub_next_lineage h" "\<And>t m. rt_task_map s t = Some m \<Longrightarrow> tm_lineage m \<noteq> l"
    and id: "cd_id d \<noteq> []" "rt_children_by_id s (cd_id d) = None"
    and ch: "is_supervisor (cd_kind d) \<Longrightarrow> ch \<noteq> None"
  shows "run_inv N' M L (s\<lparr>rt_own := (rt_own s)\<lparr>st_lifecycle := h\<rparr>,
      rt_children := slab_put k (child_entry_new sd (cd_id d) d ch l) (rt_children s),
      rt_children_by_id := (rt_children_by_id s)(cd_id d \<mapsto> k),
      rt_child_order := rt_child_order s @ [k]\<rparr>)" (is "run_inv N' M L ?s")
proof -
  let ?n = "hub_next_lineage h"
  let ?e = "child_entry_new sd (cd_id d) d ch l"
  let ?sl = "slab_put k ?e (rt_children s)"
  have c: "consistent s" using inv by (rule inv_wf)
  have get: "slab_get ?sl j = (if j = k then Some ?e else child_at s j)" for j
    by (simp add: slab_get_put)
  have ok: "entry_ok ?e" using ch id by (simp add: entry_ok_def has_task_def)
  have noid: "ce_id f \<noteq> cd_id d" if "child_at s j = Some f" for j f
    using wf_index [OF c, of "cd_id d" j] id that by auto
  have "order_ok ?sl (rt_child_order s @ [k])"
    using c vac by (auto simp: consistent_def order_ok_def get)
  moreover have "index_ok ?sl ((rt_children_by_id s)(cd_id d \<mapsto> k))"
    unfolding index_ok_def
  proof (intro allI)
    fix i j
    show "((rt_children_by_id s)(cd_id d \<mapsto> k)) i = Some j \<longleftrightarrow>
        (\<exists>f. slab_get ?sl j = Some f \<and> ce_id f = i)"
      using wf_index [OF c, of i j] vac noid [of j] by (cases "j = k") (auto simp: get)
  qed
  moreover have "entries_ok ?sl ?n"
    using c ok hub(1) lin(1)
    by (auto simp: consistent_def entries_ok_def get intro: less_le_trans)
  moreover have "slab_count has_task ?sl = rt_live_tasks s"
    using slab_count_put [of has_task k ?e "rt_children s"] c vac
    by (simp add: consistent_def has_task_def)
  moreover have "tasks_ok ?sl (rt_join_set s) (rt_task_map s) ?n"
  proof (rule tasks_okI)
    note t = consistent_tasks [OF c]
    show "distinct (rt_join_set s)" "dom (rt_task_map s) = set (rt_join_set s)"
      using tasks_ok_dom [OF t] by simp_all
    show "rt_task_map s u = Some (task_meta_of j f)"
      if "slab_get ?sl j = Some f" "cr_abort_handle (ce_runtime f) = Some u" for j f u
      using that tasks_ok_child [OF t, of j f u] by (auto simp: get split: if_splits)
    show "tm_lineage m < ?n" if "rt_task_map s u = Some m" for u m
      using less_le_trans [OF tasks_ok_lineage [OF t that] hub(1)] .
    show "cr_abort_handle (ce_runtime f) = Some u \<and> m = task_meta_of (tm_key m) f"
      if "rt_task_map s u = Some m" "slab_get ?sl (tm_key m) = Some f" "ce_lineage f = tm_lineage m"
      for u m f
      using that(2,3) tasks_ok_meta [OF t that(1), of f] lin(2) [OF that(1)]
      by (cases "tm_key m = k") (auto simp: get)
  qed
  ultimately have "consistent ?s" using c by (simp add: consistent_def)
  moreover have "ledger ?s = ledger s"
    using slab_collect_put [of pending_replies k ?e "rt_children s"] vac
    by (simp add: ledger_def pending_replies_def)
  ultimately show ?thesis using inv hub(2) by (simp add: run_inv_def)
qed

lemma inv_insert_child:
  assumes E: "env_ok E" and inv: "run_inv N M L s"
    and nxt: "hub_next_lineage (rt_hub s) < u64_max"
    and id: "cd_id d \<noteq> [] \<and> rt_children_by_id s (cd_id d) = None"
    and ch: "is_supervisor (cd_kind d) \<Longrightarrow> ch \<noteq> None"
    and ins: "insert_child E d ch s = (k, l, s')"
  shows "run_inv (Suc N) M L s'"
proof -
  let ?n = "hub_next_lineage (rt_hub s)"
  let ?h = "(rt_hub s)\<lparr>hub_next_lineage := Suc ?n\<rparr>"
  have nl: "next_lineage (rt_hub s) = (?n, ?h)"
    using nxt by (simp add: next_lineage_def u64_saturating_add_def)
  have "tm_lineage m \<noteq> ?n" if "rt_task_map s t = Some m" for t m
    using tasks_ok_lineage [OF consistent_tasks [OF inv_wf [OF inv]] that] by simp
  moreover have "child_at s (env_vacant_key E (rt_children s)) = None" using E by (simp add: env_ok_def)
  ultimately show ?thesis
    using ins inv_place_child [OF inv, of "env_vacant_key E (rt_children s)" ?h "Suc N" ?n d ch] id ch inv
    by (auto simp: insert_child_def nl Let_def run_inv_def)
qed

lemma ok_start_inserted:
  assumes E: "env_ok E" and inv: "run_inv N M L s"
  shows "run_inv N M L (snd (start_inserted E (k, l, s))) \<and>
    (\<forall>f. fst (start_inserted E (k, l, s)) = Inl f \<longrightarrow> (\<exists>x. f = Halted (Exit x) \<and> tolerated (Exit x)))"
proof -
  have "run_inv N M L (send_lifecycle k Added s)" using inv by simp
  note ok = ok_schedule_start_sequence [OF E this, of "[k]" False]
  obtain r s1 where sch: "schedule_start_sequence E [k] False (send_lifecycle k Added s) = (r, s1)"
    by (cases "schedule_start_sequence E [k] False (send_lifecycle k Added s)")
  have "\<exists>x. h = Exit x" if "tolerated h" for h using that by (cases h) auto
  with ok sch show ?thesis by (cases r) (auto simp: start_inserted_def)
qed

text \<open>What the two insertion commands leave behind before their reply is sent.\<close>

definition command_ok :: "(command_failure + u64) \<times> runtime \<Rightarrow> u64 \<Rightarrow> runtime_meta \<Rightarrow> nat multiset \<Rightarrow> bool" where
  "command_ok p N M L \<longleftrightarrow>
     run_inv N M L (snd p) \<and>
     (\<forall>h. fst p = Inl (Halted h) \<longrightarrow> (\<exists>x. h = Exit x \<and> tolerated (Exit x)))"

lemma ok_complete_command:
  assumes "command_ok p N M (add_mset r L)"
  shows "outcome_ok (run_inv N M L) tolerated (complete_command r p)"
proof -
  obtain f s where p: "p = (f, s)" by (cases p)
  with assms have inv: "run_inv N M (add_mset r L) s" by (simp add: command_ok_def)
  show ?thesis
  proof (cases f)
    case (Inl g)
    with assms p inv show ?thesis
      by (cases g) (auto simp: complete_command_def command_ok_def)
  next
    case (Inr l)
    with p inv show ?thesis by (simp add: complete_command_def)
  qed
qed

lemma membership_check_cases:
  assumes "run_inv N M L s"
  shows "membership_check d s = Inr () \<Longrightarrow> cd_id d \<noteq> [] \<and> rt_children_by_id s (cd_id d) = None"
    and "membership_check d s \<noteq> Inl (Halted h)"
proof -
  show "cd_id d \<noteq> [] \<and> rt_children_by_id s (cd_id d) = None" if "membership_check d s = Inr ()"
    using that by (auto simp: membership_check_def split: if_splits sum.splits option.splits)
  have "child_at s k \<noteq> None" if "rt_children_by_id s (cd_id d) = Some k" for k
    using that wf_index [OF inv_wf [OF assms], of "cd_id d" k] by auto
  then show "membership_check d s \<noteq> Inl (Halted h)"
    by (auto simp: membership_check_def split: sum.split option.split)
qed

lemma ok_add_child:
  assumes E: "env_ok E" and inv: "run_inv N M L s" and "rm_kind M = Dynamic"
    and "hub_next_lineage (rt_hub s) < u64_max" and task: "cd_kind d = ChildTask"
  shows "command_ok (add_child E d s) (Suc N) M L"
proof -
  let ?d = "apply_defaults (rm_default_child_restart M) (rm_default_child_shutdown M) d"
  have meta: "rt_meta s = M" using inv by (simp add: run_inv_def)
  show ?thesis
  proof (cases "membership_check ?d s")
    case (Inl f)
    with membership_check_cases(2) [OF inv, of ?d] run_inv_mono [OF inv, of "Suc N"] assms(3) show ?thesis
      by (auto simp: add_child_def meta Let_def command_ok_def)
  next
    case (Inr u)
    obtain k l s' where ins: "insert_child E ?d None s = (k, l, s')"
      by (cases "insert_child E ?d None s") auto
    have "run_inv (Suc N) M L s'"
      using inv_insert_child [OF E inv assms(4) membership_check_cases(1) [OF inv] _ ins] Inr task
      by simp
    from ok_start_inserted [OF E this, of k l] Inr assms(3) show ?thesis
      by (auto simp: add_child_def meta Let_def ins command_ok_def)
  qed
qed

lemma ok_add_nested:
  assumes E: "env_ok E" and inv: "run_inv N M L s" and "rm_kind M = Dynamic"
    and "hub_next_lineage (rt_hub s) < u64_max" and sup: "cd_kind d = ChildSupervisor i"
  shows "command_ok (add_nested E d s) (Suc N) M L"
proof -
  let ?d = "apply_defaults (rm_default_child_restart M) (rm_default_child_shutdown M) d"
  let ?s = "claim_identity i False s"
  have meta: "rt_meta s = M" using inv by (simp add: run_inv_def)
  have inv1: "run_inv N M L ?s" "rt_hub ?s = rt_hub s" "rt_children_by_id ?s = rt_children_by_id s"
    using inv by (simp_all add: claim_identity_def)
  show ?thesis
  proof (cases "membership_check ?d s")
    case (Inl f)
    with membership_check_cases(2) [OF inv, of ?d] run_inv_mono [OF inv, of "Suc N"] assms(3) show ?thesis
      by (auto simp: add_nested_def meta Let_def command_ok_def sup)
  next
    case (Inr u)
    obtain k l s' where ins: "insert_child E ?d (Some i) ?s = (k, l, s')"
      by (cases "insert_child E ?d (Some i) ?s") auto
    have "run_inv (Suc N) M L s'"
      using inv_insert_child [OF E inv1(1) _ _ _ ins] membership_check_cases(1) [OF inv, of ?d]
        Inr assms(4) inv1 by simp
    then have "run_inv (Suc N) M L (s'\<lparr>rt_nested_channels := nc\<rparr>)" for nc by simp
    from ok_start_inserted [OF E this, of k l] Inr assms(3) show ?thesis
      by (auto simp: add_nested_def meta Let_def ins command_ok_def sup)
  qed
qed

lemma inv_mark_removing:
  assumes inv: "run_inv N M (add_mset (pr_reply p) L) s" and e: "child_at s k = Some e"
    and "ce_membership e \<noteq> MRemoving"
    and f: "f e = e\<lparr>ce_membership := MRemoving, ce_pending_removal := Some p,
      ce_runtime := (ce_runtime e)\<lparr>cr_state :=
        (if is_active (child_state e) then Stopping else child_state e)\<rparr>\<rparr>"
  shows "run_inv N M L (update_child k f s)"
proof -
  have c: "consistent s" and ok: "entry_ok e"
    using inv wf_entry [OF inv_wf [OF inv] e] by (simp_all add: run_inv_def)
  have none: "ce_pending_removal e = None" using ok assms(3) by (auto simp: entry_ok_def)
  have "consistent (update_child k f s)"
    using c e
  proof (rule wf_update_child)
    show "same_task e (f e)" by (simp add: f same_task_def)
    show "entry_ok (f e)" using ok by (auto simp: f entry_ok_def has_task_def)
  qed
  moreover have "ledger (update_child k f s) = add_mset (pr_reply p) (ledger s)"
    using slab_collect_put [of pending_replies k "f e" "rt_children s"] e none
    by (simp add: ledger_def slab_update_present [OF e] f pending_replies_def)
  ultimately show ?thesis using inv by (simp add: run_inv_def)
qed

lemma ok_remove_child:
  assumes E: "env_ok E" and inv: "run_inv N M (add_mset r L) s" and dyn: "rm_kind M = Dynamic"
  shows "outcome_ok (run_inv N M L) tolerated (remove_child E i l r s)"
proof (cases "rt_children_by_id s i")
  case None
  moreover have "rt_meta s = M" using inv by (simp add: run_inv_def)
  ultimately show ?thesis using inv dyn by (simp add: remove_child_def)
next
  case (Some k)
  then obtain e where e: "child_at s k = Some e" using wf_index [OF inv_wf [OF inv]] by blast
  have meta: "rt_meta s = M" using inv by (simp add: run_inv_def)
  let ?active = "is_active (child_state e)"
  let ?policy = "cd_shutdown_policy (child_definition_of e)"
  let ?p = "\<lparr>pr_reply = r, pr_policy = ?policy,
    pr_grace_deadline = rt_now s + (case grace ?policy of None \<Rightarrow> 0 | Some g \<Rightarrow> g),
    pr_grace_expired = False, pr_hard_abort_deadline = None\<rparr>"
  let ?f = "\<lambda>d. d\<lparr>ce_membership := MRemoving, ce_pending_removal := Some ?p,
    ce_runtime := (ce_runtime d)\<lparr>cr_state := (if ?active then Stopping else child_state d)\<rparr>\<rparr>"
  have "run_inv N M L (update_child k ?f s)" if "ce_membership e \<noteq> MRemoving"
    using inv_mark_removing [of N M ?p L s k e ?f] inv e that by simp
  then have "outcome_ok (run_inv N M L) tolerated (detach_start_member E k (ce_lineage e)
      (if ?active then if is_abort ?policy then abort_child k (publish_snapshot (update_child k ?f s))
                       else cancel_child k (publish_snapshot (update_child k ?f s))
       else publish_snapshot (update_child k ?f s)))"
    if "ce_membership e \<noteq> MRemoving"
    using that e by (intro ok_detach_start_member [OF E]) (auto intro!: inv_signal)
  with inv dyn Some e meta show ?thesis
    by (auto simp: remove_child_def Let_def intro!: outcome_ok_bind split: option.split)
qed

text \<open>Commands reach a dynamic scope only, and each insertion command carries its kind of child.\<close>

fun command_fits :: "supervisor_command \<Rightarrow> bool" where
  "command_fits (AddChild d r) \<longleftrightarrow> cd_kind d = ChildTask"
| "command_fits (RemoveChild i l r) \<longleftrightarrow> True"
| "command_fits (AddNested d r) \<longleftrightarrow> is_supervisor (cd_kind d)"

lemma ok_handle_command:
  assumes E: "env_ok E" and inv: "run_inv N M L s" and dyn: "rm_kind M = Dynamic"
    and lin: "hub_next_lineage (rt_hub s) < u64_max" and fits: "command_fits cmd"
  shows "outcome_ok (run_inv (Suc N) M L) tolerated (handle_command E cmd s)"
proof -
  let ?s = "s\<lparr>rt_received := rt_received s @ [command_reply cmd]\<rparr>"
  have inv1: "run_inv N M (add_mset (command_reply cmd) L) ?s" and lin1: "hub_next_lineage (rt_hub ?s) < u64_max"
    using inv lin by (simp_all add: run_inv_def ledger_def consistent_def)
  show ?thesis
  proof (cases cmd)
    case (AddChild d r)
    with fits ok_complete_command [OF ok_add_child [OF E inv1 dyn lin1]] show ?thesis
      by (simp add: handle_command_def)
  next
    case (RemoveChild i l r)
    with ok_remove_child [OF E _ dyn, of "Suc N" r L ?s i l] run_inv_mono [OF inv1, of "Suc N"] show ?thesis
      by (simp add: handle_command_def)
  next
    case (AddNested d r)
    with fits obtain i where "cd_kind d = ChildSupervisor i" by (cases "cd_kind d") auto
    with AddNested ok_complete_command [OF ok_add_nested [OF E inv1 dyn lin1]] show ?thesis
      by (simp add: handle_command_def)
  qed
qed

end
