(* ===== verification/Runtime_Drain.thy ===== *)
theory Runtime_Drain
  imports Runtime_Control
begin

text \<open>
  Stopping children (\<open>runtime/shutdown.rs\<close>): the concurrent drain of dynamic scopes with its
  grace and hard-abort deadlines, the ordered drain that walks the children in reverse
  declaration order, and the handling of the joins both of them consume.

  A drain is an asynchronous loop.  What happens while it waits is a script of events, the
  environment's choice: a task's result becomes joinable, time passes, a task reaches its
  clean conclusion.  A wait whose script is exhausted is \<open>Blocked\<close>, so statements about all
  scripts are statements about every point at which a drain can be waiting.
\<close>

section \<open>Events, scopes and deadlines\<close>

datatype drain_event = DJoin joined | DElapse instant | DFinish nat

datatype drain_reason = DrainShutdown | DrainGroupRestart | DrainRestForOneRestart

datatype drain_scope = ScopeAll | ScopeSubset "nat list"

fun scope_contains :: "drain_scope \<Rightarrow> nat \<Rightarrow> bool" where
  "scope_contains ScopeAll k = True"
| "scope_contains (ScopeSubset ks) k = (k \<in> set ks)"

definition is_child_active :: "nat \<Rightarrow> runtime \<Rightarrow> bool" where
  "is_child_active k s =
     (case child_at s k of
        None \<Rightarrow> False
      | Some e \<Rightarrow> ce_membership e \<noteq> MRemoved \<and> is_active (child_state e))"

fun scope_drained :: "drain_scope \<Rightarrow> runtime \<Rightarrow> bool" where
  "scope_drained ScopeAll s = (rt_live_tasks s = 0)"
| "scope_drained (ScopeSubset ks) s = (\<not> (\<exists>k \<in> set ks. is_child_active k s))"

datatype drain_phase = GracePhase duration | HardAbortPhase

record drain_deadline =
  dd_key :: nat
  dd_at :: instant
  dd_phase :: drain_phase

section \<open>Signals to a group\<close>

definition group_cancel :: "runtime \<Rightarrow> runtime" where
  "group_cancel s =
     s\<lparr>rt_group_cancelled := True,
       rt_children := slab_map (on_runtime (\<lambda>r.
         case cr_active_token r of
           None \<Rightarrow> r
         | Some t \<Rightarrow> if tk_group t = rt_group s
                     then r\<lparr>cr_active_token := Some (t\<lparr>tk_cancelled := True\<rparr>)\<rparr> else r))
         (rt_children s)\<rparr>"

definition cancel_running_child :: "drain_scope \<Rightarrow> nat \<Rightarrow> runtime \<Rightarrow> runtime" where
  "cancel_running_child scope k s =
     (if \<not> scope_contains scope k then s
      else case child_at s k of
        None \<Rightarrow> s
      | Some e \<Rightarrow>
          if child_state e = Running \<or> child_state e = Starting
          then update_runtime k (\<lambda>r. r\<lparr>cr_completion := mark_cancelled (cr_completion r),
                 cr_state := Stopping,
                 cr_active_token := (case scope of
                     ScopeSubset ks \<Rightarrow> cancel_token (cr_active_token r)
                   | ScopeAll \<Rightarrow> cr_active_token r)\<rparr>) s
          else s)"

definition cancel_running_children :: "drain_scope \<Rightarrow> runtime \<Rightarrow> runtime" where
  "cancel_running_children scope s =
     (let s1 = fold (cancel_running_child scope) (rev (rt_child_order s)) s
      in case scope of ScopeAll \<Rightarrow> group_cancel s1 | ScopeSubset ks \<Rightarrow> s1)"

definition abort_matching_children :: "(nat \<Rightarrow> child_entry \<Rightarrow> bool) \<Rightarrow> runtime \<Rightarrow> runtime" where
  "abort_matching_children P s =
     fold (\<lambda>(k, e) s.
         if ce_membership e \<noteq> MRemoved \<and> is_active (child_state e) \<and> P k e
         then (case cr_abort_handle (ce_runtime e) of
                 None \<Rightarrow> s
               | Some t \<Rightarrow>
                   (update_runtime k (\<lambda>r. r\<lparr>cr_nested_abort_cascades := True\<rparr>) s)
                     \<lparr>rt_aborted := rt_aborted s @ [t]\<rparr>)
         else s) (slab_iter (rt_children s)) s"

section \<open>Names\<close>

fun join_names :: "string list \<Rightarrow> string" where
  "join_names [] = []"
| "join_names [n] = n"
| "join_names (n # ns) = n @ '', '' @ join_names ns"

definition collect_child_names :: "(nat \<Rightarrow> child_entry \<Rightarrow> bool) \<Rightarrow> runtime \<Rightarrow> string" where
  "collect_child_names P s =
     join_names (map (\<lambda>(k, e). ce_id e) (filter (\<lambda>(k, e). P k e) (slab_iter (rt_children s))))"

definition active_task_names :: "drain_scope \<Rightarrow> runtime \<Rightarrow> string" where
  "active_task_names scope s =
     collect_child_names (\<lambda>k e. scope_contains scope k \<and> ce_membership e \<noteq> MRemoved
       \<and> is_active (child_state e)) s"

definition max_cooperative_grace :: "drain_scope \<Rightarrow> runtime \<Rightarrow> duration option" where
  "max_cooperative_grace scope s =
     (case List.map_filter (\<lambda>(k, e).
             if \<not> scope_contains scope k \<or> ce_membership e = MRemoved \<or> \<not> is_active (child_state e)
             then None else grace (cd_shutdown_policy (child_definition_of e)))
           (slab_iter (rt_children s)) of
        [] \<Rightarrow> None
      | g # gs \<Rightarrow> Some (foldl max g gs))"

section \<open>Joins during a drain\<close>

definition handle_join_for_scope ::
    "runtime_env \<Rightarrow> joined \<Rightarrow> drain_scope \<Rightarrow> nat option \<Rightarrow> classified_exit list
       \<Rightarrow> classified_exit list runtime_run" where
  "handle_join_for_scope E j scope ordered_cursor deferred s =
     (case consume_joined_child j (join_next j s) of
        (Inl err, s1) \<Rightarrow> (Inl err, s1)
      | (Inr None, s1) \<Rightarrow> (Inr deferred, s1)
      | (Inr (Some c), s1) \<Rightarrow>
          let s2 = record_exit E (cx_key c) (cx_generation c) (cx_status c) s1 in
          (case child_at s2 (cx_key c) of
             None \<Rightarrow> (Inl Panic, s2)
           | Some e \<Rightarrow>
               if ce_membership e = MRemoving
               then (Inr deferred, finalize_removed_child (cx_key c) True s2)
               else
                 let naturally_completed =
                       (cx_status c = Completed \<and> is_clean (cr_completion (ce_runtime e)));
                     non_cursor =
                       (case ordered_cursor of None \<Rightarrow> False | Some cur \<Rightarrow> cur \<noteq> cx_key c)
                 in (Inr (if \<not> scope_contains scope (cx_key c) \<or> naturally_completed \<or> non_cursor
                          then deferred @ [c] else deferred), s2)))"

text \<open>
  The state after an event of the script; a join is delivered only for a task of the join set.
\<close>

definition elapse :: "instant \<Rightarrow> runtime \<Rightarrow> runtime" where
  "elapse t s = s\<lparr>rt_now := max (rt_now s) t\<rparr>"

fun drain_event_step ::
    "runtime_env \<Rightarrow> drain_scope \<Rightarrow> nat option \<Rightarrow> drain_event \<Rightarrow> classified_exit list
       \<Rightarrow> classified_exit list runtime_run" where
  "drain_event_step E scope cursor (DJoin j) deferred s =
     (if joined_id j \<in> set (rt_join_set s)
      then handle_join_for_scope E j scope cursor deferred s else (Inr deferred, s))"
| "drain_event_step E scope cursor (DElapse t) deferred s = (Inr deferred, elapse t s)"
| "drain_event_step E scope cursor (DFinish t) deferred s = (Inr deferred, task_marks_clean t s)"

section \<open>The ordered drain\<close>

definition ordered_abort_cursor_window :: duration where
  "ordered_abort_cursor_window = from_millis 1"

text \<open>
  Whether a wait is over without another event: the child is no longer active, the deadline has
  passed, or no task is left to join.
\<close>

definition wait_over :: "nat \<Rightarrow> instant option \<Rightarrow> runtime \<Rightarrow> bool option" where
  "wait_over k deadline s =
     (if \<not> is_child_active k s then Some False
      else if (case deadline of None \<Rightarrow> False | Some d \<Rightarrow> d \<le> rt_now s) then Some True
      else if rt_join_set s = [] then Some False
      else None)"

type_synonym 'a drain_run =
  "runtime \<Rightarrow> (halt + 'a \<times> classified_exit list \<times> drain_event list) \<times> runtime"

fun wait_for_ordered_child ::
    "runtime_env \<Rightarrow> nat \<Rightarrow> instant option \<Rightarrow> drain_scope \<Rightarrow> classified_exit list
       \<Rightarrow> drain_event list \<Rightarrow> bool drain_run" where
  "wait_for_ordered_child E k deadline scope deferred [] s =
     (case wait_over k deadline s of
        Some b \<Rightarrow> (Inr (b, deferred, []), s)
      | None \<Rightarrow> (Inl Blocked, s))"
| "wait_for_ordered_child E k deadline scope deferred (ev # script) s =
     (case wait_over k deadline s of
        Some b \<Rightarrow> (Inr (b, deferred, ev # script), s)
      | None \<Rightarrow>
          (case drain_event_step E scope (Some k) ev deferred s of
             (Inl err, s1) \<Rightarrow> (Inl err, s1)
           | (Inr deferred1, s1) \<Rightarrow>
               wait_for_ordered_child E k deadline scope deferred1 script s1))"

record drain_acc =
  da_deferred :: "classified_exit list"
  da_timed_out :: "string list"
  da_remaining :: "nat list"
  da_script :: "drain_event list"

definition begin_stop :: "nat \<Rightarrow> child_entry \<Rightarrow> runtime \<Rightarrow> runtime" where
  "begin_stop k e s =
     (let s1 = index_runtime k (\<lambda>r. r\<lparr>cr_state := Stopping\<rparr>) s
      in case grace (cd_shutdown_policy (child_definition_of e)) of
           None \<Rightarrow> abort_child k s1
         | Some g \<Rightarrow> cancel_child k s1)"

definition ordered_abort_window ::
    "runtime_env \<Rightarrow> drain_scope \<Rightarrow> nat \<Rightarrow> drain_acc \<Rightarrow> (runtime, halt, drain_acc) run" where
  "ordered_abort_window E scope k acc s =
     (case wait_for_ordered_child E k (Some (rt_now s + ordered_abort_cursor_window)) scope
             (da_deferred acc) (da_script acc) s of
        (Inl err, s1) \<Rightarrow> (Inl err, s1)
      | (Inr (still_active, deferred, script), s1) \<Rightarrow>
          (Inr (acc\<lparr>da_deferred := deferred, da_script := script,
                    da_remaining := da_remaining acc @ (if still_active then [k] else [])\<rparr>), s1))"

definition ordered_escalate ::
    "runtime_env \<Rightarrow> drain_reason \<Rightarrow> drain_scope \<Rightarrow> nat \<Rightarrow> string \<Rightarrow> duration \<Rightarrow> drain_acc
       \<Rightarrow> (runtime, halt, drain_acc) run" where
  "ordered_escalate E reason scope k i g acc s =
     (let acc1 = (if reason = DrainShutdown then acc\<lparr>da_timed_out := da_timed_out acc @ [i]\<rparr> else acc);
          s1 = escalate_child k s
      in case wait_for_ordered_child E k (Some (rt_now s1 + tidy_abort_beat g)) scope
                (da_deferred acc1) (da_script acc1) s1 of
           (Inl err, s2) \<Rightarrow> (Inl err, s2)
         | (Inr (hard_abort_needed, deferred, script), s2) \<Rightarrow>
             ordered_abort_window E scope k (acc1\<lparr>da_deferred := deferred, da_script := script\<rparr>)
               (if hard_abort_needed then abort_child k s2 else s2))"

definition ordered_stop_child ::
    "runtime_env \<Rightarrow> drain_reason \<Rightarrow> drain_scope \<Rightarrow> nat \<Rightarrow> drain_acc
       \<Rightarrow> (runtime, halt, drain_acc) run" where
  "ordered_stop_child E reason scope k acc s =
     (case child_at s k of
        None \<Rightarrow> (Inr acc, s)
      | Some e \<Rightarrow>
          if ce_membership e = MRemoved \<or> \<not> is_active (child_state e) then (Inr acc, s)
          else
            let s1 = begin_stop k e s in
            (case grace (cd_shutdown_policy (child_definition_of e)) of
               None \<Rightarrow> ordered_abort_window E scope k acc s1
             | Some g \<Rightarrow>
                 (case wait_for_ordered_child E k (Some (rt_now s1 + g)) scope
                         (da_deferred acc) (da_script acc) s1 of
                    (Inl err, s2) \<Rightarrow> (Inl err, s2)
                  | (Inr (expired, deferred, script), s2) \<Rightarrow>
                      let acc1 = acc\<lparr>da_deferred := deferred, da_script := script\<rparr>
                      in if expired then ordered_escalate E reason scope k (ce_id e) g acc1 s2
                         else (Inr acc1, s2))))"

fun ordered_walk ::
    "runtime_env \<Rightarrow> drain_reason \<Rightarrow> drain_scope \<Rightarrow> nat list \<Rightarrow> drain_acc
       \<Rightarrow> (runtime, halt, drain_acc) run" where
  "ordered_walk E reason scope [] acc s = (Inr acc, s)"
| "ordered_walk E reason scope (k # ks) acc s =
     (case ordered_stop_child E reason scope k acc s of
        (Inl err, s1) \<Rightarrow> (Inl err, s1)
      | (Inr acc1, s1) \<Rightarrow> ordered_walk E reason scope ks acc1 s1)"

text \<open>
  The straggler wait selects without bias: once the deadline has passed either a ready join or
  the timer may be taken, so a join of the script is still consumed there.
\<close>

fun straggler_loop ::
    "runtime_env \<Rightarrow> nat list \<Rightarrow> instant \<Rightarrow> drain_scope \<Rightarrow> classified_exit list
       \<Rightarrow> drain_event list \<Rightarrow> unit drain_run" where
  "straggler_loop E ks deadline scope deferred script s =
     (if \<not> (\<exists>k \<in> set ks. is_child_active k s) \<or> rt_join_set s = []
      then (Inr ((), deferred, script), s)
      else case script of
        [] \<Rightarrow> if deadline \<le> rt_now s then (Inr ((), deferred, []), s) else (Inl Blocked, s)
      | ev # rest \<Rightarrow>
          (case drain_event_step E scope None ev deferred s of
             (Inl err, s1) \<Rightarrow> (Inl err, s1)
           | (Inr deferred1, s1) \<Rightarrow>
               if (case ev of DElapse t \<Rightarrow> deadline \<le> rt_now s1 | _ \<Rightarrow> False)
               then (Inr ((), deferred1, rest), s1)
               else straggler_loop E ks deadline scope deferred1 rest s1))"

declare straggler_loop.simps [simp del]

definition wait_for_ordered_stragglers ::
    "runtime_env \<Rightarrow> nat list \<Rightarrow> duration option \<Rightarrow> drain_scope \<Rightarrow> classified_exit list
       \<Rightarrow> drain_event list \<Rightarrow> string drain_run" where
  "wait_for_ordered_stragglers E ks backstop scope deferred script s =
     (case (case backstop of
              None \<Rightarrow> (Inr ((), deferred, script), s)
            | Some b \<Rightarrow> straggler_loop E ks (rt_now s + b) scope deferred script s) of
        (Inl err, s1) \<Rightarrow> (Inl err, s1)
      | (Inr (_, deferred1, script1), s1) \<Rightarrow>
          (Inr (collect_child_names (\<lambda>k e. k \<in> set ks \<and> is_child_active k s1) s1,
                deferred1, script1), s1))"

definition close_commands :: "drain_reason \<Rightarrow> runtime \<Rightarrow> runtime" where
  "close_commands reason s =
     (if reason = DrainShutdown then s\<lparr>rt_commands_open := False\<rparr> else s)"

definition shutdown_timed_out_error :: "string \<Rightarrow> halt" where
  "shutdown_timed_out_error names = Exit (Failure (ShutdownTimedOut names))"

definition drain_children_ordered ::
    "runtime_env \<Rightarrow> drain_reason \<Rightarrow> drain_scope \<Rightarrow> drain_event list \<Rightarrow> unit drain_run" where
  "drain_children_ordered E reason scope script s =
     (let s0 = close_commands reason s;
          keys = filter (scope_contains scope) (rev (rt_child_order s0));
          backstop = max_cooperative_grace scope s0
      in case ordered_walk E reason scope keys
               \<lparr>da_deferred = [], da_timed_out = [], da_remaining = [], da_script = script\<rparr> s0 of
           (Inl err, s1) \<Rightarrow> (Inl err, s1)
         | (Inr acc, s1) \<Rightarrow>
             (case (if da_timed_out acc = [] \<and> da_remaining acc \<noteq> [] \<and> reason \<noteq> DrainShutdown
                    then wait_for_ordered_stragglers E (da_remaining acc) backstop scope
                           (da_deferred acc) (da_script acc) s1
                    else (Inr ([], da_deferred acc, da_script acc), s1)) of
                (Inl err, s2) \<Rightarrow> (Inl err, s2)
              | (Inr (stragglers, deferred, script1), s2) \<Rightarrow>
                  if da_timed_out acc \<noteq> []
                  then (Inl (shutdown_timed_out_error (join_names (da_timed_out acc))), s2)
                  else if stragglers \<noteq> [] then (Inl (shutdown_timed_out_error stragglers), s2)
                  else (Inr ((), deferred, script1), s2)))"

section \<open>The concurrent drain\<close>

definition initial_deadlines :: "drain_scope \<Rightarrow> runtime \<Rightarrow> drain_deadline list" where
  "initial_deadlines scope s =
     List.map_filter (\<lambda>(k, e).
       if \<not> scope_contains scope k \<or> ce_membership e = MRemoved \<or> \<not> is_active (child_state e)
       then None
       else map_option (\<lambda>g. \<lparr>dd_key = k, dd_at = rt_now s + g, dd_phase = GracePhase g\<rparr>)
              (grace (cd_shutdown_policy (child_definition_of e))))
       (slab_iter (rt_children s))"

text \<open>The joins that are ready right now: those at the front of the script.\<close>

fun drain_ready_joins ::
    "runtime_env \<Rightarrow> drain_scope \<Rightarrow> classified_exit list \<Rightarrow> drain_event list \<Rightarrow> unit drain_run" where
  "drain_ready_joins E scope deferred (DJoin j # script) s =
     (case drain_event_step E scope None (DJoin j) deferred s of
        (Inl err, s1) \<Rightarrow> (Inl err, s1)
      | (Inr deferred1, s1) \<Rightarrow> drain_ready_joins E scope deferred1 script s1)"
| "drain_ready_joins E scope deferred (DFinish t # script) s =
     drain_ready_joins E scope deferred script (task_marks_clean t s)"
| "drain_ready_joins E scope deferred script s = (Inr ((), deferred, script), s)"

definition grace_expired :: "instant \<Rightarrow> drain_deadline \<Rightarrow> duration option" where
  "grace_expired now d =
     (case dd_phase d of
        GracePhase g \<Rightarrow> if dd_at d \<le> now then Some g else None
      | HardAbortPhase \<Rightarrow> None)"

definition next_phase :: "instant \<Rightarrow> drain_deadline \<Rightarrow> drain_deadline" where
  "next_phase now d =
     (case grace_expired now d of
        None \<Rightarrow> d
      | Some g \<Rightarrow> d\<lparr>dd_phase := HardAbortPhase, dd_at := now + tidy_abort_beat g\<rparr>)"

definition hard_abort_due :: "instant \<Rightarrow> drain_deadline \<Rightarrow> bool" where
  "hard_abort_due now d \<longleftrightarrow> dd_phase d = HardAbortPhase \<and> dd_at d \<le> now"

text \<open>
  A child whose grace has expired is indexed for its id, which is reported only in a shutdown, and
  escalated.
\<close>

definition expire_grace ::
    "drain_reason \<Rightarrow> nat \<Rightarrow> string list \<times> runtime \<Rightarrow> string list \<times> runtime" where
  "expire_grace reason k p =
     (case p of (late, s) \<Rightarrow>
        (case child_at s k of
           None \<Rightarrow> (late, panic_if True s)
         | Some e \<Rightarrow>
             (if reason = DrainShutdown then late @ [ce_id e] else late, escalate_child k s)))"

definition fire_deadlines ::
    "drain_reason \<Rightarrow> drain_deadline list \<Rightarrow> string list \<Rightarrow> runtime
       \<Rightarrow> drain_deadline list \<times> string list \<times> runtime" where
  "fire_deadlines reason ds late s =
     (let now = rt_now s;
          expired = filter (\<lambda>d. grace_expired now d \<noteq> None) ds;
          (late1, s1) = fold (\<lambda>d. expire_grace reason (dd_key d)) expired (late, s);
          ds1 = map (next_phase now) ds;
          s2 = fold (\<lambda>d. abort_child (dd_key d)) (filter (hard_abort_due now) ds1) s1
      in (filter (\<lambda>d. \<not> hard_abort_due now d) ds1, late1, s2))"

definition phase_weight :: "drain_deadline \<Rightarrow> nat" where
  "phase_weight d = (case dd_phase d of GracePhase g \<Rightarrow> 2 | HardAbortPhase \<Rightarrow> 1)"

definition deadlines_weight :: "drain_deadline list \<Rightarrow> nat" where
  "deadlines_weight ds = sum_list (map phase_weight ds)"

lemma deadlines_weight_filter: "deadlines_weight (filter P ds) \<le> deadlines_weight ds"
  by (induction ds) (auto simp: deadlines_weight_def)

lemma tidy_abort_beat_pos: "0 < tidy_abort_beat g"
  by (simp add: tidy_abort_beat_def min_tidy_abort_beat_def max_tidy_abort_beat_def from_millis_def)

lemma next_phase_weight:
  "deadlines_weight (filter (\<lambda>d. \<not> hard_abort_due now d) (map (next_phase now) ds)) \<le> deadlines_weight ds"
  "\<exists>d \<in> set ds. dd_at d \<le> now \<Longrightarrow>
   deadlines_weight (filter (\<lambda>d. \<not> hard_abort_due now d) (map (next_phase now) ds)) < deadlines_weight ds"
proof -
  have step: "(if hard_abort_due now (next_phase now d) then 0 else phase_weight (next_phase now d))
      \<le> phase_weight d \<and>
    (dd_at d \<le> now \<longrightarrow>
      (if hard_abort_due now (next_phase now d) then 0 else phase_weight (next_phase now d))
        < phase_weight d)" for d
    by (cases "dd_phase d")
      (auto simp: hard_abort_due_def next_phase_def grace_expired_def phase_weight_def)
  show le: "deadlines_weight (filter (\<lambda>d. \<not> hard_abort_due now d) (map (next_phase now) ds))
      \<le> deadlines_weight ds" for ds
  proof (induction ds)
    case (Cons d ds)
    with step [of d] show ?case by (auto simp: deadlines_weight_def split: if_splits)
  qed (simp add: deadlines_weight_def)
  show "deadlines_weight (filter (\<lambda>d. \<not> hard_abort_due now d) (map (next_phase now) ds))
      < deadlines_weight ds" if "\<exists>d \<in> set ds. dd_at d \<le> now"
    using that
  proof (induction ds)
    case (Cons d ds)
    show ?case
    proof (cases "\<exists>d \<in> set ds. dd_at d \<le> now")
      case True
      with Cons.IH step [of d] show ?thesis by (auto simp: deadlines_weight_def split: if_splits)
    next
      case False
      with Cons.prems step [of d] le [of ds] show ?thesis
        by (auto simp: deadlines_weight_def split: if_splits)
    qed
  qed simp
qed

lemma fire_deadlines_weight:
  assumes "fire_deadlines reason ds late s = (ds2, late2, s2)" "d \<in> set ds" "dd_at d \<le> rt_now s"
  shows "deadlines_weight ds2 < deadlines_weight ds"
  using assms next_phase_weight(2) [of ds "rt_now s"] by (auto simp: fire_deadlines_def Let_def split: prod.splits)

text \<open>The loop of the concurrent drain, with the entries it gives up on left for its caller.\<close>

function drain_loop ::
    "runtime_env \<Rightarrow> drain_reason \<Rightarrow> drain_scope \<Rightarrow> drain_deadline list \<Rightarrow> classified_exit list
       \<Rightarrow> string list \<Rightarrow> drain_event list \<Rightarrow> string list drain_run" where
  "drain_loop E reason scope ds deferred late script s =
     (let ds1 = filter (\<lambda>d. is_child_active (dd_key d) s) ds in
      if scope_drained scope s \<or> ds1 = [] then (Inr (late, deferred, script), s)
      else if \<exists>d \<in> set ds1. dd_at d \<le> rt_now s
      then (case fire_deadlines reason ds1 late s of (ds2, late2, s2) \<Rightarrow>
              drain_loop E reason scope ds2 deferred late2 script s2)
      else if rt_join_set s = [] then (Inr (late, deferred, script), s)
      else case script of
        [] \<Rightarrow> (Inl Blocked, s)
      | ev # rest \<Rightarrow>
          (case drain_event_step E scope None ev deferred s of
             (Inl err, s1) \<Rightarrow> (Inl err, s1)
           | (Inr deferred1, s1) \<Rightarrow>
               drain_loop E reason scope ds1 deferred1 late rest s1))"
  by pat_completeness auto
termination
proof (relation "measures [\<lambda>(E, r, sc, ds, df, tm, script, s). length script,
    \<lambda>(E, r, sc, ds, df, tm, script, s). deadlines_weight ds]", goal_cases)
  case 2
  then show ?case
    by (auto intro!: less_le_trans [OF fire_deadlines_weight [OF sym] deadlines_weight_filter])
qed simp_all

declare drain_loop.simps [simp del]

definition drain_finish ::
    "runtime_env \<Rightarrow> drain_reason \<Rightarrow> drain_scope \<Rightarrow> string list \<Rightarrow> classified_exit list
       \<Rightarrow> drain_event list \<Rightarrow> unit drain_run" where
  "drain_finish E reason scope late deferred script s =
     (case (if active_task_names scope s \<noteq> []
            then drain_ready_joins E scope deferred script
                   (abort_matching_children (\<lambda>k e. scope_contains scope k) s)
            else (Inr ((), deferred, script), s)) of
        (Inl err, s1) \<Rightarrow> (Inl err, s1)
      | (Inr (_, deferred1, script1), s1) \<Rightarrow>
          let remaining = active_task_names scope s1 in
          if late \<noteq> [] then (Inl (shutdown_timed_out_error (join_names late)), s1)
          else if remaining \<noteq> [] \<and> reason \<noteq> DrainShutdown
          then (Inl (shutdown_timed_out_error remaining), s1)
          else (Inr ((), deferred1, script1), s1))"

definition drain_children ::
    "runtime_env \<Rightarrow> drain_reason \<Rightarrow> drain_scope \<Rightarrow> drain_event list \<Rightarrow> unit drain_run" where
  "drain_children E reason scope script s =
     (let s0 = close_commands reason s;
          deadlines = initial_deadlines scope s0;
          s1 = abort_matching_children (\<lambda>k e. scope_contains scope k
                 \<and> is_abort (cd_shutdown_policy (child_definition_of e))) s0
      in case drain_ready_joins E scope [] script s1 of
           (Inl err, s2) \<Rightarrow> (Inl err, s2)
         | (Inr (_, deferred, script1), s2) \<Rightarrow>
             if scope_drained scope s2 then (Inr ((), deferred, script1), s2)
             else (case drain_loop E reason scope deadlines deferred [] script1 s2 of
                     (Inl err, s3) \<Rightarrow> (Inl err, s3)
                   | (Inr (late, deferred1, script2), s3) \<Rightarrow>
                       drain_finish E reason scope late deferred1 script2 s3))"

section \<open>Entry points\<close>

definition drain_scope_for ::
    "runtime_env \<Rightarrow> drain_reason \<Rightarrow> drain_scope \<Rightarrow> drain_event list \<Rightarrow> unit drain_run" where
  "drain_scope_for E reason scope script s =
     (if rm_kind (rt_meta s) = Ordered then drain_children_ordered E reason scope script s
      else drain_children E reason scope script (cancel_running_children scope s))"

definition shutdown_all :: "runtime_env \<Rightarrow> drain_event list \<Rightarrow> unit runtime_run" where
  "shutdown_all E script s =
     (let s1 = send_event SupervisorStoppingEv (s\<lparr>rt_state := SupStopping, rt_stopping := True\<rparr>)
      in case drain_scope_for E DrainShutdown ScopeAll script s1 of
           (Inl err, s2) \<Rightarrow> (Inl err, s2)
         | (Inr _, s2) \<Rightarrow> (Inr (), finish s2))"

end
