(* ===== verification/Drain_Properties.thy ===== *)
theory Drain_Properties
  imports Runtime_Drain
begin

text \<open>
  What the two drains of \<open>Runtime_Drain\<close> guarantee, whatever their environment does: the
  runtime stays consistent and no reply is lost, no drain ever panics, activates a child or
  forgets an abort, the ordered drain stops children in reverse declaration order, and a
  restart drain that succeeds has stopped its whole scope.
\<close>

section \<open>Draining only calms\<close>

text \<open>
  From one state of a drain to a later one: an active child was active before with the same
  task, only the children of \<open>X\<close> may have been asked to stop in between, and an issued abort
  is not forgotten.
\<close>

definition calmed :: "bool \<Rightarrow> child_entry \<Rightarrow> child_entry \<Rightarrow> bool" where
  "calmed may_stop e e' \<longleftrightarrow>
     (is_active (child_state e') \<longrightarrow>
        is_active (child_state e) \<and>
        cr_abort_handle (ce_runtime e') = cr_abort_handle (ce_runtime e) \<and>
        (child_state e' = Stopping \<longrightarrow> child_state e = Stopping \<or> may_stop))"

definition calms :: "nat set \<Rightarrow> runtime \<Rightarrow> runtime \<Rightarrow> bool" where
  "calms X s s' \<longleftrightarrow>
     set (rt_aborted s) \<subseteq> set (rt_aborted s') \<and>
     (\<forall>k e'. child_at s' k = Some e' \<longrightarrow>
        (\<exists>e. child_at s k = Some e \<and> calmed (k \<in> X) e e'))"

lemma calms_child:
  "calms X s s' \<Longrightarrow> child_at s' k = Some e' \<Longrightarrow> \<exists>e. child_at s k = Some e \<and> calmed (k \<in> X) e e'"
  unfolding calms_def by blast

lemma calmed_refl [simp]: "calmed b e e"
  by (simp add: calmed_def)

lemma calms_refl [simp]: "calms X s s"
  by (simp add: calms_def)

lemma calms_trans: "calms X s s' \<Longrightarrow> calms Y s' s'' \<Longrightarrow> Y \<subseteq> X \<Longrightarrow> calms X s s''"
  unfolding calms_def calmed_def by (clarsimp, intro conjI) (blast, metis in_mono)

lemma calms_children:
  "rt_children s' = rt_children s \<Longrightarrow> set (rt_aborted s) \<subseteq> set (rt_aborted s') \<Longrightarrow> calms X s s'"
  by (simp add: calms_def)

lemma calms_core: "core s' = core s \<Longrightarrow> calms X s s'"
  using core_fields [of s' s] by (intro calms_children) simp_all

lemma calms_update:
  assumes "rt_children s' = slab_update k f (rt_children s)"
    and "set (rt_aborted s) \<subseteq> set (rt_aborted s')"
    and "\<And>e. child_at s k = Some e \<Longrightarrow> calmed (k \<in> X) e (f e)"
  shows "calms X s s'"
  using assms by (auto simp: calms_def split: if_splits)

lemma calms_update_runtime:
  assumes "\<And>r. cr_state (f r) = cr_state r \<and> cr_abort_handle (f r) = cr_abort_handle r"
  shows "calms X s (update_runtime k f s)"
  by (rule calms_update [where k = k and f = "on_runtime f"])
    (use assms in \<open>auto simp: update_runtime_def calmed_def\<close>)

lemma calms_index_runtime:
  assumes "\<And>r. cr_state (f r) = cr_state r \<and> cr_abort_handle (f r) = cr_abort_handle r"
  shows "calms X s (index_runtime k f s)"
  by (rule calms_update [where k = k and f = "on_runtime f"])
    (use assms in \<open>auto simp: index_children calmed_def index_runtime_def index_child_def\<close>)

lemma calms_signals [simp]:
  "calms X s (cancel_child k s)" "calms X s (abort_child k s)" "calms X s (escalate_child k s)"
  "calms X s (task_marks_clean t s)" "calms X s (elapse t s)"
  "calms X s (s\<lparr>rt_commands_open := b\<rparr>)"
proof -
  show "calms X s (cancel_child k s)" "calms X s (escalate_child k s)"
    by (simp_all add: cancel_child_def escalate_child_def calms_index_runtime)
  show "calms X s (abort_child k s)"
    by (rule calms_update [where k = k and f = "on_runtime (\<lambda>r. r\<lparr>cr_completion :=
          mark_cancelled (cr_completion r), cr_nested_abort_cascades := True\<rparr>)"])
      (auto simp: abort_child_def Let_def index_runtime_def index_child_def calmed_def split: option.split)
  show "calms X s (task_marks_clean t s)"
    by (auto simp: task_marks_clean_def calmed_def split: option.split intro!: calms_update)
  show "calms X s (elapse t s)" "calms X s (s\<lparr>rt_commands_open := b\<rparr>)"
    by (auto simp: elapse_def intro: calms_children)
qed

lemma detach_entry_aborted [simp]:
  "rt_aborted (detach_entry k e s) = rt_aborted s"
  "rt_children (detach_entry k e s) = slab_remove k (rt_children s)"
  by (simp_all add: detach_entry_def)

lemma retire_fields [simp]:
  "rt_aborted (retire_nested_identity i n s) = rt_aborted s"
  "rt_children (retire_nested_identity i n s) = rt_children s"
  by (simp_all add: retire_nested_identity_def terminal_identity_def)

lemma send_reply_fields [simp]:
  "rt_aborted (send_reply r a s) = rt_aborted s" "rt_children (send_reply r a s) = rt_children s"
  by (simp_all add: send_reply_def)

lemma finalize_children:
  "child_at s k \<noteq> None \<Longrightarrow>
   rt_children (finalize_removed_child k b s) = slab_remove k (rt_children s) \<and>
   rt_aborted (finalize_removed_child k b s) = rt_aborted s"
  by (auto simp: finalize_removed_child_def Let_def split: option.split)

lemma calms_finalize [simp]: "calms X s (finalize_removed_child k b s)"
proof (cases "child_at s k")
  case None
  then show ?thesis by (simp add: finalize_removed_child_def)
next
  case (Some e)
  with finalize_children [of s k b] show ?thesis by (auto simp: calms_def split: if_splits)
qed

lemma record_exit_children:
  "rt_children (record_exit E k g st s) = slab_update k (exit_entry E (rt_now s) st) (rt_children s)"
  "rt_aborted (record_exit E k g st s) = rt_aborted s"
  by (auto simp: record_exit_def Let_def slab_update_missing split: option.split)

lemma calms_record_exit [simp]: "calms X s (record_exit E k g st s)"
  by (rule calms_update) (auto simp: record_exit_children calmed_def)

lemma consume_children:
  assumes "consume_joined_child j (join_next j s) = (r, s1)"
  shows "calms X s s1"
proof -
  have "rt_children s1 = rt_children (join_next j s) \<and> rt_aborted s1 = rt_aborted (join_next j s)"
    using assms by (auto simp: consume_joined_child_def classify_join_def
        split: option.splits prod.splits sum.splits if_splits)
  moreover have "calms X s (join_next j s)"
    using calms_signals(4) [of X s "joined_id j"]
    by (auto simp: join_next_def Let_def calms_def split: joined.split sum.split)
  ultimately show ?thesis by (simp add: calms_def)
qed

section \<open>Soundness of the drains\<close>

definition tolerated_drain :: "halt \<Rightarrow> bool" where
  "tolerated_drain h \<longleftrightarrow> tolerated h \<or> h = Blocked"

lemma tolerated_drain_simps [simp]:
  "tolerated_drain Blocked" "tolerated_drain (shutdown_timed_out_error n)"
  by (simp_all add: tolerated_drain_def shutdown_timed_out_error_def)

text \<open>The only way a drain fails before its outcome is decided: it waits for an event.\<close>

definition only_blocked :: "halt \<Rightarrow> bool" where
  "only_blocked h \<longleftrightarrow> h = Blocked"

lemma only_blocked_simps [simp]: "only_blocked Blocked"
  by (simp add: only_blocked_def)

lemma outcome_ok_blocked: "outcome_ok I only_blocked p \<Longrightarrow> outcome_ok I tolerated_drain p"
  by (auto simp: outcome_ok_def only_blocked_def)

text \<open>A state of a drain that started in \<open>s0\<close>.\<close>

definition draining :: "u64 \<Rightarrow> runtime_meta \<Rightarrow> nat multiset \<Rightarrow> nat set \<Rightarrow> runtime \<Rightarrow> runtime \<Rightarrow> bool" where
  "draining N M L X s0 s \<longleftrightarrow> run_inv N M L s \<and> calms X s0 s"

lemma draining_step: "draining N M L X s0 s \<Longrightarrow> run_inv N M L s' \<Longrightarrow> calms X s s' \<Longrightarrow> draining N M L X s0 s'"
  unfolding draining_def using calms_trans by blast

lemma draining_signals:
  assumes d: "draining N M L X s0 s" and "child_at s k \<noteq> None"
  shows "draining N M L X s0 (cancel_child k s)" "draining N M L X s0 (abort_child k s)"
    "draining N M L X s0 (escalate_child k s)"
  by (rule draining_step [OF d]; use assms in \<open>simp add: draining_def inv_signal\<close>)+

lemma draining_events [simp]:
  assumes "draining N M L X s0 s"
  shows "draining N M L X s0 (task_marks_clean t s)"
    "draining N M L X s0 (elapse n s)" "draining N M L X s0 (finalize_removed_child k b s)"
    "draining N M L X s0 (close_commands reason s)"
  by (rule draining_step [OF assms]; use assms in
      \<open>auto simp: draining_def elapse_def close_commands_def\<close>;
      simp add: elapse_def [symmetric])+

lemma ok_handle_join_for_scope:
  assumes d: "draining N M L X s0 s" and t: "joined_id j \<in> set (rt_join_set s)"
  shows "outcome_ok (draining N M L X s0) only_blocked
    (handle_join_for_scope E j scope cursor deferred s)"
proof -
  have inv: "run_inv N M L s" using d by (simp add: draining_def)
  obtain r s1 where j: "consume_joined_child j (join_next j s) = (Inr r, s1)"
    using consume_joined_child_ok [OF inv t] by blast
  note c1 = consume_children [OF j, of X]
  show ?thesis
  proof (cases r)
    case None
    with j consume_joined_child_ok [OF inv t, of E Completed] draining_step [OF d _ c1] show ?thesis
      by (simp add: handle_join_for_scope_def)
  next
    case (Some c)
    let ?s2 = "record_exit E (cx_key c) (cx_generation c) (cx_status c) s1"
    from j Some consume_joined_child_ok [OF inv t, of E "cx_status c"]
    have s2: "run_inv N M L ?s2" "child_at ?s2 (cx_key c) \<noteq> None" by auto
    then obtain e where e: "child_at ?s2 (cx_key c) = Some e" by blast
    have "draining N M L X s0 ?s2"
      using draining_step [OF d s2(1)] calms_trans [OF c1 calms_record_exit] by blast
    with j Some e show ?thesis by (simp add: handle_join_for_scope_def Let_def)
  qed
qed

lemma ok_drain_event_step:
  assumes d: "draining N M L X s0 s"
  shows "outcome_ok (draining N M L X s0) only_blocked (drain_event_step E scope cursor ev deferred s)"
  using assms ok_handle_join_for_scope [OF assms] by (cases ev) simp_all

lemma ok_wait_for_ordered_child:
  "draining N M L X s0 s \<Longrightarrow>
   outcome_ok (draining N M L X s0) only_blocked
     (wait_for_ordered_child E k deadline scope deferred script s)"
proof (induction E k deadline scope deferred script s rule: wait_for_ordered_child.induct)
  case (1 E k deadline scope deferred s)
  then show ?case by (auto split: option.split)
next
  case (2 E k deadline scope deferred ev script s)
  then show ?case
    by (auto split: option.split intro!: outcome_ok_bind ok_drain_event_step)
qed

lemma active_present: "is_child_active k s \<Longrightarrow> child_at s k \<noteq> None"
  by (auto simp: is_child_active_def split: option.splits)

text \<open>A wait that runs into its deadline leaves a child that is still there.\<close>

lemma wait_true_active:
  "wait_for_ordered_child E k deadline scope deferred script s = (Inr (True, d, sc), s') \<Longrightarrow>
   is_child_active k s'"
  by (induction E k deadline scope deferred script s rule: wait_for_ordered_child.induct)
    (auto simp: wait_over_def split: option.splits if_splits prod.splits sum.splits)

lemma wait_true_present:
  "wait_for_ordered_child E k deadline scope deferred script s = (Inr (b, d, sc), s') \<Longrightarrow> b \<Longrightarrow>
   child_at s' k \<noteq> None"
  using active_present [OF wait_true_active] by simp

lemma outcome_ok_drain_bind:
  assumes "outcome_ok I Q p"
    and "\<And>x d sc s. I s \<Longrightarrow> p = (Inr (x, d, sc), s) \<Longrightarrow> outcome_ok I Q (f x d sc s)"
  shows "outcome_ok I Q
    (case p of (Inl e, s) \<Rightarrow> (Inl e, s) | (Inr (x, d, sc), s) \<Rightarrow> f x d sc s)"
  using assms by (cases p; cases "fst p") auto

lemma ok_ordered_abort_window:
  assumes "draining N M L X s0 s"
  shows "outcome_ok (draining N M L X s0) only_blocked (ordered_abort_window E scope k acc s)"
  unfolding ordered_abort_window_def
  by (rule outcome_ok_drain_bind [OF ok_wait_for_ordered_child [OF assms]]) simp

lemma ok_ordered_escalate:
  assumes "draining N M L X s0 s" and "child_at s k \<noteq> None"
  shows "outcome_ok (draining N M L X s0) only_blocked (ordered_escalate E reason scope k i g acc s)"
  unfolding ordered_escalate_def Let_def
proof (intro outcome_ok_drain_bind ok_wait_for_ordered_child ok_ordered_abort_window)
  show "draining N M L X s0 (escalate_child k s)" using assms by (rule draining_signals)
  fix b d sc s2
  assume d2: "draining N M L X s0 s2"
    and w: "wait_for_ordered_child E k (Some (rt_now (escalate_child k s) + tidy_abort_beat g)) scope
      (da_deferred (if reason = DrainShutdown then acc\<lparr>da_timed_out := da_timed_out acc @ [i]\<rparr> else acc))
      (da_script (if reason = DrainShutdown then acc\<lparr>da_timed_out := da_timed_out acc @ [i]\<rparr> else acc))
      (escalate_child k s) = (Inr (b, d, sc), s2)"
  show "draining N M L X s0 (if b then abort_child k s2 else s2)"
    using d2 draining_signals(2) wait_true_present [OF w] by (cases b) simp_all
qed

lemma draining_begin_stop:
  assumes d: "draining N M L X s0 s" and e: "child_at s k = Some e" "is_active (child_state e)" and "k \<in> X"
  shows "draining N M L X s0 (begin_stop k e s)"
proof -
  let ?s = "update_runtime k (\<lambda>r. r\<lparr>cr_state := Stopping\<rparr>) s"
  have "run_inv N M L ?s"
    using d e by (intro inv_update_runtime) (auto simp: draining_def entry_ok_def has_task_def)
  moreover have "calms X s ?s"
    using e assms(4) by (intro calms_update) (auto simp: update_runtime_def calmed_def)
  ultimately have "draining N M L X s0 ?s" by (rule draining_step [OF d])
  moreover have "child_at ?s k \<noteq> None" using e(1) by (simp add: update_runtime_def)
  ultimately show ?thesis
    using e(1) by (auto simp: begin_stop_def Let_def index_runtime_present draining_signals split: option.split)
qed

lemma ok_ordered_stop_child:
  assumes d: "draining N M L X s0 s" and "k \<in> X"
  shows "outcome_ok (draining N M L X s0) only_blocked (ordered_stop_child E reason scope k acc s)"
proof (cases "child_at s k")
  case None
  with d show ?thesis by (simp add: ordered_stop_child_def)
next
  case (Some e)
  show ?thesis
  proof (cases "ce_membership e = MRemoved \<or> \<not> is_active (child_state e)")
    case True
    with d Some show ?thesis by (auto simp: ordered_stop_child_def)
  next
    case False
    then have "draining N M L X s0 (begin_stop k e s)"
      using draining_begin_stop [OF d Some] assms(2) by simp
    then show ?thesis
      using Some False
      by (auto simp: ordered_stop_child_def Let_def split: option.split
          intro!: outcome_ok_drain_bind ok_wait_for_ordered_child ok_ordered_abort_window
            ok_ordered_escalate dest: wait_true_present)
  qed
qed

lemma ok_ordered_walk:
  "draining N M L X s0 s \<Longrightarrow> set ks \<subseteq> X \<Longrightarrow>
   outcome_ok (draining N M L X s0) only_blocked (ordered_walk E reason scope ks acc s)"
  by (induction ks arbitrary: acc s) (auto intro!: outcome_ok_bind ok_ordered_stop_child)

lemma ok_straggler_loop:
  "draining N M L X s0 s \<Longrightarrow>
   outcome_ok (draining N M L X s0) only_blocked (straggler_loop E ks deadline scope deferred script s)"
proof (induction script arbitrary: deferred s)
  case Nil
  then show ?case by (simp add: straggler_loop.simps)
next
  case (Cons ev script)
  then show ?case
    by (subst straggler_loop.simps) (auto intro!: outcome_ok_bind ok_drain_event_step)
qed

lemma ok_wait_for_ordered_stragglers:
  assumes "draining N M L X s0 s"
  shows "outcome_ok (draining N M L X s0) only_blocked
    (wait_for_ordered_stragglers E ks backstop scope deferred script s)"
  unfolding wait_for_ordered_stragglers_def using assms
  by (intro outcome_ok_drain_bind) (auto split: option.split intro: ok_straggler_loop)

lemma ok_drain_children_ordered:
  assumes d: "draining N M L X s0 s" and "\<And>k. k \<in> set (rt_child_order s) \<Longrightarrow> scope_contains scope k \<Longrightarrow> k \<in> X"
  shows "outcome_ok (draining N M L X s0) tolerated_drain
    (drain_children_ordered E reason scope script s)"
proof -
  let ?s = "close_commands reason s"
  have ord: "rt_child_order ?s = rt_child_order s" by (simp add: close_commands_def)
  have "set (filter (scope_contains scope) (rev (rt_child_order ?s))) \<subseteq> X"
    using assms(2) by (auto simp: ord)
  with d show ?thesis unfolding drain_children_ordered_def Let_def
    by (intro outcome_ok_bind outcome_ok_blocked [OF ok_ordered_walk])
      (auto intro!: outcome_ok_drain_bind outcome_ok_blocked [OF ok_wait_for_ordered_stragglers]
        split: if_splits)
qed

section \<open>Soundness of the concurrent drain\<close>

lemma slab_collect_map:
  "(\<And>v. g (f v) = g v) \<Longrightarrow> slab_collect g (slab_map f sl) = slab_collect g sl"
  unfolding slab_collect_def slab_map_def
  by (rule arg_cong [where f = mset], rule arg_cong [where f = concat])
    (auto split: option.split)

lemma consistent_slab_map:
  assumes c: "consistent s" and f: "\<And>e. same_task e (f e) \<and> (entry_ok e \<longrightarrow> entry_ok (f e))"
  shows "consistent (s\<lparr>rt_children := slab_map f (rt_children s)\<rparr>)"
proof -
  have meta: "task_meta_of k (f e) = task_meta_of k e" for k e
    using f [of e] by (simp add: task_meta_of_def same_task_def)
  have "slab_count has_task (slab_map f (rt_children s)) = slab_count has_task (rt_children s)"
    using f by (intro slab_count_map) (auto simp: has_task_def same_task_def)
  moreover have "tasks_ok (slab_map f (rt_children s)) (rt_join_set s) (rt_task_map s)
      (hub_next_lineage (rt_hub s))"
  proof (rule tasks_okI)
    note t = consistent_tasks [OF c]
    show "distinct (rt_join_set s)" "dom (rt_task_map s) = set (rt_join_set s)"
      using tasks_ok_dom [OF t] by simp_all
    show "rt_task_map s u = Some (task_meta_of k e)"
      if "slab_get (slab_map f (rt_children s)) k = Some e" "cr_abort_handle (ce_runtime e) = Some u"
      for k e u
      using that tasks_ok_child [OF t] f by (auto simp: meta same_task_def)
    show "tm_lineage m < hub_next_lineage (rt_hub s)" if "rt_task_map s u = Some m" for u m
      using tasks_ok_lineage [OF t that] .
    show "cr_abort_handle (ce_runtime e) = Some u \<and> m = task_meta_of (tm_key m) e"
      if "rt_task_map s u = Some m" "slab_get (slab_map f (rt_children s)) (tm_key m) = Some e"
        "ce_lineage e = tm_lineage m" for u m e
    proof -
      from that(2) obtain d where d: "child_at s (tm_key m) = Some d" "e = f d" by auto
      with that(3) f [of d] have "ce_lineage d = tm_lineage m" by (simp add: same_task_def)
      with tasks_ok_meta [OF t that(1) d(1)] d(2) f [of d] show ?thesis
        by (simp add: meta same_task_def)
    qed
  qed
  moreover have "order_ok (slab_map f (rt_children s)) (rt_child_order s)"
    using c by (simp add: consistent_def order_ok_def)
  moreover have "index_ok (slab_map f (rt_children s)) (rt_children_by_id s)"
    using c f unfolding consistent_def index_ok_def same_task_def by (auto simp: option.map_sel)
  moreover have "entries_ok (slab_map f (rt_children s)) (hub_next_lineage (rt_hub s))"
    using c f by (auto simp: consistent_def entries_ok_def same_task_def)
  ultimately show ?thesis using c by (simp add: consistent_def)
qed

lemma inv_slab_map:
  assumes "run_inv N M L s" and "\<And>e. same_task e (f e) \<and> (entry_ok e \<longrightarrow> entry_ok (f e))"
    and "\<And>e. ce_pending_removal (f e) = ce_pending_removal e"
  shows "run_inv N M L (s\<lparr>rt_children := slab_map f (rt_children s)\<rparr>)"
  using assms(1) consistent_slab_map [OF inv_wf [OF assms(1)] assms(2)]
    slab_collect_map [of pending_replies f "rt_children s"] assms(3)
  by (simp add: run_inv_def ledger_def pending_replies_def)

lemma draining_group_cancel:
  assumes d: "draining N M L X s0 s"
  shows "draining N M L X s0 (group_cancel s)"
proof (rule draining_step [OF d])
  let ?f = "on_runtime (\<lambda>r. case cr_active_token r of None \<Rightarrow> r
      | Some t \<Rightarrow> if tk_group t = rt_group s
                  then r\<lparr>cr_active_token := Some (t\<lparr>tk_cancelled := True\<rparr>)\<rparr> else r)"
  have f: "same_task e (?f e)" "entry_ok e \<longrightarrow> entry_ok (?f e)" "calmed b e (?f e)" for e b
    by (auto simp: same_task_def entry_ok_def has_task_def calmed_def split: option.splits)
  have "run_inv N M L (s\<lparr>rt_children := slab_map ?f (rt_children s)\<rparr>)"
    using d f by (intro inv_slab_map) (auto simp: draining_def)
  moreover have "group_cancel s =
      (s\<lparr>rt_children := slab_map ?f (rt_children s)\<rparr>)\<lparr>rt_group_cancelled := True\<rparr>"
    by (simp add: group_cancel_def)
  ultimately show "run_inv N M L (group_cancel s)" by (simp only: inv_irrelevant)
  show "calms X s (group_cancel s)" using f by (auto simp: calms_def group_cancel_def)
qed

lemma draining_cancel_running_child:
  assumes d: "draining N M L X s0 s" and "scope_contains scope k \<Longrightarrow> k \<in> X"
  shows "draining N M L X s0 (cancel_running_child scope k s)"
proof (cases "scope_contains scope k \<and> (\<exists>e. child_at s k = Some e \<and>
    (child_state e = Running \<or> child_state e = Starting))")
  case False
  with d show ?thesis by (auto simp: cancel_running_child_def split: option.split)
next
  case True
  then obtain e where e: "child_at s k = Some e" "child_state e = Running \<or> child_state e = Starting"
    by blast
  let ?f = "\<lambda>r. r\<lparr>cr_completion := mark_cancelled (cr_completion r), cr_state := Stopping,
     cr_active_token := (case scope of ScopeSubset ks \<Rightarrow> cancel_token (cr_active_token r)
                         | ScopeAll \<Rightarrow> cr_active_token r)\<rparr>"
  have "run_inv N M L (update_runtime k ?f s)"
    using d e by (intro inv_update_runtime) (auto simp: draining_def entry_ok_def has_task_def)
  moreover have "calms X s (update_runtime k ?f s)"
    by (rule calms_update [where k = k and f = "on_runtime ?f"])
      (use e True assms(2) in \<open>auto simp: update_runtime_def calmed_def\<close>)
  ultimately have "draining N M L X s0 (update_runtime k ?f s)" by (rule draining_step [OF d])
  with e True show ?thesis by (simp add: cancel_running_child_def)
qed

lemma draining_fold:
  assumes "draining N M L X s0 s"
    and "\<And>x s. x \<in> set xs \<Longrightarrow> draining N M L X s0 s \<Longrightarrow> draining N M L X s0 (g x s)"
  shows "draining N M L X s0 (fold g xs s)"
  using assms by (induction xs arbitrary: s) auto

lemma draining_cancel_running_children:
  assumes d: "draining N M L X s0 s"
    and "\<And>k. k \<in> set (rt_child_order s) \<Longrightarrow> scope_contains scope k \<Longrightarrow> k \<in> X"
  shows "draining N M L X s0 (cancel_running_children scope s)"
proof -
  have "draining N M L X s0 (fold (cancel_running_child scope) (rev (rt_child_order s)) s)"
    using assms by (intro draining_fold draining_cancel_running_child) auto
  then show ?thesis
    by (cases scope) (simp_all add: cancel_running_children_def Let_def draining_group_cancel)
qed

lemma draining_cascade:
  assumes "draining N M L X s0 s"
  shows "draining N M L X s0 ((update_runtime k (\<lambda>r. r\<lparr>cr_nested_abort_cascades := True\<rparr>) s)
           \<lparr>rt_aborted := rt_aborted s @ [t]\<rparr>)"
proof (rule draining_step [OF assms])
  have "run_inv N M L (update_runtime k (\<lambda>r. r\<lparr>cr_nested_abort_cascades := True\<rparr>) s)"
    using assms by (intro inv_update_runtime) (auto simp: draining_def entry_ok_def has_task_def)
  then show "run_inv N M L ((update_runtime k (\<lambda>r. r\<lparr>cr_nested_abort_cascades := True\<rparr>) s)
      \<lparr>rt_aborted := rt_aborted s @ [t]\<rparr>)" by simp
  show "calms X s ((update_runtime k (\<lambda>r. r\<lparr>cr_nested_abort_cascades := True\<rparr>) s)
      \<lparr>rt_aborted := rt_aborted s @ [t]\<rparr>)"
    by (rule calms_update [where k = k and f = "on_runtime (\<lambda>r. r\<lparr>cr_nested_abort_cascades := True\<rparr>)"])
      (auto simp: update_runtime_def calmed_def)
qed

lemma draining_abort_matching [simp]:
  assumes "draining N M L X s0 s"
  shows "draining N M L X s0 (abort_matching_children P s)"
  unfolding abort_matching_children_def using assms
  by (intro draining_fold) (auto split: option.split intro: draining_cascade)

lemma ok_drain_ready_joins:
  "draining N M L X s0 s \<Longrightarrow>
   outcome_ok (draining N M L X s0) only_blocked (drain_ready_joins E scope deferred script s)"
  by (induction E scope deferred script s rule: drain_ready_joins.induct)
    (auto intro!: outcome_ok_bind ok_handle_join_for_scope)

text \<open>Firing the deadlines of children that are still active reaches no vacant key.\<close>

lemma next_phase_key [simp]: "dd_key (next_phase now d) = dd_key d"
  by (simp add: next_phase_def split: option.split)

lemma draining_expire_grace:
  "draining N M L X s0 s \<Longrightarrow> \<forall>d \<in> set ds. child_at s (dd_key d) \<noteq> None \<Longrightarrow>
   fold (\<lambda>d. expire_grace reason (dd_key d)) ds (late, s) = (late1, s1) \<Longrightarrow>
   draining N M L X s0 s1 \<and> (\<forall>k. child_at s1 k = None \<longleftrightarrow> child_at s k = None)"
proof (induction ds arbitrary: late s)
  case (Cons d ds)
  then obtain e where e: "child_at s (dd_key d) = Some e" by auto
  have "draining N M L X s0 (escalate_child (dd_key d) s)"
    using Cons.prems(1) e by (simp add: draining_signals)
  from Cons.IH [OF this] Cons.prems e show ?case by (auto simp: expire_grace_def)
qed simp

lemma draining_hard_abort:
  "draining N M L X s0 s \<Longrightarrow> \<forall>d \<in> set ds. child_at s (dd_key d) \<noteq> None \<Longrightarrow>
   draining N M L X s0 (fold (\<lambda>d. abort_child (dd_key d)) ds s)"
  by (induction ds arbitrary: s) (auto simp: draining_signals)

lemma draining_fire:
  assumes d: "draining N M L X s0 s" and present: "\<forall>d \<in> set ds. child_at s (dd_key d) \<noteq> None"
    and fire: "fire_deadlines reason ds late s = (ds2, late2, s2)"
  shows "draining N M L X s0 s2"
proof -
  let ?expired = "filter (\<lambda>d. grace_expired (rt_now s) d \<noteq> None) ds"
  obtain late1 s1 where f: "fold (\<lambda>d. expire_grace reason (dd_key d)) ?expired (late, s) = (late1, s1)"
    by (cases "fold (\<lambda>d. expire_grace reason (dd_key d)) ?expired (late, s)")
  with fire have "s2 = fold (\<lambda>d. abort_child (dd_key d))
      (filter (hard_abort_due (rt_now s)) (map (next_phase (rt_now s)) ds)) s1"
    by (simp add: fire_deadlines_def Let_def)
  then show ?thesis
    using draining_expire_grace [OF d _ f] present
    by (simp only:, intro draining_hard_abort) (auto simp del: not_None_eq)
qed

lemma ok_drain_loop:
  "draining N M L X s0 s \<Longrightarrow>
   outcome_ok (draining N M L X s0) only_blocked (drain_loop E reason scope ds deferred late script s)"
proof (induction E reason scope ds deferred late script s rule: drain_loop.induct)
  case (1 E reason scope ds deferred late script s)
  let ?ds = "filter (\<lambda>d. is_child_active (dd_key d) s) ds"
  show ?case
  proof (cases "scope_drained scope s \<or> ?ds = []")
    case True
    with "1.prems" show ?thesis by (subst drain_loop.simps) (auto simp: Let_def)
  next
    case go: False
    show ?thesis
    proof (cases "\<exists>d \<in> set ?ds. dd_at d \<le> rt_now s")
      case True
      obtain ds2 late2 s2 where fire: "fire_deadlines reason ?ds late s = (ds2, late2, s2)"
        by (cases "fire_deadlines reason ?ds late s") auto
      have "\<forall>d \<in> set ?ds. child_at s (dd_key d) \<noteq> None" using active_present by auto
      note rec = "1.IH"(1) [OF refl go True fire [symmetric] refl draining_fire [OF "1.prems" this fire]]
      show ?thesis using go True rec by (subst drain_loop.simps) (simp add: Let_def fire)
    next
      case late: False
      show ?thesis
      proof (cases "rt_join_set s = [] \<or> script = []")
        case True
        with go late "1.prems" show ?thesis by (subst drain_loop.simps) (auto simp: Let_def)
      next
        case False
        then obtain ev rest where script: "script = ev # rest" by (cases script) auto
        have "outcome_ok (draining N M L X s0) only_blocked
            (case drain_event_step E scope None ev deferred s of
               (Inl err, s1) \<Rightarrow> (Inl err, s1)
             | (Inr deferred1, s1) \<Rightarrow> drain_loop E reason scope ?ds deferred1 late rest s1)"
        proof (rule outcome_ok_bind [OF ok_drain_event_step [OF "1.prems"]])
          fix x s1 assume "draining N M L X s0 s1" "drain_event_step E scope None ev deferred s = (Inr x, s1)"
          with "1.IH"(2) [OF refl go late _ script] False show
            "outcome_ok (draining N M L X s0) only_blocked (drain_loop E reason scope ?ds x late rest s1)"
            by simp
        qed
        with go late False script show ?thesis
          by (subst drain_loop.simps) (simp add: Let_def)
      qed
    qed
  qed
qed

lemma ok_drain_finish:
  assumes "draining N M L X s0 s"
  shows "outcome_ok (draining N M L X s0) tolerated_drain
    (drain_finish E reason scope late deferred script s)"
  unfolding drain_finish_def using assms
  by (intro outcome_ok_drain_bind) (auto simp: Let_def intro!: outcome_ok_blocked [OF ok_drain_ready_joins] split: if_splits)

lemma ok_drain_children:
  assumes "draining N M L X s0 s"
  shows "outcome_ok (draining N M L X s0) tolerated_drain (drain_children E reason scope script s)"
  unfolding drain_children_def Let_def using assms
  by (intro outcome_ok_drain_bind outcome_ok_blocked [OF ok_drain_ready_joins])
    (auto intro!: outcome_ok_drain_bind outcome_ok_blocked [OF ok_drain_loop] ok_drain_finish)

lemma ok_drain_scope_for:
  assumes "draining N M L X s0 s"
    and "\<And>k. k \<in> set (rt_child_order s) \<Longrightarrow> scope_contains scope k \<Longrightarrow> k \<in> X"
  shows "outcome_ok (draining N M L X s0) tolerated_drain (drain_scope_for E reason scope script s)"
  using assms
  by (simp add: drain_scope_for_def ok_drain_children_ordered ok_drain_children
      draining_cancel_running_children)

lemma inv_drain_scope_for:
  assumes "run_inv N M L s"
  shows "outcome_ok (run_inv N M L) tolerated_drain (drain_scope_for E reason scope script s)"
proof -
  have "outcome_ok (draining N M L UNIV s) tolerated_drain (drain_scope_for E reason scope script s)"
    using assms by (intro ok_drain_scope_for) (simp_all add: draining_def)
  then show ?thesis by (simp add: outcome_ok_def draining_def)
qed

lemma inv_shutdown_all:
  assumes "run_inv N M L s"
  shows "outcome_ok (run_inv N M L) tolerated_drain (shutdown_all E script s)"
  unfolding shutdown_all_def Let_def
  by (rule outcome_ok_bind [OF inv_drain_scope_for]) (use assms in \<open>simp_all add: finish_def\<close>)

section \<open>A drained scope has stopped\<close>

lemma draining_refl: "run_inv N M L s \<Longrightarrow> draining N M L X s s"
  by (simp add: draining_def)

lemma calms_inactive: "calms X s s' \<Longrightarrow> \<not> is_child_active k s \<Longrightarrow> consistent s \<Longrightarrow> \<not> is_child_active k s'"
proof (cases "child_at s' k")
  case (Some e')
  assume c: "calms X s s'" and i: "\<not> is_child_active k s" and ok: "consistent s"
  from calms_child [OF c Some] obtain e where e: "child_at s k = Some e" "calmed (k \<in> X) e e'"
    by blast
  with i wf_entry [OF ok e(1)] Some show ?thesis
    by (auto simp: is_child_active_def calmed_def entry_ok_def)
qed (simp add: is_child_active_def)

lemma no_tasks_inactive:
  assumes c: "consistent s" and "rt_join_set s = []"
  shows "\<not> is_child_active k s"
proof (cases "child_at s k")
  case (Some e)
  have "rt_task_map s t = None" for t
    using tasks_ok_dom [OF consistent_tasks [OF c]] assms(2) by auto
  with tasks_ok_child [OF consistent_tasks [OF c] Some] have "cr_abort_handle (ce_runtime e) = None"
    by (metis option.exhaust option.distinct(1))
  with wf_entry [OF c Some] Some show ?thesis
    by (simp add: is_child_active_def entry_ok_def has_task_def)
qed (simp add: is_child_active_def)

lemma no_live_tasks_inactive:
  assumes c: "consistent s" and "rt_live_tasks s = 0"
  shows "\<not> is_child_active k s"
  using assms wf_entry [OF c, of k]
  by (auto simp: consistent_def slab_count_zero_iff is_child_active_def entry_ok_def
      split: option.splits)

lemma wait_over_inactive:
  "consistent s \<Longrightarrow> wait_over k deadline s = Some False \<Longrightarrow> \<not> is_child_active k s"
  using no_tasks_inactive by (auto simp: wait_over_def split: if_splits)

lemma wait_false_inactive:
  "run_inv N M L s \<Longrightarrow>
   wait_for_ordered_child E k deadline scope deferred script s = (Inr (False, d, sc), s') \<Longrightarrow>
   \<not> is_child_active k s'"
proof (induction E k deadline scope deferred script s rule: wait_for_ordered_child.induct)
  case (1 E k deadline scope deferred s)
  then show ?case by (auto dest!: inv_wf dest: wait_over_inactive split: option.splits)
next
  case (2 E k deadline scope deferred ev script s)
  show ?case
  proof (cases "wait_over k deadline s")
    case (Some b)
    with "2.prems" show ?thesis by (auto dest!: inv_wf dest: wait_over_inactive)
  next
    case None
    obtain r s1 where step: "drain_event_step E scope (Some k) ev deferred s = (r, s1)"
      by (cases "drain_event_step E scope (Some k) ev deferred s")
    from ok_drain_event_step [OF draining_refl [OF "2.prems"(1)], of UNIV E scope "Some k" ev deferred] step
    have "run_inv N M L s1" by (cases r) (simp_all add: draining_def)
    with "2.IH" [OF None step [symmetric]] "2.prems" None step show ?thesis
      by (cases r) simp_all
  qed
qed

lemma abort_window_remaining:
  assumes "run_inv N M L s" and "ordered_abort_window E scope k acc s = (Inr acc', s')"
  shows "(\<not> is_child_active k s' \<or> k \<in> set (da_remaining acc')) \<and>
    set (da_remaining acc) \<subseteq> set (da_remaining acc')"
proof -
  obtain b d sc where w: "wait_for_ordered_child E k (Some (rt_now s + ordered_abort_cursor_window))
      scope (da_deferred acc) (da_script acc) s = (Inr (b, d, sc), s')"
    using assms(2) by (auto simp: ordered_abort_window_def split: prod.splits sum.splits)
  with assms(2) wait_false_inactive [OF assms(1)] show ?thesis
    by (cases b) (auto simp: ordered_abort_window_def)
qed

lemma escalate_remaining:
  assumes inv: "run_inv N M L s" and "ordered_escalate E reason scope k i g acc s = (Inr acc', s')"
    and present: "child_at s k \<noteq> None"
  shows "(\<not> is_child_active k s' \<or> k \<in> set (da_remaining acc')) \<and>
    set (da_remaining acc) \<subseteq> set (da_remaining acc')"
proof -
  let ?acc = "if reason = DrainShutdown then acc\<lparr>da_timed_out := da_timed_out acc @ [i]\<rparr> else acc"
  let ?s = "escalate_child k s"
  obtain b d sc s2 where w: "wait_for_ordered_child E k (Some (rt_now ?s + tidy_abort_beat g)) scope
      (da_deferred ?acc) (da_script ?acc) ?s = (Inr (b, d, sc), s2)"
    using assms(2) by (auto simp: ordered_escalate_def Let_def split: prod.splits sum.splits)
  have "run_inv N M L s2"
    using ok_wait_for_ordered_child [OF draining_refl, of N M L ?s UNIV E k
        "Some (rt_now ?s + tidy_abort_beat g)" scope "da_deferred ?acc" "da_script ?acc"] w
      inv_signal(3) [OF inv present]
    by (simp add: draining_def)
  then have "run_inv N M L (if b then abort_child k s2 else s2)"
    using wait_true_present [OF w] by (cases b) (simp_all add: inv_signal)
  from abort_window_remaining [OF this] assms(2) w show ?thesis
    by (fastforce simp: ordered_escalate_def Let_def)
qed

lemma stop_child_remaining:
  assumes inv: "run_inv N M L s" and "ordered_stop_child E reason scope k acc s = (Inr acc', s')"
  shows "(\<not> is_child_active k s' \<or> k \<in> set (da_remaining acc')) \<and>
    set (da_remaining acc) \<subseteq> set (da_remaining acc')"
proof (cases "child_at s k")
  case None
  with assms(2) show ?thesis by (simp add: ordered_stop_child_def is_child_active_def)
next
  case (Some e)
  show ?thesis
  proof (cases "ce_membership e = MRemoved \<or> \<not> is_active (child_state e)")
    case True
    with assms(2) Some show ?thesis by (auto simp: ordered_stop_child_def is_child_active_def)
  next
    case active: False
    let ?s = "begin_stop k e s"
    have i1: "run_inv N M L ?s"
      using draining_begin_stop [OF draining_refl [OF inv, of UNIV] Some] active
      by (simp add: draining_def)
    show ?thesis
    proof (cases "grace (cd_shutdown_policy (child_definition_of e))")
      case None
      with assms(2) Some active abort_window_remaining [OF i1] show ?thesis
        by (simp add: ordered_stop_child_def)
    next
      case g: (Some g)
      obtain b d sc s2 where w: "wait_for_ordered_child E k (Some (rt_now ?s + g)) scope
          (da_deferred acc) (da_script acc) ?s = (Inr (b, d, sc), s2)"
        using assms(2) Some active g
        by (auto simp: ordered_stop_child_def Let_def split: prod.splits sum.splits)
      have i2: "run_inv N M L s2"
        using ok_wait_for_ordered_child [OF draining_refl [OF i1, of UNIV], of E k
            "Some (rt_now ?s + g)" scope "da_deferred acc" "da_script acc"] w
        by (simp add: draining_def)
      show ?thesis
      proof (cases b)
        case True
        with w have "child_at s2 k \<noteq> None" using wait_true_present by blast
        with assms(2) Some active g w True escalate_remaining [OF i2] show ?thesis
          by (fastforce simp: ordered_stop_child_def Let_def)
      next
        case False
        with assms(2) Some active g w wait_false_inactive [OF i1] show ?thesis
          by (auto simp: ordered_stop_child_def Let_def)
      qed
    qed
  qed
qed

lemma walk_remaining:
  "run_inv N M L s \<Longrightarrow> ordered_walk E reason scope ks acc s = (Inr acc', s') \<Longrightarrow>
   (\<forall>k \<in> set ks. \<not> is_child_active k s' \<or> k \<in> set (da_remaining acc')) \<and>
   set (da_remaining acc) \<subseteq> set (da_remaining acc')"
proof (induction ks arbitrary: acc s)
  case Nil
  then show ?case by simp
next
  case (Cons k ks)
  obtain acc1 s1 where st: "ordered_stop_child E reason scope k acc s = (Inr acc1, s1)"
    and rest: "ordered_walk E reason scope ks acc1 s1 = (Inr acc', s')"
    using Cons.prems(2) by (auto split: prod.splits sum.splits)
  have i1: "run_inv N M L s1"
    using ok_ordered_stop_child [OF draining_refl [OF Cons.prems(1), of UNIV], of k E reason scope acc] st
    by (simp add: draining_def)
  have "calms UNIV s1 s'"
    using ok_ordered_walk [OF draining_refl [OF i1, of UNIV], of ks E reason scope acc1] rest
    by (simp add: draining_def)
  note still = calms_inactive [OF this _ inv_wf [OF i1]]
  from stop_child_remaining [OF Cons.prems(1) st] Cons.IH [OF i1 rest] still show ?case by auto
qed

lemma join_names_empty: "\<forall>n \<in> set ns. n \<noteq> [] \<Longrightarrow> join_names ns = [] \<longleftrightarrow> ns = []"
  by (induction ns rule: join_names.induct) auto

lemma collect_child_names_empty:
  assumes c: "consistent s" and "collect_child_names P s = []" and "child_at s k = Some e"
  shows "\<not> P k e"
proof -
  let ?ns = "map (\<lambda>(k, e). ce_id e) (filter (\<lambda>(k, e). P k e) (slab_iter (rt_children s)))"
  have "\<forall>n \<in> set ?ns. n \<noteq> []"
    using wf_entry [OF c] by (auto simp: slab_iter_iff entry_ok_def)
  then have "?ns = []" using assms(2) join_names_empty by (auto simp: collect_child_names_def)
  then have "filter (\<lambda>(k, e). P k e) (slab_iter (rt_children s)) = []" by simp
  with assms(3) show ?thesis by (auto simp: filter_empty_conv slab_iter_iff)
qed

lemma drain_ordered_stops:
  assumes inv: "run_inv N M L s" and reason: "reason \<noteq> DrainShutdown"
    and drain: "drain_children_ordered E reason scope script s = (Inr x, s')"
    and k: "scope_contains scope k"
  shows "\<not> is_child_active k s'"
proof (cases "k \<in> set (rt_child_order s)")
  case False
  then have "\<not> is_child_active k s"
    using wf_order [OF inv_wf [OF inv]] by (auto simp: is_child_active_def)
  moreover have "calms UNIV s s'"
    using ok_drain_children_ordered [OF draining_refl [OF inv, of UNIV], of scope E reason script] drain
    by (simp add: draining_def)
  ultimately show ?thesis using calms_inactive inv_wf [OF inv] by blast
next
  case True
  let ?keys = "filter (scope_contains scope) (rev (rt_child_order s))"
  let ?acc = "\<lparr>da_deferred = [], da_timed_out = [], da_remaining = [], da_script = script\<rparr>"
  have s0: "close_commands reason s = s" using reason by (simp add: close_commands_def)
  obtain acc s1 where walk: "ordered_walk E reason scope ?keys ?acc s = (Inr acc, s1)"
    using drain by (auto simp: drain_children_ordered_def Let_def s0 split: prod.splits sum.splits)
  have i1: "run_inv N M L s1"
    using ok_ordered_walk [OF draining_refl [OF inv, of UNIV], of ?keys E reason scope ?acc] walk
    by (simp add: draining_def)
  have settled: "\<not> is_child_active k s1 \<or> k \<in> set (da_remaining acc)"
    using walk_remaining [OF inv walk] True k by auto
  show ?thesis
  proof (cases "da_timed_out acc = [] \<and> da_remaining acc \<noteq> []")
    case False
    with drain walk reason settled show ?thesis
      by (auto simp: drain_children_ordered_def Let_def s0 split: if_splits)
  next
    case wait: True
    obtain names d sc s2 where w: "wait_for_ordered_stragglers E (da_remaining acc)
        (max_cooperative_grace scope s) scope (da_deferred acc) (da_script acc) s1 = (Inr (names, d, sc), s2)"
      and eq: "names = []" "s' = s2"
      using drain walk reason wait
      by (auto simp: drain_children_ordered_def Let_def s0 split: prod.splits sum.splits if_splits)
    have i2: "draining N M L UNIV s1 s2"
      using ok_wait_for_ordered_stragglers [OF draining_refl [OF i1, of UNIV], of E "da_remaining acc"
          "max_cooperative_grace scope s" scope "da_deferred acc" "da_script acc"] w
      by simp
    have "collect_child_names (\<lambda>k e. k \<in> set (da_remaining acc) \<and> is_child_active k s2) s2 = []"
      using w eq by (auto simp: wait_for_ordered_stragglers_def split: prod.splits sum.splits)
    then have "k \<in> set (da_remaining acc) \<Longrightarrow> child_at s2 k = Some e \<Longrightarrow> \<not> is_child_active k s2" for e
      using collect_child_names_empty [of s2 "\<lambda>k e. k \<in> set (da_remaining acc) \<and> is_child_active k s2" k e] i2
      by (simp add: draining_def run_inv_def)
    then have "k \<in> set (da_remaining acc) \<Longrightarrow> \<not> is_child_active k s2"
      by (cases "child_at s2 k") (simp_all add: is_child_active_def [of k])
    with settled calms_inactive [of UNIV s1 s2 k] i1 i2 eq show ?thesis
      by (auto simp: draining_def run_inv_def)
  qed
qed

lemma drain_concurrent_stops:
  assumes inv: "run_inv N M L s" and reason: "reason \<noteq> DrainShutdown"
    and drain: "drain_children E reason scope script s = (Inr x, s')"
    and k: "scope_contains scope k"
  shows "\<not> is_child_active k s'"
proof -
  have i': "run_inv N M L s'"
    using ok_drain_children [OF draining_refl [OF inv, of UNIV], of E reason scope script] drain
    by (simp add: draining_def)
  have "scope_drained scope s' \<or> active_task_names scope s' = []"
    using drain reason
    by (auto simp: drain_children_def drain_finish_def Let_def close_commands_def
        split: prod.splits sum.splits if_splits)
  then show ?thesis
  proof
    assume "scope_drained scope s'"
    with k no_live_tasks_inactive [OF inv_wf [OF i']] show ?thesis by (cases scope) auto
  next
    assume "active_task_names scope s' = []"
    with collect_child_names_empty [OF inv_wf [OF i'], of _ k] k show ?thesis
      by (cases "child_at s' k") (auto simp: active_task_names_def is_child_active_def)
  qed
qed

lemma drain_scope_stops:
  assumes inv: "run_inv N M L s" and "reason \<noteq> DrainShutdown"
    and "drain_scope_for E reason scope script s = (Inr x, s')" and "scope_contains scope k"
  shows "\<not> is_child_active k s'"
proof (cases "rm_kind (rt_meta s) = Ordered")
  case True
  with assms drain_ordered_stops [OF inv] show ?thesis by (simp add: drain_scope_for_def)
next
  case False
  have "run_inv N M L (cancel_running_children scope s)"
    using draining_cancel_running_children [OF draining_refl [OF inv, of UNIV], of scope]
    by (simp add: draining_def)
  from drain_concurrent_stops [OF this] assms False show ?thesis by (simp add: drain_scope_for_def)
qed

section \<open>Children stop in reverse declaration order\<close>

definition asked_to_stop :: "runtime \<Rightarrow> nat \<Rightarrow> bool" where
  "asked_to_stop s k \<longleftrightarrow>
     (case child_at s k of None \<Rightarrow> False | Some e \<Rightarrow> child_state e = Stopping)"

definition settled :: "runtime \<Rightarrow> nat \<Rightarrow> bool" where
  "settled s k \<longleftrightarrow>
     (case child_at s k of
        None \<Rightarrow> True
      | Some e \<Rightarrow> \<not> is_active (child_state e) \<or>
          (case cr_abort_handle (ce_runtime e) of None \<Rightarrow> False | Some t \<Rightarrow> t \<in> set (rt_aborted s)))"

lemma calms_settled:
  assumes c: "calms X s s'" and "settled s k"
  shows "settled s' k"
proof (cases "child_at s' k")
  case (Some e')
  from calms_child [OF c Some] obtain e where "child_at s k = Some e" "calmed (k \<in> X) e e'" by blast
  with assms Some show ?thesis
    by (auto simp: settled_def calmed_def calms_def split: option.splits)
qed (simp add: settled_def)

lemma calms_not_asked:
  assumes c: "calms X s s'" and "k \<notin> X" "\<not> asked_to_stop s k"
  shows "\<not> asked_to_stop s' k"
proof (cases "child_at s' k")
  case (Some e')
  from calms_child [OF c Some] obtain e where "child_at s k = Some e" "calmed (k \<in> X) e e'" by blast
  with assms Some show ?thesis by (auto simp: asked_to_stop_def calmed_def)
qed (simp add: asked_to_stop_def)

lemma inactive_settled: "consistent s \<Longrightarrow> \<not> is_child_active k s \<Longrightarrow> settled s k"
  by (auto simp: settled_def is_child_active_def entry_ok_def split: option.splits dest: wf_entry)

lemma abort_child_settled:
  assumes "consistent s"
  shows "settled (abort_child k s) k"
proof (cases "child_at s k")
  case None
  then show ?thesis
    by (simp add: abort_child_def settled_def index_runtime_def index_child_def Let_def)
next
  case (Some e)
  with wf_entry [OF assms Some] show ?thesis
    by (auto simp: abort_child_def settled_def index_runtime_def index_child_def Let_def entry_ok_def has_task_def
        split: option.splits)
qed

lemma abort_window_calms:
  assumes "run_inv N M L s" and "ordered_abort_window E scope k acc s = (r, s')"
  shows "calms {} s s'"
  using ok_ordered_abort_window [OF draining_refl [OF assms(1), of "{}"], of E scope k acc] assms(2)
  by (simp add: outcome_ok_def draining_def)

lemma wait_calms:
  assumes "run_inv N M L s" and "wait_for_ordered_child E k dl scope deferred script s = (r, s')"
  shows "run_inv N M L s'" and "calms {} s s'"
  using ok_wait_for_ordered_child [OF draining_refl [OF assms(1), of "{}"], of E k dl scope deferred
      script] assms(2)
  by (simp_all add: outcome_ok_def draining_def)

lemma escalate_settled:
  assumes inv: "run_inv N M L s" and "ordered_escalate E reason scope k i g acc s = (Inr acc', s')"
    and present: "child_at s k \<noteq> None"
  shows "settled s' k"
proof -
  let ?acc = "if reason = DrainShutdown then acc\<lparr>da_timed_out := da_timed_out acc @ [i]\<rparr> else acc"
  let ?s = "escalate_child k s"
  have i1: "run_inv N M L ?s" using inv present by (rule inv_signal)
  obtain b d sc s2 where w: "wait_for_ordered_child E k (Some (rt_now ?s + tidy_abort_beat g)) scope
      (da_deferred ?acc) (da_script ?acc) ?s = (Inr (b, d, sc), s2)"
    using assms(2) by (auto simp: ordered_escalate_def Let_def split: prod.splits sum.splits)
  note i2 = wait_calms(1) [OF i1 w]
  let ?s3 = "if b then abort_child k s2 else s2"
  have i3: "run_inv N M L ?s3"
    using i2 wait_true_present [OF w] by (cases b) (simp_all add: inv_signal)
  have "settled ?s3 k"
    using wait_false_inactive [OF i1] w inactive_settled [OF inv_wf [OF i2]]
      abort_child_settled [OF inv_wf [OF i2], of k] by (cases b) auto
  moreover obtain acc2 where "ordered_abort_window E scope k acc2 ?s3 = (Inr acc', s')"
    using assms(2) w by (auto simp: ordered_escalate_def Let_def split: if_splits)
  ultimately show ?thesis using calms_settled abort_window_calms [OF i3] by blast
qed

lemma stop_child_settled:
  assumes inv: "run_inv N M L s" and "ordered_stop_child E reason scope k acc s = (Inr acc', s')"
  shows "settled s' k"
proof (cases "\<exists>e. child_at s k = Some e \<and> ce_membership e \<noteq> MRemoved \<and> is_active (child_state e)")
  case False
  with assms(2) have "s' = s" by (auto simp: ordered_stop_child_def split: option.splits if_splits)
  moreover have "\<not> is_child_active k s" using False by (auto simp: is_child_active_def split: option.split)
  ultimately show ?thesis using inactive_settled [OF inv_wf [OF inv]] by blast
next
  case True
  then obtain e where e: "child_at s k = Some e" "ce_membership e \<noteq> MRemoved" "is_active (child_state e)"
    by blast
  let ?s = "begin_stop k e s"
  have i1: "run_inv N M L ?s"
    using draining_begin_stop [OF draining_refl [OF inv, of UNIV] e(1,3)] by (simp add: draining_def)
  show ?thesis
  proof (cases "grace (cd_shutdown_policy (child_definition_of e))")
    case None
    let ?u = "update_runtime k (\<lambda>r. r\<lparr>cr_state := Stopping\<rparr>) s"
    have "consistent ?u"
      using inv e by (intro inv_wf [OF inv_update_runtime [OF inv]]) (auto simp: entry_ok_def has_task_def)
    with None e(1) have "settled ?s k"
      by (simp add: begin_stop_def Let_def abort_child_settled index_runtime_present)
    moreover have "ordered_abort_window E scope k acc ?s = (Inr acc', s')"
      using assms(2) e None by (simp add: ordered_stop_child_def)
    ultimately show ?thesis using calms_settled abort_window_calms [OF i1] by blast
  next
    case g: (Some g)
    obtain b d sc s2 where w: "wait_for_ordered_child E k (Some (rt_now ?s + g)) scope
        (da_deferred acc) (da_script acc) ?s = (Inr (b, d, sc), s2)"
      using assms(2) e g by (auto simp: ordered_stop_child_def Let_def split: prod.splits sum.splits)
    note i2 = wait_calms(1) [OF i1 w]
    show ?thesis
    proof (cases b)
      case True
      with w have "child_at s2 k \<noteq> None" using wait_true_present by blast
      with assms(2) e g w True escalate_settled [OF i2] show ?thesis
        by (auto simp: ordered_stop_child_def Let_def)
    next
      case False
      with assms(2) e g w wait_false_inactive [OF i1] inactive_settled [OF inv_wf [OF i2]] show ?thesis
        by (auto simp: ordered_stop_child_def Let_def)
    qed
  qed
qed

abbreviation stop_order :: "runtime \<Rightarrow> nat list \<Rightarrow> bool" where
  "stop_order s \<equiv> sorted_wrt (\<lambda>later earlier. asked_to_stop s earlier \<longrightarrow> settled s later)"

lemma stop_order_calms:
  assumes "calms {} s s'" and "stop_order s ks"
  shows "stop_order s' ks"
  using assms(2) calms_settled [OF assms(1)] calms_not_asked [OF assms(1)]
  by (induction ks) auto

lemma walk_stop_order:
  "run_inv N M L s \<Longrightarrow> distinct ks \<Longrightarrow> \<forall>k \<in> set ks. \<not> asked_to_stop s k \<Longrightarrow>
   ordered_walk E reason scope ks acc s = (r, s') \<Longrightarrow> stop_order s' ks"
proof (induction ks arbitrary: acc s)
  case Nil
  then show ?case by simp
next
  case (Cons k ks)
  obtain r1 s1 where st: "ordered_stop_child E reason scope k acc s = (r1, s1)"
    by (cases "ordered_stop_child E reason scope k acc s")
  have d: "draining N M L {k} s s1"
    using ok_ordered_stop_child [OF draining_refl [OF Cons.prems(1), of "{k}"], of k E reason scope acc] st
    by (simp add: outcome_ok_def)
  then have i1: "run_inv N M L s1" by (simp add: draining_def)
  have idle: "\<forall>j \<in> set ks. \<not> asked_to_stop s1 j"
  proof
    fix j assume "j \<in> set ks"
    with Cons.prems(2,3) calms_not_asked [of "{k}" s s1 j] d show "\<not> asked_to_stop s1 j"
      by (auto simp: draining_def)
  qed
  show ?case
  proof (cases r1)
    case (Inl err)
    with Cons.prems(4) st have "s' = s1" by simp
    with idle show ?thesis by (auto simp: sorted_wrt_iff_nth_less)
  next
    case (Inr acc1)
    with Cons.prems(4) st have rest: "ordered_walk E reason scope ks acc1 s1 = (r, s')" by simp
    have "calms (set ks) s1 s'"
      using ok_ordered_walk [OF draining_refl [OF i1, of "set ks"], of ks E reason scope acc1] rest
      by (simp add: outcome_ok_def draining_def)
    then have "settled s' k"
      using stop_child_settled [OF Cons.prems(1)] st Inr calms_settled by blast
    with Cons.IH [OF i1 _ idle rest] Cons.prems(2) show ?thesis by simp
  qed
qed

lemma ordered_drain_stop_order:
  assumes inv: "run_inv N M L s"
    and "\<forall>k \<in> set (rt_child_order s). scope_contains scope k \<longrightarrow> \<not> asked_to_stop s k"
    and drain: "drain_children_ordered E reason scope script s = (r, s')"
  shows "sorted_wrt (\<lambda>later earlier. asked_to_stop s' earlier \<longrightarrow> settled s' later)
    (filter (scope_contains scope) (rev (rt_child_order s)))"
proof -
  let ?keys = "filter (scope_contains scope) (rev (rt_child_order s))"
  let ?acc = "\<lparr>da_deferred = [], da_timed_out = [], da_remaining = [], da_script = script\<rparr>"
  let ?s = "close_commands reason s"
  have i0: "run_inv N M L ?s" using inv by (simp add: close_commands_def)
  have ord: "rt_child_order ?s = rt_child_order s" and ask: "asked_to_stop ?s = asked_to_stop s"
    by (simp_all add: close_commands_def asked_to_stop_def fun_eq_iff)
  obtain r1 s1 where walk: "ordered_walk E reason scope ?keys ?acc ?s = (r1, s1)"
    by (cases "ordered_walk E reason scope ?keys ?acc ?s")
  have "distinct ?keys" using inv_wf [OF inv] by (simp add: consistent_def order_ok_def)
  with walk_stop_order [OF i0 _ _ walk] assms(2) have order: "stop_order s1 ?keys"
    by (auto simp: ask)
  have i1: "run_inv N M L s1"
    using ok_ordered_walk [OF draining_refl [OF i0, of UNIV], of ?keys E reason scope ?acc] walk
    by (simp add: outcome_ok_def draining_def)
  have "calms {} s1 s'"
  proof (cases r1)
    case (Inl err)
    with drain walk show ?thesis by (simp add: drain_children_ordered_def Let_def ord)
  next
    case (Inr acc)
    have "calms {} s1 (snd (wait_for_ordered_stragglers E (da_remaining acc)
        (max_cooperative_grace scope ?s) scope (da_deferred acc) (da_script acc) s1))"
      using ok_wait_for_ordered_stragglers [OF draining_refl [OF i1, of "{}"]]
      by (simp add: outcome_ok_def draining_def)
    with drain walk Inr show ?thesis
      by (auto simp: drain_children_ordered_def Let_def ord split: prod.splits sum.splits if_splits)
  qed
  with order show ?thesis by (rule stop_order_calms [rotated])
qed

section \<open>A drain leaves no task running\<close>

lemma walk_settled:
  "run_inv N M L s \<Longrightarrow> ordered_walk E reason scope ks acc s = (Inr acc', s') \<Longrightarrow>
   \<forall>k \<in> set ks. settled s' k"
proof (induction ks arbitrary: acc s)
  case (Cons k ks)
  obtain acc1 s1 where st: "ordered_stop_child E reason scope k acc s = (Inr acc1, s1)"
    and rest: "ordered_walk E reason scope ks acc1 s1 = (Inr acc', s')"
    using Cons.prems(2) by (auto split: prod.splits sum.splits)
  have i1: "run_inv N M L s1"
    using ok_ordered_stop_child [OF draining_refl [OF Cons.prems(1), of UNIV], of k E reason scope acc] st
    by (simp add: draining_def)
  have "calms UNIV s1 s'"
    using ok_ordered_walk [OF draining_refl [OF i1, of UNIV], of ks E reason scope acc1] rest
    by (simp add: draining_def)
  with stop_child_settled [OF Cons.prems(1) st] Cons.IH [OF i1 rest] calms_settled show ?case by auto
qed simp

lemma drain_ordered_settles:
  assumes inv: "run_inv N M L s" and drain: "drain_children_ordered E reason scope script s = (r, s')"
    and r: "r \<noteq> Inl Blocked" and k: "scope_contains scope k"
  shows "settled s' k"
proof (cases "k \<in> set (rt_child_order s)")
  case False
  then have "settled s k" using wf_order [OF inv_wf [OF inv]] by (simp add: settled_def)
  moreover have "calms UNIV s s'"
    using ok_drain_children_ordered [OF draining_refl [OF inv, of UNIV], of scope E reason script] drain
    by (simp add: draining_def outcome_ok_def)
  ultimately show ?thesis using calms_settled by blast
next
  case True
  let ?s = "close_commands reason s"
  let ?keys = "filter (scope_contains scope) (rev (rt_child_order ?s))"
  let ?acc = "\<lparr>da_deferred = [], da_timed_out = [], da_remaining = [], da_script = script\<rparr>"
  have i0: "run_inv N M L ?s" using inv by (simp add: close_commands_def)
  note ok = ok_ordered_walk [OF draining_refl [OF i0, of UNIV], of ?keys E reason scope ?acc]
  obtain acc s1 where walk: "ordered_walk E reason scope ?keys ?acc ?s = (Inr acc, s1)"
    using drain r ok
    by (cases "ordered_walk E reason scope ?keys ?acc ?s"; cases "fst (ordered_walk E reason scope ?keys ?acc ?s)")
      (auto simp: drain_children_ordered_def Let_def only_blocked_def)
  have i1: "run_inv N M L s1" using ok walk by (simp add: draining_def)
  have "settled s1 k" using walk_settled [OF i0 walk] True k by (simp add: close_commands_def)
  moreover have "calms UNIV s1 (snd (wait_for_ordered_stragglers E (da_remaining acc)
      (max_cooperative_grace scope ?s) scope (da_deferred acc) (da_script acc) s1))"
    using ok_wait_for_ordered_stragglers [OF draining_refl [OF i1, of UNIV]]
    by (simp add: outcome_ok_def draining_def)
  ultimately show ?thesis
    using drain walk calms_settled
    by (auto simp: drain_children_ordered_def Let_def split: prod.splits sum.splits if_splits)
qed

definition abort_target :: "(nat \<Rightarrow> child_entry \<Rightarrow> bool) \<Rightarrow> nat \<times> child_entry \<Rightarrow> nat option" where
  "abort_target P ke =
     (case ke of (k, e) \<Rightarrow>
        if ce_membership e \<noteq> MRemoved \<and> is_active (child_state e) \<and> P k e
        then cr_abort_handle (ce_runtime e) else None)"

lemma abort_matching_aborted:
  "rt_aborted (abort_matching_children P s) =
     rt_aborted s @ List.map_filter (abort_target P) (slab_iter (rt_children s))"
proof -
  have "rt_aborted (fold (\<lambda>(k, e) s.
         if ce_membership e \<noteq> MRemoved \<and> is_active (child_state e) \<and> P k e
         then (case cr_abort_handle (ce_runtime e) of
                 None \<Rightarrow> s
               | Some t \<Rightarrow>
                   (update_runtime k (\<lambda>r. r\<lparr>cr_nested_abort_cascades := True\<rparr>) s)
                     \<lparr>rt_aborted := rt_aborted s @ [t]\<rparr>)
         else s) xs s) = rt_aborted s @ List.map_filter (abort_target P) xs" for xs s
    by (induction xs arbitrary: s) (auto simp: abort_target_def map_filter_simps split: option.splits if_splits)
  then show ?thesis by (simp add: abort_matching_children_def)
qed

lemma abort_matching_settled:
  assumes inv: "run_inv N M L s" and P: "\<And>e. P k e"
  shows "settled (abort_matching_children P s) k"
proof (cases "child_at (abort_matching_children P s) k")
  case (Some e')
  have "calms UNIV s (abort_matching_children P s)"
    using draining_abort_matching [OF draining_refl [OF inv, of UNIV]] by (simp add: draining_def)
  from calms_child [OF this Some] obtain e where e: "child_at s k = Some e" "calmed True e e'" by auto
  show ?thesis
  proof (cases "is_active (child_state e')")
    case True
    with e have act: "is_active (child_state e)"
      "cr_abort_handle (ce_runtime e') = cr_abort_handle (ce_runtime e)" by (auto simp: calmed_def)
    from wf_entry [OF inv_wf [OF inv] e(1)] act obtain t where t: "cr_abort_handle (ce_runtime e) = Some t"
      "ce_membership e \<noteq> MRemoved" by (auto simp: entry_ok_def has_task_def)
    then have "abort_target P (k, e) = Some t" using act P by (simp add: abort_target_def)
    then have "t \<in> set (List.map_filter (abort_target P) (slab_iter (rt_children s)))"
      using e(1) slab_iter_iff [of k e "rt_children s"]
      by (force simp: List.map_filter_def image_iff)
    with t act Some show ?thesis by (simp add: settled_def abort_matching_aborted)
  qed (use Some in \<open>simp add: settled_def\<close>)
qed (simp add: settled_def)

lemma drain_finish_settles:
  assumes inv: "run_inv N M L s" and "drain_finish E reason scope late deferred script s = (r, s')"
    and r: "r \<noteq> Inl Blocked" and k: "scope_contains scope k"
  shows "settled s' k"
proof (cases "active_task_names scope s = []")
  case True
  with collect_child_names_empty [OF inv_wf [OF inv], of _ k] k have "\<not> is_child_active k s"
    by (cases "child_at s k") (auto simp: active_task_names_def is_child_active_def)
  with True assms(2) inactive_settled [OF inv_wf [OF inv]] show ?thesis
    by (auto simp: drain_finish_def Let_def split: if_splits)
next
  case False
  let ?s = "abort_matching_children (\<lambda>k e. scope_contains scope k) s"
  have d: "draining N M L UNIV ?s ?s"
    using draining_abort_matching [OF draining_refl [OF inv, of UNIV]] by (simp add: draining_def)
  have "calms UNIV ?s s'"
    using ok_drain_ready_joins [OF d, of E scope deferred script] False assms(2)
    by (auto simp: drain_finish_def Let_def draining_def outcome_ok_def
        split: prod.splits sum.splits if_splits)
  then show ?thesis
    by (rule calms_settled) (rule abort_matching_settled [OF inv], simp add: k)
qed

lemma drain_concurrent_settles:
  assumes inv: "run_inv N M L s" and drain: "drain_children E reason scope script s = (r, s')"
    and r: "r \<noteq> Inl Blocked" and k: "scope_contains scope k"
  shows "settled s' k"
proof -
  let ?s0 = "close_commands reason s"
  let ?s1 = "abort_matching_children (\<lambda>k e. scope_contains scope k
    \<and> is_abort (cd_shutdown_policy (child_definition_of e))) ?s0"
  have d1: "draining N M L UNIV s ?s1" using draining_refl [OF inv, of UNIV] by simp
  note ok = ok_drain_ready_joins [OF d1, of E scope "[]" script]
  obtain deferred sc s2 where j: "drain_ready_joins E scope [] script ?s1 = (Inr ((), deferred, sc), s2)"
    using drain r ok by (cases "drain_ready_joins E scope [] script ?s1";
        cases "fst (drain_ready_joins E scope [] script ?s1)")
      (auto simp: drain_children_def Let_def only_blocked_def)
  have i2: "run_inv N M L s2" using ok j by (simp add: draining_def)
  show ?thesis
  proof (cases "scope_drained scope s2")
    case True
    then have "\<not> is_child_active k s2"
      using k no_live_tasks_inactive [OF inv_wf [OF i2]] by (cases scope) auto
    with True drain j inactive_settled [OF inv_wf [OF i2]] show ?thesis
      by (simp add: drain_children_def Let_def)
  next
    case False
    let ?ds = "initial_deadlines scope ?s0"
    note okl = ok_drain_loop [OF draining_refl [OF i2, of UNIV], of E reason scope ?ds deferred "[]" sc]
    obtain late d sc2 s3 where l: "drain_loop E reason scope ?ds deferred [] sc s2 = (Inr (late, d, sc2), s3)"
      using drain r okl j False
      by (cases "drain_loop E reason scope ?ds deferred [] sc s2";
          cases "fst (drain_loop E reason scope ?ds deferred [] sc s2)")
        (auto simp: drain_children_def Let_def only_blocked_def)
    have "run_inv N M L s3" using okl l by (simp add: draining_def)
    with drain j False l drain_finish_settles [OF _ _ r k] show ?thesis
      by (simp add: drain_children_def Let_def)
  qed
qed

lemma drain_scope_settles:
  assumes inv: "run_inv N M L s" and "drain_scope_for E reason scope script s = (r, s')"
    and "r \<noteq> Inl Blocked" and "scope_contains scope k"
  shows "settled s' k"
proof (cases "rm_kind (rt_meta s) = Ordered")
  case True
  with assms drain_ordered_settles [OF inv] show ?thesis by (simp add: drain_scope_for_def)
next
  case False
  have "run_inv N M L (cancel_running_children scope s)"
    using draining_cancel_running_children [OF draining_refl [OF inv, of UNIV], of scope]
    by (simp add: draining_def)
  from drain_concurrent_settles [OF this] assms False show ?thesis by (simp add: drain_scope_for_def)
qed

lemma settled_same:
  "rt_children s' = rt_children s \<Longrightarrow> rt_aborted s' = rt_aborted s \<Longrightarrow> settled s' k = settled s k"
  by (simp add: settled_def split: option.split)

lemma shutdown_settles:
  assumes inv: "run_inv N M L s" and "shutdown_all E script s = (r, s')" and "r \<noteq> Inl Blocked"
  shows "settled s' k"
proof -
  let ?s = "send_event SupervisorStoppingEv (s\<lparr>rt_state := SupStopping, rt_stopping := True\<rparr>)"
  have i: "run_inv N M L ?s" using inv by simp
  obtain r1 s1 where d: "drain_scope_for E DrainShutdown ScopeAll script ?s = (r1, s1)"
    by (cases "drain_scope_for E DrainShutdown ScopeAll script ?s")
  have "settled (finish s1) k = settled s1 k"
    by (rule settled_same) (simp_all add: finish_def)
  moreover have "r1 \<noteq> Inl Blocked" using assms(2,3) d by (auto simp: shutdown_all_def Let_def)
  ultimately show ?thesis
    using drain_scope_settles [OF i d, of k] assms(2) d
    by (cases r1) (simp_all add: shutdown_all_def Let_def, blast?)
qed

end
