(* ===== verification/Runtime_Loop.thy ===== *)
theory Runtime_Loop
  imports Drain_Properties
begin

text \<open>
  The supervisor's main loop (\<open>runtime/supervision.rs\<close>): construction of an incarnation with
  the reconciliation of nested identities, the due deadlines with individual and group
  restarts, the choice of the next wake-up, one turn of the loop for each kind of input, and
  the epilogue of a run.
\<close>

section \<open>Construction\<close>

text \<open>
  Reconciliation over the identities retained from a previous incarnation, an association list
  for the code's hash map: the identities chosen for the static nested supervisors, the new
  map, the displaced occupants and the store.
\<close>

definition claim_static :: "nat \<Rightarrow> (nat \<Rightarrow> stable_tree) \<Rightarrow> nat \<Rightarrow> stable_tree" where
  "claim_static n st =
     st(n := (case st n of StableTree c ns \<Rightarrow> StableTree (claim_edge True c) ns))"

definition choose_identity ::
    "string \<Rightarrow> nat \<Rightarrow> (string \<times> nat) list \<Rightarrow> nat list \<Rightarrow> (nat \<Rightarrow> stable_tree)
       \<Rightarrow> nat \<times> (string \<times> nat) list \<times> nat list \<times> (nat \<Rightarrow> stable_tree)" where
  "choose_identity i n chans displaced st =
     (case map_of chans i of
        None \<Rightarrow> (n, AList.update i n chans, displaced, claim_static n st)
      | Some m \<Rightarrow>
          if statically_configured (st_root (st m)) then (m, chans, displaced, st)
          else (n, AList.update i n chans, displaced @ [m], claim_static n st))"

fun reconcile_static ::
    "child_definition list \<Rightarrow> (string \<times> nat) list \<Rightarrow> (string \<times> nat) list \<Rightarrow> nat list
       \<Rightarrow> (nat \<Rightarrow> stable_tree)
       \<Rightarrow> (string \<times> nat) list \<times> (string \<times> nat) list \<times> nat list \<times> (nat \<Rightarrow> stable_tree)" where
  "reconcile_static [] ids chans displaced st = (ids, chans, displaced, st)"
| "reconcile_static (d # ds) ids chans displaced st =
     (case cd_kind d of
        ChildTask \<Rightarrow> reconcile_static ds ids chans displaced st
      | ChildSupervisor n \<Rightarrow>
          (case choose_identity (cd_id d) n chans displaced st of
             (m, chans1, displaced1, st1) \<Rightarrow>
               reconcile_static ds (AList.update (cd_id d) m ids) chans1 displaced1 st1))"

definition reconcile_stable_identities ::
    "child_definition list \<Rightarrow> (string \<times> nat) list \<Rightarrow> (nat \<Rightarrow> stable_tree)
       \<Rightarrow> (string \<times> nat) list \<times> (string \<times> nat) list \<times> (nat \<Rightarrow> stable_tree)" where
  "reconcile_stable_identities ds chans st =
     (case reconcile_static ds [] chans [] st of (ids, chans1, displaced, st1) \<Rightarrow>
        let orphaned = filter (\<lambda>(i, n). map_of ids i = None) chans1
        in (ids, filter (\<lambda>(i, n). map_of ids i \<noteq> None) chans1,
            fold (\<lambda>n st. st(n := terminal_tree (st n))) (map snd orphaned @ displaced) st1))"

text \<open>
  Inserting the static children under the lineages their declaration reserved.  An identity is
  taken out of the reconciled ones; a missing declared lineage or identity is the
  \<open>expect\<close> that panics.
\<close>

definition declared_lineage :: "string \<Rightarrow> supervisor_snapshot \<Rightarrow> u64 option" where
  "declared_lineage i sn = map_of (rev (map (\<lambda>c. (cs_id c, cs_lineage c)) (ss_children sn))) i"

definition take_identity ::
    "child_definition \<Rightarrow> (string \<times> nat) list \<Rightarrow> (nat option \<times> (string \<times> nat) list) option" where
  "take_identity d ids =
     (case cd_kind d of
        ChildTask \<Rightarrow> Some (None, ids)
      | ChildSupervisor n \<Rightarrow>
          map_option (\<lambda>i. (Some i, AList.delete (cd_id d) ids)) (map_of ids (cd_id d)))"

definition place_static ::
    "runtime_env \<Rightarrow> child_definition \<Rightarrow> nat option \<Rightarrow> u64 \<Rightarrow> runtime \<Rightarrow> runtime" where
  "place_static E d channels lineage s =
     (let k = env_vacant_key E (rt_children s);
          e = child_entry_new (env_seed E (rt_now s)) (cd_id d) d channels lineage
      in s\<lparr>rt_own := (rt_own s)\<lparr>st_lifecycle := observe_lineage lineage (rt_hub s)\<rparr>,
           rt_children := slab_put k e (rt_children s),
           rt_children_by_id := (rt_children_by_id s)(cd_id d \<mapsto> k),
           rt_child_order := rt_child_order s @ [k]\<rparr>)"

fun insert_static ::
    "runtime_env \<Rightarrow> (string \<times> nat) list \<Rightarrow> child_definition list \<Rightarrow> runtime \<Rightarrow> runtime option" where
  "insert_static E ids [] s = Some s"
| "insert_static E ids (d # ds) s =
     (case take_identity d ids of
        None \<Rightarrow> None
      | Some (channels, ids1) \<Rightarrow>
          (case declared_lineage (cd_id d) (st_snapshot (rt_own s)) of
             None \<Rightarrow> None
           | Some lineage \<Rightarrow> insert_static E ids1 ds (place_static E d channels lineage s)))"

definition runtime_empty ::
    "supervisor_config \<Rightarrow> stable_channels \<Rightarrow> u64 \<Rightarrow> parent_link option \<Rightarrow> bool
       \<Rightarrow> (string \<times> nat) list \<Rightarrow> (nat \<Rightarrow> stable_tree) \<Rightarrow> instant \<Rightarrow> runtime" where
  "runtime_empty cfg own epoch link revivable chans st now =
     \<lparr>rt_meta = \<lparr>rm_strategy = cfg_strategy cfg, rm_kind = cfg_kind cfg,
        rm_default_child_restart = cfg_default_child_restart cfg,
        rm_default_child_shutdown = cfg_default_child_shutdown cfg,
        rm_binding_epoch = epoch, rm_revivable = revivable\<rparr>,
      rt_state = SupRunning, rt_stopping = False, rt_group = 0, rt_group_cancelled = False,
      rt_join_set = [], rt_children = [], rt_children_by_id = Map.empty, rt_child_order = [],
      rt_live_tasks = 0, rt_own = own, rt_parent_link = link, rt_shutdown_requested = False,
      rt_nested_channels = chans, rt_stable = st, rt_commands_open = True,
      rt_task_map = Map.empty, rt_start_sequence = None, rt_startup_gate = None,
      rt_total_restarts = ss_total_restarts (st_snapshot own), rt_now = now,
      rt_reported_ready = False, rt_received = [], rt_replies = [], rt_aborted = [],
      rt_trace = [], rt_panicked = False\<rparr>"

definition runtime_new ::
    "runtime_env \<Rightarrow> supervisor_config \<Rightarrow> stable_channels \<Rightarrow> u64 \<Rightarrow> parent_link option \<Rightarrow> bool
       \<Rightarrow> (string \<times> nat) list \<Rightarrow> (nat \<Rightarrow> stable_tree) \<Rightarrow> instant \<Rightarrow> runtime option" where
  "runtime_new E cfg own epoch link revivable chans st now =
     (case reconcile_stable_identities (cfg_children cfg) chans st of (ids, chans1, st1) \<Rightarrow>
        insert_static E ids (cfg_children cfg)
          (runtime_empty cfg own epoch link revivable chans1 st1 now))"

section \<open>Start of a run\<close>

definition start_run :: "runtime_env \<Rightarrow> bool \<Rightarrow> unit runtime_run" where
  "start_run E startup_ready s =
     (let s1 = send_event SupervisorStartedEv s;
          initial_children = rt_child_order s1;
          s2 = fold (\<lambda>k. send_lifecycle k Added) initial_children s1;
          pending = List.map_filter (\<lambda>k. map_option (\<lambda>e. (k, ce_lineage e)) (child_at s2 k))
                      initial_children;
          s3 = (if startup_ready then s2\<lparr>rt_startup_gate := Some pending\<rparr> else s2)
      in case schedule_start_sequence E initial_children False s3 of
           (Inl h, s4) \<Rightarrow> (Inl h, s4)
         | (Inr _, s4) \<Rightarrow> (Inr (), complete_empty_startup_gate s4))"

section \<open>Restarts\<close>

definition restart_one :: "runtime_env \<Rightarrow> nat \<Rightarrow> unit runtime_run" where
  "restart_one E k s =
     (case child_at s k of
        None \<Rightarrow> (Inr (), s)
      | Some e \<Rightarrow>
          if ce_membership e \<noteq> MActive \<or> child_state e \<noteq> Stopped \<or> child_deadline e = None
          then (Inr (), s)
          else
            let s1 = index_runtime k (\<lambda>r. r\<lparr>cr_next_restart_deadline := None\<rparr>) s in
            (case spawn_child E k s1 of
               (Inl h, s2) \<Rightarrow> (Inl h, s2)
             | (Inr (old_generation, new_generation), s2) \<Rightarrow>
                 let s3 = (case current_gate s2 of
                             None \<Rightarrow> s2
                           | Some g \<Rightarrow>
                               if sg_key g = k \<and> sg_lineage g = ce_lineage e
                               then set_gate (Some (g\<lparr>sg_generation := new_generation\<rparr>)) s2
                               else s2);
                     s4 = (case old_generation of
                             None \<Rightarrow> s3
                           | Some old \<Rightarrow> send_restart_event k old new_generation s3)
                 in (case child_at s4 k of
                       None \<Rightarrow> (Inl Panic, s4)
                     | Some e4 \<Rightarrow>
                         if child_state e4 = Running then advance_start_sequence E s4
                         else (Inr (), s4))))"

definition group_keys :: "nat \<Rightarrow> bool \<Rightarrow> runtime \<Rightarrow> nat list" where
  "group_keys failing_key fresh_group_token s =
     (if fresh_group_token then rt_child_order s
      else dropWhile (\<lambda>j. j \<noteq> failing_key) (rt_child_order s))"

definition drop_group_members :: "nat list \<Rightarrow> runtime \<Rightarrow> runtime" where
  "drop_group_members ks s =
     s\<lparr>rt_start_sequence := map_option
         (\<lambda>q. \<lparr>sq_queue = filter (\<lambda>i. si_key i \<notin> set ks) (sq_queue q),
              sq_gate = (case sq_gate q of
                 Some g \<Rightarrow> if sg_key g \<in> set ks then None else Some g
               | None \<Rightarrow> None)\<rparr>) (rt_start_sequence s)\<rparr>"

definition apply_drained_completion :: "runtime_env \<Rightarrow> classified_exit \<Rightarrow> unit runtime_run" where
  "apply_drained_completion E c s =
     (if current_child_matches (cx_key c) (cx_lineage c) (cx_generation c) s
      then apply_exit_policy_inner E c False s else (Inr (), s))"

definition apply_deferred_exit :: "runtime_env \<Rightarrow> classified_exit \<Rightarrow> unit runtime_run" where
  "apply_deferred_exit E c s =
     (if current_child_matches (cx_key c) (cx_lineage c) (cx_generation c) s
      then apply_exit_policy_inner E c True s else (Inr (), s))"

definition respawn_group :: "runtime_env \<Rightarrow> nat list \<Rightarrow> bool \<Rightarrow> unit runtime_run" where
  "respawn_group E ks fresh_group_token s =
     schedule_start_sequence E ks True
       (drop_group_members ks
         (if fresh_group_token
          then s\<lparr>rt_group := Suc (rt_group s), rt_group_cancelled := False\<rparr> else s))"

definition restart_group ::
    "runtime_env \<Rightarrow> nat \<Rightarrow> bool \<Rightarrow> drain_event list \<Rightarrow> classified_exit list runtime_run" where
  "restart_group E failing_key fresh_group_token script s =
     (case child_at s failing_key of
        None \<Rightarrow> (Inr [], s)
      | Some e \<Rightarrow>
          let ks = group_keys failing_key fresh_group_token s in
          if ce_membership e \<noteq> MActive \<or> (\<not> fresh_group_token \<and> ks = []) then (Inr [], s)
          else
            (case (if fresh_group_token
                   then drain_scope_for E DrainGroupRestart ScopeAll script s
                   else drain_scope_for E DrainRestForOneRestart (ScopeSubset ks) script s) of
               (Inl h, s1) \<Rightarrow> (Inl h, s1)
             | (Inr (_, completed, _), s1) \<Rightarrow>
                 (case and_then
                         (for_each (apply_drained_completion E)
                            (filter (\<lambda>c. cx_key c \<in> set ks) completed))
                         (\<lambda>_. respawn_group E ks fresh_group_token) s1 of
                    (Inl h, s2) \<Rightarrow> (Inl h, s2)
                  | (Inr _, s2) \<Rightarrow>
                      (Inr (filter (\<lambda>c. cx_key c \<notin> set ks) completed), s2))))"

section \<open>Due deadlines\<close>

definition expired_removals :: "instant \<Rightarrow> runtime \<Rightarrow> (nat \<times> duration) list" where
  "expired_removals now s =
     List.map_filter (\<lambda>k.
       case child_at s k of
         None \<Rightarrow> None
       | Some e \<Rightarrow>
           (case ce_pending_removal e of
              None \<Rightarrow> None
            | Some p \<Rightarrow>
                (case grace (pr_policy p) of
                   None \<Rightarrow> None
                 | Some g \<Rightarrow>
                     if \<not> pr_grace_expired p \<and> pr_grace_deadline p \<le> now then Some (k, g)
                     else None))) (rt_child_order s)"

text \<open>
  The pending removal of an indexed child, which panics on a vacant key and on a child whose
  removal is not pending (the two \<open>expect\<close>s of \<open>handle_deadlines\<close>).
\<close>

definition index_pending_removal ::
    "nat \<Rightarrow> (pending_removal \<Rightarrow> pending_removal) \<Rightarrow> runtime \<Rightarrow> runtime" where
  "index_pending_removal k f s =
     panic_if (Option.bind (child_at s k) ce_pending_removal = None)
       (update_child k (\<lambda>e. e\<lparr>ce_pending_removal := map_option f (ce_pending_removal e)\<rparr>) s)"

definition expire_removal :: "instant \<Rightarrow> nat \<times> duration \<Rightarrow> runtime \<Rightarrow> runtime" where
  "expire_removal now kg s =
     (case kg of (k, g) \<Rightarrow>
        escalate_child k
          (index_pending_removal k
             (\<lambda>p. p\<lparr>pr_grace_expired := True,
                    pr_hard_abort_deadline := Some (now + tidy_abort_beat g)\<rparr>) s))"

definition hard_abort_removals :: "instant \<Rightarrow> runtime \<Rightarrow> nat list" where
  "hard_abort_removals now s =
     filter (\<lambda>k.
       case child_at s k of
         None \<Rightarrow> False
       | Some e \<Rightarrow>
           (case ce_pending_removal e of
              None \<Rightarrow> False
            | Some p \<Rightarrow> (case pr_hard_abort_deadline p of None \<Rightarrow> False | Some d \<Rightarrow> d \<le> now)))
       (rt_child_order s)"

definition hard_abort_removal :: "nat \<Rightarrow> runtime \<Rightarrow> runtime" where
  "hard_abort_removal k s =
     abort_child k (index_pending_removal k (\<lambda>p. p\<lparr>pr_hard_abort_deadline := None\<rparr>) s)"

definition due_restarts :: "instant \<Rightarrow> runtime \<Rightarrow> nat list" where
  "due_restarts now s =
     filter (\<lambda>k.
       case child_at s k of
         None \<Rightarrow> False
       | Some e \<Rightarrow>
           ce_membership e = MActive \<and> child_state e = Stopped \<and>
           (case child_deadline e of None \<Rightarrow> False | Some d \<Rightarrow> d \<le> now)) (rt_child_order s)"

definition run_due_restarts :: "runtime_env \<Rightarrow> nat list \<Rightarrow> drain_event list \<Rightarrow> unit runtime_run" where
  "run_due_restarts E due script s =
     (case rm_strategy (rt_meta s) of
        OneForOne \<Rightarrow> for_each (restart_one E) due s
      | OneForAll \<Rightarrow>
          (case due of
             [] \<Rightarrow> (Inr (), s)
           | k # _ \<Rightarrow>
               (case restart_group E k True script
                       (index_runtime k (\<lambda>r. r\<lparr>cr_next_restart_deadline := None\<rparr>) s) of
                  (Inl h, s1) \<Rightarrow> (Inl h, s1)
                | (Inr _, s1) \<Rightarrow> (Inr (), s1)))
      | RestForOne \<Rightarrow>
          (case due of
             [] \<Rightarrow> (Inr (), s)
           | k # _ \<Rightarrow>
               (case restart_group E k False script
                       (index_runtime k (\<lambda>r. r\<lparr>cr_next_restart_deadline := None\<rparr>) s) of
                  (Inl h, s1) \<Rightarrow> (Inl h, s1)
                | (Inr deferred, s1) \<Rightarrow> for_each (apply_deferred_exit E) deferred s1)))"

definition handle_deadlines :: "runtime_env \<Rightarrow> drain_event list \<Rightarrow> unit runtime_run" where
  "handle_deadlines E script s =
     (if rt_shutdown_requested s then (Inl (Exit ShutdownRequested), s)
      else
        let now = rt_now s;
            s1 = fold (expire_removal now) (expired_removals now s) s;
            s2 = fold hard_abort_removal (hard_abort_removals now s1) s1
        in run_due_restarts E (due_restarts now s2) script s2)"

text \<open>
  The commands queued when a deadline is due; a shutdown request may arrive between any two,
  and the yield before the batch takes time.
\<close>

datatype batch_event =
  BatchCommand supervisor_command | BatchShutdown | BatchElapse instant | BatchDisconnected

fun drain_deadline_command_batch :: "runtime_env \<Rightarrow> batch_event list \<Rightarrow> unit runtime_run" where
  "drain_deadline_command_batch E [] s =
     (if rt_shutdown_requested s then (Inl (Exit ShutdownRequested), s) else (Inr (), s))"
| "drain_deadline_command_batch E (BatchShutdown # batch) s =
     drain_deadline_command_batch E batch (s\<lparr>rt_shutdown_requested := True\<rparr>)"
| "drain_deadline_command_batch E (BatchElapse t # batch) s =
     drain_deadline_command_batch E batch (elapse t s)"
| "drain_deadline_command_batch E (BatchDisconnected # batch) s =
     (if rt_shutdown_requested s then (Inl (Exit ShutdownRequested), s)
      else (Inr (), s\<lparr>rt_commands_open := False\<rparr>))"
| "drain_deadline_command_batch E (BatchCommand cmd # batch) s =
     (if rt_shutdown_requested s then (Inl (Exit ShutdownRequested), s)
      else case handle_command E cmd s of
        (Inl h, s1) \<Rightarrow> (Inl h, s1)
      | (Inr _, s1) \<Rightarrow> drain_deadline_command_batch E batch s1)"

section \<open>The next wake-up\<close>

datatype wake =
    WakeShutdown
  | WakeCommand "supervisor_command option"
  | WakeReady child_ready
  | WakeNestedSnapshot nested_snapshot_notification
  | WakeDeadline
  | WakeJoined joined

text \<open>
  What the poll that completes the \<open>select!\<close> finds: the clock, the shutdown flag, the heads of
  the command, readiness and nested snapshot queues, and a finished task.
\<close>

record wake_inputs =
  wi_now :: instant
  wi_shutdown :: bool
  wi_command :: "supervisor_command option option"
  wi_ready :: "child_ready option"
  wi_nested :: "nested_snapshot_notification option"
  wi_joined :: "joined option"

definition deadline_due :: "runtime \<Rightarrow> bool" where
  "deadline_due s \<longleftrightarrow> (case earliest_deadline s of None \<Rightarrow> False | Some d \<Rightarrow> d \<le> rt_now s)"

definition select_poll :: "wake_inputs \<Rightarrow> runtime \<Rightarrow> runtime" where
  "select_poll inp s =
     (elapse (wi_now inp) s)\<lparr>rt_shutdown_requested := rt_shutdown_requested s \<or> wi_shutdown inp\<rparr>"

text \<open>The join set only yields results of its own tasks.\<close>

definition ready_join :: "wake_inputs \<Rightarrow> runtime \<Rightarrow> joined option" where
  "ready_join inp s =
     (case wi_joined inp of
        None \<Rightarrow> None
      | Some j \<Rightarrow> if joined_id j \<in> set (rt_join_set s) then Some j else None)"

definition select_wake :: "wake_inputs \<Rightarrow> runtime \<Rightarrow> wake option" where
  "select_wake inp s =
     (if rt_shutdown_requested s then Some WakeShutdown
      else case (if rt_commands_open s then wi_command inp else None) of
        Some c \<Rightarrow> Some (WakeCommand c)
      | None \<Rightarrow>
          (case wi_ready inp of
             Some r \<Rightarrow> Some (WakeReady r)
           | None \<Rightarrow>
               (case wi_nested inp of
                  Some n \<Rightarrow> Some (WakeNestedSnapshot n)
                | None \<Rightarrow>
                    if deadline_due s then Some WakeDeadline
                    else map_option WakeJoined (ready_join inp s))))"

definition next_wake :: "wake_inputs \<Rightarrow> runtime \<Rightarrow> wake option \<times> runtime" where
  "next_wake inp s =
     (if rt_shutdown_requested s then (Some WakeShutdown, s)
      else if deadline_due s then (Some WakeDeadline, s)
      else (select_wake inp (select_poll inp s), select_poll inp s))"

fun handle_wake ::
    "runtime_env \<Rightarrow> wake \<Rightarrow> batch_event list \<Rightarrow> drain_event list \<Rightarrow> unit runtime_run" where
  "handle_wake E WakeShutdown batch script s = (Inl (Exit ShutdownRequested), s)"
| "handle_wake E (WakeCommand (Some cmd)) batch script s = handle_command E cmd s"
| "handle_wake E (WakeCommand None) batch script s = (Inr (), s\<lparr>rt_commands_open := False\<rparr>)"
| "handle_wake E (WakeNestedSnapshot n) batch script s = (Inr (), handle_nested_snapshot n s)"
| "handle_wake E (WakeReady r) batch script s = handle_child_ready E r s"
| "handle_wake E (WakeJoined j) batch script s = handle_joined_child E j s"
| "handle_wake E WakeDeadline batch script s =
     (case drain_deadline_command_batch E batch s of
        (Inl h, s1) \<Rightarrow> (Inl h, s1)
      | (Inr _, s1) \<Rightarrow> handle_deadlines E script s1)"

text \<open>One turn of the loop; a poll that finds nothing ready leaves the loop waiting.\<close>

definition run_turn ::
    "runtime_env \<Rightarrow> wake_inputs \<Rightarrow> batch_event list \<Rightarrow> drain_event list \<Rightarrow> unit runtime_run" where
  "run_turn E inp batch script s =
     (case next_wake inp s of
        (None, s1) \<Rightarrow> (Inr (), s1)
      | (Some w, s1) \<Rightarrow> handle_wake E w batch script s1)"

section \<open>The epilogue of a run\<close>

definition settle_shutdown ::
    "supervisor_error option \<Rightarrow> (halt + unit) \<times> runtime \<Rightarrow> (halt + unit) \<times> runtime" where
  "settle_shutdown failure p =
     (case p of
        (Inl Blocked, s) \<Rightarrow> (Inl Blocked, s)
      | (Inl Panic, s) \<Rightarrow> (Inl Panic, s)
      | (r, s) \<Rightarrow>
          (case failure of None \<Rightarrow> r | Some err \<Rightarrow> Inl (Exit (Failure err)),
           resolve_pending_removals failure s))"

definition run_epilogue ::
    "runtime_env \<Rightarrow> exit_reason \<Rightarrow> drain_event list \<Rightarrow> unit runtime_run" where
  "run_epilogue E reason script s =
     (case reason of
        ShutdownRequested \<Rightarrow> settle_shutdown None (shutdown_all E script s)
      | Failure err \<Rightarrow>
          (case err of
             StartupAborted m \<Rightarrow> settle_shutdown (Some err) (shutdown_all E script s)
           | _ \<Rightarrow>
               (Inl (Exit (Failure err)),
                resolve_pending_removals (Some err)
                  (if rm_revivable (rt_meta s) then detach_nested_children s else s))))"

end
