(* ===== verification/Loop_Properties.thy ===== *)
theory Loop_Properties
  imports Runtime_Loop
begin

text \<open>
  The main loop is sound: construction establishes the invariant of a run, and every turn, the
  due deadlines and group restarts included, and every step of the environment keep it.
\<close>

section \<open>Restarts\<close>

lemma outcome_ok_mono:
  "outcome_ok I Q p \<Longrightarrow> (\<And>s. I s \<Longrightarrow> I' s) \<Longrightarrow> (\<And>e. Q e \<Longrightarrow> Q' e) \<Longrightarrow> outcome_ok I' Q' p"
  by (simp add: outcome_ok_def)

lemma outcome_ok_drain: "outcome_ok I tolerated p \<Longrightarrow> outcome_ok I tolerated_drain p"
  by (erule outcome_ok_mono) (simp_all add: tolerated_drain_def)

lemma inv_gate_present: "run_inv N M L s \<Longrightarrow> current_gate s = Some g \<Longrightarrow> rm_kind M = Ordered"
  by (cases "rm_kind M") (auto simp: run_inv_def current_gate_def)

lemma core_child_at: "core s = core s' \<Longrightarrow> child_at s k = child_at s' k"
  using core_fields [of s s'] by simp

lemma set_gate_children [simp]: "rt_children (set_gate g s) = rt_children s"
  by (simp add: set_gate_def)

lemma ok_restart_one:
  assumes E: "env_ok E" and inv: "run_inv N M L s"
  shows "outcome_ok (run_inv N M L) tolerated (restart_one E k s)"
proof (cases "\<exists>e. child_at s k = Some e \<and> ce_membership e = MActive \<and> child_state e = Stopped \<and>
    child_deadline e \<noteq> None")
  case False
  with inv show ?thesis by (auto simp: restart_one_def split: option.split)
next
  case True
  then obtain e where e: "child_at s k = Some e" "ce_membership e = MActive"
    "child_state e = Stopped" "child_deadline e \<noteq> None" by blast
  have idx: "index_runtime k g s = update_runtime k g s" for g
    using e(1) by (simp add: index_runtime_present)
  let ?f = "\<lambda>r. r\<lparr>cr_next_restart_deadline := None\<rparr>"
  let ?s = "update_runtime k ?f s"
  have inv1: "run_inv N M L ?s" by (rule inv_set_runtime_fields(3) [OF inv])
  have e1: "child_at ?s k = Some (on_runtime ?f e)" using e(1) by (simp add: update_runtime_def)
  obtain old new s2 where sp: "spawn_child E k ?s = (Inr (old, new), s2)"
    using spawn_child_result [OF inv_wf [OF inv1] e1, of E] by (cases "spawn_child E k ?s") auto
  have inv2: "run_inv N M L s2" using inv_spawn_child [OF E inv1 e1] sp e(3) by simp
  have "child_at s2 k = child_at (spawn_effect E k (on_runtime ?f e) ?s) k"
    using spawn_child_result [OF inv_wf [OF inv1] e1, of E] sp by (intro core_child_at) simp
  then have present: "child_at s2 k \<noteq> None" by (simp add: spawn_effect_def Let_def)
  show ?thesis
    using e inv2 present inv_gate_present [OF inv2] ok_advance_start_sequence [OF E]
    by (auto simp: restart_one_def Let_def sp idx split: option.split)
qed

lemma inv_drop_group_members [simp]:
  "run_inv N M L s \<Longrightarrow> run_inv N M L (drop_group_members ks s)"
  by (simp add: run_inv_def drop_group_members_def ledger_def)

lemma ok_respawn_group:
  assumes "env_ok E" and "run_inv N M L s"
  shows "outcome_ok (run_inv N M L) tolerated (respawn_group E ks b s)"
  unfolding respawn_group_def
  by (rule ok_schedule_start_sequence [OF assms(1)]) (use assms(2) in simp)

lemma current_child_present: "current_child_matches k l g s \<Longrightarrow> child_at s k \<noteq> None"
  by (auto simp: current_child_matches_def split: option.splits)

lemma ok_apply_drained:
  assumes "env_ok E" and "run_inv N M L s"
  shows "outcome_ok (run_inv N M L) tolerated (apply_drained_completion E c s)"
    and "outcome_ok (run_inv N M L) tolerated (apply_deferred_exit E c s)"
  using assms ok_apply_exit_policy [OF assms] current_child_present
  by (auto simp: apply_drained_completion_def apply_deferred_exit_def)

lemma ok_restart_group:
  assumes E: "env_ok E" and inv: "run_inv N M L s"
  shows "outcome_ok (run_inv N M L) tolerated_drain (restart_group E k b script s)"
proof -
  have "sound (run_inv N M L) tolerated (and_then
      (for_each (apply_drained_completion E) cs) (\<lambda>_. respawn_group E ks b))" for cs ks
    by (intro sound_and_then sound_for_each soundI)
      (auto intro: ok_apply_drained(1) [OF E] ok_respawn_group [OF E])
  then have rest: "outcome_ok (run_inv N M L) tolerated_drain (and_then
      (for_each (apply_drained_completion E) cs) (\<lambda>_. respawn_group E ks b) s')"
    if "run_inv N M L s'" for cs ks s'
    using that by (intro outcome_ok_drain) (auto dest: soundD)
  show ?thesis unfolding restart_group_def Let_def
    using inv
    by (auto split: option.split intro!: outcome_ok_drain_bind inv_drain_scope_for outcome_ok_bind rest)
qed

section \<open>Due deadlines\<close>

lemma ledger_keep_reply:
  assumes "\<And>e. child_at s k = Some e \<Longrightarrow> pending_replies (f e) = pending_replies e"
  shows "ledger (update_child k f s) = ledger s"
  using assms slab_collect_update [of "rt_children s" k pending_replies f] by (simp add: ledger_def)

text \<open>Changing the deadlines of a pending removal keeps its reply channel.\<close>

lemma inv_update_pending:
  assumes inv: "run_inv N M L s" and f: "\<And>p. pr_reply (f p) = pr_reply p"
  shows "run_inv N M L (update_child k (\<lambda>e. e\<lparr>ce_pending_removal :=
    map_option f (ce_pending_removal e)\<rparr>) s)" (is "run_inv N M L (update_child k ?f s)")
proof -
  have "consistent (update_child k ?f s)"
    using inv wf_entry [OF inv_wf [OF inv]]
    by (intro wf_update_child_all) (auto simp: run_inv_def same_task_def entry_ok_def has_task_def)
  moreover have "ledger (update_child k ?f s) = ledger s"
    using f by (intro ledger_keep_reply) (auto simp: pending_replies_def split: option.split)
  ultimately show ?thesis using inv by (simp add: run_inv_def)
qed

text \<open>The keys whose removal is pending.\<close>

definition pending_at :: "runtime \<Rightarrow> nat \<Rightarrow> bool" where
  "pending_at s k \<longleftrightarrow> Option.bind (child_at s k) ce_pending_removal \<noteq> None"

lemma pending_at_iff: "pending_at s k \<longleftrightarrow> (\<exists>e p. child_at s k = Some e \<and> ce_pending_removal e = Some p)"
  by (auto simp: pending_at_def bind_eq_Some_conv)

lemma pending_present: "pending_at s k \<Longrightarrow> child_at s k \<noteq> None"
  by (auto simp: pending_at_iff)

lemma inv_index_pending:
  assumes "run_inv N M L s" "pending_at s k" and "\<And>p. pr_reply (f p) = pr_reply p"
  shows "run_inv N M L (index_pending_removal k f s)"
proof -
  have "Option.bind (child_at s k) ce_pending_removal \<noteq> None" using assms(2) unfolding pending_at_def .
  then have "(Option.bind (child_at s k) ce_pending_removal = None) = False" by blast
  then show ?thesis
    unfolding index_pending_removal_def using inv_update_pending [OF assms(1,3)] by (simp only: panic_if_False)
qed

lemma index_pending_at [simp]: "pending_at (index_pending_removal k f s) j = pending_at s j"
  by (cases "child_at s k") (auto simp: pending_at_iff index_pending_removal_def)

lemma signal_pending [simp]:
  "pending_at (abort_child k s) j = pending_at s j" "pending_at (escalate_child k s) j = pending_at s j"
  by (cases "child_at s k"; auto simp: pending_at_iff abort_child_def escalate_child_def index_runtime_def
      index_child_def Let_def split: option.split)+

lemma inv_expire_removal:
  assumes "run_inv N M L s" "pending_at s (fst kg)"
  shows "run_inv N M L (expire_removal now kg s) \<and> pending_at (expire_removal now kg s) = pending_at s"
proof -
  obtain k g where kg: "kg = (k, g)" by (cases kg)
  show ?thesis
    using assms inv_index_pending [OF assms(1), of k] pending_present
    by (auto simp: kg expire_removal_def fun_eq_iff intro!: inv_signal)
qed

lemma inv_hard_abort_removal:
  assumes "run_inv N M L s" "pending_at s k"
  shows "run_inv N M L (hard_abort_removal k s) \<and> pending_at (hard_abort_removal k s) = pending_at s"
  using assms inv_index_pending [OF assms] pending_present
  by (auto simp: hard_abort_removal_def fun_eq_iff intro!: inv_signal)

text \<open>A pass over keys with a pending removal, by a step that keeps them pending.\<close>

lemma inv_fold_pending:
  assumes "\<And>x s. run_inv N M L s \<Longrightarrow> pending_at s (key x) \<Longrightarrow>
      run_inv N M L (f x s) \<and> pending_at (f x s) = pending_at s"
  shows "run_inv N M L s \<Longrightarrow> \<forall>x \<in> set xs. pending_at s (key x) \<Longrightarrow> run_inv N M L (fold f xs s)"
  using assms by (induction xs arbitrary: s) auto

lemma map_filter_mem: "y \<in> set (List.map_filter f xs) \<Longrightarrow> \<exists>x. f x = Some y"
  by (auto simp: List.map_filter_def)

lemma expired_pending: "kg \<in> set (expired_removals now s) \<Longrightarrow> pending_at s (fst kg)"
  unfolding expired_removals_def
  by (drule map_filter_mem, elim exE) (auto simp: pending_at_iff split: option.splits if_splits)

lemma hard_abort_pending: "k \<in> set (hard_abort_removals now s) \<Longrightarrow> pending_at s k"
  by (auto simp: hard_abort_removals_def pending_at_iff split: option.splits)

lemma due_present: "k \<in> set (due_restarts now s) \<Longrightarrow> child_at s k \<noteq> None"
  by (auto simp: due_restarts_def split: option.splits)

lemma ok_run_due_restarts:
  assumes E: "env_ok E" and inv: "run_inv N M L s" and due: "\<forall>k \<in> set due. child_at s k \<noteq> None"
  shows "outcome_ok (run_inv N M L) tolerated_drain (run_due_restarts E due script s)"
proof -
  have each: "outcome_ok (run_inv N M L) tolerated_drain (for_each f ks s')"
    if "run_inv N M L s'" "\<And>k s. run_inv N M L s \<Longrightarrow> outcome_ok (run_inv N M L) tolerated (f k s)"
    for f :: "'k \<Rightarrow> unit runtime_run" and ks s'
    using that by (intro outcome_ok_drain soundD [OF sound_for_each] soundI)
  show ?thesis
    unfolding run_due_restarts_def using inv due
    by (auto simp: index_runtime_present split: strategy.split list.split intro!: each ok_restart_one [OF E]
        outcome_ok_drain [OF ok_restart_one [OF E]] ok_apply_drained(2) [OF E] outcome_ok_bind ok_restart_group [OF E] inv_set_runtime_fields(3))
qed

lemma ok_handle_deadlines:
  assumes E: "env_ok E" and inv: "run_inv N M L s"
  shows "outcome_ok (run_inv N M L) tolerated_drain (handle_deadlines E script s)"
proof -
  let ?now = "rt_now s"
  let ?s1 = "fold (expire_removal ?now) (expired_removals ?now s) s"
  let ?s2 = "fold hard_abort_removal (hard_abort_removals ?now ?s1) ?s1"
  have i1: "run_inv N M L ?s1"
    using inv expired_pending by (intro inv_fold_pending [where key = fst] inv_expire_removal) auto
  have i2: "run_inv N M L ?s2"
    using i1 hard_abort_pending
    by (intro inv_fold_pending [where key = id]) (auto simp: inv_hard_abort_removal)
  have "outcome_ok (run_inv N M L) tolerated_drain (run_due_restarts E (due_restarts ?now ?s2) script ?s2)"
    using due_present by (intro ok_run_due_restarts [OF E i2]) blast
  with inv show ?thesis by (simp add: handle_deadlines_def Let_def tolerated_drain_def)
qed

section \<open>One turn\<close>

text \<open>
  Only the handle of a dynamic scope can send commands, and each insertion command carries its
  kind of child.
\<close>

definition commands_fit :: "runtime_meta \<Rightarrow> wake_inputs \<Rightarrow> batch_event list \<Rightarrow> bool" where
  "commands_fit M inp batch \<longleftrightarrow>
     (\<forall>cmd. wi_command inp = Some (Some cmd) \<or> BatchCommand cmd \<in> set batch \<longrightarrow>
        rm_kind M = Dynamic \<and> command_fits cmd)"

lemma ok_handle_command_bound:
  assumes "env_ok E" and inv: "run_inv N M L s" and "N < u64_max"
    and "rm_kind M = Dynamic \<and> command_fits cmd"
  shows "outcome_ok (run_inv (Suc N) M L) tolerated (handle_command E cmd s)"
  using assms by (intro ok_handle_command) (auto simp: run_inv_def)

lemma inv_elapse [simp]: "run_inv N M L (elapse t s) = run_inv N M L s"
  by (simp add: elapse_def)

lemma ok_drain_deadline_command_batch:
  assumes E: "env_ok E"
  shows "run_inv N M L s \<Longrightarrow> N + length batch \<le> u64_max \<Longrightarrow>
    \<forall>cmd. BatchCommand cmd \<in> set batch \<longrightarrow> rm_kind M = Dynamic \<and> command_fits cmd \<Longrightarrow>
    outcome_ok (run_inv (N + length batch) M L) tolerated (drain_deadline_command_batch E batch s)"
proof (induction batch arbitrary: N s)
  case Nil
  then show ?case by simp
next
  case (Cons ev batch)
  have mono: "run_inv (Suc (N + length batch)) M L s'" if "run_inv N M L s'" for s'
    using run_inv_mono [OF that] by simp
  have IH: "outcome_ok (run_inv (Suc (N + length batch)) M L) tolerated
      (drain_deadline_command_batch E batch s')" if "run_inv (Suc N) M L s'" for s'
    using Cons.IH [OF that] Cons.prems by auto
  show ?case
  proof (cases ev)
    case (BatchCommand cmd)
    have "outcome_ok (run_inv (Suc N) M L) tolerated (handle_command E cmd s)"
      using Cons.prems BatchCommand by (intro ok_handle_command_bound [OF E]) auto
    then have "outcome_ok (run_inv (Suc (N + length batch)) M L) tolerated
        (case handle_command E cmd s of (Inl h, s1) \<Rightarrow> (Inl h, s1)
         | (Inr _, s1) \<Rightarrow> drain_deadline_command_batch E batch s1)"
      using IH run_inv_mono [of "Suc N" M L _ "Suc (N + length batch)"]
      by (cases "handle_command E cmd s"; cases "fst (handle_command E cmd s)") auto
    with BatchCommand mono [OF Cons.prems(1)] show ?thesis by simp
  qed (use Cons.prems mono run_inv_mono [of N M L _ "Suc N"] in \<open>auto intro!: IH\<close>)
qed

lemma ok_handle_wake:
  assumes E: "env_ok E" and inv: "run_inv N M L s" and len: "N + Suc (length batch) \<le> u64_max"
    and batch: "\<forall>cmd. BatchCommand cmd \<in> set batch \<longrightarrow> rm_kind M = Dynamic \<and> command_fits cmd"
    and cmd: "\<And>cmd. w = WakeCommand (Some cmd) \<Longrightarrow> rm_kind M = Dynamic \<and> command_fits cmd"
    and join: "\<And>j. w = WakeJoined j \<Longrightarrow> joined_id j \<in> set (rt_join_set s)"
  shows "outcome_ok (run_inv (N + Suc (length batch)) M L) tolerated_drain (handle_wake E w batch script s)"
proof -
  have up: "outcome_ok (run_inv (N + Suc (length batch)) M L) tolerated_drain p"
    if "outcome_ok (run_inv N' M L) tolerated p" "N' \<le> N + Suc (length batch)" for N' and p :: "(halt + unit) \<times> runtime"
    using outcome_ok_drain [OF that(1)] that(2) by (auto elim!: outcome_ok_mono intro: run_inv_mono)
  have inv': "run_inv (N + Suc (length batch)) M L s" by (rule run_inv_mono [OF inv]) simp
  show ?thesis
  proof (cases w)
    case (WakeCommand c)
    then show ?thesis
      using inv' cmd up [OF ok_handle_command_bound [OF E inv]] len by (cases c) auto
  next
    case WakeDeadline
    have b: "outcome_ok (run_inv (N + Suc (length batch)) M L) tolerated_drain
        (drain_deadline_command_batch E batch s)"
      using ok_drain_deadline_command_batch [OF E inv _ batch] len by (intro up) auto
    show ?thesis
      unfolding WakeDeadline handle_wake.simps
      by (rule outcome_ok_bind [OF b]) (simp add: ok_handle_deadlines [OF E])
  next
    case (WakeJoined j)
    with join up [OF ok_handle_joined_child [OF E inv]] show ?thesis by simp
  next
    case (WakeReady r)
    with up [OF ok_handle_child_ready [OF E inv]] show ?thesis by simp
  qed (use inv' in \<open>auto simp: tolerated_drain_def inv_handle_nested_snapshot\<close>)
qed

lemma next_wake_cases:
  assumes "next_wake inp s = (w, s1)"
  shows "run_inv N M L s1 = run_inv N M L s" "rt_join_set s1 = rt_join_set s"
    "w = Some (WakeJoined j) \<Longrightarrow> joined_id j \<in> set (rt_join_set s1)"
    "w = Some (WakeCommand c) \<Longrightarrow> wi_command inp = Some c"
  using assms
  by (auto simp: next_wake_def select_poll_def select_wake_def ready_join_def elapse_def
      split: if_splits option.splits)

lemma ok_run_turn:
  assumes E: "env_ok E" and inv: "run_inv N M L s" and "N + Suc (length batch) \<le> u64_max"
    and fit: "commands_fit M inp batch"
  shows "outcome_ok (run_inv (N + Suc (length batch)) M L) tolerated_drain (run_turn E inp batch script s)"
proof -
  obtain w s1 where w: "next_wake inp s = (w, s1)" by (cases "next_wake inp s")
  note c = next_wake_cases [OF w]
  have inv1: "run_inv N M L s1" using inv c(1) by simp
  show ?thesis
  proof (cases w)
    case None
    with w run_inv_mono [OF inv1] show ?thesis by (simp add: run_turn_def)
  next
    case (Some v)
    have "outcome_ok (run_inv (N + Suc (length batch)) M L) tolerated_drain (handle_wake E v batch script s1)"
      using fit c(3,4) Some
      by (intro ok_handle_wake [OF E inv1 assms(3)]) (auto simp: commands_fit_def)
    with w Some show ?thesis by (simp add: run_turn_def)
  qed
qed

end
