(* ===== verification/Incarnation.thy ===== *)
theory Incarnation
  imports Loop_Properties
begin

text \<open>
  The life of one incarnation from its owner's point of view (\<open>supervisor/owner.rs\<close>): binding a
  root or nested supervisor to its stable identity, constructing the runtime, the states its
  loop can reach, and the end of its run.
\<close>

section \<open>Starting an incarnation\<close>

definition initial_attached_children ::
    "supervisor_config \<Rightarrow> (string \<times> nat) list \<Rightarrow> attached_child_state list" where
  "initial_attached_children cfg chans =
     map (\<lambda>(l, d). \<lparr>at_id = cd_id d, at_lineage = l, at_generation = 0,
            at_attachment = cd_attachment d, at_supervisor = map_of chans (cd_id d)\<rparr>)
       (enumerate 0 (cfg_children cfg))"

definition hide_identity :: "nat \<Rightarrow> (nat \<Rightarrow> stable_tree) \<Rightarrow> nat \<Rightarrow> stable_tree" where
  "hide_identity n st = st(n := invalidate_root (st n))"

definition hide_descendants ::
    "attached_child_state list \<Rightarrow> (nat \<Rightarrow> stable_tree) \<Rightarrow> nat \<Rightarrow> stable_tree" where
  "hide_descendants attached st =
     fold hide_identity (List.map_filter at_supervisor attached) st"

text \<open>
  A root supervisor: the identity must not have been classified as root before and must still hold
  the channels of its first incarnation.  Every \<open>None\<close> is a panic of the source, by the
  assertions of \<open>mark_root\<close> and \<open>install_root_extra\<close> or one of the two \<open>expect\<close>s.
\<close>

definition spawn_root ::
    "runtime_env \<Rightarrow> supervisor_config \<Rightarrow> stable_channels \<Rightarrow> nat \<Rightarrow> (string \<times> nat) list
       \<Rightarrow> (nat \<Rightarrow> stable_tree) \<Rightarrow> instant \<Rightarrow> runtime option" where
  "spawn_root E cfg own done_rx chans st now =
     (case mark_root (claim_edge False own) of
        None \<Rightarrow> None
      | Some own0 \<Rightarrow>
          (case take_initial_incarnation 0 own0 of
             (False, _) \<Rightarrow> None
           | (True, own1) \<Rightarrow>
               let attached = initial_attached_children cfg chans in
               (case bind_prepared 0 done_rx (initial_snapshot cfg) attached own1 of
                  (None, _) \<Rightarrow> None
                | (Some epoch, own2) \<Rightarrow>
                    (case install_root_extra own2 of
                       None \<Rightarrow> None
                     | Some own3 \<Rightarrow>
                         runtime_new E cfg own3 epoch None False chans
                           (hide_descendants attached st) now))))"

text \<open>
  A nested supervisor: binding a terminal identity fails, otherwise the identities below are
  reconciled within the binding transaction.
\<close>

definition run_as_child ::
    "runtime_env \<Rightarrow> supervisor_config \<Rightarrow> stable_channels \<Rightarrow> u64 \<Rightarrow> nat \<Rightarrow> parent_link \<Rightarrow> bool
       \<Rightarrow> (string \<times> nat) list \<Rightarrow> (nat \<Rightarrow> stable_tree) \<Rightarrow> instant \<Rightarrow> runtime option" where
  "run_as_child E cfg own generation done_rx link revivable chans st now =
     (let own1 = snd (take_initial_incarnation generation own) in
      case reconcile_stable_identities (cfg_children cfg) chans st of (_, chans1, st1) \<Rightarrow>
        let attached = initial_attached_children cfg chans1 in
        (case bind_prepared generation done_rx (initial_snapshot cfg) attached own1 of
           (None, _) \<Rightarrow> None
         | (Some epoch, own2) \<Rightarrow>
             runtime_new E cfg own2 epoch (Some link) revivable chans1
               (hide_descendants attached st1) now))"

section \<open>Construction establishes the invariant\<close>

lemma reconcile_static_ids:
  assumes "reconcile_static ds ids chans displaced st = (ids', chans', displaced', st')"
  shows "(\<forall>i. map_of ids i \<noteq> None \<longrightarrow> map_of ids' i \<noteq> None) \<and>
    (\<forall>d \<in> set ds. is_supervisor (cd_kind d) \<longrightarrow> map_of ids' (cd_id d) \<noteq> None)"
  using assms
proof (induction ds arbitrary: ids chans displaced st)
  case (Cons d ds)
  show ?case
  proof (cases "cd_kind d")
    case (ChildSupervisor n)
    obtain m c1 d1 s1 where ci: "choose_identity (cd_id d) n chans displaced st = (m, c1, d1, s1)"
      by (cases "choose_identity (cd_id d) n chans displaced st")
    with Cons.prems ChildSupervisor Cons.IH [of "AList.update (cd_id d) m ids" c1 d1 s1] show ?thesis
      by (auto simp: update_conv')
  qed (use Cons in auto)
qed simp

lemma map_filter_same:
  "(\<And>x. x \<in> set xs \<Longrightarrow> f x = g x) \<Longrightarrow> List.map_filter f xs = List.map_filter g xs"
  by (simp add: List.map_filter_def cong: filter_cong)

lemma inv_place_static:
  assumes E: "env_ok E" and inv: "run_inv N M L s" and "rt_task_map s = Map.empty"
    and l: "l < N" "N \<le> u64_max"
    and "cd_id d \<noteq> []" "rt_children_by_id s (cd_id d) = None"
    and "is_supervisor (cd_kind d) \<Longrightarrow> ch \<noteq> None"
  shows "run_inv N M L (place_static E d ch l s)"
proof -
  let ?h = "observe_lineage l (rt_hub s)"
  have "hub_next_lineage ?h \<le> N"
    using inv l by (auto simp: run_inv_def observe_lineage_def Let_def u64_saturating_add_def)
  moreover have "l < hub_next_lineage ?h" by (rule observe_lineage_covers) (use l in simp)
  moreover have "child_at s (env_vacant_key E (rt_children s)) = None" using E by (simp add: env_ok_def)
  ultimately show ?thesis
    using assms observe_lineage_mono [of "rt_hub s" l]
    unfolding place_static_def Let_def by (intro inv_place_child [OF inv]) auto
qed

text \<open>The id and lineage of each child, in declaration order.\<close>

definition roster :: "runtime \<Rightarrow> (string \<times> u64) list" where
  "roster s = map (\<lambda>e. (ce_id e, ce_lineage e)) (ordered_entries s)"

lemma roster_place_static:
  assumes E: "env_ok E" and c: "consistent s"
  shows "roster (place_static E d ch l s) = roster s @ [(cd_id d, l)]"
proof -
  let ?k = "env_vacant_key E (rt_children s)"
  have "?k \<notin> set (rt_child_order s)" using E wf_order [OF c, of ?k] by (simp add: env_ok_def)
  then have "List.map_filter (child_at (place_static E d ch l s)) (rt_child_order s)
      = List.map_filter (child_at s) (rt_child_order s)"
    by (intro map_filter_same) (auto simp: place_static_def Let_def slab_get_put)
  moreover have "rt_child_order (place_static E d ch l s) = rt_child_order s @ [?k]"
    "child_at (place_static E d ch l s) ?k = Some (child_entry_new (env_seed E (rt_now s)) (cd_id d) d ch l)"
    by (simp_all add: place_static_def Let_def)
  ultimately show ?thesis
    by (simp add: roster_def ordered_entries_def map_filter_simps List.map_filter_def)
qed

lemma inv_insert_static:
  assumes E: "env_ok E" and N: "N \<le> u64_max"
  shows "run_inv N M L s \<Longrightarrow> rt_task_map s = Map.empty \<Longrightarrow> distinct (map cd_id ds) \<Longrightarrow>
    \<forall>d \<in> set ds. cd_id d \<noteq> [] \<and> rt_children_by_id s (cd_id d) = None \<and>
      (is_supervisor (cd_kind d) \<longrightarrow> map_of ids (cd_id d) \<noteq> None) \<Longrightarrow>
    map (\<lambda>d. declared_lineage (cd_id d) (st_snapshot (rt_own s))) ds = map Some ls \<Longrightarrow>
    \<forall>l \<in> set ls. l < N \<Longrightarrow>
    \<exists>s'. insert_static E ids ds s = Some s' \<and> run_inv N M L s' \<and>
      roster s' = roster s @ zip (map cd_id ds) ls \<and> rt_task_map s' = Map.empty \<and>
      rt_received s' = rt_received s"
proof (induction ds arbitrary: ids ls s)
  case Nil
  then show ?case by simp
next
  case (Cons d ds)
  from Cons.prems(5) obtain l ls' where ls: "ls = l # ls'"
    "declared_lineage (cd_id d) (st_snapshot (rt_own s)) = Some l"
    "map (\<lambda>d. declared_lineage (cd_id d) (st_snapshot (rt_own s))) ds = map Some ls'"
    by (cases ls) auto
  obtain ch ids1 where ti: "take_identity d ids = Some (ch, ids1)"
    and ch: "is_supervisor (cd_kind d) \<Longrightarrow> ch \<noteq> None"
    and ids1: "\<And>i. i \<noteq> cd_id d \<Longrightarrow> map_of ids1 i = map_of ids i"
    using Cons.prems(4) by (cases "cd_kind d") (auto simp: take_identity_def delete_conv')
  let ?s = "place_static E d ch l s"
  have inv: "run_inv N M L ?s"
    using Cons.prems ls ch by (intro inv_place_static [OF E _ _ _ N]) auto
  have fields: "rt_task_map ?s = rt_task_map s" "rt_received ?s = rt_received s"
    "st_snapshot (rt_own ?s) = st_snapshot (rt_own s)"
    "\<And>i. i \<noteq> cd_id d \<Longrightarrow> rt_children_by_id ?s i = rt_children_by_id s i"
    by (simp_all add: place_static_def Let_def)
  have "\<exists>s'. insert_static E ids1 ds ?s = Some s' \<and> run_inv N M L s' \<and>
      roster s' = roster ?s @ zip (map cd_id ds) ls' \<and> rt_task_map s' = Map.empty \<and>
      rt_received s' = rt_received ?s"
    using Cons.prems ls fields ids1
    by (intro Cons.IH [OF inv]) (auto, (metis image_eqI)+)
  with ti ls show ?case by (simp add: roster_place_static [OF E inv_wf [OF Cons.prems(1)]] fields)
qed

lemma with_lineage_fields [simp]: "cs_id (with_lineage l c) = cs_id c" "cs_lineage (with_lineage l c) = l"
  by (cases c; simp)+

lemma assign_lineages_zip:
  assumes "assign_lineages cs as h = (cs', as', h')" "hub_next_lineage h + length cs \<le> u64_max"
  shows "map (\<lambda>c. (cs_id c, cs_lineage c)) cs' =
      zip (map cs_id cs) [hub_next_lineage h ..< hub_next_lineage h + length cs] \<and>
    hub_next_lineage h' = hub_next_lineage h + length cs"
  using assms
proof (induction cs arbitrary: as h cs' as' h')
  case (Cons c cs)
  let ?n = "hub_next_lineage h"
  have nl: "next_lineage h = (?n, h\<lparr>hub_next_lineage := Suc ?n\<rparr>)"
    using Cons.prems(2) by (simp add: next_lineage_def u64_saturating_add_def)
  let ?h = "h\<lparr>hub_next_lineage := Suc ?n\<rparr>"
  obtain cs1 as1 h1 where rec: "assign_lineages cs (set_attached_lineage (cs_id c) ?n as) ?h = (cs1, as1, h1)"
    by (cases "assign_lineages cs (set_attached_lineage (cs_id c) ?n as) ?h") auto
  from Cons.IH [OF rec] Cons.prems show ?case
    by (auto simp: nl rec upt_conv_Cons simp del: upt_Suc)
qed simp

lemma initial_snapshot_ids: "map cs_id (ss_children (initial_snapshot cfg)) = map cd_id (cfg_children cfg)"
proof -
  have "map (\<lambda>(l, d). cs_id (declared_child l d)) (enumerate n ds) = map cd_id ds" for n ds
    by (induction ds arbitrary: n) (auto simp: declared_child_def)
  then show ?thesis by (simp add: initial_snapshot_def comp_def case_prod_beta')
qed

text \<open>Binding gives each static child a fresh lineage of the identity, in declaration order.\<close>

lemma bind_prepared_lineages:
  assumes bind: "bind_prepared g rx (initial_snapshot cfg) attached own = (Some epoch, own')"
    and bound: "hub_next_lineage (st_lifecycle own) + length (cfg_children cfg) \<le> u64_max"
    and dist: "distinct (map cd_id (cfg_children cfg))"
  shows "hub_next_lineage (st_lifecycle own') =
      hub_next_lineage (st_lifecycle own) + length (cfg_children cfg)"
    and "map (\<lambda>d. declared_lineage (cd_id d) (st_snapshot own')) (cfg_children cfg) =
      map Some [hub_next_lineage (st_lifecycle own) ..<
        hub_next_lineage (st_lifecycle own) + length (cfg_children cfg)]"
proof -
  let ?cs = "ss_children (initial_snapshot cfg)"
  let ?n = "hub_next_lineage (st_lifecycle own)"
  let ?ids = "map cd_id (cfg_children cfg)"
  obtain cs' as' h' where al: "assign_lineages ?cs attached (st_lifecycle own) = (cs', as', h')"
    by (cases "assign_lineages ?cs attached (st_lifecycle own)") auto
  have len: "length ?cs = length (cfg_children cfg)"
    using arg_cong [OF initial_snapshot_ids, of length] by simp
  note z = assign_lineages_zip [OF al, unfolded len initial_snapshot_ids, OF bound]
  have own': "st_lifecycle own' = h'" "ss_children (st_snapshot own') = cs'"
    using bind by (auto simp: bind_prepared_def Let_def al bump_binding_revision_def split: if_splits)
  show "hub_next_lineage (st_lifecycle own') = ?n + length (cfg_children cfg)"
    using z own' by simp
  have "declared_lineage (?ids ! i) (st_snapshot own') = Some (?n + i)" if "i < length ?ids" for i
  proof -
    have "(?ids ! i, ?n + i) \<in> set (rev (zip ?ids [?n ..< ?n + length (cfg_children cfg)]))"
      using that by (auto simp: set_zip intro!: exI [of _ i])
    moreover have "distinct (map fst (rev (zip ?ids [?n ..< ?n + length (cfg_children cfg)])))"
      using dist by (simp add: rev_map [symmetric])
    ultimately show ?thesis using z own' by (simp add: declared_lineage_def)
  qed
  then show "map (\<lambda>d. declared_lineage (cd_id d) (st_snapshot own')) (cfg_children cfg) =
      map Some [?n ..< ?n + length (cfg_children cfg)]"
    by (intro nth_equalityI) auto
qed

definition meta_for :: "supervisor_config \<Rightarrow> u64 \<Rightarrow> bool \<Rightarrow> runtime_meta" where
  "meta_for cfg epoch revivable =
     \<lparr>rm_strategy = cfg_strategy cfg, rm_kind = cfg_kind cfg,
      rm_default_child_restart = cfg_default_child_restart cfg,
      rm_default_child_shutdown = cfg_default_child_shutdown cfg,
      rm_binding_epoch = epoch, rm_revivable = revivable\<rparr>"

lemma inv_runtime_empty:
  assumes "hub_next_lineage (st_lifecycle own) \<le> N"
  shows "run_inv N (meta_for cfg epoch rv) {#} (runtime_empty cfg own epoch link rv chans st now)"
  using assms
  by (simp add: run_inv_def consistent_def order_ok_def index_ok_def entries_ok_def tasks_ok_def
      ledger_def runtime_empty_def meta_for_def)

text \<open>What a configuration must satisfy for an incarnation to start; the builders check it.\<close>

definition config_ok :: "supervisor_config \<Rightarrow> bool" where
  "config_ok cfg \<longleftrightarrow>
     distinct (map cd_id (cfg_children cfg)) \<and> (\<forall>d \<in> set (cfg_children cfg). cd_id d \<noteq> [])"

lemma inv_runtime_new:
  assumes E: "env_ok E" and cfg: "config_ok cfg"
    and bound: "hub_next_lineage (st_lifecycle own) \<le> N" "N \<le> u64_max"
    and decl: "map (\<lambda>d. declared_lineage (cd_id d) (st_snapshot own)) (cfg_children cfg) = map Some ls"
      "\<forall>l \<in> set ls. l < N"
  shows "\<exists>s. runtime_new E cfg own epoch link rv chans st now = Some s \<and>
    run_inv N (meta_for cfg epoch rv) {#} s \<and> roster s = zip (map cd_id (cfg_children cfg)) ls \<and>
    rt_task_map s = Map.empty \<and> rt_received s = []"
proof -
  obtain ids c1 d1 st1 where rec: "reconcile_static (cfg_children cfg) [] chans [] st = (ids, c1, d1, st1)"
    by (cases "reconcile_static (cfg_children cfg) [] chans [] st") auto
  obtain c2 st2 where rec2: "reconcile_stable_identities (cfg_children cfg) chans st = (ids, c2, st2)"
    by (simp add: reconcile_stable_identities_def rec Let_def)
  let ?s = "runtime_empty cfg own epoch link rv c2 st2 now"
  have "\<exists>s'. insert_static E ids (cfg_children cfg) ?s = Some s' \<and>
      run_inv N (meta_for cfg epoch rv) {#} s' \<and>
      roster s' = roster ?s @ zip (map cd_id (cfg_children cfg)) ls \<and> rt_task_map s' = Map.empty \<and>
      rt_received s' = rt_received ?s"
    using cfg decl reconcile_static_ids [OF rec] inv_runtime_empty [OF bound(1)]
    by (intro inv_insert_static [OF E bound(2)]) (auto simp: runtime_empty_def config_ok_def)
  then show ?thesis
    by (auto simp: runtime_new_def rec2) (auto simp: runtime_empty_def roster_def ordered_entries_def map_filter_simps)
qed

text \<open>The initial states of root and nested incarnations bound to an identity.\<close>

inductive incarnation :: "runtime_env \<Rightarrow> supervisor_config \<Rightarrow> stable_channels \<Rightarrow> runtime \<Rightarrow> bool" where
  root: "spawn_root E cfg own rx chans st now = Some s \<Longrightarrow> incarnation E cfg own s"
| nested: "run_as_child E cfg own generation rx link revivable chans st now = Some s \<Longrightarrow>
    incarnation E cfg own s"

definition first_lineages :: "supervisor_config \<Rightarrow> stable_channels \<Rightarrow> u64" where
  "first_lineages cfg own = hub_next_lineage (st_lifecycle own) + length (cfg_children cfg)"

text \<open>The state of a fresh incarnation of a configuration on an identity.\<close>

definition fresh_incarnation ::
    "supervisor_config \<Rightarrow> stable_channels \<Rightarrow> u64 \<Rightarrow> bool \<Rightarrow> runtime \<Rightarrow> bool" where
  "fresh_incarnation cfg own epoch revivable s \<longleftrightarrow>
     run_inv (first_lineages cfg own) (meta_for cfg epoch revivable) {#} s \<and>
     roster s = zip (map cd_id (cfg_children cfg))
       [hub_next_lineage (st_lifecycle own) ..< first_lineages cfg own] \<and>
     rt_task_map s = Map.empty \<and> rt_received s = []"

lemma bound_runtime_new:
  assumes E: "env_ok E" and cfg: "config_ok cfg" and N: "first_lineages cfg own \<le> u64_max"
    and bind: "bind_prepared g rx (initial_snapshot cfg) attached own = (Some epoch, own1)"
    and own2: "st_lifecycle own2 = st_lifecycle own1" "st_snapshot own2 = st_snapshot own1"
  shows "\<exists>s. runtime_new E cfg own2 epoch link rv chans st now = Some s \<and>
    fresh_incarnation cfg own epoch rv s"
proof -
  have dist: "distinct (map cd_id (cfg_children cfg))" using cfg by (simp add: config_ok_def)
  note b = bind_prepared_lineages [OF bind N [unfolded first_lineages_def] dist]
  show ?thesis
    using inv_runtime_new [OF E cfg _ N, of own2 "[hub_next_lineage (st_lifecycle own) ..< first_lineages cfg own]"
        epoch link rv chans st now] b own2
    by (auto simp: fresh_incarnation_def first_lineages_def)
qed

lemma bind_prepared_epoch:
  "\<not> st_terminal own \<Longrightarrow> \<exists>own'. bind_prepared g rx sn attached own = (Some (st_next_binding_epoch own), own')"
  "bind_prepared g rx sn attached own = (Some epoch, own') \<Longrightarrow> epoch = st_next_binding_epoch own"
  by (auto simp: bind_prepared_def Let_def split: prod.splits if_splits)

lemma take_initial_fields:
  "take_initial_incarnation g own = (b, own1) \<Longrightarrow>
   st_lifecycle own1 = st_lifecycle own \<and> st_terminal own1 = st_terminal own \<and>
   st_next_binding_epoch own1 = st_next_binding_epoch own"
  by (auto simp: take_initial_incarnation_def split: if_splits)

lemma mark_root_fields:
  "mark_root (claim_edge b own) = Some own' \<Longrightarrow>
   st_lifecycle own' = st_lifecycle own \<and> st_terminal own' = st_terminal own \<and>
   st_next_binding_epoch own' = st_next_binding_epoch own \<and>
   st_initial_incarnation own' = st_initial_incarnation own \<and>
   st_root_extra own' = RootPending \<and> st_root_extra own = NotRoot"
  by (auto simp: mark_root_def claim_edge_def split: if_splits)

lemma root_slot_kept:
  "take_initial_incarnation g own = (b, own') \<Longrightarrow> st_root_extra own' = st_root_extra own"
  "bind_prepared g rx sn as own = (r, own') \<Longrightarrow> st_root_extra own' = st_root_extra own"
  by (auto simp: take_initial_incarnation_def bind_prepared_def Let_def bump_binding_revision_def
      split: if_splits prod.splits)

lemma run_as_child_starts:
  assumes E: "env_ok E" and cfg: "config_ok cfg" and N: "first_lineages cfg own \<le> u64_max"
    and live: "\<not> st_terminal own"
  shows "\<exists>s. run_as_child E cfg own g rx link rv chans st now = Some s \<and>
    fresh_incarnation cfg own (st_next_binding_epoch own) rv s"
proof -
  obtain b own1 where ti: "take_initial_incarnation g own = (b, own1)"
    by (cases "take_initial_incarnation g own")
  note f = take_initial_fields [OF ti]
  obtain ids chans1 st1 where rec: "reconcile_stable_identities (cfg_children cfg) chans st = (ids, chans1, st1)"
    by (cases "reconcile_stable_identities (cfg_children cfg) chans st") auto
  let ?as = "initial_attached_children cfg chans1"
  have "\<not> st_terminal own1" using f live by simp
  then obtain own2 where bind: "bind_prepared g rx (initial_snapshot cfg) ?as own1 =
      (Some (st_next_binding_epoch own1), own2)"
    using bind_prepared_epoch(1) by blast
  have "first_lineages cfg own1 = first_lineages cfg own" using f by (simp add: first_lineages_def)
  with bound_runtime_new [OF E cfg _ bind, of own2 "Some link" rv chans1 "hide_descendants ?as st1" now] N f
  show ?thesis by (simp add: run_as_child_def ti rec Let_def bind fresh_incarnation_def)
qed

lemma spawn_root_starts:
  assumes E: "env_ok E" and cfg: "config_ok cfg" and N: "first_lineages cfg own \<le> u64_max"
    and live: "\<not> st_terminal own" "st_initial_incarnation own" "st_root_extra own = NotRoot"
  shows "\<exists>s. spawn_root E cfg own rx chans st now = Some s \<and>
    fresh_incarnation cfg own (st_next_binding_epoch own) False s"
proof -
  obtain own0 where mr: "mark_root (claim_edge False own) = Some own0"
    using live by (simp add: mark_root_def claim_edge_def)
  note m = mark_root_fields [OF mr]
  obtain own1 where ti: "take_initial_incarnation 0 own0 = (True, own1)"
    using live m by (simp add: take_initial_incarnation_def)
  note f = take_initial_fields [OF ti]
  let ?as = "initial_attached_children cfg chans"
  have "\<not> st_terminal own1" using f live m by simp
  then obtain own2 where bind: "bind_prepared 0 rx (initial_snapshot cfg) ?as own1 =
      (Some (st_next_binding_epoch own1), own2)"
    using bind_prepared_epoch(1) by blast
  obtain own3 where ir: "install_root_extra own2 = Some own3" and
    own3: "st_lifecycle own3 = st_lifecycle own2" "st_snapshot own3 = st_snapshot own2"
    using root_slot_kept(1) [OF ti] root_slot_kept(2) [OF bind] m
    by (auto simp: install_root_extra_def bump_binding_revision_def)
  have "first_lineages cfg own1 = first_lineages cfg own" using f m by (simp add: first_lineages_def)
  with bound_runtime_new [OF E cfg _ bind own3, of None False chans "hide_descendants ?as st" now] N f m
  show ?thesis by (simp add: spawn_root_def mr ti Let_def bind ir fresh_incarnation_def)
qed

lemma spawn_root_needs:
  "spawn_root E cfg own rx chans st now = Some s \<Longrightarrow>
   \<not> st_terminal own \<and> st_initial_incarnation own \<and> st_root_extra own = NotRoot"
  by (auto simp: spawn_root_def take_initial_incarnation_def
      split: if_splits bool.splits prod.splits option.splits dest: mark_root_fields)

lemma inv_incarnation:
  assumes E: "env_ok E" and cfg: "config_ok cfg" and N: "first_lineages cfg own \<le> u64_max"
    and inc: "incarnation E cfg own s"
  shows "\<exists>epoch rv. fresh_incarnation cfg own epoch rv s"
  using inc
proof cases
  case (root rx chans st now)
  then have "\<not> st_terminal own" "st_initial_incarnation own" "st_root_extra own = NotRoot"
    using spawn_root_needs by blast+
  from spawn_root_starts [OF E cfg N this, of rx chans st now] root show ?thesis by auto
next
  case (nested g rx link rv chans st now)
  then have "\<not> st_terminal own"
    by (auto simp: run_as_child_def Let_def bind_prepared_def take_initial_incarnation_def
        split: prod.splits if_splits)
  from run_as_child_starts [OF E cfg N this, of g rx link rv chans st now] nested show ?thesis by auto
qed

section \<open>Reachable states\<close>

text \<open>
  What the environment does between two turns: time passes, shutdown is requested, a task comes
  to a clean end, a nested supervisor publishes its snapshot, the stable identities of nested
  supervisors change, and observers subscribe to the supervisor's own identity.
\<close>

inductive env_step :: "runtime \<Rightarrow> runtime \<Rightarrow> bool" where
  time_passes: "env_step s (elapse t s)"
| shutdown_requested: "env_step s (s\<lparr>rt_shutdown_requested := True\<rparr>)"
| task_ends_cleanly: "env_step s (task_marks_clean t s)"
| nested_publishes: "env_step s (update_child k (\<lambda>e. e\<lparr>ce_nested_snapshot_state := v\<rparr>) s)"
| identities_change: "env_step s (s\<lparr>rt_stable := st\<rparr>)"
| own_identity_observed:
    "hub_next_lineage (st_lifecycle own) = hub_next_lineage (rt_hub s) \<Longrightarrow>
     env_step s (s\<lparr>rt_own := own\<rparr>)"

text \<open>
  The states the loop of an incarnation visits, with a count of the commands it may have
  taken: the count grows by the size of the command batch and one per turn.
\<close>

inductive running :: "runtime_env \<Rightarrow> bool \<Rightarrow> runtime \<Rightarrow> nat \<Rightarrow> runtime \<Rightarrow> bool"
  for E report s0 where
  started: "start_run E report s0 = (Inr (), s) \<Longrightarrow> running E report s0 0 s"
| environment: "running E report s0 n s \<Longrightarrow> env_step s s' \<Longrightarrow> running E report s0 n s'"
| turn: "running E report s0 n s \<Longrightarrow> commands_fit (rt_meta s) inp batch \<Longrightarrow>
    run_turn E inp batch script s = (Inr (), s') \<Longrightarrow> running E report s0 (n + Suc (length batch)) s'"

lemma inv_env_step: "env_step s s' \<Longrightarrow> run_inv N M L s \<Longrightarrow> run_inv N M L s'"
proof (induction rule: env_step.induct)
  case (nested_publishes s k v)
  then show ?case by (intro inv_update_child) (auto simp: same_task_def entry_ok_def has_task_def)
next
  case (own_identity_observed own s)
  then show ?case by (simp add: run_inv_def ledger_def consistent_def)
qed simp_all

lemma inv_send_fold: "run_inv N M L (fold (\<lambda>k. send_lifecycle k Added) ks s) = run_inv N M L s"
  by (induction ks arbitrary: s) simp_all

lemma ok_start_run:
  assumes E: "env_ok E" and inv: "run_inv N M L s"
  shows "outcome_ok (run_inv N M L) tolerated (start_run E report s)"
  unfolding start_run_def Let_def using inv
  by (intro outcome_ok_bind ok_schedule_start_sequence [OF E]) (auto simp: inv_send_fold)

lemma inv_running:
  assumes E: "env_ok E" and s0: "run_inv N M L s0"
  shows "running E report s0 n s \<Longrightarrow> N + n \<le> u64_max \<Longrightarrow> run_inv (N + n) M L s"
proof (induction rule: running.induct)
  case (started s)
  with ok_start_run [OF E s0, of report] show ?case by simp
next
  case (environment n s s')
  then show ?case using inv_env_step by blast
next
  case (turn n s inp batch script s')
  then have inv: "run_inv (N + n) M L s" by simp
  then have "rt_meta s = M" by (simp add: run_inv_def)
  with turn ok_run_turn [OF E inv, of batch inp script] show ?case by (simp add: add.assoc)
qed

section \<open>The end of a run\<close>

text \<open>How the loop of an incarnation ends, with the state it leaves to the epilogue.\<close>

inductive halted :: "runtime_env \<Rightarrow> bool \<Rightarrow> runtime \<Rightarrow> nat \<Rightarrow> exit_reason \<Rightarrow> runtime \<Rightarrow> bool"
  for E report s0 where
  start_fails: "start_run E report s0 = (Inl (Exit r), s) \<Longrightarrow> halted E report s0 0 r s"
| turn_ends: "running E report s0 n s \<Longrightarrow> commands_fit (rt_meta s) inp batch \<Longrightarrow>
    run_turn E inp batch script s = (Inl (Exit r), s') \<Longrightarrow>
    halted E report s0 (n + Suc (length batch)) r s'"

lemma inv_halted:
  assumes E: "env_ok E" and s0: "run_inv N M L s0"
    and "halted E report s0 n r s" and "N + n \<le> u64_max"
  shows "run_inv (N + n) M L s"
  using assms(3,4)
proof (induction rule: halted.induct)
  case (start_fails r s)
  with ok_start_run [OF E s0, of report] show ?case by simp
next
  case (turn_ends n s inp batch script r s')
  then have inv: "run_inv (N + n) M L s" using inv_running [OF E s0] by simp
  then have "rt_meta s = M" by (simp add: run_inv_def)
  with turn_ends ok_run_turn [OF E inv, of batch inp script] show ?case by (simp add: add.assoc)
qed

lemma resolve_pending_replies:
  "mset (map fst (rt_replies (resolve_pending_removals failure s))) = ledger s"
  "rt_received (resolve_pending_removals failure s) = rt_received s"
proof -
  let ?pending = "List.map_filter (\<lambda>(k, e). map_option (\<lambda>p. (ce_id e, p)) (ce_pending_removal e))"
  have fold: "map fst (rt_replies (fold (\<lambda>(i, p) s. send_reply (pr_reply p)
      (ReplyRemove (pending_removal_result i p True failure (rt_now s))) s) ps s))
    = map fst (rt_replies s) @ map (\<lambda>(i, p). pr_reply p) ps \<and>
    rt_received (fold (\<lambda>(i, p) s. send_reply (pr_reply p)
      (ReplyRemove (pending_removal_result i p True failure (rt_now s))) s) ps s) = rt_received s" for ps s
    by (induction ps arbitrary: s) (auto simp: send_reply_def)
  have flat: "map (\<lambda>(i, p). pr_reply p) (?pending xs) = concat (map (\<lambda>(k, e). pending_replies e) xs)" for xs
    by (induction xs) (auto simp: map_filter_simps pending_replies_def split: option.split)
  have coll: "mset (concat (map (\<lambda>(k, e). pending_replies e) (slab_iter sl))) = slab_collect pending_replies sl" for sl
  proof -
    have "concat (map (\<lambda>(k, e). pending_replies e) (concat (map
          (\<lambda>k. case slab_get sl k of None \<Rightarrow> [] | Some v \<Rightarrow> [(k, v)]) ks))) =
        concat (map (\<lambda>k. case_option [] pending_replies (slab_get sl k)) ks)" for ks
      by (induction ks) (auto split: option.split)
    then have "concat (map (\<lambda>(k, e). pending_replies e) (slab_iter sl)) =
        concat (map (\<lambda>k. case_option [] pending_replies (slab_get sl k)) [0..<length sl])"
      by (simp add: slab_iter_def)
    also have "\<dots> = concat (map (case_option [] pending_replies) sl)"
      by (rule arg_cong [where f = concat], rule nth_equalityI) (auto simp: slab_get_def)
    finally show ?thesis by (simp add: slab_collect_def)
  qed
  show "mset (map fst (rt_replies (resolve_pending_removals failure s))) = ledger s"
    unfolding resolve_pending_removals_def Let_def fold [THEN conjunct1] ledger_def
      mset_append flat coll by simp
  show "rt_received (resolve_pending_removals failure s) = rt_received s"
    by (simp add: resolve_pending_removals_def Let_def fold)
qed

lemma fold_panicked:
  "(\<And>x s. rt_panicked (f x s) = rt_panicked s) \<Longrightarrow> rt_panicked (fold f xs s) = rt_panicked s"
  by (induction xs arbitrary: s) simp_all

lemma resolve_panicked [simp]: "rt_panicked (resolve_pending_removals failure s) = rt_panicked s"
  unfolding resolve_pending_removals_def Let_def
  by (subst fold_panicked) (simp_all add: send_reply_def split: prod.split)

lemma inv_unpanicked: "run_inv N M L s \<Longrightarrow> \<not> rt_panicked s"
  by (simp add: run_inv_def consistent_def)

lemma detach_panicked [simp]: "rt_panicked (detach_nested_children s) = rt_panicked s"
  by (simp add: detach_nested_children_def)

lemma epilogue_never_panics:
  assumes inv: "run_inv N M L s" and ep: "run_epilogue E reason script s = (res, s')"
  shows "res \<noteq> Inl Panic \<and> \<not> rt_panicked s'"
proof -
  have settle: "res \<noteq> Inl Panic \<and> \<not> rt_panicked s'"
    if st: "settle_shutdown f (shutdown_all E script s) = (res, s')" for f
  proof -
    obtain r s1 where d: "shutdown_all E script s = (r, s1)" by (cases "shutdown_all E script s")
    have i1: "run_inv N M L s1" and "r \<noteq> Inl Panic"
      using inv_shutdown_all [OF inv, of E script] d by (auto simp: outcome_ok_def tolerated_drain_def)
    with st d inv_unpanicked [OF i1] show ?thesis
      by (auto simp: settle_shutdown_def split: sum.splits halt.splits option.splits)
  qed
  show ?thesis
  proof (cases "reason = ShutdownRequested \<or> (\<exists>m. reason = Failure (StartupAborted m))")
    case True
    then show ?thesis using ep settle by (auto simp: run_epilogue_def)
  next
    case False
    then obtain err where err: "reason = Failure err" "\<forall>m. err \<noteq> StartupAborted m"
      by (cases reason) auto
    have "res = Inl (Exit (Failure err)) \<and> s' = resolve_pending_removals (Some err)
        (if rm_revivable (rt_meta s) then detach_nested_children s else s)"
      using ep err by (cases err) (simp_all add: run_epilogue_def)
    then show ?thesis using inv_unpanicked [OF inv] by simp
  qed
qed

lemma resolve_answers:
  assumes "run_inv N M {#} s"
  shows "mset (map fst (rt_replies (resolve_pending_removals f s))) =
    mset (rt_received (resolve_pending_removals f s))"
  unfolding resolve_pending_replies using assms by (simp add: run_inv_def)

lemma epilogue_answers:
  assumes inv: "run_inv N M {#} s" and "run_epilogue E reason script s = (res, s')"
    and "res \<noteq> Inl Blocked"
  shows "mset (map fst (rt_replies s')) = mset (rt_received s')"
proof -
  have settle: "mset (map fst (rt_replies s2)) = mset (rt_received s2)"
    if "settle_shutdown f (shutdown_all E script s) = (res, s2)" for f s2
  proof -
    obtain r s1 where d: "shutdown_all E script s = (r, s1)" by (cases "shutdown_all E script s")
    have ok: "run_inv N M {#} s1" "\<And>h. r = Inl h \<Longrightarrow> tolerated_drain h"
      using inv_shutdown_all [OF inv, of E script] d by (auto simp: outcome_ok_def)
    have "r \<noteq> Inl Panic" using ok(2) by (auto simp: tolerated_drain_def)
    with that d assms(3) have "s2 = resolve_pending_removals f s1"
      by (auto simp: settle_shutdown_def split: sum.splits halt.splits)
    with resolve_answers [OF ok(1)] show ?thesis by simp
  qed
  have "run_inv N M {#} (detach_nested_children s)"
    unfolding detach_nested_children_def
    by (rule inv_slab_map [OF inv]) (auto simp: same_task_def entry_ok_def has_task_def)
  then show ?thesis
    using assms(2) settle inv resolve_answers
    by (auto simp: run_epilogue_def simp del: mset_map split: exit_reason.splits supervisor_error.splits if_splits)
qed

end
