(* ===== verification/Samples.thy ===== *)
theory Samples
  imports Incarnation "HOL-Library.Code_Target_Nat"
begin

text \<open>
  A small concrete system: an environment that satisfies the assumptions of the theorems, an
  ordered scope with two tasks and a dynamic scope, each constructed and started by the model.
  The theorems about whole runs are applied to these states.
\<close>

definition sample_env :: runtime_env where
  "sample_env =
     \<lparr>env_vacant_key = (\<lambda>sl. length (takeWhile (\<lambda>x. x \<noteq> None) sl)),
      env_task_id = (\<lambda>ts. Suc (sum_list ts)), env_seed = (\<lambda>now. 7),
      env_show_duration = (\<lambda>d. ''d'')\<rparr>"

lemma sample_env_ok: "env_ok sample_env"
proof -
  have "slab_get sl (length (takeWhile (\<lambda>x. x \<noteq> None) sl)) = None" for sl :: "child_entry slab"
    using nth_length_takeWhile [of "\<lambda>x. x \<noteq> None" sl] by (auto simp: slab_get_def)
  moreover have "Suc (sum_list ts) \<notin> set ts" for ts :: "nat list"
    using member_le_sum_list [of "Suc (sum_list ts)" ts] by auto
  ultimately show ?thesis by (simp add: env_ok_def sample_env_def)
qed

definition sample_config :: supervisor_config where
  "sample_config =
     ordered_config (child_spec (task_spec_new ''api'')
       (child_spec (task_spec_new ''db'') (ordered_builder_new\<lparr>ob_strategy := OneForAll\<rparr>)))"

definition sample_identity :: stable_channels where
  "sample_identity = stable_new (initial_snapshot sample_config) []"

definition sample_store :: "nat \<Rightarrow> stable_tree" where
  "sample_store n = StableTree blank_identity []"

definition sample_root :: runtime where
  "sample_root = the (spawn_root sample_env sample_config sample_identity 0 [] sample_store 100)"

definition sample_running :: runtime where
  "sample_running = snd (start_run sample_env False sample_root)"

lemma sample_config_ok: "config_ok sample_config"
  by code_simp

lemma sample_bound: "first_lineages sample_config sample_identity = 2"
  by code_simp

lemma sample_live: "\<not> st_terminal sample_identity" "st_initial_incarnation sample_identity"
  "st_root_extra sample_identity = NotRoot"
  by (simp_all add: sample_identity_def stable_new_def)

lemma sample_root_fresh:
  "spawn_root sample_env sample_config sample_identity 0 [] sample_store 100 = Some sample_root \<and>
   fresh_incarnation sample_config sample_identity 0 False sample_root"
proof -
  have "st_next_binding_epoch sample_identity = 0" by (simp add: sample_identity_def stable_new_def)
  moreover have "first_lineages sample_config sample_identity \<le> u64_max"
    by (simp add: sample_bound u64_max_def)
  ultimately show ?thesis
    using spawn_root_starts [OF sample_env_ok sample_config_ok _ sample_live, of 0 "[]" sample_store 100]
    by (auto simp: sample_root_def)
qed

lemma sample_incarnation: "incarnation sample_env sample_config sample_identity sample_root"
  using sample_root_fresh by (auto intro: incarnation.root)

lemma sample_started: "start_run sample_env False sample_root = (Inr (), sample_running)"
proof -
  have "fst (start_run sample_env False sample_root) = Inr ()" by code_simp
  then show ?thesis by (simp add: sample_running_def prod_eq_iff)
qed

lemma sample_running_reached: "running sample_env False sample_root 0 sample_running"
  by (rule running.started [OF sample_started])

lemma sample_running_inv: "run_inv 2 (rt_meta sample_running) {#} sample_running"
proof -
  have "run_inv 2 (meta_for sample_config 0 False) {#} sample_root"
    using sample_root_fresh by (simp add: fresh_incarnation_def sample_bound)
  from inv_running [OF sample_env_ok this sample_running_reached] show ?thesis
    by (simp add: u64_max_def run_inv_def)
qed

text \<open>A dynamic scope without children.\<close>

definition sample_dynamic_config :: supervisor_config where
  "sample_dynamic_config =
     dynamic_config \<lparr>db_default_child_restart = default_restart_policy,
                    db_default_child_shutdown = default_shutdown\<rparr>"

definition sample_dynamic_root :: runtime where
  "sample_dynamic_root =
     the (spawn_root sample_env sample_dynamic_config
       (stable_new (initial_snapshot sample_dynamic_config) []) 0 [] sample_store 100)"

definition sample_dynamic :: runtime where
  "sample_dynamic = snd (start_run sample_env False sample_dynamic_root)"

lemma sample_dynamic_inv: "run_inv 0 (rt_meta sample_dynamic) {#} sample_dynamic"
proof -
  let ?own = "stable_new (initial_snapshot sample_dynamic_config) []"
  have b: "first_lineages sample_dynamic_config ?own = 0" by code_simp
  have "config_ok sample_dynamic_config" by code_simp
  then have "fresh_incarnation sample_dynamic_config ?own (st_next_binding_epoch ?own) False sample_dynamic_root"
    using spawn_root_starts [OF sample_env_ok, of sample_dynamic_config ?own 0 "[]" sample_store 100] b
    by (auto simp: sample_dynamic_root_def stable_new_def u64_max_def)
  then have "outcome_ok (run_inv 0 (meta_for sample_dynamic_config (st_next_binding_epoch ?own) False) {#})
      tolerated (start_run sample_env False sample_dynamic_root)"
    by (intro ok_start_run [OF sample_env_ok]) (simp add: fresh_incarnation_def b)
  then show ?thesis by (auto simp: sample_dynamic_def outcome_ok_def run_inv_def)
qed

text \<open>
  The dynamic scope takes a command that adds a task, then one that removes it, then a shutdown
  request.
\<close>

definition idle_inputs :: wake_inputs where
  "idle_inputs = \<lparr>wi_now = 0, wi_shutdown = False, wi_command = None, wi_ready = None,
     wi_nested = None, wi_joined = None\<rparr>"

definition add_inputs :: wake_inputs where
  "add_inputs = idle_inputs\<lparr>wi_command := Some (Some (AddChild (task_spec_new ''w'') 11))\<rparr>"

definition remove_inputs :: wake_inputs where
  "remove_inputs = idle_inputs\<lparr>wi_command := Some (Some (RemoveChild ''w'' None 12))\<rparr>"

definition shutdown_inputs :: wake_inputs where
  "shutdown_inputs = idle_inputs\<lparr>wi_shutdown := True\<rparr>"

definition sample_added :: runtime where
  "sample_added = snd (run_turn sample_env add_inputs [] [] sample_dynamic)"

definition sample_removing :: runtime where
  "sample_removing = snd (run_turn sample_env remove_inputs [] [] sample_added)"

definition sample_stopping :: runtime where
  "sample_stopping = snd (run_turn sample_env shutdown_inputs [] [] sample_removing)"

definition sample_dynamic_identity :: stable_channels where
  "sample_dynamic_identity = stable_new (initial_snapshot sample_dynamic_config) []"

lemma sample_dynamic_config_ok: "config_ok sample_dynamic_config"
  by code_simp

lemma sample_dynamic_bound: "first_lineages sample_dynamic_config sample_dynamic_identity = 0"
  by code_simp

lemma sample_dynamic_incarnation:
  "incarnation sample_env sample_dynamic_config sample_dynamic_identity sample_dynamic_root"
proof -
  have "spawn_root sample_env sample_dynamic_config sample_dynamic_identity 0 [] sample_store 100
      = Some sample_dynamic_root"
    using spawn_root_starts [OF sample_env_ok sample_dynamic_config_ok, of sample_dynamic_identity
        0 "[]" sample_store 100] sample_dynamic_bound
    by (auto simp: sample_dynamic_root_def sample_dynamic_identity_def stable_new_def u64_max_def)
  then show ?thesis by (rule incarnation.root)
qed

lemma sample_turn:
  assumes "running E report s0 n s" and "fst (run_turn E inp [] [] s) = Inr ()"
    and "commands_fit (rt_meta s) inp []"
  shows "running E report s0 (Suc n) (snd (run_turn E inp [] [] s))"
  using running.turn [OF assms(1,3), of "[]" "snd (run_turn E inp [] [] s)"] assms(2)
  by (cases "run_turn E inp [] [] s") simp

lemma sample_dynamic_reached: "running sample_env False sample_dynamic_root 0 sample_dynamic"
proof -
  have "fst (start_run sample_env False sample_dynamic_root) = Inr ()" by code_simp
  then show ?thesis
    by (intro running.started) (simp add: sample_dynamic_def prod_eq_iff)
qed

lemma sample_removing_reached: "running sample_env False sample_dynamic_root 2 sample_removing"
proof -
  have kinds: "rm_kind (rt_meta sample_dynamic) = Dynamic" "rm_kind (rt_meta sample_added) = Dynamic"
    by code_simp+
  have "fst (run_turn sample_env add_inputs [] [] sample_dynamic) = Inr ()" by code_simp
  from sample_turn [OF sample_dynamic_reached this] kinds
  have "running sample_env False sample_dynamic_root 1 sample_added"
    by (simp add: sample_added_def commands_fit_def add_inputs_def idle_inputs_def task_spec_new_def)
  moreover have "fst (run_turn sample_env remove_inputs [] [] sample_added) = Inr ()" by code_simp
  ultimately show ?thesis
    using sample_turn [of sample_env False sample_dynamic_root 1 sample_added remove_inputs] kinds
    by (simp add: sample_removing_def commands_fit_def remove_inputs_def idle_inputs_def numeral_2_eq_2)
qed

lemma sample_halted:
  "halted sample_env False sample_dynamic_root 3 ShutdownRequested sample_stopping"
proof -
  have "fst (run_turn sample_env shutdown_inputs [] [] sample_removing) = Inl (Exit ShutdownRequested)"
    by code_simp
  then have "run_turn sample_env shutdown_inputs [] [] sample_removing =
      (Inl (Exit ShutdownRequested), sample_stopping)"
    by (simp add: sample_stopping_def prod_eq_iff)
  from halted.turn_ends [OF sample_removing_reached _ this] show ?thesis
    by (simp add: commands_fit_def shutdown_inputs_def idle_inputs_def numeral_3_eq_3)
qed

end
