(* ===== verification/Guarantees.thy ===== *)
theory Guarantees
  imports Samples
begin

text \<open>
  What one supervisor incarnation guarantees over its whole life: it starts for every accepted
  configuration, its state stays consistent whatever the environment and its users do, no
  handler fails in a way the code does not mean to, every command is answered exactly once, and
  stopping leaves nothing running.
\<close>

section \<open>Starting\<close>

text \<open>
  C24. Starting an incarnation of a configuration with distinct non-empty ids on a live identity
  always succeeds, for nested supervisors at every generation and for a root that has not been
  started before.  The children get the identity's next lineages in declaration order, no task
  runs yet, and the state satisfies the invariant of a run.  Starting a root again, on an identity
  that has been classified as root or has given away its first incarnation's channels, panics.
\<close>

theorem incarnation_starts:
  assumes "env_ok E" and "config_ok cfg" and "first_lineages cfg own \<le> u64_max"
    and "\<not> st_terminal own"
  shows "(\<exists>s. run_as_child E cfg own generation rx link revivable chans st now = Some s \<and>
            fresh_incarnation cfg own (st_next_binding_epoch own) revivable s) \<and>
    (if st_initial_incarnation own \<and> st_root_extra own = NotRoot
     then \<exists>s. spawn_root E cfg own rx chans st now = Some s \<and>
            fresh_incarnation cfg own (st_next_binding_epoch own) False s
     else spawn_root E cfg own rx chans st now = None)"
  using run_as_child_starts [OF assms, of generation rx link revivable chans st now]
    spawn_root_starts [OF assms, of rx chans st now] spawn_root_needs [of E cfg own rx chans st now]
  by (cases "spawn_root E cfg own rx chans st now") auto

theorem incarnation_starts_witness:
  "env_ok sample_env \<and> config_ok sample_config \<and>
   first_lineages sample_config sample_identity \<le> u64_max \<and> \<not> st_terminal sample_identity \<and>
   (\<exists>s. spawn_root sample_env sample_config sample_identity 0 [] sample_store 100 = Some s \<and>
      roster s = [(''db'', 0), (''api'', 1)])"
proof -
  have b: "first_lineages sample_config sample_identity \<le> u64_max"
    by (simp add: sample_bound u64_max_def)
  have "zip (map cd_id (cfg_children sample_config))
      [hub_next_lineage (st_lifecycle sample_identity) ..< first_lineages sample_config sample_identity]
    = [(''db'', 0), (''api'', 1)]" by code_simp
  then show ?thesis
    using incarnation_starts [OF sample_env_ok sample_config_ok b sample_live(1), of 0 0 undefined False
        "[]" sample_store 100] sample_env_ok sample_config_ok sample_live b
    by (simp add: fresh_incarnation_def) blast
qed

section \<open>Running\<close>

text \<open>
  C1. In every state an incarnation can reach, whatever its tasks, its callers, its nested
  supervisors and the clock do: slab, index by id, declaration order, live-task count, join set
  and task map agree (a child has a task exactly while it is active, and that task is the only
  unjoined one of its membership), and every reply channel received so far has either been
  answered once or is held by exactly one pending removal.  The only assumption on the history
  is that the identity's 64 bit lineage counter does not overflow.
\<close>

theorem running_consistent:
  assumes "env_ok E" and "config_ok cfg" and "incarnation E cfg own s0"
    and "first_lineages cfg own + n \<le> u64_max" and "running E report s0 n s"
  shows "consistent s \<and> mset (rt_received s) = ledger s \<and>
    (\<forall>t t' m m' e. rt_task_map s t = Some m \<and> rt_task_map s t' = Some m' \<and>
       tm_key m' = tm_key m \<and> tm_lineage m' = tm_lineage m \<and>
       child_at s (tm_key m) = Some e \<and> ce_lineage e = tm_lineage m \<longrightarrow> t = t')"
proof -
  from assms(4) have "first_lineages cfg own \<le> u64_max" by simp
  from inv_incarnation [OF assms(1,2) this assms(3)] obtain epoch rv where
    "fresh_incarnation cfg own epoch rv s0" by blast
  then have "run_inv (first_lineages cfg own) (meta_for cfg epoch rv) {#} s0"
    by (simp add: fresh_incarnation_def)
  from inv_running [OF assms(1) this assms(5,4)] have inv:
    "run_inv (first_lineages cfg own + n) (meta_for cfg epoch rv) {#} s" .
  note t = tasks_ok_meta [OF consistent_tasks [OF inv_wf [OF inv]]]
  have "t1 = t2" if "rt_task_map s t1 = Some m" "rt_task_map s t2 = Some m'" "tm_key m' = tm_key m"
    "tm_lineage m' = tm_lineage m" "child_at s (tm_key m) = Some e" "ce_lineage e = tm_lineage m"
    for t1 t2 m m' e
    using t [OF that(1), of e] t [OF that(2), of e] that by simp
  with inv show ?thesis by (auto simp: run_inv_def)
qed

theorem running_consistent_witness:
  "incarnation sample_env sample_config sample_identity sample_root \<and>
   running sample_env False sample_root 0 sample_running \<and>
   first_lineages sample_config sample_identity + 0 \<le> u64_max \<and>
   consistent sample_running \<and> rt_live_tasks sample_running = 2"
proof -
  have b: "first_lineages sample_config sample_identity + 0 \<le> u64_max"
    by (simp add: sample_bound u64_max_def)
  have "rt_live_tasks sample_running = 2" by code_simp
  with running_consistent [OF sample_env_ok sample_config_ok sample_incarnation b sample_running_reached]
    sample_incarnation sample_running_reached b
  show ?thesis by blast
qed




section \<open>Answering\<close>

text \<open>
  C3. Every command is answered exactly once.  When a run has ended for any reason and its
  epilogue has completed, the replies sent are, as a multiset, exactly the reply channels of the
  commands received: commands that were rejected, that succeeded, that were interrupted by the
  end of the run and removals that were still waiting for their task alike.
\<close>

theorem commands_answered_once:
  assumes "env_ok E" and "config_ok cfg" and "incarnation E cfg own s0"
    and "halted E report s0 n reason s" and "first_lineages cfg own + n \<le> u64_max"
    and "run_epilogue E reason script s = (r, s')" and "r \<noteq> Inl Blocked"
  shows "mset (map fst (rt_replies s')) = mset (rt_received s')"
proof -
  from assms(5) have "first_lineages cfg own \<le> u64_max" by simp
  from inv_incarnation [OF assms(1,2) this assms(3)] obtain epoch rv where
    s0: "run_inv (first_lineages cfg own) (meta_for cfg epoch rv) {#} s0"
    by (auto simp: fresh_incarnation_def)
  from epilogue_answers [OF inv_halted [OF assms(1) s0 assms(4,5)] assms(6,7)] show ?thesis .
qed

theorem commands_answered_once_witness:
  "halted sample_env False sample_dynamic_root 3 ShutdownRequested sample_stopping \<and>
   (\<exists>s'. run_epilogue sample_env ShutdownRequested [DJoin (JoinedOk 1 (Inr ()))] sample_stopping
        = (Inr (), s') \<and>
      mset (map fst (rt_replies s')) = mset (rt_received s') \<and> rt_received s' = [11, 12])"
proof -
  let ?p = "run_epilogue sample_env ShutdownRequested [DJoin (JoinedOk 1 (Inr ()))] sample_stopping"
  have "fst ?p = Inr () \<and> rt_received (snd ?p) = [11, 12]" by code_simp
  then obtain s' where s': "?p = (Inr (), s')" "rt_received s' = [11, 12]" by (cases ?p) auto
  have b: "first_lineages sample_dynamic_config sample_dynamic_identity + 3 \<le> u64_max"
    by (simp add: sample_dynamic_bound u64_max_def)
  from commands_answered_once [OF sample_env_ok sample_dynamic_config_ok sample_dynamic_incarnation
      sample_halted b s'(1)] s' sample_halted show ?thesis by simp
qed

section \<open>Stopping\<close>

lemma resolve_settled: "settled (resolve_pending_removals failure s) k = settled s k"
proof -
  have "rt_children (fold (\<lambda>(i, p) s. send_reply (pr_reply p)
      (ReplyRemove (pending_removal_result i p True failure (rt_now s))) s) ps s) = rt_children s \<and>
    rt_aborted (fold (\<lambda>(i, p) s. send_reply (pr_reply p)
      (ReplyRemove (pending_removal_result i p True failure (rt_now s))) s) ps s) = rt_aborted s" for ps s
    by (induction ps arbitrary: s) (auto simp: send_reply_def)
  then show ?thesis
    by (auto simp: resolve_pending_removals_def Let_def settled_def split: option.split)
qed

text \<open>
  C22. A restart drain that reports success has really stopped its scope: whatever joins,
  delays and early exits happen meanwhile, no child of the drained scope has a running task
  afterwards, so the replacement generation never overlaps the old one; and the state is still
  consistent with every command reply accounted for.
\<close>

theorem restart_drain_complete:
  assumes "run_inv N M L s" and "reason \<noteq> DrainShutdown"
    and "drain_scope_for E reason scope script s = (Inr x, s')"
  shows "run_inv N M L s' \<and> (\<forall>k. scope_contains scope k \<longrightarrow> \<not> is_child_active k s')"
  using assms drain_scope_stops [OF assms] inv_drain_scope_for [OF assms(1), of E reason scope script]
  by simp

theorem restart_drain_complete_witness:
  "\<exists>x s'. drain_scope_for sample_env DrainGroupRestart ScopeAll
      [DElapse 200, DJoin (JoinedErr 1 True), DJoin (JoinedOk 2 (Inr ()))] sample_running = (Inr x, s') \<and>
    \<not> is_child_active 0 s' \<and> \<not> is_child_active 1 s'"
proof -
  let ?p = "drain_scope_for sample_env DrainGroupRestart ScopeAll
      [DElapse 200, DJoin (JoinedErr 1 True), DJoin (JoinedOk 2 (Inr ()))] sample_running"
  have "(case fst ?p of Inr _ \<Rightarrow> True | Inl _ \<Rightarrow> False)" by code_simp
  then obtain x s' where p: "?p = (Inr x, s')" by (cases ?p; cases "fst ?p") auto
  from restart_drain_complete [OF sample_running_inv _ p]
  have "\<not> is_child_active 0 s' \<and> \<not> is_child_active 1 s'" by simp
  with p show ?thesis by blast
qed

text \<open>
  C23. The ordered drain stops dependents before their dependencies: at every point where it
  waits, and when it ends, a child has been asked to stop only after each child of the scope
  declared after it has exited or has had its task aborted.
\<close>

theorem ordered_drain_reverse_order:
  assumes "run_inv N M L s"
    and "\<forall>k \<in> set (rt_child_order s). scope_contains scope k \<longrightarrow> \<not> asked_to_stop s k"
    and "drain_children_ordered E reason scope script s = (r, s')"
  shows "sorted_wrt (\<lambda>later earlier. asked_to_stop s' earlier \<longrightarrow> settled s' later)
    (filter (scope_contains scope) (rev (rt_child_order s)))"
  by (rule ordered_drain_stop_order [OF assms])

theorem ordered_drain_reverse_order_witness:
  "\<exists>s'. drain_children_ordered sample_env DrainShutdown ScopeAll [] sample_running = (Inl Blocked, s') \<and>
    asked_to_stop s' 1 \<and> \<not> asked_to_stop s' 0 \<and> (asked_to_stop s' 0 \<longrightarrow> settled s' 1)"
proof -
  let ?p = "drain_children_ordered sample_env DrainShutdown ScopeAll [] sample_running"
  have "fst ?p = Inl Blocked \<and> asked_to_stop (snd ?p) 1 \<and> \<not> asked_to_stop (snd ?p) 0" by code_simp
  then obtain s' where p: "?p = (Inl Blocked, s')" "asked_to_stop s' 1" "\<not> asked_to_stop s' 0"
    by (cases ?p) auto
  have "rt_child_order sample_running = [0, 1]"
    "\<forall>k \<in> set [0, 1]. \<not> asked_to_stop sample_running k" by code_simp+
  with ordered_drain_reverse_order [OF sample_running_inv _ p(1)] p show ?thesis by auto
qed

text \<open>
  C7. Shutting down leaves nothing running: when the epilogue of a requested shutdown completes,
  with success or with a timeout, every child has exited or has had its task aborted, and it has
  been removed from supervision or is no longer counted as live otherwise.
\<close>

theorem shutdown_leaves_nothing_running:
  assumes "run_inv N M L s" and "run_epilogue E ShutdownRequested script s = (r, s')"
    and "r \<noteq> Inl Blocked"
  shows "\<forall>k. settled s' k"
proof -
  obtain r1 s1 where d: "shutdown_all E script s = (r1, s1)" by (cases "shutdown_all E script s")
  have ok: "\<And>h. r1 = Inl h \<Longrightarrow> tolerated_drain h"
    using inv_shutdown_all [OF assms(1), of E script] d by (auto simp: outcome_ok_def)
  then have r1: "r1 \<noteq> Inl Panic" "r1 \<noteq> Inl Blocked" "s' = resolve_pending_removals None s1"
    using assms(2,3) d
    by (auto simp: run_epilogue_def settle_shutdown_def tolerated_drain_def split: sum.splits halt.splits)
  then show ?thesis using resolve_settled shutdown_settles [OF assms(1) d] by simp
qed

theorem shutdown_leaves_nothing_running_witness:
  "\<exists>s'. run_epilogue sample_env ShutdownRequested
      [DElapse (from_secs 6), DElapse (from_secs 7), DElapse (from_secs 8),
       DElapse (from_secs 20), DElapse (from_secs 21), DElapse (from_secs 22)] sample_running
      = (Inl (Exit (Failure (ShutdownTimedOut ''api, db''))), s') \<and>
    settled s' 0 \<and> settled s' 1 \<and> rt_aborted s' = [2, 1]"
proof -
  let ?p = "run_epilogue sample_env ShutdownRequested
      [DElapse (from_secs 6), DElapse (from_secs 7), DElapse (from_secs 8),
       DElapse (from_secs 20), DElapse (from_secs 21), DElapse (from_secs 22)] sample_running"
  have "fst ?p = Inl (Exit (Failure (ShutdownTimedOut ''api, db''))) \<and> rt_aborted (snd ?p) = [2, 1]"
    by code_simp
  then obtain s' where p: "?p = (Inl (Exit (Failure (ShutdownTimedOut ''api, db''))), s')"
    "rt_aborted s' = [2, 1]" by (cases ?p) auto
  from shutdown_leaves_nothing_running [OF sample_running_inv p(1)] p show ?thesis by simp
qed

end
