(* ===== verification/Operation_Properties.thy ===== *)
theory Operation_Properties
  imports Samples
begin

text \<open>
  What each operation of the supervision runtime does, on every branch: the decision taken for
  an exit, the joins and readiness reports that are ignored because they are stale, the order in
  which an ordered scope starts its children, the deadlines the loop waits for, the snapshot
  published with a lifecycle event, and the fate of nested identities.
\<close>

section \<open>The deadline the loop waits for\<close>

text \<open>Every deadline some child waits for: a pending removal's and a scheduled restart's.\<close>

definition pending_deadline :: "runtime \<Rightarrow> instant \<Rightarrow> bool" where
  "pending_deadline s d \<longleftrightarrow>
     (\<exists>k e. child_at s k = Some e \<and>
        (child_deadline e = Some d \<or>
         (\<exists>p. ce_pending_removal e = Some p \<and> removal_deadline p = Some d)))"

lemma foldl_min: "foldl min (d::nat) ds = Min (set (d # ds))"
proof (induction ds arbitrary: d)
  case (Cons x ds)
  then show ?case by (cases ds) (simp_all add: min.assoc [symmetric])
qed simp

lemma entry_deadlines_set:
  "d \<in> set (entry_deadlines e) \<longleftrightarrow>
     child_deadline e = Some d \<or> (\<exists>p. ce_pending_removal e = Some p \<and> removal_deadline p = Some d)"
  by (auto simp: entry_deadlines_def map_filter_simps bind_eq_Some_conv split: option.split)

text \<open>
  The deadline of the select loop is the earliest one that any child waits for: it is a
  pending deadline and no pending deadline is earlier, and the loop sleeps without a deadline
  exactly when no child waits for one.
\<close>

theorem earliest_deadline_minimal:
  "case earliest_deadline s of
     None \<Rightarrow> (\<nexists>d. pending_deadline s d)
   | Some d \<Rightarrow> pending_deadline s d \<and> (\<nexists>d'. pending_deadline s d' \<and> d' < d)"
proof -
  let ?ds = "concat (map (\<lambda>(k, e). entry_deadlines e) (slab_iter (rt_children s)))"
  have mem: "d \<in> set ?ds \<longleftrightarrow> pending_deadline s d" for d
    by (auto simp: pending_deadline_def entry_deadlines_set slab_iter_iff [symmetric])
  show ?thesis
  proof (cases ?ds)
    case Nil
    then have "earliest_deadline s = None" unfolding earliest_deadline_def by (simp only: list.case)
    moreover have "\<not> pending_deadline s d" for d using mem [of d] Nil by (simp only:) simp
    ultimately show ?thesis by simp
  next
    case (Cons d ds)
    then have "earliest_deadline s = Some (Min (set ?ds))"
      by (simp add: earliest_deadline_def foldl_min)
    moreover have "Min (set ?ds) \<in> set ?ds" using Cons by (intro Min_in) auto
    moreover have "Min (set ?ds) \<le> d'" if "d' \<in> set ?ds" for d' using that by (intro Min_le) auto
    ultimately show ?thesis using mem by (auto simp: not_less [symmetric])
  qed
qed

section \<open>The decision for an exit\<close>

lemma finalize_gone: "child_at (finalize_removed_child k b s) k = None"
  using finalize_children [of s k b]
  by (cases "child_at s k") (auto simp: finalize_removed_child_def)

text \<open>
  What happens to an active membership whose task exited while its supervisor runs.  An exit
  its policy restarts is counted; if that exceeds the intensity the run fails with exactly that
  error and no restart is scheduled, otherwise the child is due again after the tracker's
  backoff, with generation and state untouched.  An exit that is final removes the membership if
  its declaration says so, and otherwise leaves the stopped entry in place.
\<close>

theorem exit_policy_decides:
  assumes "rt_state s = SupRunning" and e: "child_at s (cx_key c) = Some e"
    and "ce_membership e = MActive"
    and out: "apply_exit_policy_inner E c True s = (r, s')"
    and tr: "tr = record_restart (rt_now s) (cr_restart_tracker (ce_runtime e))"
    and policy: "policy = cd_restart (child_definition_of e)"
  shows "if should_restart policy (is_failure (cx_status c)) then
           rt_total_restarts s' = u64_saturating_add (rt_total_restarts s) 1 \<and>
           (if exceeded tr then r = Inl (Exit (Failure RestartIntensityExceeded)) \<and>
              map_option child_deadline (child_at s' (cx_key c)) = Some (child_deadline e)
            else r = Inr () \<and>
              (\<exists>e'. child_at s' (cx_key c) = Some e' \<and>
                 child_deadline e' = Some (rt_now s + fst (tracker_backoff tr)) \<and>
                 cr_generation (ce_runtime e') = cr_generation (ce_runtime e) \<and>
                 child_state e' = child_state e))
         else if cd_remove_on_terminal_exit (child_definition_of e) then
           child_at s' (cx_key c) = None
         else if cr_has_reported_ready (ce_runtime e) then r = Inr () \<and> rt_children s' = rt_children s
         else True"
proof (cases "should_restart policy (is_failure (cx_status c))")
  case True
  with assms show ?thesis
    by (auto simp: apply_exit_policy_inner_def schedule_restart_def Let_def update_runtime_def
        split: prod.splits if_splits)
next
  case False
  show ?thesis
  proof (cases "cd_remove_on_terminal_exit (child_definition_of e)")
    case True
    with False assms show ?thesis
      by (auto simp: apply_exit_policy_inner_def Let_def finalize_gone split: prod.splits if_splits)
  next
    case retain: False
    have "rt_children (mark_child_terminal k u) = rt_children u" for k u
      by (simp add: mark_child_terminal_def terminal_identity_def split: option.split)
    with retain False assms show ?thesis
      by (auto simp: apply_exit_policy_inner_def Let_def split: if_splits)
  qed
qed

definition sample_exit :: classified_exit where
  "sample_exit = \<lparr>cx_key = 0, cx_lineage = 0, cx_generation = 0, cx_status = Panicked\<rparr>"

theorem exit_policy_decides_witness:
  "\<exists>s'. apply_exit_policy_inner sample_env sample_exit True sample_running = (Inr (), s') \<and>
     rt_total_restarts s' = 1 \<and> (\<exists>e'. child_at s' 0 = Some e' \<and> child_deadline e' \<noteq> None)"
proof -
  let ?p = "apply_exit_policy_inner sample_env sample_exit True sample_running"
  obtain e where e: "child_at sample_running (cx_key sample_exit) = Some e"
    "rt_state sample_running = SupRunning" "ce_membership e = MActive"
  proof -
    have "(case child_at sample_running (cx_key sample_exit) of
        None \<Rightarrow> False | Some e \<Rightarrow> rt_state sample_running = SupRunning \<and> ce_membership e = MActive)"
      by code_simp
    with that show ?thesis by (auto split: option.splits)
  qed
  have dec: "(case child_at sample_running (cx_key sample_exit) of None \<Rightarrow> False
      | Some e \<Rightarrow> should_restart (cd_restart (child_definition_of e)) (is_failure (cx_status sample_exit)) \<and>
          \<not> exceeded (record_restart (rt_now sample_running) (cr_restart_tracker (ce_runtime e))))"
    "rt_total_restarts sample_running = 0" by code_simp+
  obtain r s' where p: "?p = (r, s')" by (cases ?p)
  from exit_policy_decides [OF e(2,1,3) p refl refl] dec e(1) p show ?thesis
    by (auto simp: u64_saturating_add_def u64_max_def sample_exit_def)
qed

section \<open>Stale joins and readiness reports\<close>

lemma slab_put_same: "slab_get sl k = Some v \<Longrightarrow> slab_put k v sl = sl"
  by (auto simp: slab_get_def slab_put_def list_update_id split: if_splits)
     (metis list_update_id)

lemma task_marks_clean_unheld:
  assumes "rt_task_map s t = Some m"
    and "\<And>e. child_at s (tm_key m) = Some e \<Longrightarrow> cr_abort_handle (ce_runtime e) \<noteq> Some t"
  shows "task_marks_clean t s = s"
proof (cases "child_at s (tm_key m)")
  case None
  with assms(1) show ?thesis
    by (simp add: task_marks_clean_def update_child_def slab_update_missing)
next
  case (Some e)
  with assms(2) [OF Some] assms(1) show ?thesis
    by (simp add: task_marks_clean_def update_child_def slab_update_present slab_put_same)
qed

text \<open>
  A join result of a generation that is no longer current (its membership was removed, or
  its slot holds another lineage or generation) only leaves the join set and the task map: no
  child, no live-task count, no deadline and no event is affected.
\<close>

theorem stale_join_ignored:
  assumes inv: "run_inv N M L s" and t: "rt_task_map s (joined_id j) = Some m"
    and stale: "\<not> current_child_matches (tm_key m) (tm_lineage m) (tm_generation m) s"
  shows "handle_joined_child E j s = (Inr (), forget_task (joined_id j) s)"
proof -
  have "cr_abort_handle (ce_runtime e) \<noteq> Some (joined_id j)" if "child_at s (tm_key m) = Some e" for e
    using holder_matches [OF inv_wf [OF inv] t that] stale that
    by (auto simp: current_child_matches_def) (metis task_meta_of_fields(2,3))+
  then have clean: "task_marks_clean (joined_id j) s = s" by (rule task_marks_clean_unheld [OF t])
  have "join_next j s = s\<lparr>rt_join_set := remove1 (joined_id j) (rt_join_set s)\<rparr>"
  proof (cases j)
    case (JoinedOk u res)
    with clean show ?thesis by (cases res) (simp_all add: join_next_def)
  qed (simp add: join_next_def)
  with t stale show ?thesis
    by (simp add: handle_joined_child_def consume_joined_child_def classify_join_def
        current_child_matches_def forget_task_def)
qed

definition sample_orphaned :: runtime where
  "sample_orphaned = detach_entry 1 (the (child_at sample_running 1)) sample_running"

theorem stale_join_ignored_witness:
  "\<exists>m. rt_task_map sample_orphaned (joined_id (JoinedErr 2 True)) = Some m \<and>
     \<not> current_child_matches (tm_key m) (tm_lineage m) (tm_generation m) sample_orphaned \<and>
     handle_joined_child sample_env (JoinedErr 2 True) sample_orphaned = (Inr (), forget_task 2 sample_orphaned)"
proof -
  have "(case child_at sample_running 1 of None \<Rightarrow> False | Some e \<Rightarrow> True)" by code_simp
  then obtain e where e: "child_at sample_running 1 = Some e" by (auto split: option.splits)
  have inv: "run_inv 2 (rt_meta sample_running) ({#} + mset (pending_replies e)) sample_orphaned"
    unfolding sample_orphaned_def e option.sel by (rule inv_detach_entry [OF sample_running_inv e])
  have "(case rt_task_map sample_orphaned (joined_id (JoinedErr 2 True)) of None \<Rightarrow> False
      | Some m \<Rightarrow> \<not> current_child_matches (tm_key m) (tm_lineage m) (tm_generation m) sample_orphaned)"
    by code_simp
  then obtain m where m: "rt_task_map sample_orphaned (joined_id (JoinedErr 2 True)) = Some m"
    "\<not> current_child_matches (tm_key m) (tm_lineage m) (tm_generation m) sample_orphaned"
    by (auto split: option.splits)
  from stale_join_ignored [OF inv m] m show ?thesis by simp
qed

section \<open>Starting in order\<close>

text \<open>A start only touches the child it starts.\<close>

lemma spawn_child_frame: "j \<noteq> k \<Longrightarrow> child_at (snd (spawn_child E k s)) j = child_at s j"
  by (simp add: spawn_child_def Let_def split: option.split)

lemma gate_children [simp]:
  "rt_children (startup_member_ready k l s) = rt_children s" "rt_children (clear_gate s) = rt_children s"
  by (simp_all add: startup_member_ready_def complete_empty_startup_gate_def clear_gate_def
      split: option.split)

lemma spawn_start_item_frame:
  assumes "spawn_start_item E item s = (r, s')" and "j \<noteq> si_key item"
  shows "child_at s' j = child_at s j"
  using assms spawn_child_frame [of j "si_key item" E s]
  by (auto simp: spawn_start_item_def Let_def split: option.splits if_splits prod.splits sum.splits)

lemma spawn_start_item_skips:
  assumes "\<And>e. child_at s (si_key item) = Some e \<Longrightarrow> \<not> startable e"
  shows "spawn_start_item E item s = (Inr (), s)"
  using assms by (auto simp: spawn_start_item_def split: option.split)

text \<open>A child that is not waiting to be started is not touched by the start sequence.\<close>

lemma start_queued_frame:
  "start_queued E items s = (r, s') \<Longrightarrow> child_at s j = Some e \<Longrightarrow> \<not> startable e \<Longrightarrow>
   child_at s' j = Some e"
proof (induction items arbitrary: s)
  case (Cons item rest)
  let ?s = "s\<lparr>rt_start_sequence := map_option (\<lambda>q. q\<lparr>sq_queue := rest\<rparr>) (rt_start_sequence s)\<rparr>"
  obtain r1 s1 where sp: "spawn_start_item E item ?s = (r1, s1)" by (cases "spawn_start_item E item ?s")
  have "child_at s1 j = Some e"
  proof (cases "j = si_key item")
    case True
    with spawn_start_item_skips [of ?s item E] Cons.prems sp show ?thesis by simp
  next
    case False
    with spawn_start_item_frame [OF sp] Cons.prems show ?thesis by simp
  qed
  with Cons sp show ?case by (auto split: sum.splits if_splits)
qed auto

lemma advance_frame:
  assumes "advance_start_sequence E s = (r, s')" and "child_at s j = Some e" and "\<not> startable e"
  shows "child_at s' j = Some e"
  using assms startup_member_aborted_state
  by (auto simp: advance_start_sequence_def Let_def split: option.splits if_splits prod.splits sum.splits
      elim!: start_queued_frame) (metis snd_conv gate_children(2) start_queued_frame)+

text \<open>
  A readiness report changes the runtime only if it comes from the current generation of an
  active membership that is still starting; then the child is running and counted as ready, and
  no restart can ever undo that by the same report.  Every other report leaves the state as it
  is.
\<close>

theorem child_ready_exact:
  "case child_at s (ry_key ready) of
     None \<Rightarrow> handle_child_ready E ready s = (Inr (), s)
   | Some e \<Rightarrow>
       if ce_lineage e = ry_lineage ready \<and> cr_generation (ce_runtime e) = ry_generation ready \<and>
          ce_membership e = MActive \<and> child_state e = Starting
       then child_at (snd (handle_child_ready E ready s)) (ry_key ready) =
         Some (on_runtime (\<lambda>r. r\<lparr>cr_state := Running, cr_has_reported_ready := True\<rparr>) e)
       else handle_child_ready E ready s = (Inr (), s)"
proof (cases "child_at s (ry_key ready)")
  case None
  then show ?thesis by (simp add: handle_child_ready_def)
next
  case (Some e)
  let ?k = "ry_key ready"
  let ?e = "on_runtime (\<lambda>r. r\<lparr>cr_state := Running, cr_has_reported_ready := True\<rparr>) e"
  have idle: "\<not> startable ?e" by (simp add: startable_def)
  have "child_at (snd (advance_start_sequence E u)) ?k = Some ?e" if "child_at u ?k = Some ?e" for u
    using advance_frame [of E u "fst (advance_start_sequence E u)" "snd (advance_start_sequence E u)"] that idle
    by simp
  with Some show ?thesis
    by (auto simp: handle_child_ready_def Let_def update_runtime_def split: option.split)
qed
















end
