(* ===== verification/Monitor.thy ===== *)
theory Monitor
  imports Exit_Status Lag_Queue "HOL-Library.AList"
begin

text \<open>
  Actor watches (\<open>actor/monitor.rs\<close>): the bounded queue between a watched actor and one
  observer's forwarder, the hub of a logical actor with its generations, membership epochs and
  watchers, and the scope of outbound watches an actor membership owns.  A watch queue is shared
  between the hub and the forwarder; it is known by its number, an operation of the hub returns
  the events it stages in order, and \<open>stage_all\<close> pushes them.  Whether a cancellation token is
  cancelled is decided outside the hub, so the operations read it from a predicate.
\<close>

section \<open>Events\<close>

datatype monitor_event_kind =
    Started (generation: u64)
  | Exited (generation: u64) (status: exit_status)
  | Lagged (dropped: u64)
  | Removed (last_generation: "u64 option")

record monitor_event =
  mv_actor_id :: string
  mv_kind :: monitor_event_kind

definition monitor_event_new :: "string \<Rightarrow> monitor_event_kind \<Rightarrow> monitor_event" where
  "monitor_event_new actor_id k = \<lparr>mv_actor_id = actor_id, mv_kind = k\<rparr>"

section \<open>The watch queue\<close>

definition watch_buffer_cap :: nat where
  "watch_buffer_cap = 128"

record watch_queue =
  wq_actor_id :: string
  wq_events :: "monitor_event list"
  wq_closed :: bool

definition watch_queue_new :: "string \<Rightarrow> watch_queue" where
  "watch_queue_new actor_id = \<lparr>wq_actor_id = actor_id, wq_events = [], wq_closed = False\<rparr>"

definition watch_lagged :: "monitor_event \<Rightarrow> bool" where
  "watch_lagged e \<longleftrightarrow> (case mv_kind e of Lagged _ \<Rightarrow> True | _ \<Rightarrow> False)"

definition watch_lost :: "monitor_event \<Rightarrow> u64" where
  "watch_lost e = (case mv_kind e of Lagged d \<Rightarrow> d | _ \<Rightarrow> 0)"

definition lag_marker :: "string \<Rightarrow> monitor_event" where
  "lag_marker actor_id = monitor_event_new actor_id (Lagged 1)"

definition bump_marker :: "monitor_event \<Rightarrow> monitor_event" where
  "bump_marker m = m\<lparr>mv_kind := Lagged (u64_saturating_add (watch_lost m) 1)\<rparr>"

fun watch_record_drop :: "string \<Rightarrow> monitor_event list \<Rightarrow> monitor_event list" where
  "watch_record_drop actor_id [] = [lag_marker actor_id]"
| "watch_record_drop actor_id (m # q) =
     (if watch_lagged m then bump_marker m # drop 1 q else lag_marker actor_id # q)"

definition watch_slack :: "monitor_event list \<Rightarrow> nat" where
  "watch_slack q =
     2 * length q + (case q of [] \<Rightarrow> 0 | e # _ \<Rightarrow> if watch_lagged e then 0 else 1)"

lemma lag_marker_simps [simp]: "watch_lagged (lag_marker a)" "watch_lost (lag_marker a) = 1"
  by (simp_all add: watch_lagged_def watch_lost_def lag_marker_def monitor_event_new_def)

lemma bump_marker_simps [simp]:
  "watch_lagged (bump_marker m)"
  "watch_lost (bump_marker m) = u64_saturating_add (watch_lost m) 1"
  by (simp_all add: watch_lagged_def watch_lost_def bump_marker_def)

function watch_make_room :: "string \<Rightarrow> monitor_event list \<Rightarrow> monitor_event list" where
  "watch_make_room actor_id q =
     (if watch_buffer_cap \<le> length q then watch_make_room actor_id (watch_record_drop actor_id q)
      else q)"
  by pat_completeness auto
termination
proof (relation "measure (\<lambda>(_, q). watch_slack q)")
  fix a :: string and q :: "monitor_event list"
  assume "watch_buffer_cap \<le> length q"
  then show "((a, watch_record_drop a q), a, q) \<in> measure (\<lambda>(_, q). watch_slack q)"
    by (cases q) (auto simp: watch_buffer_cap_def watch_slack_def)
qed simp

declare watch_make_room.simps [simp del]

definition watch_events_push :: "string \<Rightarrow> monitor_event \<Rightarrow> monitor_event list \<Rightarrow> monitor_event list" where
  "watch_events_push actor_id e q = watch_make_room actor_id q @ [e]"

definition watch_push :: "monitor_event \<Rightarrow> watch_queue \<Rightarrow> watch_queue" where
  "watch_push e q = q\<lparr>wq_events := watch_events_push (wq_actor_id q) e (wq_events q)\<rparr>"

definition watch_pop :: "watch_queue \<Rightarrow> monitor_event option \<times> watch_queue" where
  "watch_pop q =
     (case wq_events q of [] \<Rightarrow> (None, q) | e # es \<Rightarrow> (Some e, q\<lparr>wq_events := es\<rparr>))"

text \<open>Dropping the forwarder's guard closes the queue; the caller signals its completion.\<close>

definition watch_close :: "watch_queue \<Rightarrow> watch_queue" where
  "watch_close q = q\<lparr>wq_closed := True\<rparr>"

interpretation wq: lag_queue watch_lagged watch_lost "\<lambda>_. lag_marker a" "\<lambda>m _. bump_marker m"
  "watch_record_drop a" watch_buffer_cap "watch_make_room a" "watch_events_push a"
  for a
proof unfold_locales
  show "watch_make_room a q =
      (if watch_buffer_cap \<le> length q then watch_make_room a (watch_record_drop a q) else q)"
    for q by (rule watch_make_room.simps)
qed (simp_all add: watch_buffer_cap_def watch_events_push_def)

section \<open>The hub of a logical actor\<close>

record watcher =
  wa_cancellation :: nat
  wa_stop :: nat
  wa_queue :: nat
  wa_min_generation :: u64

datatype monitor_lifecycle =
    LPending
  | LRunning u64 u64
  | LExited
  | LRemoved "u64 option"

record active_run =
  ar_epoch :: u64
  ar_generation :: u64

record retiring_membership =
  rg_epoch :: u64
  rg_last_generation :: "u64 option"
  rg_watchers :: "watcher list"

record monitor_hub =
  mh_actor_id :: string
  mh_next_run_id :: u64
  mh_next_generation :: u64
  mh_current_epoch :: u64
  mh_current_last_generation :: "u64 option"
  mh_lifecycle :: monitor_lifecycle
  mh_active_runs :: "(u64 \<times> active_run) list"
  mh_removal_requested :: bool
  mh_watchers :: "watcher list"
  mh_retiring :: "retiring_membership list"

definition monitor_hub_new :: "string \<Rightarrow> monitor_hub" where
  "monitor_hub_new actor_id =
     \<lparr>mh_actor_id = actor_id, mh_next_run_id = 0, mh_next_generation = 0, mh_current_epoch = 0,
      mh_current_last_generation = None, mh_lifecycle = LPending, mh_active_runs = [],
      mh_removal_requested = False, mh_watchers = [], mh_retiring = []\<rparr>"

record monitor_run =
  mr_run_id :: u64
  mr_reopens_epoch :: "u64 option"

text \<open>
  What a hub operation reads of the outside: the tokens cancelled so far and the queues closed
  so far.
\<close>

record watch_signals =
  ws_cancelled :: "nat \<Rightarrow> bool"
  ws_closed :: "nat \<Rightarrow> bool"

type_synonym staged = "(nat \<times> monitor_event) list"

definition watcher_is_live :: "watch_signals \<Rightarrow> watcher \<Rightarrow> bool" where
  "watcher_is_live W w \<longleftrightarrow>
     \<not> ws_cancelled W (wa_cancellation w) \<and> \<not> ws_cancelled W (wa_stop w) \<and>
     \<not> ws_closed W (wa_queue w)"

fun event_generation :: "monitor_event_kind \<Rightarrow> u64 option" where
  "event_generation (Started g) = Some g"
| "event_generation (Exited g _) = Some g"
| "event_generation _ = None"

definition before_watch :: "watcher \<Rightarrow> monitor_event \<Rightarrow> bool" where
  "before_watch w e \<longleftrightarrow>
     (case event_generation (mv_kind e) of None \<Rightarrow> False | Some g \<Rightarrow> g < wa_min_generation w)"

definition watcher_notify :: "watch_signals \<Rightarrow> monitor_event \<Rightarrow> watcher \<Rightarrow> bool \<times> staged" where
  "watcher_notify W e w =
     (if \<not> watcher_is_live W w then (False, [])
      else if before_watch w e then (True, [])
      else (True, [(wa_queue w, e)]))"

text \<open>\<open>watchers.retain(|watcher| watcher.notify(event))\<close>.\<close>

definition notify_retain :: "watch_signals \<Rightarrow> monitor_event \<Rightarrow> watcher list \<Rightarrow> watcher list \<times> staged" where
  "notify_retain W e ws =
     (filter (\<lambda>w. fst (watcher_notify W e w)) ws, concat (map (\<lambda>w. snd (watcher_notify W e w)) ws))"

text \<open>The final exit and the removal, to the watchers that are drained.\<close>

definition notify_exit_removed ::
  "watch_signals \<Rightarrow> monitor_event \<Rightarrow> monitor_event \<Rightarrow> watcher list \<Rightarrow> staged" where
  "notify_exit_removed W exited removed ws =
     concat (map (\<lambda>w. let (alive, out) = watcher_notify W exited w
                      in if alive then out @ snd (watcher_notify W removed w) else out) ws)"

text \<open>The removal alone, pushed to every drained watcher that is live.\<close>

definition push_removed :: "watch_signals \<Rightarrow> monitor_event \<Rightarrow> watcher list \<Rightarrow> staged" where
  "push_removed W removed ws = map (\<lambda>w. (wa_queue w, removed)) (filter (watcher_is_live W) ws)"

definition hub_event :: "monitor_hub \<Rightarrow> monitor_event_kind \<Rightarrow> monitor_event" where
  "hub_event h k = monitor_event_new (mh_actor_id h) k"

definition is_removed :: "monitor_lifecycle \<Rightarrow> bool" where
  "is_removed l \<longleftrightarrow> (case l of LRemoved _ \<Rightarrow> True | _ \<Rightarrow> False)"

definition has_active :: "u64 \<Rightarrow> monitor_hub \<Rightarrow> bool" where
  "has_active epoch h \<longleftrightarrow> list_ex (\<lambda>(_, r). ar_epoch r = epoch) (mh_active_runs h)"

definition register_watch ::
  "watch_signals \<Rightarrow> nat \<Rightarrow> nat \<Rightarrow> nat \<Rightarrow> monitor_hub \<Rightarrow> staged \<times> monitor_hub" where
  "register_watch W cancellation stop q h =
     (let h1 = h\<lparr>mh_watchers := filter (watcher_is_live W) (mh_watchers h)\<rparr>;
          add = (\<lambda>g. h1\<lparr>mh_watchers := mh_watchers h1 @
                  [\<lparr>wa_cancellation = cancellation, wa_stop = stop, wa_queue = q,
                    wa_min_generation = g\<rparr>]\<rparr>)
      in case mh_lifecycle h1 of
           LRemoved g \<Rightarrow> ([(q, hub_event h (Removed g))], h1)
         | LRunning _ g \<Rightarrow> ([(q, hub_event h (Started g))], add g)
         | _ \<Rightarrow> ([], add (mh_next_generation h1)))"

definition new_run :: "bool \<Rightarrow> monitor_hub \<Rightarrow> monitor_run \<times> monitor_hub" where
  "new_run reopens_terminal h =
     (\<lparr>mr_run_id = mh_next_run_id h,
       mr_reopens_epoch = (if reopens_terminal then Some (mh_current_epoch h) else None)\<rparr>,
      h\<lparr>mh_next_run_id := u64_saturating_add (mh_next_run_id h) 1\<rparr>)"

definition begins_epoch :: "monitor_run \<Rightarrow> monitor_hub \<Rightarrow> bool" where
  "begins_epoch r h \<longleftrightarrow> mr_reopens_epoch r = Some (mh_current_epoch h)"

definition joins_reopened_epoch :: "monitor_run \<Rightarrow> monitor_hub \<Rightarrow> bool" where
  "joins_reopened_epoch r h \<longleftrightarrow>
     (case mr_reopens_epoch r of None \<Rightarrow> False
      | Some epoch \<Rightarrow> u64_saturating_add epoch 1 = mh_current_epoch h \<and>
          \<not> is_removed (mh_lifecycle h) \<and> \<not> mh_removal_requested h)"

text \<open>A membership that a reopening run replaces: its watchers wait for its last exit.\<close>

definition retire_current :: "watch_signals \<Rightarrow> monitor_hub \<Rightarrow> staged \<times> monitor_hub" where
  "retire_current W h =
     (if is_removed (mh_lifecycle h) then ([], h)
      else if has_active (mh_current_epoch h) h then
        ([], h\<lparr>mh_watchers := [],
               mh_retiring := mh_retiring h @
                 [\<lparr>rg_epoch = mh_current_epoch h,
                   rg_last_generation = mh_current_last_generation h,
                   rg_watchers = mh_watchers h\<rparr>]\<rparr>)
      else (push_removed W (hub_event h (Removed (mh_current_last_generation h))) (mh_watchers h),
            h\<lparr>mh_watchers := []\<rparr>))"

definition begin_epoch :: "watch_signals \<Rightarrow> monitor_hub \<Rightarrow> staged \<times> monitor_hub" where
  "begin_epoch W h =
     (let (out, h1) = retire_current W h
      in (out, h1\<lparr>mh_current_epoch := u64_saturating_add (mh_current_epoch h1) 1,
                  mh_current_last_generation := None, mh_lifecycle := LPending,
                  mh_removal_requested := False\<rparr>))"

definition begin_generation :: "watch_signals \<Rightarrow> u64 \<Rightarrow> monitor_hub \<Rightarrow> staged \<times> monitor_hub" where
  "begin_generation W run_id h =
     (let g = mh_next_generation h;
          (ws, out) = notify_retain W (hub_event h (Started g)) (mh_watchers h)
      in (out, h\<lparr>mh_next_generation := u64_saturating_add g 1,
                 mh_current_last_generation := Some g,
                 mh_active_runs := AList.update run_id
                   \<lparr>ar_epoch = mh_current_epoch h, ar_generation = g\<rparr> (mh_active_runs h),
                 mh_lifecycle := LRunning run_id g,
                 mh_watchers := ws\<rparr>))"

definition run_started ::
  "watch_signals \<Rightarrow> monitor_run \<Rightarrow> monitor_hub \<Rightarrow> bool option \<times> staged \<times> monitor_hub" where
  "run_started W r h =
     (let begins = begins_epoch r h
      in if mr_reopens_epoch r \<noteq> None \<and> \<not> begins \<and> \<not> joins_reopened_epoch r h then (None, [], h)
         else if is_removed (mh_lifecycle h) \<and> \<not> begins then (None, [], h)
         else
           (let (out1, h1) = (if begins then begin_epoch W h else ([], h));
                (out2, h2) = begin_generation W (mr_run_id r) h1
            in (Some begins, out1 @ out2, h2)))"

definition exit_current ::
  "watch_signals \<Rightarrow> u64 \<Rightarrow> active_run \<Rightarrow> monitor_event \<Rightarrow> monitor_hub \<Rightarrow> staged \<times> monitor_hub" where
  "exit_current W run_id r exited h =
     (let h1 = (case mh_lifecycle h of
                  LRunning current _ \<Rightarrow>
                    if current = run_id then h\<lparr>mh_lifecycle := LExited\<rparr> else h
                | _ \<Rightarrow> h)
      in if mh_removal_requested h1 \<and> \<not> has_active (ar_epoch r) h1 then
           (let last = mh_current_last_generation h1
            in (notify_exit_removed W exited (hub_event h1 (Removed last)) (mh_watchers h1),
                h1\<lparr>mh_lifecycle := LRemoved last, mh_watchers := []\<rparr>))
         else
           (let (ws, out) = notify_retain W exited (mh_watchers h1)
            in (out, h1\<lparr>mh_watchers := ws\<rparr>)))"

fun position_epoch :: "u64 \<Rightarrow> retiring_membership list \<Rightarrow> nat option" where
  "position_epoch epoch [] = None"
| "position_epoch epoch (m # ms) =
     (if rg_epoch m = epoch then Some 0 else map_option Suc (position_epoch epoch ms))"

definition exit_retiring ::
  "watch_signals \<Rightarrow> active_run \<Rightarrow> monitor_event \<Rightarrow> monitor_hub \<Rightarrow> staged \<times> monitor_hub" where
  "exit_retiring W r exited h =
     (case position_epoch (ar_epoch r) (mh_retiring h) of
        None \<Rightarrow> ([], h)
      | Some i \<Rightarrow>
          (let m = mh_retiring h ! i
           in if has_active (ar_epoch r) h then
                (let (ws, out) = notify_retain W exited (rg_watchers m)
                 in (out, h\<lparr>mh_retiring := (mh_retiring h)[i := m\<lparr>rg_watchers := ws\<rparr>]\<rparr>))
              else
                (notify_exit_removed W exited (hub_event h (Removed (rg_last_generation m)))
                   (rg_watchers m),
                 h\<lparr>mh_retiring := take i (mh_retiring h) @ drop (Suc i) (mh_retiring h)\<rparr>)))"

definition run_exited ::
  "watch_signals \<Rightarrow> u64 \<Rightarrow> exit_status \<Rightarrow> monitor_hub \<Rightarrow> staged \<times> monitor_hub" where
  "run_exited W run_id st h =
     (case map_of (mh_active_runs h) run_id of
        None \<Rightarrow> ([], h)
      | Some r \<Rightarrow>
          (let h1 = h\<lparr>mh_active_runs := AList.delete run_id (mh_active_runs h)\<rparr>;
               exited = hub_event h (Exited (ar_generation r) st)
           in if ar_epoch r = mh_current_epoch h1 then exit_current W run_id r exited h1
              else exit_retiring W r exited h1))"

definition hub_removed :: "watch_signals \<Rightarrow> u64 \<Rightarrow> monitor_hub \<Rightarrow> staged \<times> monitor_hub" where
  "hub_removed W epoch h =
     (if epoch \<noteq> mh_current_epoch h then ([], h)
      else if is_removed (mh_lifecycle h) then ([], h)
      else if has_active epoch h then ([], h\<lparr>mh_removal_requested := True\<rparr>)
      else
        (let g = mh_current_last_generation h
         in (push_removed W (hub_event h (Removed g)) (mh_watchers h),
             h\<lparr>mh_lifecycle := LRemoved g, mh_watchers := []\<rparr>)))"

text \<open>The staged events reach the shared queues.\<close>

definition stage_all :: "staged \<Rightarrow> (nat \<Rightarrow> watch_queue) \<Rightarrow> nat \<Rightarrow> watch_queue" where
  "stage_all out qs = fold (\<lambda>(q, e) qs. qs(q := watch_push e (qs q))) out qs"

section \<open>What one watch may see\<close>

text \<open>
  The contract of a watch, as an automaton over the events staged for it: generations start in
  increasing order, an exit belongs to a generation that started and has not exited yet, and the
  removal comes last, when every started generation has exited.
\<close>

datatype watch_state = Following u64 "u64 list" | Finished | Broken

fun watch_step :: "monitor_event_kind \<Rightarrow> watch_state \<Rightarrow> watch_state" where
  "watch_step (Started g) (Following m running) =
     (if m \<le> g then Following (Suc g) (g # running) else Broken)"
| "watch_step (Exited g _) (Following m running) =
     (if g \<in> set running then Following m (remove1 g running) else Broken)"
| "watch_step (Removed _) (Following m running) = (if running = [] then Finished else Broken)"
| "watch_step _ _ = Broken"

definition watch_trace :: "monitor_event list \<Rightarrow> watch_state" where
  "watch_trace es = fold (watch_step \<circ> mv_kind) es (Following 0 [])"

text \<open>The events staged for one queue.\<close>

definition stream :: "nat \<Rightarrow> staged \<Rightarrow> monitor_event list" where
  "stream q out = map snd (filter (\<lambda>(p, _). p = q) out)"

text \<open>
  The histories of a hub: runs are created in any number and each started at most once, and
  exits, removals and registrations come in any order, with any tokens cancelled and queues
  closed.  The last arguments are the runs not started yet, the number of queues created and
  everything staged.
\<close>

inductive watch_run ::
  "(watch_signals \<Rightarrow> bool) \<Rightarrow> string \<Rightarrow> nat \<Rightarrow> monitor_hub \<Rightarrow> monitor_run list \<Rightarrow> nat \<Rightarrow> staged \<Rightarrow> bool"
  for P :: "watch_signals \<Rightarrow> bool" and a :: string where
  init: "watch_run P a 0 (monitor_hub_new a) [] 0 []"
| mint: "watch_run P a n h rs k out \<Longrightarrow> new_run b h = (r, h') \<Longrightarrow> watch_run P a (Suc n) h' (r # rs) k out"
| start: "watch_run P a n h rs k out \<Longrightarrow> P W \<Longrightarrow> r \<in> set rs \<Longrightarrow> run_started W r h = (x, new, h') \<Longrightarrow>
    watch_run P a (Suc n) h' (remove1 r rs) k (out @ new)"
| exit: "watch_run P a n h rs k out \<Longrightarrow> P W \<Longrightarrow> run_exited W i st h = (new, h') \<Longrightarrow>
    watch_run P a (Suc n) h' rs k (out @ new)"
| remove: "watch_run P a n h rs k out \<Longrightarrow> P W \<Longrightarrow> hub_removed W epoch h = (new, h') \<Longrightarrow>
    watch_run P a (Suc n) h' rs k (out @ new)"
| register: "watch_run P a n h rs k out \<Longrightarrow> P W \<Longrightarrow> register_watch W c s k h = (new, h') \<Longrightarrow>
    watch_run P a (Suc n) h' rs (Suc k) (out @ new)"

lemma watch_trace_simps [simp]:
  "watch_trace [] = Following 0 []"
  "watch_trace (es @ fs) = fold (watch_step \<circ> mv_kind) fs (watch_trace es)"
  by (simp_all add: watch_trace_def)

lemma stream_simps [simp]:
  "stream q [] = []"
  "stream q (out @ new) = stream q out @ stream q new"
  "stream q ((p, e) # out) = (if p = q then e # stream q out else stream q out)"
  by (simp_all add: stream_def)

lemma stream_own: "\<forall>x \<in> set out. fst x = q \<Longrightarrow> stream q out = map snd out"
  by (induction out) auto

lemma stream_other: "\<forall>x \<in> set out. fst x \<noteq> q \<Longrightarrow> stream q out = []"
  by (induction out) auto

text \<open>Each watcher stages only into its own queue.\<close>

definition stages_own :: "(watcher \<Rightarrow> staged) \<Rightarrow> bool" where
  "stages_own f \<longleftrightarrow> (\<forall>w. \<forall>x \<in> set (f w). fst x = wa_queue w)"

lemma stream_concat_other:
  assumes own: "stages_own f" and "q \<notin> wa_queue ` set ws"
  shows "stream q (concat (map f ws)) = []"
  using assms(2)
proof (induction ws)
  case (Cons v ws)
  have "stream q (f v) = []" using Cons.prems own by (intro stream_other) (auto simp: stages_own_def)
  with Cons show ?case by simp
qed simp

lemma stream_concat:
  assumes own: "stages_own f" and "distinct (map wa_queue ws)" and "w \<in> set ws"
  shows "stream (wa_queue w) (concat (map f ws)) = map snd (f w)"
  using assms(2,3)
proof (induction ws)
  case (Cons v ws)
  show ?case
  proof (cases "w = v")
    case True
    have "stream (wa_queue v) (f v) = map snd (f v)"
      using own by (intro stream_own) (simp add: stages_own_def)
    moreover have "stream (wa_queue v) (concat (map f ws)) = []"
      using own Cons.prems(1) by (intro stream_concat_other) simp_all
    ultimately show ?thesis using True by simp
  next
    case False
    with Cons.prems have w: "w \<in> set ws" by simp
    then have "wa_queue w \<in> wa_queue ` set ws" by (rule imageI)
    then have "wa_queue w \<noteq> wa_queue v" using Cons.prems(1) by auto
    then have "stream (wa_queue w) (f v) = []"
      using own by (intro stream_other) (auto simp: stages_own_def)
    with Cons.IH [OF _ w] Cons.prems(1) show ?thesis by simp
  qed
qed simp

end
