(* ===== verification/Watch_Streams.thy ===== *)
theory Watch_Streams
  imports Monitor "HOL-Library.Code_Target_Nat"
begin

text \<open>
  The invariant of a monitor hub and what it gives every watch: the events staged for one
  queue follow the watch automaton, whatever the order of starts, exits, removals,
  registrations and cancellations, and no watch is left behind without its final removal.
\<close>

section \<open>The invariant\<close>

definition live_generations :: "u64 \<Rightarrow> monitor_hub \<Rightarrow> u64 set" where
  "live_generations ep h = {g. \<exists>i. (i, \<lparr>ar_epoch = ep, ar_generation = g\<rparr>) \<in> set (mh_active_runs h)}"

text \<open>A watch that has seen exactly the starts of the live generations it is entitled to.\<close>

definition following :: "u64 \<Rightarrow> u64 set \<Rightarrow> staged \<Rightarrow> watcher \<Rightarrow> bool" where
  "following N L out w \<longleftrightarrow>
     wa_min_generation w \<le> N \<and>
     (\<exists>m running. watch_trace (stream (wa_queue w) out) = Following m running \<and> m \<le> N \<and>
        distinct running \<and> set running = {g \<in> L. wa_min_generation w \<le> g})"

definition all_watchers :: "monitor_hub \<Rightarrow> watcher list" where
  "all_watchers h = mh_watchers h @ concat (map rg_watchers (mh_retiring h))"

definition runs_ok :: "monitor_hub \<Rightarrow> bool" where
  "runs_ok h \<longleftrightarrow>
     distinct (map fst (mh_active_runs h)) \<and> distinct (map (ar_generation \<circ> snd) (mh_active_runs h)) \<and>
     (\<forall>(i, r) \<in> set (mh_active_runs h).
        i < mh_next_run_id h \<and> ar_generation r < mh_next_generation h \<and>
        (ar_epoch r = mh_current_epoch h \<or> ar_epoch r \<in> rg_epoch ` set (mh_retiring h)))"

definition retiring_ok :: "monitor_hub \<Rightarrow> bool" where
  "retiring_ok h \<longleftrightarrow>
     distinct (map rg_epoch (mh_retiring h)) \<and>
     (\<forall>m \<in> set (mh_retiring h). rg_epoch m < mh_current_epoch h \<and> has_active (rg_epoch m) h)"

definition lifecycle_ok :: "monitor_hub \<Rightarrow> bool" where
  "lifecycle_ok h \<longleftrightarrow>
     (case mh_lifecycle h of
        LRunning i g \<Rightarrow>
          (i, \<lparr>ar_epoch = mh_current_epoch h, ar_generation = g\<rparr>) \<in> set (mh_active_runs h) \<and>
          Suc g = mh_next_generation h
      | LRemoved _ \<Rightarrow> mh_watchers h = [] \<and> \<not> has_active (mh_current_epoch h) h
      | _ \<Rightarrow> True) \<and>
     (mh_removal_requested h \<longrightarrow> is_removed (mh_lifecycle h) \<or> has_active (mh_current_epoch h) h)"

definition hub_wf :: "monitor_hub \<Rightarrow> bool" where
  "hub_wf h \<longleftrightarrow> runs_ok h \<and> retiring_ok h \<and> lifecycle_ok h"

definition watches_ok :: "bool \<Rightarrow> monitor_hub \<Rightarrow> nat \<Rightarrow> staged \<Rightarrow> bool" where
  "watches_ok b h k out \<longleftrightarrow>
     distinct (map wa_queue (all_watchers h)) \<and>
     (\<forall>w \<in> set (all_watchers h). wa_queue w < k) \<and> (\<forall>x \<in> set out. fst x < k) \<and>
     (\<forall>w \<in> set (mh_watchers h).
        following (mh_next_generation h) (live_generations (mh_current_epoch h) h) out w) \<and>
     (\<forall>m \<in> set (mh_retiring h). \<forall>w \<in> set (rg_watchers m).
        following (mh_next_generation h) (live_generations (rg_epoch m) h) out w) \<and>
     (\<forall>q. watch_trace (stream q out) \<noteq> Broken) \<and>
     (b \<longrightarrow> (\<forall>q < k. q \<in> wa_queue ` set (all_watchers h) \<or> watch_trace (stream q out) = Finished))"

definition all_live :: "watch_signals \<Rightarrow> bool" where
  "all_live W \<longleftrightarrow> (\<forall>w. watcher_is_live W w)"

section \<open>Effects of staging\<close>

lemma watch_notify_stages_own: "stages_own (\<lambda>w. snd (watcher_notify W e w))"
  by (simp add: stages_own_def watcher_notify_def)

lemma exit_removed_stages_own:
  "stages_own (\<lambda>w. let (alive, out) = watcher_notify W x w
                   in if alive then out @ snd (watcher_notify W r w) else out)"
  by (auto simp: stages_own_def watcher_notify_def split: if_splits)

lemma push_removed_concat:
  "push_removed W e ws = concat (map (\<lambda>w. if watcher_is_live W w then [(wa_queue w, e)] else []) ws)"
  unfolding push_removed_def by (induction ws) auto

lemma push_removed_stages_own: "stages_own (\<lambda>w. if watcher_is_live W w then [(wa_queue w, e)] else [])"
  by (simp add: stages_own_def)

lemmas stream_notify_other = stream_concat_other [OF watch_notify_stages_own]
lemmas stream_notify = stream_concat [OF watch_notify_stages_own]
lemmas stream_exit_removed_other =
  stream_concat_other [OF exit_removed_stages_own, folded notify_exit_removed_def]
lemmas stream_exit_removed = stream_concat [OF exit_removed_stages_own, folded notify_exit_removed_def]
lemmas stream_push_removed_other =
  stream_concat_other [OF push_removed_stages_own, folded push_removed_concat]
lemmas stream_push_removed = stream_concat [OF push_removed_stages_own, folded push_removed_concat]

lemma follow_keep:
  assumes "following N L out w" and "stream (wa_queue w) new = []" and "N \<le> N'"
    and "{g \<in> L'. wa_min_generation w \<le> g} = {g \<in> L. wa_min_generation w \<le> g}"
  shows "following N' L' (out @ new) w"
  using assms by (auto simp: following_def)

lemma follow_start:
  assumes "following N L out w" and "stream (wa_queue w) new = [e]" and "mv_kind e = Started N" and "N \<notin> L"
  shows "following (Suc N) (insert N L) (out @ new) w"
  using assms by (auto simp: following_def)

lemma follow_exit:
  assumes "following N L out w" and "g \<in> L" and "mv_kind e = Exited g st"
    and "stream (wa_queue w) new = (if g < wa_min_generation w then [] else [e])"
  shows "following N (L - {g}) (out @ new) w"
  using assms by (auto simp: following_def set_remove1_eq split: if_splits)

lemma follow_removed:
  assumes "following N {} out w" and "stream (wa_queue w) new = [e]" and "mv_kind e = Removed l"
  shows "watch_trace (stream (wa_queue w) (out @ new)) = Finished"
  using assms by (auto simp: following_def)

lemma follow_exit_removed:
  assumes "following N {g} out w" and "mv_kind x = Exited g st" and "mv_kind r = Removed l"
    and "stream (wa_queue w) new = (if g < wa_min_generation w then [r] else [x, r])"
  shows "watch_trace (stream (wa_queue w) (out @ new)) = Finished"
proof -
  obtain m running where o: "watch_trace (stream (wa_queue w) out) = Following m running" "distinct running"
    "set running = {h \<in> {g}. wa_min_generation w \<le> h}" using assms(1) by (auto simp: following_def)
  show ?thesis
  proof (cases "g < wa_min_generation w")
    case True
    have "set running = {}" unfolding o(3) using True by auto
    with o(1) True assms show ?thesis by simp
  next
    case False
    have "set running = {g}" unfolding o(3) using False by auto
    with o(2) have "running = [g]" by (cases running; cases "tl running") auto
    with o False assms show ?thesis by simp
  qed
qed

lemma follow_not_broken: "following N L out w \<Longrightarrow> watch_trace (stream (wa_queue w) out) \<noteq> Broken"
  by (auto simp: following_def)

text \<open>One operation of the hub, seen by its watches.\<close>

lemma watches_step:
  assumes ok: "watches_ok b h k out"
    and staged: "\<forall>x \<in> set new. fst x \<in> wa_queue ` set (all_watchers h)"
    and "distinct (map wa_queue (all_watchers h'))"
    and sub: "set (all_watchers h') \<subseteq> set (all_watchers h)"
    and cur: "\<forall>w \<in> set (mh_watchers h').
      following (mh_next_generation h') (live_generations (mh_current_epoch h') h') (out @ new) w"
    and ret: "\<forall>m \<in> set (mh_retiring h'). \<forall>w \<in> set (rg_watchers m).
      following (mh_next_generation h') (live_generations (rg_epoch m) h') (out @ new) w"
    and gone: "\<forall>w \<in> set (all_watchers h) - set (all_watchers h').
      stream (wa_queue w) new = [] \<and> \<not> b \<or> watch_trace (stream (wa_queue w) (out @ new)) = Finished"
  shows "watches_ok b h' k (out @ new)"
proof -
  have own: "stream q new = []" if "q \<notin> wa_queue ` set (all_watchers h)" for q
    using staged that by (intro stream_other) auto
  have unbroken: "watch_trace (stream q (out @ new)) \<noteq> Broken" for q
  proof (cases "q \<in> wa_queue ` set (all_watchers h)")
    case False
    with own [of q] ok show ?thesis by (simp add: watches_ok_def)
  next
    case True
    then obtain w where w: "w \<in> set (all_watchers h)" "q = wa_queue w" by auto
    show ?thesis
    proof (cases "w \<in> set (all_watchers h')")
      case True
      then obtain N L where "following N L (out @ new) w" using cur ret by (simp add: all_watchers_def) blast
      then show ?thesis using w(2) by (simp only: follow_not_broken not_False_eq_True)
    next
      case False
      with gone w have "stream q new = [] \<or> watch_trace (stream q (out @ new)) = Finished" by auto
      with ok show ?thesis by (auto simp: watches_ok_def)
    qed
  qed
  have finished: "q \<in> wa_queue ` set (all_watchers h') \<or> watch_trace (stream q (out @ new)) = Finished"
    if "b" "q < k" for q
  proof (cases "q \<in> wa_queue ` set (all_watchers h)")
    case False
    with own [of q] ok that show ?thesis by (auto simp: watches_ok_def)
  next
    case True
    then obtain w where "w \<in> set (all_watchers h)" "q = wa_queue w" by auto
    with gone that show ?thesis by (cases "w \<in> set (all_watchers h')") auto
  qed
  have "\<forall>x \<in> set (out @ new). fst x < k" using ok staged by (auto simp: watches_ok_def)
  then show ?thesis
    using assms(3) sub cur ret unbroken finished ok unfolding watches_ok_def by blast
qed

section \<open>Runs and generations\<close>

lemma alist_update_new: "i \<notin> fst ` set xs \<Longrightarrow> AList.update i v xs = xs @ [(i, v)]"
  by (induction xs) auto

lemma in_live: "(i, r) \<in> set (mh_active_runs h) \<Longrightarrow> ar_generation r \<in> live_generations (ar_epoch r) h"
  unfolding live_generations_def by (cases r) auto

lemma live_less: "runs_ok h \<Longrightarrow> g \<in> live_generations ep h \<Longrightarrow> g < mh_next_generation h"
  by (auto simp: runs_ok_def live_generations_def)

lemma has_active_iff: "has_active ep h \<longleftrightarrow> live_generations ep h \<noteq> {}"
proof
  assume "has_active ep h"
  then obtain i r where "(i, r) \<in> set (mh_active_runs h)" "ar_epoch r = ep"
    by (auto simp: has_active_def list_ex_iff)
  with in_live [of i r h] show "live_generations ep h \<noteq> {}" by auto
next
  assume "live_generations ep h \<noteq> {}"
  then show "has_active ep h" by (force simp: has_active_def list_ex_iff live_generations_def)
qed

lemma live_delete:
  assumes runs: "runs_ok h" and r: "(i, r) \<in> set (mh_active_runs h)"
    and h': "mh_active_runs h' = AList.delete i (mh_active_runs h)"
  shows "live_generations ep h' =
    (if ep = ar_epoch r then live_generations ep h - {ar_generation r} else live_generations ep h)"
proof -
  have d: "distinct (map fst (mh_active_runs h))" "distinct (map (ar_generation \<circ> snd) (mh_active_runs h))"
    using runs by (simp_all add: runs_ok_def)
  have mem: "(j, x) \<in> set (AList.delete i (mh_active_runs h)) \<longleftrightarrow> (j, x) \<in> set (mh_active_runs h) \<and> j \<noteq> i"
    for j x by (auto simp: AList.delete_eq)
  have same: "x = r" if "(i, x) \<in> set (mh_active_runs h)" for x
    using eq_key_imp_eq_value [OF d(1) that r] .
  have key: "j = i" if "(j, x) \<in> set (mh_active_runs h)" "ar_generation x = ar_generation r" for j x
    using d(2) that r inj_onD [of "ar_generation \<circ> snd" "set (mh_active_runs h)" "(j, x)" "(i, r)"]
    by (auto simp: distinct_map)
  have "g \<in> live_generations ep h' \<longleftrightarrow>
      g \<in> live_generations ep h \<and> \<not> (ep = ar_epoch r \<and> g = ar_generation r)" for g
  proof
    assume "g \<in> live_generations ep h'"
    then obtain j where j: "(j, \<lparr>ar_epoch = ep, ar_generation = g\<rparr>) \<in> set (mh_active_runs h)" "j \<noteq> i"
      using mem h' by (auto simp: live_generations_def)
    with key [OF j(1)] in_live [OF j(1)]
    show "g \<in> live_generations ep h \<and> \<not> (ep = ar_epoch r \<and> g = ar_generation r)" by auto
  next
    assume g: "g \<in> live_generations ep h \<and> \<not> (ep = ar_epoch r \<and> g = ar_generation r)"
    then obtain j where j: "(j, \<lparr>ar_epoch = ep, ar_generation = g\<rparr>) \<in> set (mh_active_runs h)"
      by (auto simp: live_generations_def)
    then have "j \<noteq> i" using same g by fastforce
    with j mem h' show "g \<in> live_generations ep h'" by (auto simp: live_generations_def)
  qed
  then show ?thesis by auto
qed

lemma live_cong: "mh_active_runs h' = mh_active_runs h \<Longrightarrow> live_generations ep h' = live_generations ep h"
  by (simp add: live_generations_def)

lemma has_active_cong: "mh_active_runs h' = mh_active_runs h \<Longrightarrow> has_active ep h' = has_active ep h"
  by (simp add: has_active_def)

lemma live_update [simp]:
  "live_generations ep (h\<lparr>mh_watchers := ws\<rparr>) = live_generations ep h"
  "live_generations ep (h\<lparr>mh_retiring := ms\<rparr>) = live_generations ep h"
  "live_generations ep (h\<lparr>mh_lifecycle := l\<rparr>) = live_generations ep h"
  "live_generations ep (h\<lparr>mh_removal_requested := q\<rparr>) = live_generations ep h"
  "live_generations ep (h\<lparr>mh_next_generation := n\<rparr>) = live_generations ep h"
  "live_generations ep (h\<lparr>mh_next_run_id := n\<rparr>) = live_generations ep h"
  "live_generations ep (h\<lparr>mh_current_epoch := n\<rparr>) = live_generations ep h"
  "live_generations ep (h\<lparr>mh_current_last_generation := g\<rparr>) = live_generations ep h"
  by (simp_all add: live_generations_def)

lemma has_active_update [simp]:
  "has_active ep (h\<lparr>mh_watchers := ws\<rparr>) = has_active ep h"
  "has_active ep (h\<lparr>mh_retiring := ms\<rparr>) = has_active ep h"
  "has_active ep (h\<lparr>mh_lifecycle := l\<rparr>) = has_active ep h"
  "has_active ep (h\<lparr>mh_removal_requested := q\<rparr>) = has_active ep h"
  "has_active ep (h\<lparr>mh_next_run_id := n\<rparr>) = has_active ep h"
  by (simp_all add: has_active_def)

definition hub_inv :: "bool \<Rightarrow> monitor_hub \<Rightarrow> nat \<Rightarrow> staged \<Rightarrow> bool" where
  "hub_inv b h k out \<longleftrightarrow> hub_wf h \<and> watches_ok b h k out"

lemma hub_invD:
  assumes "hub_inv b h k out"
  shows "runs_ok h" "retiring_ok h" "lifecycle_ok h" "watches_ok b h k out"
  using assms by (simp_all add: hub_inv_def hub_wf_def)

text \<open>Staging for the current watchers leaves those of a retiring membership alone.\<close>

lemma follow_retiring:
  assumes "watches_ok b h k out" and m: "m \<in> set (mh_retiring h)" "w \<in> set (rg_watchers m)"
    and new: "\<forall>x \<in> set new. fst x \<in> wa_queue ` set (mh_watchers h)"
    and "mh_next_generation h \<le> N" and "L = live_generations (rg_epoch m) h"
  shows "following N L (out @ new) w"
proof (rule follow_keep)
  show "following (mh_next_generation h) (live_generations (rg_epoch m) h) out w"
    using assms(1) m by (simp add: watches_ok_def)
  have "wa_queue w \<notin> wa_queue ` set (mh_watchers h)"
    using assms(1) m by (auto simp: watches_ok_def all_watchers_def)
  with new show "stream (wa_queue w) new = []" by (intro stream_other) auto
qed (simp_all add: assms)

lemma follow_current:
  assumes "watches_ok b h k out" and m: "w \<in> set (mh_watchers h)"
    and new: "\<forall>x \<in> set new. fst x \<notin> wa_queue ` set (mh_watchers h)"
    and "mh_next_generation h \<le> N" and "L = live_generations (mh_current_epoch h) h"
  shows "following N L (out @ new) w"
proof (rule follow_keep)
  show "following (mh_next_generation h) (live_generations (mh_current_epoch h) h) out w"
    using assms(1) m by (simp add: watches_ok_def)
  show "stream (wa_queue w) new = []" using new m by (intro stream_other) auto
qed (simp_all add: assms)

lemma watchers_distinct: "watches_ok b h k out \<Longrightarrow> distinct (map wa_queue (mh_watchers h))"
  by (simp add: watches_ok_def all_watchers_def)

text \<open>The membership a reopening run replaces.\<close>

lemma retire_current_watches:
  assumes inv: "hub_inv b h k out" and live: "b \<Longrightarrow> all_live W"
    and ret: "retire_current W h = (new, h')"
  shows "watches_ok b h' k (out @ new)" "mh_watchers h' = []"
proof -
  note ok = hub_invD [OF inv]
  have "watches_ok b h' k (out @ new) \<and> mh_watchers h' = []"
  proof (cases "is_removed (mh_lifecycle h)")
    case True
    with ok(3) ret ok(4) show ?thesis
      by (auto simp: retire_current_def lifecycle_ok_def is_removed_def split: monitor_lifecycle.splits)
  next
    case nr: False
    show ?thesis
    proof (cases "has_active (mh_current_epoch h) h")
      case True
      with nr ret have new: "new = []" and h': "h' = h\<lparr>mh_watchers := [], mh_retiring := mh_retiring h @
          [\<lparr>rg_epoch = mh_current_epoch h, rg_last_generation = mh_current_last_generation h,
            rg_watchers = mh_watchers h\<rparr>]\<rparr>"
        by (auto simp: retire_current_def)
      have sets: "set (all_watchers h') = set (all_watchers h)"
        and dist: "distinct (map wa_queue (all_watchers h')) = distinct (map wa_queue (all_watchers h))"
        by (auto simp: h' all_watchers_def)
      have lv: "live_generations ep h' = live_generations ep h" for ep by (rule live_cong) (simp add: h')
      have f: "mh_watchers h' = []" "mh_next_generation h' = mh_next_generation h"
        "mh_retiring h' = mh_retiring h @ [\<lparr>rg_epoch = mh_current_epoch h,
           rg_last_generation = mh_current_last_generation h, rg_watchers = mh_watchers h\<rparr>]"
        by (simp_all add: h')
      have "watches_ok b h' k out"
        using ok(4) unfolding watches_ok_def lv sets dist by (simp add: f)
      with new h' show ?thesis by simp
    next
      case False
      let ?e = "hub_event h (Removed (mh_current_last_generation h))"
      have new: "new = push_removed W ?e (mh_watchers h)" and h': "h' = h\<lparr>mh_watchers := []\<rparr>"
        using nr False ret by (auto simp: retire_current_def)
      have none: "live_generations (mh_current_epoch h) h = {}" using False by (simp add: has_active_iff)
      have dist: "distinct (map wa_queue (mh_watchers h))" by (rule watchers_distinct [OF ok(4)])
      have gone: "stream (wa_queue w) new = [] \<and> \<not> b \<or> watch_trace (stream (wa_queue w) (out @ new)) = Finished"
        if "w \<in> set (mh_watchers h)" for w
      proof (cases "watcher_is_live W w")
        case True
        have "following (mh_next_generation h) {} out w" using ok(4) that none by (simp add: watches_ok_def)
        from follow_removed [OF this, of new ?e "mh_current_last_generation h"] True
        show ?thesis unfolding new by (simp add: stream_push_removed [OF dist that] hub_event_def monitor_event_new_def)
      next
        case False
        with live show ?thesis unfolding new by (auto simp: stream_push_removed [OF dist that] all_live_def)
      qed
      have "watches_ok b h' k (out @ new)"
      proof (rule watches_step [OF ok(4)])
        show "\<forall>x \<in> set new. fst x \<in> wa_queue ` set (all_watchers h)"
          by (auto simp: new push_removed_def all_watchers_def)
        show "\<forall>m \<in> set (mh_retiring h'). \<forall>w \<in> set (rg_watchers m).
            following (mh_next_generation h') (live_generations (rg_epoch m) h') (out @ new) w"
          using new h' by (auto intro!: follow_retiring [OF ok(4)] simp: push_removed_def)
      qed (use ok(4) gone in \<open>auto simp: h' watches_ok_def all_watchers_def\<close>)
      with h' show ?thesis by simp
    qed
  qed
  then show "watches_ok b h' k (out @ new)" "mh_watchers h' = []" by simp_all
qed

lemma begin_epoch_inv:
  assumes inv: "hub_inv b h k out" and live: "b \<Longrightarrow> all_live W" and small: "mh_current_epoch h < u64_max"
    and be: "begin_epoch W h = (new, h')"
  shows "hub_inv b h' k (out @ new)" "mh_active_runs h' = mh_active_runs h" "mh_lifecycle h' = LPending"
    "mh_next_run_id h' = mh_next_run_id h" "mh_next_generation h' = mh_next_generation h"
    "mh_current_epoch h' = Suc (mh_current_epoch h)"
proof -
  note ok = hub_invD [OF inv]
  obtain h1 where ret: "retire_current W h = (new, h1)" and h': "h' = h1\<lparr>mh_current_epoch :=
      u64_saturating_add (mh_current_epoch h1) 1, mh_current_last_generation := None,
      mh_lifecycle := LPending, mh_removal_requested := False\<rparr>"
    using be by (auto simp: begin_epoch_def split: prod.splits)
  have same: "mh_active_runs h1 = mh_active_runs h" "mh_next_run_id h1 = mh_next_run_id h"
    "mh_next_generation h1 = mh_next_generation h" "mh_current_epoch h1 = mh_current_epoch h"
    using ret by (auto simp: retire_current_def split: if_splits)
  have epoch: "mh_current_epoch h' = Suc (mh_current_epoch h)"
    using small by (simp add: h' same u64_saturating_add_def)
  have lv: "live_generations ep h' = live_generations ep h" "has_active ep h' = has_active ep h" for ep
    by (rule live_cong, simp add: h' same, rule has_active_cong, simp add: h' same)
  have cases: "mh_retiring h1 = mh_retiring h \<and> \<not> has_active (mh_current_epoch h) h \<or>
      has_active (mh_current_epoch h) h \<and> (\<exists>m. mh_retiring h1 = mh_retiring h @ [m] \<and> rg_epoch m = mh_current_epoch h)"
    using ret ok(3)
    by (auto simp: retire_current_def lifecycle_ok_def is_removed_def split: if_splits monitor_lifecycle.splits)
  have ep: "rg_epoch ` set (mh_retiring h) \<subseteq> {..< mh_current_epoch h}"
    using ok(2) by (auto simp: retiring_ok_def)
  have active: "ar_epoch r \<in> rg_epoch ` set (mh_retiring h1)" if "(i, r) \<in> set (mh_active_runs h)" for i r
  proof -
    have "ar_epoch r = mh_current_epoch h \<or> ar_epoch r \<in> rg_epoch ` set (mh_retiring h)"
      using that ok(1) by (auto simp: runs_ok_def)
    moreover have "has_active (ar_epoch r) h" using in_live [OF that] by (auto simp: has_active_iff)
    ultimately show ?thesis using cases by auto
  qed
  have "runs_ok h'" using ok(1) active by (auto simp: runs_ok_def h' same)
  moreover have "retiring_ok h'"
    using ok(2) cases ep by (auto simp: retiring_ok_def epoch lv) (auto simp: h')
  moreover have "lifecycle_ok h'" by (simp add: lifecycle_ok_def h')
  moreover have "watches_ok b h' k (out @ new)"
    using retire_current_watches [OF inv live ret]
    by (simp add: watches_ok_def h' all_watchers_def)
  ultimately show "hub_inv b h' k (out @ new)" by (simp add: hub_inv_def hub_wf_def)
  show "mh_active_runs h' = mh_active_runs h" "mh_lifecycle h' = LPending"
    "mh_next_run_id h' = mh_next_run_id h" "mh_next_generation h' = mh_next_generation h"
    "mh_current_epoch h' = Suc (mh_current_epoch h)"
    using epoch same by (simp_all add: h')
qed

lemma begin_generation_inv:
  assumes inv: "hub_inv b h k out" and live: "b \<Longrightarrow> all_live W" and small: "mh_next_generation h < u64_max"
    and "\<not> is_removed (mh_lifecycle h)" and fresh: "i < mh_next_run_id h" "i \<notin> fst ` set (mh_active_runs h)"
    and bg: "begin_generation W i h = (new, h')"
  shows "hub_inv b h' k (out @ new)"
    "mh_next_generation h' = Suc (mh_next_generation h)"
    "fst ` set (mh_active_runs h') = insert i (fst ` set (mh_active_runs h))"
proof -
  note ok = hub_invD [OF inv]
  let ?N = "mh_next_generation h" and ?ep = "mh_current_epoch h"
  let ?e = "hub_event h (Started ?N)" and ?r = "\<lparr>ar_epoch = ?ep, ar_generation = ?N\<rparr>"
  have upd: "AList.update i ?r (mh_active_runs h) = mh_active_runs h @ [(i, ?r)]"
    by (rule alist_update_new [OF fresh(2)])
  have new: "new = concat (map (\<lambda>w. snd (watcher_notify W ?e w)) (mh_watchers h))"
    and ws: "mh_watchers h' = filter (\<lambda>w. fst (watcher_notify W ?e w)) (mh_watchers h)"
    and h': "mh_active_runs h' = mh_active_runs h @ [(i, ?r)]" "mh_next_generation h' = Suc ?N"
      "mh_next_run_id h' = mh_next_run_id h" "mh_current_epoch h' = ?ep" "mh_retiring h' = mh_retiring h"
      "mh_lifecycle h' = LRunning i ?N"
    using bg small upd by (auto simp: begin_generation_def notify_retain_def Let_def u64_saturating_add_def)
  have lv: "live_generations ep h' = (if ep = ?ep then insert ?N (live_generations ep h) else live_generations ep h)" for ep
    by (auto simp: live_generations_def h')
  have act: "has_active ep h \<Longrightarrow> has_active ep h'" for ep by (auto simp: has_active_iff lv)
  have dist: "distinct (map wa_queue (mh_watchers h))" by (rule watchers_distinct [OF ok(4)])
  have notin: "?N \<notin> live_generations ?ep h" using live_less [OF ok(1)] by blast
  have old: "\<not> before_watch w ?e" if "w \<in> set (mh_watchers h)" for w
    using ok(4) that by (auto simp: watches_ok_def following_def before_watch_def hub_event_def monitor_event_new_def)
  have "runs_ok h'" using ok(1) fresh by (force simp: runs_ok_def h')
  moreover have "retiring_ok h'" using ok(2) act by (auto simp: retiring_ok_def h')
  moreover have "lifecycle_ok h'" by (auto simp: lifecycle_ok_def h' has_active_iff lv)
  moreover have "watches_ok b h' k (out @ new)"
  proof (rule watches_step [OF ok(4)])
    show own: "\<forall>x \<in> set new. fst x \<in> wa_queue ` set (all_watchers h)"
      by (auto simp: new watcher_notify_def all_watchers_def split: if_splits)
    show "\<forall>w \<in> set (mh_watchers h').
        following (mh_next_generation h') (live_generations (mh_current_epoch h') h') (out @ new) w"
    proof
      fix w assume w: "w \<in> set (mh_watchers h')"
      then have w: "w \<in> set (mh_watchers h)" "watcher_is_live W w"
        by (auto simp: ws watcher_notify_def split: if_splits)
      then have "stream (wa_queue w) new = [?e]"
        unfolding new stream_notify [OF dist w(1)] using old [OF w(1)] by (simp add: watcher_notify_def)
      with follow_start [of ?N "live_generations ?ep h" out w new ?e] ok(4) w(1) notin
      show "following (mh_next_generation h') (live_generations (mh_current_epoch h') h') (out @ new) w"
        by (simp add: h' lv watches_ok_def hub_event_def monitor_event_new_def)
    qed
    show "\<forall>m \<in> set (mh_retiring h'). \<forall>w \<in> set (rg_watchers m).
        following (mh_next_generation h') (live_generations (rg_epoch m) h') (out @ new) w"
      using ok(2)
      by (auto intro!: follow_retiring [OF ok(4)] simp: new h' lv retiring_ok_def watcher_notify_def split: if_splits)
    show "\<forall>w \<in> set (all_watchers h) - set (all_watchers h').
        stream (wa_queue w) new = [] \<and> \<not> b \<or> watch_trace (stream (wa_queue w) (out @ new)) = Finished"
    proof
      fix w assume "w \<in> set (all_watchers h) - set (all_watchers h')"
      then have w: "w \<in> set (mh_watchers h)" "\<not> watcher_is_live W w"
        using old by (auto simp: all_watchers_def h' ws watcher_notify_def split: if_splits)
      then have "stream (wa_queue w) new = []"
        unfolding new stream_notify [OF dist w(1)] by (simp add: watcher_notify_def)
      with w live show "stream (wa_queue w) new = [] \<and> \<not> b \<or> watch_trace (stream (wa_queue w) (out @ new)) = Finished"
        by (auto simp: all_live_def)
    qed
  qed (use ok(4) dist in \<open>auto simp: watches_ok_def all_watchers_def h' ws distinct_map_filter\<close>)
  ultimately show "hub_inv b h' k (out @ new)" by (simp add: hub_inv_def hub_wf_def)
  show "mh_next_generation h' = Suc (mh_next_generation h)"
    "fst ` set (mh_active_runs h') = insert i (fst ` set (mh_active_runs h))"
    by (simp_all add: h')
qed

text \<open>An exit, before it is told to the watchers of its membership.\<close>

lemma delete_run_wf:
  assumes inv: "hub_inv b h k out" and r: "map_of (mh_active_runs h) i = Some r"
    and h': "mh_active_runs h' = AList.delete i (mh_active_runs h)" "mh_next_run_id h' = mh_next_run_id h"
      "mh_next_generation h' = mh_next_generation h" "mh_current_epoch h' = mh_current_epoch h"
    and ret: "\<And>m. m \<in> set (mh_retiring h') \<Longrightarrow> \<exists>m' \<in> set (mh_retiring h). rg_epoch m = rg_epoch m' \<and>
        (rg_epoch m \<noteq> ar_epoch r \<or> has_active (ar_epoch r) h')"
      "distinct (map rg_epoch (mh_retiring h'))"
      "\<And>m. m \<in> set (mh_retiring h) \<Longrightarrow> rg_epoch m \<in> rg_epoch ` set (mh_retiring h') \<or>
        rg_epoch m = ar_epoch r \<and> \<not> has_active (ar_epoch r) h'"
  shows "runs_ok h' \<and> retiring_ok h'"
proof -
  note ok = hub_invD [OF inv]
  have ir: "(i, r) \<in> set (mh_active_runs h)" by (rule map_of_SomeD [OF r])
  have lv: "live_generations ep h' =
      (if ep = ar_epoch r then live_generations ep h - {ar_generation r} else live_generations ep h)" for ep
    by (rule live_delete [OF ok(1) ir h'(1)])
  have sub: "set (mh_active_runs h') \<subseteq> set (mh_active_runs h)" by (auto simp: h'(1) AList.delete_eq)
  have epochs: "ar_epoch x = mh_current_epoch h \<or> ar_epoch x \<in> rg_epoch ` set (mh_retiring h')"
    if x: "(j, x) \<in> set (mh_active_runs h')" for j x
  proof -
    have "has_active (ar_epoch x) h'" using in_live [OF x] by (auto simp: has_active_iff)
    moreover have "ar_epoch x = mh_current_epoch h \<or> ar_epoch x \<in> rg_epoch ` set (mh_retiring h)"
      using ok(1) sub x by (auto simp: runs_ok_def)
    ultimately show ?thesis using ret(3) by (metis imageE)
  qed
  have "distinct (map fst (mh_active_runs h'))" "distinct (map (ar_generation \<circ> snd) (mh_active_runs h'))"
    using ok(1) by (simp_all add: runs_ok_def h'(1) AList.delete_eq distinct_map_filter)
  with ok(1) sub epochs have "runs_ok h'" by (auto simp: runs_ok_def h')
  have "has_active (rg_epoch m) h' \<and> rg_epoch m < mh_current_epoch h" if m: "m \<in> set (mh_retiring h')" for m
  proof -
    obtain m' where m': "m' \<in> set (mh_retiring h)" "rg_epoch m = rg_epoch m'"
      "rg_epoch m \<noteq> ar_epoch r \<or> has_active (ar_epoch r) h'" using ret(1) [OF m] by auto
    then have "has_active (rg_epoch m) h" "rg_epoch m < mh_current_epoch h"
      using ok(2) by (auto simp: retiring_ok_def)
    with m'(3) lv [of "rg_epoch m"] show ?thesis by (auto simp: has_active_iff split: if_splits)
  qed
  with ret(2) have "retiring_ok h'" by (simp add: retiring_ok_def h')
  with \<open>runs_ok h'\<close> show ?thesis by simp
qed

text \<open>An exit told to the watchers that stay, and to those that are drained.\<close>

lemma notify_exit_follow:
  assumes f: "following N L out w" and g: "g \<in> L" and x: "mv_kind x = Exited g st"
    and w: "w \<in> set ws" "distinct (map wa_queue ws)" "watcher_is_live W w"
    and new: "new = concat (map (\<lambda>w. snd (watcher_notify W x w)) ws)"
  shows "following N (L - {g}) (out @ new) w"
proof (rule follow_exit [OF f g x])
  show "stream (wa_queue w) new = (if g < wa_min_generation w then [] else [x])"
    unfolding new stream_notify [OF w(2,1)] using w(3) x by (simp add: watcher_notify_def before_watch_def)
qed

lemma notify_exit_gone:
  assumes "w \<in> set ws" "distinct (map wa_queue ws)" "\<not> fst (watcher_notify W x w)"
    and "b \<Longrightarrow> all_live W" and new: "new = concat (map (\<lambda>w. snd (watcher_notify W x w)) ws)"
  shows "stream (wa_queue w) new = [] \<and> \<not> b"
  unfolding new stream_notify [OF assms(2,1)]
  using assms(3,4) by (auto simp: watcher_notify_def all_live_def split: if_splits)

lemma notify_exit_removed_gone:
  assumes f: "following N {g} out w" and x: "mv_kind x = Exited g st" and r: "mv_kind r = Removed l"
    and w: "w \<in> set ws" "distinct (map wa_queue ws)" and live: "b \<Longrightarrow> all_live W"
    and new: "new = notify_exit_removed W x r ws"
  shows "stream (wa_queue w) new = [] \<and> \<not> b \<or> watch_trace (stream (wa_queue w) (out @ new)) = Finished"
proof (cases "watcher_is_live W w")
  case True
  then have "stream (wa_queue w) new = (if g < wa_min_generation w then [r] else [x, r])"
    unfolding new stream_exit_removed [OF w(2,1)] using x r by (simp add: watcher_notify_def before_watch_def)
  from follow_exit_removed [OF f x r this] show ?thesis by simp
next
  case False
  then show ?thesis
    unfolding new stream_exit_removed [OF w(2,1)] using live by (auto simp: watcher_notify_def all_live_def)
qed

lemma staged_own: "stages_own f \<Longrightarrow> y \<in> set (concat (map f ws)) \<Longrightarrow> fst y \<in> wa_queue ` set ws"
  by (auto simp: stages_own_def)

lemmas notify_staged = staged_own [OF watch_notify_stages_own]
lemmas notify_exit_removed_staged = staged_own [OF exit_removed_stages_own, folded notify_exit_removed_def]

lemma exited_state:
  "(case mh_lifecycle d of LRunning c _ \<Rightarrow> if c = i then d\<lparr>mh_lifecycle := LExited\<rparr> else d | _ \<Rightarrow> d) =
   d\<lparr>mh_lifecycle := (case mh_lifecycle d of LRunning c _ \<Rightarrow> if c = i then LExited else mh_lifecycle d
      | _ \<Rightarrow> mh_lifecycle d)\<rparr>"
  by (cases "mh_lifecycle d") auto

text \<open>The current membership keeps the watchers that satisfy \<open>P\<close>; events are staged for its watchers only.\<close>

lemma current_watches:
  assumes ok: "watches_ok b h k out" and ws: "mh_watchers h' = filter P (mh_watchers h)"
    and same: "mh_retiring h' = mh_retiring h" "mh_next_generation h' = mh_next_generation h"
      "mh_current_epoch h' = mh_current_epoch h"
    and lv: "\<And>m. m \<in> set (mh_retiring h) \<Longrightarrow> live_generations (rg_epoch m) h' = live_generations (rg_epoch m) h"
    and staged: "\<forall>y \<in> set new. fst y \<in> wa_queue ` set (mh_watchers h)"
    and kept: "\<And>w. w \<in> set (mh_watchers h) \<Longrightarrow> P w \<Longrightarrow>
      following (mh_next_generation h) (live_generations (mh_current_epoch h) h') (out @ new) w"
    and gone: "\<And>w. w \<in> set (mh_watchers h) \<Longrightarrow> \<not> P w \<Longrightarrow>
      stream (wa_queue w) new = [] \<and> \<not> b \<or> watch_trace (stream (wa_queue w) (out @ new)) = Finished"
  shows "watches_ok b h' k (out @ new)"
proof (rule watches_step [OF ok])
  show "\<forall>y \<in> set new. fst y \<in> wa_queue ` set (all_watchers h)" using staged by (auto simp: all_watchers_def)
  show "\<forall>m \<in> set (mh_retiring h'). \<forall>w \<in> set (rg_watchers m).
      following (mh_next_generation h') (live_generations (rg_epoch m) h') (out @ new) w"
    using staged lv by (auto intro!: follow_retiring [OF ok] simp: same)
  show "\<forall>w \<in> set (mh_watchers h').
      following (mh_next_generation h') (live_generations (mh_current_epoch h') h') (out @ new) w"
    using kept by (simp add: ws same)
  show "\<forall>w \<in> set (all_watchers h) - set (all_watchers h').
      stream (wa_queue w) new = [] \<and> \<not> b \<or> watch_trace (stream (wa_queue w) (out @ new)) = Finished"
    using gone by (auto simp: all_watchers_def ws same)
qed (use ok watchers_distinct [OF ok] in \<open>auto simp: watches_ok_def all_watchers_def ws same distinct_map_filter\<close>)

lemma exit_current_inv:
  assumes inv: "hub_inv b h k out" and live: "b \<Longrightarrow> all_live W"
    and r: "map_of (mh_active_runs h) i = Some r" and ep: "ar_epoch r = mh_current_epoch h"
    and x: "mv_kind x = Exited (ar_generation r) st"
    and ex: "exit_current W i r x (h\<lparr>mh_active_runs := AList.delete i (mh_active_runs h)\<rparr>) = (new, h')"
  shows "hub_inv b h' k (out @ new)"
proof -
  note ok = hub_invD [OF inv]
  let ?ep = "mh_current_epoch h" and ?g = "ar_generation r"
  let ?d = "h\<lparr>mh_active_runs := AList.delete i (mh_active_runs h)\<rparr>"
  have ir: "(i, r) \<in> set (mh_active_runs h)" by (rule map_of_SomeD [OF r])
  have f: "mh_active_runs h' = AList.delete i (mh_active_runs h)" "mh_next_run_id h' = mh_next_run_id h"
    "mh_next_generation h' = mh_next_generation h" "mh_current_epoch h' = ?ep" "mh_retiring h' = mh_retiring h"
    "mh_removal_requested h' = mh_removal_requested h"
    using ex unfolding exit_current_def exited_state by (auto simp: Let_def notify_retain_def split: if_splits)
  have act: "has_active e h' = has_active e ?d" for e by (simp add: has_active_def f)
  have other: "rg_epoch m \<noteq> ar_epoch r" if "m \<in> set (mh_retiring h)" for m
    using ok(2) that ep by (auto simp: retiring_ok_def)
  have wf: "runs_ok h' \<and> retiring_ok h'"
    using ok(2) other by (intro delete_run_wf [OF inv r f(1-4)]) (auto simp: f(5) retiring_ok_def)
  have lv: "live_generations e h' = (if e = ?ep then live_generations e h - {?g} else live_generations e h)" for e
    using live_delete [OF ok(1) ir f(1), of e] ep by simp
  have dist: "distinct (map wa_queue (mh_watchers h))" by (rule watchers_distinct [OF ok(4)])
  have follow: "following (mh_next_generation h) (live_generations ?ep h) out w" if "w \<in> set (mh_watchers h)" for w
    using ok(4) that by (simp add: watches_ok_def)
  have g: "?g \<in> live_generations ?ep h" using in_live [OF ir] ep by simp
  have nr: "\<not> is_removed (mh_lifecycle h)"
    using ok(3) g by (auto simp: lifecycle_ok_def is_removed_def has_active_iff split: monitor_lifecycle.splits)
  have lvr: "live_generations (rg_epoch m) h' = live_generations (rg_epoch m) h" if "m \<in> set (mh_retiring h)" for m
    using other [OF that] ep by (simp add: lv)
  note step = current_watches [OF ok(4) _ f(5,3,4) lvr, where new = new]
  show ?thesis
  proof (cases "mh_removal_requested h \<and> \<not> has_active ?ep ?d")
    case True
    let ?rm = "hub_event h (Removed (mh_current_last_generation h))"
    have new: "new = notify_exit_removed W x ?rm (mh_watchers h)" and ws: "mh_watchers h' = []"
      and "is_removed (mh_lifecycle h')"
      using ex True ep unfolding exit_current_def exited_state
      by (auto simp: Let_def hub_event_def is_removed_def has_active_def)
    then have "lifecycle_ok h'"
      using True by (auto simp: lifecycle_ok_def is_removed_def act f split: monitor_lifecycle.splits)
    moreover have "live_generations ?ep h = {?g}"
      using True g act [of ?ep] lv [of ?ep] by (auto simp: has_active_iff)
    then have gone: "stream (wa_queue w) new = [] \<and> \<not> b \<or> watch_trace (stream (wa_queue w) (out @ new)) = Finished"
      if "w \<in> set (mh_watchers h)" for w
      using follow [OF that] by (intro notify_exit_removed_gone [OF _ x _ that dist live new])
        (simp_all add: hub_event_def monitor_event_new_def)
    have "\<forall>y \<in> set new. fst y \<in> wa_queue ` set (mh_watchers h)"
      unfolding new using notify_exit_removed_staged by blast
    with gone have "watches_ok b h' k (out @ new)" by (intro step [where P = "\<lambda>_. False"]) (simp_all add: ws)
    ultimately show ?thesis using wf by (simp add: hub_inv_def hub_wf_def)
  next
    case False
    have new: "new = concat (map (\<lambda>w. snd (watcher_notify W x w)) (mh_watchers h))"
      and ws: "mh_watchers h' = filter (\<lambda>w. fst (watcher_notify W x w)) (mh_watchers h)"
      and l: "mh_lifecycle h' = (case mh_lifecycle h of LRunning c _ \<Rightarrow> if c = i then LExited else mh_lifecycle h
        | _ \<Rightarrow> mh_lifecycle h)"
      using ex False ep unfolding exit_current_def exited_state
      by (auto simp: Let_def has_active_def notify_retain_def split: monitor_lifecycle.split)
    have "lifecycle_ok h'"
      using ok(3) nr False ep
      by (auto simp: lifecycle_ok_def is_removed_def act f l AList.delete_eq split: monitor_lifecycle.splits if_splits)
    moreover have "watches_ok b h' k (out @ new)"
    proof (rule step [OF ws])
      show "\<forall>y \<in> set new. fst y \<in> wa_queue ` set (mh_watchers h)" unfolding new using notify_staged by blast
      fix w assume w: "w \<in> set (mh_watchers h)"
      show "following (mh_next_generation h) (live_generations ?ep h') (out @ new) w" if "fst (watcher_notify W x w)"
        using notify_exit_follow [OF follow [OF w] g x w dist _ new] that
        by (auto simp: lv watcher_notify_def split: if_splits)
      show "stream (wa_queue w) new = [] \<and> \<not> b \<or> watch_trace (stream (wa_queue w) (out @ new)) = Finished"
        if "\<not> fst (watcher_notify W x w)"
        by (rule disjI1, rule notify_exit_gone [OF w dist that live new])
    qed
    ultimately show ?thesis using wf by (simp add: hub_inv_def hub_wf_def)
  qed
qed

lemma position_epoch_split:
  "position_epoch e ms = Some i \<Longrightarrow>
   \<exists>xs m ys. ms = xs @ m # ys \<and> length xs = i \<and> rg_epoch m = e \<and> ms ! i = m"
proof (induction ms arbitrary: i)
  case (Cons a ms)
  show ?case
  proof (cases "rg_epoch a = e")
    case True
    with Cons.prems show ?thesis by (intro exI [of _ "[]"]) auto
  next
    case False
    with Cons.prems obtain j where j: "position_epoch e ms = Some j" "i = Suc j" by auto
    from Cons.IH [OF j(1)] obtain xs m ys where "ms = xs @ m # ys" "length xs = j" "rg_epoch m = e" by auto
    with j(2) show ?thesis by (intro exI [of _ "a # xs"]) auto
  qed
qed simp

lemma position_epoch_None: "position_epoch e ms = None \<longleftrightarrow> e \<notin> rg_epoch ` set ms"
  by (induction ms) auto

lemma distinct_apart:
  assumes "distinct (map f (as @ bs @ cs @ ds))" and "w \<in> set as \<or> w \<in> set bs \<or> w \<in> set ds"
  shows "f w \<notin> f ` set cs"
proof -
  have "f w \<in> f ` set as \<or> f w \<in> f ` set bs \<or> f w \<in> f ` set ds" using assms(2) by blast
  with assms(1) show ?thesis by (simp add: distinct_append) blast
qed

lemma distinct_filter_mid:
  assumes "distinct (map f (as @ bs @ cs @ ds))"
  shows "distinct (map f (as @ bs @ filter P cs @ ds))"
proof -
  have "f ` set (filter P cs) \<subseteq> f ` set cs" by auto
  with assms show ?thesis by (simp add: distinct_map_filter) blast
qed

text \<open>
  One retiring membership \<open>m\<close> changes: it keeps the watchers that satisfy \<open>P\<close>, or goes with all of them, and
  events are staged for its watchers only.
\<close>

lemma retiring_watches:
  assumes ok: "watches_ok b h k out" and split: "mh_retiring h = xs @ m # ys" and ret: "mh_retiring h' = xs @ mid @ ys"
    and mid: "concat (map rg_watchers mid) = filter P (rg_watchers m)" "\<forall>m' \<in> set mid. rg_epoch m' = rg_epoch m"
    and same: "mh_watchers h' = mh_watchers h" "mh_next_generation h' = mh_next_generation h"
      "mh_current_epoch h' = mh_current_epoch h"
    and others: "\<forall>m' \<in> set xs \<union> set ys. rg_epoch m' \<noteq> rg_epoch m" "mh_current_epoch h \<noteq> rg_epoch m"
    and lv: "\<And>e. e \<noteq> rg_epoch m \<Longrightarrow> live_generations e h' = live_generations e h"
    and staged: "\<forall>y \<in> set new. fst y \<in> wa_queue ` set (rg_watchers m)"
    and kept: "\<And>w. w \<in> set (rg_watchers m) \<Longrightarrow> P w \<Longrightarrow>
      following (mh_next_generation h) (live_generations (rg_epoch m) h') (out @ new) w"
    and gone: "\<And>w. w \<in> set (rg_watchers m) \<Longrightarrow> \<not> P w \<Longrightarrow>
      stream (wa_queue w) new = [] \<and> \<not> b \<or> watch_trace (stream (wa_queue w) (out @ new)) = Finished"
  shows "watches_ok b h' k (out @ new)"
proof (rule watches_step [OF ok])
  have all: "all_watchers h = mh_watchers h @ concat (map rg_watchers xs) @ rg_watchers m @ concat (map rg_watchers ys)"
    "all_watchers h' = mh_watchers h @ concat (map rg_watchers xs) @ filter P (rg_watchers m) @ concat (map rg_watchers ys)"
    by (simp_all add: all_watchers_def split ret same mid(1))
  have d: "distinct (map wa_queue (all_watchers h))" using ok by (simp add: watches_ok_def)
  then show "distinct (map wa_queue (all_watchers h'))" unfolding all by (rule distinct_filter_mid)
  show "set (all_watchers h') \<subseteq> set (all_watchers h)" unfolding all by auto
  show "\<forall>y \<in> set new. fst y \<in> wa_queue ` set (all_watchers h)" using staged by (auto simp: all)
  show "\<forall>w \<in> set (all_watchers h) - set (all_watchers h').
      stream (wa_queue w) new = [] \<and> \<not> b \<or> watch_trace (stream (wa_queue w) (out @ new)) = Finished"
    using gone by (auto simp: all)
  have keep: "following (mh_next_generation h') (live_generations e h') (out @ new) w"
    if "following (mh_next_generation h) (live_generations e h) out w" "e \<noteq> rg_epoch m"
      "w \<in> set (mh_watchers h) \<or> (\<exists>m' \<in> set xs \<union> set ys. w \<in> set (rg_watchers m'))" for w e
  proof (rule follow_keep [OF that(1)])
    have "wa_queue w \<notin> wa_queue ` set (rg_watchers m)"
      using d unfolding all(1) by (rule distinct_apart) (use that(3) in auto)
    with staged show "stream (wa_queue w) new = []" by (intro stream_other) auto
  qed (use that(2) lv in \<open>auto simp: same\<close>)
  show "\<forall>w \<in> set (mh_watchers h').
      following (mh_next_generation h') (live_generations (mh_current_epoch h') h') (out @ new) w"
    using ok others by (auto simp: same(1,3) watches_ok_def intro!: keep)
  have "following (mh_next_generation h') (live_generations (rg_epoch m') h') (out @ new) w"
    if "m' \<in> set mid" "w \<in> set (rg_watchers m')" for m' w
  proof -
    have "w \<in> set (concat (map rg_watchers mid))" using that by auto
    with kept mid that show ?thesis by (auto simp: same)
  qed
  moreover have "following (mh_next_generation h') (live_generations (rg_epoch m') h') (out @ new) w"
    if "m' \<in> set xs \<union> set ys" "w \<in> set (rg_watchers m')" for m' w
    using ok that others(1) split by (intro keep) (auto simp: watches_ok_def)
  ultimately show "\<forall>m \<in> set (mh_retiring h'). \<forall>w \<in> set (rg_watchers m).
      following (mh_next_generation h') (live_generations (rg_epoch m) h') (out @ new) w"
    by (auto simp: ret)
qed

lemma exit_retiring_lifecycle:
  assumes inv: "hub_inv b h k out" and ir: "(i, r) \<in> set (mh_active_runs h)" and ep: "ar_epoch r \<noteq> mh_current_epoch h"
    and f: "mh_active_runs h' = AList.delete i (mh_active_runs h)" "mh_next_generation h' = mh_next_generation h"
      "mh_current_epoch h' = mh_current_epoch h" "mh_removal_requested h' = mh_removal_requested h"
      "mh_lifecycle h' = mh_lifecycle h" "mh_watchers h' = mh_watchers h"
    and lv: "live_generations (mh_current_epoch h) h' = live_generations (mh_current_epoch h) h"
  shows "lifecycle_ok h'"
proof -
  note ok = hub_invD [OF inv]
  have "y = r" if "(i, y) \<in> set (mh_active_runs h)" for y
    using ok(1) eq_key_imp_eq_value [OF _ that ir] by (simp add: runs_ok_def)
  then have "(i, \<lparr>ar_epoch = mh_current_epoch h, ar_generation = y\<rparr>) \<notin> set (mh_active_runs h)" for y
    using ep by fastforce
  with ok(3) ep show ?thesis
    by (auto simp: lifecycle_ok_def f has_active_iff lv AList.delete_eq split: monitor_lifecycle.splits)
qed

text \<open>The retiring membership of a run whose epoch is not the current one.\<close>

lemma retiring_of_run:
  assumes "hub_inv b h k out" "(i, r) \<in> set (mh_active_runs h)" "ar_epoch r \<noteq> mh_current_epoch h"
  obtains xs m ys where "position_epoch (ar_epoch r) (mh_retiring h) = Some (length xs)" "mh_retiring h = xs @ m # ys"
    "rg_epoch m = ar_epoch r" "\<forall>m' \<in> set xs \<union> set ys. rg_epoch m' \<noteq> ar_epoch r"
    "distinct (map wa_queue (rg_watchers m))"
    "\<And>w. w \<in> set (rg_watchers m) \<Longrightarrow> following (mh_next_generation h) (live_generations (ar_epoch r) h) out w"
proof -
  note ok = hub_invD [OF assms(1)]
  have "ar_epoch r \<in> rg_epoch ` set (mh_retiring h)" using ok(1) assms(2,3) by (auto simp: runs_ok_def)
  then obtain n where pos: "position_epoch (ar_epoch r) (mh_retiring h) = Some n"
    using position_epoch_None [of "ar_epoch r" "mh_retiring h"] by (cases "position_epoch (ar_epoch r) (mh_retiring h)") auto
  from position_epoch_split [OF this] obtain xs m ys where
    split: "mh_retiring h = xs @ m # ys" "length xs = n" "rg_epoch m = ar_epoch r" by auto
  have "rg_epoch m' \<noteq> ar_epoch r" if "m' \<in> set xs \<union> set ys" for m'
  proof -
    have "rg_epoch m' \<in> rg_epoch ` (set xs \<union> set ys)" using that by (rule imageI)
    then show ?thesis using ok(2) split by (auto simp: retiring_ok_def)
  qed
  moreover have "distinct (map wa_queue (rg_watchers m))"
    using ok(4) split by (simp add: watches_ok_def all_watchers_def)
  moreover have "following (mh_next_generation h) (live_generations (ar_epoch r) h) out w" if "w \<in> set (rg_watchers m)" for w
    using ok(4) split that by (simp add: watches_ok_def)
  ultimately show thesis using that [of xs m ys] pos split by blast
qed

lemma exit_retiring_inv:
  assumes inv: "hub_inv b h k out" and live: "b \<Longrightarrow> all_live W"
    and r: "map_of (mh_active_runs h) i = Some r" and ep: "ar_epoch r \<noteq> mh_current_epoch h"
    and x: "mv_kind x = Exited (ar_generation r) st"
    and ex: "exit_retiring W r x (h\<lparr>mh_active_runs := AList.delete i (mh_active_runs h)\<rparr>) = (new, h')"
  shows "hub_inv b h' k (out @ new)"
proof -
  note ok = hub_invD [OF inv]
  let ?ep = "ar_epoch r" and ?g = "ar_generation r"
  let ?d = "h\<lparr>mh_active_runs := AList.delete i (mh_active_runs h)\<rparr>"
  have ir: "(i, r) \<in> set (mh_active_runs h)" by (rule map_of_SomeD [OF r])
  from retiring_of_run [OF inv ir ep] obtain xs m ys where
    pos: "position_epoch ?ep (mh_retiring h) = Some (length xs)" and split: "mh_retiring h = xs @ m # ys" "rg_epoch m = ?ep"
    and others: "\<forall>m' \<in> set xs \<union> set ys. rg_epoch m' \<noteq> ?ep" and dist: "distinct (map wa_queue (rg_watchers m))"
    and follow: "\<And>w. w \<in> set (rg_watchers m) \<Longrightarrow> following (mh_next_generation h) (live_generations ?ep h) out w" by blast
  have f: "mh_active_runs h' = AList.delete i (mh_active_runs h)" "mh_next_run_id h' = mh_next_run_id h"
    "mh_next_generation h' = mh_next_generation h" "mh_current_epoch h' = mh_current_epoch h"
    "mh_removal_requested h' = mh_removal_requested h" "mh_lifecycle h' = mh_lifecycle h"
    "mh_watchers h' = mh_watchers h"
    using ex pos by (auto simp: exit_retiring_def Let_def notify_retain_def split: if_splits)
  have act: "has_active e h' = has_active e ?d" for e by (simp add: has_active_def f)
  have lv: "live_generations e h' = (if e = ?ep then live_generations e h - {?g} else live_generations e h)" for e
    using live_delete [OF ok(1) ir f(1), of e] by simp
  have g: "?g \<in> live_generations ?ep h" using in_live [OF ir] .
  have lc: "lifecycle_ok h'" using ep lv by (intro exit_retiring_lifecycle [OF inv ir ep f(1,3-7)]) simp
  note step = retiring_watches [OF ok(4) split(1), where h' = h' and new = new, OF _ _ _ f(7,3,4)]
  show ?thesis
  proof (cases "has_active ?ep ?d")
    case True
    then have new: "new = concat (map (\<lambda>w. snd (watcher_notify W x w)) (rg_watchers m))"
      and ret: "mh_retiring h' = xs @ [m\<lparr>rg_watchers := filter (\<lambda>w. fst (watcher_notify W x w)) (rg_watchers m)\<rparr>] @ ys"
      using ex pos split by (auto simp: exit_retiring_def Let_def notify_retain_def list_update_append)
    have kept: "following (mh_next_generation h) (live_generations ?ep h') (out @ new) w"
      if "w \<in> set (rg_watchers m)" "fst (watcher_notify W x w)" for w
      using notify_exit_follow [OF follow [OF that(1)] g x that(1) dist _ new] that(2)
      by (auto simp: lv watcher_notify_def split: if_splits)
    have gone: "stream (wa_queue w) new = [] \<and> \<not> b \<or> watch_trace (stream (wa_queue w) (out @ new)) = Finished"
      if "w \<in> set (rg_watchers m)" "\<not> fst (watcher_notify W x w)" for w
      by (rule disjI1, rule notify_exit_gone [OF that(1) dist that(2) live new])
    have staged: "\<forall>y \<in> set new. fst y \<in> wa_queue ` set (rg_watchers m)"
      unfolding new using notify_staged by blast
    have "watches_ok b h' k (out @ new)"
      by (rule step [OF ret, where P = "\<lambda>w. fst (watcher_notify W x w)"])
        (use split(2) others ep lv kept gone staged in auto)
    moreover have "runs_ok h' \<and> retiring_ok h'"
      using ok(2) others True split(2)
      by (intro delete_run_wf [OF inv r f(1-4)]) (auto simp: act ret split(1) retiring_ok_def)
    ultimately show ?thesis using lc by (simp add: hub_inv_def hub_wf_def)
  next
    case False
    let ?rm = "hub_event h (Removed (rg_last_generation m))"
    have new: "new = notify_exit_removed W x ?rm (rg_watchers m)" and ret: "mh_retiring h' = xs @ [] @ ys"
      using ex pos split False by (auto simp: exit_retiring_def Let_def hub_event_def)
    have "live_generations ?ep h = {?g}"
      using False g act [of ?ep] lv [of ?ep] by (auto simp: has_active_iff)
    then have gone: "stream (wa_queue w) new = [] \<and> \<not> b \<or> watch_trace (stream (wa_queue w) (out @ new)) = Finished"
      if "w \<in> set (rg_watchers m)" for w
      using follow [OF that] by (intro notify_exit_removed_gone [OF _ x _ that dist live new])
        (simp_all add: hub_event_def monitor_event_new_def)
    have staged: "\<forall>y \<in> set new. fst y \<in> wa_queue ` set (rg_watchers m)"
      unfolding new using notify_exit_removed_staged by blast
    have "watches_ok b h' k (out @ new)"
      by (rule step [OF ret, where P = "\<lambda>_. False"]) (use split(2) others ep lv gone staged in auto)
    moreover have "runs_ok h' \<and> retiring_ok h'"
      using ok(2) others False split(2)
      by (intro delete_run_wf [OF inv r f(1-4)]) (auto simp: act ret split(1) retiring_ok_def)
    ultimately show ?thesis using lc by (simp add: hub_inv_def hub_wf_def)
  qed
qed

lemma hub_removed_inv:
  assumes inv: "hub_inv b h k out" and live: "b \<Longrightarrow> all_live W" and ex: "hub_removed W epoch h = (new, h')"
  shows "hub_inv b h' k (out @ new)"
proof (cases "epoch = mh_current_epoch h \<and> \<not> is_removed (mh_lifecycle h)")
  case False
  with ex inv show ?thesis by (auto simp: hub_removed_def split: if_splits)
next
  case True
  note ok = hub_invD [OF inv]
  show ?thesis
  proof (cases "has_active epoch h")
    case active: True
    with True ex have "new = []" "h' = h\<lparr>mh_removal_requested := True\<rparr>" by (auto simp: hub_removed_def)
    with ok True active show ?thesis
      by (simp add: hub_inv_def hub_wf_def runs_ok_def retiring_ok_def lifecycle_ok_def watches_ok_def
          all_watchers_def split: monitor_lifecycle.splits)
  next
    case idle: False
    have "retire_current W h = (new, h\<lparr>mh_watchers := []\<rparr>)"
      and h': "h' = h\<lparr>mh_lifecycle := LRemoved (mh_current_last_generation h), mh_watchers := []\<rparr>"
      using True idle ex by (auto simp: hub_removed_def retire_current_def Let_def)
    from retire_current_watches [OF inv live this(1)] ok idle True show ?thesis
      by (simp add: h' hub_inv_def hub_wf_def runs_ok_def retiring_ok_def lifecycle_ok_def watches_ok_def
          all_watchers_def is_removed_def)
  qed
qed

lemma watches_add:
  assumes ok: "watches_ok b h k out" and new: "\<forall>x \<in> set new. fst x = k"
    and h': "mh_watchers h' = mh_watchers h @ ws" "mh_retiring h' = mh_retiring h"
      "mh_next_generation h' = mh_next_generation h" "mh_current_epoch h' = mh_current_epoch h"
      "mh_active_runs h' = mh_active_runs h"
    and ws: "ws = [] \<and> watch_trace (stream k new) = Finished \<or>
      (\<exists>w. ws = [w] \<and> wa_queue w = k \<and>
        following (mh_next_generation h) (live_generations (mh_current_epoch h) h) (out @ new) w)"
  shows "watches_ok b h' (Suc k) (out @ new)"
proof -
  have blank: "stream k out = []" using ok by (intro stream_other) (auto simp: watches_ok_def)
  have other: "stream q new = []" if "q \<noteq> k" for q using new that by (intro stream_other) auto
  have lv: "live_generations e h' = live_generations e h" for e by (rule live_cong) (simp add: h')
  have keep: "following N L (out @ new) w" if "following N L out w" "wa_queue w < k" for N L w
    using that other by (intro follow_keep [OF that(1)]) auto
  have q: "wa_queue w < k" if "w \<in> set (all_watchers h)" for w using ok that by (simp add: watches_ok_def)
  have all: "set (all_watchers h') = set ws \<union> set (all_watchers h)" by (auto simp: all_watchers_def h')
  have cur: "following (mh_next_generation h) (live_generations (mh_current_epoch h) h) (out @ new) w"
    if "w \<in> set (mh_watchers h)" for w
    by (rule keep) (use ok that in \<open>auto simp: watches_ok_def all_watchers_def\<close>)
  have "\<forall>w \<in> set (mh_watchers h').
      following (mh_next_generation h') (live_generations (mh_current_epoch h') h') (out @ new) w"
    using ws cur by (auto simp: h' lv)
  moreover have "\<forall>m \<in> set (mh_retiring h'). \<forall>w \<in> set (rg_watchers m).
      following (mh_next_generation h') (live_generations (rg_epoch m) h') (out @ new) w"
    using ok q by (auto simp: h' lv watches_ok_def all_watchers_def intro!: keep)
  moreover have "watch_trace (stream p (out @ new)) \<noteq> Broken" for p
  proof (cases "p = k")
    case False
    with ok show ?thesis by (simp add: other watches_ok_def)
  next
    case True
    have k: "stream k (out @ new) = stream k new" using blank by simp
    from ws show ?thesis
    proof (elim disjE exE conjE)
      fix w assume "wa_queue w = k"
        "following (mh_next_generation h) (live_generations (mh_current_epoch h) h) (out @ new) w"
      then show ?thesis using follow_not_broken True by blast
    qed (simp only: True k, simp)
  qed
  moreover have "p \<in> wa_queue ` set (all_watchers h') \<or> watch_trace (stream p (out @ new)) = Finished"
    if "b" "p < Suc k" for p
  proof (cases "p = k")
    case True
    with ws blank show ?thesis by (auto simp: all)
  next
    case False
    with that have "p \<in> wa_queue ` set (all_watchers h) \<or> watch_trace (stream p out) = Finished"
      using ok by (simp add: watches_ok_def)
    with other [OF False] show ?thesis by (auto simp: all)
  qed
  moreover have "\<forall>w \<in> set (all_watchers h'). wa_queue w < Suc k"
    using ws by (auto simp: all less_SucI dest: q)
  moreover have "distinct (map wa_queue (all_watchers h'))"
  proof -
    have "k \<notin> wa_queue ` set (mh_watchers h)" "k \<notin> wa_queue ` set (concat (map rg_watchers (mh_retiring h)))"
      using q by (auto simp: all_watchers_def)
    moreover have "distinct (map wa_queue (mh_watchers h @ concat (map rg_watchers (mh_retiring h))))"
      using ok by (simp add: watches_ok_def all_watchers_def)
    ultimately show ?thesis using ws by (elim disjE exE conjE) (simp_all add: all_watchers_def h')
  qed
  moreover have "\<forall>x \<in> set (out @ new). fst x < Suc k" using ok new by (auto simp: watches_ok_def)
  ultimately show ?thesis unfolding watches_ok_def by blast
qed

lemma register_watch_inv:
  assumes inv: "hub_inv b h k out" and live: "b \<Longrightarrow> all_live W" and ex: "register_watch W c s k h = (new, h')"
  shows "hub_inv b h' (Suc k) (out @ new)"
proof -
  note ok = hub_invD [OF inv]
  let ?h = "h\<lparr>mh_watchers := filter (watcher_is_live W) (mh_watchers h)\<rparr>"
  have "watches_ok b ?h k (out @ [])"
    by (rule watches_step [OF ok(4)])
       (use ok(4) live in \<open>auto simp: watches_ok_def all_watchers_def all_live_def distinct_map_filter\<close>)
  then have kept: "watches_ok b ?h k out" by simp
  have blank: "stream k out = []" using ok(4) by (intro stream_other) (auto simp: watches_ok_def)
  have more: "watches_ok b (?h\<lparr>mh_watchers := mh_watchers ?h @ ws\<rparr>) (Suc k) (out @ new)"
    if "\<forall>x \<in> set new. fst x = k" "ws = [] \<and> watch_trace (stream k new) = Finished \<or>
      (\<exists>w. ws = [w] \<and> wa_queue w = k \<and>
        following (mh_next_generation h) (live_generations (mh_current_epoch h) h) (out @ new) w)" for ws
    by (rule watches_add [OF kept that(1)]) (use that(2) in simp_all)
  have wf: "hub_wf (?h\<lparr>mh_watchers := mh_watchers ?h @ ws\<rparr>)" if "is_removed (mh_lifecycle h) \<Longrightarrow> ws = []" for ws
    using ok(1-3) that
    by (auto simp: hub_wf_def runs_ok_def retiring_ok_def lifecycle_ok_def is_removed_def split: monitor_lifecycle.splits)
  let ?w = "\<lambda>g. \<lparr>wa_cancellation = c, wa_stop = s, wa_queue = k, wa_min_generation = g\<rparr>"
  have idle: "hub_inv b h' (Suc k) (out @ new)"
    if "new = []" "h' = ?h\<lparr>mh_watchers := mh_watchers ?h @ [?w (mh_next_generation h)]\<rparr>" "\<not> is_removed (mh_lifecycle h)"
  proof -
    have "following (mh_next_generation h) (live_generations (mh_current_epoch h) h) (out @ new) (?w (mh_next_generation h))"
      using live_less [OF ok(1)] by (force simp: following_def that(1) blank)
    with more [of "[?w (mh_next_generation h)]"] wf [of "[?w (mh_next_generation h)]"] that show ?thesis
      by (simp add: hub_inv_def)
  qed
  show ?thesis
  proof (cases "mh_lifecycle h")
    case (LRemoved g)
    with ex have new: "new = [(k, hub_event h (Removed g))]" and h': "h' = ?h\<lparr>mh_watchers := mh_watchers ?h @ []\<rparr>"
      by (auto simp: register_watch_def Let_def)
    with more [of "[]"] wf [of "[]"] show ?thesis
      by (simp add: hub_inv_def watch_trace_def hub_event_def monitor_event_new_def)
  next
    case (LRunning i g)
    with ex have new: "new = [(k, hub_event h (Started g))]" and h': "h' = ?h\<lparr>mh_watchers := mh_watchers ?h @ [?w g]\<rparr>"
      by (auto simp: register_watch_def Let_def)
    have g: "g \<in> live_generations (mh_current_epoch h) h" "Suc g = mh_next_generation h"
      using ok(3) LRunning by (auto simp: lifecycle_ok_def live_generations_def)
    have "watch_trace (stream k (out @ new)) = Following (Suc g) [g]"
      unfolding stream_simps(2) by (simp add: blank new watch_trace_def hub_event_def monitor_event_new_def)
    moreover have "{x \<in> live_generations (mh_current_epoch h) h. g \<le> x} = {g}"
      using live_less [OF ok(1)] g by force
    ultimately have "following (mh_next_generation h) (live_generations (mh_current_epoch h) h) (out @ new) (?w g)"
      using g(2) by (simp add: following_def)
    with more [of "[?w g]"] wf [of "[?w g]"] new h' LRunning show ?thesis by (simp add: hub_inv_def is_removed_def)
  qed (use ex idle in \<open>auto simp: register_watch_def Let_def is_removed_def\<close>)
qed

section \<open>Every history of a hub\<close>

definition fresh_runs :: "monitor_hub \<Rightarrow> monitor_run list \<Rightarrow> bool" where
  "fresh_runs h rs \<longleftrightarrow>
     distinct (map mr_run_id rs) \<and>
     (\<forall>r \<in> set rs. mr_run_id r < mh_next_run_id h \<and> mr_run_id r \<notin> fst ` set (mh_active_runs h))"

definition counters_le :: "nat \<Rightarrow> monitor_hub \<Rightarrow> bool" where
  "counters_le n h \<longleftrightarrow>
     mh_next_generation h \<le> n \<and> mh_next_run_id h \<le> n \<and> mh_current_epoch h \<le> n"

lemma hub_new_inv: "hub_inv b (monitor_hub_new a) 0 []"
  by (simp add: hub_inv_def hub_wf_def runs_ok_def retiring_ok_def lifecycle_ok_def watches_ok_def
      all_watchers_def monitor_hub_new_def)

lemma run_started_inv:
  assumes inv: "hub_inv b h k out" and live: "b \<Longrightarrow> all_live W" and cnt: "counters_le n h" "n < u64_max"
    and fresh: "mr_run_id r < mh_next_run_id h" "mr_run_id r \<notin> fst ` set (mh_active_runs h)"
    and st: "run_started W r h = (x, new, h')"
  shows "hub_inv b h' k (out @ new) \<and> counters_le (Suc n) h' \<and> mh_next_run_id h' = mh_next_run_id h \<and>
    fst ` set (mh_active_runs h') \<subseteq> insert (mr_run_id r) (fst ` set (mh_active_runs h))"
proof (cases "x = None")
  case True
  with st have "new = []" "h' = h" by (auto simp: run_started_def Let_def split: if_splits prod.splits)
  with inv cnt show ?thesis by (auto simp: counters_le_def)
next
  case False
  obtain out1 h1 out2 where e1: "(if begins_epoch r h then begin_epoch W h else ([], h)) = (out1, h1)"
    and e2: "begin_generation W (mr_run_id r) h1 = (out2, h')" and new: "new = out1 @ out2"
    and ok: "begins_epoch r h \<or> \<not> is_removed (mh_lifecycle h)"
    using st False by (auto simp: run_started_def Let_def split: if_splits prod.splits)
  have h1: "hub_inv b h1 k (out @ out1) \<and> mh_active_runs h1 = mh_active_runs h \<and>
      \<not> is_removed (mh_lifecycle h1) \<and> mh_next_run_id h1 = mh_next_run_id h \<and>
      mh_next_generation h1 = mh_next_generation h \<and> mh_current_epoch h1 \<le> Suc n"
  proof (cases "begins_epoch r h")
    case True
    have small: "mh_current_epoch h < u64_max" using cnt by (simp add: counters_le_def)
    have be: "begin_epoch W h = (out1, h1)" using e1 True by simp
    from begin_epoch_inv [OF inv live small be] cnt show ?thesis by (simp add: is_removed_def counters_le_def)
  next
    case False
    with e1 ok inv cnt show ?thesis by (auto simp: counters_le_def)
  qed
  then have small: "mh_next_generation h1 < u64_max" and "mr_run_id r < mh_next_run_id h1"
    "mr_run_id r \<notin> fst ` set (mh_active_runs h1)" "\<not> is_removed (mh_lifecycle h1)" "hub_inv b h1 k (out @ out1)"
    using cnt fresh by (auto simp: counters_le_def)
  from begin_generation_inv [OF this(5) live small this(4,2,3) e2]
  have "hub_inv b h' k ((out @ out1) @ out2)" "mh_next_generation h' = Suc (mh_next_generation h1)"
    "fst ` set (mh_active_runs h') = insert (mr_run_id r) (fst ` set (mh_active_runs h1))" by simp_all
  moreover have "mh_next_run_id h' = mh_next_run_id h1" "mh_current_epoch h' = mh_current_epoch h1"
    using e2 by (auto simp: begin_generation_def Let_def split: prod.splits)
  ultimately show ?thesis using h1 cnt by (auto simp: new counters_le_def)
qed

lemma run_exited_inv:
  assumes inv: "hub_inv b h k out" and live: "b \<Longrightarrow> all_live W"
    and st: "run_exited W i st h = (new, h')"
  shows "hub_inv b h' k (out @ new)"
proof (cases "map_of (mh_active_runs h) i")
  case None
  with st inv show ?thesis by (simp add: run_exited_def)
next
  case (Some r)
  have x: "mv_kind (hub_event h (Exited (ar_generation r) st)) = Exited (ar_generation r) st"
    by (simp add: hub_event_def monitor_event_new_def)
  show ?thesis
  proof (cases "ar_epoch r = mh_current_epoch h")
    case True
    with exit_current_inv [OF inv live Some True x] st Some show ?thesis by (simp add: run_exited_def Let_def)
  next
    case False
    with exit_retiring_inv [OF inv live Some False x] st Some show ?thesis by (simp add: run_exited_def Let_def)
  qed
qed

lemma run_exited_frame:
  assumes "run_exited W i st h = (new, h')"
  shows "mh_next_generation h' = mh_next_generation h" "mh_next_run_id h' = mh_next_run_id h"
    "mh_current_epoch h' = mh_current_epoch h" "fst ` set (mh_active_runs h') \<subseteq> fst ` set (mh_active_runs h)"
  using assms unfolding run_exited_def exit_current_def exited_state
  by (auto simp: exit_retiring_def Let_def AList.delete_eq
      split: option.splits if_splits prod.splits)

lemma hub_removed_frame:
  assumes "hub_removed W e h = (new, h')"
  shows "mh_next_generation h' = mh_next_generation h" "mh_next_run_id h' = mh_next_run_id h"
    "mh_current_epoch h' = mh_current_epoch h" "mh_active_runs h' = mh_active_runs h"
  using assms by (auto simp: hub_removed_def Let_def split: if_splits)

lemma register_watch_frame:
  assumes "register_watch W c s k h = (new, h')"
  shows "mh_next_generation h' = mh_next_generation h" "mh_next_run_id h' = mh_next_run_id h"
    "mh_current_epoch h' = mh_current_epoch h" "mh_active_runs h' = mh_active_runs h"
  using assms by (auto simp: register_watch_def Let_def split: monitor_lifecycle.splits)

lemma watch_run_inv:
  assumes "watch_run P a n h rs k out" and "\<And>W. b \<Longrightarrow> P W \<Longrightarrow> all_live W"
  shows "n \<le> u64_max \<Longrightarrow> hub_inv b h k out \<and> fresh_runs h rs \<and> counters_le n h"
  using assms(1)
proof (induction rule: watch_run.induct)
  case init
  show ?case by (simp add: hub_new_inv) (simp add: fresh_runs_def counters_le_def monitor_hub_new_def)
next
  case (mint n h rs k out b' r h')
  then have n: "n < u64_max" and IH: "hub_inv b h k out" "fresh_runs h rs" "counters_le n h" by simp_all
  have h': "h' = h\<lparr>mh_next_run_id := Suc (mh_next_run_id h)\<rparr>" "mr_run_id r = mh_next_run_id h"
    using mint.hyps(2) n IH(3) by (auto simp: new_run_def u64_saturating_add_def counters_le_def)
  have "hub_inv b h' k out"
  proof -
    note ok = hub_invD [OF IH(1)]
    have "runs_ok h'" using ok(1) by (auto simp: h' runs_ok_def less_SucI)
    moreover have "retiring_ok h'" using ok(2) by (simp add: h' retiring_ok_def)
    moreover have "lifecycle_ok h'" using ok(3) by (cases "mh_lifecycle h") (simp_all add: h' lifecycle_ok_def is_removed_def)
    moreover have "watches_ok b h' k out" using ok(4) by (simp add: h' watches_ok_def all_watchers_def)
    ultimately show ?thesis by (simp add: hub_inv_def hub_wf_def)
  qed
  moreover have "mh_next_run_id h \<notin> fst ` set (mh_active_runs h)"
    using hub_invD(1) [OF IH(1)] by (force simp: runs_ok_def)
  ultimately show ?case using IH(2,3) h' by (auto simp: fresh_runs_def counters_le_def less_SucI)
next
  case (start n h rs k out W r x new h')
  then have n: "n < u64_max" and IH: "hub_inv b h k out" "fresh_runs h rs" "counters_le n h" by simp_all
  from IH(2) start.hyps(3) have r: "mr_run_id r < mh_next_run_id h" "mr_run_id r \<notin> fst ` set (mh_active_runs h)"
    by (auto simp: fresh_runs_def)
  note st = run_started_inv [OF IH(1) assms(2) [OF _ start.hyps(2)] IH(3) n r start.hyps(4)]
  have "mr_run_id r' < mh_next_run_id h' \<and> mr_run_id r' \<notin> fst ` set (mh_active_runs h')"
    if r': "r' \<in> set (remove1 r rs)" for r'
  proof -
    have d: "distinct rs" "inj_on mr_run_id (set rs)" using IH(2) by (simp_all add: fresh_runs_def distinct_map)
    then have "r' \<in> set rs" "r' \<noteq> r" using r' by (simp_all add: set_remove1_eq)
    then have "mr_run_id r' \<noteq> mr_run_id r" using d(2) start.hyps(3) by (auto dest: inj_onD)
    moreover have "mr_run_id r' < mh_next_run_id h" "mr_run_id r' \<notin> fst ` set (mh_active_runs h)"
      using \<open>r' \<in> set rs\<close> IH(2) by (simp_all add: fresh_runs_def)
    ultimately show ?thesis using st by (metis insertE subsetD)
  qed
  moreover have "distinct (map mr_run_id (remove1 r rs))"
    using IH(2) by (simp add: fresh_runs_def distinct_map inj_on_diff)
  ultimately have "fresh_runs h' (remove1 r rs)" unfolding fresh_runs_def by blast
  with st show ?case by simp
next
  case (exit n h rs k out W i st new h')
  then have IH: "hub_inv b h k out" "fresh_runs h rs" "counters_le n h" by simp_all
  from run_exited_inv [OF IH(1) assms(2) [OF _ exit.hyps(2)] exit.hyps(3)] run_exited_frame [OF exit.hyps(3)] IH(2,3)
  show ?case by (auto simp: fresh_runs_def counters_le_def)
next
  case (remove n h rs k out W epoch new h')
  then have IH: "hub_inv b h k out" "fresh_runs h rs" "counters_le n h" by simp_all
  from hub_removed_inv [OF IH(1) assms(2) [OF _ remove.hyps(2)] remove.hyps(3)] hub_removed_frame [OF remove.hyps(3)] IH(2,3)
  show ?case by (auto simp: fresh_runs_def counters_le_def)
next
  case (register n h rs k out W c s new h')
  then have IH: "hub_inv b h k out" "fresh_runs h rs" "counters_le n h" by simp_all
  from register_watch_inv [OF IH(1) assms(2) [OF _ register.hyps(2)] register.hyps(3)]
    register_watch_frame [OF register.hyps(3)] IH(2,3)
  show ?case by (auto simp: fresh_runs_def counters_le_def)
qed

text \<open>A watch registered before the first run sees it start, exit and the actor go.\<close>

definition live_signals :: watch_signals where
  "live_signals = \<lparr>ws_cancelled = (\<lambda>_. False), ws_closed = (\<lambda>_. False)\<rparr>"

definition sample_minted :: "monitor_run \<times> monitor_hub" where
  "sample_minted = new_run False (monitor_hub_new ''db'')"

definition sample_watched :: "staged \<times> monitor_hub" where
  "sample_watched = register_watch live_signals 0 1 0 (snd sample_minted)"

definition sample_up :: "bool option \<times> staged \<times> monitor_hub" where
  "sample_up = run_started live_signals (fst sample_minted) (snd sample_watched)"

definition sample_down :: "staged \<times> monitor_hub" where
  "sample_down = run_exited live_signals 0 (EPanicked False) (snd (snd sample_up))"

definition sample_gone :: "staged \<times> monitor_hub" where
  "sample_gone = hub_removed live_signals 0 (snd sample_down)"

definition sample_staged :: staged where
  "sample_staged = ((fst sample_watched @ fst (snd sample_up)) @ fst sample_down) @ fst sample_gone"

lemma live_signals_live: "all_live live_signals"
  by (simp add: all_live_def watcher_is_live_def live_signals_def)

lemma sample_watch_run: "watch_run all_live ''db'' 5 (snd sample_gone) [] 1 sample_staged"
proof -
  note live = live_signals_live
  have "watch_run all_live ''db'' (Suc 0) (snd sample_minted) [fst sample_minted] 0 []"
    by (rule watch_run.mint [OF watch_run.init, of False]) (simp add: sample_minted_def)
  from watch_run.register [OF this live, of 0 1 "fst sample_watched" "snd sample_watched"]
  have "watch_run all_live ''db'' 2 (snd sample_watched) [fst sample_minted] 1 (fst sample_watched)"
    by (simp add: sample_watched_def numeral_2_eq_2)
  from watch_run.start [OF this live, of "fst sample_minted" "fst sample_up" "fst (snd sample_up)" "snd (snd sample_up)"]
  have "watch_run all_live ''db'' 3 (snd (snd sample_up)) [] 1 (fst sample_watched @ fst (snd sample_up))"
    by (simp add: sample_up_def numeral_3_eq_3 numeral_2_eq_2)
  from watch_run.exit [OF this live, of 0 "EPanicked False" "fst sample_down" "snd sample_down"]
  have "watch_run all_live ''db'' 4 (snd sample_down) [] 1 ((fst sample_watched @ fst (snd sample_up)) @ fst sample_down)"
    by (simp add: sample_down_def eval_nat_numeral)
  from watch_run.remove [OF this live, of 0 "fst sample_gone" "snd sample_gone"]
  show ?thesis by (simp add: sample_gone_def sample_staged_def eval_nat_numeral)
qed

lemma sample_stream:
  "map mv_kind (stream 0 sample_staged) = [Started 0, Exited 0 (EPanicked False), Removed (Some 0)]"
  by code_simp

text \<open>
  C27. Whatever the order of starts, exits, removals and registrations, and whichever observers
  have been cancelled, the events staged for one watch follow the watch protocol: generations
  start in increasing order, each exit belongs to a generation whose start was staged and which
  has not exited before, and a removal is the last event, staged only when every started
  generation has exited.
\<close>

theorem watch_stream_ordered:
  assumes "watch_run P a n h rs k out" and "n \<le> u64_max"
  shows "watch_trace (stream q out) \<noteq> Broken"
proof -
  have "hub_inv False h k out" using watch_run_inv [OF assms(1), of False] assms(2) by simp
  then show ?thesis by (simp add: hub_inv_def watches_ok_def)
qed

theorem watch_stream_ordered_witness:
  "watch_run all_live ''db'' 5 (snd sample_gone) [] 1 sample_staged \<and>
   watch_trace (stream 0 sample_staged) \<noteq> Broken \<and> stream 0 sample_staged \<noteq> []"
  using watch_stream_ordered [OF sample_watch_run, of 0] sample_watch_run sample_stream
  by (auto simp: u64_max_def)

text \<open>
  C28. No watch is left behind: as long as observers stay live, once the actor is removed and
  every run has exited, each watch ever registered has been told of the removal, also those of
  memberships that a restarted run replaced.
\<close>

theorem watch_told_of_removal:
  assumes "watch_run all_live a n h rs k out" and "n \<le> u64_max"
    and "is_removed (mh_lifecycle h)" and "mh_active_runs h = []" and "q < k"
  shows "watch_trace (stream q out) = Finished"
proof -
  have inv: "hub_inv True h k out" using watch_run_inv [OF assms(1), of True] assms(2) by simp
  note ok = hub_invD [OF this]
  have "mh_watchers h = []" using ok(3) assms(3)
    by (auto simp: lifecycle_ok_def is_removed_def split: monitor_lifecycle.splits)
  moreover have "mh_retiring h = []" using ok(2) assms(4) by (cases "mh_retiring h") (auto simp: retiring_ok_def has_active_def)
  ultimately show ?thesis using ok(4) assms(5) by (simp add: watches_ok_def all_watchers_def)
qed

theorem watch_told_of_removal_witness:
  "is_removed (mh_lifecycle (snd sample_gone)) \<and> mh_active_runs (snd sample_gone) = [] \<and>
   watch_trace (stream 0 sample_staged) = Finished"
proof -
  have "is_removed (mh_lifecycle (snd sample_gone))" "mh_active_runs (snd sample_gone) = []" by code_simp+
  with watch_told_of_removal [OF sample_watch_run, of 0] show ?thesis by (simp add: u64_max_def)
qed

section \<open>What the forwarder finds in the queue\<close>

lemma stage_all_queue:
  "wq_events (stage_all out qs q) =
     fold (watch_events_push (wq_actor_id (qs q))) (stream q out) (wq_events (qs q))"
  by (induction out arbitrary: qs) (auto simp: stage_all_def watch_push_def)

lemma trace_absorbs:
  "fold (watch_step \<circ> mv_kind) es Broken = Broken"
  "fold (watch_step \<circ> mv_kind) es Finished = (if es = [] then Finished else Broken)"
proof -
  show broken: "fold (watch_step \<circ> mv_kind) es Broken = Broken" for es by (induction es) auto
  show "fold (watch_step \<circ> mv_kind) es Finished = (if es = [] then Finished else Broken)"
    by (cases es) (auto simp: broken)
qed

lemma trace_no_marker:
  "fold (watch_step \<circ> mv_kind) es (Following m run) \<noteq> Broken \<Longrightarrow> e \<in> set es \<Longrightarrow> \<not> watch_lagged e"
proof (induction es arbitrary: m run)
  case (Cons x xs)
  show ?case
  proof (cases "watch_step (mv_kind x) (Following m run)")
    case (Following m' run')
    with Cons show ?thesis
      by (cases "mv_kind x") (auto simp: watch_lagged_def trace_absorbs)
  next
    case Finished
    with Cons.prems show ?thesis
      by (cases "mv_kind x")
        (auto simp: watch_lagged_def trace_absorbs trace_absorbs [unfolded comp_def] split: if_splits)
  next
    case Broken
    with Cons.prems show ?thesis by (simp add: trace_absorbs trace_absorbs [unfolded comp_def])
  qed
qed simp

text \<open>
  What a forwarder that has not read yet finds in its queue, for every history of the
  hub: at most 128 entries, of which the real ones are the newest events staged for the watch,
  in order, at most one lag marker ahead of them that counts exactly the missing ones, and the
  newest event, a removal in particular, always last.
\<close>

theorem watch_queue_keeps_newest:
  assumes "watch_run P a n h rs k out" and "n \<le> u64_max"
    and "es = stream q out" and "length es \<le> u64_max"
    and "staged = wq_events (stage_all out (\<lambda>_. watch_queue_new a) q)"
  shows "length staged \<le> watch_buffer_cap \<and>
    (\<exists>m. filter (\<lambda>e. \<not> watch_lagged e) staged = drop m es) \<and>
    (\<forall>e \<in> set (tl staged). \<not> watch_lagged e) \<and>
    sum_list (map (\<lambda>e. if watch_lagged e then watch_lost e else 1) staged) = length es \<and>
    (if es = [] then staged = [] else last staged = last es)"
proof -
  have "watch_trace es \<noteq> Broken"
  proof -
    have "hub_inv False h k out" using watch_run_inv [OF assms(1), of False] assms(2) by simp
    then show ?thesis by (simp add: hub_inv_def watches_ok_def assms(3))
  qed
  then have real: "\<forall>e \<in> set es. \<not> watch_lagged e"
    using trace_no_marker [of es 0 "[]"] by (auto simp: watch_trace_def)
  have st: "staged = fold (watch_events_push a) es []"
    using assms(3,5) by (simp add: stage_all_queue watch_queue_new_def)
  have "if es = [] then staged = [] else last staged = last es"
    by (cases es rule: rev_cases) (simp_all add: st)
  with wq.push_history [OF real assms(4), of a] st show ?thesis
    by (simp add: wq.front_marked_def wq.weight_def wq.reals_def)
qed

theorem watch_queue_keeps_newest_witness:
  "length (stream 0 sample_staged) = 3 \<and>
   sum_list (map (\<lambda>e. if watch_lagged e then watch_lost e else 1)
     (wq_events (stage_all sample_staged (\<lambda>_. watch_queue_new ''db'') 0))) = 3"
proof -
  have l: "length (stream 0 sample_staged) = 3" using arg_cong [OF sample_stream, of length] by simp
  with watch_queue_keeps_newest [OF sample_watch_run _ refl _ refl, of 0] show ?thesis
    by (simp add: u64_max_def)
qed

end
