(* ===== verification/Outbound_Watches.thy ===== *)
theory Outbound_Watches
  imports Monitor
begin

text \<open>
  The watches one actor membership owns (\<open>ActorMonitors\<close> of \<open>actor/monitor.rs\<close>).  Cancellation
  tokens belong to the asynchronous runtime: their operations are a parameter, and what the code
  relies on is the documented behaviour of token trees.  A watched hub is known by its number,
  and whether it still exists is an input.
\<close>

record 't token_env =
  te_new :: "'t \<Rightarrow> nat \<times> 't"
  te_child_token :: "nat \<Rightarrow> 't \<Rightarrow> nat \<times> 't"
  te_cancel :: "nat \<Rightarrow> 't \<Rightarrow> 't"
  te_is_cancelled :: "'t \<Rightarrow> nat \<Rightarrow> bool"
  te_known :: "'t \<Rightarrow> nat \<Rightarrow> bool"
  te_below :: "'t \<Rightarrow> nat \<Rightarrow> nat \<Rightarrow> bool"

text \<open>
  A new token is fresh and not cancelled; a child token is fresh, lies below its parent and is
  cancelled if the parent is; cancelling a token cancels exactly the tokens below it.  Creating
  a token changes nothing about the others.
\<close>

definition tokens_extend :: "'t token_env \<Rightarrow> nat \<Rightarrow> 't \<Rightarrow> 't \<Rightarrow> bool" where
  "tokens_extend T c t t' \<longleftrightarrow>
     \<not> te_known T t c \<and> te_known T t' c \<and>
     (\<forall>x. te_known T t x \<longrightarrow> te_known T t' x \<and> te_is_cancelled T t' x = te_is_cancelled T t x) \<and>
     (\<forall>p x. te_known T t p \<longrightarrow> te_known T t x \<longrightarrow> te_below T t' p x = te_below T t p x)"

definition token_laws :: "'t token_env \<Rightarrow> bool" where
  "token_laws T \<longleftrightarrow>
     (\<forall>t c t'. te_new T t = (c, t') \<longrightarrow> tokens_extend T c t t' \<and> \<not> te_is_cancelled T t' c) \<and>
     (\<forall>t p c t'. te_child_token T p t = (c, t') \<longrightarrow> te_known T t p \<longrightarrow>
        tokens_extend T c t t' \<and> te_below T t' p c \<and> te_is_cancelled T t' c = te_is_cancelled T t p) \<and>
     (\<forall>t p x. te_known T t x \<longrightarrow> te_known T (te_cancel T p t) x \<and>
        te_is_cancelled T (te_cancel T p t) x = (te_is_cancelled T t x \<or> te_below T t p x)) \<and>
     (\<forall>t p q x. te_below T (te_cancel T p t) q x = te_below T t q x) \<and>
     (\<forall>t x. te_known T t x \<longrightarrow> te_below T t x x)"

record membership_watch =
  mw_subject :: nat
  mw_cancellation :: nat
  mw_stop :: nat
  mw_finished :: nat

record actor_monitors =
  am_epoch :: u64
  am_lifetime :: nat
  am_watches :: "membership_watch list"

record watch_grant =
  wg_cancellation :: nat
  wg_stop :: nat
  wg_finished :: nat
  wg_installed :: bool

definition actor_monitors_new :: "'t token_env \<Rightarrow> 't \<Rightarrow> actor_monitors \<times> 't" where
  "actor_monitors_new T t =
     (let (c, t') = te_new T t in (\<lparr>am_epoch = 0, am_lifetime = c, am_watches = []\<rparr>, t'))"

text \<open>A lease is the authority of one incarnation: the epoch it was issued for.\<close>

definition monitors_lease :: "actor_monitors \<Rightarrow> u64" where
  "monitors_lease am = am_epoch am"

definition watch_is_current :: "'t token_env \<Rightarrow> (nat \<Rightarrow> bool) \<Rightarrow> 't \<Rightarrow> membership_watch \<Rightarrow> bool" where
  "watch_is_current T alive t w \<longleftrightarrow>
     \<not> te_is_cancelled T t (mw_cancellation w) \<and> \<not> te_is_cancelled T t (mw_stop w) \<and>
     \<not> te_is_cancelled T t (mw_finished w) \<and> alive (mw_subject w)"

definition monitors_register ::
  "'t token_env \<Rightarrow> (nat \<Rightarrow> bool) \<Rightarrow> u64 \<Rightarrow> nat \<Rightarrow> actor_monitors \<Rightarrow> 't \<Rightarrow>
   watch_grant \<times> actor_monitors \<times> 't" where
  "monitors_register T alive epoch subject am t =
     (if am_epoch am \<noteq> epoch then
        (let (f, t1) = te_new T t;
             t2 = te_cancel T f t1;
             (c, t3) = te_new T t2;
             (s, t4) = te_new T t3
         in (\<lparr>wg_cancellation = c, wg_stop = s, wg_finished = f, wg_installed = False\<rparr>, am, t4))
      else
        (let ws = filter (watch_is_current T alive t) (am_watches am)
         in case find (\<lambda>w. alive (mw_subject w) \<and> mw_subject w = subject) ws of
              Some w \<Rightarrow>
                (\<lparr>wg_cancellation = mw_cancellation w, wg_stop = mw_stop w,
                  wg_finished = mw_finished w, wg_installed = False\<rparr>, am\<lparr>am_watches := ws\<rparr>, t)
            | None \<Rightarrow>
                (let (c, t1) = te_new T t;
                     (s, t2) = te_child_token T (am_lifetime am) t1;
                     (f, t3) = te_new T t2;
                     w = \<lparr>mw_subject = subject, mw_cancellation = c, mw_stop = s, mw_finished = f\<rparr>
                 in (\<lparr>wg_cancellation = c, wg_stop = s, wg_finished = f, wg_installed = True\<rparr>,
                     am\<lparr>am_watches := ws @ [w]\<rparr>, t3))))"

definition monitors_terminate :: "'t token_env \<Rightarrow> actor_monitors \<Rightarrow> 't \<Rightarrow> 't" where
  "monitors_terminate T am t = te_cancel T (am_lifetime am) t"

text \<open>Reopening panics when the epoch counter is exhausted.\<close>

definition monitors_reopen ::
  "'t token_env \<Rightarrow> actor_monitors \<Rightarrow> 't \<Rightarrow> (u64 \<times> actor_monitors \<times> 't) option" where
  "monitors_reopen T am t =
     (let t1 = te_cancel T (am_lifetime am) t
      in if am_epoch am = u64_max then None
         else (let (c, t2) = te_new T t1;
                   am' = \<lparr>am_epoch = am_epoch am + 1, am_lifetime = c, am_watches = []\<rparr>
               in Some (am_epoch am', am', t2)))"

section \<open>The invariant of the owner\<close>

definition monitors_ok :: "'t token_env \<Rightarrow> actor_monitors \<Rightarrow> 't \<Rightarrow> bool" where
  "monitors_ok T am t \<longleftrightarrow>
     te_known T t (am_lifetime am) \<and>
     (\<forall>w \<in> set (am_watches am).
        te_known T t (mw_cancellation w) \<and> te_known T t (mw_stop w) \<and> te_known T t (mw_finished w) \<and>
        te_below T t (am_lifetime am) (mw_stop w))"

lemma extend_facts:
  assumes "tokens_extend T c t t'"
  shows "te_known T t' c" "\<not> te_known T t c" "te_known T t x \<Longrightarrow> te_known T t' x"
    "te_known T t x \<Longrightarrow> te_is_cancelled T t' x = te_is_cancelled T t x"
    "te_known T t p \<Longrightarrow> te_known T t x \<Longrightarrow> te_below T t' p x = te_below T t p x"
  using assms by (auto simp: tokens_extend_def)

lemma law_new:
  assumes "token_laws T" and "te_new T t = (c, t')"
  shows "tokens_extend T c t t'" "\<not> te_is_cancelled T t' c"
  using assms by (simp_all add: token_laws_def)

lemma law_child:
  assumes "token_laws T" and "te_child_token T p t = (c, t')" and "te_known T t p"
  shows "tokens_extend T c t t'" "te_below T t' p c" "te_is_cancelled T t' c = te_is_cancelled T t p"
  using assms by (simp_all add: token_laws_def)

lemma law_cancel:
  assumes "token_laws T" and "te_known T t x"
  shows "te_known T (te_cancel T p t) x"
    "te_is_cancelled T (te_cancel T p t) x = (te_is_cancelled T t x \<or> te_below T t p x)"
  using assms by (simp_all add: token_laws_def)

lemma law_below_cancel: "token_laws T \<Longrightarrow> te_below T (te_cancel T p t) q x = te_below T t q x"
  by (simp add: token_laws_def)

lemma law_below_self: "token_laws T \<Longrightarrow> te_known T t x \<Longrightarrow> te_below T t x x"
  by (simp add: token_laws_def)

lemma monitors_ok_extend:
  "monitors_ok T am t \<Longrightarrow> tokens_extend T c t t' \<Longrightarrow> monitors_ok T am t'"
  using extend_facts [of T c t t'] by (auto simp: monitors_ok_def)

lemma monitors_ok_cancel: "token_laws T \<Longrightarrow> monitors_ok T am t \<Longrightarrow> monitors_ok T am (te_cancel T p t)"
  by (simp add: monitors_ok_def law_cancel law_below_cancel)

lemma monitors_ok_filter: "monitors_ok T am t \<Longrightarrow> monitors_ok T (am\<lparr>am_watches := filter Q (am_watches am)\<rparr>) t"
  by (auto simp: monitors_ok_def)

lemma monitors_register_ok:
  assumes T: "token_laws T" and ok: "monitors_ok T am t"
    and reg: "monitors_register T alive epoch subject am t = (g, am', t')"
  shows "monitors_ok T am' t'"
proof (cases "am_epoch am = epoch")
  case False
  obtain f t1 where n1: "te_new T t = (f, t1)" by (cases "te_new T t")
  obtain c t3 where n2: "te_new T (te_cancel T f t1) = (c, t3)" by (cases "te_new T (te_cancel T f t1)")
  obtain s t4 where n3: "te_new T t3 = (s, t4)" by (cases "te_new T t3")
  have "monitors_ok T am t4"
    by (rule monitors_ok_extend [OF monitors_ok_extend [OF monitors_ok_cancel [OF T
            monitors_ok_extend [OF ok law_new(1) [OF T n1]]] law_new(1) [OF T n2]] law_new(1) [OF T n3]])
  with reg False n1 n2 n3 show ?thesis by (simp add: monitors_register_def Let_def)
next
  case True
  let ?ws = "filter (watch_is_current T alive t) (am_watches am)"
  have ws: "monitors_ok T (am\<lparr>am_watches := ?ws\<rparr>) t" by (rule monitors_ok_filter [OF ok])
  show ?thesis
  proof (cases "find (\<lambda>w. alive (mw_subject w) \<and> mw_subject w = subject) ?ws")
    case (Some w)
    with reg True ws show ?thesis by (auto simp: monitors_register_def Let_def)
  next
    case None
    obtain c t1 where n1: "te_new T t = (c, t1)" by (cases "te_new T t")
    obtain s t2 where n2: "te_child_token T (am_lifetime am) t1 = (s, t2)"
      by (cases "te_child_token T (am_lifetime am) t1")
    obtain f t3 where n3: "te_new T t2 = (f, t3)" by (cases "te_new T t2")
    note e1 = law_new(1) [OF T n1] and e3 = law_new(1) [OF T n3]
    have known: "te_known T t1 (am_lifetime am)"
      using ok extend_facts(3) [OF e1] by (simp add: monitors_ok_def)
    note e2 = law_child [OF T n2 known]
    have base: "monitors_ok T (am\<lparr>am_watches := ?ws\<rparr>) t3"
      by (rule monitors_ok_extend [OF monitors_ok_extend [OF monitors_ok_extend [OF ws e1] e2(1)] e3])
    have "te_known T t3 c" "te_known T t3 s" "te_known T t3 f" "te_below T t3 (am_lifetime am) s"
      using extend_facts [OF e1] extend_facts [OF e2(1)] extend_facts [OF e3] known e2(2) by auto
    with base reg True None n1 n2 n3 show ?thesis
      by (auto simp: monitors_register_def Let_def monitors_ok_def)
  qed
qed

section \<open>A token tree\<close>

text \<open>
  A token forest with the behaviour the laws ask for: the next number, the pairs of a token and
  one below it, and the cancelled tokens.
\<close>

record token_forest =
  tf_next :: nat
  tf_below :: "(nat \<times> nat) list"
  tf_cancelled :: "nat list"

definition forest_env :: "token_forest token_env" where
  "forest_env =
     \<lparr>te_new = (\<lambda>t. (tf_next t, t\<lparr>tf_next := Suc (tf_next t),
        tf_below := (tf_next t, tf_next t) # filter (\<lambda>(_, x). x \<noteq> tf_next t) (tf_below t),
        tf_cancelled := removeAll (tf_next t) (tf_cancelled t)\<rparr>)),
      te_child_token = (\<lambda>p t. (tf_next t, t\<lparr>tf_next := Suc (tf_next t),
        tf_below := (tf_next t, tf_next t) # map (\<lambda>(q, _). (q, tf_next t)) (filter (\<lambda>(_, x). x = p) (tf_below t))
          @ filter (\<lambda>(_, x). x \<noteq> tf_next t) (tf_below t),
        tf_cancelled := (if p \<in> set (tf_cancelled t) then [tf_next t] else [])
          @ removeAll (tf_next t) (tf_cancelled t)\<rparr>)),
      te_cancel = (\<lambda>p t. t\<lparr>tf_cancelled := tf_cancelled t @ map snd (filter (\<lambda>(q, _). q = p) (tf_below t))\<rparr>),
      te_is_cancelled = (\<lambda>t x. x \<in> set (tf_cancelled t)),
      te_known = (\<lambda>t x. x < tf_next t \<and> (x, x) \<in> set (tf_below t)),
      te_below = (\<lambda>t p x. (p, x) \<in> set (tf_below t))\<rparr>"

lemma forest_laws: "token_laws forest_env"
  unfolding token_laws_def tokens_extend_def forest_env_def
  by (auto simp: image_iff)

definition sample_forest :: token_forest where
  "sample_forest = \<lparr>tf_next = 0, tf_below = [], tf_cancelled = []\<rparr>"

definition sample_owner :: "actor_monitors \<times> token_forest" where
  "sample_owner = actor_monitors_new forest_env sample_forest"

lemma sample_owner_ok: "monitors_ok forest_env (fst sample_owner) (snd sample_owner)"
  by (simp add: sample_owner_def actor_monitors_new_def sample_forest_def forest_env_def monitors_ok_def)

text \<open>
  A lease of a retired membership is powerless: registering through it leaves the current
  membership's watches as they are, installs nothing, and answers with a watch that is already
  finished.
\<close>

theorem stale_lease_powerless:
  assumes "token_laws T" and "epoch \<noteq> am_epoch am"
    and "monitors_register T alive epoch subject am t = (g, am', t')"
  shows "am' = am \<and> \<not> wg_installed g \<and> te_is_cancelled T t' (wg_finished g)"
proof -
  note T = assms(1)
  obtain f t1 where n1: "te_new T t = (f, t1)" by (cases "te_new T t")
  obtain c t3 where n2: "te_new T (te_cancel T f t1) = (c, t3)" by (cases "te_new T (te_cancel T f t1)")
  obtain s t4 where n3: "te_new T t3 = (s, t4)" by (cases "te_new T t3")
  have f: "te_known T t1 f" by (rule extend_facts(1) [OF law_new(1) [OF T n1]])
  have "te_known T (te_cancel T f t1) f" "te_is_cancelled T (te_cancel T f t1) f"
    using f by (simp_all add: law_cancel [OF T] law_below_self [OF T])
  then have "te_is_cancelled T t4 f"
    using extend_facts(3,4) [OF law_new(1) [OF T n2]] extend_facts(4) [OF law_new(1) [OF T n3]] by simp
  with assms(2,3) n1 n2 n3 show ?thesis by (auto simp: monitors_register_def Let_def)
qed

theorem stale_lease_powerless_witness:
  "\<exists>g am' t'. monitors_register forest_env (\<lambda>_. True) 1 7 (fst sample_owner) (snd sample_owner) = (g, am', t') \<and>
     am' = fst sample_owner \<and> \<not> wg_installed g \<and> te_is_cancelled forest_env t' (wg_finished g)"
proof -
  obtain g am' t' where r: "monitors_register forest_env (\<lambda>_. True) 1 7 (fst sample_owner) (snd sample_owner)
      = (g, am', t')" by (metis prod_cases3)
  have "1 \<noteq> am_epoch (fst sample_owner)" by code_simp
  from stale_lease_powerless [OF forest_laws this r] r show ?thesis by blast
qed

text \<open>
  Terminating a binding ends every watch its membership owns: each watch registered since
  the membership began has its stop token cancelled, and a watch registered later is stopped
  from the beginning.
\<close>

theorem terminate_stops_watches:
  assumes "token_laws T" and "monitors_ok T am t" and "t1 = monitors_terminate T am t"
    and "monitors_register T alive (am_epoch am) subject am t1 = (g, am', t')"
  shows "list_all (\<lambda>w. te_is_cancelled T t1 (mw_stop w)) (am_watches am) \<and>
    te_is_cancelled T t' (wg_stop g)"
proof
  note T = assms(1)
  have stop: "te_is_cancelled T t1 (mw_stop w)" if "w \<in> set (am_watches am)" for w
    using assms(2,3) that by (auto simp: monitors_ok_def monitors_terminate_def law_cancel [OF T])
  then show "list_all (\<lambda>w. te_is_cancelled T t1 (mw_stop w)) (am_watches am)" by (simp add: list_all_iff)
  have none: "filter (watch_is_current T alive t1) (am_watches am) = []"
    using stop by (auto simp: filter_empty_conv watch_is_current_def)
  obtain c u1 where n1: "te_new T t1 = (c, u1)" by (cases "te_new T t1")
  obtain s u2 where n2: "te_child_token T (am_lifetime am) u1 = (s, u2)" by (cases "te_child_token T (am_lifetime am) u1")
  obtain f u3 where n3: "te_new T u2 = (f, u3)" by (cases "te_new T u2")
  have life: "te_known T t1 (am_lifetime am)" "te_is_cancelled T t1 (am_lifetime am)"
    using assms(2,3) by (simp_all add: monitors_ok_def monitors_terminate_def law_cancel [OF T] law_below_self [OF T])
  then have u1: "te_known T u1 (am_lifetime am)" "te_is_cancelled T u1 (am_lifetime am)"
    using extend_facts(3,4) [OF law_new(1) [OF T n1]] by simp_all
  note e2 = law_child [OF T n2 u1(1)]
  have "te_is_cancelled T u3 s"
    using extend_facts(1) [OF e2(1)] e2(3) u1(2) extend_facts(4) [OF law_new(1) [OF T n3]] by simp
  with assms(4) none n1 n2 n3 show "te_is_cancelled T t' (wg_stop g)"
    by (auto simp: monitors_register_def Let_def)
qed

definition sample_owner_watching :: "watch_grant \<times> actor_monitors \<times> token_forest" where
  "sample_owner_watching =
     monitors_register forest_env (\<lambda>_. True) 0 7 (fst sample_owner) (snd sample_owner)"

theorem terminate_stops_watches_witness:
  "let am = fst (snd sample_owner_watching);
       t1 = monitors_terminate forest_env am (snd (snd sample_owner_watching))
   in length (am_watches am) = 1 \<and> list_all (\<lambda>w. te_is_cancelled forest_env t1 (mw_stop w)) (am_watches am)"
proof -
  let ?am = "fst (snd sample_owner_watching)" and ?t = "snd (snd sample_owner_watching)"
  have one: "length (am_watches ?am) = 1" by code_simp
  have ok: "monitors_ok forest_env ?am ?t"
    by (rule monitors_register_ok [OF forest_laws sample_owner_ok, of "\<lambda>_. True" 0 7 "fst sample_owner_watching"])
       (simp add: sample_owner_watching_def)
  obtain g am' t' where "monitors_register forest_env (\<lambda>_. True) (am_epoch ?am) 7 ?am
      (monitors_terminate forest_env ?am ?t) = (g, am', t')" by (metis prod_cases3)
  from terminate_stops_watches [OF forest_laws ok refl this] one show ?thesis by (simp add: Let_def)
qed

end
