(* ===== verification/Mailbox.thy ===== *)
theory Mailbox
  imports Kokage_Prelude
begin

text \<open>
  Actor mailboxes (\<open>actor/binding.rs\<close>): how unread messages are stored, the conflating channel
  with its latest-wins and keyed modes, and the mailbox reference that sends with or without a
  deadline.  A FIFO mailbox is a bounded channel of the asynchronous runtime; the outcome of
  reserving a slot in it is an input of the operations, and an accepted message is what they
  hand to the permit.
\<close>

section \<open>Statistics\<close>

text \<open>Counters are unsigned 64-bit and wrap around.\<close>

definition u64_fetch_add :: "u64 \<Rightarrow> u64 \<Rightarrow> u64" where
  "u64_fetch_add a b = (a + b) mod 2 ^ 64"

record actor_stats_counters =
  ac_messages_received :: u64
  ac_messages_accepted :: u64
  ac_messages_conflated :: u64
  ac_sends_rejected :: u64
  ac_message_bytes_accepted :: u64
  ac_observe_message_size :: bool
  ac_outstanding_offloads :: u64

definition counters_new :: actor_stats_counters where
  "counters_new =
     \<lparr>ac_messages_received = 0, ac_messages_accepted = 0, ac_messages_conflated = 0,
      ac_sends_rejected = 0, ac_message_bytes_accepted = 0, ac_observe_message_size = False,
      ac_outstanding_offloads = 0\<rparr>"

definition record_received :: "actor_stats_counters \<Rightarrow> actor_stats_counters" where
  "record_received c = c\<lparr>ac_messages_received := u64_fetch_add (ac_messages_received c) 1\<rparr>"

definition record_send :: "bool \<Rightarrow> actor_stats_counters \<Rightarrow> actor_stats_counters" where
  "record_send accepted c =
     (if accepted then c\<lparr>ac_messages_accepted := u64_fetch_add (ac_messages_accepted c) 1\<rparr>
      else c\<lparr>ac_sends_rejected := u64_fetch_add (ac_sends_rejected c) 1\<rparr>)"

definition record_conflated :: "u64 \<Rightarrow> actor_stats_counters \<Rightarrow> actor_stats_counters" where
  "record_conflated n c =
     (if 0 < n then c\<lparr>ac_messages_conflated := u64_fetch_add (ac_messages_conflated c) n\<rparr>
      else c)"

definition record_message_bytes :: "usize \<Rightarrow> actor_stats_counters \<Rightarrow> actor_stats_counters" where
  "record_message_bytes n c =
     c\<lparr>ac_message_bytes_accepted := u64_fetch_add (ac_message_bytes_accepted c) n\<rparr>"

definition enable_message_size :: "actor_stats_counters \<Rightarrow> actor_stats_counters" where
  "enable_message_size c = c\<lparr>ac_observe_message_size := True\<rparr>"

definition set_outstanding_offloads :: "usize \<Rightarrow> actor_stats_counters \<Rightarrow> actor_stats_counters" where
  "set_outstanding_offloads n c = c\<lparr>ac_outstanding_offloads := n\<rparr>"

record actor_stats =
  as_actor_id :: string
  as_messages_received :: u64
  as_messages_accepted :: u64
  as_messages_conflated :: u64
  as_message_bytes_accepted :: "u64 option"
  as_sends_rejected :: u64
  as_outstanding_offloads :: u64
  as_mailbox_depth :: usize
  as_mailbox_capacity :: usize

definition counters_snapshot :: "string \<Rightarrow> usize \<Rightarrow> usize \<Rightarrow> actor_stats_counters \<Rightarrow> actor_stats" where
  "counters_snapshot actor_id depth capacity c =
     \<lparr>as_actor_id = actor_id, as_messages_received = ac_messages_received c,
      as_messages_accepted = ac_messages_accepted c, as_messages_conflated = ac_messages_conflated c,
      as_message_bytes_accepted =
        (if ac_observe_message_size c then Some (ac_message_bytes_accepted c) else None),
      as_sends_rejected = ac_sends_rejected c, as_outstanding_offloads = ac_outstanding_offloads c,
      as_mailbox_depth = depth, as_mailbox_capacity = capacity\<rparr>"

section \<open>Mailbox modes\<close>

datatype 'm mailbox_kind = MQueue | MLatest | MLatestByKey "'m \<Rightarrow> 'm \<Rightarrow> bool"

record 'm mailbox =
  mb_kind :: "'m mailbox_kind"
  mb_capacity :: "usize option"

definition mailbox_queue :: "usize \<Rightarrow> 'm mailbox" where
  "mailbox_queue capacity = \<lparr>mb_kind = MQueue, mb_capacity = Some capacity\<rparr>"

definition mailbox_latest :: "'m mailbox" where
  "mailbox_latest = \<lparr>mb_kind = MLatest, mb_capacity = Some 1\<rparr>"

definition latest_by_key :: "usize \<Rightarrow> ('m \<Rightarrow> 'k) \<Rightarrow> 'm mailbox" where
  "latest_by_key capacity key =
     \<lparr>mb_kind = MLatestByKey (\<lambda>l r. key l = key r), mb_capacity = Some capacity\<rparr>"

definition inherited_queue :: "'m mailbox" where
  "inherited_queue = \<lparr>mb_kind = MQueue, mb_capacity = None\<rparr>"

definition capacity_or :: "usize \<Rightarrow> 'm mailbox \<Rightarrow> usize" where
  "capacity_or d m = (case mb_capacity m of None \<Rightarrow> d | Some c \<Rightarrow> c)"

section \<open>The conflating channel\<close>

record 'm conflating_state =
  cs_messages :: "'m list"
  cs_capacity :: usize
  cs_key_matches :: "('m \<Rightarrow> 'm \<Rightarrow> bool) option"
  cs_sender_count :: usize
  cs_receiver_closed :: bool
  cs_accepting_external :: bool

definition conflating_channel :: "usize \<Rightarrow> ('m \<Rightarrow> 'm \<Rightarrow> bool) option \<Rightarrow> 'm conflating_state" where
  "conflating_channel capacity key_matches =
     \<lparr>cs_messages = [], cs_capacity = capacity, cs_key_matches = key_matches, cs_sender_count = 1,
      cs_receiver_closed = False, cs_accepting_external = True\<rparr>"

datatype 'm send_outcome = Accepted u64 | Closed 'm

datatype 'm timed_send_outcome = TAccepted u64 | TClosed 'm | TTimeout 'm

fun position :: "('a \<Rightarrow> bool) \<Rightarrow> 'a list \<Rightarrow> nat option" where
  "position P [] = None"
| "position P (x # xs) = (if P x then Some 0 else map_option Suc (position P xs))"

text \<open>A message for a key that is not queued, evicting the oldest one from a full queue.\<close>

definition keyed_append :: "'m \<Rightarrow> 'm conflating_state \<Rightarrow> u64 \<times> 'm conflating_state" where
  "keyed_append m s =
     (let evicted = (if length (cs_messages s) = cs_capacity s then 1 else 0);
          kept = (if evicted = 1 then drop 1 (cs_messages s) else cs_messages s)
      in (evicted, s\<lparr>cs_messages := kept @ [m]\<rparr>))"

text \<open>The single slot of a mailbox without keys.\<close>

definition latest_store :: "'m \<Rightarrow> 'm conflating_state \<Rightarrow> u64 \<times> 'm conflating_state" where
  "latest_store m s =
     (if cs_messages s = [] then (0, s\<lparr>cs_messages := [m]\<rparr>)
      else (1, s\<lparr>cs_messages := (cs_messages s)[0 := m]\<rparr>))"

definition conflating_send :: "'m \<Rightarrow> 'm conflating_state \<Rightarrow> 'm send_outcome \<times> 'm conflating_state" where
  "conflating_send m s =
     (if cs_receiver_closed s \<or> \<not> cs_accepting_external s then (Closed m, s)
      else
        (let (conflated, s') =
           (case cs_key_matches s of
              Some key_matches \<Rightarrow>
                (case position (\<lambda>queued. key_matches queued m) (cs_messages s) of
                   Some i \<Rightarrow> (1, s\<lparr>cs_messages := (cs_messages s)[i := m]\<rparr>)
                 | None \<Rightarrow> keyed_append m s)
            | None \<Rightarrow> latest_store m s)
         in (Accepted conflated, s')))"

text \<open>
  The bounded send reads the clock when it has the lock and again after the key matcher, which
  is user code that may take arbitrarily long.
\<close>

definition conflating_send_until ::
  "'m \<Rightarrow> instant \<Rightarrow> instant \<Rightarrow> instant \<Rightarrow> 'm conflating_state \<Rightarrow> 'm timed_send_outcome \<times> 'm conflating_state" where
  "conflating_send_until m deadline now1 now2 s =
     (if cs_receiver_closed s \<or> \<not> cs_accepting_external s then (TClosed m, s)
      else if deadline \<le> now1 then (TTimeout m, s)
      else
        (let matched = Option.bind (cs_key_matches s)
               (\<lambda>key_matches. position (\<lambda>queued. key_matches queued m) (cs_messages s));
             keyed = (cs_key_matches s \<noteq> None)
         in if cs_receiver_closed s \<or> \<not> cs_accepting_external s then (TClosed m, s)
            else if deadline \<le> now2 then (TTimeout m, s)
            else
              (let (conflated, s') =
                 (case matched of
                    Some i \<Rightarrow> (1, s\<lparr>cs_messages := (cs_messages s)[i := m]\<rparr>)
                  | None \<Rightarrow> if keyed then keyed_append m s else latest_store m s)
               in (TAccepted conflated, s'))))"

definition sender_clone :: "'m conflating_state \<Rightarrow> 'm conflating_state" where
  "sender_clone s = s\<lparr>cs_sender_count := cs_sender_count s + 1\<rparr>"

definition sender_drop :: "'m conflating_state \<Rightarrow> 'm conflating_state" where
  "sender_drop s = s\<lparr>cs_sender_count := cs_sender_count s - 1\<rparr>"

datatype try_recv_error = TryEmpty | TryDisconnected

definition conflating_try_recv ::
  "'m conflating_state \<Rightarrow> (try_recv_error + 'm) \<times> 'm conflating_state" where
  "conflating_try_recv s =
     (case cs_messages s of
        m # ms \<Rightarrow> (Inr m, s\<lparr>cs_messages := ms\<rparr>)
      | [] \<Rightarrow>
          if cs_receiver_closed s \<or> cs_sender_count s = 0 then (Inl TryDisconnected, s)
          else (Inl TryEmpty, s))"

text \<open>One pass of the receive loop: a message, the end, or a wait for the next notification.\<close>

definition conflating_recv_poll ::
  "'m conflating_state \<Rightarrow> 'm option option \<times> 'm conflating_state" where
  "conflating_recv_poll s =
     (case cs_messages s of
        m # ms \<Rightarrow> (Some (Some m), s\<lparr>cs_messages := ms\<rparr>)
      | [] \<Rightarrow>
          if cs_receiver_closed s \<or> cs_sender_count s = 0 then (Some None, s) else (None, s))"

definition close_external :: "'m conflating_state \<Rightarrow> 'm conflating_state" where
  "close_external s = s\<lparr>cs_accepting_external := False\<rparr>"

definition receiver_drop :: "'m conflating_state \<Rightarrow> 'm conflating_state" where
  "receiver_drop s = s\<lparr>cs_receiver_closed := True\<rparr>"

definition conflating_usage :: "'m conflating_state \<Rightarrow> usize \<times> usize" where
  "conflating_usage s = (length (cs_messages s), cs_capacity s)"

section \<open>Sending through a mailbox reference\<close>

datatype send_error_kind = NotRunning | Full | Terminated | TimedOut

datatype message_rejection =
    RejectMailboxFull | RejectMailboxClosed | RejectNotRunning | RejectActorTerminated | RejectTimeout

text \<open>
  A bounded FIFO channel seen from a sender: its intake flag, before and after reserving, and
  what reserving a slot answers.
\<close>

datatype reserve_result = Permit | NoCapacity | ChannelClosed

record queue_view =
  qv_accepting :: bool
  qv_reserve :: reserve_result
  qv_accepting_after :: bool

datatype 'm mailbox_sender = QueueSender queue_view | ConflatingSender "'m conflating_state"

text \<open>
  The waiting send.  It suspends while the FIFO channel is full, which is the result \<open>None\<close>;
  an accepted message is handed to the permit.
\<close>

definition queue_send_retaining :: "'m \<Rightarrow> queue_view \<Rightarrow> 'm send_outcome option" where
  "queue_send_retaining m q =
     (if \<not> qv_accepting q then Some (Closed m)
      else case qv_reserve q of
             NoCapacity \<Rightarrow> None
           | Permit \<Rightarrow> Some (if qv_accepting_after q then Accepted 0 else Closed m)
           | ChannelClosed \<Rightarrow> Some (Closed m))"

fun send_retaining ::
  "'m \<Rightarrow> 'm mailbox_sender \<Rightarrow> 'm send_outcome option \<times> 'm mailbox_sender" where
  "send_retaining m (QueueSender q) = (queue_send_retaining m q, QueueSender q)"
| "send_retaining m (ConflatingSender s) =
     (let (r, s') = conflating_send m s in (Some r, ConflatingSender s'))"

text \<open>
  The bounded send polls the timer first.  \<open>elapsed\<close> says that the deadline has passed at that
  poll; a FIFO channel without capacity then suspends until the next poll.
\<close>

definition queue_send_retaining_until ::
  "'m \<Rightarrow> instant \<Rightarrow> bool \<Rightarrow> instant \<Rightarrow> queue_view \<Rightarrow> 'm timed_send_outcome option" where
  "queue_send_retaining_until m deadline elapsed now q =
     (if \<not> qv_accepting q then Some (TClosed m)
      else if elapsed then Some (TTimeout m)
      else case qv_reserve q of
             NoCapacity \<Rightarrow> None
           | Permit \<Rightarrow>
               if \<not> qv_accepting_after q then Some (TClosed m)
               else if deadline \<le> now then Some (TTimeout m)
               else Some (TAccepted 0)
           | ChannelClosed \<Rightarrow> Some (TClosed m))"

fun send_retaining_until ::
  "'m \<Rightarrow> instant \<Rightarrow> bool \<Rightarrow> instant \<Rightarrow> instant \<Rightarrow> 'm mailbox_sender \<Rightarrow>
   'm timed_send_outcome option \<times> 'm mailbox_sender" where
  "send_retaining_until m deadline elapsed now1 now2 (QueueSender q) =
     (queue_send_retaining_until m deadline elapsed now1 q, QueueSender q)"
| "send_retaining_until m deadline elapsed now1 now2 (ConflatingSender s) =
     (if elapsed then (Some (TTimeout m), ConflatingSender s)
      else (let (r, s') = conflating_send_until m deadline now1 now2 s
            in (Some r, ConflatingSender s')))"

text \<open>
  The immediate send.  The message of a rejected send is in the error, with the exact reason
  kept for telemetry.
\<close>

record 'm try_send_failure =
  tf_message :: 'm
  tf_kind :: send_error_kind
  tf_rejection :: message_rejection

definition closed_failure :: "'m \<Rightarrow> 'm try_send_failure" where
  "closed_failure m = \<lparr>tf_message = m, tf_kind = NotRunning, tf_rejection = RejectMailboxClosed\<rparr>"

definition queue_try_send :: "'m \<Rightarrow> queue_view \<Rightarrow> 'm try_send_failure + u64" where
  "queue_try_send m q =
     (if \<not> qv_accepting q then Inl (closed_failure m)
      else case qv_reserve q of
             Permit \<Rightarrow> if qv_accepting_after q then Inr 0 else Inl (closed_failure m)
           | ChannelClosed \<Rightarrow> Inl (closed_failure m)
           | NoCapacity \<Rightarrow> Inl \<lparr>tf_message = m, tf_kind = Full, tf_rejection = RejectMailboxFull\<rparr>)"

fun mailbox_try_send ::
  "'m \<Rightarrow> 'm mailbox_sender \<Rightarrow> ('m try_send_failure + u64) \<times> 'm mailbox_sender" where
  "mailbox_try_send m (QueueSender q) = (queue_try_send m q, QueueSender q)"
| "mailbox_try_send m (ConflatingSender s) =
     (case conflating_send m s of
        (Accepted conflated, s') \<Rightarrow> (Inr conflated, ConflatingSender s')
      | (Closed m', s') \<Rightarrow> (Inl (closed_failure m'), ConflatingSender s'))"

section \<open>The contract of a conflating mailbox\<close>

lemma position_Some: "position P xs = Some i \<Longrightarrow> i < length xs \<and> P (xs ! i) \<and> (\<forall>j < i. \<not> P (xs ! j))"
proof (induction xs arbitrary: i)
  case (Cons x xs)
  then show ?case by (auto simp: nth_Cons' split: if_splits)
qed simp

lemma position_None: "position P xs = None \<longleftrightarrow> (\<forall>x \<in> set xs. \<not> P x)"
  by (induction xs) auto

text \<open>The two forms of sending differ only in the deadline.\<close>

fun timed :: "'m send_outcome \<Rightarrow> 'm timed_send_outcome" where
  "timed (Accepted n) = TAccepted n"
| "timed (Closed m) = TClosed m"

text \<open>
  The bounded send of a conflating mailbox is the plain send, with a deadline: a closed
  mailbox rejects, a deadline that has passed at either reading of the clock returns the
  message and changes nothing, and otherwise outcome and new state are those of the plain send.
\<close>

theorem bounded_send_equivalent:
  "conflating_send_until m deadline now1 now2 s =
     (if cs_accepting_external s \<and> \<not> cs_receiver_closed s then
        (if deadline \<le> max now1 now2 then (TTimeout m, s) else map_prod timed id (conflating_send m s))
      else (TClosed m, s))"
  by (auto simp: conflating_send_until_def conflating_send_def keyed_append_def latest_store_def Let_def
      max_def split: option.split)

text \<open>The abstract mailbox: the unread keys in order of arrival and the latest message of each.\<close>

type_synonym ('k, 'm) unread = "'k list \<times> ('k \<rightharpoonup> 'm)"

definition unread_send :: "usize \<Rightarrow> 'k \<Rightarrow> 'm \<Rightarrow> ('k, 'm) unread \<Rightarrow> u64 \<times> ('k, 'm) unread" where
  "unread_send capacity k m u =
     (let (ks, f) = u
      in if k \<in> set ks then (1, (ks, f(k \<mapsto> m)))
         else if length ks = capacity then (1, (tl ks @ [k], (f(hd ks := None))(k \<mapsto> m)))
         else (0, (ks @ [k], f(k \<mapsto> m))))"

definition unread_recv :: "('k, 'm) unread \<Rightarrow> 'm option \<times> ('k, 'm) unread" where
  "unread_recv u =
     (case u of ([], f) \<Rightarrow> (None, ([], f)) | (k # ks, f) \<Rightarrow> (f k, (ks, f(k := None))))"

definition unread_of :: "('m \<Rightarrow> 'k) \<Rightarrow> 'm conflating_state \<Rightarrow> ('k, 'm) unread" where
  "unread_of key s = (map key (cs_messages s), map_of (map (\<lambda>m. (key m, m)) (cs_messages s)))"

definition keyed_ok :: "('m \<Rightarrow> 'k) \<Rightarrow> 'm conflating_state \<Rightarrow> bool" where
  "keyed_ok key s \<longleftrightarrow>
     cs_key_matches s = Some (\<lambda>l r. key l = key r) \<and> 0 < cs_capacity s \<and>
     distinct (map key (cs_messages s)) \<and> length (cs_messages s) \<le> cs_capacity s"

lemma map_of_keyed_update:
  assumes "distinct (map key ms)" and "i < length ms" and "key (ms ! i) = key m"
  shows "map_of (map (\<lambda>m. (key m, m)) (ms[i := m])) = (map_of (map (\<lambda>m. (key m, m)) ms))(key m \<mapsto> m)"
  using assms
proof (induction ms arbitrary: i)
  case (Cons a ms)
  then show ?case by (cases i) (auto simp: fun_eq_iff, metis image_eqI nth_mem)
qed simp

lemma map_of_keyed_append:
  "key m \<notin> key ` set ms \<Longrightarrow>
   map_of (map (\<lambda>m. (key m, m)) (ms @ [m])) = (map_of (map (\<lambda>m. (key m, m)) ms))(key m \<mapsto> m)"
  by (induction ms) (auto simp: fun_eq_iff)

lemma keyed_update_keys: "i < length ms \<Longrightarrow> key (ms ! i) = key m \<Longrightarrow> map key (ms[i := m]) = map key ms"
  by (metis list_update_id map_update)

lemma keyed_send_effect:
  assumes ok: "keyed_ok key s" and "conflating_send m s = (Accepted c, s')"
  shows "keyed_ok key s' \<and> unread_send (cs_capacity s) (key m) m (unread_of key s) = (c, unread_of key s') \<and>
    cs_capacity s' = cs_capacity s"
proof -
  let ?ms = "cs_messages s"
  have km: "cs_key_matches s = Some (\<lambda>l r. key l = key r)" using ok by (simp add: keyed_ok_def)
  show ?thesis
  proof (cases "position (\<lambda>q. key q = key m) ?ms")
    case (Some i)
    note pos = position_Some [OF Some]
    then have in_keys: "key m \<in> set (map key ?ms)" by (metis length_map nth_map nth_mem)
    have s': "c = 1" "s' = s\<lparr>cs_messages := ?ms[i := m]\<rparr>"
      using assms(2) Some by (auto simp: conflating_send_def km split: if_splits)
    show ?thesis
      using ok pos in_keys map_of_keyed_update [of key ?ms i m] keyed_update_keys [of i ?ms key m]
      by (simp add: s' keyed_ok_def unread_of_def unread_send_def)
  next
    case None
    then have fresh: "key m \<notin> key ` set ?ms" by (auto simp: position_None)
    show ?thesis
    proof (cases "length ?ms = cs_capacity s")
      case True
      with ok obtain a ms where ms: "?ms = a # ms" by (cases ?ms) (auto simp: keyed_ok_def)
      have s': "c = 1" "s' = s\<lparr>cs_messages := ms @ [m]\<rparr>"
        using assms(2) None True ms by (auto simp: conflating_send_def km keyed_append_def split: if_splits)
      have old: "key a \<notin> key ` set ms" "key m \<noteq> key a" "key m \<notin> key ` set ms"
        using ok fresh ms by (auto simp: keyed_ok_def)
      then have "map_of (map (\<lambda>m. (key m, m)) ms) (key a) = None" by (simp add: map_of_eq_None_iff image_image)
      then have "(map_of (map (\<lambda>m. (key m, m)) ?ms))(key a := None) = map_of (map (\<lambda>m. (key m, m)) ms)"
        using ms by (auto simp: fun_eq_iff)
      then show ?thesis
        using ok old map_of_keyed_append [of key m ms] True ms
        by (simp add: s' keyed_ok_def unread_of_def unread_send_def)
    next
      case False
      then have s': "c = 0" "s' = s\<lparr>cs_messages := ?ms @ [m]\<rparr>"
        using assms(2) None by (auto simp: conflating_send_def km keyed_append_def split: if_splits)
      show ?thesis
        using ok fresh map_of_keyed_append [of key m ?ms] False
        by (simp add: s' keyed_ok_def unread_of_def unread_send_def)
    qed
  qed
qed

text \<open>
  C31. A keyed latest-wins mailbox implements the abstract one: it starts empty with at most one
  message per key, an accepted send stores the message as the latest of its key and reports
  whether it replaced or evicted one, evicting the oldest unread key exactly when the capacity
  is used up by other keys, and a receive takes the latest message of the oldest unread key.
\<close>

theorem keyed_mailbox_refines:
  assumes ok: "keyed_ok key s"
  shows "(case conflating_send m s of
       (Accepted c, s') \<Rightarrow> keyed_ok key s' \<and>
         unread_send (cs_capacity s) (key m) m (unread_of key s) = (c, unread_of key s')
     | (Closed m', s') \<Rightarrow> m' = m \<and> s' = s) \<and>
    (case conflating_try_recv s of
       (Inr m', s') \<Rightarrow> keyed_ok key s' \<and> unread_recv (unread_of key s) = (Some m', unread_of key s')
     | (Inl _, s') \<Rightarrow> s' = s \<and> fst (unread_of key s) = [])"
proof
  obtain r s' where send: "conflating_send m s = (r, s')" by (cases "conflating_send m s")
  show "case conflating_send m s of
       (Accepted c, s') \<Rightarrow> keyed_ok key s' \<and>
         unread_send (cs_capacity s) (key m) m (unread_of key s) = (c, unread_of key s')
     | (Closed m', s') \<Rightarrow> m' = m \<and> s' = s"
  proof (cases r)
    case (Accepted c)
    with send keyed_send_effect [OF ok] show ?thesis by simp
  next
    case (Closed m')
    with send show ?thesis by (auto simp: conflating_send_def split: if_splits prod.splits)
  qed
  show "case conflating_try_recv s of
       (Inr m', s') \<Rightarrow> keyed_ok key s' \<and> unread_recv (unread_of key s) = (Some m', unread_of key s')
     | (Inl _, s') \<Rightarrow> s' = s \<and> fst (unread_of key s) = []"
  proof (cases "cs_messages s")
    case Nil
    then show ?thesis by (simp add: conflating_try_recv_def unread_of_def)
  next
    case (Cons a ms)
    with ok have "map_of (map (\<lambda>m. (key m, m)) ms) (key a) = None"
      by (simp add: keyed_ok_def map_of_eq_None_iff image_image)
    with Cons ok show ?thesis
      by (auto simp: conflating_try_recv_def keyed_ok_def unread_of_def unread_recv_def fun_eq_iff)
  qed
qed

definition sample_channel :: "(nat \<times> string) conflating_state" where
  "sample_channel = (conflating_channel 2 (Some (\<lambda>l r. fst l = fst r)))\<lparr>cs_messages := [(1, ''a''), (2, ''b'')]\<rparr>"

theorem keyed_mailbox_refines_witness:
  "keyed_ok fst sample_channel \<and>
   (\<exists>s'. conflating_send (3, ''c'') sample_channel = (Accepted 1, s') \<and> keyed_ok fst s' \<and>
      fst (unread_of fst s') = [2, 3])"
proof -
  have ok: "keyed_ok fst sample_channel" by (simp add: keyed_ok_def sample_channel_def conflating_channel_def)
  have u: "fst (unread_of fst sample_channel) = [1, 2]" "cs_capacity sample_channel = 2"
    by (simp_all add: unread_of_def sample_channel_def conflating_channel_def)
  obtain s' where s': "conflating_send (3, ''c'') sample_channel = (Accepted 1, s')"
    by (simp add: conflating_send_def sample_channel_def conflating_channel_def keyed_append_def)
  from keyed_mailbox_refines [OF ok, of "(3, ''c'')"] s'
  have r: "keyed_ok fst s'" "unread_send 2 3 (3, ''c'') (unread_of fst sample_channel) = (1, unread_of fst s')"
    using u by simp_all
  have "fst (unread_of fst s') = [2, 3]"
    using arg_cong [OF r(2), of "fst \<circ> snd"] u by (cases "unread_of fst sample_channel") (auto simp: unread_send_def)
  with ok s' r show ?thesis by auto
qed

section \<open>Accounting\<close>

text \<open>Everything the two ends of a conflating channel do, and the counts of what happened.\<close>

datatype 'm channel_op =
    OpSend 'm | OpSendUntil 'm instant instant instant | OpRecv | OpCloseExternal
  | OpReceiverDrop | OpClone | OpSenderDrop

record channel_counts =
  cc_accepted :: nat
  cc_conflated :: nat
  cc_received :: nat

fun channel_step ::
  "'m channel_op \<Rightarrow> 'm conflating_state \<times> channel_counts \<Rightarrow> 'm conflating_state \<times> channel_counts" where
  "channel_step (OpSend m) (s, n) =
     (case conflating_send m s of
        (Accepted c, s') \<Rightarrow>
          (s', n\<lparr>cc_accepted := cc_accepted n + 1, cc_conflated := cc_conflated n + c\<rparr>)
      | (_, s') \<Rightarrow> (s', n))"
| "channel_step (OpSendUntil m deadline now1 now2) (s, n) =
     (case conflating_send_until m deadline now1 now2 s of
        (TAccepted c, s') \<Rightarrow>
          (s', n\<lparr>cc_accepted := cc_accepted n + 1, cc_conflated := cc_conflated n + c\<rparr>)
      | (_, s') \<Rightarrow> (s', n))"
| "channel_step OpRecv (s, n) =
     (case conflating_try_recv s of
        (Inr _, s') \<Rightarrow> (s', n\<lparr>cc_received := cc_received n + 1\<rparr>)
      | (_, s') \<Rightarrow> (s', n))"
| "channel_step OpCloseExternal (s, n) = (close_external s, n)"
| "channel_step OpReceiverDrop (s, n) = (receiver_drop s, n)"
| "channel_step OpClone (s, n) = (sender_clone s, n)"
| "channel_step OpSenderDrop (s, n) = (sender_drop s, n)"

definition channel_bounded :: "'m conflating_state \<Rightarrow> bool" where
  "channel_bounded s \<longleftrightarrow>
     length (cs_messages s) \<le> (if cs_key_matches s = None then 1 else cs_capacity s)"

definition accounted :: "'m conflating_state \<times> channel_counts \<Rightarrow> bool" where
  "accounted p \<longleftrightarrow>
     (case p of (s, n) \<Rightarrow>
        channel_bounded s \<and> 0 < cs_capacity s \<and>
        cc_accepted n = cc_conflated n + cc_received n + length (cs_messages s))"

lemma send_accounted:
  assumes "conflating_send m s = (Accepted c, s')" and "accounted (s, n)"
  shows "accounted (s', n\<lparr>cc_accepted := cc_accepted n + 1, cc_conflated := cc_conflated n + c\<rparr>)"
  using assms position_Some [of "\<lambda>q. f q m" "cs_messages s" for f]
  by (cases "cs_messages s")
    (auto simp: conflating_send_def keyed_append_def latest_store_def accounted_def channel_bounded_def
      Let_def split: if_splits option.splits)

lemma step_accounted: "accounted p \<Longrightarrow> accounted (channel_step op p)"
proof (cases p)
  case (Pair s n)
  assume acc: "accounted p"
  show ?thesis
  proof (cases op)
    case (OpSend m)
    obtain r s' where send: "conflating_send m s = (r, s')" by (cases "conflating_send m s")
    show ?thesis
    proof (cases r)
      case (Accepted c)
      with send_accounted [of m s c s' n] acc send Pair OpSend show ?thesis by simp
    next
      case (Closed m')
      with send have "s' = s" by (auto simp: conflating_send_def split: if_splits prod.splits)
      with acc send Pair OpSend Closed show ?thesis by simp
    qed
  next
    case (OpSendUntil m d t1 t2)
    obtain r s' where send: "conflating_send m s = (r, s')" by (cases "conflating_send m s")
    show ?thesis
    proof (cases "cs_receiver_closed s \<or> \<not> cs_accepting_external s \<or> d \<le> max t1 t2")
      case True
      then have "conflating_send_until m d t1 t2 s \<in> {(TClosed m, s), (TTimeout m, s)}"
        by (auto simp: conflating_send_until_def Let_def)
      with acc Pair OpSendUntil show ?thesis by auto
    next
      case False
      then obtain c where "r = Accepted c"
        using send by (auto simp: conflating_send_def split: prod.splits)
      moreover from this False send have "conflating_send_until m d t1 t2 s = (TAccepted c, s')"
        by (auto simp: conflating_send_until_def conflating_send_def keyed_append_def latest_store_def Let_def
            split: option.splits)
      ultimately show ?thesis using send_accounted [of m s c s' n] acc send Pair OpSendUntil by simp
    qed
  next
    case OpRecv
    with acc Pair show ?thesis
      by (cases "cs_messages s") (auto simp: conflating_try_recv_def accounted_def channel_bounded_def)
  qed (use acc Pair in \<open>auto simp: accounted_def channel_bounded_def close_external_def
      receiver_drop_def sender_clone_def sender_drop_def\<close>)
qed

text \<open>
  Over any sequence of operations on a fresh conflating channel, every accepted message is
  accounted for: it was received, is still unread, or was replaced or evicted by a newer one
  and counted as conflated, and the unread messages never exceed the capacity.
\<close>

theorem conflating_accounting:
  assumes "0 < capacity"
    and "(s, n) = fold channel_step ops (conflating_channel capacity matches,
      \<lparr>cc_accepted = 0, cc_conflated = 0, cc_received = 0\<rparr>)"
  shows "cc_accepted n = cc_conflated n + cc_received n + length (cs_messages s) \<and>
    length (cs_messages s) \<le> (if cs_key_matches s = None then 1 else cs_capacity s)"
proof -
  have "accounted (fold channel_step ops p)" if "accounted p" for p
    using that by (induction ops arbitrary: p) (simp_all add: step_accounted del: split_paired_All)
  moreover have "accounted (conflating_channel capacity matches, \<lparr>cc_accepted = 0, cc_conflated = 0, cc_received = 0\<rparr>)"
    using assms(1) by (simp add: accounted_def channel_bounded_def conflating_channel_def)
  ultimately have "accounted (s, n)" using assms(2) by simp
  then show ?thesis by (simp add: accounted_def channel_bounded_def)
qed

theorem conflating_accounting_witness:
  "\<exists>s n. fold channel_step [OpSend (5::nat), OpSend 6, OpRecv, OpSend 7]
       (conflating_channel 1 None, \<lparr>cc_accepted = 0, cc_conflated = 0, cc_received = 0\<rparr>) = (s, n) \<and>
     cc_accepted n = cc_conflated n + cc_received n + length (cs_messages s) \<and> cc_accepted n = 3"
proof -
  let ?p = "fold channel_step [OpSend (5::nat), OpSend 6, OpRecv, OpSend 7]
       (conflating_channel 1 None, \<lparr>cc_accepted = 0, cc_conflated = 0, cc_received = 0\<rparr>)"
  have "cc_accepted (snd ?p) = 3"
    by (simp add: conflating_send_def conflating_channel_def latest_store_def conflating_try_recv_def)
  with conflating_accounting [of 1 "fst ?p" "snd ?p" "[OpSend (5::nat), OpSend 6, OpRecv, OpSend 7]" None]
  show ?thesis by (intro exI [of _ "fst ?p"] exI [of _ "snd ?p"]) simp
qed

end
