(* ===== verification/Timers.thy ===== *)
theory Timers
  imports Mailbox
begin

text \<open>
  Keyed timers of a handler actor (\<open>actor/context.rs\<close>): the timer table with its one timer per
  key, the wake the receive loop sleeps on, firing, and the arithmetic of interval deadlines.

  The readings of the clock are arguments, in the order in which the code takes them.  The
  largest instant the platform can represent is the argument \<open>imax\<close>; adding past it is a
  panic, and an operation that panics is \<^const>\<open>None\<close>.  Timer identifiers are 64-bit words.
\<close>

section \<open>Deadlines\<close>

definition FAR_FUTURE :: duration where
  "FAR_FUTURE = from_secs (86400 * 365 * 30)"

definition checked_add :: "instant \<Rightarrow> instant \<Rightarrow> duration \<Rightarrow> instant option" where
  "checked_add imax i d = (if i + d \<le> imax then Some (i + d) else None)"

definition deadline_after :: "instant \<Rightarrow> instant \<Rightarrow> duration \<Rightarrow> instant option" where
  "deadline_after imax now delay =
     (case checked_add imax now delay of
        Some deadline \<Rightarrow> Some deadline
      | None \<Rightarrow> checked_add imax now FAR_FUTURE)"

definition u128_saturating_mul :: "nat \<Rightarrow> nat \<Rightarrow> nat" where
  "u128_saturating_mul a b = min (a * b) (2 ^ 128 - 1)"

definition duration_new :: "u64 \<Rightarrow> nat \<Rightarrow> duration" where
  "duration_new seconds nanoseconds = from_secs seconds + nanoseconds"

definition interval_advance :: "duration \<Rightarrow> duration \<Rightarrow> duration" where
  "interval_advance elapsed period =
     (let periods = elapsed div period + 1;
          advance = u128_saturating_mul period periods;
          seconds = (if advance div 1000000000 \<le> u64_max then advance div 1000000000 else u64_max);
          nanoseconds = advance mod 1000000000
      in duration_new seconds nanoseconds)"

definition next_interval_deadline ::
    "instant \<Rightarrow> instant \<Rightarrow> instant \<Rightarrow> instant \<Rightarrow> duration \<Rightarrow> instant option" where
  "next_interval_deadline imax now1 now2 deadline period =
     (let elapsed = duration_since now1 deadline;
          advance = interval_advance elapsed period
      in case checked_add imax deadline advance of
           Some next \<Rightarrow> Some next
         | None \<Rightarrow> deadline_after imax now2 FAR_FUTURE)"

section \<open>The timer table\<close>

type_synonym timer_key = string

record 'm timer_repeat =
  tr_period :: duration
  tr_clone_message :: "'m \<Rightarrow> 'm"

record 'm timer_entry =
  te_id :: "64 word"
  te_key :: timer_key
  te_deadline :: instant
  te_message :: 'm
  te_repeat :: "'m timer_repeat option"

record timer_wake =
  tw_id :: "64 word"
  tw_deadline :: instant

record 'm timer_table =
  tt_entries :: "'m timer_entry list"
  tt_next_id :: "64 word"

definition timer_table_default :: "'m timer_table" where
  "timer_table_default = \<lparr>tt_entries = [], tt_next_id = 1\<rparr>"

definition timer_next_id :: "'m timer_table \<Rightarrow> 64 word \<times> 'm timer_table" where
  "timer_next_id t = (tt_next_id t, t\<lparr>tt_next_id := max (tt_next_id t + 1) 1\<rparr>)"

text \<open>\<open>Vec::swap_remove\<close> moves the last element into the hole; the index is in range.\<close>

definition swap_remove :: "nat \<Rightarrow> 'a list \<Rightarrow> 'a list" where
  "swap_remove i xs = butlast (xs[i := last xs])"

definition timer_clear :: "timer_key \<Rightarrow> 'm timer_table \<Rightarrow> 'm timer_table" where
  "timer_clear key t =
     (case position (\<lambda>e. te_key e = key) (tt_entries t) of
        Some index \<Rightarrow> t\<lparr>tt_entries := swap_remove index (tt_entries t)\<rparr>
      | None \<Rightarrow> t)"

definition timer_push ::
    "timer_key \<Rightarrow> instant \<times> 'm \<times> 'm timer_repeat option \<Rightarrow> 'm timer_table \<Rightarrow> 'm timer_table" where
  "timer_push key v t =
     (let (deadline, message, repeat) = v;
          (i, t') = timer_next_id t
      in t'\<lparr>tt_entries := tt_entries t' @
             [\<lparr>te_id = i, te_key = key, te_deadline = deadline, te_message = message,
               te_repeat = repeat\<rparr>]\<rparr>)"

definition timer_arm ::
    "timer_key \<Rightarrow> instant \<times> 'm \<times> 'm timer_repeat option \<Rightarrow> 'm timer_table \<Rightarrow> 'm timer_table" where
  "timer_arm key v t = timer_push key v (timer_clear key t)"

definition insert_entry ::
    "instant \<Rightarrow> instant \<Rightarrow> timer_key \<Rightarrow> 'm \<Rightarrow> duration \<Rightarrow> 'm timer_repeat option \<Rightarrow>
     'm timer_table \<Rightarrow> 'm timer_table option" where
  "insert_entry imax now key message delay repeat t =
     map_option (\<lambda>deadline. timer_arm key (deadline, message, repeat) t)
       (deadline_after imax now delay)"

definition timer_insert ::
    "instant \<Rightarrow> instant \<Rightarrow> timer_key \<Rightarrow> 'm \<Rightarrow> duration \<Rightarrow> 'm timer_table \<Rightarrow> 'm timer_table option" where
  "timer_insert imax now key message delay t = insert_entry imax now key message delay None t"

definition insert_interval ::
    "instant \<Rightarrow> instant \<Rightarrow> timer_key \<Rightarrow> 'm \<Rightarrow> duration \<Rightarrow> ('m \<Rightarrow> 'm) \<Rightarrow>
     'm timer_table \<Rightarrow> 'm timer_table option" where
  "insert_interval imax now key message period clone_message t =
     (if period = 0 then Some (timer_clear key t)
      else insert_entry imax now key message period
             (Some \<lparr>tr_period = period, tr_clone_message = clone_message\<rparr>) t)"

text \<open>\<open>min_by_key\<close> returns the first of several minimal elements.\<close>

fun earliest_entry :: "'m timer_entry list \<Rightarrow> 'm timer_entry option" where
  "earliest_entry [] = None"
| "earliest_entry (e # es) =
     (case earliest_entry es of
        None \<Rightarrow> Some e
      | Some e' \<Rightarrow> if te_deadline e' < te_deadline e then Some e' else Some e)"

definition wake_of :: "'m timer_entry \<Rightarrow> timer_wake" where
  "wake_of e = \<lparr>tw_id = te_id e, tw_deadline = te_deadline e\<rparr>"

definition next_timer_wake :: "'m timer_table \<Rightarrow> timer_wake option" where
  "next_timer_wake t = map_option wake_of (earliest_entry (tt_entries t))"

definition take_fired ::
    "instant \<Rightarrow> instant \<Rightarrow> instant \<Rightarrow> instant \<Rightarrow> timer_wake \<Rightarrow> 'm timer_table \<Rightarrow>
     ('m option \<times> 'm timer_table) option" where
  "take_fired imax now now1 now2 wake t =
     (case position (\<lambda>e. te_id e = tw_id wake \<and> te_deadline e = tw_deadline wake) (tt_entries t) of
        None \<Rightarrow> Some (None, t)
      | Some index \<Rightarrow>
          (let entry = tt_entries t ! index in
           if now < te_deadline entry then Some (None, t)
           else
             (let t' = t\<lparr>tt_entries := swap_remove index (tt_entries t)\<rparr> in
              case te_repeat entry of
                None \<Rightarrow> Some (Some (te_message entry), t')
              | Some repeat \<Rightarrow>
                  (case next_interval_deadline imax now1 now2 (te_deadline entry) (tr_period repeat) of
                     None \<Rightarrow> None
                   | Some deadline \<Rightarrow>
                       Some (Some (te_message entry),
                             timer_push (te_key entry)
                               (deadline, tr_clone_message repeat (te_message entry), Some repeat)
                               t')))))"

section \<open>Arithmetic of deadlines\<close>

lemma deadline_after_total: "now + FAR_FUTURE \<le> imax \<Longrightarrow> deadline_after imax now d \<noteq> None"
  by (simp add: deadline_after_def checked_add_def)

lemma deadline_after_le: "deadline_after imax now d = Some x \<Longrightarrow> now \<le> x \<and> x \<le> imax"
  by (auto simp: deadline_after_def checked_add_def split: if_splits)

lemma div_add_one_bounds:
  assumes "0 < (p :: nat)"
  shows "e < p * (e div p + 1)" "p * (e div p + 1) \<le> e + p"
  using assms dividend_less_times_div [of p e] times_div_less_eq_dividend [of p e] by auto

text \<open>No intermediate result of \<^const>\<open>interval_advance\<close> saturates while the sum fits a duration.\<close>

lemma interval_advance_eq:
  assumes "0 < period" "elapsed + period \<le> duration_max"
  shows "interval_advance elapsed period = period * (elapsed div period + 1)"
proof -
  let ?a = "period * (elapsed div period + 1)"
  have le: "?a \<le> duration_max" by (rule order_trans [OF div_add_one_bounds(2) [OF assms(1)] assms(2)])
  then have "u128_saturating_mul period (elapsed div period + 1) = ?a"
    by (simp add: u128_saturating_mul_def duration_max_def)
  moreover from le have "?a div 1000000000 \<le> u64_max"
    by (simp add: duration_max_def u64_max_def)
  ultimately show ?thesis
    by (simp add: interval_advance_def duration_new_def from_secs_def Let_def)
qed

lemma interval_advance_bounds:
  assumes "0 < period" "elapsed + period \<le> duration_max"
  shows "elapsed < interval_advance elapsed period"
    and "interval_advance elapsed period \<le> elapsed + period"
    and "period dvd interval_advance elapsed period"
  using div_add_one_bounds [OF assms(1), of elapsed] by (simp_all add: interval_advance_eq [OF assms])

section \<open>The table as a map from keys to timers\<close>

text \<open>
  The contract of a keyed store with exact replacement: what a key holds after arming and
  disarming keys.  Clients need no more than these laws to know that the last operation on a
  key decides what it holds.
\<close>

locale keyed_store =
  fixes ok :: "'t \<Rightarrow> bool"
    and lookup :: "'t \<Rightarrow> 'k \<Rightarrow> 'v option"
    and arm :: "'k \<Rightarrow> 'v \<Rightarrow> 't \<Rightarrow> 't"
    and disarm :: "'k \<Rightarrow> 't \<Rightarrow> 't"
  assumes ok_arm: "ok t \<Longrightarrow> ok (arm k v t)"
    and ok_disarm: "ok t \<Longrightarrow> ok (disarm k t)"
    and lookup_arm: "ok t \<Longrightarrow> lookup (arm k v t) = (lookup t)(k \<mapsto> v)"
    and lookup_disarm: "ok t \<Longrightarrow> lookup (disarm k t) = (lookup t)(k := None)"
begin

fun store_step :: "'k \<times> 'v option \<Rightarrow> 't \<Rightarrow> 't" where
  "store_step (k, Some v) t = arm k v t"
| "store_step (k, None) t = disarm k t"

lemma ok_steps: "ok t \<Longrightarrow> ok (fold store_step ops t)"
proof (induction ops arbitrary: t)
  case (Cons op ops)
  then show ?case by (cases "(op, t)" rule: store_step.cases) (auto simp: ok_arm ok_disarm)
qed simp

lemma lookup_step: "ok t \<Longrightarrow> lookup (store_step op t) = (lookup t)(fst op := snd op)"
  by (cases "(op, t)" rule: store_step.cases) (auto simp: lookup_arm lookup_disarm)

lemma ok_step: "ok t \<Longrightarrow> ok (store_step op t)"
  by (cases "(op, t)" rule: store_step.cases) (auto simp: ok_arm ok_disarm)

text \<open>The last operation on a key decides; a key that no operation names keeps what it held.\<close>

lemma lookup_steps:
  "ok t \<Longrightarrow> lookup (fold store_step ops t) k
     = (case map_of (rev ops) k of None \<Rightarrow> lookup t k | Some v \<Rightarrow> v)"
proof (induction ops arbitrary: t)
  case (Cons op ops)
  then show ?case
    by (cases op) (auto simp: ok_step lookup_step map_add_def split: option.splits)
qed simp

end

definition timer_lookup ::
    "'m timer_table \<Rightarrow> timer_key \<Rightarrow> (instant \<times> 'm \<times> 'm timer_repeat option) option" where
  "timer_lookup t key =
     map_option (\<lambda>e. (te_deadline e, te_message e, te_repeat e))
       (find (\<lambda>e. te_key e = key) (tt_entries t))"

definition one_per_key :: "'m timer_table \<Rightarrow> bool" where
  "one_per_key t \<longleftrightarrow> distinct (map te_key (tt_entries t))"

lemma mset_swap_remove:
  assumes "i < length xs"
  shows "mset xs = add_mset (xs ! i) (mset (swap_remove i xs))"
proof -
  have ne: "xs[i := last xs] \<noteq> []" and [simp]: "xs \<noteq> []" using assms by auto
  have "last (xs[i := last xs]) = last xs"
    using assms by (cases "i = length xs - 1") (auto simp: last_conv_nth nth_list_update)
  with append_butlast_last_id [OF ne] have "mset (xs[i := last xs]) = add_mset (last xs) (mset (swap_remove i xs))"
    by (metis swap_remove_def add_mset_add_single mset.simps mset_append)
  moreover have "add_mset (xs ! i) (mset (xs[i := last xs])) = add_mset (last xs) (mset xs)"
    using assms by (simp add: mset_update)
  ultimately show ?thesis by (metis add_mset_commute add_mset_add_mset_same_iff)
qed

lemma set_swap_remove: "i < length xs \<Longrightarrow> set xs = insert (xs ! i) (set (swap_remove i xs))"
  by (metis mset_swap_remove set_mset_mset set_mset_add_mset_insert)

lemma distinct_swap_remove:
  assumes "i < length xs" "distinct (map f xs)"
  shows "distinct (map f (swap_remove i xs))" "f (xs ! i) \<notin> f ` set (swap_remove i xs)"
proof -
  have "mset (map f xs) = mset (map f (xs ! i # swap_remove i xs))"
    by (simp add: mset_swap_remove [OF assms(1)])
  from mset_eq_imp_distinct_iff [OF this] assms(2)
  show "distinct (map f (swap_remove i xs))" "f (xs ! i) \<notin> f ` set (swap_remove i xs)" by auto
qed

lemma find_distinct:
  "distinct (map f xs) \<Longrightarrow> find (\<lambda>x. f x = k) xs = Some x \<longleftrightarrow> x \<in> set xs \<and> f x = k"
  by (induction xs) (auto simp: image_iff)

lemma find_same_members:
  assumes "distinct (map f xs)" "distinct (map f ys)"
    and "{x \<in> set xs. f x = k} = {y \<in> set ys. f y = k}"
  shows "find (\<lambda>x. f x = k) xs = find (\<lambda>x. f x = k) ys"
proof -
  have "find (\<lambda>x. f x = k) xs = Some x \<longleftrightarrow> find (\<lambda>x. f x = k) ys = Some x" for x
    using assms by (auto simp: find_distinct)
  then show ?thesis by (metis not_None_eq)
qed

lemma find_snoc:
  "find P (xs @ [x]) = (case find P xs of None \<Rightarrow> if P x then Some x else None | Some y \<Rightarrow> Some y)"
  by (induction xs) auto

text \<open>
  Removing by position takes out exactly the entry of the key.  Entries are unordered: only
  their set matters to a table with one entry per key.
\<close>

lemma clear_entries:
  assumes "one_per_key t"
  shows "set (tt_entries (timer_clear key t)) = {e \<in> set (tt_entries t). te_key e \<noteq> key}"
    and "one_per_key (timer_clear key t)"
proof -
  let ?es = "tt_entries t"
  have "set (tt_entries (timer_clear key t)) = {e \<in> set ?es. te_key e \<noteq> key} \<and> one_per_key (timer_clear key t)"
  proof (cases "position (\<lambda>e. te_key e = key) ?es")
    case None
    moreover from None have "timer_clear key t = t" by (simp add: timer_clear_def)
    ultimately show ?thesis using assms by (auto simp: position_None)
  next
    case (Some i)
    note pos = position_Some [OF Some]
    then have i: "i < length ?es" by simp
    show ?thesis
      using assms distinct_swap_remove [OF i, of te_key] set_swap_remove [OF i] pos Some
      by (auto simp: timer_clear_def one_per_key_def image_iff)
  qed
  then show "set (tt_entries (timer_clear key t)) = {e \<in> set ?es. te_key e \<noteq> key}"
    "one_per_key (timer_clear key t)" by auto
qed

lemma timer_lookup_Some:
  "one_per_key t \<Longrightarrow> timer_lookup t key = Some v \<longleftrightarrow>
   (\<exists>e \<in> set (tt_entries t). te_key e = key \<and> v = (te_deadline e, te_message e, te_repeat e))"
  by (auto simp: timer_lookup_def one_per_key_def find_distinct)

lemma clear_next_id [simp]: "tt_next_id (timer_clear key t) = tt_next_id t"
  by (simp add: timer_clear_def split: option.split)

lemma push_entries:
  "tt_entries (timer_push key (d, m, r) t)
     = tt_entries t @ [\<lparr>te_id = tt_next_id t, te_key = key, te_deadline = d, te_message = m, te_repeat = r\<rparr>]"
  "tt_next_id (timer_push key (d, m, r) t) = max (tt_next_id t + 1) 1"
  by (simp_all add: timer_push_def timer_next_id_def Let_def)

lemma push_one_per_key:
  "one_per_key t \<Longrightarrow> key \<notin> te_key ` set (tt_entries t) \<Longrightarrow> one_per_key (timer_push key v t)"
  by (cases v) (simp add: one_per_key_def push_entries)

lemma lookup_cleared:
  assumes "one_per_key t"
  shows "timer_lookup (timer_clear key t) = (timer_lookup t)(key := None)"
proof
  fix k
  note cleared = clear_entries [OF assms, of key]
  show "timer_lookup (timer_clear key t) k = ((timer_lookup t)(key := None)) k"
  proof (cases "k = key")
    case True
    then show ?thesis using cleared(1) by (simp add: timer_lookup_def find_None_iff)
  next
    case False
    then have "find (\<lambda>e. te_key e = k) (tt_entries (timer_clear key t)) = find (\<lambda>e. te_key e = k) (tt_entries t)"
      using assms cleared by (intro find_same_members) (auto simp: one_per_key_def)
    with False show ?thesis by (simp add: timer_lookup_def)
  qed
qed

lemma lookup_pushed:
  assumes "key \<notin> te_key ` set (tt_entries t)"
  shows "timer_lookup (timer_push key v t) = (timer_lookup t)(key \<mapsto> v)"
proof -
  have "find (\<lambda>e. te_key e = key) (tt_entries t) = None" using assms by (auto simp: find_None_iff)
  then show ?thesis
    by (cases v) (auto simp: fun_eq_iff timer_lookup_def push_entries find_snoc split: option.split)
qed

interpretation timer: keyed_store one_per_key timer_lookup timer_arm timer_clear
proof
  fix t :: "'m timer_table" and key and v :: "instant \<times> 'm \<times> 'm timer_repeat option"
  assume ok: "one_per_key t"
  note cleared = clear_entries [OF ok, of key]
  show "one_per_key (timer_clear key t)" by (rule cleared)
  show armed: "one_per_key (timer_arm key v t)"
    unfolding timer_arm_def by (rule push_one_per_key) (auto simp: cleared)
  show "timer_lookup (timer_clear key t) = (timer_lookup t)(key := None)"
    by (rule lookup_cleared [OF ok])
  with lookup_pushed [of key "timer_clear key t" v] cleared(1)
  show "timer_lookup (timer_arm key v t) = (timer_lookup t)(key \<mapsto> v)"
    by (auto simp: timer_arm_def)
qed

section \<open>Identifiers\<close>

text \<open>
  A wake names the identifier it was read for.  Identifiers grow, so that a retracted one never
  comes back, until the 64-bit counter wraps; \<open>ids_fresh n\<close> holds while at least \<open>n\<close> further
  timers can be armed before that.
\<close>

definition ids_fresh :: "nat \<Rightarrow> 'm timer_table \<Rightarrow> bool" where
  "ids_fresh n t \<longleftrightarrow> unat (tt_next_id t) + n < 2 ^ 64 \<and> (\<forall>e \<in> set (tt_entries t). te_id e < tt_next_id t)
     \<and> distinct (map te_id (tt_entries t))"

definition id_dead :: "64 word \<Rightarrow> 'm timer_table \<Rightarrow> bool" where
  "id_dead i t \<longleftrightarrow> i < tt_next_id t \<and> i \<notin> te_id ` set (tt_entries t)"

lemma next_id_step:
  assumes "unat (i :: 64 word) + Suc n < 2 ^ 64"
  shows "unat (max (i + 1) 1) = Suc (unat i)" "i < max (i + 1) 1"
proof -
  have u: "unat (i + 1) = Suc (unat i)" using assms by (simp add: unat_word_ariths)
  then have "1 \<le> i + 1" by (simp add: word_le_nat_alt)
  then have m: "max (i + 1) 1 = i + 1" by (rule max_absorb1)
  show "unat (max (i + 1) 1) = Suc (unat i)" "i < max (i + 1) 1"
    by (simp_all only: m u word_less_nat_alt lessI)
qed

lemma ids_fresh_weaken: "ids_fresh (Suc n) t \<Longrightarrow> ids_fresh n t"
  by (simp add: ids_fresh_def)

lemma push_ids:
  assumes "ids_fresh (Suc n) t"
  shows "ids_fresh n (timer_push key v t)" "id_dead i t \<Longrightarrow> id_dead i (timer_push key v t)"
proof -
  from assms have "unat (tt_next_id t) + Suc n < 2 ^ 64" by (simp add: ids_fresh_def)
  from next_id_step [OF this] assms
  show "ids_fresh n (timer_push key v t)" "id_dead i t \<Longrightarrow> id_dead i (timer_push key v t)"
    by (cases v; auto simp: ids_fresh_def id_dead_def push_entries; fail)+
qed

lemma remove_ids:
  assumes "i < length (tt_entries t)"
  shows "ids_fresh n t \<Longrightarrow> ids_fresh n (t\<lparr>tt_entries := swap_remove i (tt_entries t)\<rparr>)"
    and "id_dead j t \<Longrightarrow> id_dead j (t\<lparr>tt_entries := swap_remove i (tt_entries t)\<rparr>)"
    and "ids_fresh n t \<Longrightarrow> id_dead (te_id (tt_entries t ! i)) (t\<lparr>tt_entries := swap_remove i (tt_entries t)\<rparr>)"
  using set_swap_remove [OF assms] distinct_swap_remove [OF assms, of te_id]
  by (auto simp: ids_fresh_def id_dead_def)

lemma clear_ids:
  "ids_fresh n t \<Longrightarrow> ids_fresh n (timer_clear key t)" "id_dead i t \<Longrightarrow> id_dead i (timer_clear key t)"
  by (auto simp: timer_clear_def remove_ids dest!: position_Some split: option.split)

text \<open>What an actor and its receive loop do to the table.\<close>

datatype 'm timer_op =
    SetTimeout instant timer_key 'm duration
  | SetInterval instant timer_key 'm duration "'m \<Rightarrow> 'm"
  | ClearTimer timer_key
  | Fire instant instant instant timer_wake

fun timer_step :: "instant \<Rightarrow> 'm timer_op \<Rightarrow> 'm timer_table \<Rightarrow> 'm timer_table option" where
  "timer_step imax (SetTimeout now key m d) t = timer_insert imax now key m d t"
| "timer_step imax (SetInterval now key m p c) t = insert_interval imax now key m p c t"
| "timer_step imax (ClearTimer key) t = Some (timer_clear key t)"
| "timer_step imax (Fire now now1 now2 w) t = map_option snd (take_fired imax now now1 now2 w t)"

fun timer_run :: "instant \<Rightarrow> 'm timer_op list \<Rightarrow> 'm timer_table \<Rightarrow> 'm timer_table option" where
  "timer_run imax [] t = Some t"
| "timer_run imax (op # ops) t = Option.bind (timer_step imax op t) (timer_run imax ops)"

fun retracts :: "timer_key \<Rightarrow> 'm timer_op \<Rightarrow> bool" where
  "retracts key (SetTimeout _ k _ _) = (k = key)"
| "retracts key (SetInterval _ k _ _ _) = (k = key)"
| "retracts key (ClearTimer k) = (k = key)"
| "retracts key (Fire _ _ _ _) = False"

lemma arm_ids:
  assumes "ids_fresh (Suc n) t"
  shows "ids_fresh n (timer_arm key v t)" "id_dead i t \<Longrightarrow> id_dead i (timer_arm key v t)"
  using push_ids [OF clear_ids(1) [OF assms]] clear_ids(2) [of i t key] by (simp_all add: timer_arm_def)

lemma fired_cases:
  assumes "take_fired imax now now1 now2 w t = Some (x, t')"
  obtains (none) "x = None" "t' = t"
  | (once) i where "i < length (tt_entries t)" "wake_of (tt_entries t ! i) = w"
      "te_deadline (tt_entries t ! i) \<le> now" "te_repeat (tt_entries t ! i) = None"
      "x = Some (te_message (tt_entries t ! i))" "t' = t\<lparr>tt_entries := swap_remove i (tt_entries t)\<rparr>"
  | (again) i d r where "i < length (tt_entries t)" "wake_of (tt_entries t ! i) = w"
      "te_deadline (tt_entries t ! i) \<le> now" "te_repeat (tt_entries t ! i) = Some r"
      "next_interval_deadline imax now1 now2 (te_deadline (tt_entries t ! i)) (tr_period r) = Some d"
      "x = Some (te_message (tt_entries t ! i))"
      "t' = timer_push (te_key (tt_entries t ! i))
              (d, tr_clone_message r (te_message (tt_entries t ! i)), Some r)
              (t\<lparr>tt_entries := swap_remove i (tt_entries t)\<rparr>)"
proof (cases "position (\<lambda>e. te_id e = tw_id w \<and> te_deadline e = tw_deadline w) (tt_entries t)")
  case None
  with assms none show ?thesis by (simp add: take_fired_def)
next
  case (Some i)
  from position_Some [OF Some] have i: "i < length (tt_entries t)" "wake_of (tt_entries t ! i) = w"
    by (auto simp: wake_of_def)
  from assms Some none once [OF i] again [OF i] show ?thesis
    by (auto simp: take_fired_def Let_def not_less split: if_splits option.splits)
qed

lemma timer_step_ids:
  assumes "timer_step imax op t = Some t'" "ids_fresh (Suc n) t"
  shows "ids_fresh n t'" "id_dead i t \<Longrightarrow> id_dead i t'"
proof -
  have "ids_fresh n t' \<and> (id_dead i t \<longrightarrow> id_dead i t')"
  proof (cases op)
    case (Fire now now1 now2 w)
    with assms(1) obtain x where "take_fired imax now now1 now2 w t = Some (x, t')" by auto
    then show ?thesis
      by (cases rule: fired_cases)
        (use assms(2) in \<open>auto simp: remove_ids ids_fresh_weaken intro: push_ids remove_ids\<close>)
  qed (use assms in \<open>auto simp: timer_insert_def insert_interval_def insert_entry_def arm_ids
         clear_ids ids_fresh_weaken split: if_splits\<close>)
  then show "ids_fresh n t'" "id_dead i t \<Longrightarrow> id_dead i t'" by auto
qed

lemma timer_run_ids:
  "timer_run imax ops t = Some t' \<Longrightarrow> ids_fresh (length ops + n) t \<Longrightarrow>
   ids_fresh n t' \<and> (id_dead i t \<longrightarrow> id_dead i t')"
proof (induction ops arbitrary: t)
  case (Cons op ops)
  from Cons.prems(1) obtain t1 where t1: "timer_step imax op t = Some t1" "timer_run imax ops t1 = Some t'"
    by (auto simp: Option.bind_eq_Some_conv)
  from Cons.prems(2) have "ids_fresh (Suc (length ops + n)) t" by simp
  from timer_step_ids [OF t1(1) this] Cons.IH [OF t1(2)] show ?case by auto
qed simp

section \<open>Guarantees\<close>

lemma ids_fresh_default: "n < 2 ^ 64 - 1 \<Longrightarrow> ids_fresh n timer_table_default"
  by (simp add: ids_fresh_def timer_table_default_def)

lemma dead_not_fired: "id_dead (tw_id w) t \<Longrightarrow> take_fired imax now now1 now2 w t = Some (None, t)"
proof -
  assume "id_dead (tw_id w) t"
  then have "position (\<lambda>e. te_id e = tw_id w \<and> te_deadline e = tw_deadline w) (tt_entries t) = None"
    by (auto simp: id_dead_def position_None image_iff)
  then show ?thesis by (simp add: take_fired_def)
qed

lemma position_unique:
  "x \<in> set xs \<Longrightarrow> P x \<Longrightarrow> (\<And>y. y \<in> set xs \<Longrightarrow> P y \<Longrightarrow> y = x) \<Longrightarrow>
   \<exists>i < length xs. position P xs = Some i \<and> xs ! i = x"
proof (induction xs)
  case (Cons y ys)
  show ?case
  proof (cases "P y")
    case True
    with Cons.prems(3) [of y] show ?thesis by simp
  next
    case False
    with Cons.prems(1,2) have "x \<in> set ys" by auto
    from Cons.IH [OF this Cons.prems(2)] Cons.prems(3) obtain i where
      "i < length ys" "position P ys = Some i" "ys ! i = x" by auto
    with False show ?thesis by (intro exI [of _ "Suc i"]) simp
  qed
qed simp

lemma distinct_key_unique: "distinct (map f xs) \<Longrightarrow> x \<in> set xs \<Longrightarrow> y \<in> set xs \<Longrightarrow> f y = f x \<Longrightarrow> y = x"
  by (auto simp: distinct_map inj_on_def)

lemma clear_kills:
  assumes "one_per_key t" "ids_fresh n t" "e \<in> set (tt_entries t)"
  shows "id_dead (te_id e) (timer_clear (te_key e) t)"
proof -
  from position_unique [OF assms(3), of "\<lambda>y. te_key y = te_key e"] assms(1)
    distinct_key_unique [OF _ assms(3), of te_key]
  obtain i where "i < length (tt_entries t)" "tt_entries t ! i = e"
    "position (\<lambda>y. te_key y = te_key e) (tt_entries t) = Some i"
    unfolding one_per_key_def by blast
  with remove_ids(3) [of i t n] assms(2) show ?thesis by (simp add: timer_clear_def)
qed

lemma retract_kills:
  assumes "one_per_key t" "ids_fresh (Suc n) t" "e \<in> set (tt_entries t)"
    and "retracts (te_key e) op" "timer_step imax op t = Some t'"
  shows "id_dead (te_id e) t'"
proof -
  note dead = clear_kills [OF assms(1-3)]
  then have "id_dead (te_id e) (timer_arm (te_key e) v t)" for v
    unfolding timer_arm_def using clear_ids(1) [OF assms(2)] push_ids(2) by blast
  with dead assms(4, 5) show ?thesis
    by (cases op) (auto simp: timer_insert_def insert_interval_def insert_entry_def split: if_splits)
qed

lemma timer_step_one_per_key:
  assumes "one_per_key t" "timer_step imax op t = Some t'"
  shows "one_per_key t'"
proof (cases op)
  case (Fire now now1 now2 w)
  with assms(2) obtain x where fired: "take_fired imax now now1 now2 w t = Some (x, t')" by auto
  have removed: "one_per_key (t\<lparr>tt_entries := swap_remove i (tt_entries t)\<rparr>)
      \<and> te_key (tt_entries t ! i) \<notin> te_key ` set (swap_remove i (tt_entries t))"
    if "i < length (tt_entries t)" for i
    using distinct_swap_remove [OF that, of te_key] assms(1) by (simp add: one_per_key_def)
  from fired show ?thesis
    by (cases rule: fired_cases) (use assms(1) removed in \<open>simp_all add: push_one_per_key\<close>)
qed (use assms in \<open>auto simp: timer_insert_def insert_interval_def insert_entry_def timer.ok_arm
       timer.ok_disarm split: if_splits\<close>)

lemma timer_run_one_per_key: "one_per_key t \<Longrightarrow> timer_run imax ops t = Some t' \<Longrightarrow> one_per_key t'"
  by (induction ops arbitrary: t) (auto simp: Option.bind_eq_Some_conv intro: timer_step_one_per_key)

lemma timer_run_append:
  "timer_run imax (ops @ ops') t = Option.bind (timer_run imax ops t) (timer_run imax ops')"
  by (induction ops arbitrary: t) (auto split: Option.bind_split)

text \<open>
  C40. Retraction of a timer is exact: once the actor has cleared a key or armed it again, the wake
  that the loop had read for the old timer never fires, whatever is done to the table afterwards
  and however late the clock is, provided fewer than 2^64 - 1 operations are made on the table.\<close>

theorem retracted_timer_never_fires:
  assumes "timer_run imax ops timer_table_default = Some t"
    and "e \<in> set (tt_entries t)"
    and "retracts (te_key e) op"
    and "timer_run imax (op # ops') t = Some t'"
    and "length ops + 1 + length ops' < 2 ^ 64 - 1"
  shows "take_fired imax now now1 now2 (wake_of e) t' = Some (None, t')"
proof -
  from assms(4) obtain t1 where t1: "timer_step imax op t = Some t1" "timer_run imax ops' t1 = Some t'"
    by (auto simp: Option.bind_eq_Some_conv)
  have "ids_fresh (length ops + (1 + length ops')) (timer_table_default :: 'a timer_table)"
    by (rule ids_fresh_default) (use assms(5) in simp)
  with timer_run_ids [OF assms(1)] have t: "ids_fresh (Suc (length ops' + 0)) t" by simp
  have "one_per_key t"
    by (rule timer_run_one_per_key [OF _ assms(1)]) (simp add: one_per_key_def timer_table_default_def)
  from retract_kills [OF this t assms(2,3) t1(1)] timer_run_ids [OF t1(2) timer_step_ids(1) [OF t1(1) t]]
  show ?thesis by (auto simp: wake_of_def intro: dead_not_fired)
qed

lemmas timer_run_eval =
  timer_insert_def insert_entry_def deadline_after_def checked_add_def timer_arm_def timer_clear_def
  timer_push_def timer_next_id_def timer_table_default_def swap_remove_def Let_def

theorem retracted_timer_never_fires_witness:
  "take_fired 10000000000000000000 9000 9000 9000
     \<lparr>tw_id = 1, tw_deadline = 105\<rparr>
     \<lparr>tt_entries = [\<lparr>te_id = 2, te_key = ''tick'', te_deadline = 210, te_message = ''b'', te_repeat = None\<rparr>],
      tt_next_id = 3\<rparr> =
   Some (None,
     \<lparr>tt_entries = [\<lparr>te_id = 2, te_key = ''tick'', te_deadline = 210, te_message = ''b'', te_repeat = None\<rparr>],
      tt_next_id = 3\<rparr>)"
proof -
  let ?e = "\<lparr>te_id = 1, te_key = ''tick'', te_deadline = 105, te_message = ''a'', te_repeat = None\<rparr>"
  have run: "timer_run 10000000000000000000 [SetTimeout 5 ''tick'' ''a'' 100] timer_table_default
      = Some \<lparr>tt_entries = [?e], tt_next_id = 2\<rparr>"
    by (simp add: timer_run_eval)
  have step: "timer_run 10000000000000000000 [SetTimeout 10 ''tick'' ''b'' 200]
       \<lparr>tt_entries = [?e], tt_next_id = 2\<rparr>
      = Some \<lparr>tt_entries = [\<lparr>te_id = 2, te_key = ''tick'', te_deadline = 210, te_message = ''b'', te_repeat = None\<rparr>],
              tt_next_id = 3\<rparr>"
    by (simp add: timer_run_eval)
  from retracted_timer_never_fires [OF run _ _ step, of ?e] show ?thesis by (simp add: wake_of_def)
qed

lemma earliest_entry_None: "earliest_entry es = None \<longleftrightarrow> es = []"
  by (cases es) (auto split: option.splits)

lemma earliest_entry_minimal:
  "earliest_entry es = Some e \<Longrightarrow> e \<in> set es \<and> (\<forall>e' \<in> set es. te_deadline e \<le> te_deadline e')"
proof (induction es arbitrary: e)
  case (Cons a es)
  then show ?case by (cases "earliest_entry es") (auto simp: earliest_entry_None split: if_splits)
qed simp

text \<open>
  A due interval always fires when its wake is taken, and its next deadline follows the
  original phase: it is the old deadline plus a multiple of the period, the first one after the
  clock, so that missed ticks are skipped and two ticks are never closer than the phase says.\<close>

theorem due_interval_fires:
  assumes "one_per_key t" "ids_fresh 0 t"
    and "e \<in> set (tt_entries t)" "te_repeat e = Some r" "0 < tr_period r"
    and "te_deadline e \<le> now" "now \<le> now1"
    and "now1 + tr_period r \<le> imax" "now1 + tr_period r \<le> duration_max"
  shows "\<exists>t' d. take_fired imax now now1 now2 (wake_of e) t = Some (Some (te_message e), t')
     \<and> timer_lookup t' (te_key e) = Some (d, tr_clone_message r (te_message e), Some r)
     \<and> now1 < d \<and> d \<le> now1 + tr_period r \<and> te_deadline e < d \<and> (d - te_deadline e) mod tr_period r = 0"
proof -
  let ?es = "tt_entries t"
  have "\<And>y. y \<in> set ?es \<Longrightarrow> te_id y = te_id e \<and> te_deadline y = te_deadline e \<Longrightarrow> y = e"
    using assms(2,3) distinct_key_unique [of te_id ?es e] by (auto simp: ids_fresh_def)
  from position_unique [of e ?es "\<lambda>y. te_id y = te_id e \<and> te_deadline y = te_deadline e", OF assms(3) _ this]
  obtain i where i: "i < length ?es" "?es ! i = e"
    "position (\<lambda>y. te_id y = te_id e \<and> te_deadline y = te_deadline e) ?es = Some i"
    by blast
  let ?a = "interval_advance (now1 - te_deadline e) (tr_period r)"
  let ?d = "te_deadline e + ?a"
  have fits: "now1 - te_deadline e + tr_period r \<le> duration_max" using assms(9) by linarith
  note adv = interval_advance_bounds [OF assms(5) fits]
  have "?d \<le> imax" using adv(2) assms(6-8) by linarith
  then have next_d: "next_interval_deadline imax now1 now2 (te_deadline e) (tr_period r) = Some ?d"
    by (simp add: next_interval_deadline_def duration_since_def checked_add_def Let_def)
  let ?t = "t\<lparr>tt_entries := swap_remove i ?es\<rparr>"
  have fresh: "te_key e \<notin> te_key ` set (tt_entries ?t)"
    using distinct_swap_remove(2) [OF i(1), of te_key] assms(1) i(2) by (simp add: one_per_key_def)
  have "take_fired imax now now1 now2 (wake_of e) t
      = Some (Some (te_message e), timer_push (te_key e) (?d, tr_clone_message r (te_message e), Some r) ?t)"
    using i assms(4,6) next_d by (simp add: take_fired_def wake_of_def Let_def)
  moreover have "now1 < ?d" "?d \<le> now1 + tr_period r" "te_deadline e < ?d"
    using adv(1,2) assms(6,7) by linarith+
  moreover have "(?d - te_deadline e) mod tr_period r = 0" using adv(3) by simp
  ultimately show ?thesis using lookup_pushed [OF fresh] by fastforce
qed

definition sample_interval :: "nat timer_table" where
  "sample_interval =
     \<lparr>tt_entries = [\<lparr>te_id = 1, te_key = ''tick'', te_deadline = 100, te_message = 7,
                     te_repeat = Some \<lparr>tr_period = 100, tr_clone_message = id\<rparr>\<rparr>],
      tt_next_id = 2\<rparr>"

theorem due_interval_fires_witness:
  "\<exists>t' d. take_fired 1000000 350 360 0 \<lparr>tw_id = 1, tw_deadline = 100\<rparr> sample_interval = Some (Some 7, t')
     \<and> timer_lookup t' ''tick'' = Some (d, 7, Some \<lparr>tr_period = 100, tr_clone_message = id\<rparr>)
     \<and> 360 < d \<and> d \<le> 460 \<and> (d - 100) mod 100 = 0"
  using due_interval_fires [of sample_interval "hd (tt_entries sample_interval)"
      "\<lparr>tr_period = 100, tr_clone_message = id\<rparr>" 350 360 1000000 0]
  by (auto simp: sample_interval_def one_per_key_def ids_fresh_def duration_max_def wake_of_def)

text \<open>A timer never fires before its deadline, and a wake fires only the timer it was read for.\<close>

lemma fires_when_due:
  assumes "take_fired imax now now1 now2 w t = Some (Some m, t')"
  shows "\<exists>e \<in> set (tt_entries t). wake_of e = w \<and> te_message e = m \<and> te_deadline e \<le> now"
  using assms by (cases rule: fired_cases) auto

end
