(* ===== verification/Actor_Context.thy ===== *)
theory Actor_Context
  imports Timers
begin

text \<open>
  The context an actor runs in (\<open>actor/context.rs\<close>) and the receiving end of its mailbox
  (\<open>actor/binding.rs\<close>): the readiness signal, continuations, timers, offloads, and the three
  ways of taking the next delivery.

  The bounded FIFO channel is the asynchronous runtime's; its operations are the argument
  \<open>ops\<close>.  The set of offloaded tasks is represented by the number of tasks still running and
  the results of those that have finished, in the order in which the runtime hands them out,
  which is an input.
\<close>

section \<open>The receiving end of a mailbox\<close>

record ('q, 'm) channel_ops =
  ch_try_recv :: "'q \<Rightarrow> (try_recv_error + 'm) \<times> 'q"
  ch_len :: "'q \<Rightarrow> usize"
  ch_max_capacity :: "'q \<Rightarrow> usize"

datatype ('q, 'm) mailbox_receiver =
    is_queue: QueueReceiver 'q bool
  | ConflatingReceiver "'m conflating_state"

fun receiver_try_recv ::
    "('q, 'm) channel_ops \<Rightarrow> ('q, 'm) mailbox_receiver \<Rightarrow>
     (try_recv_error + 'm) \<times> ('q, 'm) mailbox_receiver" where
  "receiver_try_recv ops (QueueReceiver q accepting) =
     (let (r, q') = ch_try_recv ops q in (r, QueueReceiver q' accepting))"
| "receiver_try_recv ops (ConflatingReceiver s) =
     (let (r, s') = conflating_try_recv s in (r, ConflatingReceiver s'))"

text \<open>
  One poll of \<open>recv\<close>: a message, the end of the channel, or nothing yet.  The channel's
  \<open>recv\<close> and \<open>try_recv\<close> differ only in waiting.
\<close>

fun receiver_recv_poll ::
    "('q, 'm) channel_ops \<Rightarrow> ('q, 'm) mailbox_receiver \<Rightarrow>
     'm option option \<times> ('q, 'm) mailbox_receiver" where
  "receiver_recv_poll ops (QueueReceiver q accepting) =
     (case ch_try_recv ops q of
        (Inr m, q') \<Rightarrow> (Some (Some m), QueueReceiver q' accepting)
      | (Inl TryDisconnected, q') \<Rightarrow> (Some None, QueueReceiver q' accepting)
      | (Inl TryEmpty, q') \<Rightarrow> (None, QueueReceiver q' accepting))"
| "receiver_recv_poll ops (ConflatingReceiver s) =
     (let (r, s') = conflating_recv_poll s in (r, ConflatingReceiver s'))"

fun receiver_usage :: "('q, 'm) channel_ops \<Rightarrow> ('q, 'm) mailbox_receiver \<Rightarrow> usize \<times> usize" where
  "receiver_usage ops (QueueReceiver q _) = (ch_len ops q, ch_max_capacity ops q)"
| "receiver_usage ops (ConflatingReceiver s) = conflating_usage s"

fun receiver_close_external :: "('q, 'm) mailbox_receiver \<Rightarrow> ('q, 'm) mailbox_receiver" where
  "receiver_close_external (QueueReceiver q _) = QueueReceiver q False"
| "receiver_close_external (ConflatingReceiver s) = ConflatingReceiver (close_external s)"

section \<open>The readiness signal\<close>

datatype ready_mode = ModeImmediate | ModeGated | ModeReady

record ready_signal =
  rs_sender :: bool
  rs_ready :: bool
  rs_mode :: ready_mode

definition ready_signal_new :: "bool \<Rightarrow> ready_signal" where
  "ready_signal_new manual =
     \<lparr>rs_sender = True, rs_ready = False, rs_mode = (if manual then ModeGated else ModeImmediate)\<rparr>"

definition ready_complete :: "ready_signal \<Rightarrow> ready_signal" where
  "ready_complete r = (if rs_sender r then r\<lparr>rs_sender := False, rs_ready := True\<rparr> else r)"

definition ready_send :: "ready_signal \<Rightarrow> ready_signal" where
  "ready_send r =
     (if rs_mode r = ModeReady then r else ready_complete (r\<lparr>rs_mode := ModeReady\<rparr>))"

definition defer_automatic :: "ready_signal \<Rightarrow> ready_signal" where
  "defer_automatic r = (if rs_mode r = ModeImmediate then r\<lparr>rs_mode := ModeGated\<rparr> else r)"

definition mark_immediate :: "ready_signal \<Rightarrow> ready_signal" where
  "mark_immediate r =
     (if rs_mode r = ModeImmediate then ready_complete (r\<lparr>rs_mode := ModeReady\<rparr>) else r)"

text \<open>\<open>wait\<close> returns at once when the actor is ready and otherwise on the first change.\<close>

definition ready_wait_done :: "ready_signal \<Rightarrow> bool" where
  "ready_wait_done r = rs_ready r"

section \<open>The context\<close>

datatype 'm offload_joined = JoinedOk 'm bool | JoinedPanic | JoinedAborted

record 'm join_set =
  js_running :: nat
  js_finished :: "'m offload_joined list"

definition js_len :: "'m join_set \<Rightarrow> nat" where
  "js_len j = js_running j + length (js_finished j)"

record ('q, 'm) raw_context =
  rc_mailbox :: "('q, 'm) mailbox_receiver"
  rc_shutdown :: bool
  rc_drain_messages :: bool
  rc_timers :: "'m timer_table"
  rc_ready :: bool
  rc_signal :: ready_signal
  rc_continuations :: "'m list"
  rc_stop_requested :: bool
  rc_offloads :: "'m join_set"
  rc_stats :: actor_stats_counters

definition defer_automatic_readiness :: "('q, 'm) raw_context \<Rightarrow> ('q, 'm) raw_context" where
  "defer_automatic_readiness c =
     (if rc_ready c then c\<lparr>rc_signal := defer_automatic (rc_signal c)\<rparr> else c)"

definition mark_ready :: "('q, 'm) raw_context \<Rightarrow> ('q, 'm) raw_context" where
  "mark_ready c =
     (if rc_ready c then c\<lparr>rc_ready := False, rc_signal := ready_send (rc_signal c)\<rparr> else c)"

definition take_continuation :: "('q, 'm) raw_context \<Rightarrow> 'm option \<times> ('q, 'm) raw_context" where
  "take_continuation c =
     (case rc_continuations c of
        [] \<Rightarrow> (None, c)
      | m # ms \<Rightarrow> (Some m, c\<lparr>rc_continuations := ms\<rparr>))"

definition push_continuation :: "'m \<Rightarrow> ('q, 'm) raw_context \<Rightarrow> ('q, 'm) raw_context" where
  "push_continuation m c = c\<lparr>rc_continuations := rc_continuations c @ [m]\<rparr>"

definition request_stop :: "('q, 'm) raw_context \<Rightarrow> ('q, 'm) raw_context" where
  "request_stop c = c\<lparr>rc_stop_requested := True\<rparr>"

definition mailbox_depth :: "('q, 'm) channel_ops \<Rightarrow> ('q, 'm) raw_context \<Rightarrow> usize" where
  "mailbox_depth ops c = fst (receiver_usage ops (rc_mailbox c))"

definition ctx_record_received :: "('q, 'm) raw_context \<Rightarrow> ('q, 'm) raw_context" where
  "ctx_record_received c = c\<lparr>rc_stats := record_received (rc_stats c)\<rparr>"

definition sync_offload_gauge :: "('q, 'm) raw_context \<Rightarrow> ('q, 'm) raw_context" where
  "sync_offload_gauge c =
     c\<lparr>rc_stats := set_outstanding_offloads (js_len (rc_offloads c)) (rc_stats c)\<rparr>"

definition close_external_intake :: "('q, 'm) raw_context \<Rightarrow> ('q, 'm) raw_context" where
  "close_external_intake c = c\<lparr>rc_mailbox := receiver_close_external (rc_mailbox c)\<rparr>"

text \<open>
  Aborting cancels the running tasks, which then finish as aborted.
\<close>

definition abort_offloads :: "('q, 'm) raw_context \<Rightarrow> ('q, 'm) raw_context" where
  "abort_offloads c =
     c\<lparr>rc_offloads := \<lparr>js_running = 0, js_finished = js_finished (rc_offloads c) @
        replicate (js_running (rc_offloads c)) JoinedAborted\<rparr>\<rparr>"

definition raw_context_drop :: "('q, 'm) raw_context \<Rightarrow> actor_stats_counters" where
  "raw_context_drop c = set_outstanding_offloads 0 (rc_stats c)"

section \<open>Deliveries\<close>

text \<open>
  A delivery remembers where it came from.  Joining a task that panicked resumes the panic on
  the actor's task (\<^term>\<open>Inl ()\<close>); a cancelled or aborted task yields no message.
\<close>

datatype 'm delivered = FromMailbox 'm | FromOffload 'm

definition joined_offload ::
    "'m offload_joined \<Rightarrow> ('q, 'm) raw_context \<Rightarrow> (unit + 'm option) \<times> ('q, 'm) raw_context" where
  "joined_offload joined c =
     (let c' = sync_offload_gauge c in
      case joined of
        JoinedOk m cancelled \<Rightarrow> (Inr (if cancelled then None else Some m), c')
      | JoinedPanic \<Rightarrow> (Inl (), c')
      | JoinedAborted \<Rightarrow> (Inr None, c'))"

definition take_joined :: "'m offload_joined list \<Rightarrow> ('q, 'm) raw_context \<Rightarrow> ('q, 'm) raw_context" where
  "take_joined js c = c\<lparr>rc_offloads := (rc_offloads c)\<lparr>js_finished := js\<rparr>\<rparr>"

text \<open>The loop over finished tasks recurses on the list of those not yet joined.\<close>

fun try_join_loop ::
    "'m offload_joined list \<Rightarrow> ('q, 'm) raw_context \<Rightarrow> (unit + 'm option) \<times> ('q, 'm) raw_context" where
  "try_join_loop [] c = (Inr None, c)"
| "try_join_loop (j # js) c =
     (case joined_offload j (take_joined js c) of
        (Inl u, c') \<Rightarrow> (Inl u, c')
      | (Inr (Some m), c') \<Rightarrow> (Inr (Some m), c')
      | (Inr None, c') \<Rightarrow> try_join_loop js c')"

definition try_recv_mailbox ::
    "('q, 'm) channel_ops \<Rightarrow> ('q, 'm) raw_context \<Rightarrow> 'm option \<times> ('q, 'm) raw_context" where
  "try_recv_mailbox ops c =
     (case receiver_try_recv ops (rc_mailbox c) of
        (Inr m, r) \<Rightarrow> (Some m, c\<lparr>rc_mailbox := r\<rparr>)
      | (Inl _, r) \<Rightarrow> (None, c\<lparr>rc_mailbox := r\<rparr>))"

definition try_delivery ::
    "('q, 'm) channel_ops \<Rightarrow> ('q, 'm) raw_context \<Rightarrow>
     (unit + 'm delivered option) \<times> ('q, 'm) raw_context" where
  "try_delivery ops c =
     (case try_join_loop (js_finished (rc_offloads c)) c of
        (Inl u, c') \<Rightarrow> (Inl u, c')
      | (Inr (Some m), c') \<Rightarrow> (Inr (Some (FromOffload m)), c')
      | (Inr None, c') \<Rightarrow>
          (let (r, c'') = try_recv_mailbox ops c' in (Inr (map_option FromMailbox r), c'')))"

text \<open>
  The two selects over the mailbox and the offloads choose at random when both are ready; the
  argument \<open>picks\<close> holds the choices, \<^const>\<open>True\<close> for the offload.
\<close>

datatype 'm delivery_poll = Pending | Delivered "'m delivered" | MailboxEnded | OffloadPanicked

fun next_delivery_poll ::
    "('q, 'm) channel_ops \<Rightarrow> bool list \<Rightarrow> 'm offload_joined list \<Rightarrow> ('q, 'm) raw_context \<Rightarrow>
     'm delivery_poll \<times> ('q, 'm) raw_context" where
  "next_delivery_poll ops picks [] c =
     (case receiver_recv_poll ops (rc_mailbox c) of
        (None, r) \<Rightarrow> (Pending, c\<lparr>rc_mailbox := r\<rparr>)
      | (Some None, r) \<Rightarrow> (MailboxEnded, c\<lparr>rc_mailbox := r\<rparr>)
      | (Some (Some m), r) \<Rightarrow> (Delivered (FromMailbox m), c\<lparr>rc_mailbox := r\<rparr>))"
| "next_delivery_poll ops picks (j # js) c =
     (let (r, mailbox) = receiver_recv_poll ops (rc_mailbox c) in
      if Option.is_none r \<or> (picks \<noteq> [] \<and> hd picks) then
        (case joined_offload j (take_joined js c) of
           (Inl u, c') \<Rightarrow> (OffloadPanicked, c')
         | (Inr (Some m), c') \<Rightarrow> (Delivered (FromOffload m), c')
         | (Inr None, c') \<Rightarrow> next_delivery_poll ops (tl picks) js c')
      else
        (case the r of
           Some m \<Rightarrow> (Delivered (FromMailbox m), c\<lparr>rc_mailbox := mailbox\<rparr>)
         | None \<Rightarrow> (MailboxEnded, c\<lparr>rc_mailbox := mailbox\<rparr>)))"

definition next_delivery ::
    "('q, 'm) channel_ops \<Rightarrow> bool list \<Rightarrow> ('q, 'm) raw_context \<Rightarrow>
     'm delivery_poll \<times> ('q, 'm) raw_context" where
  "next_delivery ops picks c = next_delivery_poll ops picks (js_finished (rc_offloads c)) c"

text \<open>
  A raw actor's own receive operations: shutdown wins over queued messages in \<open>recv\<close>, and is
  not consulted by \<open>try_recv\<close>.
\<close>

definition raw_recv_poll ::
    "('q, 'm) channel_ops \<Rightarrow> bool list \<Rightarrow> ('q, 'm) raw_context \<Rightarrow>
     (unit + 'm option) option \<times> ('q, 'm) raw_context" where
  "raw_recv_poll ops picks c =
     (if rc_shutdown c then (Some (Inr None), c)
      else
        (case next_delivery ops picks c of
           (Pending, c') \<Rightarrow> (None, c')
         | (MailboxEnded, c') \<Rightarrow> (Some (Inr None), c')
         | (OffloadPanicked, c') \<Rightarrow> (Some (Inl ()), c')
         | (Delivered (FromMailbox m), c') \<Rightarrow> (Some (Inr (Some m)), ctx_record_received c')
         | (Delivered (FromOffload m), c') \<Rightarrow> (Some (Inr (Some m)), ctx_record_received c')))"

definition raw_try_recv ::
    "('q, 'm) channel_ops \<Rightarrow> ('q, 'm) raw_context \<Rightarrow> (unit + 'm option) \<times> ('q, 'm) raw_context" where
  "raw_try_recv ops c =
     (case try_delivery ops c of
        (Inl u, c') \<Rightarrow> (Inl u, c')
      | (Inr None, c') \<Rightarrow> (Inr None, c')
      | (Inr (Some (FromMailbox m)), c') \<Rightarrow> (Inr (Some m), ctx_record_received c')
      | (Inr (Some (FromOffload m)), c') \<Rightarrow> (Inr (Some m), ctx_record_received c'))"

section \<open>The environment\<close>

text \<open>
  At every await the rest of the system takes a turn: senders and receivers on other threads
  change the mailbox, running offloads finish, shutdown may be requested and time passes.  A turn
  also fixes the clock readings and random choices of the poll before it.
\<close>

record ('q, 'm) turn =
  tu_now :: instant
  tu_now1 :: instant
  tu_now2 :: instant
  tu_picks :: "bool list"
  tu_mailbox :: "('q, 'm) mailbox_receiver \<Rightarrow> ('q, 'm) mailbox_receiver"
  tu_finished :: "'m offload_joined list"
  tu_cancel :: bool

definition join_set_finish :: "'m offload_joined list \<Rightarrow> 'm join_set \<Rightarrow> 'm join_set" where
  "join_set_finish js j =
     (let finished = take (js_running j) js
      in \<lparr>js_running = js_running j - length finished, js_finished = js_finished j @ finished\<rparr>)"

definition turn_elapse :: "('q, 'm) turn \<Rightarrow> ('q, 'm) raw_context \<Rightarrow> ('q, 'm) raw_context" where
  "turn_elapse t c =
     c\<lparr>rc_mailbox := tu_mailbox t (rc_mailbox c),
       rc_offloads := join_set_finish (tu_finished t) (rc_offloads c),
       rc_shutdown := rc_shutdown c \<or> tu_cancel t\<rparr>"

section \<open>Draining\<close>

text \<open>
  \<open>next_drain_delivery\<close> first takes whatever is ready, ends when nothing is queued and no offload
  is left, and otherwise selects over the mailbox and the offloads.  The delivery of a turn
  script that ends while it still waits is \<open>DrainSuspended\<close>.
\<close>

datatype 'm drain_poll = DrainGot "'m delivered" | DrainEnd | DrainPanic | is_wait: DrainWait

definition drain_attempt ::
    "('q, 'm) channel_ops \<Rightarrow> ('q, 'm) raw_context \<Rightarrow> 'm drain_poll \<times> ('q, 'm) raw_context" where
  "drain_attempt ops c =
     (case try_delivery ops c of
        (Inl u, c') \<Rightarrow> (DrainPanic, c')
      | (Inr (Some d), c') \<Rightarrow> (DrainGot d, c')
      | (Inr None, c') \<Rightarrow> (if js_len (rc_offloads c') = 0 then DrainEnd else DrainWait, c'))"

definition drain_recv ::
    "('q, 'm) channel_ops \<Rightarrow> ('q, 'm) raw_context \<Rightarrow> 'm drain_poll \<times> ('q, 'm) raw_context" where
  "drain_recv ops c =
     (case receiver_recv_poll ops (rc_mailbox c) of
        (None, r) \<Rightarrow> (DrainWait, c\<lparr>rc_mailbox := r\<rparr>)
      | (Some None, r) \<Rightarrow> (DrainEnd, c\<lparr>rc_mailbox := r\<rparr>)
      | (Some (Some m), r) \<Rightarrow> (DrainGot (FromMailbox m), c\<lparr>rc_mailbox := r\<rparr>))"

definition drain_again ::
    "('q, 'm) channel_ops \<Rightarrow> ('q, 'm) raw_context \<Rightarrow> 'm drain_poll \<times> ('q, 'm) raw_context" where
  "drain_again ops c =
     (case drain_attempt ops c of
        (DrainWait, c') \<Rightarrow> drain_recv ops c'
      | r \<Rightarrow> r)"

definition drain_select ::
    "('q, 'm) channel_ops \<Rightarrow> bool list \<Rightarrow> ('q, 'm) raw_context \<Rightarrow>
     'm drain_poll \<times> ('q, 'm) raw_context" where
  "drain_select ops picks c =
     (case js_finished (rc_offloads c) of
        [] \<Rightarrow> drain_recv ops c
      | j # js \<Rightarrow>
          if is_wait (fst (drain_recv ops c)) \<or> (picks \<noteq> [] \<and> hd picks) then
            (case joined_offload j (take_joined js c) of
               (Inl u, c') \<Rightarrow> (DrainPanic, c')
             | (Inr (Some m), c') \<Rightarrow> (DrainGot (FromOffload m), c')
             | (Inr None, c') \<Rightarrow> drain_again ops c')
          else drain_recv ops c)"

datatype 'm drain_delivery = DrainDelivery "'m delivered" | DrainFinished | DrainPanicked | DrainSuspended

fun drain_wait ::
    "('q, 'm) channel_ops \<Rightarrow> ('q, 'm) turn list \<Rightarrow> ('q, 'm) raw_context \<Rightarrow>
     'm drain_delivery \<times> ('q, 'm) raw_context \<times> ('q, 'm) turn list" where
  "drain_wait ops [] c = (DrainSuspended, c, [])"
| "drain_wait ops (t # ts) c =
     (case drain_select ops (tu_picks t) c of
        (DrainGot d, c') \<Rightarrow> (DrainDelivery d, c', t # ts)
      | (DrainEnd, c') \<Rightarrow> (DrainFinished, c', t # ts)
      | (DrainPanic, c') \<Rightarrow> (DrainPanicked, c', t # ts)
      | (DrainWait, c') \<Rightarrow> drain_wait ops ts (turn_elapse t c'))"

definition next_drain_delivery ::
    "('q, 'm) channel_ops \<Rightarrow> ('q, 'm) turn list \<Rightarrow> ('q, 'm) raw_context \<Rightarrow>
     'm drain_delivery \<times> ('q, 'm) raw_context \<times> ('q, 'm) turn list" where
  "next_drain_delivery ops ts c =
     (case drain_attempt ops c of
        (DrainGot d, c') \<Rightarrow> (DrainDelivery d, c', ts)
      | (DrainEnd, c') \<Rightarrow> (DrainFinished, c', ts)
      | (DrainPanic, c') \<Rightarrow> (DrainPanicked, c', ts)
      | (DrainWait, c') \<Rightarrow> drain_wait ops ts c')"

end
