(* ===== verification/Handler_Loop.thy ===== *)
theory Handler_Loop
  imports Actor_Context
begin

text \<open>
  The receive loop the framework runs for a handler actor (\<open>actor/handler.rs\<close>) and the
  context operations its hooks call (\<open>Context\<close> in \<open>actor/context.rs\<close>).

  The actor is an argument: what each hook returns and which context operations it calls, given
  the actor's own state.  Every call of a hook is an await, during which the environment takes
  one turn; so is every wait of a select.  The loop is a function of the list of turns, and the
  run of a list that ends while the loop still waits is \<open>Suspended\<close>.  The calls made are
  recorded, together with whether shutdown had been requested when a message was dispatched and
  the polls that found nothing ready.
\<close>

section \<open>Actors\<close>

datatype 'm context_op =
    CxStop
  | CxContinueWith 'm
  | CxSetTimeout instant timer_key 'm duration
  | CxSetInterval instant timer_key 'm duration "'m \<Rightarrow> 'm"
  | CxClearTimer timer_key
  | CxOffload

record ('a, 'm, 'e) actor =
  ac_on_start :: "'a \<Rightarrow> 'e option \<times> 'm context_op list \<times> 'a"
  ac_handle :: "bool \<Rightarrow> 'm \<Rightarrow> 'a \<Rightarrow> 'e option \<times> 'm context_op list \<times> 'a"
  ac_on_stop :: "'a \<Rightarrow> 'e option \<times> 'a"

definition ctx_set_timers ::
    "'m timer_table option \<Rightarrow> ('q, 'm) raw_context \<Rightarrow> ('q, 'm) raw_context option" where
  "ctx_set_timers timers c = map_option (\<lambda>t. c\<lparr>rc_timers := t\<rparr>) timers"

definition ctx_offload :: "('q, 'm) raw_context \<Rightarrow> ('q, 'm) raw_context" where
  "ctx_offload c =
     sync_offload_gauge
       (c\<lparr>rc_offloads := (rc_offloads c)\<lparr>js_running := js_running (rc_offloads c) + 1\<rparr>\<rparr>)"

text \<open>An operation that panics (a timer past the last instant) is \<^const>\<open>None\<close>.\<close>

fun context_step ::
    "instant \<Rightarrow> 'm context_op \<Rightarrow> ('q, 'm) raw_context \<Rightarrow> ('q, 'm) raw_context option" where
  "context_step imax CxStop c = Some (request_stop c)"
| "context_step imax (CxContinueWith m) c = Some (push_continuation m c)"
| "context_step imax (CxSetTimeout now key m delay) c =
     ctx_set_timers (timer_insert imax now key m delay (rc_timers c)) c"
| "context_step imax (CxSetInterval now key m period clone) c =
     ctx_set_timers (insert_interval imax now key m period clone (rc_timers c)) c"
| "context_step imax (CxClearTimer key) c = ctx_set_timers (Some (timer_clear key (rc_timers c))) c"
| "context_step imax CxOffload c = Some (ctx_offload c)"

fun context_steps ::
    "instant \<Rightarrow> 'm context_op list \<Rightarrow> ('q, 'm) raw_context \<Rightarrow> ('q, 'm) raw_context option" where
  "context_steps imax [] c = Some c"
| "context_steps imax (op # ops) c = Option.bind (context_step imax op c) (context_steps imax ops)"

section \<open>Hook calls\<close>

datatype source = SrcMailbox | SrcOffload | SrcContinuation | SrcTimer

datatype 'm loop_call =
    CallOnStart
  | CallReady
  | CallHandle source bool bool 'm
  | CallEmptyPoll
  | CallCloseIntake
  | CallAbortOffloads
  | CallOnStop

record ('q, 'm, 'a) loop_state =
  lp_ctx :: "('q, 'm) raw_context"
  lp_actor :: 'a
  lp_had_turn :: bool
  lp_calls :: "'m loop_call list"

datatype 'e loop_outcome = Ran | Failed 'e | Panicked | Suspended

definition log_call :: "'m loop_call \<Rightarrow> ('q, 'm, 'a) loop_state \<Rightarrow> ('q, 'm, 'a) loop_state" where
  "log_call x s = s\<lparr>lp_calls := lp_calls s @ [x]\<rparr>"

definition set_ctx ::
    "('q, 'm) raw_context \<Rightarrow> ('q, 'm, 'a) loop_state \<Rightarrow> ('q, 'm, 'a) loop_state" where
  "set_ctx c s = s\<lparr>lp_ctx := c\<rparr>"

definition hook_result ::
    "instant \<Rightarrow> ('q, 'm) turn \<Rightarrow> 'e option \<times> 'm context_op list \<times> 'a \<Rightarrow>
     ('q, 'm, 'a) loop_state \<Rightarrow> 'e loop_outcome \<times> ('q, 'm, 'a) loop_state" where
  "hook_result imax t r s =
     (let (err, ops, a) = r in
      case context_steps imax ops (lp_ctx s) of
        None \<Rightarrow> (Panicked, s\<lparr>lp_actor := a, lp_ctx := turn_elapse t (lp_ctx s)\<rparr>)
      | Some c \<Rightarrow>
          (case err of Some e \<Rightarrow> Failed e | None \<Rightarrow> Ran,
           s\<lparr>lp_actor := a, lp_ctx := turn_elapse t c\<rparr>))"

definition handle_message ::
    "instant \<Rightarrow> ('a, 'm, 'e) actor \<Rightarrow> source \<Rightarrow> bool \<Rightarrow> 'm \<Rightarrow> ('q, 'm) turn \<Rightarrow>
     ('q, 'm, 'a) loop_state \<Rightarrow> 'e loop_outcome \<times> ('q, 'm, 'a) loop_state" where
  "handle_message imax A src draining m t s =
     (let s' = log_call (CallHandle src draining (rc_shutdown (lp_ctx s)) m)
                 (set_ctx (ctx_record_received (lp_ctx s)) s)
      in hook_result imax t (ac_handle A draining m (lp_actor s')) s')"

fun delivered_source :: "'m delivered \<Rightarrow> source \<times> 'm" where
  "delivered_source (FromMailbox m) = (SrcMailbox, m)"
| "delivered_source (FromOffload m) = (SrcOffload, m)"

section \<open>The receive loop\<close>

text \<open>
  The next event of the loop.  After a continuation the other sources are polled first; without
  a ready delivery the next continuation runs; otherwise the loop selects, with priority, over
  shutdown, the earliest timer and the next delivery.
\<close>

datatype 'm loop_event =
    EvBreak
  | EvPending
  | EvPanic
  | EvMessage "'m delivered option"
  | EvContinuation 'm
  | EvTimer timer_wake

definition select_delivery ::
    "('q, 'm) channel_ops \<Rightarrow> ('q, 'm) turn \<Rightarrow> ('q, 'm, 'a) loop_state \<Rightarrow>
     'm loop_event \<times> ('q, 'm, 'a) loop_state" where
  "select_delivery ops t s =
     (case next_delivery ops (tu_picks t) (lp_ctx s) of
        (Pending, c) \<Rightarrow> (EvPending, set_ctx c s)
      | (Delivered d, c) \<Rightarrow> (EvMessage (Some d), set_ctx c s)
      | (MailboxEnded, c) \<Rightarrow> (EvMessage None, set_ctx c s)
      | (OffloadPanicked, c) \<Rightarrow> (EvPanic, set_ctx c s))"

definition wait_event ::
    "('q, 'm) channel_ops \<Rightarrow> ('q, 'm) turn \<Rightarrow> ('q, 'm, 'a) loop_state \<Rightarrow>
     'm loop_event \<times> ('q, 'm, 'a) loop_state" where
  "wait_event ops t s =
     (case take_continuation (lp_ctx s) of
        (Some m, c) \<Rightarrow> (EvContinuation m, set_ctx c s)
      | (None, c) \<Rightarrow>
          (case next_timer_wake (rc_timers c) of
             Some timer \<Rightarrow>
               if tw_deadline timer \<le> tu_now t then (EvTimer timer, s) else select_delivery ops t s
           | None \<Rightarrow> select_delivery ops t s))"

definition next_event ::
    "('q, 'm) channel_ops \<Rightarrow> ('q, 'm) turn \<Rightarrow> ('q, 'm, 'a) loop_state \<Rightarrow>
     'm loop_event \<times> ('q, 'm, 'a) loop_state" where
  "next_event ops t s =
     (if rc_shutdown (lp_ctx s) then (EvBreak, s)
      else if lp_had_turn s then
        (case try_delivery ops (lp_ctx s) of
           (Inl u, c) \<Rightarrow> (EvPanic, set_ctx c s)
         | (Inr (Some d), c) \<Rightarrow> (EvMessage (Some d), set_ctx c s)
         | (Inr None, c) \<Rightarrow> wait_event ops t (log_call CallEmptyPoll (set_ctx c s)))
      else wait_event ops t s)"

text \<open>
  The bounded turn of queued messages before an elapsed timer fires.  It picks the next message
  and whether it is a continuation, together with the remaining allowance.
\<close>

definition pick_queued ::
    "('q, 'm) channel_ops \<Rightarrow> nat \<Rightarrow> ('q, 'm, 'a) loop_state \<Rightarrow>
     'm delivered option \<times> nat \<times> ('q, 'm, 'a) loop_state" where
  "pick_queued ops queued s =
     (let (r, c) = try_recv_mailbox ops (lp_ctx s)
      in (map_option FromMailbox r, queued - 1, set_ctx c s))"

definition pick_ready ::
    "('q, 'm) channel_ops \<Rightarrow> nat \<Rightarrow> ('q, 'm, 'a) loop_state \<Rightarrow>
     (unit + 'm delivered option) \<times> nat \<times> ('q, 'm, 'a) loop_state" where
  "pick_ready ops queued s =
     (if lp_had_turn s then
        if 0 < queued then (let (r, q, s') = pick_queued ops queued s in (Inr r, q, s'))
        else (let (r, c) = try_delivery ops (lp_ctx s) in (r, queued, set_ctx c s))
      else (Inr None, queued, s))"

datatype 'm pick = PickPanic | PickNone | PickMessage source 'm

definition pick_before_fire ::
    "('q, 'm) channel_ops \<Rightarrow> nat \<Rightarrow> ('q, 'm, 'a) loop_state \<Rightarrow>
     'm pick \<times> nat \<times> ('q, 'm, 'a) loop_state" where
  "pick_before_fire ops queued s =
     (case pick_ready ops queued s of
        (Inl u, q, s') \<Rightarrow> (PickPanic, q, s')
      | (Inr (Some d), q, s') \<Rightarrow> (let (src, m) = delivered_source d in (PickMessage src m, q, s'))
      | (Inr None, q, s') \<Rightarrow>
          (let s' = (if lp_had_turn s then log_call CallEmptyPoll s' else s') in
           case take_continuation (lp_ctx s') of
             (Some m, c) \<Rightarrow> (PickMessage SrcContinuation m, q, set_ctx c s')
           | (None, c) \<Rightarrow>
               if 0 < q then
                 (case pick_queued ops q s' of
                    (Some d, q', s'') \<Rightarrow> (let (src, m) = delivered_source d in (PickMessage src m, q', s''))
                  | (None, q', s'') \<Rightarrow> (PickNone, q', s''))
               else (PickNone, q, s')))"

datatype 'e timer_turn_end = TurnBreakReceive | TurnDone | TurnStopping | TurnOver "'e loop_outcome"

fun timer_turn ::
    "instant \<Rightarrow> ('a, 'm, 'e) actor \<Rightarrow> ('q, 'm) channel_ops \<Rightarrow> nat \<Rightarrow> ('q, 'm) turn list \<Rightarrow>
     ('q, 'm, 'a) loop_state \<Rightarrow> 'e timer_turn_end \<times> ('q, 'm, 'a) loop_state \<times> ('q, 'm) turn list" where
  "timer_turn imax A ops queued [] s = (TurnOver Suspended, s, [])"
| "timer_turn imax A ops queued (t # ts) s =
     (if rc_shutdown (lp_ctx s) then (TurnBreakReceive, s, t # ts)
      else
        (case pick_before_fire ops queued s of
           (PickPanic, q, s') \<Rightarrow> (TurnOver Panicked, s', t # ts)
         | (PickNone, q, s') \<Rightarrow> (TurnDone, s', t # ts)
         | (PickMessage src m, q, s') \<Rightarrow>
             (case handle_message imax A src False m t (s'\<lparr>lp_had_turn := (src = SrcContinuation)\<rparr>) of
                (Ran, s'') \<Rightarrow>
                  if rc_stop_requested (lp_ctx s'') then (TurnStopping, s'', ts)
                  else timer_turn imax A ops q ts s''
              | (out, s'') \<Rightarrow> (TurnOver out, s'', ts))))"

text \<open>Firing: a wake whose timer was retracted meanwhile yields no message.\<close>

definition fire_timer ::
    "instant \<Rightarrow> ('a, 'm, 'e) actor \<Rightarrow> timer_wake \<Rightarrow> ('q, 'm) turn \<Rightarrow> ('q, 'm, 'a) loop_state \<Rightarrow>
     'e loop_outcome \<times> ('q, 'm, 'a) loop_state" where
  "fire_timer imax A timer t s =
     (case take_fired imax (tu_now t) (tu_now1 t) (tu_now2 t) timer (rc_timers (lp_ctx s)) of
        None \<Rightarrow> (Panicked, set_ctx (turn_elapse t (lp_ctx s)) s)
      | Some (None, timers) \<Rightarrow>
          (Ran, set_ctx (turn_elapse t ((lp_ctx s)\<lparr>rc_timers := timers\<rparr>)) s)
      | Some (Some m, timers) \<Rightarrow>
          handle_message imax A SrcTimer False m t (set_ctx ((lp_ctx s)\<lparr>rc_timers := timers\<rparr>) s))"

lemma timer_turn_length:
  "timer_turn imax A ops q ts s = (r, s', ts') \<Longrightarrow> length ts' \<le> length ts"
proof (induction ts arbitrary: q s)
  case (Cons t ts)
  then show ?case
    by (auto split: if_splits prod.splits pick.splits loop_outcome.splits intro: le_SucI)
qed simp

function receive_loop ::
    "instant \<Rightarrow> ('a, 'm, 'e) actor \<Rightarrow> ('q, 'm) channel_ops \<Rightarrow> ('q, 'm) turn list \<Rightarrow>
     ('q, 'm, 'a) loop_state \<Rightarrow> 'e loop_outcome \<times> ('q, 'm, 'a) loop_state \<times> ('q, 'm) turn list" where
  "receive_loop imax A ops [] s = (Suspended, s, [])"
| "receive_loop imax A ops (t # ts) s =
     (case next_event ops t s of
        (EvBreak, s') \<Rightarrow> (Ran, s', t # ts)
      | (EvPanic, s') \<Rightarrow> (Panicked, s', t # ts)
      | (EvPending, s') \<Rightarrow> receive_loop imax A ops ts (set_ctx (turn_elapse t (lp_ctx s')) s')
      | (EvMessage None, s') \<Rightarrow> (Ran, s', t # ts)
      | (EvMessage (Some d), s') \<Rightarrow>
          (case handle_message imax A (fst (delivered_source d)) False (snd (delivered_source d)) t
                  (s'\<lparr>lp_had_turn := False\<rparr>) of
             (Ran, s'') \<Rightarrow>
               if rc_stop_requested (lp_ctx s'') then (Ran, s'', ts) else receive_loop imax A ops ts s''
           | (out, s'') \<Rightarrow> (out, s'', ts))
      | (EvContinuation m, s') \<Rightarrow>
          (case handle_message imax A SrcContinuation False m t (s'\<lparr>lp_had_turn := True\<rparr>) of
             (Ran, s'') \<Rightarrow>
               if rc_stop_requested (lp_ctx s'') then (Ran, s'', ts) else receive_loop imax A ops ts s''
           | (out, s'') \<Rightarrow> (out, s'', ts))
      | (EvTimer timer, s') \<Rightarrow>
          (case timer_turn imax A ops (mailbox_depth ops (lp_ctx s')) (t # ts) s' of
             (TurnBreakReceive, s'', ts') \<Rightarrow> (Ran, s'', ts')
           | (TurnStopping, s'', ts') \<Rightarrow> (Ran, s'', ts')
           | (TurnOver out, s'', ts') \<Rightarrow> (out, s'', ts')
           | (TurnDone, s'', []) \<Rightarrow> (Suspended, s'', [])
           | (TurnDone, s'', t' # ts') \<Rightarrow>
               (case fire_timer imax A timer t' s'' of
                  (Ran, s3) \<Rightarrow>
                    if rc_stop_requested (lp_ctx s3) then (Ran, s3, ts')
                    else receive_loop imax A ops ts' s3
                | (out, s3) \<Rightarrow> (out, s3, ts'))))"
  by pat_completeness auto
termination
  by (relation "measure (\<lambda>(imax, A, ops, ts, s). length ts)") (auto simp del: timer_turn.simps dest!: timer_turn_length [OF sym])

section \<open>Draining and the whole run\<close>

function drain_messages ::
    "instant \<Rightarrow> ('a, 'm, 'e) actor \<Rightarrow> ('q, 'm) channel_ops \<Rightarrow> ('q, 'm) turn list \<Rightarrow>
     ('q, 'm, 'a) loop_state \<Rightarrow> 'e loop_outcome \<times> ('q, 'm, 'a) loop_state \<times> ('q, 'm) turn list" where
  "drain_messages imax A ops ts s =
     (case next_drain_delivery ops ts (lp_ctx s) of
        (DrainFinished, c, ts') \<Rightarrow> (Ran, set_ctx c s, ts')
      | (DrainPanicked, c, ts') \<Rightarrow> (Panicked, set_ctx c s, ts')
      | (DrainSuspended, c, ts') \<Rightarrow> (Suspended, set_ctx c s, ts')
      | (DrainDelivery d, c, []) \<Rightarrow> (Suspended, s, [])
      | (DrainDelivery d, c, t # ts') \<Rightarrow>
          (case handle_message imax A (fst (delivered_source d)) True (snd (delivered_source d)) t
                  (set_ctx c s) of
             (Ran, s') \<Rightarrow> drain_messages imax A ops ts' s'
           | (out, s') \<Rightarrow> (out, s', ts')))"
  by pat_completeness auto

lemma drain_wait_length: "drain_wait ops ts c = (d, c', ts') \<Longrightarrow> length ts' \<le> length ts"
proof (induction ts arbitrary: c)
  case (Cons t ts)
  then show ?case by (auto split: prod.splits drain_poll.splits intro: le_SucI)
qed simp

lemma next_drain_delivery_length:
  "next_drain_delivery ops ts c = (d, c', ts') \<Longrightarrow> length ts' \<le> length ts"
  by (auto simp: next_drain_delivery_def split: prod.splits drain_poll.splits dest: drain_wait_length)

termination drain_messages
  by (relation "measure (\<lambda>(imax, A, ops, ts, s). length ts)")
    (auto dest!: next_drain_delivery_length [OF sym])

definition close_and_drain ::
    "instant \<Rightarrow> ('a, 'm, 'e) actor \<Rightarrow> ('q, 'm) channel_ops \<Rightarrow> ('q, 'm) turn list \<Rightarrow>
     ('q, 'm, 'a) loop_state \<Rightarrow> 'e loop_outcome \<times> ('q, 'm, 'a) loop_state \<times> ('q, 'm) turn list" where
  "close_and_drain imax A ops ts s =
     (let s1 = log_call CallCloseIntake (set_ctx (close_external_intake (lp_ctx s)) s)
      in if rc_drain_messages (lp_ctx s1) then drain_messages imax A ops ts s1
         else (Ran, log_call CallAbortOffloads (set_ctx (abort_offloads (lp_ctx s1)) s1), ts))"

definition finish_run ::
    "instant \<Rightarrow> ('a, 'm, 'e) actor \<Rightarrow> ('q, 'm) channel_ops \<Rightarrow> ('q, 'm) turn list \<Rightarrow>
     ('q, 'm, 'a) loop_state \<Rightarrow> 'e loop_outcome \<times> ('q, 'm, 'a) loop_state" where
  "finish_run imax A ops ts s =
     (case close_and_drain imax A ops ts s of
        (Ran, s', ts') \<Rightarrow>
          (let s'' = log_call CallOnStop s'; (err, a) = ac_on_stop A (lp_actor s'')
           in (case err of Some e \<Rightarrow> Failed e | None \<Rightarrow> Ran, s''\<lparr>lp_actor := a\<rparr>))
      | (out, s', ts') \<Rightarrow> (out, s'))"

definition run_handler ::
    "instant \<Rightarrow> ('a, 'm, 'e) actor \<Rightarrow> ('q, 'm) channel_ops \<Rightarrow> ('q, 'm) turn list \<Rightarrow> 'a \<Rightarrow>
     ('q, 'm) raw_context \<Rightarrow> 'e loop_outcome \<times> ('q, 'm, 'a) loop_state" where
  "run_handler imax A ops ts a c =
     (let s0 = \<lparr>lp_ctx = defer_automatic_readiness c, lp_actor = a, lp_had_turn = False,
                lp_calls = [CallOnStart]\<rparr>
      in case ts of
           [] \<Rightarrow> (Suspended, s0)
         | t # ts \<Rightarrow>
             (case hook_result imax t (ac_on_start A a) s0 of
                (Ran, s1) \<Rightarrow>
                  (let s2 = log_call CallReady (set_ctx (mark_ready (lp_ctx s1)) s1) in
                   if rc_stop_requested (lp_ctx s2) then finish_run imax A ops ts s2
                   else
                     (case receive_loop imax A ops ts s2 of
                        (Ran, s3, ts') \<Rightarrow> finish_run imax A ops ts' s3
                      | (out, s3, ts') \<Rightarrow> (out, s3)))
              | (out, s1) \<Rightarrow> (out, s1)))"

end
