(* ===== verification/Handler_Frames.thy ===== *)
theory Handler_Frames
  imports Handler_Loop
begin

text \<open>
  What each poll of the receive loop may change: which messages it takes out of the mailbox and
  which parts of the context it leaves alone.  A receive loop's invariants are stated as an
  interface, \<open>loop_invariant\<close>, whose laws are about single polls and hook calls; its lemmas
  carry an invariant through the loop, the turn before a timer, the drain and the whole run.
\<close>

declare drain_messages.simps [simp del] receive_loop.simps [simp del] timer_turn.simps [simp del]
  drain_wait.simps [simp del]

section \<open>Messages taken from the mailbox\<close>

text \<open>
  The documented contract of the bounded FIFO channel: \<open>contents\<close> are the messages sent and not
  yet received, oldest first.
\<close>

definition fifo_channel :: "('q, 'm) channel_ops \<Rightarrow> ('q \<Rightarrow> 'm list) \<Rightarrow> bool" where
  "fifo_channel ops contents \<longleftrightarrow>
     (\<forall>q. ch_len ops q = length (contents q)
        \<and> (case contents q of
             [] \<Rightarrow> (\<exists>e q'. ch_try_recv ops q = (Inl e, q') \<and> contents q' = [])
           | m # ms \<Rightarrow> (\<exists>q'. ch_try_recv ops q = (Inr m, q') \<and> contents q' = ms)))"

fun receiver_unread :: "('q \<Rightarrow> 'm list) \<Rightarrow> ('q, 'm) mailbox_receiver \<Rightarrow> 'm list" where
  "receiver_unread contents (QueueReceiver q _) = contents q"
| "receiver_unread contents (ConflatingReceiver s) = cs_messages s"

abbreviation unread :: "('q \<Rightarrow> 'm list) \<Rightarrow> ('q, 'm) raw_context \<Rightarrow> 'm list" where
  "unread contents c \<equiv> receiver_unread contents (rc_mailbox c)"

fun mailbox_part :: "'m delivered option \<Rightarrow> 'm list" where
  "mailbox_part (Some (FromMailbox m)) = [m]"
| "mailbox_part _ = []"

lemma fifo_try_recv:
  assumes "fifo_channel ops contents" "receiver_try_recv ops r = (x, r')"
  shows "receiver_unread contents r = (case x of Inr m \<Rightarrow> [m] | Inl e \<Rightarrow> []) @ receiver_unread contents r'"
    and "x = Inl e \<Longrightarrow> receiver_unread contents r = []"
proof -
  have "receiver_unread contents r = (case x of Inr m \<Rightarrow> [m] | Inl e \<Rightarrow> []) @ receiver_unread contents r'
      \<and> (\<forall>e. x = Inl e \<longrightarrow> receiver_unread contents r = [])"
  proof (cases r)
    case (QueueReceiver q acc)
    from assms(1) have q: "case contents q of
             [] \<Rightarrow> (\<exists>e q'. ch_try_recv ops q = (Inl e, q') \<and> contents q' = [])
           | m # ms \<Rightarrow> (\<exists>q'. ch_try_recv ops q = (Inr m, q') \<and> contents q' = ms)"
      by (simp add: fifo_channel_def)
    show ?thesis using q assms(2) QueueReceiver by (auto split: list.splits)
  next
    case (ConflatingReceiver s)
    then show ?thesis using assms(2)
      by (auto simp: conflating_try_recv_def split: list.splits if_splits)
  qed
  then show "receiver_unread contents r = (case x of Inr m \<Rightarrow> [m] | Inl e \<Rightarrow> []) @ receiver_unread contents r'"
    "x = Inl e \<Longrightarrow> receiver_unread contents r = []" by auto
qed

lemma fifo_recv_poll:
  assumes "fifo_channel ops contents" "receiver_recv_poll ops r = (x, r')"
  shows "receiver_unread contents r = (case x of Some (Some m) \<Rightarrow> [m] | _ \<Rightarrow> []) @ receiver_unread contents r'"
proof (cases r)
  case (QueueReceiver q acc)
  from assms(1) have q: "case contents q of
           [] \<Rightarrow> (\<exists>e q'. ch_try_recv ops q = (Inl e, q') \<and> contents q' = [])
         | m # ms \<Rightarrow> (\<exists>q'. ch_try_recv ops q = (Inr m, q') \<and> contents q' = ms)"
    by (simp add: fifo_channel_def)
  show ?thesis using q assms(2) QueueReceiver by (auto split: list.splits try_recv_error.splits)
next
  case (ConflatingReceiver s)
  then show ?thesis using assms(2)
    by (auto simp: conflating_recv_poll_def split: list.splits if_splits)
qed

text \<open>
  \<open>takes ops ms c c'\<close>: the messages \<open>ms\<close> have been taken from the front of the mailbox, which is
  still of the same kind.
\<close>

definition takes :: "('q, 'm) channel_ops \<Rightarrow> 'm list \<Rightarrow> ('q, 'm) raw_context \<Rightarrow> ('q, 'm) raw_context \<Rightarrow> bool" where
  "takes ops ms c c' \<longleftrightarrow> is_queue (rc_mailbox c') = is_queue (rc_mailbox c) \<and>
     (\<forall>contents. fifo_channel ops contents \<longrightarrow> unread contents c = ms @ unread contents c')"

lemma takes_same [simp]: "rc_mailbox c' = rc_mailbox c \<Longrightarrow> takes ops [] c c'"
  by (simp add: takes_def)

lemma takes_refl [simp]: "takes ops [] c c"
  by (simp add: takes_def)

lemma takes_trans: "takes ops [] c c' \<Longrightarrow> takes ops ms c' c'' \<Longrightarrow> takes ops ms c c''"
  by (simp add: takes_def)

lemma try_recv_kind: "receiver_try_recv ops r = (x, r') \<Longrightarrow> is_queue r' = is_queue r"
  by (cases r) (auto split: prod.splits)

lemma recv_poll_kind: "receiver_recv_poll ops r = (x, r') \<Longrightarrow> is_queue r' = is_queue r"
  by (cases r) (auto split: prod.splits sum.splits try_recv_error.splits)

lemma takes_try_recv:
  "receiver_try_recv ops (rc_mailbox c) = (x, r) \<Longrightarrow>
   takes ops (case x of Inr m \<Rightarrow> [m] | Inl e \<Rightarrow> []) c (c\<lparr>rc_mailbox := r\<rparr>)"
  using fifo_try_recv(1) by (auto simp: takes_def dest: try_recv_kind)

lemma takes_recv_poll:
  "receiver_recv_poll ops (rc_mailbox c) = (x, r) \<Longrightarrow>
   takes ops (case x of Some (Some m) \<Rightarrow> [m] | _ \<Rightarrow> []) c (c\<lparr>rc_mailbox := r\<rparr>)"
  using fifo_recv_poll by (auto simp: takes_def dest: recv_poll_kind)

section \<open>What a poll leaves alone\<close>

text \<open>
  \<open>polled c c'\<close>: the parts of the context a poll of the mailbox and the offloads never changes.
\<close>

definition polled :: "('q, 'm) raw_context \<Rightarrow> ('q, 'm) raw_context \<Rightarrow> bool" where
  "polled c c' \<longleftrightarrow> rc_shutdown c' = rc_shutdown c \<and> rc_drain_messages c' = rc_drain_messages c
     \<and> rc_timers c' = rc_timers c \<and> rc_signal c' = rc_signal c \<and> rc_ready c' = rc_ready c
     \<and> rc_continuations c' = rc_continuations c \<and> rc_stop_requested c' = rc_stop_requested c
     \<and> js_running (rc_offloads c') = js_running (rc_offloads c)
     \<and> length (js_finished (rc_offloads c')) \<le> length (js_finished (rc_offloads c))"

lemma polled_refl [simp]: "polled c c"
  by (simp add: polled_def)

lemma polled_mailbox [simp]: "polled c (c'\<lparr>rc_mailbox := r\<rparr>) = polled c c'"
  by (simp add: polled_def)

lemma polled_trans: "polled c c' \<Longrightarrow> polled c' c'' \<Longrightarrow> polled c c''"
  by (simp add: polled_def)

lemma joined_frame:
  assumes "joined_offload j c = (r, c')"
  shows "rc_mailbox c' = rc_mailbox c" "polled c c'" "rc_offloads c' = rc_offloads c"
  using assms by (auto simp: joined_offload_def sync_offload_gauge_def Let_def polled_def split: offload_joined.splits)

lemma take_joined_frame:
  "rc_mailbox (take_joined js c) = rc_mailbox c"
  "length js \<le> length (js_finished (rc_offloads c)) \<Longrightarrow> polled c (take_joined js c)"
  "js_finished (rc_offloads (take_joined js c)) = js"
  by (simp_all add: take_joined_def polled_def)

lemma join_one_frame:
  assumes "joined_offload j (take_joined js c) = (r, c')" "length js < length (js_finished (rc_offloads c))"
  shows "rc_mailbox c' = rc_mailbox c" "polled c c'" "js_finished (rc_offloads c') = js"
  using joined_frame [OF assms(1)] take_joined_frame [of js c] assms(2)
  by (auto intro: polled_trans)

lemma try_join_loop_frame:
  assumes "try_join_loop js c = (r, c')" "js = js_finished (rc_offloads c)"
  shows "rc_mailbox c' = rc_mailbox c \<and> polled c c' \<and> (r = Inr None \<longrightarrow> js_finished (rc_offloads c') = [])"
  using assms
proof (induction js arbitrary: c)
  case (Cons j js)
  obtain x c1 where x: "joined_offload j (take_joined js c) = (x, c1)" by force
  have lt: "length js < length (js_finished (rc_offloads c))" using Cons.prems(2) by (metis length_Cons lessI)
  note one = join_one_frame [OF x lt]
  show ?case
  proof (cases "x = Inr None")
    case True
    with Cons.prems(1) x have "try_join_loop js c1 = (r, c')" by simp
    from Cons.IH [OF this] one show ?thesis by (auto intro: polled_trans)
  next
    case False
    with Cons.prems(1) x one show ?thesis by (auto split: sum.splits option.splits)
  qed
qed auto

lemma try_recv_mailbox_frame:
  assumes "try_recv_mailbox ops c = (r, c')"
  shows "polled c c'" "rc_offloads c' = rc_offloads c"
    and "takes ops (case r of Some m \<Rightarrow> [m] | None \<Rightarrow> []) c c'"
    and "fifo_channel ops contents \<Longrightarrow> r = None \<Longrightarrow> unread contents c = []"
proof -
  obtain x mb where x: "receiver_try_recv ops (rc_mailbox c) = (x, mb)" by force
  from assms x takes_try_recv [OF x] fifo_try_recv(2) [OF _ x, of contents]
  show "polled c c'" "rc_offloads c' = rc_offloads c"
    and "takes ops (case r of Some m \<Rightarrow> [m] | None \<Rightarrow> []) c c'"
    and "fifo_channel ops contents \<Longrightarrow> r = None \<Longrightarrow> unread contents c = []"
    by (auto simp: try_recv_mailbox_def split: sum.splits)
qed

text \<open>What a successful or an empty poll of the two sources together shows.\<close>

definition delivery_part :: "(unit + 'm delivered option) \<Rightarrow> 'm list" where
  "delivery_part r = (case r of Inr d \<Rightarrow> mailbox_part d | Inl u \<Rightarrow> [])"

lemma delivery_part_simps [simp]: "delivery_part (Inl u) = []" "delivery_part (Inr d) = mailbox_part d"
  by (simp_all add: delivery_part_def)

lemma try_delivery_frame:
  assumes "try_delivery ops c = (r, c')"
  shows "polled c c'" and "takes ops (delivery_part r) c c'"
    and "r = Inr None \<Longrightarrow> js_finished (rc_offloads c') = []"
    and "fifo_channel ops contents \<Longrightarrow> r = Inr None \<Longrightarrow> unread contents c' = []"
proof -
  obtain x c1 where x: "try_join_loop (js_finished (rc_offloads c)) c = (x, c1)" by force
  note loop = try_join_loop_frame [OF x refl]
  then have quiet: "takes ops [] c c1" by (simp add: takes_same)
  have "polled c c' \<and> takes ops (delivery_part r) c c'
      \<and> (r = Inr None \<longrightarrow> js_finished (rc_offloads c') = [])
      \<and> (fifo_channel ops contents \<longrightarrow> r = Inr None \<longrightarrow> unread contents c' = [])"
  proof (cases "x = Inr None")
    case True
    obtain m c2 where m: "try_recv_mailbox ops c1 = (m, c2)" by force
    note recv = try_recv_mailbox_frame(1-3) [OF m] try_recv_mailbox_frame(4) [OF m, of contents]
    from assms x True m have r: "r = Inr (map_option FromMailbox m)" "c' = c2" by (auto simp: try_delivery_def)
    have "delivery_part r = (case m of Some m \<Rightarrow> [m] | None \<Rightarrow> [])"
      by (cases m) (simp_all add: r(1) delivery_part_def)
    then have "takes ops (delivery_part r) c c'" using takes_trans [OF quiet recv(3)] r(2) by simp
    moreover from this have "fifo_channel ops contents \<longrightarrow> r = Inr None \<longrightarrow> unread contents c' = []"
      using recv(4) r loop by (auto simp: takes_def)
    ultimately show ?thesis using loop True recv(1,2) r by (auto intro: polled_trans)
  next
    case False
    with assms x have "c' = c1" "delivery_part r = []" "r \<noteq> Inr None"
      by (auto simp: try_delivery_def delivery_part_def split: sum.splits option.splits)
    with loop quiet show ?thesis by auto
  qed
  then show "polled c c'" "takes ops (delivery_part r) c c'"
    and "r = Inr None \<Longrightarrow> js_finished (rc_offloads c') = []"
    and "fifo_channel ops contents \<Longrightarrow> r = Inr None \<Longrightarrow> unread contents c' = []"
    by blast+
qed

fun poll_part :: "'m delivery_poll \<Rightarrow> 'm list" where
  "poll_part (Delivered d) = mailbox_part (Some d)"
| "poll_part _ = []"

lemma next_delivery_poll_frame:
  assumes "next_delivery_poll ops picks js c = (r, c')" "js = js_finished (rc_offloads c)"
  shows "polled c c' \<and> takes ops (poll_part r) c c'"
  using assms
proof (induction js arbitrary: c picks)
  case Nil
  obtain x mb where x: "receiver_recv_poll ops (rc_mailbox c) = (x, mb)" by force
  from Nil.prems x takes_recv_poll [OF x] show ?case by (auto split: option.splits)
next
  case (Cons j js)
  obtain x mb where x: "receiver_recv_poll ops (rc_mailbox c) = (x, mb)" by force
  obtain y c1 where y: "joined_offload j (take_joined js c) = (y, c1)" by force
  have lt: "length js < length (js_finished (rc_offloads c))" using Cons.prems(2) by (metis length_Cons lessI)
  note one = join_one_frame [OF y lt]
  then have quiet: "takes ops [] c c1" by (simp add: takes_same)
  show ?case
  proof (cases "Option.is_none x \<or> (picks \<noteq> [] \<and> hd picks)")
    case joins: True
    show ?thesis
    proof (cases "y = Inr None")
      case True
      with Cons.prems(1) x y joins have "next_delivery_poll ops (tl picks) js c1 = (r, c')" by simp
      from Cons.IH [OF this] one show ?thesis by (auto intro: polled_trans takes_trans [OF quiet])
    next
      case False
      with Cons.prems(1) x y joins one quiet show ?thesis by (auto split: sum.splits option.splits)
    qed
  next
    case False
    with Cons.prems(1) x takes_recv_poll [OF x] show ?thesis
      by (auto simp: Option.is_none_def split: option.splits)
  qed
qed

lemmas next_delivery_frame = next_delivery_poll_frame [OF _ refl, folded next_delivery_def]

section \<open>What choosing the next event changes\<close>

text \<open>
  \<open>chosen s s'\<close>: the loop has looked for its next event; it has called no hook, and has only
  recorded polls that found nothing.
\<close>

definition chosen :: "('q, 'm, 'a) loop_state \<Rightarrow> ('q, 'm, 'a) loop_state \<Rightarrow> bool" where
  "chosen s s' \<longleftrightarrow> lp_actor s' = lp_actor s \<and> lp_had_turn s' = lp_had_turn s
     \<and> rc_shutdown (lp_ctx s') = rc_shutdown (lp_ctx s)
     \<and> rc_signal (lp_ctx s') = rc_signal (lp_ctx s)
     \<and> rc_drain_messages (lp_ctx s') = rc_drain_messages (lp_ctx s)
     \<and> js_running (rc_offloads (lp_ctx s')) = js_running (rc_offloads (lp_ctx s))
     \<and> (lp_calls s' = lp_calls s \<or> lp_calls s' = lp_calls s @ [CallEmptyPoll])"

lemma chosen_polled: "polled (lp_ctx s) c \<Longrightarrow> chosen s (set_ctx c s)"
  by (simp add: chosen_def polled_def set_ctx_def)

lemma chosen_logged: "polled (lp_ctx s) c \<Longrightarrow> chosen s (log_call CallEmptyPoll (set_ctx c s))"
  by (simp add: chosen_def polled_def set_ctx_def log_call_def)

lemma chosen_trans_quiet: "chosen s s' \<Longrightarrow> chosen s' s'' \<Longrightarrow> lp_calls s'' = lp_calls s' \<Longrightarrow> chosen s s''"
  by (auto simp: chosen_def)

fun event_part :: "'m loop_event \<Rightarrow> 'm list" where
  "event_part (EvMessage d) = mailbox_part d"
| "event_part _ = []"

lemma select_delivery_frame:
  assumes "select_delivery ops t s = (ev, s')"
  shows "chosen s s'" "lp_calls s' = lp_calls s"
    and "\<exists>d. ev \<in> {EvPending, EvPanic, EvMessage d}"
    and "takes ops (event_part ev) (lp_ctx s) (lp_ctx s')"
proof -
  obtain r c where r: "next_delivery ops (tu_picks t) (lp_ctx s) = (r, c)" by force
  note frame = next_delivery_frame [OF r]
  from assms r have s': "s' = set_ctx c s" by (auto simp: select_delivery_def split: delivery_poll.splits)
  show "chosen s s'" using frame by (simp add: s' chosen_polled)
  show "lp_calls s' = lp_calls s" by (simp add: s' set_ctx_def)
  from assms r show "\<exists>d. ev \<in> {EvPending, EvPanic, EvMessage d}"
    by (auto simp: select_delivery_def split: delivery_poll.splits)
  show "takes ops (event_part ev) (lp_ctx s) (lp_ctx s')"
    using assms r frame by (auto simp: select_delivery_def s' split: delivery_poll.splits) (simp add: set_ctx_def)+
qed

lemma continuation_frame:
  assumes "take_continuation c = (r, c')"
  shows "rc_mailbox c' = rc_mailbox c" "rc_shutdown c' = rc_shutdown c" "rc_signal c' = rc_signal c"
    "rc_drain_messages c' = rc_drain_messages c" "rc_offloads c' = rc_offloads c" "rc_timers c' = rc_timers c"
    "r = None \<Longrightarrow> c' = c"
  using assms by (auto simp: take_continuation_def split: list.splits)

lemma wait_event_frame:
  assumes "wait_event ops t s = (ev, s')"
  shows "chosen s s'" "lp_calls s' = lp_calls s" "ev \<noteq> EvBreak"
    and "takes ops (event_part ev) (lp_ctx s) (lp_ctx s')"
proof -
  obtain m c where m: "take_continuation (lp_ctx s) = (m, c)" by force
  note cont = continuation_frame [OF m]
  have all: "chosen s s' \<and> lp_calls s' = lp_calls s \<and> ev \<noteq> EvBreak \<and> takes ops (event_part ev) (lp_ctx s) (lp_ctx s')"
  proof (cases "m = None \<and> (case next_timer_wake (rc_timers c) of
        Some timer \<Rightarrow> \<not> tw_deadline timer \<le> tu_now t | None \<Rightarrow> True)")
    case True
    then have "select_delivery ops t s = (ev, s')"
      using assms m by (auto simp: wait_event_def split: option.splits)
    from select_delivery_frame [OF this] show ?thesis by auto
  next
    case False
    then show ?thesis
      using assms m cont by (auto simp: wait_event_def chosen_def set_ctx_def split: option.splits if_splits)
  qed
  then show "chosen s s'" "lp_calls s' = lp_calls s" "ev \<noteq> EvBreak"
    "takes ops (event_part ev) (lp_ctx s) (lp_ctx s')"
    by auto
qed

lemma next_event_frame:
  assumes "next_event ops t s = (ev, s')"
  shows "chosen s s'"
    and "ev = EvBreak \<longleftrightarrow> rc_shutdown (lp_ctx s)"
    and "ev = EvContinuation m \<Longrightarrow> lp_had_turn s \<Longrightarrow> lp_calls s' = lp_calls s @ [CallEmptyPoll]"
    and "takes ops (event_part ev) (lp_ctx s) (lp_ctx s')"
proof -
  consider "rc_shutdown (lp_ctx s)" | "\<not> rc_shutdown (lp_ctx s)" "lp_had_turn s"
    | "\<not> rc_shutdown (lp_ctx s)" "\<not> lp_had_turn s" by blast
  then have all: "chosen s s' \<and> (ev = EvBreak \<longleftrightarrow> rc_shutdown (lp_ctx s))
      \<and> (ev = EvContinuation m \<longrightarrow> lp_had_turn s \<longrightarrow> lp_calls s' = lp_calls s @ [CallEmptyPoll])
      \<and> takes ops (event_part ev) (lp_ctx s) (lp_ctx s')"
  proof cases
    case 1
    with assms show ?thesis by (auto simp: next_event_def chosen_def)
  next
    case 3
    with assms have w: "wait_event ops t s = (ev, s')" by (simp add: next_event_def)
    from 3 wait_event_frame [OF w] show ?thesis by auto
  next
    case 2
    obtain r c where r: "try_delivery ops (lp_ctx s) = (r, c)" by force
    note frame = try_delivery_frame(1) [OF r] try_delivery_frame(2) [OF r]
    show ?thesis
    proof (cases "r = Inr None")
      case True
      let ?s = "log_call CallEmptyPoll (set_ctx c s)"
      from assms 2 r True have w: "wait_event ops t ?s = (ev, s')" by (simp add: next_event_def)
      note wait = wait_event_frame(1-3) [OF w] wait_event_frame(4) [OF w]
      have "chosen s s'" using chosen_trans_quiet [OF chosen_logged [OF frame(1)] wait(1,2)] .
      moreover have "lp_calls s' = lp_calls s @ [CallEmptyPoll]" "lp_ctx ?s = c"
        using wait(2) by (simp_all add: log_call_def set_ctx_def)
      ultimately show ?thesis using 2 True frame wait(3,4) takes_trans by auto
    next
      case False
      with assms 2 r have s': "s' = set_ctx c s" "ev \<noteq> EvBreak" "ev \<noteq> EvContinuation m"
        "event_part ev = delivery_part r"
        by (auto simp: next_event_def split: sum.splits option.splits)
      with 2 frame show ?thesis by (simp add: chosen_polled) (simp add: set_ctx_def)
    qed
  qed
  then show "chosen s s'" "ev = EvBreak \<longleftrightarrow> rc_shutdown (lp_ctx s)"
    "ev = EvContinuation m \<Longrightarrow> lp_had_turn s \<Longrightarrow> lp_calls s' = lp_calls s @ [CallEmptyPoll]"
    "takes ops (event_part ev) (lp_ctx s) (lp_ctx s')"
    by auto
qed

fun pick_part :: "'m pick \<Rightarrow> 'm list" where
  "pick_part (PickMessage SrcMailbox m) = [m]"
| "pick_part _ = []"

lemma pick_queued_frame:
  assumes "pick_queued ops q s = (d, q', s')"
  shows "chosen s s'" "lp_calls s' = lp_calls s" "mailbox_part d = [] \<longleftrightarrow> d = None"
    and "takes ops (mailbox_part d) (lp_ctx s) (lp_ctx s')"
proof -
  obtain r c where r: "try_recv_mailbox ops (lp_ctx s) = (r, c)" by force
  with assms have eq: "d = map_option FromMailbox r" "s' = set_ctx c s" by (auto simp: pick_queued_def)
  show "chosen s s'" using try_recv_mailbox_frame(1) [OF r] by (simp add: eq chosen_polled)
  show "lp_calls s' = lp_calls s" by (simp add: eq set_ctx_def)
  show "mailbox_part d = [] \<longleftrightarrow> d = None" by (cases r) (simp_all add: eq)
  show "takes ops (mailbox_part d) (lp_ctx s) (lp_ctx s')"
    using try_recv_mailbox_frame(3) [OF r] by (cases r) (simp_all add: eq set_ctx_def)
qed

lemma pick_ready_frame:
  assumes "pick_ready ops q s = (r, q', s')"
  shows "chosen s s'" "lp_calls s' = lp_calls s"
    and "takes ops (delivery_part r) (lp_ctx s) (lp_ctx s')"
proof -
  consider "\<not> lp_had_turn s" | "lp_had_turn s" "0 < q" | "lp_had_turn s" "\<not> 0 < q" by blast
  then have "chosen s s' \<and> lp_calls s' = lp_calls s \<and> takes ops (delivery_part r) (lp_ctx s) (lp_ctx s')"
  proof cases
    case 1
    with assms show ?thesis by (auto simp: pick_ready_def chosen_def)
  next
    case 2
    with assms obtain d where "pick_queued ops q s = (d, q', s')" "r = Inr d"
      by (auto simp: pick_ready_def split: prod.splits)
    with pick_queued_frame [of ops q s d q' s'] show ?thesis by auto
  next
    case 3
    with assms obtain c where c: "try_delivery ops (lp_ctx s) = (r, c)" "s' = set_ctx c s"
      by (auto simp: pick_ready_def split: prod.splits)
    with try_delivery_frame(1) [OF c(1)] try_delivery_frame(2) [OF c(1)] show ?thesis
      by (simp add: chosen_polled) (simp add: set_ctx_def)
  qed
  then show "chosen s s'" "lp_calls s' = lp_calls s"
    "takes ops (delivery_part r) (lp_ctx s) (lp_ctx s')"
    by auto
qed

lemma delivered_source_part:
  "delivered_source d = (src, m) \<Longrightarrow> pick_part (PickMessage src m) = mailbox_part (Some d)"
  "delivered_source d = (src, m) \<Longrightarrow> src \<noteq> SrcContinuation"
  by (cases d; auto)+

lemma pick_before_fire_frame:
  assumes "pick_before_fire ops q s = (p, q', s')"
  shows "chosen s s'"
    and "p = PickMessage SrcContinuation m \<Longrightarrow> lp_had_turn s \<Longrightarrow> lp_calls s' = lp_calls s @ [CallEmptyPoll]"
    and "takes ops (pick_part p) (lp_ctx s) (lp_ctx s')"
proof -
  obtain r q1 s1 where r: "pick_ready ops q s = (r, q1, s1)" by (metis prod.exhaust)
  note ready = pick_ready_frame(1,2) [OF r] pick_ready_frame(3) [OF r]
  have "chosen s s'
      \<and> (p = PickMessage SrcContinuation m \<longrightarrow> lp_had_turn s \<longrightarrow> lp_calls s' = lp_calls s @ [CallEmptyPoll])
      \<and> takes ops (pick_part p) (lp_ctx s) (lp_ctx s')"
  proof (cases "r = Inr None")
    case False
    then consider u where "r = Inl u" | m' where "r = Inr (Some (FromMailbox m'))"
      | m' where "r = Inr (Some (FromOffload m'))"
      by (metis delivered.exhaust option.exhaust sum.exhaust)
    then show ?thesis using assms r ready by cases (auto simp: pick_before_fire_def)
  next
    case True
    define s2 where "s2 = (if lp_had_turn s then log_call CallEmptyPoll s1 else s1)"
    have s2: "chosen s s2" "lp_had_turn s \<Longrightarrow> lp_calls s2 = lp_calls s @ [CallEmptyPoll]" "lp_ctx s2 = lp_ctx s1"
      using ready(1,2) by (auto simp: s2_def log_call_def chosen_def)
    have shape: "(case take_continuation (lp_ctx s2) of
             (Some m, c) \<Rightarrow> (PickMessage SrcContinuation m, q1, set_ctx c s2)
           | (None, c) \<Rightarrow>
               if 0 < q1 then
                 (case pick_queued ops q1 s2 of
                    (Some d, q', s'') \<Rightarrow> (let (src, m) = delivered_source d in (PickMessage src m, q', s''))
                  | (None, q', s'') \<Rightarrow> (PickNone, q', s''))
               else (PickNone, q1, s2)) = (p, q', s')"
      using assms by (simp only: pick_before_fire_def r True prod.case sum.case option.case Let_def s2_def)
    obtain k c where k: "take_continuation (lp_ctx s2) = (k, c)" by force
    note cont = continuation_frame [OF k]
    show ?thesis
    proof (cases k)
      case (Some m')
      with shape k have "p = PickMessage SrcContinuation m'" "s' = set_ctx c s2" by auto
      moreover have "chosen s (set_ctx c s2)" using s2(1) cont by (simp add: chosen_def set_ctx_def)
      moreover have "takes ops [] (lp_ctx s) c"
        by (rule takes_trans [of _ _ "lp_ctx s1"]) (use ready(3) True cont(1) s2(3) in simp_all)
      ultimately show ?thesis using s2(2) by (simp add: set_ctx_def)
    next
      case None
      show ?thesis
      proof (cases "0 < q1")
        case True
        obtain d q2 s3 where d: "pick_queued ops q1 s2 = (d, q2, s3)" by (metis prod.exhaust)
        note queued = pick_queued_frame(1-3) [OF d] pick_queued_frame(4) [OF d]
        have "s' = s3" "pick_part p = mailbox_part d" "p \<noteq> PickMessage SrcContinuation m"
          using shape k None True d
          by (auto split: option.splits prod.splits intro: delivered_source_part(1)
              dest: delivered_source_part(2))
        moreover have "chosen s s3" using chosen_trans_quiet [OF s2(1) queued(1,2)] .
        moreover have "takes ops (mailbox_part d) (lp_ctx s) (lp_ctx s3)"
          by (rule takes_trans [of _ _ "lp_ctx s1"]) (use ready(3) queued(4) s2(3) \<open>r = Inr None\<close> in simp_all)
        ultimately show ?thesis by simp
      next
        case False
        with shape k None have "s' = s2" "p = PickNone" by auto
        with s2 ready(3) True show ?thesis by simp
      qed
    qed
  qed
  then show "chosen s s'"
    "p = PickMessage SrcContinuation m \<Longrightarrow> lp_had_turn s \<Longrightarrow> lp_calls s' = lp_calls s @ [CallEmptyPoll]"
    "takes ops (pick_part p) (lp_ctx s) (lp_ctx s')"
    by auto
qed

end
