(* ===== verification/Handler_Invariants.thy ===== *)
theory Handler_Invariants
  imports Handler_Frames
begin

text \<open>
  Invariants of the receive loop as interfaces.  An invariant is a predicate on the turns taken
  so far and the loop's state, with a companion that holds when a message is about to be handed
  to the actor.  The laws speak of single polls, hook calls and turns of the environment; the
  lemmas carry the invariant through the turn before a timer fires, the receive loop, the drain
  and the run.
\<close>

abbreviation mailbox_only :: "source \<Rightarrow> 'm \<Rightarrow> 'm list" where
  "mailbox_only src m \<equiv> pick_part (PickMessage src m)"

lemma pick_part_other [simp]: "src \<noteq> SrcMailbox \<Longrightarrow> pick_part (PickMessage src m) = []"
  by (cases src) auto

text \<open>After a hook the loop goes on unless the hook failed or the actor asked to stop.\<close>

definition continues ::
    "instant \<Rightarrow> ('a, 'm, 'e) actor \<Rightarrow> ('q, 'm) channel_ops \<Rightarrow> ('q, 'm) turn list \<Rightarrow>
     'e loop_outcome \<times> ('q, 'm, 'a) loop_state \<Rightarrow>
     'e loop_outcome \<times> ('q, 'm, 'a) loop_state \<times> ('q, 'm) turn list" where
  "continues imax A ops ts p =
     (case p of
        (Ran, s) \<Rightarrow> if rc_stop_requested (lp_ctx s) then (Ran, s, ts) else receive_loop imax A ops ts s
      | (out, s) \<Rightarrow> (out, s, ts))"

lemma receive_loop_unfold:
  "receive_loop imax A ops (t # ts) s =
     (case next_event ops t s of
        (EvBreak, s') \<Rightarrow> (Ran, s', t # ts)
      | (EvPanic, s') \<Rightarrow> (Panicked, s', t # ts)
      | (EvPending, s') \<Rightarrow> receive_loop imax A ops ts (set_ctx (turn_elapse t (lp_ctx s')) s')
      | (EvMessage None, s') \<Rightarrow> (Ran, s', t # ts)
      | (EvMessage (Some d), s') \<Rightarrow>
          continues imax A ops ts (handle_message imax A (fst (delivered_source d)) False (snd (delivered_source d)) t
                  (s'\<lparr>lp_had_turn := False\<rparr>))
      | (EvContinuation m, s') \<Rightarrow>
          continues imax A ops ts (handle_message imax A SrcContinuation False m t (s'\<lparr>lp_had_turn := True\<rparr>))
      | (EvTimer timer, s') \<Rightarrow>
          (case timer_turn imax A ops (mailbox_depth ops (lp_ctx s')) (t # ts) s' of
             (TurnBreakReceive, s'', ts') \<Rightarrow> (Ran, s'', ts')
           | (TurnStopping, s'', ts') \<Rightarrow> (Ran, s'', ts')
           | (TurnOver out, s'', ts') \<Rightarrow> (out, s'', ts')
           | (TurnDone, s'', []) \<Rightarrow> (Suspended, s'', [])
           | (TurnDone, s'', t' # ts') \<Rightarrow> continues imax A ops ts' (fire_timer imax A timer t' s'')))"
  unfolding receive_loop.simps continues_def ..

section \<open>What a drain poll takes\<close>

fun drain_part :: "'m drain_poll \<Rightarrow> 'm list" where
  "drain_part (DrainGot d) = mailbox_part (Some d)"
| "drain_part _ = []"

definition mailbox_ended :: "('q, 'm) channel_ops \<Rightarrow> ('q, 'm) mailbox_receiver \<Rightarrow> bool" where
  "mailbox_ended ops r \<longleftrightarrow> (case fst (receiver_recv_poll ops r) of Some None \<Rightarrow> True | _ \<Rightarrow> False)"

text \<open>
  \<open>drain_frame\<close>: a poll takes what it delivers; one that ends the drain has found the mailbox
  ended, or nothing unread and no offload left.
\<close>

definition drain_frame ::
    "('q, 'm) channel_ops \<Rightarrow> ('q, 'm) raw_context \<Rightarrow> 'm drain_poll \<times> ('q, 'm) raw_context \<Rightarrow> bool" where
  "drain_frame ops c p \<longleftrightarrow>
     (case p of (r, c') \<Rightarrow> polled c c' \<and> takes ops (drain_part r) c c'
        \<and> (r = DrainEnd \<longrightarrow>
             (\<exists>mb. mailbox_ended ops mb \<and> is_queue mb = is_queue (rc_mailbox c'))
             \<or> js_len (rc_offloads c') = 0
               \<and> (\<forall>contents. fifo_channel ops contents \<longrightarrow> unread contents c' = [])))"

lemma drain_frame_trans:
  "polled c c' \<Longrightarrow> takes ops [] c c' \<Longrightarrow> drain_frame ops c' p \<Longrightarrow> drain_frame ops c p"
  by (auto simp: drain_frame_def takes_def intro: polled_trans)

lemma drain_attempt_frame: "drain_frame ops c (drain_attempt ops c)"
proof -
  obtain r c' where r: "try_delivery ops c = (r, c')" by force
  from try_delivery_frame(1-3) [OF r] try_delivery_frame(4) [OF r] r show ?thesis
    by (auto simp: drain_attempt_def drain_frame_def split: sum.splits option.splits)
qed

lemma drain_recv_frame: "drain_frame ops c (drain_recv ops c)"
proof -
  obtain r mb where r: "receiver_recv_poll ops (rc_mailbox c) = (r, mb)" by force
  from takes_recv_poll [OF r] r show ?thesis
    by (auto simp: drain_recv_def drain_frame_def mailbox_ended_def takes_def split: option.splits
        intro!: exI [of _ "rc_mailbox c"])
qed

lemma drain_again_frame: "drain_frame ops c (drain_again ops c)"
proof -
  obtain r c' where r: "drain_attempt ops c = (r, c')" by force
  with drain_attempt_frame [of ops c] have frame: "drain_frame ops c (r, c')" by simp
  show ?thesis
  proof (cases r)
    case DrainWait
    with frame have "polled c c'" "takes ops [] c c'" by (auto simp: drain_frame_def)
    from drain_frame_trans [OF this drain_recv_frame] r DrainWait show ?thesis by (simp add: drain_again_def)
  qed (use frame r in \<open>simp_all add: drain_again_def\<close>)
qed

lemma drain_select_frame: "drain_frame ops c (drain_select ops picks c)"
proof (cases "js_finished (rc_offloads c)")
  case Nil
  then show ?thesis by (simp add: drain_select_def drain_recv_frame)
next
  case (Cons j js)
  obtain y c1 where y: "joined_offload j (take_joined js c) = (y, c1)" by force
  have lt: "length js < length (js_finished (rc_offloads c))" by (simp add: Cons)
  note one = join_one_frame [OF y lt]
  have quiet: "takes ops [] c c1" by (simp add: one(1))
  from drain_frame_trans [OF one(2) quiet drain_again_frame]
  have joined: "drain_frame ops c
      (case joined_offload j (take_joined js c) of
         (Inl u, c') \<Rightarrow> (DrainPanic, c')
       | (Inr (Some m), c') \<Rightarrow> (DrainGot (FromOffload m), c')
       | (Inr None, c') \<Rightarrow> drain_again ops c')"
    using one(2) quiet by (auto simp: y drain_frame_def split: sum.split option.split)
  then show ?thesis by (simp add: drain_select_def Cons drain_recv_frame)
qed

lemma drain_wait_turn: "drain_wait ops ts c = (DrainDelivery x, c', ts') \<Longrightarrow> ts' \<noteq> []"
  by (induction ts arbitrary: c) (auto simp: drain_wait.simps split: prod.splits drain_poll.splits)

lemma next_drain_delivery_turn: "next_drain_delivery ops ts c = (DrainDelivery x, c', []) \<Longrightarrow> ts = []"
  by (auto simp: next_drain_delivery_def split: prod.splits drain_poll.splits dest: drain_wait_turn)

section \<open>Interfaces\<close>

locale turn_invariant =
  fixes imax :: instant
    and A :: "('a, 'm, 'e) actor"
    and ops :: "('q, 'm) channel_ops"
    and inv :: "('q, 'm) turn list \<Rightarrow> ('q, 'm, 'a) loop_state \<Rightarrow> bool"
    and ready :: "('q, 'm) turn list \<Rightarrow> source \<Rightarrow> bool \<Rightarrow> 'm \<Rightarrow> ('q, 'm, 'a) loop_state \<Rightarrow> bool"
  assumes handled: "ready us src draining m s \<Longrightarrow>
      handle_message imax A src draining m t s = (out, s') \<Longrightarrow> inv (us @ [t]) s'"
    and elapsed: "inv us s \<Longrightarrow> inv (us @ [t]) (set_ctx (turn_elapse t ((lp_ctx s)\<lparr>rc_timers := timers\<rparr>)) s)"
begin

lemma waited: "inv us s \<Longrightarrow> inv (us @ [t]) (set_ctx (turn_elapse t (lp_ctx s)) s)"
  using elapsed [of us s t "rc_timers (lp_ctx s)"] by simp

end

locale receive_invariant = turn_invariant +
  assumes idle: "inv us s \<Longrightarrow> chosen s s' \<Longrightarrow> takes ops [] (lp_ctx s) (lp_ctx s') \<Longrightarrow> inv us s'"
    and took: "inv us s \<Longrightarrow> \<not> rc_shutdown (lp_ctx s) \<Longrightarrow> chosen s s' \<Longrightarrow>
      takes ops (mailbox_only src m) (lp_ctx s) (lp_ctx s') \<Longrightarrow> src \<noteq> SrcTimer \<Longrightarrow>
      (src = SrcContinuation \<Longrightarrow> lp_had_turn s \<Longrightarrow> lp_calls s' = lp_calls s @ [CallEmptyPoll]) \<Longrightarrow>
      ready us src False m (s'\<lparr>lp_had_turn := (src = SrcContinuation)\<rparr>)"
    and fired: "inv us s \<Longrightarrow> \<not> rc_shutdown (lp_ctx s) \<Longrightarrow>
      ready us SrcTimer False m (set_ctx ((lp_ctx s)\<lparr>rc_timers := timers\<rparr>) s)"
begin

lemma picked_inv:
  assumes "inv us s" "\<not> rc_shutdown (lp_ctx s)" "pick_before_fire ops q s = (p, q', s')"
  shows "p = PickNone \<or> p = PickPanic \<Longrightarrow> inv us s' \<and> \<not> rc_shutdown (lp_ctx s')"
    and "p = PickMessage src m \<Longrightarrow> src \<noteq> SrcTimer \<Longrightarrow>
      ready us src False m (s'\<lparr>lp_had_turn := (src = SrcContinuation)\<rparr>)"
proof -
  note frame = pick_before_fire_frame(1) [OF assms(3)] pick_before_fire_frame(2,3) [OF assms(3)]
  show "p = PickNone \<or> p = PickPanic \<Longrightarrow> inv us s' \<and> \<not> rc_shutdown (lp_ctx s')"
    using frame(1,3) assms(2) idle [OF assms(1) frame(1)] by (auto simp: takes_def chosen_def)
  show "ready us src False m (s'\<lparr>lp_had_turn := (src = SrcContinuation)\<rparr>)"
    if "p = PickMessage src m" "src \<noteq> SrcTimer"
    using took [OF assms(1,2) frame(1) _ that(2), of m] frame(2,3) that(1) by (auto simp: takes_def)
qed

lemma pick_not_timer: "pick_before_fire ops q s = (PickMessage src m, q', s') \<Longrightarrow> src \<noteq> SrcTimer"
  by (auto simp: pick_before_fire_def Let_def split: prod.splits sum.splits option.splits if_splits
      elim: delivered_source.elims)

lemma timer_turn_inv:
  "inv us s \<Longrightarrow> timer_turn imax A ops q ts s = (r, s', ts') \<Longrightarrow>
   \<exists>vs. ts = vs @ ts' \<and> inv (us @ vs) s' \<and> (r = TurnDone \<longrightarrow> \<not> rc_shutdown (lp_ctx s'))"
proof (induction ts arbitrary: us q s)
  case Nil
  then show ?case by (auto simp: timer_turn.simps)
next
  case (Cons t ts)
  show ?case
  proof (cases "rc_shutdown (lp_ctx s)")
    case True
    with Cons.prems show ?thesis by (auto simp: timer_turn.simps)
  next
    case live: False
    obtain p q1 s1 where p: "pick_before_fire ops q s = (p, q1, s1)" by (metis prod.exhaust)
    note picked = picked_inv [OF Cons.prems(1) live p]
    show ?thesis
    proof (cases p)
      case (PickMessage src m)
      let ?s = "s1\<lparr>lp_had_turn := (src = SrcContinuation)\<rparr>"
      obtain out s2 where h: "handle_message imax A src False m t ?s = (out, s2)" by force
      have inv2: "inv (us @ [t]) s2"
        using handled [OF picked(2) h] PickMessage pick_not_timer p by blast
      show ?thesis
      proof (cases "out = Ran \<and> \<not> rc_stop_requested (lp_ctx s2)")
        case True
        then have "timer_turn imax A ops q1 ts s2 = (r, s', ts')"
          using Cons.prems(2) live p PickMessage h by (simp add: timer_turn.simps)
        from Cons.IH [OF inv2 this] show ?thesis by (metis append_Cons append_Nil append_assoc)
      next
        case False
        then have "s' = s2" "ts' = ts" "r \<noteq> TurnDone"
          using Cons.prems(2) live p PickMessage h
          by (auto simp: timer_turn.simps split: loop_outcome.splits if_splits)
        with inv2 show ?thesis by (intro exI [of _ "[t]"]) simp
      qed
    qed (use picked(1) Cons.prems(2) live p in \<open>auto simp: timer_turn.simps\<close>)
  qed
qed

lemma fire_timer_inv:
  assumes "inv us s" "\<not> rc_shutdown (lp_ctx s)" "fire_timer imax A w t s = (out, s')"
  shows "inv (us @ [t]) s'"
proof (cases "take_fired imax (tu_now t) (tu_now1 t) (tu_now2 t) w (rc_timers (lp_ctx s))")
  case (Some x)
  then show ?thesis
    using assms(3) handled [OF fired [OF assms(1,2)]] elapsed [OF assms(1)]
    by (cases x; cases "fst x") (auto simp: fire_timer_def)
qed (use assms(3) waited [OF assms(1)] in \<open>auto simp: fire_timer_def\<close>)

lemma event_inv:
  assumes "inv us s" "next_event ops t s = (ev, s')"
  shows "event_part ev = [] \<Longrightarrow> inv us s'"
    and "ev = EvMessage (Some d) \<Longrightarrow>
      ready us (fst (delivered_source d)) False (snd (delivered_source d)) (s'\<lparr>lp_had_turn := False\<rparr>)"
    and "ev = EvContinuation m \<Longrightarrow> ready us SrcContinuation False m (s'\<lparr>lp_had_turn := True\<rparr>)"
proof -
  note frame = next_event_frame(1,2) [OF assms(2)] next_event_frame(3,4) [OF assms(2)]
  show "event_part ev = [] \<Longrightarrow> inv us s'"
    using frame(4) idle [OF assms(1) frame(1)] by (simp add: takes_def)
  show "ev = EvMessage (Some d) \<Longrightarrow>
      ready us (fst (delivered_source d)) False (snd (delivered_source d)) (s'\<lparr>lp_had_turn := False\<rparr>)"
    using frame took [OF assms(1) _ frame(1), of SrcMailbox] took [OF assms(1) _ frame(1), of SrcOffload]
    by (cases d) (auto simp: takes_def)
  show "ev = EvContinuation m \<Longrightarrow> ready us SrcContinuation False m (s'\<lparr>lp_had_turn := True\<rparr>)"
    using frame took [OF assms(1) _ frame(1), of SrcContinuation m] by (auto simp: takes_def)
qed

lemma continues_inv:
  assumes "inv us s" "continues imax A ops ts (out, s) = (r, s', ts')"
    and "\<And>us s. inv us s \<Longrightarrow> receive_loop imax A ops ts s = (r, s', ts') \<Longrightarrow>
      \<exists>vs. ts = vs @ ts' \<and> inv (us @ vs) s'"
  shows "\<exists>vs. ts = vs @ ts' \<and> inv (us @ vs) s'"
proof (cases "out = Ran \<and> \<not> rc_stop_requested (lp_ctx s)")
  case True
  with assms show ?thesis by (simp add: continues_def)
next
  case False
  with assms(2) have "s' = s" "ts' = ts" by (auto simp: continues_def split: loop_outcome.splits if_splits)
  with assms(1) show ?thesis by simp
qed

lemma receive_loop_inv:
  "inv us s \<Longrightarrow> receive_loop imax A ops ts s = (r, s', ts') \<Longrightarrow> \<exists>vs. ts = vs @ ts' \<and> inv (us @ vs) s'"
proof (induction "length ts" arbitrary: us ts s rule: less_induct)
  case less
  show ?case
  proof (cases ts)
    case Nil
    with less.prems show ?thesis by (simp add: receive_loop.simps)
  next
    case (Cons t us')
    have IH: "\<exists>vs. ts1 = vs @ ts' \<and> inv (us1 @ vs) s'"
      if "length ts1 \<le> length us'" "inv us1 s1" "receive_loop imax A ops ts1 s1 = (r, s', ts')" for ts1 us1 s1
      using less.hyps [OF _ that(2,3)] that(1) Cons by simp
    have step: "\<exists>vs. ts = vs @ ts' \<and> inv (us @ vs) s'"
      if "ts = ws @ ts1" "length ts1 \<le> length us'" "inv (us @ ws) s1" "continues imax A ops ts1 (out, s1) = (r, s', ts')"
      for ws ts1 s1 out
    proof -
      have "\<exists>vs. ts1 = vs @ ts' \<and> inv ((us @ ws) @ vs) s'"
        by (rule continues_inv [OF that(3,4)]) (rule IH [OF that(2)])
      with that(1) show ?thesis by (metis append_assoc)
    qed
    obtain ev s1 where ev: "next_event ops t s = (ev, s1)" by force
    note event = event_inv [OF less.prems(1) ev]
    note loop = less.prems(2) [unfolded Cons receive_loop_unfold ev prod.case]
    show ?thesis
    proof (cases ev)
      case EvPending
      with event(1) have "inv (us @ [t]) (set_ctx (turn_elapse t (lp_ctx s1)) s1)" by (simp add: waited)
      from IH [OF order_refl this] loop EvPending Cons show ?thesis by fastforce
    next
      case (EvMessage d)
      show ?thesis
      proof (cases d)
        case None
        with loop EvMessage event(1) Cons show ?thesis by auto
      next
        case (Some d')
        obtain out s2 where h: "handle_message imax A (fst (delivered_source d')) False (snd (delivered_source d')) t
            (s1\<lparr>lp_had_turn := False\<rparr>) = (out, s2)" by force
        have "inv (us @ [t]) s2" using handled [OF event(2) h] EvMessage Some by simp
        from step [OF _ _ this, of us' out] loop EvMessage Some h Cons show ?thesis by simp
      qed
    next
      case (EvContinuation m)
      obtain out s2 where h: "handle_message imax A SrcContinuation False m t (s1\<lparr>lp_had_turn := True\<rparr>) = (out, s2)"
        by force
      have "inv (us @ [t]) s2" using handled [OF event(3) h] EvContinuation by simp
      from step [OF _ _ this, of us' out] loop EvContinuation h Cons show ?thesis by simp
    next
      case (EvTimer w)
      with event(1) have inv1: "inv us s1" by simp
      obtain r2 s2 ts2 where tt:
        "timer_turn imax A ops (mailbox_depth ops (lp_ctx s1)) (t # us') s1 = (r2, s2, ts2)"
        by (metis prod.exhaust)
      from timer_turn_inv [OF inv1 tt] obtain ws where ws: "t # us' = ws @ ts2" "inv (us @ ws) s2"
        "r2 = TurnDone \<longrightarrow> \<not> rc_shutdown (lp_ctx s2)" by auto
      show ?thesis
      proof (cases "r2 = TurnDone \<and> ts2 \<noteq> []")
        case True
        then obtain t' ts3 where ts2: "ts2 = t' # ts3" by (cases ts2) auto
        obtain out s3 where f: "fire_timer imax A w t' s2 = (out, s3)" by force
        from ws True have "inv ((us @ ws) @ [t']) s3" using fire_timer_inv [OF _ _ f] by blast
        moreover have "length ts3 \<le> length us'" using ws(1) ts2
          by (metis length_Cons length_append le_add2 Suc_le_mono)
        ultimately show ?thesis
          using step [of "ws @ [t']" ts3 s3 out] loop EvTimer tt True ts2 f ws(1) Cons by simp
      next
        case False
        with loop EvTimer tt ws Cons show ?thesis
          by (auto split: timer_turn_end.splits list.splits)
      qed
    qed (use loop event(1) Cons in auto)
  qed
qed

end

locale drain_invariant = turn_invariant +
  assumes polled_idle: "inv us s \<Longrightarrow> polled (lp_ctx s) c \<Longrightarrow> takes ops [] (lp_ctx s) c \<Longrightarrow> inv us (set_ctx c s)"
    and drained: "inv us s \<Longrightarrow> polled (lp_ctx s) c \<Longrightarrow> takes ops (mailbox_part (Some d)) (lp_ctx s) c \<Longrightarrow>
      ready us (fst (delivered_source d)) True (snd (delivered_source d)) (set_ctx c s)"
begin

lemma drain_poll_inv:
  assumes "inv us s" "drain_frame ops (lp_ctx s) (r, c)"
  shows "r = DrainGot d \<Longrightarrow> ready us (fst (delivered_source d)) True (snd (delivered_source d)) (set_ctx c s)"
    and "drain_part r = [] \<Longrightarrow> inv us (set_ctx c s)"
proof -
  have polled: "polled (lp_ctx s) c" and takes: "takes ops (drain_part r) (lp_ctx s) c"
    using assms(2) by (auto simp: drain_frame_def)
  show "r = DrainGot d \<Longrightarrow> ready us (fst (delivered_source d)) True (snd (delivered_source d)) (set_ctx c s)"
    using drained [OF assms(1) polled] takes by simp
  show "drain_part r = [] \<Longrightarrow> inv us (set_ctx c s)"
    using polled_idle [OF assms(1) polled] takes by simp
qed

definition delivers where
  "delivers us s d c \<longleftrightarrow>
     (case d of
        DrainDelivery x \<Rightarrow> ready us (fst (delivered_source x)) True (snd (delivered_source x)) (set_ctx c s)
      | _ \<Rightarrow> inv us (set_ctx c s))"

lemma drain_wait_inv:
  "inv us (set_ctx c s) \<Longrightarrow> drain_wait ops ts c = (d, c', ts') \<Longrightarrow>
   \<exists>vs. ts = vs @ ts' \<and> delivers (us @ vs) s d c'"
proof (induction ts arbitrary: us c)
  case Nil
  then show ?case by (simp add: drain_wait.simps delivers_def)
next
  case (Cons t ts)
  obtain r c1 where r: "drain_select ops (tu_picks t) c = (r, c1)" by force
  have "drain_frame ops (lp_ctx (set_ctx c s)) (r, c1)"
    using drain_select_frame [of ops c "tu_picks t"] by (simp add: r set_ctx_def)
  note poll = drain_poll_inv [OF Cons.prems(1) this]
  show ?case
  proof (cases r)
    case DrainWait
    with poll(2) have "inv us (set_ctx c1 s)" by (simp add: set_ctx_def)
    from waited [OF this, of t] have "inv (us @ [t]) (set_ctx (turn_elapse t c1) s)" by (simp add: set_ctx_def)
    from Cons.IH [OF this] Cons.prems(2) r DrainWait show ?thesis
      by (simp add: drain_wait.simps) (metis append_Cons append_Nil append_assoc)
  qed (use poll Cons.prems(2) r in \<open>auto simp: drain_wait.simps delivers_def set_ctx_def\<close>)
qed

lemma next_drain_inv:
  assumes "inv us s" "next_drain_delivery ops ts (lp_ctx s) = (d, c', ts')"
  shows "\<exists>vs. ts = vs @ ts' \<and> delivers (us @ vs) s d c'"
proof -
  obtain r c1 where r: "drain_attempt ops (lp_ctx s) = (r, c1)" by force
  have "drain_frame ops (lp_ctx s) (r, c1)" using drain_attempt_frame [of ops "lp_ctx s"] by (simp add: r)
  note poll = drain_poll_inv [OF assms(1) this]
  show ?thesis
  proof (cases r)
    case DrainWait
    with poll(2) have "inv us (set_ctx c1 s)" by simp
    from drain_wait_inv [OF this] assms(2) r DrainWait show ?thesis by (simp add: next_drain_delivery_def)
  qed (use poll assms(2) r in \<open>auto simp: next_drain_delivery_def delivers_def\<close>)
qed

lemma drain_loop_inv:
  "inv us s \<Longrightarrow> drain_messages imax A ops ts s = (out, s', ts') \<Longrightarrow> \<exists>vs. ts = vs @ ts' \<and> inv (us @ vs) s'"
proof (induction "length ts" arbitrary: us ts s rule: less_induct)
  case less
  obtain d c ts1 where d: "next_drain_delivery ops ts (lp_ctx s) = (d, c, ts1)" by (metis prod.exhaust)
  from next_drain_inv [OF less.prems(1) d] obtain vs where vs: "ts = vs @ ts1" "delivers (us @ vs) s d c"
    by auto
  show ?case
  proof (cases "\<exists>x t ts2. d = DrainDelivery x \<and> ts1 = t # ts2")
    case True
    then obtain x t ts2 where x: "d = DrainDelivery x" "ts1 = t # ts2" by auto
    obtain out1 s1 where h: "handle_message imax A (fst (delivered_source x)) True (snd (delivered_source x)) t
        (set_ctx c s) = (out1, s1)" by force
    from vs(2) x have "ready (us @ vs) (fst (delivered_source x)) True (snd (delivered_source x)) (set_ctx c s)"
      by (simp add: delivers_def)
    note inv1 = handled [OF this h]
    show ?thesis
    proof (cases "out1 = Ran")
      case True
      then have "drain_messages imax A ops ts2 s1 = (out, s', ts')"
        using less.prems(2) d x h by (simp add: drain_messages.simps [of _ _ _ ts])
      moreover have "length ts2 < length ts" using vs(1) x(2) by simp
      ultimately obtain ws where "ts2 = ws @ ts'" "inv (((us @ vs) @ [t]) @ ws) s'"
        using less.hyps [OF _ inv1] by blast
      with vs(1) x(2) show ?thesis by (intro exI [of _ "vs @ [t] @ ws"]) simp
    next
      case False
      then have "s' = s1" "ts' = ts2"
        using less.prems(2) d x h by (auto simp: drain_messages.simps [of _ _ _ ts] split: loop_outcome.splits)
      with inv1 vs(1) x(2) show ?thesis by (intro exI [of _ "vs @ [t]"]) simp
    qed
  next
    case False
    then consider "s' = set_ctx c s" "ts' = ts1" "\<not> (\<exists>x. d = DrainDelivery x)" | "s' = s" "ts' = []" "\<exists>x. d = DrainDelivery x" "ts1 = []"
      using less.prems(2) d
      by (auto simp: drain_messages.simps [of _ _ _ ts] split: drain_delivery.splits list.splits)
    then show ?thesis
    proof cases
      case 1
      with vs show ?thesis by (auto simp: delivers_def split: drain_delivery.splits)
    next
      case 2
      with d have "ts = []" using next_drain_delivery_turn by blast
      with 2 less.prems(1) show ?thesis by simp
    qed
  qed
qed

end

text \<open>
  An invariant of the whole run also survives the start hook and the framework's own steps
  between the hooks, which are recorded and leave the mailbox's messages alone.
\<close>

locale loop_invariant = receive_invariant + drain_invariant +
  assumes started: "inv us s \<Longrightarrow> hook_result imax t (ac_on_start A a) s = (out, s') \<Longrightarrow> inv (us @ [t]) s'"
    and logged: "inv us s \<Longrightarrow> x \<in> {CallReady, CallCloseIntake, CallAbortOffloads, CallOnStop} \<Longrightarrow>
      takes ops [] (lp_ctx s) c \<Longrightarrow> inv us (log_call x (set_ctx c s)\<lparr>lp_actor := a\<rparr>)"
begin

lemma logged_ctx:
  "inv us s \<Longrightarrow> x \<in> {CallReady, CallCloseIntake, CallAbortOffloads, CallOnStop} \<Longrightarrow>
   takes ops [] (lp_ctx s) c \<Longrightarrow> inv us (log_call x (set_ctx c s))"
  using logged [of us s x c "lp_actor s"] by (simp add: log_call_def set_ctx_def)

lemma close_and_drain_inv:
  assumes "inv us s" "close_and_drain imax A ops ts s = (out, s', ts')"
  shows "\<exists>vs. ts = vs @ ts' \<and> inv (us @ vs) s'"
proof -
  let ?s1 = "log_call CallCloseIntake (set_ctx (close_external_intake (lp_ctx s)) s)"
  have "takes ops [] (lp_ctx s) (close_external_intake (lp_ctx s))"
    by (cases "rc_mailbox (lp_ctx s)") (simp_all add: takes_def close_external_intake_def close_external_def)
  then have inv1: "inv us ?s1" using logged_ctx [OF assms(1)] by simp
  show ?thesis
  proof (cases "rc_drain_messages (lp_ctx ?s1)")
    case True
    with assms(2) have "drain_messages imax A ops ts ?s1 = (out, s', ts')" by (simp add: close_and_drain_def Let_def)
    from drain_loop_inv [OF inv1 this] show ?thesis .
  next
    case False
    have "inv us (log_call CallAbortOffloads (set_ctx (abort_offloads (lp_ctx ?s1)) ?s1))"
      by (rule logged_ctx [OF inv1]) (simp_all add: abort_offloads_def)
    with False assms(2) show ?thesis by (auto simp: close_and_drain_def Let_def)
  qed
qed

lemma finish_run_inv:
  assumes "inv us s" "finish_run imax A ops ts s = (out, s')"
  shows "\<exists>vs ts'. ts = vs @ ts' \<and> inv (us @ vs) s'"
proof -
  obtain out2 s2 ts2 where p: "close_and_drain imax A ops ts s = (out2, s2, ts2)" by (metis prod.exhaust)
  from close_and_drain_inv [OF assms(1) p] obtain vs where vs: "ts = vs @ ts2" "inv (us @ vs) s2" by auto
  obtain err a where stop: "ac_on_stop A (lp_actor (log_call CallOnStop s2)) = (err, a)" by force
  from logged [OF vs(2), of CallOnStop "lp_ctx s2" a]
  have "inv (us @ vs) ((log_call CallOnStop s2)\<lparr>lp_actor := a\<rparr>)" by (simp add: set_ctx_def)
  moreover have "s' = s2 \<or> s' = (log_call CallOnStop s2)\<lparr>lp_actor := a\<rparr>"
    using assms(2) stop p by (auto simp: finish_run_def split: loop_outcome.splits)
  ultimately show ?thesis using vs by auto
qed

lemma run_handler_inv:
  assumes "inv [] \<lparr>lp_ctx = defer_automatic_readiness c, lp_actor = a, lp_had_turn = False, lp_calls = [CallOnStart]\<rparr>"
    and "run_handler imax A ops ts a c = (out, s')"
  shows "\<exists>vs ts'. ts = vs @ ts' \<and> inv vs s'"
proof (cases ts)
  case Nil
  with assms show ?thesis by (auto simp: run_handler_def)
next
  case (Cons t us)
  let ?s0 = "\<lparr>lp_ctx = defer_automatic_readiness c, lp_actor = a, lp_had_turn = False, lp_calls = [CallOnStart]\<rparr>"
  obtain out1 s1 where h: "hook_result imax t (ac_on_start A a) ?s0 = (out1, s1)" by force
  from started [OF assms(1) h] have inv1: "inv [t] s1" by simp
  let ?s2 = "log_call CallReady (set_ctx (mark_ready (lp_ctx s1)) s1)"
  have inv2: "inv [t] ?s2"
    by (rule logged_ctx [OF inv1]) (simp_all add: mark_ready_def)
  show ?thesis
  proof (cases "out1 = Ran")
    case False
    with assms(2) Cons h have "s' = s1" by (auto simp: run_handler_def split: loop_outcome.splits)
    with inv1 Cons show ?thesis by (auto intro: exI [where x = "[t]"])
  next
    case ran: True
    show ?thesis
    proof (cases "rc_stop_requested (lp_ctx ?s2)")
      case True
      with assms(2) Cons h ran have "finish_run imax A ops us ?s2 = (out, s')"
        by (simp add: run_handler_def Let_def)
      from finish_run_inv [OF inv2 this] Cons show ?thesis by (metis append_Cons append_Nil)
    next
      case False
      obtain r s3 ts3 where loop: "receive_loop imax A ops us ?s2 = (r, s3, ts3)" by (metis prod.exhaust)
      from receive_loop_inv [OF inv2 loop] obtain vs where vs: "us = vs @ ts3" "inv ([t] @ vs) s3" by auto
      have "(r \<noteq> Ran \<and> s' = s3) \<or> (r = Ran \<and> finish_run imax A ops ts3 s3 = (out, s'))"
        using assms(2) Cons h ran False loop
        by (auto simp: run_handler_def Let_def split: loop_outcome.splits)
      then show ?thesis
      proof
        assume "r \<noteq> Ran \<and> s' = s3"
        with vs Cons show ?thesis by (auto intro: exI [where x = "[t] @ vs"])
      next
        assume "r = Ran \<and> finish_run imax A ops ts3 s3 = (out, s')"
        with finish_run_inv [OF vs(2)] vs(1) Cons show ?thesis
          by (metis append_Cons append_Nil append_assoc)
      qed
    qed
  qed
qed

end

end
