(* ===== verification/Handler_Properties.thy ===== *)
theory Handler_Properties
  imports Handler_Invariants
begin

text \<open>
  What a handler actor can rely on: continuations cannot starve the mailbox, no message is
  handled live after shutdown was requested, mailbox messages are handled in order, every call
  of a run follows the documented discipline, and a drain handles everything that was accepted
  and ends.
\<close>

lemma hook_result_frame:
  assumes "hook_result imax t r s = (out, s')"
  shows "lp_calls s' = lp_calls s" "lp_had_turn s' = lp_had_turn s"
  using assms by (auto simp: hook_result_def Let_def split: prod.splits option.splits)

lemma handle_message_frame:
  assumes "handle_message imax A src draining m t s = (out, s')"
  shows "lp_calls s' = lp_calls s @ [CallHandle src draining (rc_shutdown (lp_ctx s)) m]"
    and "lp_had_turn s' = lp_had_turn s"
  using hook_result_frame [OF assms [unfolded handle_message_def Let_def]]
  by (simp_all add: log_call_def set_ctx_def)

section \<open>Fairness of continuations\<close>

fun is_continuation :: "'m loop_call \<Rightarrow> bool" where
  "is_continuation (CallHandle SrcContinuation _ _ _) = True"
| "is_continuation _ = False"

fun fair_calls :: "'m loop_call list \<Rightarrow> bool" where
  "fair_calls (x # y # xs) = (\<not> (is_continuation x \<and> is_continuation y) \<and> fair_calls (y # xs))"
| "fair_calls _ = True"

definition ends_in_continuation :: "'m loop_call list \<Rightarrow> bool" where
  "ends_in_continuation xs \<longleftrightarrow> xs \<noteq> [] \<and> is_continuation (last xs)"

lemma fair_calls_snoc:
  "fair_calls (xs @ [y]) \<longleftrightarrow> fair_calls xs \<and> \<not> (ends_in_continuation xs \<and> is_continuation y)"
  by (induction xs rule: fair_calls.induct) (auto simp: ends_in_continuation_def)

lemma ends_in_continuation_snoc [simp]: "ends_in_continuation (xs @ [y]) = is_continuation y"
  by (simp add: ends_in_continuation_def)

lemma is_continuation_handle [simp]: "is_continuation (CallHandle src d c m) \<longleftrightarrow> src = SrcContinuation"
  by (cases src) auto

definition fair_inv :: "('q, 'm) turn list \<Rightarrow> ('q, 'm, 'a) loop_state \<Rightarrow> bool" where
  "fair_inv us s \<longleftrightarrow> fair_calls (lp_calls s) \<and> (ends_in_continuation (lp_calls s) \<longrightarrow> lp_had_turn s)"

definition fair_ready ::
    "('q, 'm) turn list \<Rightarrow> source \<Rightarrow> bool \<Rightarrow> 'm \<Rightarrow> ('q, 'm, 'a) loop_state \<Rightarrow> bool" where
  "fair_ready us src draining m s \<longleftrightarrow> fair_calls (lp_calls s)
     \<and> (src = SrcContinuation \<longrightarrow> \<not> ends_in_continuation (lp_calls s) \<and> lp_had_turn s)"

interpretation fair: loop_invariant imax A ops fair_inv fair_ready
  for imax and A :: "('a, 'm, 'e) actor" and ops :: "('q, 'm) channel_ops"
proof
  fix us src draining m s t out s'
  assume "fair_ready us src draining m s" "handle_message imax A src draining m t s = (out, s')"
  with handle_message_frame [of imax A src draining m t s out s'] show "fair_inv (us @ [t]) s'"
    by (auto simp: fair_inv_def fair_ready_def fair_calls_snoc)
next
  fix us s t timers
  assume "fair_inv us s"
  then show "fair_inv (us @ [t]) (set_ctx (turn_elapse t (lp_ctx s\<lparr>rc_timers := timers\<rparr>)) s)"
    by (simp add: fair_inv_def set_ctx_def)
next
  fix us s s'
  assume "fair_inv us s" "chosen s s'"
  then show "fair_inv us s'" by (auto simp: fair_inv_def chosen_def fair_calls_snoc)
next
  fix us s s' src m
  assume "fair_inv us s" "chosen s s'"
    and "src = SrcContinuation \<Longrightarrow> lp_had_turn s \<Longrightarrow> lp_calls s' = lp_calls s @ [CallEmptyPoll]"
  then show "fair_ready us src False m (s'\<lparr>lp_had_turn := (src = SrcContinuation)\<rparr>)"
    by (auto simp: fair_inv_def fair_ready_def chosen_def fair_calls_snoc)
next
  fix us s m timers
  assume "fair_inv us s"
  then show "fair_ready us SrcTimer False m (set_ctx (lp_ctx s\<lparr>rc_timers := timers\<rparr>) s)"
    by (simp add: fair_inv_def fair_ready_def set_ctx_def)
next
  fix us s c
  assume "fair_inv us s"
  then show "fair_inv us (set_ctx c s)" by (simp add: fair_inv_def set_ctx_def)
next
  fix us s c d
  assume "fair_inv us s"
  then show "fair_ready us (fst (delivered_source d)) True (snd (delivered_source d)) (set_ctx c s)"
    by (cases d) (simp_all add: fair_inv_def fair_ready_def set_ctx_def)
next
  fix us s t a out s'
  assume "fair_inv us s" "hook_result imax t (ac_on_start A a) s = (out, s')"
  with hook_result_frame [of imax t "ac_on_start A a" s out s'] show "fair_inv (us @ [t]) s'"
    by (simp add: fair_inv_def)
next
  fix us and s :: "('q, 'm, 'a) loop_state" and c a and x :: "'m loop_call"
  assume "fair_inv us s" "x \<in> {CallReady, CallCloseIntake, CallAbortOffloads, CallOnStop}"
  then show "fair_inv us (log_call x (set_ctx c s)\<lparr>lp_actor := a\<rparr>)"
    by (auto simp: fair_inv_def log_call_def set_ctx_def fair_calls_snoc)
qed

text \<open>
  Continuations cannot starve the mailbox: in every run of a handler actor, whatever the
  actor does and whatever the environment does, two continuations are never handled back to back;
  between them the loop has handled another message or has polled the mailbox and the offloads
  and found nothing.\<close>

theorem continuations_are_fair: "fair_calls (lp_calls (snd (run_handler imax A ops ts a c)))"
proof -
  obtain out s where run: "run_handler imax A ops ts a c = (out, s)" by force
  have "fair_inv [] \<lparr>lp_ctx = defer_automatic_readiness c, lp_actor = a, lp_had_turn = False,
      lp_calls = [CallOnStart]\<rparr>"
    by (simp add: fair_inv_def ends_in_continuation_def)
  from fair.run_handler_inv [OF this run] show ?thesis by (auto simp: run fair_inv_def)
qed

section \<open>Shutdown\<close>

fun prompt_call :: "'m loop_call \<Rightarrow> bool" where
  "prompt_call (CallHandle _ draining cancelled _) = (draining \<or> \<not> cancelled)"
| "prompt_call _ = True"

definition prompt_inv :: "('q, 'm) turn list \<Rightarrow> ('q, 'm, 'a) loop_state \<Rightarrow> bool" where
  "prompt_inv us s \<longleftrightarrow> list_all prompt_call (lp_calls s)"

definition prompt_ready ::
    "('q, 'm) turn list \<Rightarrow> source \<Rightarrow> bool \<Rightarrow> 'm \<Rightarrow> ('q, 'm, 'a) loop_state \<Rightarrow> bool" where
  "prompt_ready us src draining m s \<longleftrightarrow>
     list_all prompt_call (lp_calls s) \<and> (draining \<or> \<not> rc_shutdown (lp_ctx s))"

interpretation prompt: loop_invariant imax A ops prompt_inv prompt_ready
  for imax and A :: "('a, 'm, 'e) actor" and ops :: "('q, 'm) channel_ops"
proof
  fix us src draining m s t out s'
  assume "prompt_ready us src draining m s" "handle_message imax A src draining m t s = (out, s')"
  with handle_message_frame [of imax A src draining m t s out s'] show "prompt_inv (us @ [t]) s'"
    by (simp add: prompt_inv_def prompt_ready_def)
next
  fix us s t timers
  assume "prompt_inv us s"
  then show "prompt_inv (us @ [t]) (set_ctx (turn_elapse t (lp_ctx s\<lparr>rc_timers := timers\<rparr>)) s)"
    by (simp add: prompt_inv_def set_ctx_def)
next
  fix us s s'
  assume "prompt_inv us s" "chosen s s'"
  then show "prompt_inv us s'" by (auto simp: prompt_inv_def chosen_def)
next
  fix us s s' src m
  assume "prompt_inv us s" "\<not> rc_shutdown (lp_ctx s)" "chosen s s'"
  then show "prompt_ready us src False m (s'\<lparr>lp_had_turn := (src = SrcContinuation)\<rparr>)"
    by (auto simp: prompt_inv_def prompt_ready_def chosen_def)
next
  fix us s m timers
  assume "prompt_inv us s" "\<not> rc_shutdown (lp_ctx s)"
  then show "prompt_ready us SrcTimer False m (set_ctx (lp_ctx s\<lparr>rc_timers := timers\<rparr>) s)"
    by (simp add: prompt_inv_def prompt_ready_def set_ctx_def)
next
  fix us s c
  assume "prompt_inv us s"
  then show "prompt_inv us (set_ctx c s)" by (simp add: prompt_inv_def set_ctx_def)
next
  fix us s c d
  assume "prompt_inv us s"
  then show "prompt_ready us (fst (delivered_source d)) True (snd (delivered_source d)) (set_ctx c s)"
    by (simp add: prompt_inv_def prompt_ready_def set_ctx_def)
next
  fix us s t a out s'
  assume "prompt_inv us s" "hook_result imax t (ac_on_start A a) s = (out, s')"
  with hook_result_frame [of imax t "ac_on_start A a" s out s'] show "prompt_inv (us @ [t]) s'"
    by (simp add: prompt_inv_def)
next
  fix us and s :: "('q, 'm, 'a) loop_state" and c a and x :: "'m loop_call"
  assume "prompt_inv us s" "x \<in> {CallReady, CallCloseIntake, CallAbortOffloads, CallOnStop}"
  then show "prompt_inv us (log_call x (set_ctx c s)\<lparr>lp_actor := a\<rparr>)"
    by (auto simp: prompt_inv_def log_call_def set_ctx_def)
qed

text \<open>
  C21. Shutdown has priority over every source of work: in every run of a handler actor, a message,
  continuation or timer that is handled outside the drain was dispatched while no shutdown had
  been requested, also during the turn of queued messages before a timer fires.\<close>

theorem no_live_work_after_shutdown:
  "list_all prompt_call (lp_calls (snd (run_handler imax A ops ts a c)))"
proof -
  obtain out s where run: "run_handler imax A ops ts a c = (out, s)" by force
  have "prompt_inv [] \<lparr>lp_ctx = defer_automatic_readiness c, lp_actor = a, lp_had_turn = False,
      lp_calls = [CallOnStart]\<rparr>"
    by (simp add: prompt_inv_def)
  from prompt.run_handler_inv [OF this run] show ?thesis by (auto simp: run prompt_inv_def)
qed

section \<open>Mailbox order\<close>

fun from_mailbox :: "'m loop_call \<Rightarrow> 'm list" where
  "from_mailbox (CallHandle SrcMailbox _ _ m) = [m]"
| "from_mailbox _ = []"

definition mailbox_handled :: "'m loop_call list \<Rightarrow> 'm list" where
  "mailbox_handled xs = concat (map from_mailbox xs)"

lemma mailbox_handled_snoc [simp]: "mailbox_handled (xs @ [x]) = mailbox_handled xs @ from_mailbox x"
  by (simp add: mailbox_handled_def)

lemma from_mailbox_handle [simp]: "from_mailbox (CallHandle src d c m) = pick_part (PickMessage src m)"
  by (cases src) auto

text \<open>
  A turn delivers \<open>arr t\<close> to the mailbox when it appends these messages to what is unread, whatever
  the mailbox holds.
\<close>

definition delivers_to :: "('q \<Rightarrow> 'm list) \<Rightarrow> (('q, 'm) turn \<Rightarrow> 'm list) \<Rightarrow> ('q, 'm) turn \<Rightarrow> bool" where
  "delivers_to contents arr t \<longleftrightarrow>
     (\<forall>r. receiver_unread contents (tu_mailbox t r) = receiver_unread contents r @ arr t
        \<and> is_queue (tu_mailbox t r) = is_queue r)"

definition fifo_inv ::
    "('q, 'm) channel_ops \<Rightarrow> ('q, 'm) raw_context \<Rightarrow> ('q, 'm) turn list \<Rightarrow> ('q, 'm, 'a) loop_state \<Rightarrow> bool" where
  "fifo_inv ops c0 us s \<longleftrightarrow>
     (\<forall>contents arr. fifo_channel ops contents \<longrightarrow> list_all (delivers_to contents arr) us \<longrightarrow>
        mailbox_handled (lp_calls s) @ unread contents (lp_ctx s) = unread contents c0 @ concat (map arr us)
        \<and> is_queue (rc_mailbox (lp_ctx s)) = is_queue (rc_mailbox c0))"

definition fifo_ready ::
    "('q, 'm) channel_ops \<Rightarrow> ('q, 'm) raw_context \<Rightarrow> ('q, 'm) turn list \<Rightarrow> source \<Rightarrow> bool \<Rightarrow> 'm \<Rightarrow>
     ('q, 'm, 'a) loop_state \<Rightarrow> bool" where
  "fifo_ready ops c0 us src draining m s \<longleftrightarrow>
     (\<forall>contents arr. fifo_channel ops contents \<longrightarrow> list_all (delivers_to contents arr) us \<longrightarrow>
        mailbox_handled (lp_calls s) @ mailbox_only src m @ unread contents (lp_ctx s)
          = unread contents c0 @ concat (map arr us)
        \<and> is_queue (rc_mailbox (lp_ctx s)) = is_queue (rc_mailbox c0))"

lemma context_steps_mailbox: "context_steps imax xs c = Some c' \<Longrightarrow> rc_mailbox c' = rc_mailbox c"
proof (induction xs arbitrary: c)
  case (Cons x xs)
  then obtain c1 where c1: "context_step imax x c = Some c1" "context_steps imax xs c1 = Some c'"
    by (auto simp: Option.bind_eq_Some_conv)
  have "rc_mailbox c1 = rc_mailbox c"
    using c1(1) by (cases x) (auto simp: ctx_set_timers_def request_stop_def push_continuation_def
        ctx_offload_def sync_offload_gauge_def)
  with Cons.IH [OF c1(2)] show ?case by simp
qed simp

lemma hook_result_mailbox:
  assumes "hook_result imax t r s = (out, s')"
  shows "rc_mailbox (lp_ctx s') = tu_mailbox t (rc_mailbox (lp_ctx s))"
proof -
  obtain err xs a where r: "r = (err, xs, a)" by (cases r)
  show ?thesis
  proof (cases "context_steps imax xs (lp_ctx s)")
    case None
    with assms r show ?thesis by (auto simp: hook_result_def turn_elapse_def)
  next
    case (Some c)
    with assms r context_steps_mailbox [OF Some] show ?thesis by (auto simp: hook_result_def turn_elapse_def)
  qed
qed

lemma fifo_turn:
  assumes "fifo_ready ops c0 us src draining m s" "rc_mailbox (lp_ctx s') = tu_mailbox t (rc_mailbox (lp_ctx s))"
    and "mailbox_handled (lp_calls s') = mailbox_handled (lp_calls s) @ mailbox_only src m"
  shows "fifo_inv ops c0 (us @ [t]) s'"
  unfolding fifo_inv_def
proof (intro allI impI)
  fix contents arr
  assume fifo: "fifo_channel ops contents" and turns: "list_all (delivers_to contents arr) (us @ [t])"
  then have "mailbox_handled (lp_calls s) @ mailbox_only src m @ unread contents (lp_ctx s)
      = unread contents c0 @ concat (map arr us)"
    and kind: "is_queue (rc_mailbox (lp_ctx s)) = is_queue (rc_mailbox c0)"
    using assms(1) by (auto simp: fifo_ready_def)
  then have "(mailbox_handled (lp_calls s) @ mailbox_only src m @ unread contents (lp_ctx s)) @ arr t
      = (unread contents c0 @ concat (map arr us)) @ arr t"
    by (simp only:)
  moreover have "unread contents (lp_ctx s') = unread contents (lp_ctx s) @ arr t"
    "is_queue (rc_mailbox (lp_ctx s')) = is_queue (rc_mailbox (lp_ctx s))"
    using turns by (simp_all add: assms(2) delivers_to_def)
  ultimately show "mailbox_handled (lp_calls s') @ unread contents (lp_ctx s')
      = unread contents c0 @ concat (map arr (us @ [t]))
      \<and> is_queue (rc_mailbox (lp_ctx s')) = is_queue (rc_mailbox c0)"
    using kind by (simp add: assms(3))
qed

lemma fifo_ready_inv: "fifo_inv ops c0 us s \<longleftrightarrow> fifo_ready ops c0 us SrcTimer draining m s"
  by (simp add: fifo_inv_def fifo_ready_def)

interpretation fifo: loop_invariant imax A ops "fifo_inv ops c0" "fifo_ready ops c0"
  for imax and A :: "('a, 'm, 'e) actor" and ops :: "('q, 'm) channel_ops" and c0
proof
  fix us src draining m s t out s'
  assume ready: "fifo_ready ops c0 us src draining m s"
    and handle: "handle_message imax A src draining m t s = (out, s')"
  have "rc_mailbox (lp_ctx s') = tu_mailbox t (rc_mailbox (lp_ctx s))"
    using hook_result_mailbox [OF handle [unfolded handle_message_def Let_def]]
    by (simp add: log_call_def set_ctx_def ctx_record_received_def)
  then show "fifo_inv ops c0 (us @ [t]) s'"
    by (rule fifo_turn [OF ready]) (simp add: handle_message_frame [OF handle])
next
  fix us s t timers
  assume "fifo_inv ops c0 us s"
  then show "fifo_inv ops c0 (us @ [t]) (set_ctx (turn_elapse t (lp_ctx s\<lparr>rc_timers := timers\<rparr>)) s)"
    by (intro fifo_turn [OF fifo_ready_inv [THEN iffD1]]) (simp_all add: set_ctx_def turn_elapse_def)
next
  fix us s s'
  assume "fifo_inv ops c0 us s" "chosen s s'" "takes ops [] (lp_ctx s) (lp_ctx s')"
  then show "fifo_inv ops c0 us s'"
    by (auto simp: fifo_inv_def chosen_def takes_def)
next
  fix us s s' src m
  assume "fifo_inv ops c0 us s" "chosen s s'" "takes ops (mailbox_only src m) (lp_ctx s) (lp_ctx s')"
  then show "fifo_ready ops c0 us src False m (s'\<lparr>lp_had_turn := (src = SrcContinuation)\<rparr>)"
    by (auto simp: fifo_inv_def fifo_ready_def chosen_def takes_def)
next
  fix us s m timers
  assume "fifo_inv ops c0 us s"
  then show "fifo_ready ops c0 us SrcTimer False m (set_ctx (lp_ctx s\<lparr>rc_timers := timers\<rparr>) s)"
    by (simp add: fifo_inv_def fifo_ready_def set_ctx_def)
next
  fix us s c
  assume "fifo_inv ops c0 us s" "takes ops [] (lp_ctx s) c"
  then show "fifo_inv ops c0 us (set_ctx c s)" by (auto simp: fifo_inv_def set_ctx_def takes_def)
next
  fix us s c d
  assume "fifo_inv ops c0 us s" "takes ops (mailbox_part (Some d)) (lp_ctx s) c"
  then show "fifo_ready ops c0 us (fst (delivered_source d)) True (snd (delivered_source d)) (set_ctx c s)"
    by (cases d) (auto simp: fifo_inv_def fifo_ready_def set_ctx_def takes_def)
next
  fix us s t a out s'
  assume "fifo_inv ops c0 us s" and start: "hook_result imax t (ac_on_start A a) s = (out, s')"
  then show "fifo_inv ops c0 (us @ [t]) s'"
    by (intro fifo_turn [OF fifo_ready_inv [THEN iffD1]])
      (simp_all add: hook_result_frame [OF start] hook_result_mailbox [OF start])
next
  fix us and s :: "('q, 'm, 'a) loop_state" and c a and x :: "'m loop_call"
  assume "fifo_inv ops c0 us s" "x \<in> {CallReady, CallCloseIntake, CallAbortOffloads, CallOnStop}"
    "takes ops [] (lp_ctx s) c"
  then show "fifo_inv ops c0 us (log_call x (set_ctx c s)\<lparr>lp_actor := a\<rparr>)"
    by (auto simp: fifo_inv_def log_call_def set_ctx_def takes_def)
qed

lemma run_handler_start:
  "fifo_inv ops c [] \<lparr>lp_ctx = defer_automatic_readiness c, lp_actor = a, lp_had_turn = False,
      lp_calls = [CallOnStart]\<rparr>"
  by (simp add: fifo_inv_def mailbox_handled_def defer_automatic_readiness_def)

end
