(* ===== verification/Handler_Drain.thy ===== *)
theory Handler_Drain
  imports Handler_Properties "HOL-Library.Sublist"
begin

text \<open>
  How the run of a handler actor ends: the order of its calls, that a drain leaves nothing
  behind, and that it ends.
\<close>

section \<open>The order of calls\<close>

fun live_call :: "'m loop_call \<Rightarrow> bool" where
  "live_call (CallHandle _ draining _ _) = (\<not> draining)"
| "live_call CallEmptyPoll = True"
| "live_call _ = False"

fun drain_call :: "'m loop_call \<Rightarrow> bool" where
  "drain_call (CallHandle src draining _ _) = (draining \<and> src \<in> {SrcMailbox, SrcOffload})"
| "drain_call _ = False"

definition extends ::
    "('m loop_call \<Rightarrow> bool) \<Rightarrow> bool \<Rightarrow> 'm loop_call list \<Rightarrow> ('q, 'm, 'a) loop_state \<Rightarrow> bool" where
  "extends P drain base s \<longleftrightarrow> (\<exists>xs. lp_calls s = base @ xs \<and> list_all P xs)
     \<and> rc_drain_messages (lp_ctx s) = drain"

lemma extends_snoc:
  assumes "extends P drain base s" "lp_calls s' = lp_calls s @ xs" "list_all P xs"
    and "rc_drain_messages (lp_ctx s') = rc_drain_messages (lp_ctx s)"
  shows "extends P drain base s'"
  using assms by (fastforce simp: extends_def)

lemma context_steps_frame:
  "context_steps imax xs c = Some c' \<Longrightarrow>
   rc_drain_messages c' = rc_drain_messages c \<and> js_finished (rc_offloads c') = js_finished (rc_offloads c)"
proof (induction xs arbitrary: c)
  case (Cons x xs)
  then obtain c1 where c1: "context_step imax x c = Some c1" "context_steps imax xs c1 = Some c'"
    by (auto simp: Option.bind_eq_Some_conv)
  have "rc_drain_messages c1 = rc_drain_messages c \<and> js_finished (rc_offloads c1) = js_finished (rc_offloads c)"
    using c1(1) by (cases x) (auto simp: ctx_set_timers_def request_stop_def push_continuation_def
        ctx_offload_def sync_offload_gauge_def)
  with Cons.IH [OF c1(2)] show ?case by simp
qed simp

lemma hook_result_drain:
  assumes "hook_result imax t r s = (out, s')"
  shows "rc_drain_messages (lp_ctx s') = rc_drain_messages (lp_ctx s)"
proof -
  obtain err xs a where r: "r = (err, xs, a)" by (cases r)
  show ?thesis
    using assms r context_steps_frame [of imax xs "lp_ctx s"]
    by (cases "context_steps imax xs (lp_ctx s)") (auto simp: hook_result_def turn_elapse_def)
qed

lemma handle_message_drain:
  "handle_message imax A src draining m t s = (out, s') \<Longrightarrow>
   rc_drain_messages (lp_ctx s') = rc_drain_messages (lp_ctx s)"
  using hook_result_drain [of imax t] unfolding handle_message_def Let_def
  by (fastforce simp: log_call_def set_ctx_def ctx_record_received_def)

lemma handle_extends:
  assumes "extends P drain base s" "handle_message imax A src draining m t s = (out, s')"
    and "\<And>x. P (CallHandle src draining x m)"
  shows "extends P drain base s'"
  using extends_snoc [OF assms(1) handle_message_frame(1) [OF assms(2)]] assms(3)
    handle_message_drain [OF assms(2)] by simp

lemma elapse_drain [simp]: "rc_drain_messages (turn_elapse t c) = rc_drain_messages c"
  by (simp add: turn_elapse_def)

interpretation live: receive_invariant imax A ops "\<lambda>us. extends live_call drain base"
    "\<lambda>us src draining m s. \<not> draining \<and> extends live_call drain base s"
  for imax and A :: "('a, 'm, 'e) actor" and ops :: "('q, 'm) channel_ops" and drain base
proof (unfold_locales, goal_cases)
  case (1 us src draining m s t out s')
  then show ?case using handle_extends [of live_call drain base s imax A src draining m t out s'] by simp
next
  case (3 us s s')
  then show ?case by (auto simp: chosen_def intro: extends_snoc [of live_call drain base s s' "[]"]
      extends_snoc [of live_call drain base s s' "[CallEmptyPoll]"])
next
  case (4 us s s' src m)
  then have "extends live_call drain base s'" by (auto simp: chosen_def intro: extends_snoc [of live_call drain base s s' "[]"]
      extends_snoc [of live_call drain base s s' "[CallEmptyPoll]"])
  then show ?case by (simp add: extends_def)
qed (auto simp: extends_def set_ctx_def)

interpretation draining: drain_invariant imax A ops "\<lambda>us. extends drain_call drain base"
    "\<lambda>us src draining m s. draining \<and> src \<in> {SrcMailbox, SrcOffload} \<and> extends drain_call drain base s"
  for imax and A :: "('a, 'm, 'e) actor" and ops :: "('q, 'm) channel_ops" and drain base
proof (unfold_locales, goal_cases)
  case (1 us src draining m s t out s')
  then show ?case using handle_extends [of drain_call drain base s imax A src draining m t out s'] by simp
next
  case (4 us s c d)
  then show ?case by (cases d) (auto simp: extends_def set_ctx_def polled_def)
qed (auto simp: extends_def set_ctx_def polled_def)

text \<open>The calls of a complete run; \<open>drained\<close> are those between closing intake and \<open>on_stop\<close>.\<close>

definition protocol :: "'m loop_call list \<Rightarrow> 'm loop_call list \<Rightarrow> 'm loop_call list" where
  "protocol live drained = [CallOnStart, CallReady] @ live @ [CallCloseIntake] @ drained @ [CallOnStop]"

definition drained_calls :: "bool \<Rightarrow> 'm loop_call list \<Rightarrow> bool" where
  "drained_calls drain xs = (if drain then list_all drain_call xs else xs = [CallAbortOffloads])"

definition follows :: "bool \<Rightarrow> 'e loop_outcome \<Rightarrow> 'm loop_call list \<Rightarrow> bool" where
  "follows drain out calls \<longleftrightarrow>
     (\<exists>live drained. list_all live_call live \<and> drained_calls drain drained
        \<and> (case out of Ran \<Rightarrow> calls = protocol live drained | _ \<Rightarrow> prefix calls (protocol live drained)))"

lemma drained_nonempty: "\<exists>xs. drained_calls drain xs"
  by (cases drain) (auto simp: drained_calls_def intro: exI [of _ "[]"])

lemma finish_run_follows:
  assumes "extends live_call drain [CallOnStart, CallReady] s" "finish_run imax A ops ts s = (out, s')"
  shows "follows drain out (lp_calls s')"
proof -
  let ?s1 = "log_call CallCloseIntake (set_ctx (close_external_intake (lp_ctx s)) s)"
  from assms(1) obtain live where live: "lp_calls s = [CallOnStart, CallReady] @ live" "list_all live_call live"
    and drain: "rc_drain_messages (lp_ctx s) = drain" by (auto simp: extends_def)
  let ?base = "[CallOnStart, CallReady] @ live @ [CallCloseIntake]"
  have base: "lp_calls ?s1 = ?base" and drain1: "rc_drain_messages (lp_ctx ?s1) = drain"
    using live(1) drain by (simp_all add: log_call_def set_ctx_def close_external_intake_def)
  obtain out2 s2 ts2 where p: "close_and_drain imax A ops ts s = (out2, s2, ts2)" by (metis prod.exhaust)
  have "\<exists>xs. lp_calls s2 = ?base @ xs \<and> drained_calls drain xs"
  proof (cases drain)
    case True
    have "extends drain_call drain ?base ?s1" using base drain1 by (simp add: extends_def)
    moreover have "drain_messages imax A ops ts ?s1 = (out2, s2, ts2)"
      using p drain1 True by (simp add: close_and_drain_def Let_def)
    ultimately have "extends drain_call drain ?base s2" using draining.drain_loop_inv by fastforce
    with True show ?thesis by (auto simp: extends_def drained_calls_def)
  next
    case False
    then have "s2 = log_call CallAbortOffloads (set_ctx (abort_offloads (lp_ctx ?s1)) ?s1)"
      using p drain1 by (simp add: close_and_drain_def Let_def)
    with False base show ?thesis by (simp add: log_call_def set_ctx_def drained_calls_def)
  qed
  then obtain xs where xs: "lp_calls s2 = ?base @ xs" "drained_calls drain xs" by auto
  obtain err a where stop: "ac_on_stop A (lp_actor (log_call CallOnStop s2)) = (err, a)" by force
  have "(out2 = Ran \<and> lp_calls s' = ?base @ xs @ [CallOnStop]) \<or> (out2 \<noteq> Ran \<and> out = out2 \<and> lp_calls s' = ?base @ xs)"
    using assms(2) stop p xs(1)
    by (auto simp: finish_run_def log_call_def split: loop_outcome.splits)
  with live(2) xs(2) show ?thesis
    unfolding follows_def
    by - (rule exI [of _ live], rule exI [of _ xs], auto simp: protocol_def split: loop_outcome.splits)
qed

lemma started_follows: "out \<noteq> Ran \<Longrightarrow> follows drain out [CallOnStart]"
  using drained_nonempty [of drain]
  by (cases out) (auto simp: follows_def protocol_def intro: exI [of _ "[]"])

lemma live_follows:
  fixes live :: "'m loop_call list"
  assumes "out \<noteq> Ran" "list_all live_call live"
  shows "follows drain out ([CallOnStart, CallReady] @ live)"
proof -
  from drained_nonempty [of drain] obtain xs :: "'m loop_call list" where "drained_calls drain xs" by auto
  moreover have "prefix ([CallOnStart, CallReady] @ live) (protocol live xs)" by (simp add: protocol_def)
  ultimately show ?thesis using assms unfolding follows_def by (cases out) auto
qed

text \<open>
  C32. The calls of a run follow the documented order: the start hook, readiness, live handling,
  closing of external intake, then either the drain or the abort of the offloads, and the stop
  hook once at the end.  A run that fails, panics or is still going on has made a prefix of such
  calls, and only a run that made all of them ends well.\<close>

theorem run_follows_protocol:
  "case run_handler imax A ops ts a c of
     (out, s) \<Rightarrow> follows (rc_drain_messages c) out (lp_calls s)"
proof -
  let ?s0 = "\<lparr>lp_ctx = defer_automatic_readiness c, lp_actor = a, lp_had_turn = False, lp_calls = [CallOnStart]\<rparr>"
  let ?d = "rc_drain_messages c"
  obtain out s where run: "run_handler imax A ops ts a c = (out, s)" by force
  have "follows ?d out (lp_calls s)"
  proof (cases ts)
    case Nil
    with run show ?thesis by (auto simp: run_handler_def started_follows)
  next
    case (Cons t us)
    obtain out1 s1 where h: "hook_result imax t (ac_on_start A a) ?s0 = (out1, s1)" by force
    have s1: "lp_calls s1 = [CallOnStart]" "rc_drain_messages (lp_ctx s1) = ?d"
      using hook_result_frame(1) [OF h] hook_result_drain [OF h] by (simp_all add: defer_automatic_readiness_def)
    let ?s2 = "log_call CallReady (set_ctx (mark_ready (lp_ctx s1)) s1)"
    have s2: "extends live_call ?d [CallOnStart, CallReady] ?s2"
      using s1 by (simp add: extends_def log_call_def set_ctx_def mark_ready_def)
    show ?thesis
    proof (cases "out1 = Ran")
      case False
      with run Cons h have "s = s1" "out = out1" by (auto simp: run_handler_def split: loop_outcome.splits)
      with False s1(1) show ?thesis by (simp add: started_follows)
    next
      case ran: True
      show ?thesis
      proof (cases "rc_stop_requested (lp_ctx ?s2)")
        case True
        with run Cons h ran have "finish_run imax A ops us ?s2 = (out, s)"
          by (simp add: run_handler_def Let_def)
        from finish_run_follows [OF s2 this] show ?thesis .
      next
        case False
        obtain r s3 ts3 where loop: "receive_loop imax A ops us ?s2 = (r, s3, ts3)" by (metis prod.exhaust)
        from live.receive_loop_inv [OF s2 loop] have s3: "extends live_call ?d [CallOnStart, CallReady] s3" by auto
        have "(r \<noteq> Ran \<and> s = s3 \<and> out = r) \<or> (r = Ran \<and> finish_run imax A ops ts3 s3 = (out, s))"
          using run Cons h ran False loop
          by (auto simp: run_handler_def Let_def split: loop_outcome.splits)
        then show ?thesis
        proof
          assume r: "r \<noteq> Ran \<and> s = s3 \<and> out = r"
          from s3 obtain live where live: "lp_calls s3 = [CallOnStart, CallReady] @ live" "list_all live_call live"
            by (auto simp: extends_def)
          with r show ?thesis by (simp add: live_follows [simplified])
        qed (use finish_run_follows [OF s3] in blast)
      qed
    qed
  qed
  with run show ?thesis by simp
qed

section \<open>A drain leaves nothing behind\<close>

definition drained_out :: "('q, 'm) channel_ops \<Rightarrow> ('q, 'm) raw_context \<Rightarrow> bool" where
  "drained_out ops c \<longleftrightarrow>
     (\<exists>mb. mailbox_ended ops mb \<and> is_queue mb = is_queue (rc_mailbox c))
     \<or> js_len (rc_offloads c) = 0 \<and> (\<forall>contents. fifo_channel ops contents \<longrightarrow> unread contents c = [])"

lemma drain_frame_end: "drain_frame ops c (DrainEnd, c') \<Longrightarrow> drained_out ops c'"
  by (auto simp: drain_frame_def drained_out_def)

lemma drain_wait_end: "drain_wait ops ts c = (DrainFinished, c', ts') \<Longrightarrow> drained_out ops c'"
proof (induction ts arbitrary: c)
  case (Cons t ts)
  then show ?case using drain_select_frame [of ops c "tu_picks t"]
    by (auto simp: drain_wait.simps dest: drain_frame_end split: prod.splits drain_poll.splits)
qed (simp add: drain_wait.simps)

lemma next_drain_end: "next_drain_delivery ops ts c = (DrainFinished, c', ts') \<Longrightarrow> drained_out ops c'"
  using drain_attempt_frame [of ops c]
  by (auto simp: next_drain_delivery_def dest: drain_frame_end drain_wait_end split: prod.splits drain_poll.splits)

lemma drain_loop_end: "drain_messages imax A ops ts s = (Ran, s', ts') \<Longrightarrow> drained_out ops (lp_ctx s')"
proof (induction imax A ops ts s rule: drain_messages.induct)
  case (1 imax A ops ts s)
  obtain d c ts1 where d: "next_drain_delivery ops ts (lp_ctx s) = (d, c, ts1)" by (metis prod.exhaust)
  from 1 d show ?case
    by (auto simp: drain_messages.simps [of _ _ _ ts] set_ctx_def dest: next_drain_end
        split: drain_delivery.splits list.splits prod.splits loop_outcome.splits)
qed

lemma finish_run_drained:
  assumes "finish_run imax A ops ts s = (Ran, s')" "rc_drain_messages (lp_ctx s)"
  shows "drained_out ops (lp_ctx s')"
proof -
  obtain out2 s2 ts2 where p: "close_and_drain imax A ops ts s = (out2, s2, ts2)" by (metis prod.exhaust)
  from assms(1) p have ran: "out2 = Ran" and ctx: "lp_ctx s' = lp_ctx s2"
    by (auto simp: finish_run_def log_call_def split: loop_outcome.splits prod.splits)
  have "rc_drain_messages (close_external_intake (lp_ctx s))" using assms(2) by (simp add: close_external_intake_def)
  with p ran have "\<exists>s1. drain_messages imax A ops ts s1 = (Ran, s2, ts2)"
    by (auto simp: close_and_drain_def Let_def log_call_def set_ctx_def split: if_splits)
  with ctx show ?thesis by (auto dest: drain_loop_end)
qed

lemma run_handler_drained:
  assumes "run_handler imax A ops ts a c = (Ran, s)" "rc_drain_messages c"
  shows "drained_out ops (lp_ctx s)"
proof (cases ts)
  case Nil
  with assms(1) show ?thesis by (simp add: run_handler_def Let_def)
next
  case (Cons t us)
  let ?s0 = "\<lparr>lp_ctx = defer_automatic_readiness c, lp_actor = a, lp_had_turn = False, lp_calls = [CallOnStart]\<rparr>"
  obtain out1 s1 where h: "hook_result imax t (ac_on_start A a) ?s0 = (out1, s1)" by force
  let ?s2 = "log_call CallReady (set_ctx (mark_ready (lp_ctx s1)) s1)"
  have drain: "rc_drain_messages (lp_ctx ?s2)"
    using hook_result_drain [OF h] assms(2)
    by (simp add: log_call_def set_ctx_def mark_ready_def defer_automatic_readiness_def)
  obtain r s3 ts3 where loop: "receive_loop imax A ops us ?s2 = (r, s3, ts3)" by (metis prod.exhaust)
  have "extends live_call True (lp_calls ?s2) ?s2" using drain by (simp add: extends_def)
  from live.receive_loop_inv [OF this loop] have "rc_drain_messages (lp_ctx s3)" by (simp add: extends_def)
  moreover have "finish_run imax A ops us ?s2 = (Ran, s) \<or> finish_run imax A ops ts3 s3 = (Ran, s)"
    using assms(1) Cons h loop
    by (auto simp: run_handler_def Let_def split: loop_outcome.splits prod.splits if_splits)
  ultimately show ?thesis using drain finish_run_drained by blast
qed

text \<open>
  C2. A draining actor that ends well has handled every message its FIFO mailbox accepted, in
  order, and has no offload left: nothing accepted is lost by a graceful stop.  The channel is
  assumed to be FIFO and, as the binding of the running actor keeps a sender, never disconnected.\<close>

theorem graceful_stop_handles_everything:
  assumes "run_handler imax A ops ts a c = (Ran, s)" "rc_drain_messages c" "is_queue (rc_mailbox c)"
    and "fifo_channel ops contents" "\<And>q. fst (ch_try_recv ops q) \<noteq> Inl TryDisconnected"
    and "list_all (delivers_to contents arr) ts"
  shows "\<exists>us vs. ts = us @ vs \<and> mailbox_handled (lp_calls s) = unread contents c @ concat (map arr us)
     \<and> unread contents (lp_ctx s) = [] \<and> js_len (rc_offloads (lp_ctx s)) = 0"
proof -
  from fifo.run_handler_inv [OF run_handler_start assms(1)] obtain us vs where
    us: "ts = us @ vs" "fifo_inv ops c us s" by auto
  with assms(4,6) have handled: "mailbox_handled (lp_calls s) @ unread contents (lp_ctx s) = unread contents c @ concat (map arr us)"
    and queue: "is_queue (rc_mailbox (lp_ctx s))" using assms(3) by (auto simp: fifo_inv_def)
  have "\<not> mailbox_ended ops mb" if "is_queue mb" for mb
  proof -
    from that obtain q acc where mb: "mb = QueueReceiver q acc" by (cases mb) auto
    obtain x q' where x: "ch_try_recv ops q = (x, q')" by force
    with assms(5) [of q] show ?thesis
      by (auto simp: mb mailbox_ended_def split: sum.splits try_recv_error.splits)
  qed
  with run_handler_drained [OF assms(1,2)] queue assms(4)
  have "js_len (rc_offloads (lp_ctx s)) = 0" "unread contents (lp_ctx s) = []"
    by (auto simp: drained_out_def)
  with us(1) handled show ?thesis by auto
qed

section \<open>A drain ends\<close>

text \<open>
  Work left to a drain: every unread message and every finished offload needs one turn to be
  handled; a running offload needs one more to finish.
\<close>

definition drain_load :: "('q \<Rightarrow> 'm list) \<Rightarrow> ('q, 'm) raw_context \<Rightarrow> nat" where
  "drain_load contents c =
     length (unread contents c) + 2 * js_running (rc_offloads c) + length (js_finished (rc_offloads c))"

text \<open>
  Whether panics are excluded is a parameter of what follows: a drain in which nothing panics or fails ends normally, and
  every other drain still ends.
\<close>

definition panic_free :: "bool \<Rightarrow> 'm offload_joined list \<Rightarrow> bool" where
  "panic_free b js \<longleftrightarrow> (b \<longrightarrow> JoinedPanic \<notin> set js)"

text \<open>
  A turn of an environment in which intake is closed and the deadline of every offload is
  enforced: nothing arrives, and some running offload finishes.
\<close>

definition settling :: "bool \<Rightarrow> ('q \<Rightarrow> 'm list) \<Rightarrow> ('q, 'm) turn \<Rightarrow> bool" where
  "settling b contents t \<longleftrightarrow> delivers_to contents (\<lambda>_. []) t \<and> tu_finished t \<noteq> [] \<and> panic_free b (tu_finished t)"

abbreviation finished :: "('q, 'm) raw_context \<Rightarrow> 'm offload_joined list" where
  "finished c \<equiv> js_finished (rc_offloads c)"

lemma joined_no_panic: "j \<noteq> JoinedPanic \<Longrightarrow> fst (joined_offload j c) \<noteq> Inl u"
  by (cases j) (auto simp: joined_offload_def)

lemma try_join_loop_load:
  assumes "try_join_loop js c = (r, c')" "js = finished c" "panic_free b (finished c)"
  shows "(b \<longrightarrow> (\<forall>u. r \<noteq> Inl u)) \<and> panic_free b (finished c')
    \<and> (\<forall>m. r = Inr (Some m) \<longrightarrow> length (finished c') < length (finished c))"
  using assms
proof (induction js arbitrary: c)
  case (Cons j js)
  obtain x c1 where x: "joined_offload j (take_joined js c) = (x, c1)" by force
  have lt: "length js < length (finished c)" using Cons.prems(2) by (metis length_Cons lessI)
  note one = join_one_frame [OF x lt]
  have free: "b \<Longrightarrow> j \<noteq> JoinedPanic" "panic_free b (finished c1)"
    using Cons.prems(3) one(3) by (auto simp: panic_free_def Cons.prems(2) [symmetric])
  have np: "x \<noteq> Inl u" if b for u using joined_no_panic [OF free(1) [OF that], of "take_joined js c" u] x by simp
  consider "x = Inr None" | m where "x = Inr (Some m)" | u where "x = Inl u" by (metis option.exhaust sum.exhaust)
  then show ?case
  proof cases
    case 1
    with Cons.prems(1) x have "try_join_loop js c1 = (r, c')" by simp
    from Cons.IH [OF this one(3) [symmetric] free(2)] one(3) lt show ?thesis by auto
  next
    case 2
    with Cons.prems(1) x have "r = x" "c' = c1" by auto
    with 2 free one(3) lt show ?thesis by auto
  next
    case (3 u)
    with Cons.prems(1) x have "r = x" "c' = c1" by auto
    with 3 np free(2) show ?thesis by auto
  qed
qed (auto simp: panic_free_def)

text \<open>
  \<open>lighter\<close>: a drain poll panics only if panics are possible, and it makes progress unless it has to wait for a running
  offload.
\<close>

definition lighter ::
    "bool \<Rightarrow> ('q, 'm) channel_ops \<Rightarrow> ('q \<Rightarrow> 'm list) \<Rightarrow> ('q, 'm) raw_context \<Rightarrow> 'm drain_poll \<times> ('q, 'm) raw_context \<Rightarrow> bool" where
  "lighter b ops contents c p \<longleftrightarrow>
     (case p of (r, c') \<Rightarrow> panic_free b (finished c') \<and> drain_load contents c' \<le> drain_load contents c
        \<and> (case r of
             DrainGot d \<Rightarrow> drain_load contents c' < drain_load contents c
           | DrainEnd \<Rightarrow> True
           | DrainPanic \<Rightarrow> \<not> b
           | DrainWait \<Rightarrow> 0 < js_running (rc_offloads c') \<and> finished c' = []))"

lemma polled_load:
  assumes "polled c c'" "takes ops ms c c'" "fifo_channel ops contents"
  shows "drain_load contents c' + length ms \<le> drain_load contents c"
  using assms by (simp add: polled_def takes_def drain_load_def)

lemma drain_attempt_lighter:
  assumes "fifo_channel ops contents" "panic_free b (finished c)"
  shows "lighter b ops contents c (drain_attempt ops c)"
proof -
  obtain x c1 where x: "try_join_loop (finished c) c = (x, c1)" by force
  note loop = try_join_loop_frame [OF x refl]
  note load = try_join_loop_load [OF x refl assms(2)]
  have le1: "drain_load contents c1 \<le> drain_load contents c"
    using polled_load [of c c1 ops "[]" contents] loop assms(1) by simp
  show ?thesis
  proof (cases "x = Inr None")
    case False
    show ?thesis
    proof (cases x)
      case (Inl u)
      then have "drain_attempt ops c = (DrainPanic, c1)" using x by (simp add: drain_attempt_def try_delivery_def)
      with load Inl le1 show ?thesis by (auto simp: lighter_def)
    next
      case (Inr y)
      with False obtain m where m: "x = Inr (Some m)" by (cases y) auto
      then have "drain_attempt ops c = (DrainGot (FromOffload m), c1)"
        using x by (simp add: drain_attempt_def try_delivery_def)
      moreover have "drain_load contents c1 < drain_load contents c"
        using load m loop by (simp add: drain_load_def polled_def)
      ultimately show ?thesis using load by (simp add: lighter_def)
    qed
  next
    case True
    obtain m c2 where m: "try_recv_mailbox ops c1 = (m, c2)" by force
    note recv = try_recv_mailbox_frame(1-3) [OF m]
    from polled_load [OF recv(1,3) assms(1)] le1
    have le2: "drain_load contents c2 + (case m of Some _ \<Rightarrow> 1 | None \<Rightarrow> 0) \<le> drain_load contents c"
      by (cases m) auto
    have "try_delivery ops c = (Inr (map_option FromMailbox m), c2)"
      using x True m by (simp add: try_delivery_def)
    then show ?thesis
      using le2 loop True recv(2) load
      by (cases m) (auto simp: drain_attempt_def lighter_def js_len_def)
  qed
qed

lemma drain_recv_lighter:
  assumes "fifo_channel ops contents" "finished c = []" "0 < js_running (rc_offloads c)"
  shows "lighter b ops contents c (drain_recv ops c)"
proof -
  obtain x mb where x: "receiver_recv_poll ops (rc_mailbox c) = (x, mb)" by force
  from polled_load [OF _ takes_recv_poll [OF x] assms(1)] x assms(2,3) show ?thesis
    by (auto simp: drain_recv_def lighter_def panic_free_def split: option.splits)
qed

lemma lighter_trans:
  "drain_load contents c' \<le> drain_load contents c \<Longrightarrow> lighter b ops contents c' p \<Longrightarrow> lighter b ops contents c p"
  by (auto simp: lighter_def split: drain_poll.splits)

lemma drain_again_lighter:
  assumes "fifo_channel ops contents" "panic_free b (finished c)"
  shows "lighter b ops contents c (drain_again ops c)"
proof -
  obtain r c' where r: "drain_attempt ops c = (r, c')" by force
  note attempt = drain_attempt_lighter [OF assms, unfolded r]
  show ?thesis
  proof (cases r)
    case DrainWait
    with attempt have wait: "finished c' = []" "0 < js_running (rc_offloads c')"
      and le: "drain_load contents c' \<le> drain_load contents c"
      by (auto simp: lighter_def)
    from lighter_trans [OF le drain_recv_lighter [OF assms(1) wait]] r DrainWait
    show ?thesis by (simp add: drain_again_def)
  qed (use attempt r in \<open>auto simp: drain_again_def\<close>)
qed

lemma drain_select_lighter:
  assumes "fifo_channel ops contents" "panic_free b (finished c)" "0 < js_len (rc_offloads c)"
  shows "lighter b ops contents c (drain_select ops picks c)"
proof (cases "finished c")
  case Nil
  with assms(3) show ?thesis by (simp add: drain_select_def drain_recv_lighter [OF assms(1)] js_len_def)
next
  case (Cons j js)
  obtain y c1 where y: "joined_offload j (take_joined js c) = (y, c1)" by force
  have lt: "length js < length (finished c)" by (simp add: Cons)
  note one = join_one_frame [OF y lt]
  have free: "b \<Longrightarrow> j \<noteq> JoinedPanic" "panic_free b (finished c1)"
    using assms(2) one(3) by (auto simp: Cons panic_free_def)
  have np: "y \<noteq> Inl u" if b for u using joined_no_panic [OF free(1) [OF that], of "take_joined js c" u] y by simp
  consider "y = Inr None" | m where "y = Inr (Some m)" | u where "y = Inl u" by (metis option.exhaust sum.exhaust)
  moreover have load: "drain_load contents c1 < drain_load contents c"
    using one by (simp add: drain_load_def polled_def Cons)
  ultimately have joins: "lighter b ops contents c
      (case joined_offload j (take_joined js c) of
         (Inl u, c') \<Rightarrow> (DrainPanic, c')
       | (Inr (Some m), c') \<Rightarrow> (DrainGot (FromOffload m), c')
       | (Inr None, c') \<Rightarrow> drain_again ops c')"
    using drain_again_lighter [OF assms(1) free(2)] free(2) np
    by cases (auto simp: y lighter_def intro: lighter_trans split: prod.splits drain_poll.splits)
  obtain x mb where x: "receiver_recv_poll ops (rc_mailbox c) = (x, mb)" by force
  from polled_load [OF _ takes_recv_poll [OF x] assms(1)] x assms(2)
  have recv: "\<not> is_wait (fst (drain_recv ops c)) \<Longrightarrow> lighter b ops contents c (drain_recv ops c)"
    by (auto simp: drain_recv_def lighter_def split: option.splits)
  with joins show ?thesis by (simp add: drain_select_def Cons)
qed

lemma settling_load:
  assumes "settling b contents t" "panic_free b (finished c)"
  shows "panic_free b (finished (turn_elapse t c))" "js_len (rc_offloads (turn_elapse t c)) = js_len (rc_offloads c)"
    and "drain_load contents (turn_elapse t c) \<le> drain_load contents c"
    and "0 < js_running (rc_offloads c) \<Longrightarrow> drain_load contents (turn_elapse t c) < drain_load contents c"
proof -
  define k where "k = length (take (js_running (rc_offloads c)) (tu_finished t))"
  have "tu_finished t \<noteq> []" using assms(1) by (simp add: settling_def)
  then have k: "k \<le> js_running (rc_offloads c)" "0 < js_running (rc_offloads c) \<Longrightarrow> 0 < k"
    by (auto simp: k_def)
  have unread: "unread contents (turn_elapse t c) = unread contents c"
    using assms(1) by (simp add: settling_def delivers_to_def turn_elapse_def)
  have running: "js_running (rc_offloads (turn_elapse t c)) = js_running (rc_offloads c) - k"
    and finished: "length (finished (turn_elapse t c)) = length (finished c) + k"
    by (simp_all add: turn_elapse_def join_set_finish_def Let_def k_def)
  show "panic_free b (finished (turn_elapse t c))"
    using assms by (auto simp: settling_def panic_free_def turn_elapse_def join_set_finish_def Let_def dest: in_set_takeD)
  show "js_len (rc_offloads (turn_elapse t c)) = js_len (rc_offloads c)"
    using k(1) running finished by (simp add: js_len_def)
  show "drain_load contents (turn_elapse t c) \<le> drain_load contents c"
    "0 < js_running (rc_offloads c) \<Longrightarrow> drain_load contents (turn_elapse t c) < drain_load contents c"
    using k running finished by (auto simp: drain_load_def unread)
qed

text \<open>The next delivery comes, or the drain is over, within as many turns as there is work.\<close>

definition arrives :: "bool \<Rightarrow> ('q \<Rightarrow> 'm list) \<Rightarrow> 'm drain_delivery \<times> ('q, 'm) raw_context \<times> ('q, 'm) turn list \<Rightarrow> bool" where
  "arrives b contents p \<longleftrightarrow>
     (case p of
        (DrainDelivery d, c, ts) \<Rightarrow> drain_load contents c < length ts \<and> panic_free b (finished c)
          \<and> list_all (settling b contents) ts
      | (DrainFinished, c, ts) \<Rightarrow> True
      | (DrainPanicked, c, ts) \<Rightarrow> \<not> b
      | _ \<Rightarrow> False)"

lemma drain_wait_arrives:
  assumes "fifo_channel ops contents"
  shows "list_all (settling b contents) ts \<Longrightarrow> panic_free b (finished c) \<Longrightarrow> 0 < js_len (rc_offloads c) \<Longrightarrow>
    drain_load contents c \<le> length ts \<Longrightarrow> arrives b contents (drain_wait ops ts c)"
proof (induction ts arbitrary: c)
  case Nil
  then show ?case by (simp add: drain_load_def js_len_def)
next
  case (Cons t ts)
  obtain r c1 where r: "drain_select ops (tu_picks t) c = (r, c1)" by force
  note light = drain_select_lighter [OF assms Cons.prems(2,3), of "tu_picks t", unfolded r]
  show ?case
  proof (cases r)
    case DrainWait
    with light have c1: "panic_free b (finished c1)" "drain_load contents c1 \<le> drain_load contents c"
      "0 < js_running (rc_offloads c1)" by (auto simp: lighter_def)
    from Cons.prems(1) have t: "settling b contents t" by simp
    note turn = settling_load [OF t c1(1)]
    have "0 < js_len (rc_offloads (turn_elapse t c1))" using c1(3) unfolding turn(2) by (simp add: js_len_def)
    with Cons.IH [of "turn_elapse t c1"] Cons.prems(1,4) c1 turn(1,4)
    have "arrives b contents (drain_wait ops ts (turn_elapse t c1))" by simp
    with r DrainWait show ?thesis by (simp add: drain_wait.simps)
  qed (use light Cons.prems r in \<open>auto simp: drain_wait.simps arrives_def lighter_def\<close>)
qed

lemma next_drain_arrives:
  assumes "fifo_channel ops contents" "list_all (settling b contents) ts" "panic_free b (finished c)"
    and "drain_load contents c \<le> length ts"
  shows "arrives b contents (next_drain_delivery ops ts c)"
proof -
  obtain r c1 where r: "drain_attempt ops c = (r, c1)" by force
  note light = drain_attempt_lighter [OF assms(1,3), unfolded r]
  show ?thesis
  proof (cases r)
    case DrainWait
    with light assms(4) have c1: "panic_free b (finished c1)" "drain_load contents c1 \<le> length ts"
      "0 < js_len (rc_offloads c1)" by (auto simp: lighter_def js_len_def)
    from drain_wait_arrives [OF assms(1,2) c1(1,3,2)] r DrainWait
    show ?thesis by (simp add: next_drain_delivery_def)
  qed (use light assms r in \<open>auto simp: next_drain_delivery_def arrives_def lighter_def\<close>)
qed

text \<open>
  Handlers that start no offload while draining; in a calm actor they do not fail either and call only the operations
  that cannot panic.
\<close>

fun calm :: "'m context_op \<Rightarrow> bool" where
  "calm CxStop = True"
| "calm (CxContinueWith _) = True"
| "calm (CxClearTimer _) = True"
| "calm _ = False"

fun starts_offload :: "'m context_op \<Rightarrow> bool" where
  "starts_offload CxOffload = True"
| "starts_offload _ = False"

definition no_offload_in_drain :: "('a, 'm, 'e) actor \<Rightarrow> bool" where
  "no_offload_in_drain A \<longleftrightarrow> (\<forall>m a. case ac_handle A True m a of (err, xs, a') \<Rightarrow> list_all (\<lambda>x. \<not> starts_offload x) xs)"

definition calm_in_drain :: "('a, 'm, 'e) actor \<Rightarrow> bool" where
  "calm_in_drain A \<longleftrightarrow> (\<forall>m a. case ac_handle A True m a of (err, xs, a') \<Rightarrow> err = None \<and> list_all calm xs)"

lemma quiet_steps:
  "context_steps imax xs c = Some c' \<Longrightarrow> list_all (\<lambda>x. \<not> starts_offload x) xs \<Longrightarrow>
     rc_offloads c' = rc_offloads c \<and> rc_mailbox c' = rc_mailbox c"
proof (induction xs arbitrary: c)
  case (Cons x xs)
  then obtain c1 where c1: "context_step imax x c = Some c1" "context_steps imax xs c1 = Some c'"
    by (auto simp: Option.bind_eq_Some_conv)
  have "rc_offloads c1 = rc_offloads c \<and> rc_mailbox c1 = rc_mailbox c"
    using c1(1) Cons.prems(2) by (cases x) (auto simp: ctx_set_timers_def request_stop_def push_continuation_def)
  with Cons.IH [OF c1(2)] Cons.prems(2) show ?case by simp
qed simp

lemma calm_steps: "list_all calm xs \<Longrightarrow> context_steps imax xs c \<noteq> None"
proof (induction xs arbitrary: c)
  case (Cons x xs)
  then obtain c1 where "context_step imax x c = Some c1" by (cases x) (auto simp: ctx_set_timers_def)
  with Cons show ?case by auto
qed simp

lemma quiet_handle:
  assumes "no_offload_in_drain A" "handle_message imax A src True m t s = (out, s')"
  shows "out \<noteq> Suspended" "calm_in_drain A \<Longrightarrow> out = Ran"
    and "out = Ran \<Longrightarrow> \<exists>c. lp_ctx s' = turn_elapse t c \<and> rc_offloads c = rc_offloads (lp_ctx s)
      \<and> rc_mailbox c = rc_mailbox (lp_ctx s)"
proof -
  obtain err xs a' where h: "ac_handle A True m (lp_actor s) = (err, xs, a')" by (cases "ac_handle A True m (lp_actor s)")
  have no: "list_all (\<lambda>x. \<not> starts_offload x) xs"
    using assms(1) h unfolding no_offload_in_drain_def by (metis (mono_tags, lifting) case_prod_conv)
  have calm: "err = None \<and> list_all calm xs" if "calm_in_drain A"
    using that h unfolding calm_in_drain_def by (metis (mono_tags, lifting) case_prod_conv)
  have r: "hook_result imax t (err, xs, a') (log_call (CallHandle src True (rc_shutdown (lp_ctx s)) m)
      (set_ctx (ctx_record_received (lp_ctx s)) s)) = (out, s')"
    using assms(2) h by (simp add: handle_message_def log_call_def set_ctx_def)
  then show "out \<noteq> Suspended" by (auto simp: hook_result_def split: option.splits)
  from r calm calm_steps [of xs imax "ctx_record_received (lp_ctx s)"] show "calm_in_drain A \<Longrightarrow> out = Ran"
    by (auto simp: hook_result_def log_call_def set_ctx_def)
  from r quiet_steps [OF _ no, of imax "ctx_record_received (lp_ctx s)"]
  show "out = Ran \<Longrightarrow> \<exists>c. lp_ctx s' = turn_elapse t c \<and> rc_offloads c = rc_offloads (lp_ctx s)
      \<and> rc_mailbox c = rc_mailbox (lp_ctx s)"
    by (auto simp: hook_result_def log_call_def set_ctx_def ctx_record_received_def split: option.splits)
qed

lemma drain_load_cong:
  "rc_offloads c = rc_offloads c' \<Longrightarrow> rc_mailbox c = rc_mailbox c' \<Longrightarrow> drain_load contents c = drain_load contents c'"
  by (simp add: drain_load_def)

lemma drain_ends:
  assumes "fifo_channel ops contents" "no_offload_in_drain A" "b \<Longrightarrow> calm_in_drain A"
    and "list_all (settling b contents) ts" "panic_free b (finished (lp_ctx s))"
    and "drain_load contents (lp_ctx s) \<le> length ts"
  shows "\<exists>out s' ts'. drain_messages imax A ops ts s = (out, s', ts') \<and> out \<noteq> Suspended \<and> (b \<longrightarrow> out = Ran)"
  using assms(4-6)
proof (induction "length ts" arbitrary: ts s rule: less_induct)
  case less
  obtain d c ts1 where d: "next_drain_delivery ops ts (lp_ctx s) = (d, c, ts1)" by (metis prod.exhaust)
  note arr = next_drain_arrives [OF assms(1) less.prems, unfolded d]
  show ?case
  proof (cases d)
    case (DrainDelivery x)
    with arr obtain t ts2 where ts1: "ts1 = t # ts2" and load: "drain_load contents c \<le> length ts2"
      and free: "panic_free b (finished c)" and turns: "settling b contents t" "list_all (settling b contents) ts2"
      by (cases ts1) (auto simp: arrives_def)
    obtain out s1 where h: "handle_message imax A (fst (delivered_source x)) True (snd (delivered_source x)) t
        (set_ctx c s) = (out, s1)" by force
    note q = quiet_handle [OF assms(2) h]
    show ?thesis
    proof (cases "out = Ran")
      case True
      with q(3) obtain c1 where c1: "lp_ctx s1 = turn_elapse t c1" "rc_offloads c1 = rc_offloads c" "rc_mailbox c1 = rc_mailbox c"
        by (auto simp: set_ctx_def)
      have "panic_free b (finished c1)" using free c1(2) by simp
      note turn = settling_load [OF turns(1) this]
      have "drain_load contents (lp_ctx s1) \<le> length ts2" using turn(3) load drain_load_cong [OF c1(2,3), of contents] c1(1) by simp
      moreover have "length ts2 < length ts" using next_drain_delivery_length [OF d] ts1 by simp
      ultimately have "\<exists>out s' ts'. drain_messages imax A ops ts2 s1 = (out, s', ts') \<and> out \<noteq> Suspended \<and> (b \<longrightarrow> out = Ran)"
        using less.hyps turns(2) turn(1) c1(1) by simp
      then show ?thesis using d DrainDelivery ts1 h True by (simp add: drain_messages.simps [of _ _ _ ts])
    next
      case False
      then show ?thesis using d DrainDelivery ts1 h q(1,2) assms(3)
        by (cases out) (auto simp: drain_messages.simps [of _ _ _ ts])
    qed
  qed (use arr d in \<open>auto simp: arrives_def drain_messages.simps [of _ _ _ ts]\<close>)
qed

text \<open>
  C33. The drain of a graceful stop ends: when intake is closed, so that nothing arrives any more,
  running offloads finish one by one and the handlers start no offload while draining, as
  many turns as there is work (one per unread message and finished offload, two per running one)
  are enough for the drain to return. It may return the failure of a handler or a panic (of an offload, or of a handler that
  sets a timer past the last instant); when no offload panics, no handler fails and handlers call only
  \<open>stop\<close>, \<open>continue_with\<close> and \<open>clear_timer\<close>, it returns normally.\<close>

theorem drain_terminates:
  assumes "fifo_channel ops contents" "no_offload_in_drain A" "list_all (settling False contents) ts"
    and "drain_load contents (lp_ctx s) \<le> length ts"
  shows "\<exists>out s' ts'. drain_messages imax A ops ts s = (out, s', ts') \<and> out \<noteq> Suspended
    \<and> (calm_in_drain A \<and> panic_free True (finished (lp_ctx s)) \<and> list_all (settling True contents) ts \<longrightarrow> out = Ran)"
proof -
  have "\<exists>out s' ts'. drain_messages imax A ops ts s = (out, s', ts') \<and> out \<noteq> Suspended"
    using drain_ends [where b = False, OF assms(1,2) _ assms(3) _ assms(4)] by (auto simp: panic_free_def)
  with drain_ends [where b = True, OF assms(1,2) _ _ _ assms(4)] show ?thesis by fastforce
qed

section \<open>Sample runs\<close>

text \<open>A channel as a list, a turn that delivers given messages, and an actor that keeps what it handled.\<close>

definition list_channel :: "(nat list, nat) channel_ops" where
  "list_channel =
     \<lparr>ch_try_recv = (\<lambda>q. case q of [] \<Rightarrow> (Inl TryEmpty, []) | m # ms \<Rightarrow> (Inr m, ms)),
      ch_len = length, ch_max_capacity = (\<lambda>_. 8)\<rparr>"

fun push_all :: "nat list \<Rightarrow> (nat list, nat) mailbox_receiver \<Rightarrow> (nat list, nat) mailbox_receiver" where
  "push_all ms (QueueReceiver q acc) = QueueReceiver (q @ ms) acc"
| "push_all ms (ConflatingReceiver s) = ConflatingReceiver (s\<lparr>cs_messages := cs_messages s @ ms\<rparr>)"

definition sample_turn :: "nat list \<Rightarrow> bool \<Rightarrow> (nat list, nat) turn" where
  "sample_turn ms cancel =
     \<lparr>tu_now = 0, tu_now1 = 0, tu_now2 = 0, tu_picks = [], tu_mailbox = push_all ms,
      tu_finished = [JoinedAborted], tu_cancel = cancel\<rparr>"

definition sample_arrivals :: "(nat list, nat) turn \<Rightarrow> nat list" where
  "sample_arrivals t = receiver_unread id (tu_mailbox t (QueueReceiver [] True))"

definition sample_actor :: "(nat list, nat, unit) actor" where
  "sample_actor =
     \<lparr>ac_on_start = (\<lambda>a. (None, [], a)),
      ac_handle = (\<lambda>draining m a. (None, if m = 1 then [CxContinueWith 10] else [], a @ [m])),
      ac_on_stop = (\<lambda>a. (None, a))\<rparr>"

definition sample_context :: "(nat list, nat) raw_context" where
  "sample_context =
     \<lparr>rc_mailbox = QueueReceiver [1, 2] True, rc_shutdown = False, rc_drain_messages = True,
      rc_timers = timer_table_default, rc_ready = True, rc_signal = ready_signal_new False,
      rc_continuations = [], rc_stop_requested = False,
      rc_offloads = \<lparr>js_running = 1, js_finished = []\<rparr>, rc_stats = counters_new\<rparr>"

definition sample_turns :: "(nat list, nat) turn list" where
  "sample_turns = [sample_turn [] False, sample_turn [3] True, sample_turn [] False, sample_turn [] False,
     sample_turn [] False]"

lemma sample_fifo: "fifo_channel list_channel id"
  by (auto simp: fifo_channel_def list_channel_def split: list.splits)

lemma sample_delivers: "delivers_to id sample_arrivals (sample_turn ms cancel)"
  unfolding delivers_to_def
proof
  fix r :: "(nat list, nat) mailbox_receiver"
  show "receiver_unread id (tu_mailbox (sample_turn ms cancel) r) = receiver_unread id r @ sample_arrivals (sample_turn ms cancel)
      \<and> is_queue (tu_mailbox (sample_turn ms cancel) r) = is_queue r"
    by (cases r) (simp_all add: sample_turn_def sample_arrivals_def)
qed

lemma sample_unread: "unread id sample_context = [1, 2]"
  by (simp add: sample_context_def)

lemma sample_turns_deliver: "list_all (delivers_to id sample_arrivals) sample_turns"
  by (simp add: sample_turns_def sample_delivers)

lemmas run_eval =
  run_handler_def finish_run_def close_and_drain_def receive_loop.simps timer_turn.simps drain_messages.simps
  drain_wait.simps next_drain_delivery_def drain_attempt_def drain_select_def drain_recv_def drain_again_def
  next_event_def wait_event_def select_delivery_def next_delivery_def try_delivery_def try_recv_mailbox_def
  handle_message_def hook_result_def log_call_def set_ctx_def ctx_record_received_def turn_elapse_def join_set_finish_def
  take_continuation_def push_continuation_def next_timer_wake_def joined_offload_def take_joined_def
  sync_offload_gauge_def mark_ready_def defer_automatic_readiness_def close_external_intake_def js_len_def
  list_channel_def sample_turn_def sample_actor_def sample_context_def sample_turns_def timer_table_default_def

lemma sample_run:
  "fst (run_handler 1000 sample_actor list_channel sample_turns [] sample_context) = Ran"
  by (simp add: run_eval Let_def)

section \<open>Guarantees at sample runs\<close>

text \<open>
  C4. Mailbox messages are handled in the order in which the mailbox accepted them, each at most
  once and without gaps: at any point of any run, the messages handled so far followed by those
  still unread are exactly the messages unread at the start followed by the arrivals of the turns
  taken.  The channel is assumed to be a FIFO queue, its documented contract.\<close>

theorem mailbox_messages_handled_in_order:
  assumes "fifo_channel ops contents" "list_all (delivers_to contents arr) ts"
    and "run_handler imax A ops ts a c = (out, s)"
  shows "\<exists>us vs. ts = us @ vs \<and>
    mailbox_handled (lp_calls s) @ unread contents (lp_ctx s) = unread contents c @ concat (map arr us)"
proof -
  from fifo.run_handler_inv [OF run_handler_start assms(3)] obtain us vs where
    "ts = us @ vs" "fifo_inv ops c us s" by auto
  with assms(1,2) show ?thesis by (auto simp: fifo_inv_def)
qed

theorem mailbox_messages_handled_in_order_witness:
  "\<exists>us vs. sample_turns = us @ vs \<and>
     mailbox_handled (lp_calls (snd (run_handler 1000 sample_actor list_channel sample_turns [] sample_context)))
       @ unread id (lp_ctx (snd (run_handler 1000 sample_actor list_channel sample_turns [] sample_context)))
     = [1, 2] @ concat (map sample_arrivals us)"
  using mailbox_messages_handled_in_order [OF sample_fifo sample_turns_deliver,
      of 1000 sample_actor "[]" sample_context]
  by (metis prod.collapse sample_unread)

theorem graceful_stop_handles_everything_witness:
  "\<exists>us vs. sample_turns = us @ vs \<and>
     mailbox_handled (lp_calls (snd (run_handler 1000 sample_actor list_channel sample_turns [] sample_context)))
       = [1, 2] @ concat (map sample_arrivals us)"
proof -
  have run: "run_handler 1000 sample_actor list_channel sample_turns [] sample_context
      = (Ran, snd (run_handler 1000 sample_actor list_channel sample_turns [] sample_context))"
    using sample_run by (metis prod.collapse)
  have "fst (ch_try_recv list_channel q) \<noteq> Inl TryDisconnected" for q
    by (cases q) (simp_all add: list_channel_def)
  from graceful_stop_handles_everything [OF run _ _ sample_fifo this sample_turns_deliver]
  show ?thesis using sample_unread by (auto simp: sample_context_def)
qed

theorem drain_terminates_witness:
  "\<exists>s' ts'. drain_messages 1000 sample_actor list_channel (replicate 4 (sample_turn [] False))
     \<lparr>lp_ctx = sample_context, lp_actor = [], lp_had_turn = False, lp_calls = []\<rparr> = (Ran, s', ts')"
proof -
  let ?s = "\<lparr>lp_ctx = sample_context, lp_actor = [] :: nat list, lp_had_turn = False, lp_calls = []\<rparr>"
  have turns: "list_all (settling b id) (replicate 4 (sample_turn [] False))" for b
    using sample_delivers [of "[]" False]
    by (simp add: list_all_iff settling_def panic_free_def delivers_to_def sample_turn_def sample_arrivals_def)
  have calm: "no_offload_in_drain sample_actor" "calm_in_drain sample_actor"
    by (simp_all add: no_offload_in_drain_def calm_in_drain_def sample_actor_def)
  have "drain_load id (lp_ctx ?s) \<le> length (replicate 4 (sample_turn [] False))" "panic_free True (finished (lp_ctx ?s))"
    by (simp_all add: sample_context_def panic_free_def drain_load_def)
  with drain_terminates [OF sample_fifo calm(1) turns, of ?s 1000] calm(2) turns show ?thesis by auto
qed

end
