(* ===== verification/Binding.thy ===== *)
theory Binding
  imports Mailbox Watch_Streams Outbound_Watches
begin

text \<open>
  The long-lived binding slot of one actor (\<open>BindingCore\<close> and \<open>BindingGuard\<close> of
  \<open>actor/binding.rs\<close>): which mailbox is current, which run bound it, and the monitor state that
  moves with it.  A mailbox is known by the number of its channel, so two references to the same
  channel are equal.  Binding and terminating hold the slot's bind-order lock from beginning to
  end, so each is one step.
\<close>

datatype binding_state = Unbound | Bound nat | BTerminated

record 't binding_core =
  bc_actor_id :: string
  bc_current :: binding_state
  bc_stats :: actor_stats_counters
  bc_message_size :: bool
  bc_monitors :: monitor_hub
  bc_outbound :: actor_monitors
  bc_tokens :: 't
  bc_latest_bind_run :: "u64 option"

definition binding_core_new :: "'t token_env \<Rightarrow> string \<Rightarrow> 't \<Rightarrow> 't binding_core" where
  "binding_core_new T actor_id t =
     (let (am, t') = actor_monitors_new T t
      in \<lparr>bc_actor_id = actor_id, bc_current = Unbound, bc_stats = counters_new, bc_message_size = False,
          bc_monitors = monitor_hub_new actor_id, bc_outbound = am, bc_tokens = t',
          bc_latest_bind_run = None\<rparr>)"

text \<open>The message-size hint may be installed only once; a second time panics.\<close>

definition set_message_size :: "'t binding_core \<Rightarrow> 't binding_core option" where
  "set_message_size c =
     (if bc_message_size c then None
      else Some (c\<lparr>bc_message_size := True, bc_stats := enable_message_size (bc_stats c)\<rparr>))"

definition core_stats :: "(nat \<Rightarrow> usize \<times> usize) \<Rightarrow> 't binding_core \<Rightarrow> actor_stats" where
  "core_stats usage c =
     (let (depth, capacity) = (case bc_current c of Bound mb \<Rightarrow> usage mb | _ \<Rightarrow> (0, 0))
      in counters_snapshot (bc_actor_id c) depth capacity (bc_stats c))"

datatype bind_result = BoundWith u64 | NotBound | BindPanicked

definition bind_mailbox ::
  "'t token_env \<Rightarrow> watch_signals \<Rightarrow> nat \<Rightarrow> monitor_run \<Rightarrow> 't binding_core \<Rightarrow>
   bind_result \<times> staged \<times> 't binding_core" where
  "bind_mailbox T W mb r c =
     (if (case bc_latest_bind_run c of None \<Rightarrow> False | Some latest \<Rightarrow> mr_run_id r < latest)
      then (NotBound, [], c)
      else if bc_current c = BTerminated \<and> mr_reopens_epoch r = None then (NotBound, [], c)
      else
        (let c1 = c\<lparr>bc_current := Bound mb, bc_latest_bind_run := Some (mr_run_id r)\<rparr>;
             (reopened, out, hub) = run_started W r (bc_monitors c1);
             c2 = c1\<lparr>bc_monitors := hub\<rparr>
         in case reopened of
              Some True \<Rightarrow>
                (case monitors_reopen T (bc_outbound c2) (bc_tokens c2) of
                   None \<Rightarrow> (BindPanicked, out, c2)
                 | Some (lease, am, t) \<Rightarrow> (BoundWith lease, out, c2\<lparr>bc_outbound := am, bc_tokens := t\<rparr>))
            | Some False \<Rightarrow> (BoundWith (monitors_lease (bc_outbound c2)), out, c2)
            | None \<Rightarrow>
                (NotBound, out,
                 if bc_current c2 = Bound mb then c2\<lparr>bc_current := BTerminated\<rparr> else c2)))"

definition core_monitor_run :: "'t binding_core \<Rightarrow> monitor_run \<times> 't binding_core" where
  "core_monitor_run c =
     (let (r, hub) = new_run (bc_current c = BTerminated) (bc_monitors c)
      in (r, c\<lparr>bc_monitors := hub\<rparr>))"

definition unbind :: "'t binding_core \<Rightarrow> 't binding_core" where
  "unbind c = (case bc_current c of Bound _ \<Rightarrow> c\<lparr>bc_current := Unbound\<rparr> | _ \<Rightarrow> c)"

definition unbind_mailbox :: "nat \<Rightarrow> 't binding_core \<Rightarrow> bool \<times> 't binding_core" where
  "unbind_mailbox mb c =
     (if bc_current c = Bound mb then (True, c\<lparr>bc_current := Unbound\<rparr>) else (False, c))"

text \<open>What every termination of the binding does to the monitors.\<close>

definition remove_monitors ::
  "'t token_env \<Rightarrow> watch_signals \<Rightarrow> 't binding_core \<Rightarrow> staged \<times> 't binding_core" where
  "remove_monitors T W c =
     (let (out, hub) = hub_removed W (mh_current_epoch (bc_monitors c)) (bc_monitors c)
      in (out, c\<lparr>bc_monitors := hub,
                 bc_tokens := monitors_terminate T (bc_outbound c) (bc_tokens c)\<rparr>))"

definition terminate_mailbox ::
  "'t token_env \<Rightarrow> watch_signals \<Rightarrow> nat \<Rightarrow> 't binding_core \<Rightarrow> bool \<times> staged \<times> 't binding_core" where
  "terminate_mailbox T W mb c =
     (if bc_current c = Bound mb then
        (let (out, c') = remove_monitors T W (c\<lparr>bc_current := BTerminated\<rparr>) in (True, out, c'))
      else (False, [], c))"

definition terminate_binding ::
  "'t token_env \<Rightarrow> watch_signals \<Rightarrow> 't binding_core \<Rightarrow> staged \<times> 't binding_core" where
  "terminate_binding T W c = remove_monitors T W (c\<lparr>bc_current := BTerminated\<rparr>)"

definition core_drop ::
  "'t token_env \<Rightarrow> watch_signals \<Rightarrow> 't binding_core \<Rightarrow> staged \<times> 't binding_core" where
  "core_drop T W c = remove_monitors T W c"

text \<open>The guard of one incarnation; \<open>never\<close> says that its restart policy never restarts.\<close>

definition binding_slot_guard_drop ::
  "'t token_env \<Rightarrow> watch_signals \<Rightarrow> bool \<Rightarrow> nat \<Rightarrow> 't binding_core \<Rightarrow> bool \<times> staged \<times> 't binding_core" where
  "binding_slot_guard_drop T W never_restarts mb c =
     (if never_restarts then terminate_mailbox T W mb c
      else (let (cleared, c') = unbind_mailbox mb c in (cleared, [], c')))"

definition core_exited ::
  "watch_signals \<Rightarrow> u64 \<Rightarrow> exit_status \<Rightarrow> 't binding_core \<Rightarrow> staged \<times> 't binding_core" where
  "core_exited W i st c =
     (let (out, hub) = run_exited W i st (bc_monitors c) in (out, c\<lparr>bc_monitors := hub\<rparr>))"

section \<open>Histories of a binding\<close>

inductive binding_run ::
  "'t token_env \<Rightarrow> 't binding_core \<Rightarrow> nat \<Rightarrow> 't binding_core \<Rightarrow> monitor_run list \<Rightarrow> bool"
  for T :: "'t token_env" and c0 :: "'t binding_core" where
  created: "binding_run T c0 0 c0 []"
| minted: "binding_run T c0 n c rs \<Longrightarrow> core_monitor_run c = (r, c') \<Longrightarrow> binding_run T c0 (Suc n) c' (r # rs)"
| bound: "binding_run T c0 n c rs \<Longrightarrow> r \<in> set rs \<Longrightarrow> bind_mailbox T W mb r c = (x, out, c') \<Longrightarrow>
    x \<noteq> BindPanicked \<Longrightarrow> binding_run T c0 (Suc n) c' (remove1 r rs)"
| exited: "binding_run T c0 n c rs \<Longrightarrow> core_exited W i st c = (out, c') \<Longrightarrow> binding_run T c0 (Suc n) c' rs"
| unbound: "binding_run T c0 n c rs \<Longrightarrow> binding_run T c0 (Suc n) (unbind c) rs"
| dropped: "binding_run T c0 n c rs \<Longrightarrow> binding_slot_guard_drop T W never_restarts mb c = (x, out, c') \<Longrightarrow>
    binding_run T c0 (Suc n) c' rs"
| terminated: "binding_run T c0 n c rs \<Longrightarrow> terminate_binding T W c = (out, c') \<Longrightarrow>
    binding_run T c0 (Suc n) c' rs"

text \<open>The monitor side of termination: removed, or as soon as the last run has exited.\<close>

definition hub_terminated :: "monitor_hub \<Rightarrow> bool" where
  "hub_terminated h \<longleftrightarrow> is_removed (mh_lifecycle h) \<or> mh_removal_requested h"

definition runs_recent :: "'t binding_core \<Rightarrow> monitor_run list \<Rightarrow> bool" where
  "runs_recent c rs \<longleftrightarrow>
     (\<forall>r \<in> set rs. mr_run_id r < mh_next_run_id (bc_monitors c)) \<and>
     (\<forall>r \<in> set rs. \<forall>e. mr_reopens_epoch r = Some e \<longrightarrow>
        e \<le> mh_current_epoch (bc_monitors c) \<and>
        (Suc e < mh_current_epoch (bc_monitors c) \<longrightarrow>
           (case bc_latest_bind_run c of None \<Rightarrow> False | Some latest \<Rightarrow> mr_run_id r < latest))) \<and>
     (\<forall>r \<in> set rs. \<forall>r' \<in> set rs. \<forall>e e'. mr_reopens_epoch r = Some e \<longrightarrow> mr_reopens_epoch r' = Some e' \<longrightarrow>
        e < e' \<longrightarrow> mr_run_id r < mr_run_id r')"

definition binding_inv :: "nat \<Rightarrow> 't binding_core \<Rightarrow> monitor_run list \<Rightarrow> bool" where
  "binding_inv n c rs \<longleftrightarrow>
     (bc_current c = BTerminated \<longleftrightarrow> hub_terminated (bc_monitors c)) \<and> runs_recent c rs \<and>
     mh_next_run_id (bc_monitors c) \<le> n \<and> mh_current_epoch (bc_monitors c) \<le> n"

lemma hub_removed_terminated:
  "hub_removed W (mh_current_epoch h) h = (out, h') \<Longrightarrow> hub_terminated h'"
  by (auto simp: hub_removed_def hub_terminated_def is_removed_def Let_def split: if_splits)

lemma run_exited_terminated: "run_exited W i st h = (out, h') \<Longrightarrow> hub_terminated h' = hub_terminated h"
  unfolding run_exited_def exit_current_def exited_state
  by (auto simp: exit_retiring_def hub_terminated_def is_removed_def Let_def
      split: option.splits if_splits prod.splits monitor_lifecycle.splits)

lemma run_started_terminated:
  assumes "run_started W r h = (Some x, out, h')"
  shows "\<not> hub_terminated h' \<or> mr_reopens_epoch r = None \<and> hub_terminated h"
    "x = (mr_reopens_epoch r = Some (mh_current_epoch h))"
    "mh_current_epoch h' = (if x then u64_saturating_add (mh_current_epoch h) 1 else mh_current_epoch h)"
    "mh_next_run_id h' = mh_next_run_id h"
  using assms
  by (auto simp: run_started_def begin_generation_def begin_epoch_def retire_current_def hub_terminated_def
      begins_epoch_def joins_reopened_epoch_def is_removed_def Let_def
      split: if_splits prod.splits option.splits)

lemma run_started_refused:
  assumes "run_started W r h = (None, out, h')"
  shows "h' = h" "mr_reopens_epoch r = None \<Longrightarrow> hub_terminated h"
    "mr_reopens_epoch r = Some e \<Longrightarrow> e \<noteq> mh_current_epoch h \<and>
       (hub_terminated h \<or> u64_saturating_add e 1 \<noteq> mh_current_epoch h)"
  using assms
  by (auto simp: run_started_def hub_terminated_def begins_epoch_def joins_reopened_epoch_def Let_def
      split: if_splits prod.splits)

lemma runs_recent_keep:
  assumes "runs_recent c rs" and "set rs' \<subseteq> set rs"
    and "mh_next_run_id (bc_monitors c') = mh_next_run_id (bc_monitors c)"
    and "mh_current_epoch (bc_monitors c') = mh_current_epoch (bc_monitors c)"
    and "bc_latest_bind_run c' = bc_latest_bind_run c"
  shows "runs_recent c' rs'"
  using assms unfolding runs_recent_def by (simp add: subset_iff) blast

lemma binding_inv_bind:
  assumes inv: "binding_inv n c rs" and n: "n < u64_max" and r: "r \<in> set rs"
    and b: "bind_mailbox T W mb r c = (x, out, c')" and "x \<noteq> BindPanicked"
  shows "binding_inv (Suc n) c' (remove1 r rs)"
proof -
  let ?h = "bc_monitors c"
  have sub: "set (remove1 r rs) \<subseteq> set rs" by (rule set_remove1_subset)
  have refused: ?thesis if "c' = c"
    using that inv runs_recent_keep [OF _ sub] by (auto simp: binding_inv_def)
  show ?thesis
  proof (cases "(case bc_latest_bind_run c of None \<Rightarrow> False | Some l \<Rightarrow> mr_run_id r < l) \<or>
      bc_current c = BTerminated \<and> mr_reopens_epoch r = None")
    case True
    with b have "c' = c" by (auto simp: bind_mailbox_def split: if_splits)
    then show ?thesis by (rule refused)
  next
    case False
    then have newest: "\<not> (case bc_latest_bind_run c of None \<Rightarrow> False | Some l \<Rightarrow> mr_run_id r < l)"
      and alive: "mr_reopens_epoch r = None \<Longrightarrow> \<not> hub_terminated ?h"
      using inv by (auto simp: binding_inv_def)
    obtain y out' h' where st: "run_started W r ?h = (y, out', h')" by (metis prod_cases3)
    have c': "bc_monitors c' = h'" "bc_latest_bind_run c' = Some (mr_run_id r)"
      "bc_current c' = (if y = None then BTerminated else Bound mb)"
      using b False st assms(5) by (auto simp: bind_mailbox_def Let_def split: option.splits bool.splits if_splits)
    have recent: "runs_recent c rs" and le: "mh_next_run_id ?h \<le> n" "mh_current_epoch ?h \<le> n"
      using inv by (simp_all add: binding_inv_def)
    have later: "case bc_latest_bind_run c of None \<Rightarrow> False | Some l \<Rightarrow> mr_run_id r' < l \<Longrightarrow>
        mr_run_id r' < mr_run_id r" for r'
      using newest by (auto split: option.splits)
    show ?thesis
    proof (cases y)
      case None
      note ref = run_started_refused [OF st [unfolded None]]
      have "hub_terminated ?h"
      proof (cases "mr_reopens_epoch r")
        case (Some e)
        have e: "e \<le> mh_current_epoch ?h" "\<not> Suc e < mh_current_epoch ?h"
          using recent r Some newest unfolding runs_recent_def by blast+
        moreover have "u64_saturating_add e 1 = Suc e" if "e < mh_current_epoch ?h"
          using that le n by (simp add: u64_saturating_add_def)
        ultimately show ?thesis using ref(3) [OF Some] by auto
      qed (use ref(2) in simp)
      moreover have "runs_recent c' (remove1 r rs)"
        using recent sub later unfolding runs_recent_def c' ref(1) by (simp add: subset_iff) blast
      ultimately show ?thesis using le None by (simp add: binding_inv_def c' ref(1))
    next
      case (Some z)
      note ok = run_started_terminated [OF st [unfolded Some]]
      have ep: "mh_current_epoch h' = (if z then Suc (mh_current_epoch ?h) else mh_current_epoch ?h)"
        using ok(3) le n by (simp add: u64_saturating_add_def)
      have fresh: "\<not> hub_terminated h'" using ok(1) alive by auto
      have "mr_run_id r' < mr_run_id r"
        if r': "r' \<in> set rs" and e: "mr_reopens_epoch r' = Some e" "Suc e < mh_current_epoch h'" for r' e
      proof (cases z)
        case True
        then have "mr_reopens_epoch r = Some (mh_current_epoch ?h)" "e < mh_current_epoch ?h" using ok(2) ep e(2) by auto
        with recent r r' e(1) show ?thesis unfolding runs_recent_def by blast
      next
        case False
        with recent r' e ep show ?thesis by (intro later) (simp add: runs_recent_def)
      qed
      moreover have "e \<le> mh_current_epoch h'" if "r' \<in> set rs" "mr_reopens_epoch r' = Some e" for r' e
        using recent that ep by (cases z) (auto simp: runs_recent_def le_SucI)
      ultimately have "runs_recent c' (remove1 r rs)"
        using recent sub ok(4) unfolding runs_recent_def c' by (simp add: subset_iff) blast
      with fresh le ep ok(4) Some show ?thesis by (simp add: binding_inv_def c')
    qed
  qed
qed

lemma remove_monitors_fields:
  assumes "remove_monitors T W c = (out, c')"
  shows "hub_terminated (bc_monitors c')" "bc_current c' = bc_current c"
    "bc_latest_bind_run c' = bc_latest_bind_run c"
    "mh_next_run_id (bc_monitors c') = mh_next_run_id (bc_monitors c)"
    "mh_current_epoch (bc_monitors c') = mh_current_epoch (bc_monitors c)"
proof -
  obtain o2 h where h: "hub_removed W (mh_current_epoch (bc_monitors c)) (bc_monitors c) = (o2, h)"
    by (cases "hub_removed W (mh_current_epoch (bc_monitors c)) (bc_monitors c)")
  with assms have c': "c' = c\<lparr>bc_monitors := h, bc_tokens := monitors_terminate T (bc_outbound c) (bc_tokens c)\<rparr>"
    by (simp add: remove_monitors_def)
  show "hub_terminated (bc_monitors c')" "bc_current c' = bc_current c"
    "bc_latest_bind_run c' = bc_latest_bind_run c"
    "mh_next_run_id (bc_monitors c') = mh_next_run_id (bc_monitors c)"
    "mh_current_epoch (bc_monitors c') = mh_current_epoch (bc_monitors c)"
    using hub_removed_terminated [OF h] hub_removed_frame [OF h] by (simp_all add: c')
qed

lemma binding_inv_terminate:
  assumes "binding_inv n c rs" and "terminate_binding T W c = (out, c')"
  shows "binding_inv (Suc n) c' rs"
  using remove_monitors_fields [OF assms(2) [unfolded terminate_binding_def]] assms(1)
    runs_recent_keep [of c rs rs c'] by (simp add: binding_inv_def)

lemma binding_inv_guard:
  assumes inv: "binding_inv n c rs" and g: "binding_slot_guard_drop T W nv mb c = (x, out, c')"
  shows "binding_inv (Suc n) c' rs"
proof (cases "bc_current c = Bound mb")
  case False
  with g have "c' = c"
    by (auto simp: binding_slot_guard_drop_def terminate_mailbox_def unbind_mailbox_def split: if_splits)
  with inv show ?thesis by (auto simp: binding_inv_def)
next
  case bnd: True
  show ?thesis
  proof (cases nv)
    case True
    with g bnd have "terminate_binding T W c = (out, c')"
      by (auto simp: binding_slot_guard_drop_def terminate_mailbox_def terminate_binding_def split: prod.splits)
    with inv show ?thesis by (rule binding_inv_terminate)
  next
    case False
    with g bnd have "c' = c\<lparr>bc_current := Unbound\<rparr>" by (simp add: binding_slot_guard_drop_def unbind_mailbox_def)
    with inv bnd runs_recent_keep [of c rs rs c'] show ?thesis by (simp add: binding_inv_def)
  qed
qed

lemma binding_inv_minted:
  assumes inv: "binding_inv n c rs" and n: "n < u64_max" and m: "core_monitor_run c = (r, c')"
  shows "binding_inv (Suc n) c' (r # rs)"
proof -
  let ?h = "bc_monitors c"
  have le: "mh_next_run_id ?h \<le> n" "mh_current_epoch ?h \<le> n" using inv by (simp_all add: binding_inv_def)
  then have c': "c' = c\<lparr>bc_monitors := ?h\<lparr>mh_next_run_id := Suc (mh_next_run_id ?h)\<rparr>\<rparr>"
    "mr_run_id r = mh_next_run_id ?h"
    "mr_reopens_epoch r = (if bc_current c = BTerminated then Some (mh_current_epoch ?h) else None)"
    using m n by (auto simp: core_monitor_run_def new_run_def u64_saturating_add_def)
  have recent: "runs_recent c rs" using inv by (simp add: binding_inv_def)
  have old: "mr_run_id r' < mh_next_run_id ?h" "mr_reopens_epoch r' = Some e \<Longrightarrow> e \<le> mh_current_epoch ?h"
    if "r' \<in> set rs" for r' e using recent that by (simp_all add: runs_recent_def)
  have new: "e = mh_current_epoch ?h" if "mr_reopens_epoch r = Some e" for e
    using that by (simp add: c' split: if_splits)
  have "runs_recent c' (r # rs)"
    unfolding runs_recent_def
  proof (intro conjI)
    show "\<forall>x \<in> set (r # rs). mr_run_id x < mh_next_run_id (bc_monitors c')"
      using old(1) by (auto simp: c'(1,2) less_SucI)
    show "\<forall>x \<in> set (r # rs). \<forall>e. mr_reopens_epoch x = Some e \<longrightarrow> e \<le> mh_current_epoch (bc_monitors c') \<and>
        (Suc e < mh_current_epoch (bc_monitors c') \<longrightarrow>
          (case bc_latest_bind_run c' of None \<Rightarrow> False | Some l \<Rightarrow> mr_run_id x < l))"
      using recent new by (auto simp: c'(1) runs_recent_def)
    show "\<forall>x \<in> set (r # rs). \<forall>y \<in> set (r # rs). \<forall>e e'. mr_reopens_epoch x = Some e \<longrightarrow>
        mr_reopens_epoch y = Some e' \<longrightarrow> e < e' \<longrightarrow> mr_run_id x < mr_run_id y"
    proof (intro ballI allI impI)
      fix x y e e' assume x: "x \<in> set (r # rs)" "mr_reopens_epoch x = Some e"
        and y: "y \<in> set (r # rs)" "mr_reopens_epoch y = Some e'" and "e < e'"
      consider "x = r" | "x \<in> set rs" "y = r" | "x \<in> set rs" "y \<in> set rs" using x y by auto
      then show "mr_run_id x < mr_run_id y"
      proof cases
        case 1
        then have "e = mh_current_epoch ?h" using new x by simp
        moreover have "e' \<le> mh_current_epoch ?h" using y new old(2) by auto
        ultimately show ?thesis using \<open>e < e'\<close> by simp
      next
        case 2
        then show ?thesis using old(1) by (simp add: c'(2))
      next
        case 3
        with recent x(2) y(2) \<open>e < e'\<close> show ?thesis unfolding runs_recent_def by blast
      qed
    qed
  qed
  with inv le show ?thesis by (simp add: binding_inv_def c' hub_terminated_def)
qed

lemma binding_run_inv:
  assumes "binding_run T c0 n c rs" and "c0 = binding_core_new T a t"
  shows "n \<le> u64_max \<Longrightarrow> binding_inv n c rs"
  using assms(1)
proof (induction rule: binding_run.induct)
  case created
  show ?case
    by (auto simp: assms(2) binding_core_new_def binding_inv_def runs_recent_def hub_terminated_def
        monitor_hub_new_def is_removed_def split: prod.split)
next
  case (minted n c rs r c')
  then show ?case by (intro binding_inv_minted [of n c]) simp_all
next
  case (bound n c rs r W mb x out c')
  from bound.IH bound.prems have "binding_inv n c rs" "n < u64_max" by simp_all
  from binding_inv_bind [OF this bound.hyps(2-4)] show ?case .
next
  case (exited n c rs W i st out c')
  obtain o2 h where h: "run_exited W i st (bc_monitors c) = (o2, h)" by (cases "run_exited W i st (bc_monitors c)")
  with exited.hyps(2) have c': "c' = c\<lparr>bc_monitors := h\<rparr>" by (simp add: core_exited_def)
  from exited.IH exited.prems run_exited_terminated [OF h] run_exited_frame [OF h] runs_recent_keep [of c rs rs c']
  show ?case by (simp add: binding_inv_def c')
next
  case (unbound n c rs)
  then have "binding_inv n c rs" by simp
  moreover have "runs_recent (unbind c) rs" if "runs_recent c rs"
    using that by (rule runs_recent_keep) (simp_all add: unbind_def split: binding_state.split)
  ultimately show ?case by (auto simp: binding_inv_def unbind_def split: binding_state.splits)
next
  case (dropped n c rs W nv mb x out c')
  then show ?case by (intro binding_inv_guard [of n c]) simp_all
next
  case (terminated n c rs W out c')
  then show ?case by (intro binding_inv_terminate [of n c]) simp_all
qed

text \<open>
  C30. The binding slot and the monitors agree in every history of an actor: senders see the
  binding as terminated exactly when watchers have been told that the actor is gone or will be
  as soon as its last run has exited.  A late run, or the late teardown of a displaced mailbox,
  cannot change that.
\<close>

theorem binding_agrees_with_monitors:
  assumes "binding_run T (binding_core_new T a t) n c rs" and "n \<le> u64_max"
  shows "bc_current c = BTerminated \<longleftrightarrow>
    is_removed (mh_lifecycle (bc_monitors c)) \<or> mh_removal_requested (bc_monitors c)"
  using binding_run_inv [OF assms(1) refl assms(2)] by (simp add: binding_inv_def hub_terminated_def)

definition sample_core :: "token_forest binding_core" where
  "sample_core = binding_core_new forest_env ''db'' sample_forest"

definition sample_core_run :: "monitor_run \<times> token_forest binding_core" where
  "sample_core_run = core_monitor_run sample_core"

definition sample_core_bound :: "bind_result \<times> staged \<times> token_forest binding_core" where
  "sample_core_bound = bind_mailbox forest_env live_signals 1 (fst sample_core_run) (snd sample_core_run)"

definition sample_core_ended :: "staged \<times> token_forest binding_core" where
  "sample_core_ended = terminate_binding forest_env live_signals (snd (snd sample_core_bound))"

lemma sample_binding_run:
  "binding_run forest_env sample_core 3 (snd sample_core_ended) []"
proof -
  have "binding_run forest_env sample_core (Suc 0) (snd sample_core_run) [fst sample_core_run]"
    by (rule binding_run.minted [OF binding_run.created]) (simp add: sample_core_run_def)
  moreover have "fst sample_core_bound \<noteq> BindPanicked" by code_simp
  ultimately have "binding_run forest_env sample_core 2 (snd (snd sample_core_bound)) []"
    using binding_run.bound [of forest_env sample_core "Suc 0" "snd sample_core_run" "[fst sample_core_run]"
        "fst sample_core_run" live_signals 1 "fst sample_core_bound" "fst (snd sample_core_bound)"]
    by (simp add: sample_core_bound_def numeral_2_eq_2)
  from binding_run.terminated [OF this, of live_signals "fst sample_core_ended"] show ?thesis
    by (simp add: sample_core_ended_def numeral_3_eq_3 numeral_2_eq_2)
qed

theorem binding_agrees_with_monitors_witness:
  "binding_run forest_env sample_core 3 (snd sample_core_ended) [] \<and>
   bc_current (snd sample_core_ended) = BTerminated \<and>
   (is_removed (mh_lifecycle (bc_monitors (snd sample_core_ended))) \<or>
    mh_removal_requested (bc_monitors (snd sample_core_ended)))"
proof -
  have "bc_current (snd sample_core_ended) = BTerminated" by code_simp
  moreover from binding_agrees_with_monitors [of forest_env "''db''" sample_forest 3 "snd sample_core_ended" "[]"]
  have "bc_current (snd sample_core_ended) = BTerminated \<longleftrightarrow>
      is_removed (mh_lifecycle (bc_monitors (snd sample_core_ended))) \<or>
      mh_removal_requested (bc_monitors (snd sample_core_ended))"
    using sample_binding_run by (simp add: sample_core_def u64_max_def)
  ultimately show ?thesis using sample_binding_run by simp
qed

end
