(* ===== verification/Actor_Ref.thy ===== *)
theory Actor_Ref
  imports Binding Timers
begin

text \<open>
  Sending to an actor by reference (\<open>actor/context.rs\<close>: \<open>ActorRef\<close>, \<open>Reply\<close> and
  \<open>ReplyReceiver\<close>; the errors of \<open>actor/error.rs\<close>).

  A send is a small state machine that resolves the current mailbox, sends to it, and waits for
  another mailbox when that one is closed.  What it sees at each poll is an observation: the
  binding of the target, whether the binding can still change, the mailboxes and the clock.
  A send is a function of the list of observations; one that still waits at the end of the
  list is \<open>SendWaiting\<close>.
\<close>

section \<open>Errors\<close>

record 'm send_error =
  se_actor_id :: string
  se_message :: 'm
  se_kind :: send_error_kind

fun fmt_with_actor :: "send_error_kind \<Rightarrow> string \<Rightarrow> string" where
  "fmt_with_actor NotRunning i = ''actor `'' @ i @ ''` is not currently running''"
| "fmt_with_actor Full i = ''mailbox for actor `'' @ i @ ''` is full''"
| "fmt_with_actor Terminated i = ''actor `'' @ i @ ''` has terminated''"
| "fmt_with_actor TimedOut i = ''send to actor `'' @ i @ ''` timed out''"

definition send_error_display :: "'m send_error \<Rightarrow> string" where
  "send_error_display e = fmt_with_actor (se_kind e) (se_actor_id e)"

record erased_send_error =
  ee_actor_id :: string
  ee_kind :: send_error_kind

definition into_boxed :: "'m send_error \<Rightarrow> erased_send_error" where
  "into_boxed e = \<lparr>ee_actor_id = se_actor_id e, ee_kind = se_kind e\<rparr>"

definition erased_display :: "erased_send_error \<Rightarrow> string" where
  "erased_display e = fmt_with_actor (ee_kind e) (ee_actor_id e)"

datatype reply_error = ReplyErrDropped | ReplyErrTimeout

datatype call_error =
    CallTerminated string
  | CallAcceptanceTimedOut string
  | CallResponseTimedOut string
  | CallReplyDropped string

section \<open>References\<close>

datatype message_operation = MsgSend | MsgSendTimeout | MsgTrySend

record 'm actor_ref =
  ar_actor_id :: string
  ar_stats :: actor_stats_counters
  ar_message_size :: "('m \<Rightarrow> usize) option"
  ar_trace :: "(message_operation \<times> message_rejection option) list"

record 'm observation =
  ob_binding :: binding_state
  ob_final :: bool
  ob_mailbox :: "nat \<Rightarrow> 'm mailbox_sender"
  ob_now :: instant
  ob_now1 :: instant
  ob_now2 :: instant

definition ref_stats :: "(nat \<Rightarrow> usize \<times> usize) \<Rightarrow> binding_state \<Rightarrow> 'm actor_ref \<Rightarrow> actor_stats" where
  "ref_stats usage binding r =
     (let (depth, capacity) = (case binding of Bound mb \<Rightarrow> usage mb | _ \<Rightarrow> (0, 0))
      in counters_snapshot (ar_actor_id r) depth capacity (ar_stats r))"

definition observe_send ::
    "message_operation \<Rightarrow> message_rejection option \<Rightarrow> 'm actor_ref \<Rightarrow> 'm actor_ref" where
  "observe_send operation rejection r = r\<lparr>ar_trace := ar_trace r @ [(operation, rejection)]\<rparr>"

definition make_send_error :: "'m actor_ref \<Rightarrow> 'm \<Rightarrow> send_error_kind \<Rightarrow> 'm send_error" where
  "make_send_error r m kind = \<lparr>se_actor_id = ar_actor_id r, se_message = m, se_kind = kind\<rparr>"

definition ref_record_send :: "bool \<Rightarrow> 'm actor_ref \<Rightarrow> 'm actor_ref" where
  "ref_record_send accepted r = r\<lparr>ar_stats := record_send accepted (ar_stats r)\<rparr>"

definition ref_record_message_size :: "usize option \<Rightarrow> 'm actor_ref \<Rightarrow> 'm actor_ref" where
  "ref_record_message_size bytes r =
     (case bytes of Some n \<Rightarrow> r\<lparr>ar_stats := record_message_bytes n (ar_stats r)\<rparr> | None \<Rightarrow> r)"

definition size_hint :: "'m actor_ref \<Rightarrow> 'm \<Rightarrow> usize option" where
  "size_hint r m = map_option (\<lambda>observer. observer m) (ar_message_size r)"

text \<open>The bookkeeping of an accepted and of a finally rejected send.\<close>

definition record_accepted ::
    "message_operation \<Rightarrow> u64 \<Rightarrow> usize option \<Rightarrow> 'm actor_ref \<Rightarrow> 'm actor_ref" where
  "record_accepted operation conflated bytes r =
     ref_record_message_size bytes
       ((\<lambda>r. r\<lparr>ar_stats := record_conflated conflated (ar_stats r)\<rparr>)
         (ref_record_send True (observe_send operation None r)))"

definition record_rejected ::
    "message_operation \<Rightarrow> message_rejection \<Rightarrow> 'm actor_ref \<Rightarrow> 'm actor_ref" where
  "record_rejected operation rejection r =
     ref_record_send False (observe_send operation (Some rejection) r)"

section \<open>Waiting for a mailbox\<close>

datatype 'a poll = Wait | Ready 'a

text \<open>
  One look at the binding.  When nothing suitable is bound the loops wait for a change, which
  fails once the binding is final (its owner is gone).
\<close>

definition wait_for_next_mailbox :: "'m observation \<Rightarrow> (unit + nat) poll" where
  "wait_for_next_mailbox ob =
     (case ob_binding ob of
        Bound mb \<Rightarrow> Ready (Inr mb)
      | BTerminated \<Rightarrow> Ready (Inl ())
      | Unbound \<Rightarrow> if ob_final ob then Ready (Inl ()) else Wait)"

definition wait_for_incarnation_after :: "nat option \<Rightarrow> 'm observation \<Rightarrow> (unit + nat) poll" where
  "wait_for_incarnation_after previous ob =
     (case ob_binding ob of
        Bound mb \<Rightarrow>
          if (case previous of None \<Rightarrow> True | Some p \<Rightarrow> p \<noteq> mb) then Ready (Inr mb)
          else if ob_final ob then Ready (Inl ()) else Wait
      | BTerminated \<Rightarrow> Ready (Inl ())
      | Unbound \<Rightarrow> if ob_final ob then Ready (Inl ()) else Wait)"

definition wait_terminated :: "'m observation \<Rightarrow> unit poll" where
  "wait_terminated ob = (if ob_binding ob = BTerminated \<or> ob_final ob then Ready () else Wait)"

definition wait_for_rebind_or_termination :: "nat \<Rightarrow> 'm observation \<Rightarrow> (unit + unit) poll" where
  "wait_for_rebind_or_termination stale ob =
     (case ob_binding ob of
        Bound current \<Rightarrow>
          if current \<noteq> stale then Ready (Inr ()) else if ob_final ob then Ready (Inl ()) else Wait
      | BTerminated \<Rightarrow> Ready (Inl ())
      | Unbound \<Rightarrow> if ob_final ob then Ready (Inl ()) else Wait)"

section \<open>Sending\<close>

text \<open>
  An accepted send names its mailbox and the mailbox's sender afterwards, with the message
  in it.
\<close>

datatype phase = Resolving | Sending nat | Rebinding nat

datatype 'm send_result =
    SendOk nat "'m mailbox_sender"
  | SendErr "'m send_error"
  | SendWaiting phase

datatype 'm send_step = Goto phase | Return "'m send_result"

definition send_poll ::
    "phase \<Rightarrow> 'm \<Rightarrow> 'm observation \<Rightarrow> 'm actor_ref \<Rightarrow> 'm send_step \<times> 'm actor_ref" where
  "send_poll ph m ob r =
     (let terminated = (Return (SendErr (make_send_error r m Terminated)),
                        record_rejected MsgSend RejectActorTerminated r)
      in case ph of
           Resolving \<Rightarrow>
             (case wait_for_next_mailbox ob of
                Wait \<Rightarrow> (Goto Resolving, r)
              | Ready (Inr mb) \<Rightarrow> (Goto (Sending mb), r)
              | Ready (Inl _) \<Rightarrow> terminated)
         | Sending mb \<Rightarrow>
             (case send_retaining m (ob_mailbox ob mb) of
                (None, _) \<Rightarrow> (Goto (Sending mb), r)
              | (Some (Accepted conflated), sender) \<Rightarrow>
                  (Return (SendOk mb sender), record_accepted MsgSend conflated (size_hint r m) r)
              | (Some (Closed _), _) \<Rightarrow>
                  (Goto (Rebinding mb), observe_send MsgSend (Some RejectMailboxClosed) r))
         | Rebinding stale \<Rightarrow>
             (case wait_for_rebind_or_termination stale ob of
                Wait \<Rightarrow> (Goto (Rebinding stale), r)
              | Ready (Inr _) \<Rightarrow> (Goto Resolving, r)
              | Ready (Inl _) \<Rightarrow> terminated))"

fun send_to_incarnation ::
    "phase \<Rightarrow> 'm \<Rightarrow> 'm observation list \<Rightarrow> 'm actor_ref \<Rightarrow> 'm send_result \<times> 'm actor_ref" where
  "send_to_incarnation ph m [] r = (SendWaiting ph, r)"
| "send_to_incarnation ph m (ob # obs) r =
     (case send_poll ph m ob r of
        (Goto ph', r') \<Rightarrow> send_to_incarnation ph' m obs r'
      | (Return res, r') \<Rightarrow> (res, r'))"

definition send_until_poll ::
    "instant \<Rightarrow> phase \<Rightarrow> 'm \<Rightarrow> 'm observation \<Rightarrow> 'm actor_ref \<Rightarrow> 'm send_step \<times> 'm actor_ref" where
  "send_until_poll deadline ph m ob r =
     (let terminated = (Return (SendErr (make_send_error r m Terminated)),
                        record_rejected MsgSendTimeout RejectActorTerminated r);
          timed_out = (Return (SendErr (make_send_error r m TimedOut)),
                       record_rejected MsgSendTimeout RejectTimeout r);
          elapsed = (deadline \<le> ob_now ob)
      in case ph of
           Resolving \<Rightarrow>
             if elapsed then timed_out
             else (case wait_for_next_mailbox ob of
                     Wait \<Rightarrow> (Goto Resolving, r)
                   | Ready (Inr mb) \<Rightarrow> (Goto (Sending mb), r)
                   | Ready (Inl _) \<Rightarrow> terminated)
         | Sending mb \<Rightarrow>
             (case send_retaining_until m deadline elapsed (ob_now1 ob) (ob_now2 ob) (ob_mailbox ob mb) of
                (None, _) \<Rightarrow> (Goto (Sending mb), r)
              | (Some (TAccepted conflated), sender) \<Rightarrow>
                  (Return (SendOk mb sender), record_accepted MsgSendTimeout conflated (size_hint r m) r)
              | (Some (TClosed _), _) \<Rightarrow>
                  (Goto (Rebinding mb), observe_send MsgSendTimeout (Some RejectMailboxClosed) r)
              | (Some (TTimeout _), _) \<Rightarrow> timed_out)
         | Rebinding stale \<Rightarrow>
             if elapsed then timed_out
             else (case wait_for_rebind_or_termination stale ob of
                     Wait \<Rightarrow> (Goto (Rebinding stale), r)
                   | Ready (Inr _) \<Rightarrow> (Goto Resolving, r)
                   | Ready (Inl _) \<Rightarrow> terminated))"

fun send_until ::
    "instant \<Rightarrow> phase \<Rightarrow> 'm \<Rightarrow> 'm observation list \<Rightarrow> 'm actor_ref \<Rightarrow> 'm send_result \<times> 'm actor_ref" where
  "send_until deadline ph m [] r = (SendWaiting ph, r)"
| "send_until deadline ph m (ob # obs) r =
     (case send_until_poll deadline ph m ob r of
        (Goto ph', r') \<Rightarrow> send_until deadline ph' m obs r'
      | (Return res, r') \<Rightarrow> (res, r'))"

definition send_error_rejection :: "send_error_kind \<Rightarrow> message_rejection" where
  "send_error_rejection kind =
     (case kind of
        NotRunning \<Rightarrow> RejectNotRunning
      | Terminated \<Rightarrow> RejectActorTerminated
      | Full \<Rightarrow> RejectMailboxFull
      | TimedOut \<Rightarrow> RejectTimeout)"

definition try_send ::
    "'m \<Rightarrow> 'm observation \<Rightarrow> 'm actor_ref \<Rightarrow> ('m send_error + nat \<times> 'm mailbox_sender) \<times> 'm actor_ref" where
  "try_send m ob r =
     (let refuse = (\<lambda>kind. (Inl (make_send_error r m kind),
                            record_rejected MsgTrySend (send_error_rejection kind) r))
      in case ob_binding ob of
           Unbound \<Rightarrow> refuse (if ob_final ob then Terminated else NotRunning)
         | BTerminated \<Rightarrow> refuse Terminated
         | Bound mb \<Rightarrow>
             (case mailbox_try_send m (ob_mailbox ob mb) of
                (Inr conflated, sender) \<Rightarrow>
                  (Inr (mb, sender), record_accepted MsgTrySend conflated (size_hint r m) r)
              | (Inl failure, sender) \<Rightarrow>
                  (Inl (make_send_error r (tf_message failure) (tf_kind failure)),
                   record_rejected MsgTrySend (tf_rejection failure) r)))"

section \<open>Calls\<close>

text \<open>
  A reply slot holds nothing yet, a value, or has lost its sender.  The observations of
  the wait for a reply are the clock and the slot.
\<close>

datatype 'v reply_slot = ReplyPending | ReplySent 'v | ReplySenderDropped

definition recv_poll :: "'v reply_slot \<Rightarrow> (reply_error + 'v) poll" where
  "recv_poll slot =
     (case slot of
        ReplyPending \<Rightarrow> Wait
      | ReplySent v \<Rightarrow> Ready (Inr v)
      | ReplySenderDropped \<Rightarrow> Ready (Inl ReplyErrDropped))"

fun recv_until :: "instant \<Rightarrow> (instant \<times> 'v reply_slot) list \<Rightarrow> (reply_error + 'v) poll" where
  "recv_until deadline [] = Wait"
| "recv_until deadline ((now, slot) # rest) =
     (if deadline \<le> now then Ready (Inl ReplyErrTimeout)
      else case recv_poll slot of
             Wait \<Rightarrow> recv_until deadline rest
           | Ready x \<Rightarrow> Ready x)"

datatype 'v call_result = CallOk 'v | CallErr call_error | CallWaiting | CallUnreachable

definition call ::
    "instant \<Rightarrow> 'm \<Rightarrow> 'm observation list \<Rightarrow> (instant \<times> 'v reply_slot) list \<Rightarrow> 'm actor_ref \<Rightarrow>
     'v call_result \<times> 'm actor_ref" where
  "call deadline m obs replies r =
     (case send_until deadline Resolving m obs r of
        (SendWaiting _, r') \<Rightarrow> (CallWaiting, r')
      | (SendErr e, r') \<Rightarrow>
          (case se_kind e of
             Terminated \<Rightarrow> CallErr (CallTerminated (se_actor_id e))
           | TimedOut \<Rightarrow> CallErr (CallAcceptanceTimedOut (se_actor_id e))
           | _ \<Rightarrow> CallUnreachable, r')
      | (SendOk _ _, r') \<Rightarrow>
          (case recv_until deadline replies of
             Wait \<Rightarrow> CallWaiting
           | Ready (Inr v) \<Rightarrow> CallOk v
           | Ready (Inl ReplyErrDropped) \<Rightarrow> CallErr (CallReplyDropped (ar_actor_id r'))
           | Ready (Inl ReplyErrTimeout) \<Rightarrow> CallErr (CallResponseTimedOut (ar_actor_id r')), r'))"

section \<open>What a send promises\<close>

lemma erased_display_agrees: "erased_display (into_boxed e) = send_error_display e"
  by (simp add: erased_display_def into_boxed_def send_error_display_def)

definition sees_end :: "'m observation \<Rightarrow> bool" where
  "sees_end ob \<longleftrightarrow> ob_binding ob = BTerminated \<or> ob_final ob"

fun resolved :: "phase \<Rightarrow> nat \<Rightarrow> bool" where
  "resolved (Sending mb) mb' = (mb = mb')"
| "resolved _ _ = False"

text \<open>Statistics count each send once, when it settles.\<close>

definition counted :: "nat \<Rightarrow> nat \<Rightarrow> 'm actor_ref \<Rightarrow> 'm actor_ref \<Rightarrow> bool" where
  "counted accepted rejected r r' \<longleftrightarrow> ar_actor_id r' = ar_actor_id r
     \<and> ac_messages_accepted (ar_stats r') = (ac_messages_accepted (ar_stats r) + accepted) mod 2 ^ 64
     \<and> ac_sends_rejected (ar_stats r') = (ac_sends_rejected (ar_stats r) + rejected) mod 2 ^ 64"

definition in_range :: "'m actor_ref \<Rightarrow> bool" where
  "in_range r \<longleftrightarrow> ac_messages_accepted (ar_stats r) < 2 ^ 64 \<and> ac_sends_rejected (ar_stats r) < 2 ^ 64"

lemma counted_accepted: "in_range r \<Longrightarrow> counted 1 0 r (record_accepted operation n bytes r)"
  by (auto simp: counted_def in_range_def record_accepted_def ref_record_message_size_def ref_record_send_def
      observe_send_def record_send_def record_conflated_def record_message_bytes_def u64_fetch_add_def
      split: option.split)

lemma counted_rejected: "in_range r \<Longrightarrow> counted 0 1 r (record_rejected operation rejection r)"
  by (simp add: counted_def in_range_def record_rejected_def ref_record_send_def observe_send_def
      record_send_def u64_fetch_add_def)

lemma counted_observed: "in_range r \<Longrightarrow> counted 0 0 r (observe_send operation rejection r)"
  by (simp add: counted_def in_range_def observe_send_def)

lemma counted_refl: "in_range r \<Longrightarrow> counted 0 0 r r"
  by (simp add: counted_def in_range_def)

lemma counted_trans: "counted 0 0 r r' \<Longrightarrow> counted a b r' r'' \<Longrightarrow> counted a b r r''"
  by (simp add: counted_def mod_simps)

lemma counted_range: "counted a b r r' \<Longrightarrow> in_range r'"
  by (simp add: counted_def in_range_def)

text \<open>One poll: where it goes, and what it returns.\<close>

definition poll_ok ::
    "send_error_kind set \<Rightarrow> phase \<Rightarrow> 'm \<Rightarrow> 'm observation \<Rightarrow> 'm actor_ref \<Rightarrow> 'm send_step \<times> 'm actor_ref \<Rightarrow> bool" where
  "poll_ok kinds ph m ob r p \<longleftrightarrow>
     (case p of
        (Goto ph', r') \<Rightarrow> counted 0 0 r r' \<and> (\<forall>mb. resolved ph' mb \<longrightarrow> resolved ph mb \<or> ob_binding ob = Bound mb)
      | (Return (SendOk mb _), r') \<Rightarrow> counted 1 0 r r' \<and> resolved ph mb
      | (Return (SendErr e), r') \<Rightarrow> counted 0 1 r r' \<and> se_message e = m \<and> se_actor_id e = ar_actor_id r
          \<and> se_kind e \<in> kinds \<and> (se_kind e = Terminated \<longrightarrow> sees_end ob)
      | (Return (SendWaiting _), r') \<Rightarrow> False)"

lemmas poll_simps =
  poll_ok_def make_send_error_def counted_accepted [simplified] counted_rejected [simplified] counted_observed counted_refl
  wait_for_next_mailbox_def wait_for_rebind_or_termination_def sees_end_def Let_def

lemma send_poll_ok: "in_range r \<Longrightarrow> poll_ok {Terminated} ph m ob r (send_poll ph m ob r)"
  by (auto simp: send_poll_def poll_simps
      split: phase.split poll.split sum.split binding_state.split prod.split option.split send_outcome.split)

lemma send_until_poll_ok:
  "in_range r \<Longrightarrow> poll_ok {Terminated, TimedOut} ph m ob r (send_until_poll deadline ph m ob r)"
  by (auto simp: send_until_poll_def poll_simps
      split: phase.split poll.split sum.split binding_state.split prod.split option.split timed_send_outcome.split)

text \<open>The contract of a send, bounded or not; \<open>kinds\<close> are the errors it may report.\<close>

definition send_ok ::
    "send_error_kind set \<Rightarrow> phase \<Rightarrow> 'm \<Rightarrow> 'm observation list \<Rightarrow> 'm actor_ref \<Rightarrow>
     'm send_result \<times> 'm actor_ref \<Rightarrow> bool" where
  "send_ok kinds ph m obs r p \<longleftrightarrow>
     (case p of
        (SendOk mb _, r') \<Rightarrow> counted 1 0 r r' \<and> (resolved ph mb \<or> (\<exists>ob \<in> set obs. ob_binding ob = Bound mb))
      | (SendErr e, r') \<Rightarrow> counted 0 1 r r' \<and> se_message e = m \<and> se_actor_id e = ar_actor_id r
          \<and> se_kind e \<in> kinds \<and> (se_kind e = Terminated \<longrightarrow> (\<exists>ob \<in> set obs. sees_end ob))
      | (SendWaiting _, r') \<Rightarrow> counted 0 0 r r')"

lemma send_ok_goto:
  assumes "poll_ok kinds ph m ob r (Goto ph', r')" "send_ok kinds ph' m obs r' p"
  shows "send_ok kinds ph m (ob # obs) r p"
  using assms
  by (auto simp: poll_ok_def send_ok_def intro: counted_trans split: prod.splits send_result.splits)
     (auto simp: counted_def)

lemma send_ok_return: "poll_ok kinds ph m ob r (Return res, r') \<Longrightarrow> send_ok kinds ph m (ob # obs) r (res, r')"
  by (auto simp: poll_ok_def send_ok_def split: send_result.splits)

lemma goto_range: "poll_ok kinds ph m ob r (Goto ph', r') \<Longrightarrow> in_range r'"
  by (auto simp: poll_ok_def intro: counted_range)

lemma send_ok_send: "in_range r \<Longrightarrow> send_ok {Terminated} ph m obs r (send_to_incarnation ph m obs r)"
proof (induction obs arbitrary: ph r)
  case (Cons ob obs)
  obtain st r' where st: "send_poll ph m ob r = (st, r')" by force
  note ok = send_poll_ok [OF Cons.prems, of ph m ob, unfolded st]
  show ?case
  proof (cases st)
    case (Goto ph')
    with ok have "poll_ok {Terminated} ph m ob r (Goto ph', r')" by simp
    from send_ok_goto [OF this Cons.IH [OF goto_range [OF this]]] st Goto show ?thesis by simp
  next
    case (Return res)
    with ok st show ?thesis by (simp add: send_ok_return)
  qed
qed (simp add: send_ok_def counted_refl)

lemma send_ok_until:
  "in_range r \<Longrightarrow> send_ok {Terminated, TimedOut} ph m obs r (send_until deadline ph m obs r)"
proof (induction obs arbitrary: ph r)
  case (Cons ob obs)
  obtain st r' where st: "send_until_poll deadline ph m ob r = (st, r')" by force
  note ok = send_until_poll_ok [OF Cons.prems, of ph m ob deadline, unfolded st]
  show ?case
  proof (cases st)
    case (Goto ph')
    with ok have "poll_ok {Terminated, TimedOut} ph m ob r (Goto ph', r')" by simp
    from send_ok_goto [OF this Cons.IH [OF goto_range [OF this]]] st Goto show ?thesis by simp
  next
    case (Return res)
    with ok st show ?thesis by (simp add: send_ok_return)
  qed
qed (simp add: send_ok_def counted_refl)

section \<open>Guarantees\<close>

text \<open>
  C34. A plain send rides through restarts: it fails only when the target's end was observed, and
  then gives the message back; it succeeds only into a mailbox that was bound when resolved; and
  it is counted exactly once as accepted or rejected when it settles, never while it waits,
  however often a closed mailbox made it start over.\<close>

theorem send_rides_through_restarts:
  assumes "in_range r"
  shows "case send_to_incarnation Resolving m obs r of
      (SendOk mb _, r') \<Rightarrow> counted 1 0 r r' \<and> (\<exists>ob \<in> set obs. ob_binding ob = Bound mb)
    | (SendErr e, r') \<Rightarrow> counted 0 1 r r' \<and> e = make_send_error r m Terminated \<and> (\<exists>ob \<in> set obs. sees_end ob)
    | (SendWaiting _, r') \<Rightarrow> counted 0 0 r r'"
  using send_ok_send [OF assms, of Resolving m obs]
  by (auto simp: send_ok_def make_send_error_def split: prod.splits send_result.splits)

definition sample_ref :: "nat actor_ref" where
  "sample_ref = \<lparr>ar_actor_id = ''worker'', ar_stats = counters_new, ar_message_size = None, ar_trace = []\<rparr>"

definition sample_observation :: "binding_state \<Rightarrow> bool \<Rightarrow> instant \<Rightarrow> nat observation" where
  "sample_observation b accepting now =
     \<lparr>ob_binding = b, ob_final = False,
      ob_mailbox = (\<lambda>_. QueueSender \<lparr>qv_accepting = accepting, qv_reserve = Permit, qv_accepting_after = accepting\<rparr>),
      ob_now = now, ob_now1 = now, ob_now2 = now\<rparr>"

lemma sample_ref_range: "in_range sample_ref"
  by (simp add: in_range_def sample_ref_def counters_new_def)

theorem send_rides_through_restarts_witness:
  "case send_to_incarnation Resolving 5
       [sample_observation (Bound 0) True 1, sample_observation (Bound 0) False 2,
        sample_observation Unbound False 3, sample_observation (Bound 1) True 4,
        sample_observation (Bound 1) True 5, sample_observation (Bound 1) True 6] sample_ref of
      (SendOk mb _, r') \<Rightarrow> mb = 1 \<and> counted 1 0 sample_ref r' | _ \<Rightarrow> False"
  using send_rides_through_restarts [OF sample_ref_range, where m = 5 and obs =
      "[sample_observation (Bound 0) True 1, sample_observation (Bound 0) False 2,
        sample_observation Unbound False 3, sample_observation (Bound 1) True 4,
        sample_observation (Bound 1) True 5, sample_observation (Bound 1) True 6]"]
  by (simp add: send_poll_def sample_observation_def wait_for_next_mailbox_def
      wait_for_rebind_or_termination_def queue_send_retaining_def Let_def)

lemma send_until_append:
  "send_until deadline ph m (obs @ obs') r =
     (case send_until deadline ph m obs r of
        (SendWaiting ph', r') \<Rightarrow> send_until deadline ph' m obs' r'
      | p \<Rightarrow> p)"
proof (induction obs arbitrary: ph r)
  case (Cons ob obs)
  obtain st r' where st: "send_until_poll deadline ph m ob r = (st, r')" by force
  have "st \<noteq> Return (SendWaiting x)" for x
    using st by (auto simp: send_until_poll_def Let_def split: phase.splits poll.splits sum.splits prod.splits
        option.splits timed_send_outcome.splits if_splits)
  then show ?case using st Cons.IH by (cases st) (auto split: send_result.splits)
qed simp

text \<open>
  Past the deadline a poll settles the send, except that a mailbox found closed is first left
  for a last look at the binding.
\<close>

lemma elapsed_poll:
  assumes "deadline \<le> ob_now ob" "send_until_poll deadline ph m ob r = (Goto ph', r')"
  shows "(\<exists>mb. ph = Sending mb) \<and> (\<exists>mb. ph' = Rebinding mb)"
proof (cases ph)
  case (Sending mb)
  then show ?thesis
    using assms by (cases "ob_mailbox ob mb")
      (auto simp: send_until_poll_def Let_def queue_send_retaining_until_def split: if_splits)
qed (use assms in \<open>auto simp: send_until_poll_def Let_def\<close>)

text \<open>
  A bounded send keeps its bound: whatever has happened before, two polls after the deadline
  settle it, also while the target restarts, and it never waits for another mailbox beyond the
  deadline.\<close>

theorem send_until_keeps_deadline:
  assumes "deadline \<le> ob_now ob1" "deadline \<le> ob_now ob2"
  shows "case fst (send_until deadline ph m (obs @ [ob1, ob2]) r) of SendWaiting _ \<Rightarrow> False | _ \<Rightarrow> True"
proof -
  have two: "case fst (send_until deadline ph m [ob1, ob2] r) of SendWaiting _ \<Rightarrow> False | _ \<Rightarrow> True" for ph r
  proof -
    obtain st r1 where st: "send_until_poll deadline ph m ob1 r = (st, r1)" by force
    show ?thesis
    proof (cases st)
      case (Return res)
      then show ?thesis using st
        by (auto simp: send_until_poll_def Let_def split: phase.splits poll.splits sum.splits prod.splits
            option.splits timed_send_outcome.splits if_splits)
    next
      case (Goto ph1)
      then obtain mb where mb: "ph1 = Rebinding mb" using elapsed_poll [OF assms(1)] st by blast
      have "send_until_poll deadline ph1 m ob2 r1 =
          (Return (SendErr (make_send_error r1 m TimedOut)), record_rejected MsgSendTimeout RejectTimeout r1)"
        using assms(2) by (simp add: send_until_poll_def mb Let_def)
      with st Goto show ?thesis by simp
    qed
  qed
  obtain res r1 where "send_until deadline ph m obs r = (res, r1)" by force
  then show ?thesis
    by (cases res) (simp_all only: send_until_append prod.case send_result.case fst_conv two)
qed

theorem send_until_keeps_deadline_witness:
  "case fst (send_until 10 Resolving 5
       ([sample_observation (Bound 0) False 1] @ [sample_observation (Bound 0) False 11, sample_observation Unbound False 12])
       sample_ref) of SendWaiting _ \<Rightarrow> False | _ \<Rightarrow> True"
  by (rule send_until_keeps_deadline) (simp_all add: sample_observation_def)

lemma recv_until_sound:
  "recv_until deadline replies = Ready (Inr v) \<Longrightarrow> \<exists>now < deadline. (now, ReplySent v) \<in> set replies"
  by (induction deadline replies rule: recv_until.induct)
    (auto simp: recv_poll_def not_le split: if_splits reply_slot.splits poll.splits)

text \<open>
  C35. A call never reaches the branch its code declares unreachable, succeeds only with a value the
  actor replied before the deadline to a request a bound mailbox had accepted, and reports a
  failure before acceptance only if the request was not accepted, so that retrying it cannot
  duplicate work.\<close>

theorem call_errors_are_truthful:
  assumes "in_range r"
  shows "case call deadline m obs replies r of
      (CallOk v, r') \<Rightarrow> counted 1 0 r r' \<and> (\<exists>now < deadline. (now, ReplySent v) \<in> set replies)
    | (CallErr (CallTerminated i), r') \<Rightarrow> i = ar_actor_id r \<and> counted 0 1 r r' \<and> (\<exists>ob \<in> set obs. sees_end ob)
    | (CallErr (CallAcceptanceTimedOut i), r') \<Rightarrow> i = ar_actor_id r \<and> counted 0 1 r r'
    | (CallErr (CallResponseTimedOut i), r') \<Rightarrow> i = ar_actor_id r \<and> counted 1 0 r r'
    | (CallErr (CallReplyDropped i), r') \<Rightarrow> i = ar_actor_id r \<and> counted 1 0 r r'
    | (CallWaiting, r') \<Rightarrow> counted 0 0 r r' \<or> counted 1 0 r r'
    | (CallUnreachable, _) \<Rightarrow> False"
proof -
  obtain res r1 where res: "send_until deadline Resolving m obs r = (res, r1)" by force
  note ok = send_ok_until [OF assms, of Resolving m obs deadline, unfolded res]
  show ?thesis
  proof (cases res)
    case (SendOk mb sender)
    with ok have "counted 1 0 r r1" "ar_actor_id r1 = ar_actor_id r" by (auto simp: send_ok_def counted_def)
    then show ?thesis using res SendOk recv_until_sound [of deadline replies]
      by (auto simp: call_def split: poll.split sum.split reply_error.split)
  qed (use ok res in \<open>auto simp: call_def send_ok_def\<close>)
qed

theorem call_errors_are_truthful_witness:
  "case call 10 5 [sample_observation (Bound 0) True 1, sample_observation (Bound 0) True 2]
       [(3, ReplyPending), (4, ReplySent ''pong'')] sample_ref of
      (CallOk v, r') \<Rightarrow> counted 1 0 sample_ref r' \<and> v = ''pong'' | _ \<Rightarrow> False"
  using call_errors_are_truthful [OF sample_ref_range, where deadline = 10 and m = 5 and
      obs = "[sample_observation (Bound 0) True 1, sample_observation (Bound 0) True 2]" and
      replies = "[(3, ReplyPending), (4, ReplySent ''pong'')]"]
  by (simp add: call_def send_until_poll_def sample_observation_def wait_for_next_mailbox_def
      queue_send_retaining_until_def recv_poll_def Let_def)

end
