(* ===== verification/Actor_Run.thy ===== *)
theory Actor_Run
  imports Binding Policies Handler_Loop
begin

text \<open>
  Hosting one actor incarnation (\<open>actor/graph.rs\<close>): the exit reporter shared by the actor's task
  and its host, the select of the host, the classification of the task's end, and what becomes of
  the binding.  What the host's select finds ready at a poll is an input.
\<close>

section \<open>Reporting the exit\<close>

text \<open>
  The reporter's state, and the statuses handed to the monitors in order.
\<close>

record exit_reporter =
  er_fallback :: exit_status
  er_shutdown_requested :: bool
  er_reported :: bool
  er_exits :: "exit_status list"

definition exit_reporter_new :: "bool \<Rightarrow> exit_reporter" where
  "exit_reporter_new dropped_is_cancelled =
     \<lparr>er_fallback = EAborted False dropped_is_cancelled, er_shutdown_requested = False,
      er_reported = False, er_exits = []\<rparr>"

definition reporter_shutdown_requested :: "exit_reporter \<Rightarrow> exit_reporter" where
  "reporter_shutdown_requested r =
     (if er_reported r then r
      else r\<lparr>er_shutdown_requested := True,
             er_fallback := (case er_fallback r of
                               EAborted graced _ \<Rightarrow> EAborted graced True
                             | fallback \<Rightarrow> fallback)\<rparr>)"

definition reporter_aborted :: "bool \<Rightarrow> exit_reporter \<Rightarrow> exit_reporter" where
  "reporter_aborted graced r =
     (if er_reported r then r
      else r\<lparr>er_shutdown_requested := True, er_fallback := EAborted graced True\<rparr>)"

definition claim :: "exit_reporter \<Rightarrow> bool option \<times> exit_reporter" where
  "claim r =
     (if er_reported r then (None, r)
      else (Some (er_shutdown_requested r), r\<lparr>er_reported := True\<rparr>))"

definition report_exit :: "exit_status \<Rightarrow> exit_reporter \<Rightarrow> exit_reporter" where
  "report_exit st r = r\<lparr>er_exits := er_exits r @ [st]\<rparr>"

definition report_result :: "string option \<Rightarrow> exit_reporter \<Rightarrow> exit_reporter" where
  "report_result failure r =
     (case claim r of
        (None, r') \<Rightarrow> r'
      | (Some stopped, r') \<Rightarrow>
          report_exit (case failure of
                         Some msg \<Rightarrow> EFailed msg stopped
                       | None \<Rightarrow> ECompleted stopped) r')"

definition report_panicked :: "exit_reporter \<Rightarrow> exit_reporter" where
  "report_panicked r =
     (case claim r of
        (None, r') \<Rightarrow> r'
      | (Some stopped, r') \<Rightarrow> report_exit (EPanicked stopped) r')"

definition report_fallback :: "exit_reporter \<Rightarrow> exit_reporter" where
  "report_fallback r =
     (if er_reported r then r else report_exit (er_fallback r) (r\<lparr>er_reported := True\<rparr>))"

definition exit_guard_drop :: "bool \<Rightarrow> exit_reporter \<Rightarrow> exit_reporter" where
  "exit_guard_drop panicking r = (if panicking then report_panicked r else report_fallback r)"

section \<open>The exit of an incarnation\<close>

datatype task_error = SourceError string | ManualReadinessTimedOut duration

datatype actor_run_error =
    ArFailed string string
  | ArReadinessTimedOut string duration
  | ArShutdownTimedOut string
  | ArZeroMailboxCapacity string

datatype incarnation_exit = IncStopped | IncFailed actor_run_error | IncShutdownRequested

fun exit_is_failure :: "incarnation_exit \<Rightarrow> bool" where
  "exit_is_failure (IncFailed _) = True"
| "exit_is_failure _ = False"

fun exit_is_shutdown_requested :: "incarnation_exit \<Rightarrow> bool" where
  "exit_is_shutdown_requested IncShutdownRequested = True"
| "exit_is_shutdown_requested _ = False"

fun into_result :: "incarnation_exit \<Rightarrow> actor_run_error + unit" where
  "into_result (IncFailed e) = Inl e"
| "into_result _ = Inr ()"

datatype task_join = TaskOk | TaskErr task_error | TaskPanicked | TaskCancelled

datatype actor_exit_status = AxShutdown | AxStopped | AxFailed | AxPanicked | AxCancelled | AxShutdownTimedOut

fun actor_exit_str :: "actor_exit_status \<Rightarrow> string" where
  "actor_exit_str AxShutdown = ''shutdown''"
| "actor_exit_str AxStopped = ''stopped''"
| "actor_exit_str AxFailed = ''failed''"
| "actor_exit_str AxPanicked = ''panicked''"
| "actor_exit_str AxCancelled = ''cancelled''"
| "actor_exit_str AxShutdownTimedOut = ''shutdown_timed_out''"

text \<open>The running-actor count of a scope, decremented with saturation.\<close>

definition emit_actor_started :: "usize \<Rightarrow> usize" where
  "emit_actor_started running = running + 1"

definition emit_actor_exited :: "usize \<Rightarrow> usize" where
  "emit_actor_exited running = running - 1"

section \<open>The host's select\<close>

record host_poll =
  hp_ready :: "bool option"
  hp_abort :: "bool option"
  hp_joined :: "task_join option"
  hp_shutdown :: bool

record host_run =
  hr_reporter :: exit_reporter
  hr_shutdown_requested :: bool
  hr_shutdown_timed_out :: bool
  hr_ready_pending :: bool
  hr_ready_calls :: nat
  hr_cancelled :: bool
  hr_task_aborts :: nat

definition host_run_new :: "bool \<Rightarrow> host_run" where
  "host_run_new dropped_is_cancelled =
     \<lparr>hr_reporter = exit_reporter_new dropped_is_cancelled, hr_shutdown_requested = False,
      hr_shutdown_timed_out = False, hr_ready_pending = True, hr_ready_calls = 0, hr_cancelled = False,
      hr_task_aborts = 0\<rparr>"

definition host_ready :: "bool \<Rightarrow> host_run \<Rightarrow> host_run" where
  "host_ready ok s =
     s\<lparr>hr_ready_pending := False, hr_ready_calls := hr_ready_calls s + (if ok then 1 else 0)\<rparr>"

definition host_abort :: "bool \<Rightarrow> host_run \<Rightarrow> host_run" where
  "host_abort graced s =
     s\<lparr>hr_reporter := reporter_aborted graced (hr_reporter s), hr_shutdown_requested := True,
       hr_shutdown_timed_out := True, hr_cancelled := True, hr_task_aborts := hr_task_aborts s + 1\<rparr>"

definition host_shutdown :: "host_run \<Rightarrow> host_run" where
  "host_shutdown s =
     s\<lparr>hr_reporter := reporter_shutdown_requested (hr_reporter s), hr_shutdown_requested := True,
       hr_cancelled := True\<rparr>"

definition host_select :: "host_poll \<Rightarrow> host_run \<Rightarrow> task_join option \<times> host_run" where
  "host_select p s =
     (case if hr_ready_pending s then hp_ready p else None of
        Some ok \<Rightarrow> (None, host_ready ok s)
      | None \<Rightarrow>
          (case if hr_shutdown_timed_out s then None else hp_abort p of
             Some graced \<Rightarrow> (None, host_abort graced s)
           | None \<Rightarrow>
               (case hp_joined p of
                  Some joined \<Rightarrow> (Some joined, s)
                | None \<Rightarrow>
                    if hp_shutdown p \<and> \<not> hr_shutdown_requested s then (None, host_shutdown s)
                    else (None, s))))"

fun host_loop :: "host_poll list \<Rightarrow> host_run \<Rightarrow> task_join option \<times> host_run" where
  "host_loop [] s = (None, s)"
| "host_loop (p # ps) s =
     (case host_select p s of
        (Some joined, s') \<Rightarrow> (Some joined, s')
      | (None, s') \<Rightarrow> host_loop ps s')"

text \<open>The end of the task as an exit; a panic resumes unwinding and is \<^const>\<open>None\<close>.\<close>

definition run_error :: "string \<Rightarrow> task_error \<Rightarrow> actor_run_error" where
  "run_error i source =
     (case source of
        ManualReadinessTimedOut timeout \<Rightarrow> ArReadinessTimedOut i timeout
      | SourceError msg \<Rightarrow> ArFailed i msg)"

definition cancelled_error :: "string \<Rightarrow> actor_run_error" where
  "cancelled_error i = ArFailed i (''actor `'' @ i @ ''` task was cancelled'')"

definition classify_exit ::
    "string \<Rightarrow> host_run \<Rightarrow> task_join \<Rightarrow> incarnation_exit option \<times> actor_exit_status" where
  "classify_exit i s joined =
     (case joined of
        TaskOk \<Rightarrow>
          if hr_shutdown_requested s then (Some IncShutdownRequested, AxShutdown)
          else (Some IncStopped, AxStopped)
      | TaskErr source \<Rightarrow> (Some (IncFailed (run_error i source)), AxFailed)
      | TaskPanicked \<Rightarrow> (None, AxPanicked)
      | TaskCancelled \<Rightarrow>
          if hr_shutdown_timed_out s then (Some (IncFailed (ArShutdownTimedOut i)), AxShutdownTimedOut)
          else (Some (IncFailed (cancelled_error i)), AxCancelled))"

section \<open>Runnable actors\<close>

record runnable_actor =
  ra_actor_id :: string
  ra_binding :: nat
  ra_mailbox_capacity :: usize
  ra_running :: bool
  ra_running_actors :: usize

definition DEFAULT_MAILBOX_CAPACITY :: usize where
  "DEFAULT_MAILBOX_CAPACITY = 64"

definition actor_from_parts :: "usize \<Rightarrow> string \<Rightarrow> nat \<Rightarrow> 'm mailbox \<Rightarrow> runnable_actor" where
  "actor_from_parts scope_capacity i binding mailbox =
     \<lparr>ra_actor_id = i, ra_binding = binding, ra_mailbox_capacity = capacity_or scope_capacity mailbox, ra_running = False,
      ra_running_actors = 0\<rparr>"

datatype host_result =
    HostExit incarnation_exit
  | HostPanic
  | HostPending host_run
  | HostConcurrent

text \<open>
  The running flag is set for the duration of the run; starting a second concurrent incarnation
  panics (\<open>HostConcurrent\<close>).
\<close>

definition run_incarnation_until_ready ::
    "bool \<Rightarrow> host_poll list \<Rightarrow> runnable_actor \<Rightarrow> host_result \<times> host_run option \<times> runnable_actor" where
  "run_incarnation_until_ready dropped_is_cancelled ps a =
     (if ra_mailbox_capacity a = 0 then
        (HostExit (IncFailed (ArZeroMailboxCapacity (ra_actor_id a))), None, a)
      else if ra_running a then (HostConcurrent, None, a)
      else
        (let started = a\<lparr>ra_running := True, ra_running_actors := emit_actor_started (ra_running_actors a)\<rparr>
         in case host_loop ps (host_run_new dropped_is_cancelled) of
              (None, s) \<Rightarrow> (HostPending s, Some s, started)
            | (Some joined, s) \<Rightarrow>
                (case fst (classify_exit (ra_actor_id a) s joined) of Some e \<Rightarrow> HostExit e | None \<Rightarrow> HostPanic,
                 Some s,
                 started\<lparr>ra_running := False,
                         ra_running_actors := emit_actor_exited (ra_running_actors started)\<rparr>)))"

datatype disposition = ExpectRebind | TerminateBinding

definition run_disposition :: "restart_policy \<Rightarrow> incarnation_exit \<Rightarrow> disposition" where
  "run_disposition policy e =
     (if exit_is_shutdown_requested e then TerminateBinding
      else if should_restart policy (exit_is_failure e) then ExpectRebind
      else TerminateBinding)"

definition apply_run_disposition ::
    "'t token_env \<Rightarrow> watch_signals \<Rightarrow> disposition \<Rightarrow> 't binding_core \<Rightarrow> staged \<times> 't binding_core" where
  "apply_run_disposition T W d c =
     (case d of
        ExpectRebind \<Rightarrow> ([], unbind c)
      | TerminateBinding \<Rightarrow> terminate_binding T W c)"

text \<open>
  The end of a supervised run for its binding: the task's guard is dropped, then the disposition
  is applied unless the run unwinds with a panic.
\<close>

definition run_until_ready_epilogue ::
    "'t token_env \<Rightarrow> watch_signals \<Rightarrow> watch_signals \<Rightarrow> restart_policy \<Rightarrow> nat \<Rightarrow> host_result \<Rightarrow>
     't binding_core \<Rightarrow> 't binding_core" where
  "run_until_ready_epilogue T W W' policy mb res c =
     (let (cleared, out, c') = binding_slot_guard_drop T W (is_never policy) mb c
      in case res of
           HostExit e \<Rightarrow> snd (apply_run_disposition T W' (run_disposition policy e) c')
         | _ \<Rightarrow> c')"

text \<open>Dropping an actor host terminates its binding.\<close>

definition actor_host_drop ::
    "'t token_env \<Rightarrow> watch_signals \<Rightarrow> 't binding_core \<Rightarrow> staged \<times> 't binding_core" where
  "actor_host_drop T W c = apply_run_disposition T W TerminateBinding c"

section \<open>The actor's task\<close>

text \<open>
  The run of the actor within its task, polled together with the bound on manual readiness: the
  run's end wins, then readiness and shutdown, which lift the bound, then the timeout.
\<close>

record task_poll =
  tp_result :: "(string + unit) option"
  tp_ready :: bool
  tp_shutdown :: bool
  tp_timeout :: bool

fun managed_run :: "task_poll list \<Rightarrow> (task_error + unit) option" where
  "managed_run [] = None"
| "managed_run (p # ps) =
     (case tp_result p of
        Some (Inl e) \<Rightarrow> Some (Inl (SourceError e))
      | Some (Inr u) \<Rightarrow> Some (Inr u)
      | None \<Rightarrow> managed_run ps)"

fun bounded_run :: "duration \<Rightarrow> task_poll list \<Rightarrow> (task_error + unit) option" where
  "bounded_run timeout [] = None"
| "bounded_run timeout (p # ps) =
     (case tp_result p of
        Some (Inl e) \<Rightarrow> Some (Inl (SourceError e))
      | Some (Inr u) \<Rightarrow> Some (Inr u)
      | None \<Rightarrow>
          if tp_ready p \<or> tp_shutdown p then managed_run ps
          else if tp_timeout p then Some (Inl (ManualReadinessTimedOut timeout))
          else bounded_run timeout ps)"

definition start_run_result :: "duration option \<Rightarrow> task_poll list \<Rightarrow> (task_error + unit) option" where
  "start_run_result manual_readiness ps =
     (case manual_readiness of
        Some timeout \<Rightarrow> bounded_run timeout ps
      | None \<Rightarrow> managed_run ps)"

text \<open>
  The teardown after the run: intake is closed, leftover continuations are reported, and the
  context is dropped before the exit is reported.
\<close>

definition end_incarnation :: "('q, 'm) raw_context \<Rightarrow> ('q, 'm) raw_context \<times> nat option \<times> actor_stats_counters" where
  "end_incarnation c =
     (let c' = close_external_intake c
      in (c', if rc_continuations c' = [] then None else Some (length (rc_continuations c')),
          raw_context_drop c'))"

section \<open>The exit is reported once\<close>

text \<open>
  What the host and the task do to the reporter, in any order: the host announces a shutdown or an
  abort, the task reports its result, and the task's guard is dropped, by a panic or not.
\<close>

datatype reporter_op = RpShutdown | RpAborted bool | RpResult "string option" | RpGuardDrop bool

fun reporter_step :: "reporter_op \<Rightarrow> exit_reporter \<Rightarrow> exit_reporter" where
  "reporter_step RpShutdown r = reporter_shutdown_requested r"
| "reporter_step (RpAborted graced) r = reporter_aborted graced r"
| "reporter_step (RpResult failure) r = report_result failure r"
| "reporter_step (RpGuardDrop panicking) r = exit_guard_drop panicking r"

fun announces :: "reporter_op \<Rightarrow> bool" where
  "announces RpShutdown = True"
| "announces (RpAborted _) = True"
| "announces _ = False"

fun abort_grace :: "reporter_op \<Rightarrow> bool \<Rightarrow> bool" where
  "abort_grace (RpAborted graced) _ = graced"
| "abort_grace _ g = g"

definition reported_status :: "bool \<Rightarrow> reporter_op list \<Rightarrow> reporter_op \<Rightarrow> exit_status" where
  "reported_status dropped_is_cancelled before op =
     (let stopped = (before \<noteq> []) in
      case op of
        RpResult (Some msg) \<Rightarrow> EFailed msg stopped
      | RpResult None \<Rightarrow> ECompleted stopped
      | RpGuardDrop True \<Rightarrow> EPanicked stopped
      | _ \<Rightarrow> EAborted (fold abort_grace before False) (stopped \<or> dropped_is_cancelled))"

lemma reported_final: "er_reported r \<Longrightarrow> reporter_step op r = r"
  by (cases op) (simp_all add: reporter_shutdown_requested_def reporter_aborted_def report_result_def claim_def
      exit_guard_drop_def report_panicked_def report_fallback_def)

lemma reported_final_fold: "er_reported r \<Longrightarrow> fold reporter_step ops r = r"
  by (induction ops) (simp_all add: reported_final)

lemma announced_state:
  "list_all announces before \<Longrightarrow> fold reporter_step before (exit_reporter_new d) =
     \<lparr>er_fallback = EAborted (fold abort_grace before False) (before \<noteq> [] \<or> d),
      er_shutdown_requested = (before \<noteq> []), er_reported = False, er_exits = []\<rparr>"
proof (induction before rule: rev_induct)
  case (snoc op before)
  then show ?case
    by (cases op) (simp_all add: reporter_shutdown_requested_def reporter_aborted_def)
qed (simp add: exit_reporter_new_def)

text \<open>
  Every incarnation reports exactly one exit to its monitors, whatever the order in which the
  host announces shutdown and abort, the actor's task reports its result and the task's guard is
  dropped: the first report decides, it says whether a shutdown or abort was announced before it,
  and a task that was dropped without a result is reported as aborted, after the grace if so
  announced.\<close>

theorem exit_reported_once:
  assumes "list_all announces before" "\<not> announces op"
  shows "er_exits (fold reporter_step (before @ op # after) (exit_reporter_new d)) = [reported_status d before op]"
proof -
  let ?r = "fold reporter_step before (exit_reporter_new d)"
  have step: "er_reported (reporter_step op ?r)" "er_exits (reporter_step op ?r) = [reported_status d before op]"
    using assms(2)
    by (cases op; auto simp: announced_state [OF assms(1)] reported_status_def report_result_def claim_def
        report_exit_def exit_guard_drop_def report_panicked_def report_fallback_def Let_def split: option.split)+
  have "fold reporter_step (before @ op # after) (exit_reporter_new d) = reporter_step op ?r"
    using reported_final_fold [OF step(1), of after] by simp
  with step(2) show ?thesis by simp
qed

theorem exit_reported_once_witness:
  "er_exits (fold reporter_step ([RpShutdown, RpAborted True] @ RpGuardDrop False # [RpResult None]) (exit_reporter_new False))
     = [EAborted True True]"
  using exit_reported_once [of "[RpShutdown, RpAborted True]" "RpGuardDrop False" "[RpResult None]" False]
  by (simp add: reported_status_def)

section \<open>The binding after a run\<close>

lemma remove_monitors_current: "bc_current (snd (remove_monitors T W c)) = bc_current c"
  by (simp add: remove_monitors_def split: prod.split)

lemma terminate_current: "bc_current (snd (terminate_binding T W c)) = BTerminated"
  by (simp add: terminate_binding_def remove_monitors_current)

lemma guard_drop_current:
  assumes "bc_current c = Bound mb" "binding_slot_guard_drop T W never_restarts mb c = (x, out, c')"
  shows "bc_current c' = (if never_restarts then BTerminated else Unbound)"
  using assms remove_monitors_current [of T W "c\<lparr>bc_current := BTerminated\<rparr>"]
  by (auto simp: binding_slot_guard_drop_def terminate_mailbox_def unbind_mailbox_def split: if_splits prod.splits)

text \<open>
  A supervised run leaves its binding where its restart policy says, whether it returns or
  unwinds: open for the next incarnation exactly when the policy restarts this exit, terminated
  otherwise.  A panic skips the code that applies the disposition, but dropping the task's guard
  has the same effect, as the code relies on.\<close>

theorem run_leaves_binding_for_restart:
  assumes "bc_current c = Bound mb"
  shows "bc_current (run_until_ready_epilogue T W W' policy mb (HostExit e) c)
       = (if \<not> exit_is_shutdown_requested e \<and> should_restart policy (exit_is_failure e) then Unbound else BTerminated)
     \<and> bc_current (run_until_ready_epilogue T W W' policy mb HostPanic c)
       = (if should_restart policy True then Unbound else BTerminated)"
proof
  obtain x out c' where g: "binding_slot_guard_drop T W (is_never policy) mb c = (x, out, c')" by (metis prod.exhaust)
  note dropped = guard_drop_current [OF assms g]
  show "bc_current (run_until_ready_epilogue T W W' policy mb (HostExit e) c)
       = (if \<not> exit_is_shutdown_requested e \<and> should_restart policy (exit_is_failure e) then Unbound else BTerminated)"
    unfolding run_until_ready_epilogue_def g
    using dropped by (cases policy) (auto simp: apply_run_disposition_def run_disposition_def unbind_def
        terminate_current split: binding_state.split)
  show "bc_current (run_until_ready_epilogue T W W' policy mb HostPanic c)
       = (if should_restart policy True then Unbound else BTerminated)"
    unfolding run_until_ready_epilogue_def g using dropped by (cases policy) auto
qed

theorem run_leaves_binding_for_restart_witness:
  "bc_current (run_until_ready_epilogue forest_env live_signals live_signals Never 1 HostPanic (snd (snd sample_core_bound)))
     = BTerminated"
proof -
  have "bc_current (snd (snd sample_core_bound)) = Bound 1" by code_simp
  from run_leaves_binding_for_restart [OF this, of forest_env live_signals live_signals Never IncStopped]
  show ?thesis by simp
qed

section \<open>The host's view of the exit\<close>

definition stop_observed :: "host_poll \<Rightarrow> bool" where
  "stop_observed p \<longleftrightarrow> hp_shutdown p \<or> hp_abort p \<noteq> None"

definition host_inv :: "host_poll list \<Rightarrow> host_run \<Rightarrow> bool" where
  "host_inv seen s \<longleftrightarrow> hr_ready_calls s + (if hr_ready_pending s then 1 else 0) \<le> 1
     \<and> hr_cancelled s = hr_shutdown_requested s
     \<and> er_shutdown_requested (hr_reporter s) = hr_shutdown_requested s \<and> \<not> er_reported (hr_reporter s)
     \<and> (hr_shutdown_timed_out s \<longrightarrow> hr_shutdown_requested s)
     \<and> hr_task_aborts s = (if hr_shutdown_timed_out s then 1 else 0)
     \<and> (hr_shutdown_requested s \<longrightarrow> (\<exists>p \<in> set seen. stop_observed p))"

lemma host_inv_more: "host_inv seen s \<Longrightarrow> host_inv (seen @ [p]) s"
  by (auto simp: host_inv_def)

lemma host_ready_inv: "host_inv seen s \<Longrightarrow> hr_ready_pending s \<Longrightarrow> host_inv seen (host_ready ok s)"
  by (simp add: host_inv_def host_ready_def)

lemma host_abort_inv:
  "host_inv seen s \<Longrightarrow> \<not> hr_shutdown_timed_out s \<Longrightarrow> stop_observed p \<Longrightarrow> host_inv (seen @ [p]) (host_abort graced s)"
  by (auto simp: host_inv_def host_abort_def reporter_aborted_def)

lemma host_shutdown_inv: "host_inv seen s \<Longrightarrow> stop_observed p \<Longrightarrow> host_inv (seen @ [p]) (host_shutdown s)"
  by (auto simp: host_inv_def host_shutdown_def reporter_shutdown_requested_def)

lemma host_select_inv:
  assumes "host_inv seen s" "host_select p s = (j, s')"
  shows "host_inv (seen @ [p]) s'"
proof -
  have "s' = s \<or> (\<exists>ok. s' = host_ready ok s \<and> hr_ready_pending s)
      \<or> (\<exists>g. s' = host_abort g s \<and> \<not> hr_shutdown_timed_out s \<and> stop_observed p)
      \<or> (s' = host_shutdown s \<and> stop_observed p)"
    using assms(2) by (auto simp: host_select_def stop_observed_def split: option.splits if_splits)
  then show ?thesis
    using assms(1) host_inv_more host_ready_inv host_abort_inv host_shutdown_inv by blast
qed

lemma host_loop_inv:
  "host_inv seen s \<Longrightarrow> host_loop ps s = (j, s') \<Longrightarrow> \<exists>us vs. ps = us @ vs \<and> host_inv (seen @ us) s'"
proof (induction ps arbitrary: seen s)
  case (Cons p ps)
  obtain x s1 where x: "host_select p s = (x, s1)" by force
  note inv1 = host_select_inv [OF Cons.prems(1) x]
  show ?case
  proof (cases x)
    case None
    with Cons.prems(2) x have "host_loop ps s1 = (j, s')" by simp
    from Cons.IH [OF inv1 this] obtain us vs where "ps = us @ vs" "host_inv ((seen @ [p]) @ us) s'" by auto
    then show ?thesis by - (rule exI [of _ "p # us"], simp)
  next
    case (Some y)
    with Cons.prems(2) x inv1 show ?thesis by - (rule exI [of _ "[p]"], simp)
  qed
qed simp

lemma host_run_new_inv: "host_inv [] (host_run_new d)"
  by (simp add: host_inv_def host_run_new_def exit_reporter_new_def)

text \<open>
  The host reports readiness at most once, aborts the actor's task at most once, and its verdict
  agrees with what happened: an incarnation counts as shut down on request only if a shutdown or
  an abort was seen and the actor was told to stop, and as stopped on its own account only if the
  actor was never told to stop.\<close>

theorem incarnation_exit_is_truthful:
  "case run_incarnation_until_ready d ps a of
     (res, None, _) \<Rightarrow> res \<in> {HostConcurrent, HostExit (IncFailed (ArZeroMailboxCapacity (ra_actor_id a)))}
   | (res, Some s, _) \<Rightarrow> hr_ready_calls s \<le> 1 \<and> hr_task_aborts s \<le> 1
       \<and> (case res of
            HostExit IncShutdownRequested \<Rightarrow> hr_cancelled s \<and> (\<exists>p \<in> set ps. stop_observed p)
          | HostExit IncStopped \<Rightarrow> \<not> hr_cancelled s
          | HostExit (IncFailed (ArShutdownTimedOut i)) \<Rightarrow> i = ra_actor_id a \<and> hr_cancelled s \<and> hr_task_aborts s = 1
          | _ \<Rightarrow> True)"
proof -
  obtain j s where loop: "host_loop ps (host_run_new d) = (j, s)" by force
  from host_loop_inv [OF host_run_new_inv loop] obtain us vs where us: "ps = us @ vs" "host_inv us s" by auto
  have basic: "hr_ready_calls s \<le> 1" "hr_task_aborts s \<le> 1" "hr_cancelled s = hr_shutdown_requested s"
    "hr_shutdown_timed_out s \<Longrightarrow> hr_shutdown_requested s \<and> hr_task_aborts s = 1"
    "hr_shutdown_requested s \<Longrightarrow> \<exists>p \<in> set ps. stop_observed p"
    using us by (auto simp: host_inv_def split: if_splits)
  show ?thesis
  proof (cases j)
    case None
    with loop basic(1,2) show ?thesis by (simp add: run_incarnation_until_ready_def Let_def)
  next
    case (Some joined)
    with loop basic show ?thesis
      by (cases joined) (auto simp: run_incarnation_until_ready_def Let_def classify_exit_def run_error_def
          cancelled_error_def split: task_error.split)
  qed
qed

text \<open>The bound on manual readiness applies only until readiness or shutdown.\<close>

lemma readiness_bound_lifted:
  assumes "bounded_run timeout ps = Some (Inl (ManualReadinessTimedOut x))"
  shows "x = timeout \<and> (\<exists>us p vs. ps = us @ p # vs \<and> tp_timeout p \<and> list_all (\<lambda>q. \<not> tp_ready q \<and> \<not> tp_shutdown q) us)"
  using assms
proof (induction ps)
  case (Cons p ps)
  have managed: "managed_run qs \<noteq> Some (Inl (ManualReadinessTimedOut x))" for qs
    by (induction qs) (auto split: option.splits sum.splits)
  consider r where "tp_result p = Some r" | "tp_result p = None" "tp_ready p \<or> tp_shutdown p"
    | "tp_result p = None" "\<not> (tp_ready p \<or> tp_shutdown p)" "tp_timeout p"
    | "tp_result p = None" "\<not> (tp_ready p \<or> tp_shutdown p)" "\<not> tp_timeout p" by blast
  then show ?case
  proof cases
    case 3
    with Cons.prems show ?thesis by (auto intro: exI [of _ "[]"])
  next
    case 4
    with Cons obtain us q vs where "x = timeout" "ps = us @ q # vs" "tp_timeout q"
      "list_all (\<lambda>q. \<not> tp_ready q \<and> \<not> tp_shutdown q) us" by auto
    with 4 show ?thesis by (intro conjI exI [of _ "p # us"]) auto
  qed (use Cons.prems managed in \<open>auto split: sum.splits\<close>)
qed simp

end
