(* ===== verification/Actor_Spec.thy ===== *)
theory Actor_Spec
  imports Incarnation Actor_Run
begin

text \<open>
  Declaring actors (\<open>actor/builder.rs\<close>) and attaching them to a supervisor's children
  (\<open>runtime.rs\<close>: \<open>ActorRuntimeState\<close>, \<open>RuntimeAttachment\<close>, \<open>actor_child_spec\<close>).

  Shared cells (\<open>Arc\<close> values: bindings, actor runtime states, attachments and the stable
  identities of supervisors) live in a store and are named by numbers, so that a handle issued
  before a tree is spawned and the running tree can be seen to refer to the same cell.
\<close>

section \<open>The store\<close>

record actor_runtime_config =
  ax_mailbox_capacity :: usize
  ax_default_child_restart :: restart_policy
  ax_default_child_shutdown :: shutdown
  ax_default_actor_mailbox_shutdown :: mailbox_shutdown

datatype runtime_attachment_kind = AttachActor runnable_actor | AttachSubtree nat

record runtime_attachment =
  at_owner :: nat
  at_kind :: runtime_attachment_kind

record binding_entry =
  bn_actor_id :: string
  bn_message_size :: bool

text \<open>
  A stable identity in the store: its channels, the identities registered below it, and
  whether the built declaration that owns it still terminates it when it is dropped.
\<close>

record identity =
  ci_channels :: stable_channels
  ci_nested :: "(string \<times> nat) list"
  ci_terminalize_on_drop :: bool

record store =
  w_next_reservation :: u64
  w_identities :: "identity list"
  w_states :: "actor_runtime_config list"
  w_bindings :: "binding_entry list"
  w_attachments :: "runtime_attachment list"

definition store_new :: store where
  "store_new =
     \<lparr>w_next_reservation = 1, w_identities = [], w_states = [], w_bindings = [], w_attachments = []\<rparr>"

section \<open>Actor declarations\<close>

record 'm actor_options =
  ao_mailbox :: "'m mailbox"
  ao_size_hint :: "('m \<Rightarrow> usize) option"

definition actor_options_new :: "'m actor_options" where
  "actor_options_new = \<lparr>ao_mailbox = inherited_queue, ao_size_hint = None\<rparr>"

datatype actor_options_error = ZeroMailboxCapacity

definition options_validate :: "'m actor_options \<Rightarrow> actor_options_error + unit" where
  "options_validate opts =
     (if capacity_or 1 (ao_mailbox opts) = 0 then Inl ZeroMailboxCapacity else Inr ())"

fun options_error_message :: "actor_options_error \<Rightarrow> string" where
  "options_error_message ZeroMailboxCapacity = ''actor mailbox capacity must be non-zero''"

record 'm actor_spec =
  as_actor_id :: string
  as_binding :: "nat option"
  as_options :: "'m actor_options"
  as_restart :: "restart_policy option"
  as_shutdown :: "shutdown option"
  as_mailbox_shutdown :: "mailbox_shutdown option"
  as_remove_on_terminal_exit :: bool

definition actor_spec_new :: "string \<Rightarrow> 'm actor_spec" where
  "actor_spec_new i =
     \<lparr>as_actor_id = i, as_binding = None, as_options = actor_options_new, as_restart = None,
      as_shutdown = None, as_mailbox_shutdown = None, as_remove_on_terminal_exit = False\<rparr>"

definition actor_spec_mailbox :: "'m mailbox \<Rightarrow> 'm actor_spec \<Rightarrow> 'm actor_spec" where
  "actor_spec_mailbox mb a = a\<lparr>as_options := (as_options a)\<lparr>ao_mailbox := mb\<rparr>\<rparr>"

definition actor_spec_message_size :: "('m \<Rightarrow> usize) \<Rightarrow> 'm actor_spec \<Rightarrow> 'm actor_spec" where
  "actor_spec_message_size hint a = a\<lparr>as_options := (as_options a)\<lparr>ao_size_hint := Some hint\<rparr>\<rparr>"

definition actor_spec_restart :: "restart_policy \<Rightarrow> 'm actor_spec \<Rightarrow> 'm actor_spec" where
  "actor_spec_restart policy a = a\<lparr>as_restart := Some policy\<rparr>"

definition actor_spec_shutdown :: "shutdown \<Rightarrow> 'm actor_spec \<Rightarrow> 'm actor_spec" where
  "actor_spec_shutdown policy a = a\<lparr>as_shutdown := Some policy\<rparr>"

definition actor_spec_mailbox_shutdown :: "mailbox_shutdown \<Rightarrow> 'm actor_spec \<Rightarrow> 'm actor_spec" where
  "actor_spec_mailbox_shutdown policy a = a\<lparr>as_mailbox_shutdown := Some policy\<rparr>"

definition actor_spec_remove_on_terminal_exit :: "'m actor_spec \<Rightarrow> 'm actor_spec" where
  "actor_spec_remove_on_terminal_exit a = a\<lparr>as_remove_on_terminal_exit := True\<rparr>"

text \<open>A binding is created when it is first asked for, and kept from then on.\<close>

definition binding_alloc :: "string \<Rightarrow> store \<Rightarrow> nat \<times> store" where
  "binding_alloc i w =
     (length (w_bindings w),
      w\<lparr>w_bindings := w_bindings w @ [\<lparr>bn_actor_id = i, bn_message_size = False\<rparr>]\<rparr>)"

definition binding_get_or_init :: "string \<Rightarrow> nat option \<Rightarrow> store \<Rightarrow> nat \<times> store" where
  "binding_get_or_init i cell w = (case cell of Some b \<Rightarrow> (b, w) | None \<Rightarrow> binding_alloc i w)"

definition actor_spec_ref :: "'m actor_spec \<Rightarrow> store \<Rightarrow> nat \<times> 'm actor_spec \<times> store" where
  "actor_spec_ref a w =
     (let (b, w') = binding_get_or_init (as_actor_id a) (as_binding a) w
      in (b, a\<lparr>as_binding := Some b\<rparr>, w'))"

record actor_slot =
  sl_actor_id :: string
  sl_binding :: "nat option"

definition actor_slot_new :: "string \<Rightarrow> actor_slot" where
  "actor_slot_new i = \<lparr>sl_actor_id = i, sl_binding = None\<rparr>"

definition actor_slot_ref :: "actor_slot \<Rightarrow> store \<Rightarrow> nat \<times> actor_slot \<times> store" where
  "actor_slot_ref a w =
     (let (b, w') = binding_get_or_init (sl_actor_id a) (sl_binding a) w
      in (b, a\<lparr>sl_binding := Some b\<rparr>, w'))"

definition actor_slot_define :: "actor_slot \<Rightarrow> 'm actor_spec" where
  "actor_slot_define a = (actor_spec_new (sl_actor_id a))\<lparr>as_binding := sl_binding a\<rparr>"

section \<open>Actor nodes\<close>

record 'm deferred_actor =
  da_actor_id :: string
  da_binding :: "nat option"
  da_options :: "'m actor_options"

record 'm actor_node =
  an_actor :: "runnable_actor option"
  an_deferred :: "'m deferred_actor option"
  an_restart :: "restart_policy option"
  an_shutdown :: "shutdown option"
  an_mailbox_shutdown :: "mailbox_shutdown option"
  an_remove_on_terminal_exit :: bool

definition into_deferred_node :: "'m actor_spec \<Rightarrow> 'm actor_node" where
  "into_deferred_node a =
     \<lparr>an_actor = None,
      an_deferred = Some \<lparr>da_actor_id = as_actor_id a, da_binding = as_binding a, da_options = as_options a\<rparr>,
      an_restart = as_restart a, an_shutdown = as_shutdown a,
      an_mailbox_shutdown = as_mailbox_shutdown a,
      an_remove_on_terminal_exit = as_remove_on_terminal_exit a\<rparr>"

text \<open>A node has exactly one payload; the code's \<open>unreachable!\<close> is \<^const>\<open>None\<close>.\<close>

definition node_label :: "'m actor_node \<Rightarrow> string option" where
  "node_label n =
     (case (an_actor n, an_deferred n) of
        (Some a, None) \<Rightarrow> Some (ra_actor_id a)
      | (None, Some d) \<Rightarrow> Some (da_actor_id d)
      | _ \<Rightarrow> None)"

definition node_validate :: "'m actor_node \<Rightarrow> (actor_options_error + unit) option" where
  "node_validate n =
     (case (an_actor n, an_deferred n) of
        (Some _, None) \<Rightarrow> Some (Inr ())
      | (None, Some d) \<Rightarrow> Some (options_validate (da_options d))
      | _ \<Rightarrow> None)"

definition set_message_size_entry :: "nat \<Rightarrow> store \<Rightarrow> store" where
  "set_message_size_entry b w =
     w\<lparr>w_bindings := (w_bindings w)[b := (w_bindings w ! b)\<lparr>bn_message_size := True\<rparr>]\<rparr>"

definition deferred_materialize :: "usize \<Rightarrow> 'm deferred_actor \<Rightarrow> store \<Rightarrow> runnable_actor \<times> store" where
  "deferred_materialize capacity d w =
     (let (b, w1) = binding_get_or_init (da_actor_id d) (da_binding d) w;
          w2 = (if ao_size_hint (da_options d) = None then w1 else set_message_size_entry b w1)
      in (actor_from_parts capacity (da_actor_id d) b (ao_mailbox (da_options d)), w2))"

definition node_materialize :: "usize \<Rightarrow> 'm actor_node \<Rightarrow> store \<Rightarrow> 'm actor_node \<times> store" where
  "node_materialize capacity n w =
     (case an_deferred n of
        None \<Rightarrow> (n, w)
      | Some d \<Rightarrow>
          (let (a, w') = deferred_materialize capacity d w
           in (n\<lparr>an_actor := Some a, an_deferred := None\<rparr>, w')))"

definition into_node :: "usize \<Rightarrow> 'm actor_spec \<Rightarrow> store \<Rightarrow> 'm actor_node \<times> store" where
  "into_node capacity a w = node_materialize capacity (into_deferred_node a) w"

definition into_host :: "'m actor_spec \<Rightarrow> store \<Rightarrow> (runnable_actor \<times> mailbox_shutdown) option \<times> store" where
  "into_host a w =
     (let (n, w') = node_materialize DEFAULT_MAILBOX_CAPACITY (into_deferred_node a) w
      in (map_option (\<lambda>r. (r, case an_mailbox_shutdown n of Some p \<Rightarrow> p | None \<Rightarrow> Drain)) (an_actor n), w'))"

section \<open>Actor runtime states\<close>

definition state_alloc :: "actor_runtime_config \<Rightarrow> store \<Rightarrow> nat \<times> store" where
  "state_alloc c w = (length (w_states w), w\<lparr>w_states := w_states w @ [c]\<rparr>)"

definition state_configure :: "nat \<Rightarrow> actor_runtime_config \<Rightarrow> store \<Rightarrow> store" where
  "state_configure n c w = w\<lparr>w_states := (w_states w)[n := c]\<rparr>"

definition actor_defaults :: "nat \<Rightarrow> store \<Rightarrow> restart_policy \<times> shutdown \<times> mailbox_shutdown" where
  "actor_defaults n w =
     (let c = w_states w ! n
      in (ax_default_child_restart c, ax_default_child_shutdown c, ax_default_actor_mailbox_shutdown c))"

definition materialize_actor_node :: "nat \<Rightarrow> 'm actor_node \<Rightarrow> store \<Rightarrow> 'm actor_node \<times> store" where
  "materialize_actor_node n node w = node_materialize (ax_mailbox_capacity (w_states w ! n)) node w"

section \<open>Attachments and the child of an actor\<close>

definition attachment_actor :: "nat \<Rightarrow> runnable_actor \<Rightarrow> runtime_attachment" where
  "attachment_actor owner a = \<lparr>at_owner = owner, at_kind = AttachActor a\<rparr>"

definition attachment_subtree :: "nat \<Rightarrow> nat \<Rightarrow> runtime_attachment" where
  "attachment_subtree owner state = \<lparr>at_owner = owner, at_kind = AttachSubtree state\<rparr>"

definition belongs_to :: "nat \<Rightarrow> runtime_attachment \<Rightarrow> bool" where
  "belongs_to owner at \<longleftrightarrow> at_owner at = owner"

definition attach ::
    "runtime_attachment \<Rightarrow> child_definition \<Rightarrow> store \<Rightarrow> child_definition \<times> store" where
  "attach at d w =
     (spec_attachment (length (w_attachments w)) d, w\<lparr>w_attachments := w_attachments w @ [at]\<rparr>)"

record actor_child_options =
  co_restart :: restart_policy
  co_shutdown :: shutdown
  co_mailbox_shutdown :: mailbox_shutdown
  co_remove_on_terminal_exit :: bool

definition actor_child_spec ::
    "runnable_actor \<Rightarrow> nat \<Rightarrow> actor_child_options \<Rightarrow> store \<Rightarrow> child_definition \<times> store" where
  "actor_child_spec a owner opts w =
     (let (d, w') = attach (attachment_actor owner a) (task_spec_new (ra_actor_id a)) w;
          d' = spec_shutdown (co_shutdown opts) (spec_restart (co_restart opts) (automatic_readiness d))
      in (if co_remove_on_terminal_exit opts then remove_on_terminal_exit d' else d', w'))"

section \<open>A reference and its actor share a binding\<close>

text \<open>
  A reference taken from a declaration, before or after it is configured further, names the binding
  of the actor that is later made from it.
\<close>

lemma spec_ref_survives:
  assumes "actor_spec_ref a w = (b, a', w')"
    and "into_node capacity (f a') w1 = (n, w2)" "as_binding (f a') = as_binding a'"
  shows "map_option ra_binding (an_actor n) = Some b"
  using assms
  by (auto simp: actor_spec_ref_def into_node_def into_deferred_node_def node_materialize_def
      deferred_materialize_def binding_get_or_init_def actor_from_parts_def Let_def
      split: prod.splits option.splits)

end
