(* ===== verification/Tree_Model.thy ===== *)
theory Tree_Model
  imports Actor_Spec
begin

text \<open>
  Declaring and lowering supervision trees (\<open>supervision.rs\<close>): scope nodes with their
  configuration and children, the identities reserved for the scopes of a tree, the operations
  that build a tree, its outline, the lowering to configured supervisors, and the spawn of the root, together with the
  builder operations that publish a declaration (\<open>supervisor/builder.rs\<close>, \<open>supervisor/owner.rs\<close>,
  \<open>supervisor/handle.rs\<close>).

  Dropping a value is explicit where the code relies on it: a builder that is dropped marks
  its identity terminal.
\<close>

section \<open>Declarations\<close>

record scope_config =
  sc_strategy :: strategy
  sc_default_child_restart :: restart_policy
  sc_default_child_shutdown :: shutdown
  sc_default_actor_mailbox_shutdown :: mailbox_shutdown
  sc_default_actor_mailbox_capacity :: usize
  sc_reservation :: "u64 option"

definition scope_config_new :: scope_config where
  "scope_config_new =
     \<lparr>sc_strategy = default_strategy, sc_default_child_restart = default_restart_policy,
      sc_default_child_shutdown = default_shutdown, sc_default_actor_mailbox_shutdown = Drain,
      sc_default_actor_mailbox_capacity = DEFAULT_MAILBOX_CAPACITY, sc_reservation = None\<rparr>"

datatype 'm scope_node =
    OrderedNode (node_config: scope_config) (node_children: "'m supervision_child list")
  | DynamicNode (node_config: scope_config)
and 'm supervision_child =
    ActorChild "'m actor_node"
  | TaskChild child_definition
  | ScopeChild string "'m scope_node" "restart_policy option" "shutdown option"

fun node_kind :: "'m scope_node \<Rightarrow> scope_kind" where
  "node_kind (OrderedNode _ _) = Ordered"
| "node_kind (DynamicNode _) = Dynamic"

fun declared_children :: "'m scope_node \<Rightarrow> 'm supervision_child list" where
  "declared_children (OrderedNode _ cs) = cs"
| "declared_children (DynamicNode _) = []"

fun map_config :: "(scope_config \<Rightarrow> scope_config) \<Rightarrow> 'm scope_node \<Rightarrow> 'm scope_node" where
  "map_config f (OrderedNode c cs) = OrderedNode (f c) cs"
| "map_config f (DynamicNode c) = DynamicNode (f c)"

fun push_child :: "'m supervision_child \<Rightarrow> 'm scope_node \<Rightarrow> 'm scope_node option" where
  "push_child x (OrderedNode c cs) = Some (OrderedNode c (cs @ [x]))"
| "push_child x (DynamicNode c) = None"

definition unwrap_or :: "'a option \<Rightarrow> 'a \<Rightarrow> 'a" where
  "unwrap_or x y = (case x of Some v \<Rightarrow> v | None \<Rightarrow> y)"

fun declared_id :: "'m supervision_child \<Rightarrow> string option" where
  "declared_id (ActorChild a) = node_label a"
| "declared_id (TaskChild d) = Some (cd_id d)"
| "declared_id (ScopeChild i _ _ _) = Some i"

section \<open>Outlines\<close>

datatype supervision_outline = SupervisionOutline
    (so_kind: scope_kind)
    (so_strategy: strategy)
    (so_default_child_restart: restart_policy)
    (so_default_child_shutdown: shutdown)
    (so_default_actor_mailbox_shutdown: mailbox_shutdown)
    (so_children: "child_outline list")
and child_outline =
    ActorOutline (co_id: string) restart_policy shutdown mailbox_shutdown bool
  | TaskOutline (co_id: string) restart_policy shutdown bool
  | ScopeOutline (co_id: string) restart_policy shutdown supervision_outline

definition child_ids :: "supervision_outline \<Rightarrow> string list" where
  "child_ids o1 = map co_id (so_children o1)"

definition outline_child :: "string \<Rightarrow> supervision_outline \<Rightarrow> child_outline option" where
  "outline_child i o1 = List.find (\<lambda>c. co_id c = i) (so_children o1)"

fun outline :: "'m scope_node \<Rightarrow> supervision_outline"
  and outline_of_child ::
    "restart_policy \<Rightarrow> shutdown \<Rightarrow> mailbox_shutdown \<Rightarrow> 'm supervision_child \<Rightarrow> child_outline" where
  "outline (OrderedNode c cs) =
     SupervisionOutline Ordered (sc_strategy c) (sc_default_child_restart c)
       (sc_default_child_shutdown c) (sc_default_actor_mailbox_shutdown c)
       (map (outline_of_child (sc_default_child_restart c) (sc_default_child_shutdown c)
               (sc_default_actor_mailbox_shutdown c)) cs)"
| "outline (DynamicNode c) =
     SupervisionOutline Dynamic (sc_strategy c) (sc_default_child_restart c)
       (sc_default_child_shutdown c) (sc_default_actor_mailbox_shutdown c) []"
| "outline_of_child r s m (ActorChild a) =
     ActorOutline (the (node_label a)) (unwrap_or (an_restart a) r) (unwrap_or (an_shutdown a) s)
       (unwrap_or (an_mailbox_shutdown a) m) (an_remove_on_terminal_exit a)"
| "outline_of_child r s m (TaskChild d) =
     TaskOutline (cd_id d) (fst (resolved_policies d r s)) (snd (resolved_policies d r s))
       (cd_remove_on_terminal_exit d)"
| "outline_of_child r s m (ScopeChild i n restart sd) =
     ScopeOutline i (unwrap_or restart r) (unwrap_or sd s) (outline n)"

section \<open>Identities in the store\<close>

definition channels_at :: "nat \<Rightarrow> store \<Rightarrow> stable_channels" where
  "channels_at n w = ci_channels (w_identities w ! n)"

definition map_identity :: "nat \<Rightarrow> (identity \<Rightarrow> identity) \<Rightarrow> store \<Rightarrow> store" where
  "map_identity n f w = w\<lparr>w_identities := (w_identities w)[n := f (w_identities w ! n)]\<rparr>"

text \<open>The identities registered below an identity, itself included.\<close>

fun descendants :: "nat \<Rightarrow> store \<Rightarrow> nat \<Rightarrow> nat list" where
  "descendants 0 w n = [n]"
| "descendants (Suc k) w n = n # concat (map (\<lambda>(i, m). descendants k w m) (ci_nested (w_identities w ! n)))"

definition mark_terminal :: "nat \<Rightarrow> store \<Rightarrow> store" where
  "mark_terminal n = map_identity n (\<lambda>x. x\<lparr>ci_channels := terminal (ci_channels x)\<rparr>)"

definition terminate_identity :: "nat \<Rightarrow> store \<Rightarrow> store" where
  "terminate_identity n w = fold mark_terminal (descendants (length (w_identities w)) w n) w"

section \<open>Publishing a declaration\<close>

definition nested_identity :: "child_definition \<Rightarrow> (string \<times> nat) option" where
  "nested_identity d = (case cd_kind d of ChildSupervisor n \<Rightarrow> Some (cd_id d, n) | ChildTask \<Rightarrow> None)"

definition prepared_channels :: "supervisor_config \<Rightarrow> (string \<times> nat) list" where
  "prepared_channels cfg =
     fold (\<lambda>(i, n) m. AList.update i n m) (List.map_filter nested_identity (cfg_children cfg)) []"

definition hand_over :: "nat \<Rightarrow> store \<Rightarrow> store" where
  "hand_over n =
     map_identity n (\<lambda>x. x\<lparr>ci_channels := claim_edge True (ci_channels x), ci_terminalize_on_drop := False\<rparr>)"

definition prepare_nested_channels :: "supervisor_config \<Rightarrow> store \<Rightarrow> (string \<times> nat) list \<times> store" where
  "prepare_nested_channels cfg w =
     (prepared_channels cfg,
      fold (\<lambda>(i, n). hand_over n) (List.map_filter nested_identity (cfg_children cfg)) w)"

definition stable_channels_for_config :: "supervisor_config \<Rightarrow> store \<Rightarrow> nat \<times> store" where
  "stable_channels_for_config cfg w =
     (let (nested, w1) = prepare_nested_channels cfg w;
          c = stable_new (initial_snapshot cfg) (initial_attached_children cfg nested)
      in (length (w_identities w1),
          w1\<lparr>w_identities := w_identities w1 @
                [\<lparr>ci_channels = c, ci_nested = nested, ci_terminalize_on_drop = False\<rparr>]\<rparr>))"

datatype tree_error = TreeBuild build_error | TreePanic

definition refresh_declaration_for_config ::
    "supervisor_config \<Rightarrow> nat \<Rightarrow> (store, tree_error, unit) run" where
  "refresh_declaration_for_config cfg n w =
     (let (nested, w1) = prepare_nested_channels cfg w
      in case reset_declared_view (initial_snapshot cfg) (initial_attached_children cfg nested)
                (channels_at n w1) of
           None \<Rightarrow> (Inl TreePanic, w1)
         | Some c \<Rightarrow> (Inr (), map_identity n (\<lambda>x. x\<lparr>ci_channels := c, ci_nested := nested\<rparr>) w1))"

definition reset_declared_capacities :: "nat \<Rightarrow> (store, tree_error, unit) run" where
  "reset_declared_capacities n w =
     (let c = channels_at n w
      in if st_current c = None \<and> \<not> st_terminal c
         then (Inr (), map_identity n (\<lambda>x. x\<lparr>ci_channels := c\<lparr>st_initial_incarnation := True\<rparr>\<rparr>) w)
         else (Inl TreePanic, w))"

definition reset_channels_for_config ::
    "supervisor_config \<Rightarrow> nat \<Rightarrow> (store, tree_error, unit) run" where
  "reset_channels_for_config cfg n =
     and_then (refresh_declaration_for_config cfg n) (\<lambda>_. reset_declared_capacities n)"

fun set_children :: "child_snapshot list \<Rightarrow> supervisor_snapshot \<Rightarrow> supervisor_snapshot" where
  "set_children cs (SupervisorSnapshot st kind strategy restarts seq _) =
     SupervisorSnapshot st kind strategy restarts seq cs"

definition projected_children :: "(string \<times> restart_policy \<times> bool) list \<Rightarrow> child_snapshot list" where
  "projected_children decl =
     map (\<lambda>(lineage, i, restart, remove).
           ChildSnapshot i lineage 0 (CVStarting None) MVActive 0 restart remove None None)
       (enumerate 0 decl)"

definition project_declared_children ::
    "(string \<times> restart_policy \<times> bool) list \<Rightarrow> nat \<Rightarrow> (store, tree_error, unit) run" where
  "project_declared_children decl n w =
     (let c = channels_at n w
      in if peek_lineage (st_lifecycle c) \<noteq> 0 \<or> \<not> st_snapshot_open c then (Inl TreePanic, w)
         else (Inr (), map_identity n (\<lambda>x. x\<lparr>ci_channels :=
                 c\<lparr>st_snapshot := set_children (projected_children decl) (st_snapshot c)\<rparr>\<rparr>) w))"

section \<open>Builders that own an identity\<close>

type_synonym owned_ordered = "ordered_builder \<times> nat"
type_synonym owned_dynamic = "dynamic_builder \<times> nat"

definition supervisor_ordered :: "store \<Rightarrow> owned_ordered \<times> store" where
  "supervisor_ordered w =
     (let (n, w') = stable_channels_for_config (ordered_config ordered_builder_new) w
      in ((ordered_builder_new, n), w'))"

definition dynamic_builder_new :: dynamic_builder where
  "dynamic_builder_new =
     \<lparr>db_default_child_restart = default_restart_policy, db_default_child_shutdown = default_shutdown\<rparr>"

definition supervisor_dynamic :: "store \<Rightarrow> owned_dynamic \<times> store" where
  "supervisor_dynamic w =
     (let (n, w') = stable_channels_for_config (dynamic_config dynamic_builder_new) w
      in ((dynamic_builder_new, n), w'))"

definition refresh_declaration :: "owned_ordered \<Rightarrow> (store, tree_error, owned_ordered) run" where
  "refresh_declaration bn =
     and_then (refresh_declaration_for_config (ordered_config (fst bn)) (snd bn)) (\<lambda>_. return_ok bn)"

definition builder_strategy :: "strategy \<Rightarrow> owned_ordered \<Rightarrow> (store, tree_error, owned_ordered) run" where
  "builder_strategy s bn = refresh_declaration ((fst bn)\<lparr>ob_strategy := s\<rparr>, snd bn)"

definition builder_defaults :: "restart_policy \<Rightarrow> shutdown \<Rightarrow> owned_ordered \<Rightarrow> owned_ordered" where
  "builder_defaults r s bn =
     ((fst bn)\<lparr>ob_default_child_restart := r, ob_default_child_shutdown := s\<rparr>, snd bn)"

definition builder_child_spec ::
    "child_definition \<Rightarrow> owned_ordered \<Rightarrow> (store, tree_error, owned_ordered) run" where
  "builder_child_spec d bn = refresh_declaration (child_spec d (fst bn), snd bn)"

definition supervisor_with_channels :: "nat \<Rightarrow> store \<Rightarrow> store" where
  "supervisor_with_channels n = map_identity n (\<lambda>x. x\<lparr>ci_terminalize_on_drop := True\<rparr>)"

definition owned_build ::
    "build_error + supervisor_config \<Rightarrow> nat \<Rightarrow> (store, tree_error, supervisor_config) run" where
  "owned_build built n w =
     (case built of
        Inl e \<Rightarrow> (Inl (TreeBuild e), terminate_identity n w)
      | Inr cfg \<Rightarrow>
          (case reset_channels_for_config cfg n w of
             (Inl e, w') \<Rightarrow> (Inl e, w')
           | (Inr _, w') \<Rightarrow> (Inr cfg, supervisor_with_channels n w')))"

section \<open>Reservations\<close>

datatype reserved_builder = ReservedOrdered "owned_ordered option" | ReservedDynamic "owned_dynamic option"

record scope_reservation =
  sr_id :: u64
  sr_builder :: reserved_builder
  sr_actors :: nat

record 'm identity_tree =
  it_node :: "'m scope_node"
  it_reservations :: "scope_reservation list"

fun reserved_channels :: "reserved_builder \<Rightarrow> nat option" where
  "reserved_channels (ReservedOrdered b) = map_option snd b"
| "reserved_channels (ReservedDynamic b) = map_option snd b"

definition runtime_config :: "scope_config \<Rightarrow> actor_runtime_config" where
  "runtime_config c =
     \<lparr>ax_mailbox_capacity = sc_default_actor_mailbox_capacity c,
      ax_default_child_restart = sc_default_child_restart c,
      ax_default_child_shutdown = sc_default_child_shutdown c,
      ax_default_actor_mailbox_shutdown = sc_default_actor_mailbox_shutdown c\<rparr>"

fun projection :: "scope_config \<Rightarrow> 'm supervision_child \<Rightarrow> string \<times> restart_policy \<times> bool" where
  "projection c (ActorChild a) =
     (the (node_label a), unwrap_or (an_restart a) (sc_default_child_restart c), an_remove_on_terminal_exit a)"
| "projection c (TaskChild d) =
     (cd_id d, fst (resolved_policies d (sc_default_child_restart c) (sc_default_child_shutdown c)),
      cd_remove_on_terminal_exit d)"
| "projection c (ScopeChild i n restart sd) = (i, unwrap_or restart (sc_default_child_restart c), False)"

definition root_position :: "'m identity_tree \<Rightarrow> nat option" where
  "root_position t =
     Option.bind (sc_reservation (node_config (it_node t)))
       (\<lambda>i. position (\<lambda>r. sr_id r = i) (it_reservations t))"

definition set_builder :: "nat \<Rightarrow> owned_ordered \<Rightarrow> 'm identity_tree \<Rightarrow> 'm identity_tree" where
  "set_builder k b t =
     t\<lparr>it_reservations := (it_reservations t)
         [k := (it_reservations t ! k)\<lparr>sr_builder := ReservedOrdered (Some b)\<rparr>]\<rparr>"

definition refresh_root :: "'m identity_tree \<Rightarrow> (store, tree_error, 'm identity_tree) run" where
  "refresh_root t w =
     (case root_position t of
        None \<Rightarrow> (Inl TreePanic, w)
      | Some k \<Rightarrow>
          (let c = node_config (it_node t); r = it_reservations t ! k;
               w1 = state_configure (sr_actors r) (runtime_config c) w
           in case sr_builder r of
                ReservedDynamic _ \<Rightarrow> (Inr t, w1)
              | ReservedOrdered None \<Rightarrow> (Inl TreePanic, w1)
              | ReservedOrdered (Some b) \<Rightarrow>
                  and_then (builder_strategy (sc_strategy c) b)
                    (\<lambda>b'. and_then
                       (project_declared_children (map (projection c) (declared_children (it_node t))) (snd b'))
                       (\<lambda>_. return_ok (set_builder k b' t))) w1))"

definition identity_tree_new :: "'m scope_node \<Rightarrow> (store, tree_error, 'm identity_tree) run" where
  "identity_tree_new node w =
     (let i = w_next_reservation w;
          w1 = w\<lparr>w_next_reservation := Suc i mod 2 ^ 64\<rparr>;
          node' = map_config (\<lambda>c. c\<lparr>sc_reservation := Some i\<rparr>) node;
          (actors, w2) = state_alloc (runtime_config (node_config node')) w1;
          (builder, w3) = (case node' of
              OrderedNode _ _ \<Rightarrow> (let (b, w3) = supervisor_ordered w2 in (ReservedOrdered (Some b), w3))
            | DynamicNode _ \<Rightarrow> (let (b, w3) = supervisor_dynamic w2 in (ReservedDynamic (Some b), w3)))
      in refresh_root \<lparr>it_node = node',
           it_reservations = [\<lparr>sr_id = i, sr_builder = builder, sr_actors = actors\<rparr>]\<rparr> w3)"

definition tree_new :: "(store, tree_error, 'm identity_tree) run" where
  "tree_new = identity_tree_new (OrderedNode scope_config_new [])"

definition dynamic_tree_new :: "(store, tree_error, 'm identity_tree) run" where
  "dynamic_tree_new = identity_tree_new (DynamicNode scope_config_new)"

definition map_tree ::
    "('m scope_node \<Rightarrow> 'm scope_node) \<Rightarrow> 'm identity_tree \<Rightarrow> (store, tree_error, 'm identity_tree) run" where
  "map_tree f t = refresh_root (t\<lparr>it_node := f (it_node t)\<rparr>)"

text \<open>The configuration methods shared by the two kinds of tree, and the strategy of ordered ones.\<close>

datatype config_op =
    SetStrategy strategy
  | SetChildRestart restart_policy
  | SetChildShutdown shutdown
  | SetMailboxShutdown mailbox_shutdown
  | SetMailboxCapacity usize

fun config_update :: "config_op \<Rightarrow> scope_config \<Rightarrow> scope_config" where
  "config_update (SetStrategy s) c = c\<lparr>sc_strategy := s\<rparr>"
| "config_update (SetChildRestart r) c = c\<lparr>sc_default_child_restart := r\<rparr>"
| "config_update (SetChildShutdown s) c = c\<lparr>sc_default_child_shutdown := s\<rparr>"
| "config_update (SetMailboxShutdown m) c = c\<lparr>sc_default_actor_mailbox_shutdown := m\<rparr>"
| "config_update (SetMailboxCapacity n) c = c\<lparr>sc_default_actor_mailbox_capacity := n\<rparr>"

definition configure_tree ::
    "config_op \<Rightarrow> 'm identity_tree \<Rightarrow> (store, tree_error, 'm identity_tree) run" where
  "configure_tree op = map_tree (map_config (config_update op))"

definition add_child_to ::
    "'m supervision_child \<Rightarrow> 'm identity_tree \<Rightarrow> (store, tree_error, 'm identity_tree) run" where
  "add_child_to x t w =
     (case push_child x (it_node t) of
        None \<Rightarrow> (Inl TreePanic, w)
      | Some node \<Rightarrow> refresh_root (t\<lparr>it_node := node\<rparr>) w)"

definition add_actor_spec ::
    "'m actor_spec \<Rightarrow> 'm identity_tree \<Rightarrow> (store, tree_error, nat \<times> 'm identity_tree) run" where
  "add_actor_spec a t w =
     (let (b, a', w1) = actor_spec_ref a w
      in and_then (add_child_to (ActorChild (into_deferred_node a')) t) (\<lambda>t'. return_ok (b, t')) w1)"

definition tree_scope :: "'m identity_tree \<Rightarrow> nat option" where
  "tree_scope t =
     Option.bind (root_position t) (\<lambda>k. reserved_channels (sr_builder (it_reservations t ! k)))"

text \<open>Adding a task gives a reference to the membership the declaration projects last.\<close>

definition add_task_spec ::
    "child_definition \<Rightarrow> 'm identity_tree \<Rightarrow> (store, tree_error, u64 \<times> 'm identity_tree) run" where
  "add_task_spec d t =
     and_then (add_child_to (TaskChild d) t)
       (\<lambda>t' w. case tree_scope t' of
          None \<Rightarrow> (Inl TreePanic, w)
        | Some n \<Rightarrow>
            (case ss_children (st_snapshot (channels_at n w)) of
               [] \<Rightarrow> (Inl TreePanic, w)
             | cs \<Rightarrow> (Inr (cs_lineage (last cs), t'), w)))"

definition add_subtree_spec ::
    "string \<Rightarrow> 'm identity_tree \<Rightarrow> restart_policy option \<Rightarrow> shutdown option \<Rightarrow> 'm identity_tree \<Rightarrow>
     (store, tree_error, 'm identity_tree) run" where
  "add_subtree_spec i sub restart sd t =
     add_child_to (ScopeChild i (it_node sub) restart sd)
       (t\<lparr>it_reservations := it_reservations t @ it_reservations sub\<rparr>)"

section \<open>Lowering\<close>

text \<open>
  A lowered scope: its configuration, its identity, its actor runtime state, and what each
  child's definition carries.
\<close>

datatype lowered = Lowered
    (lo_config: supervisor_config)
    (lo_channels: nat)
    (lo_actors: nat)
    (lo_payloads: "payload list")
and payload =
    PayloadActor runnable_actor actor_child_options
  | PayloadTask
  | PayloadScope lowered

type_synonym lowering = "store \<times> scope_reservation list"

definition in_store :: "(store, tree_error, 'a) run \<Rightarrow> (lowering, tree_error, 'a) run" where
  "in_store m s = (let (r, w) = m (fst s) in (r, (w, snd s)))"

definition take_reservation :: "scope_config \<Rightarrow> lowering \<Rightarrow> scope_reservation option \<times> lowering" where
  "take_reservation c s =
     (case Option.bind (sc_reservation c) (\<lambda>i. position (\<lambda>r. sr_id r = i) (snd s)) of
        None \<Rightarrow> (None, s)
      | Some k \<Rightarrow> (Some (snd s ! k), (fst s, swap_remove k (snd s))))"

definition scope_state :: "scope_config \<Rightarrow> scope_reservation option \<Rightarrow> lowering \<Rightarrow> nat \<times> lowering" where
  "scope_state c r s =
     (let (n, w) = (case r of Some r \<Rightarrow> (sr_actors r, fst s) | None \<Rightarrow> state_alloc (runtime_config c) (fst s))
      in (n, (state_configure n (runtime_config c) w, snd s)))"

definition owned_dynamic_for ::
    "scope_reservation option \<Rightarrow> lowering \<Rightarrow> owned_dynamic option \<times> lowering" where
  "owned_dynamic_for r s =
     (case map_option sr_builder r of
        Some (ReservedDynamic b) \<Rightarrow> (b, s)
      | Some (ReservedOrdered _) \<Rightarrow> (None, s)
      | None \<Rightarrow> (let (b, w) = supervisor_dynamic (fst s) in (Some b, (w, snd s))))"

definition owned_ordered_for ::
    "scope_reservation option \<Rightarrow> lowering \<Rightarrow> owned_ordered option \<times> lowering" where
  "owned_ordered_for r s =
     (case map_option sr_builder r of
        Some (ReservedOrdered b) \<Rightarrow> (b, s)
      | Some (ReservedDynamic _) \<Rightarrow> (None, s)
      | None \<Rightarrow> (let (b, w) = supervisor_ordered (fst s) in (Some b, (w, snd s))))"

definition drop_builder :: "nat \<Rightarrow> lowering \<Rightarrow> lowering" where
  "drop_builder n s = (terminate_identity n (fst s), snd s)"

definition zero_capacity_error :: build_error where
  "zero_capacity_error = InvalidConfig ''actor mailbox capacity must be non-zero''"

definition lower_dynamic :: "scope_config \<Rightarrow> (lowering, tree_error, lowered) run" where
  "lower_dynamic c s =
     (if sc_default_actor_mailbox_capacity c = 0 then (Inl (TreeBuild zero_capacity_error), s)
      else
        (let (r, s1) = take_reservation c s; (actors, s2) = scope_state c r s1
         in case owned_dynamic_for r s2 of
              (None, s3) \<Rightarrow> (Inl TreePanic, s3)
            | (Some (b, n), s3) \<Rightarrow>
                and_then
                  (in_store (owned_build
                     (build_dynamic (b\<lparr>db_default_child_restart := sc_default_child_restart c,
                                       db_default_child_shutdown := sc_default_child_shutdown c\<rparr>)) n))
                  (\<lambda>cfg. return_ok (Lowered cfg n actors [])) s3))"

definition lower_actor ::
    "scope_config \<Rightarrow> nat \<Rightarrow> 'm actor_node \<Rightarrow> owned_ordered \<Rightarrow>
     (lowering, tree_error, owned_ordered \<times> payload) run" where
  "lower_actor c actors a bn s =
     (case node_validate a of
        None \<Rightarrow> (Inl TreePanic, s)
      | Some (Inl e) \<Rightarrow> (Inl (TreeBuild (InvalidConfig (options_error_message e))), drop_builder (snd bn) s)
      | Some (Inr _) \<Rightarrow>
          (let (a', w1) = materialize_actor_node actors a (fst s);
               opts = \<lparr>co_restart = unwrap_or (an_restart a') (sc_default_child_restart c),
                       co_shutdown = unwrap_or (an_shutdown a') (sc_default_child_shutdown c),
                       co_mailbox_shutdown =
                         unwrap_or (an_mailbox_shutdown a') (sc_default_actor_mailbox_shutdown c),
                       co_remove_on_terminal_exit = an_remove_on_terminal_exit a'\<rparr>
           in case an_actor a' of
                None \<Rightarrow> (Inl TreePanic, (w1, snd s))
              | Some runnable \<Rightarrow>
                  (let (d, w2) = actor_child_spec runnable actors opts w1
                   in and_then (in_store (builder_child_spec d bn))
                        (\<lambda>bn'. return_ok (bn', PayloadActor runnable opts)) (w2, snd s))))"

definition lower_task ::
    "child_definition \<Rightarrow> owned_ordered \<Rightarrow> (lowering, tree_error, owned_ordered \<times> payload) run" where
  "lower_task d bn =
     and_then (in_store (builder_child_spec d bn)) (\<lambda>bn'. return_ok (bn', PayloadTask))"

definition scope_definition ::
    "string \<Rightarrow> nat \<Rightarrow> restart_policy option \<Rightarrow> shutdown option \<Rightarrow> child_definition" where
  "scope_definition i n restart sd =
     (let d = supervisor_spec i n;
          d1 = (case restart of Some r \<Rightarrow> spec_restart r d | None \<Rightarrow> d)
      in case sd of Some p \<Rightarrow> spec_shutdown p d1 | None \<Rightarrow> d1)"

definition attach_scope ::
    "string \<Rightarrow> restart_policy option \<Rightarrow> shutdown option \<Rightarrow> nat \<Rightarrow> lowered \<Rightarrow> owned_ordered \<Rightarrow>
     (lowering, tree_error, owned_ordered \<times> payload) run" where
  "attach_scope i restart sd actors low bn s =
     (let (d, w) = attach (attachment_subtree actors (lo_actors low))
                     (scope_definition i (lo_channels low) restart sd) (fst s)
      in and_then (in_store (builder_child_spec d bn)) (\<lambda>bn'. return_ok (bn', PayloadScope low)) (w, snd s))"

definition finish_ordered ::
    "nat \<Rightarrow> owned_ordered \<times> payload list \<Rightarrow> (lowering, tree_error, lowered) run" where
  "finish_ordered actors bp =
     and_then (in_store (owned_build (build_ordered (fst (fst bp))) (snd (fst bp))))
       (\<lambda>cfg. return_ok (Lowered cfg (snd (fst bp)) actors (snd bp)))"

fun lower :: "'m scope_node \<Rightarrow> (lowering, tree_error, lowered) run"
  and lower_child ::
    "scope_config \<Rightarrow> nat \<Rightarrow> 'm supervision_child \<Rightarrow> owned_ordered \<Rightarrow>
     (lowering, tree_error, owned_ordered \<times> payload) run"
  and lower_children ::
    "scope_config \<Rightarrow> nat \<Rightarrow> 'm supervision_child list \<Rightarrow> owned_ordered \<times> payload list \<Rightarrow>
     (lowering, tree_error, owned_ordered \<times> payload list) run" where
  "lower (DynamicNode c) s = lower_dynamic c s"
| "lower (OrderedNode c cs) s =
     (if sc_default_actor_mailbox_capacity c = 0 then (Inl (TreeBuild zero_capacity_error), s)
      else
        (let (r, s1) = take_reservation c s; (actors, s2) = scope_state c r s1
         in case owned_ordered_for r s2 of
              (None, s3) \<Rightarrow> (Inl TreePanic, s3)
            | (Some bn, s3) \<Rightarrow>
                (case in_store (builder_strategy (sc_strategy c) bn) s3 of
                   (Inl e, s4) \<Rightarrow> (Inl e, s4)
                 | (Inr bn', s4) \<Rightarrow>
                     (case lower_children c actors cs
                             (builder_defaults (sc_default_child_restart c)
                                (sc_default_child_shutdown c) bn', []) s4 of
                        (Inl e, s5) \<Rightarrow> (Inl e, s5)
                      | (Inr bp, s5) \<Rightarrow> finish_ordered actors bp s5))))"
| "lower_child c actors (ActorChild a) bn s = lower_actor c actors a bn s"
| "lower_child c actors (TaskChild d) bn s = lower_task d bn s"
| "lower_child c actors (ScopeChild i n restart sd) bn s =
     (case lower n s of
        (Inl e, s1) \<Rightarrow> (Inl e, drop_builder (snd bn) s1)
      | (Inr low, s1) \<Rightarrow> attach_scope i restart sd actors low bn s1)"
| "lower_children c actors [] bp s = (Inr bp, s)"
| "lower_children c actors (x # xs) bp s =
     (case lower_child c actors x (fst bp) s of
        (Inl e, s1) \<Rightarrow> (Inl e, s1)
      | (Inr (bn', p), s1) \<Rightarrow> lower_children c actors xs (bn', snd bp @ [p]) s1)"

text \<open>
  Consuming a tree.  The reservations that are left are dropped with it, which terminates the
  identities their builders still own; after a success none may be left.
\<close>

definition drop_reservations :: "scope_reservation list \<Rightarrow> store \<Rightarrow> store" where
  "drop_reservations rs w =
     fold terminate_identity (List.map_filter (\<lambda>r. reserved_channels (sr_builder r)) rs) w"

definition tree_drop :: "'m identity_tree \<Rightarrow> store \<Rightarrow> store" where
  "tree_drop t = drop_reservations (it_reservations t)"

definition into_parts :: "'m identity_tree \<Rightarrow> (store, tree_error, lowered) run" where
  "into_parts t w =
     (case lower (it_node t) (w, it_reservations t) of
        (Inl e, (w', rs)) \<Rightarrow> (Inl e, drop_reservations rs w')
      | (Inr low, (w', rs)) \<Rightarrow>
          if rs = [] then (Inr low, w') else (Inl TreePanic, drop_reservations rs w'))"

section \<open>Spawning\<close>

text \<open>The identities registered below an identity as the tree that the runtime holds.\<close>

fun stable_tree_at :: "nat \<Rightarrow> store \<Rightarrow> nat \<Rightarrow> stable_tree" where
  "stable_tree_at 0 w n = StableTree (channels_at n w) []"
| "stable_tree_at (Suc k) w n =
     StableTree (channels_at n w)
       (map (\<lambda>(i, m). (i, stable_tree_at k w m)) (ci_nested (w_identities w ! n)))"

definition hide_view :: "nat \<Rightarrow> store \<Rightarrow> store" where
  "hide_view n = map_identity n (\<lambda>x. x\<lparr>ci_channels := invalidate_attachment_view (ci_channels x)\<rparr>)"

text \<open>
  Spawning the root: its identity becomes the root's, and the attachment views of the identities
  below are invalidated until their own incarnations bind.  The panics of the start are those of
  \<^const>\<open>spawn_root\<close>.
\<close>

definition supervisor_spawn ::
    "runtime_env \<Rightarrow> nat \<Rightarrow> instant \<Rightarrow> lowered \<Rightarrow> (store, tree_error, runtime) run" where
  "supervisor_spawn E done_rx now l w =
     (let n = lo_channels l; x = w_identities w ! n
      in case spawn_root E (lo_config l) (ci_channels x) done_rx (ci_nested x)
                (stable_tree_at (length (w_identities w)) w) now of
           None \<Rightarrow> (Inl TreePanic, w)
         | Some s \<Rightarrow>
             (Inr s, map_identity n (\<lambda>x. x\<lparr>ci_channels := rt_own s\<rparr>)
                (fold hide_view
                   (List.map_filter at_supervisor (initial_attached_children (lo_config l) (ci_nested x))) w)))"

definition tree_spawn ::
    "runtime_env \<Rightarrow> nat \<Rightarrow> instant \<Rightarrow> 'm identity_tree \<Rightarrow> (store, tree_error, runtime) run" where
  "tree_spawn E done_rx now t = and_then (into_parts t) (supervisor_spawn E done_rx now)"

end
