(* ===== verification/Tree_Frames.thy ===== *)
theory Tree_Frames
  imports Tree_Model
begin

text \<open>
  What the builder operations of a tree keep: the identities stay ready to be bound, and only
  the named identities and actor runtime states change.
\<close>

section \<open>Identities that can still be configured\<close>

definition dormant :: "stable_channels \<Rightarrow> bool" where
  "dormant c \<longleftrightarrow> st_current c = None \<and> \<not> st_terminal c \<and> st_snapshot_open c
     \<and> peek_lineage (st_lifecycle c) = 0 \<and> st_initial_incarnation c \<and> st_root_extra c = NotRoot"

definition live :: "store \<Rightarrow> nat \<Rightarrow> bool" where
  "live w n \<longleftrightarrow> n < length (w_identities w) \<and> dormant (channels_at n w)"

definition links :: "store \<Rightarrow> nat \<Rightarrow> nat list" where
  "links w n = map snd (ci_nested (w_identities w ! n))"

definition keeps :: "nat set \<Rightarrow> nat set \<Rightarrow> store \<Rightarrow> store \<Rightarrow> bool" where
  "keeps N A w w' \<longleftrightarrow>
     length (w_identities w') = length (w_identities w) \<and> length (w_states w') = length (w_states w)
     \<and> (\<forall>m. live w m \<longrightarrow> live w' m) \<and> (\<forall>m. m \<notin> N \<longrightarrow> links w' m = links w m)
     \<and> (\<forall>a. a \<notin> A \<longrightarrow> w_states w' ! a = w_states w ! a)"

lemma keeps_refl [simp]: "keeps N A w w"
  by (simp add: keeps_def)

lemma keeps_trans: "keeps N A w w1 \<Longrightarrow> keeps M B w1 w2 \<Longrightarrow> keeps (N \<union> M) (A \<union> B) w w2"
  by (simp add: keeps_def)

lemma keeps_chain: "keeps N A w w1 \<Longrightarrow> keeps N A w1 w2 \<Longrightarrow> keeps N A w w2"
  using keeps_trans [of N A w w1 N A w2] by simp

lemma keeps_mono: "keeps N A w w' \<Longrightarrow> N \<subseteq> M \<Longrightarrow> A \<subseteq> B \<Longrightarrow> keeps M B w w'"
  by (auto simp: keeps_def)

lemma keeps_live: "keeps N A w w' \<Longrightarrow> live w m \<Longrightarrow> live w' m"
  by (simp add: keeps_def)

lemma keeps_links: "keeps N A w w' \<Longrightarrow> m \<notin> N \<Longrightarrow> links w' m = links w m"
  by (simp add: keeps_def)

lemma keeps_states: "keeps N A w w' \<Longrightarrow> a \<notin> A \<Longrightarrow> w_states w' ! a = w_states w ! a"
  by (simp add: keeps_def)

lemma keeps_length:
  "keeps N A w w' \<Longrightarrow> length (w_identities w') = length (w_identities w)"
  "keeps N A w w' \<Longrightarrow> length (w_states w') = length (w_states w)"
  by (simp_all add: keeps_def)

section \<open>Store operations\<close>

lemma map_identity_simps [simp]:
  "length (w_identities (map_identity n f w)) = length (w_identities w)"
  "w_states (map_identity n f w) = w_states w"
  "w_identities (map_identity n f w) ! m =
     (if m = n \<and> n < length (w_identities w) then f (w_identities w ! n) else w_identities w ! m)"
  by (auto simp: map_identity_def nth_list_update list_update_beyond)

lemma keeps_map_identity:
  assumes "\<And>x. x = w_identities w ! n \<Longrightarrow> dormant (ci_channels x) \<Longrightarrow> dormant (ci_channels (f x))"
    and "n \<in> N \<or> (\<forall>x. ci_nested (f x) = ci_nested x)"
  shows "keeps N A w (map_identity n f w)"
  using assms by (auto simp: keeps_def live_def channels_at_def links_def)

lemma dormant_claim [simp]: "dormant (claim_edge b c) = dormant c"
  by (simp add: dormant_def claim_edge_def)

lemma keeps_hand_over: "keeps N A w (hand_over n w)"
  unfolding hand_over_def by (rule keeps_map_identity) auto

lemma keeps_hand_overs: "keeps N A w (fold (\<lambda>(i, n). hand_over n) ns w)"
proof (induction ns arbitrary: w)
  case (Cons x ns)
  with keeps_chain [OF keeps_hand_over Cons.IH] show ?case by (cases x) simp
qed simp

lemma keeps_prepare:
  "fst (prepare_nested_channels cfg w) = prepared_channels cfg"
  "keeps N A w (snd (prepare_nested_channels cfg w))"
  by (simp_all add: prepare_nested_channels_def keeps_hand_overs)

lemma refresh_declared:
  assumes "live w n"
  shows "\<exists>w'. refresh_declaration_for_config cfg n w = (Inr (), w')
    \<and> keeps {n} {} w w' \<and> links w' n = map snd (prepared_channels cfg)"
proof -
  obtain w1 where w1: "prepare_nested_channels cfg w = (prepared_channels cfg, w1)"
    using keeps_prepare(1) [of cfg w] by (cases "prepare_nested_channels cfg w") simp
  with keeps_prepare(2) [of "{n}" "{}" w cfg] have k: "keeps {n} {} w w1" by simp
  then have n: "live w1 n" using assms by (rule keeps_live)
  let ?c = "(channels_at n w1)\<lparr>st_snapshot := initial_snapshot cfg,
      st_attached := \<lparr>av_generation = Some 0, av_binding_epoch = 0, av_terminal = False,
        av_children = initial_attached_children cfg (prepared_channels cfg)\<rparr>\<rparr>"
  let ?w = "map_identity n (\<lambda>x. x\<lparr>ci_channels := ?c, ci_nested := prepared_channels cfg\<rparr>) w1"
  have "reset_declared_view (initial_snapshot cfg) (initial_attached_children cfg (prepared_channels cfg))
      (channels_at n w1) = Some ?c"
    using n by (simp add: reset_declared_view_def live_def dormant_def)
  then have "refresh_declaration_for_config cfg n w = (Inr (), ?w)"
    by (simp add: refresh_declaration_for_config_def w1)
  moreover have "keeps {n} {} w1 ?w"
    by (rule keeps_map_identity) (auto simp: dormant_def channels_at_def)
  then have "keeps {n} {} w ?w" by (rule keeps_chain [OF k])
  moreover have "links ?w n = map snd (prepared_channels cfg)"
    using n by (simp add: links_def live_def)
  ultimately show ?thesis by blast
qed

lemma reset_capacities:
  assumes "live w n"
  shows "\<exists>w'. reset_declared_capacities n w = (Inr (), w') \<and> keeps {} {} w w' \<and> links w' = links w"
proof -
  let ?w = "map_identity n (\<lambda>x. x\<lparr>ci_channels := (channels_at n w)\<lparr>st_initial_incarnation := True\<rparr>\<rparr>) w"
  have "reset_declared_capacities n w = (Inr (), ?w)"
    using assms by (simp add: reset_declared_capacities_def live_def dormant_def)
  moreover have "keeps {} {} w ?w" by (rule keeps_map_identity) (auto simp: dormant_def channels_at_def)
  ultimately show ?thesis by (auto simp: keeps_def)
qed

lemma refresh_builder:
  assumes "live w n"
  shows "\<exists>w'. refresh_declaration (b, n) w = (Inr (b, n), w') \<and> keeps {n} {} w w'
    \<and> links w' n = map snd (prepared_channels (ordered_config b))"
  using refresh_declared [OF assms, of "ordered_config b"]
  by (auto simp: refresh_declaration_def and_then_def return_ok_def)

lemma with_channels_keeps: "keeps {} {} w (supervisor_with_channels n w)"
  unfolding supervisor_with_channels_def by (rule keeps_map_identity) auto

text \<open>Building: a valid configuration is published, an invalid one terminates the identity.\<close>

lemma build_published:
  assumes "live w n" "built = Inr cfg"
  shows "\<exists>w'. owned_build built n w = (Inr cfg, w') \<and> keeps {n} {} w w'
    \<and> links w' n = map snd (prepared_channels cfg)"
proof -
  obtain w1 where w1: "refresh_declaration_for_config cfg n w = (Inr (), w1)" "keeps {n} {} w w1"
    "links w1 n = map snd (prepared_channels cfg)"
    using refresh_declared [OF assms(1)] by blast
  obtain w2 where w2: "reset_declared_capacities n w1 = (Inr (), w2)" "keeps {} {} w1 w2" "links w2 = links w1"
    using reset_capacities [OF keeps_live [OF w1(2) assms(1)]] by blast
  have "keeps {n} {} w (supervisor_with_channels n w2)"
    using keeps_trans [OF keeps_trans [OF w1(2) w2(2)] with_channels_keeps [of w2 n]] by simp
  moreover have "links (supervisor_with_channels n w2) n = map snd (prepared_channels cfg)"
    using keeps_links [OF with_channels_keeps [of w2 n], of n] w1(3) w2(3) by simp
  ultimately show ?thesis
    using w1(1) w2(1) assms(2) by (simp add: owned_build_def reset_channels_for_config_def and_then_def)
qed

lemma prepared_children: "cfg_children cfg = cfg_children cfg' \<Longrightarrow> prepared_channels cfg = prepared_channels cfg'"
  by (simp add: prepared_channels_def)

lemma update_fresh: "i \<notin> fst ` set m \<Longrightarrow> AList.update i n m = m @ [(i, n)]"
  by (induction m) auto

lemma update_all_fresh:
  "distinct (map fst xs) \<Longrightarrow> fst ` set m \<inter> fst ` set xs = {}
    \<Longrightarrow> fold (\<lambda>(i, n) m. AList.update i n m) xs m = m @ xs"
  by (induction xs arbitrary: m) (auto simp: update_fresh)

text \<open>With distinct ids every nested supervisor stays registered.\<close>

lemma prepared_distinct:
  "distinct (map fst (List.map_filter nested_identity (cfg_children cfg)))
    \<Longrightarrow> prepared_channels cfg = List.map_filter nested_identity (cfg_children cfg)"
  by (simp add: prepared_channels_def update_all_fresh)

section \<open>Terminating identities\<close>

lemma mark_terminal_shape [simp]:
  "length (w_identities (mark_terminal n w)) = length (w_identities w)"
  "ci_nested (w_identities (mark_terminal n w) ! m) = ci_nested (w_identities w ! m)"
  by (simp_all add: mark_terminal_def)

definition ended :: "store \<Rightarrow> nat \<Rightarrow> bool" where
  "ended w n \<longleftrightarrow> st_terminal (channels_at n w)"

lemma ended_mark: "ended (mark_terminal n w) m \<longleftrightarrow> ended w m \<or> (m = n \<and> n < length (w_identities w))"
  by (auto simp: ended_def channels_at_def mark_terminal_def)

lemma ended_marks:
  "ended (fold mark_terminal ns w) m \<longleftrightarrow> ended w m \<or> (m \<in> set ns \<and> m < length (w_identities w))"
  by (induction ns arbitrary: w) (auto simp: ended_mark)

lemma marks_shape [simp]:
  "length (w_identities (fold mark_terminal ns w)) = length (w_identities w)"
  by (induction ns arbitrary: w) simp_all

lemma terminate_identity_shape [simp]:
  "length (w_identities (terminate_identity n w)) = length (w_identities w)"
  by (simp add: terminate_identity_def)

lemma descendants_self: "n \<in> set (descendants k w n)"
  by (cases k) simp_all

lemma ended_terminate_identity:
  "ended (terminate_identity n w) m \<longleftrightarrow>
     ended w m \<or> (m \<in> set (descendants (length (w_identities w)) w n) \<and> m < length (w_identities w))"
  by (simp add: terminate_identity_def ended_marks)

lemma ended_stays: "ended w m \<Longrightarrow> ended (terminate_identity n w) m"
  by (simp add: ended_terminate_identity)

lemma ended_self: "n < length (w_identities w) \<Longrightarrow> ended (terminate_identity n w) n"
  by (simp add: ended_terminate_identity descendants_self)

lemma ended_all:
  "ended w m \<or> (m \<in> set ns \<and> m < length (w_identities w)) \<Longrightarrow> ended (fold terminate_identity ns w) m"
  by (induction ns arbitrary: w) (auto intro: ended_stays ended_self)

end
