(* ===== verification/Tree_Lowering.thy ===== *)
theory Tree_Lowering
  imports Tree_Frames
begin

text \<open>
  Lowering a declared tree: which declarations it accepts, what it makes of the reserved
  identities, and that the supervisors it builds are those the outline describes.
\<close>

section \<open>The scopes of a declaration and their reservations\<close>

fun scopes :: "'m scope_node \<Rightarrow> (u64 option \<times> scope_kind) list"
  and child_scopes :: "'m supervision_child \<Rightarrow> (u64 option \<times> scope_kind) list" where
  "scopes (OrderedNode c cs) = (sc_reservation c, Ordered) # concat (map child_scopes cs)"
| "scopes (DynamicNode c) = [(sc_reservation c, Dynamic)]"
| "child_scopes (ScopeChild i n restart sd) = scopes n"
| "child_scopes (ActorChild a) = []"
| "child_scopes (TaskChild d) = []"

definition chan :: "scope_reservation \<Rightarrow> nat" where
  "chan r = the (reserved_channels (sr_builder r))"

fun fits :: "scope_kind \<Rightarrow> scope_reservation \<Rightarrow> bool" where
  "fits Ordered r = (\<exists>b n. sr_builder r = ReservedOrdered (Some (b, n)) \<and> ob_children b = [])"
| "fits Dynamic r = (\<exists>b n. sr_builder r = ReservedDynamic (Some (b, n)))"

definition reserved :: "store \<Rightarrow> scope_reservation list \<Rightarrow> bool" where
  "reserved w rs \<longleftrightarrow> distinct rs \<and> inj_on sr_id (set rs) \<and> inj_on chan (set rs) \<and> inj_on sr_actors (set rs)
     \<and> (\<forall>r \<in> set rs. live w (chan r) \<and> sr_actors r < length (w_states w))"

definition covers :: "scope_reservation list \<Rightarrow> (u64 option \<times> scope_kind) list \<Rightarrow> bool" where
  "covers rs S \<longleftrightarrow> distinct (map fst S) \<and> (\<forall>(i, k) \<in> set S. \<exists>r \<in> set rs. i = Some (sr_id r) \<and> fits k r)"

definition used :: "scope_reservation list \<Rightarrow> (u64 option \<times> scope_kind) list \<Rightarrow> scope_reservation set" where
  "used rs S = {r \<in> set rs. Some (sr_id r) \<in> fst ` set S}"

definition consumes ::
    "store \<Rightarrow> scope_reservation list \<Rightarrow> (u64 option \<times> scope_kind) list \<Rightarrow> store \<Rightarrow>
     scope_reservation list \<Rightarrow> bool" where
  "consumes w rs S w' rs' \<longleftrightarrow> distinct rs' \<and> set rs' = set rs - used rs S
     \<and> keeps (chan ` used rs S) (sr_actors ` used rs S) w w'"

lemma used_simps [simp]: "used rs [] = {}"
  by (simp add: used_def)

lemma consumes_Nil: "keeps {} {} w w' \<Longrightarrow> distinct rs \<Longrightarrow> consumes w rs [] w' rs"
  by (simp add: consumes_def)

lemma consumes_reserved:
  assumes "consumes w rs S w' rs'" "reserved w rs"
  shows "reserved w' rs'"
proof -
  have sub: "set rs' \<subseteq> set rs" and k: "keeps (chan ` used rs S) (sr_actors ` used rs S) w w'" and "distinct rs'"
    using assms(1) by (auto simp: consumes_def)
  moreover have "inj_on sr_id (set rs')" "inj_on chan (set rs')" "inj_on sr_actors (set rs')"
    using assms(2) by (simp_all add: reserved_def inj_on_subset [OF _ sub])
  moreover have "\<forall>r \<in> set rs'. live w' (chan r) \<and> sr_actors r < length (w_states w')"
    using assms(2) sub keeps_live [OF k] keeps_length(2) [OF k] by (auto simp: reserved_def)
  ultimately show ?thesis by (simp add: reserved_def)
qed

lemma coversD:
  "covers rs S \<Longrightarrow> (i, k) \<in> set S \<Longrightarrow> \<exists>r \<in> set rs. i = Some (sr_id r) \<and> fits k r"
  unfolding covers_def by blast

lemma consumes_covers:
  assumes "consumes w rs S w' rs'" "covers rs (S @ T)"
  shows "covers rs' T"
  unfolding covers_def
proof safe
  show "distinct (map fst T)" using assms(2) by (simp add: covers_def)
  fix i k assume "(i, k) \<in> set T"
  then obtain r where "r \<in> set rs" "i = Some (sr_id r)" "fits k r"
    using coversD [OF assms(2), of i k] by auto
  moreover have "i \<in> fst ` set T" using \<open>(i, k) \<in> set T\<close> by (rule image_eqI [rotated]) simp
  then have "i \<notin> fst ` set S" using assms(2) by (auto simp: covers_def)
  ultimately show "\<exists>r \<in> set rs'. i = Some (sr_id r) \<and> fits k r"
    using assms(1) by (auto simp: consumes_def used_def)
qed

lemma covers_append [simp]: "covers rs (S @ T) \<Longrightarrow> covers rs S"
  by (auto simp: covers_def)

lemma used_rest:
  assumes "consumes w rs S w' rs'"
  shows "used rs (S @ T) = used rs S \<union> used rs' T" "used rs' T \<subseteq> set rs'"
  using assms by (auto simp: consumes_def used_def)

lemma consumes_append:
  assumes "consumes w rs S w1 rs1" "consumes w1 rs1 T w2 rs2"
  shows "consumes w rs (S @ T) w2 rs2"
  using assms used_rest [OF assms(1), of T] keeps_trans
  by (fastforce simp: consumes_def image_Un)

text \<open>Work on the identity of the scope whose reservation was taken.\<close>

lemma consumes_within:
  assumes "consumes w rs S w1 rs'" "keeps N A w1 w2" "N \<subseteq> chan ` used rs S" "A \<subseteq> sr_actors ` used rs S"
  shows "consumes w rs S w2 rs'"
proof -
  have "keeps (chan ` used rs S \<union> N) (sr_actors ` used rs S \<union> A) w w2"
    using assms(1,2) by (auto simp: consumes_def intro: keeps_trans)
  moreover have "chan ` used rs S \<union> N = chan ` used rs S" "sr_actors ` used rs S \<union> A = sr_actors ` used rs S"
    using assms(3,4) by blast+
  ultimately show ?thesis using assms(1) by (simp add: consumes_def)
qed

lemma take_reserved:
  assumes "reserved w rs" "r \<in> set rs" "sc_reservation c = Some (sr_id r)"
  shows "\<exists>rs'. take_reservation c (w, rs) = (Some r, (w, rs')) \<and> distinct rs' \<and> set rs' = set rs - {r}"
proof -
  obtain k where k: "position (\<lambda>x. sr_id x = sr_id r) rs = Some k"
    using assms(2) position_None [of "\<lambda>x. sr_id x = sr_id r" rs] by auto
  from position_Some [OF k] have *: "k < length rs" "sr_id (rs ! k) = sr_id r" by auto
  then have r: "rs ! k = r" using assms(1,2) by (auto simp: reserved_def dest: inj_onD)
  have "distinct (map id rs)" using assms(1) by (simp add: reserved_def)
  from distinct_swap_remove [OF *(1) this] have "distinct (swap_remove k rs)" "r \<notin> set (swap_remove k rs)"
    by (simp_all add: r)
  with set_swap_remove [OF *(1)] r show ?thesis
    using k assms(3) by (auto simp: take_reservation_def)
qed

lemma used_one:
  assumes "reserved w rs" "r \<in> set rs"
  shows "used rs [(Some (sr_id r), k)] = {r}"
  using assms by (auto simp: used_def reserved_def dest: inj_onD)

lemma scope_state_reserved:
  assumes "sr_actors r < length (w_states w)"
  shows "\<exists>w'. scope_state c (Some r) (w, rs) = (sr_actors r, (w', rs)) \<and> keeps {} {sr_actors r} w w'
    \<and> w_states w' ! sr_actors r = runtime_config c \<and> links w' = links w"
  using assms
  by (auto simp: scope_state_def state_configure_def keeps_def live_def channels_at_def links_def)

text \<open>Taking the reservation of a scope and configuring its actor runtime state.\<close>

lemma open_scope:
  assumes "reserved w rs" "covers rs ((sc_reservation c, k) # S)"
  obtains r w1 rs1 where "r \<in> set rs" "sc_reservation c = Some (sr_id r)" "fits k r"
    "take_reservation c (w, rs) = (Some r, (w, rs1))"
    "scope_state c (Some r) (w, rs1) = (sr_actors r, (w1, rs1))"
    "consumes w rs [(sc_reservation c, k)] w1 rs1" "live w1 (chan r)"
    "w_states w1 ! sr_actors r = runtime_config c" "used rs [(sc_reservation c, k)] = {r}" "links w1 = links w"
proof -
  obtain r where r: "r \<in> set rs" "sc_reservation c = Some (sr_id r)" "fits k r"
    using assms(2) by (auto simp: covers_def)
  obtain rs1 where rs1: "take_reservation c (w, rs) = (Some r, (w, rs1))" "distinct rs1" "set rs1 = set rs - {r}"
    using take_reserved [OF assms(1) r(1,2)] by blast
  have a: "sr_actors r < length (w_states w)" "live w (chan r)" using assms(1) r(1) by (auto simp: reserved_def)
  from scope_state_reserved [OF a(1), of c rs1] obtain w1 where
    w1: "scope_state c (Some r) (w, rs1) = (sr_actors r, (w1, rs1))" "keeps {} {sr_actors r} w w1"
    "w_states w1 ! sr_actors r = runtime_config c" "links w1 = links w" by blast
  have u: "used rs [(sc_reservation c, k)] = {r}" using used_one [OF assms(1) r(1)] r(2) by simp
  have "keeps {chan r} {sr_actors r} w w1" by (rule keeps_mono [OF w1(2)]) auto
  then have "consumes w rs [(sc_reservation c, k)] w1 rs1" using rs1 u by (simp add: consumes_def)
  then show thesis using that r rs1(1) w1 keeps_live [OF w1(2) a(2)] u by blast
qed

section \<open>Lowered trees\<close>

fun lowered_ids :: "lowered \<Rightarrow> nat list" and payload_ids :: "payload \<Rightarrow> nat list" where
  "lowered_ids (Lowered cfg n a ps) = n # concat (map payload_ids ps)"
| "payload_ids (PayloadScope l) = lowered_ids l"
| "payload_ids (PayloadActor r opts) = []"
| "payload_ids PayloadTask = []"

fun lowered_actors :: "lowered \<Rightarrow> nat list" and payload_actors :: "payload \<Rightarrow> nat list" where
  "lowered_actors (Lowered cfg n a ps) = a # concat (map payload_actors ps)"
| "payload_actors (PayloadScope l) = lowered_actors l"
| "payload_actors (PayloadActor r opts) = []"
| "payload_actors PayloadTask = []"

text \<open>What a lowered tree says about itself, in the vocabulary of the outline.\<close>

fun lowered_outline :: "store \<Rightarrow> lowered \<Rightarrow> supervision_outline"
  and payload_outline :: "store \<Rightarrow> payload \<Rightarrow> child_definition \<Rightarrow> child_outline" where
  "lowered_outline w (Lowered cfg n a ps) =
     SupervisionOutline (cfg_kind cfg) (cfg_strategy cfg) (cfg_default_child_restart cfg)
       (cfg_default_child_shutdown cfg) (ax_default_actor_mailbox_shutdown (w_states w ! a))
       (map (\<lambda>(f, d). f d) (zip (map (payload_outline w) ps) (cfg_children cfg)))"
| "payload_outline w (PayloadActor r opts) d =
     ActorOutline (cd_id d) (cd_restart d) (cd_shutdown_policy d) (co_mailbox_shutdown opts)
       (cd_remove_on_terminal_exit d)"
| "payload_outline w PayloadTask d =
     TaskOutline (cd_id d) (cd_restart d) (cd_shutdown_policy d) (cd_remove_on_terminal_exit d)"
| "payload_outline w (PayloadScope l) d =
     ScopeOutline (cd_id d) (cd_restart d) (cd_shutdown_policy d) (lowered_outline w l)"

text \<open>Every nested scope is registered below its parent.\<close>

fun linked :: "(nat \<Rightarrow> nat list) \<Rightarrow> lowered \<Rightarrow> bool" and payload_linked :: "(nat \<Rightarrow> nat list) \<Rightarrow> nat \<Rightarrow> payload \<Rightarrow> bool" where
  "linked L (Lowered cfg n a ps) = list_all (payload_linked L n) ps"
| "payload_linked L n (PayloadScope l) = (lo_channels l \<in> set (L n) \<and> linked L l)"
| "payload_linked L n (PayloadActor r opts) = True"
| "payload_linked L n PayloadTask = True"

lemma lowered_outline_cong:
  "(\<And>a. a \<in> set (lowered_actors l) \<Longrightarrow> w_states w ! a = w_states w' ! a) \<Longrightarrow> lowered_outline w l = lowered_outline w' l"
  "(\<And>a. a \<in> set (payload_actors p) \<Longrightarrow> w_states w ! a = w_states w' ! a) \<Longrightarrow> payload_outline w p = payload_outline w' p"
proof (induction l and p)
  case (Lowered cfg n a ps)
  have e: "map (payload_outline w) ps = map (payload_outline w') ps"
    using Lowered by (intro map_cong refl) auto
  have "w_states w ! a = w_states w' ! a" using Lowered.prems [of a] by simp
  then show ?case by (simp only: lowered_outline.simps e)
qed (auto intro!: ext)

lemma linked_cong:
  "(\<And>m. m \<in> set (lowered_ids l) \<Longrightarrow> L m = L' m) \<Longrightarrow> linked L l = linked L' l"
  "L n = L' n \<Longrightarrow> (\<And>m. m \<in> set (payload_ids p) \<Longrightarrow> L m = L' m) \<Longrightarrow> payload_linked L n p = payload_linked L' n p"
proof (induction l and p arbitrary: and n)
  case (Lowered cfg n a ps)
  then show ?case by (auto simp: list_all_iff)
qed auto

lemma linked_reached:
  "linked (links w) l \<Longrightarrow> length (lowered_ids l) \<le> Suc k
    \<Longrightarrow> set (lowered_ids l) \<subseteq> set (descendants k w (lo_channels l))"
  "payload_linked (links w) n p \<Longrightarrow> length (payload_ids p) \<le> k
    \<Longrightarrow> set (payload_ids p) \<subseteq> set (descendants k w n)"
proof (induction l and p arbitrary: k and k n)
  case (Lowered cfg n a ps)
  have "set (payload_ids p) \<subseteq> set (descendants k w n)" if p: "p \<in> set ps" for p
  proof -
    have "length (payload_ids p) \<le> length (concat (map payload_ids ps))"
      using p by (induction ps) auto
    then have "length (payload_ids p) \<le> k" using Lowered.prems(2) by simp
    moreover have "payload_linked (links w) n p" using Lowered.prems(1) p by (auto simp: list_all_iff)
    ultimately show ?thesis using Lowered.IH p by blast
  qed
  then show ?case using descendants_self by auto
next
  case (PayloadScope l)
  then obtain k' where k: "k = Suc k'" "length (lowered_ids l) \<le> Suc k'"
    by (cases k; cases l) auto
  with PayloadScope have "set (lowered_ids l) \<subseteq> set (descendants k' w (lo_channels l))" by simp
  moreover have "set (descendants k' w (lo_channels l)) \<subseteq> set (descendants k w n)"
    using PayloadScope.prems(1) by (auto simp: k links_def)
  ultimately show ?case by auto
qed simp_all

section \<open>Valid declarations\<close>

fun restart_ok :: "scope_config \<Rightarrow> 'm supervision_child \<Rightarrow> bool" where
  "restart_ok c (ActorChild a) = (restart_validate (unwrap_or (an_restart a) (sc_default_child_restart c)) = Inr ())"
| "restart_ok c (TaskChild d) = (restart_validate (cd_restart d) = Inr ())"
| "restart_ok c (ScopeChild i n restart sd) =
     (restart_validate (unwrap_or restart default_restart_policy) = Inr ())"

text \<open>
  A declaration is valid when every capacity is non-zero, every restart policy validates, and the
  ids of each scope are non-empty and distinct.
\<close>

fun valid_node :: "'m scope_node \<Rightarrow> bool" and valid_child :: "'m supervision_child \<Rightarrow> bool" where
  "valid_node (DynamicNode c) \<longleftrightarrow>
     sc_default_actor_mailbox_capacity c \<noteq> 0 \<and> restart_validate (sc_default_child_restart c) = Inr ()"
| "valid_node (OrderedNode c cs) \<longleftrightarrow>
     sc_default_actor_mailbox_capacity c \<noteq> 0 \<and> restart_validate (sc_default_child_restart c) = Inr ()
     \<and> list_all valid_child cs \<and> list_all (restart_ok c) cs
     \<and> distinct (map declared_id cs) \<and> Some [] \<notin> set (map declared_id cs)"
| "valid_child (ActorChild a) \<longleftrightarrow> node_validate a = Some (Inr ())"
| "valid_child (TaskChild d) \<longleftrightarrow> True"
| "valid_child (ScopeChild i n restart sd) \<longleftrightarrow> valid_node n"

text \<open>
  What the types of the public operations guarantee: an actor that is not yet materialised, a
  task, and a dynamic scope with the only strategy it can have.
\<close>

fun proper_node :: "'m scope_node \<Rightarrow> bool" and proper_child :: "'m supervision_child \<Rightarrow> bool" where
  "proper_node (DynamicNode c) \<longleftrightarrow> sc_strategy c = OneForOne"
| "proper_node (OrderedNode c cs) \<longleftrightarrow> list_all proper_child cs"
| "proper_child (ActorChild a) \<longleftrightarrow> an_actor a = None \<and> an_deferred a \<noteq> None"
| "proper_child (TaskChild d) \<longleftrightarrow> cd_kind d = ChildTask"
| "proper_child (ScopeChild i n restart sd) \<longleftrightarrow> proper_node n"

fun scope_id :: "'m supervision_child \<Rightarrow> string option" where
  "scope_id (ScopeChild i n restart sd) = Some i"
| "scope_id (ActorChild a) = None"
| "scope_id (TaskChild d) = None"

fun unambiguous :: "'m scope_node \<Rightarrow> bool" and unambiguous_child :: "'m supervision_child \<Rightarrow> bool" where
  "unambiguous (DynamicNode c) \<longleftrightarrow> True"
| "unambiguous (OrderedNode c cs) \<longleftrightarrow> distinct (List.map_filter scope_id cs) \<and> list_all unambiguous_child cs"
| "unambiguous_child (ScopeChild i n restart sd) \<longleftrightarrow> unambiguous n"
| "unambiguous_child (ActorChild a) \<longleftrightarrow> True"
| "unambiguous_child (TaskChild d) \<longleftrightarrow> True"

section \<open>Children already lowered\<close>

definition ids_of :: "(u64 \<Rightarrow> scope_reservation) \<Rightarrow> (u64 option \<times> scope_kind) list \<Rightarrow> nat list" where
  "ids_of \<rho> S = map (\<lambda>(i, k). chan (\<rho> (the i))) S"

definition actors_of :: "(u64 \<Rightarrow> scope_reservation) \<Rightarrow> (u64 option \<times> scope_kind) list \<Rightarrow> nat list" where
  "actors_of \<rho> S = map (\<lambda>(i, k). sr_actors (\<rho> (the i))) S"

definition agrees :: "(u64 \<Rightarrow> scope_reservation) \<Rightarrow> scope_reservation list \<Rightarrow> bool" where
  "agrees \<rho> rs \<longleftrightarrow> (\<forall>r \<in> set rs. \<rho> (sr_id r) = r)"

lemma ids_of_simps [simp]:
  "ids_of \<rho> [] = []" "ids_of \<rho> (x # S) = chan (\<rho> (the (fst x))) # ids_of \<rho> S"
  "ids_of \<rho> (S @ T) = ids_of \<rho> S @ ids_of \<rho> T"
  "actors_of \<rho> [] = []" "actors_of \<rho> (x # S) = sr_actors (\<rho> (the (fst x))) # actors_of \<rho> S"
  "actors_of \<rho> (S @ T) = actors_of \<rho> S @ actors_of \<rho> T"
  by (auto simp: ids_of_def actors_of_def split: prod.splits)

lemma ids_of_concat:
  "ids_of \<rho> (concat xss) = concat (map (ids_of \<rho>) xss)"
  "actors_of \<rho> (concat xss) = concat (map (actors_of \<rho>) xss)"
  by (induction xss) simp_all

lemma set_ids_of:
  assumes "agrees \<rho> rs" "covers rs S"
  shows "set (ids_of \<rho> S) = chan ` used rs S" "set (actors_of \<rho> S) = sr_actors ` used rs S"
proof -
  have eq: "(\<lambda>(i, k). \<rho> (the i)) ` set S = used rs S"
  proof (intro equalityI subsetI)
    fix r assume "r \<in> (\<lambda>(i, k). \<rho> (the i)) ` set S"
    then obtain i k where ik: "(i, k) \<in> set S" "r = \<rho> (the i)" by auto
    from coversD [OF assms(2) ik(1)] obtain r' where "r' \<in> set rs" "i = Some (sr_id r')" by blast
    with ik assms(1) show "r \<in> used rs S" by (force simp: used_def agrees_def)
  next
    fix r assume "r \<in> used rs S"
    then obtain k where "r \<in> set rs" "(Some (sr_id r), k) \<in> set S" by (auto simp: used_def)
    with assms(1) show "r \<in> (\<lambda>(i, k). \<rho> (the i)) ` set S" by (force simp: agrees_def)
  qed
  show "set (ids_of \<rho> S) = chan ` used rs S" "set (actors_of \<rho> S) = sr_actors ` used rs S"
    unfolding eq [symmetric] by (auto simp: ids_of_def actors_of_def image_iff split: prod.splits)
qed

fun payload_scope :: "payload \<Rightarrow> lowered option" where
  "payload_scope (PayloadScope l) = Some l"
| "payload_scope (PayloadActor r opts) = None"
| "payload_scope PayloadTask = None"

definition child_rel ::
    "(u64 \<Rightarrow> scope_reservation) \<Rightarrow> store \<Rightarrow> scope_config \<Rightarrow> 'm supervision_child \<Rightarrow> child_definition \<Rightarrow>
     payload \<Rightarrow> bool" where
  "child_rel \<rho> w c x d p \<longleftrightarrow>
     payload_outline w p (apply_defaults (sc_default_child_restart c) (sc_default_child_shutdown c) d)
       = outline_of_child (sc_default_child_restart c) (sc_default_child_shutdown c)
           (sc_default_actor_mailbox_shutdown c) x
     \<and> declared_id x = Some (cd_id d)
     \<and> projection c x = (cd_id d,
          cd_restart (apply_defaults (sc_default_child_restart c) (sc_default_child_shutdown c) d),
          cd_remove_on_terminal_exit d)
     \<and> (restart_validate (cd_restart d) = Inr () \<longleftrightarrow> restart_ok c x)
     \<and> nested_identity d = map_option (\<lambda>l. (cd_id d, lo_channels l)) (payload_scope p)
     \<and> scope_id x = map_option (\<lambda>l. cd_id d) (payload_scope p)
     \<and> payload_ids p = ids_of \<rho> (child_scopes x) \<and> payload_actors p = actors_of \<rho> (child_scopes x)
     \<and> (unambiguous_child x \<longrightarrow> (case payload_scope p of Some l \<Rightarrow> linked (links w) l | None \<Rightarrow> True))"

lemma child_rel_cong:
  assumes "child_rel \<rho> w c x d p"
    and "\<And>m. m \<in> set (payload_ids p) \<Longrightarrow> links w' m = links w m"
    and "\<And>a. a \<in> set (payload_actors p) \<Longrightarrow> w_states w' ! a = w_states w ! a"
  shows "child_rel \<rho> w' c x d p"
proof -
  have "payload_outline w' p = payload_outline w p" using lowered_outline_cong(2) assms(3) by blast
  moreover have "linked (links w') l = linked (links w) l" if "payload_scope p = Some l" for l
    using that assms(2) by (cases p) (auto intro!: linked_cong(1))
  ultimately show ?thesis using assms(1) by (auto simp: child_rel_def split: option.splits)
qed

definition accumulated ::
    "(u64 \<Rightarrow> scope_reservation) \<Rightarrow> store \<Rightarrow> scope_reservation list \<Rightarrow> scope_config \<Rightarrow> nat \<Rightarrow> nat \<Rightarrow>
     'm supervision_child list \<Rightarrow> ordered_builder \<Rightarrow> payload list \<Rightarrow> bool" where
  "accumulated \<rho> w rs c n actors xs b ps \<longleftrightarrow>
     live w n \<and> w_states w ! actors = runtime_config c
     \<and> length (ob_children b) = length xs \<and> length ps = length xs
     \<and> (\<forall>j < length xs. child_rel \<rho> w c (xs ! j) (ob_children b ! j) (ps ! j))
     \<and> links w n = map snd (prepared_channels (ordered_config b))
     \<and> ob_strategy b = sc_strategy c \<and> ob_default_child_restart b = sc_default_child_restart c
     \<and> ob_default_child_shutdown b = sc_default_child_shutdown c
     \<and> distinct (n # concat (map payload_ids ps))
     \<and> set (n # concat (map payload_ids ps)) \<inter> chan ` set rs = {}
     \<and> (\<forall>m \<in> set (concat (map payload_ids ps)). m < length (w_identities w))
     \<and> set (actors # concat (map payload_actors ps)) \<inter> sr_actors ` set rs = {}"

lemma accumulatedD:
  assumes "accumulated \<rho> w rs c n actors xs b ps"
  shows "live w n" "w_states w ! actors = runtime_config c" "length (ob_children b) = length xs"
    "length ps = length xs" "\<forall>j < length xs. child_rel \<rho> w c (xs ! j) (ob_children b ! j) (ps ! j)"
    "links w n = map snd (prepared_channels (ordered_config b))" "distinct (n # concat (map payload_ids ps))"
    "set (n # concat (map payload_ids ps)) \<inter> chan ` set rs = {}"
    "\<forall>m \<in> set (concat (map payload_ids ps)). m < length (w_identities w)"
    "set (actors # concat (map payload_actors ps)) \<inter> sr_actors ` set rs = {}"
  using assms unfolding accumulated_def by - (elim conjE, assumption)+

lemma payload_part:
  "j < length ps \<Longrightarrow> m \<in> set (payload_ids (ps ! j)) \<Longrightarrow> m \<in> set (concat (map payload_ids ps))"
  "j < length ps \<Longrightarrow> a \<in> set (payload_actors (ps ! j)) \<Longrightarrow> a \<in> set (concat (map payload_actors ps))"
  by (auto intro: nth_mem bexI [of _ "ps ! j"])

lemma accumulated_keeps:
  assumes acc: "accumulated \<rho> w rs c n actors xs b ps"
    and k: "keeps N A w w'" "N \<subseteq> chan ` set rs" "A \<subseteq> sr_actors ` set rs" and "set rs' \<subseteq> set rs"
  shows "accumulated \<rho> w' rs' c n actors xs b ps"
proof -
  have I: "links w' m = links w m" if "m \<in> set (n # concat (map payload_ids ps))" for m
    using that accumulatedD(8) [OF acc] k(2) keeps_links [OF k(1), of m] by blast
  have S: "w_states w' ! a = w_states w ! a" if "a \<in> set (actors # concat (map payload_actors ps))" for a
    using that accumulatedD(10) [OF acc] k(3) keeps_states [OF k(1), of a] by blast
  have "child_rel \<rho> w' c (xs ! j) (ob_children b ! j) (ps ! j)" if "j < length xs" for j
  proof (rule child_rel_cong)
    show "child_rel \<rho> w c (xs ! j) (ob_children b ! j) (ps ! j)" using accumulatedD(5) [OF acc] that by blast
    have "j < length ps" using accumulatedD(4) [OF acc] that by simp
    then show "links w' m = links w m" if "m \<in> set (payload_ids (ps ! j))" for m
      using I payload_part(1) [OF _ that] by simp
    show "w_states w' ! a = w_states w ! a" if "a \<in> set (payload_actors (ps ! j))" for a
      using S payload_part(2) [OF \<open>j < length ps\<close> that] by simp
  qed
  then have "\<forall>j < length xs. child_rel \<rho> w' c (xs ! j) (ob_children b ! j) (ps ! j)" by blast
  moreover have "live w' n" "w_states w' ! actors = runtime_config c"
    "links w' n = map snd (prepared_channels (ordered_config b))"
    "\<forall>m \<in> set (concat (map payload_ids ps)). m < length (w_identities w')"
    using accumulatedD(1,2,6,9) [OF acc] I [of n] S [of actors] keeps_live [OF k(1), of n] keeps_length(1) [OF k(1)]
    by simp_all
  moreover have "set (n # concat (map payload_ids ps)) \<inter> chan ` set rs' = {}"
    "set (actors # concat (map payload_actors ps)) \<inter> sr_actors ` set rs' = {}"
    using accumulatedD(8,10) [OF acc] \<open>set rs' \<subseteq> set rs\<close> by blast+
  ultimately show ?thesis using acc unfolding accumulated_def by (elim conjE) (intro conjI, assumption+)
qed

lemma accumulated_push:
  assumes acc: "accumulated \<rho> w rs c n actors xs b ps" and rel: "child_rel \<rho> w c x d p"
    and p: "distinct (payload_ids p)" "set (payload_ids p) \<inter> set (n # concat (map payload_ids ps)) = {}"
      "set (payload_ids p) \<inter> chan ` set rs = {}" "set (payload_actors p) \<inter> sr_actors ` set rs = {}"
      "\<forall>m \<in> set (payload_ids p). m < length (w_identities w)"
  shows "\<exists>w'. builder_child_spec d (b, n) w = (Inr (child_spec d b, n), w') \<and> keeps {n} {} w w'
    \<and> accumulated \<rho> w' rs c n actors (xs @ [x]) (child_spec d b) (ps @ [p])"
proof -
  note D = accumulatedD [OF acc]
  obtain w' where w': "refresh_declaration (child_spec d b, n) w = (Inr (child_spec d b, n), w')" "keeps {n} {} w w'"
    "links w' n = map snd (prepared_channels (ordered_config (child_spec d b)))"
    using refresh_builder [OF D(1), of "child_spec d b"] by blast
  have old: "child_rel \<rho> w' c (xs ! j) (ob_children b ! j) (ps ! j)" if j: "j < length xs" for j
  proof (rule child_rel_cong)
    show "child_rel \<rho> w c (xs ! j) (ob_children b ! j) (ps ! j)" using D(5) j by blast
    show "links w' m = links w m" if "m \<in> set (payload_ids (ps ! j))" for m
      using payload_part(1) [OF _ that] D(4,7) j keeps_links [OF w'(2), of m] by auto
  qed (use keeps_states [OF w'(2)] in simp)
  have new: "child_rel \<rho> w' c x d p"
  proof (rule child_rel_cong [OF rel])
    show "links w' m = links w m" if "m \<in> set (payload_ids p)" for m
      using p(2) that by (intro keeps_links [OF w'(2)]) auto
  qed (use keeps_states [OF w'(2)] in simp)
  have all: "\<forall>j < length (xs @ [x]). child_rel \<rho> w' c ((xs @ [x]) ! j) (ob_children (child_spec d b) ! j) ((ps @ [p]) ! j)"
    using old new D(3,4) by (auto simp: nth_append child_spec_def less_Suc_eq)
  have rest: "live w' n" "w_states w' ! actors = runtime_config c"
    "length (ob_children (child_spec d b)) = length (xs @ [x])" "length (ps @ [p]) = length (xs @ [x])"
    using D(1-4) keeps_live [OF w'(2)] keeps_states [OF w'(2)] by (simp_all add: child_spec_def)
  have ids: "distinct (n # concat (map payload_ids (ps @ [p])))"
    "set (n # concat (map payload_ids (ps @ [p]))) \<inter> chan ` set rs = {}"
    "\<forall>m \<in> set (concat (map payload_ids (ps @ [p]))). m < length (w_identities w')"
    "set (actors # concat (map payload_actors (ps @ [p]))) \<inter> sr_actors ` set rs = {}"
    using D(7-10) p keeps_length(1) [OF w'(2)] by auto
  have "accumulated \<rho> w' rs c n actors (xs @ [x]) (child_spec d b) (ps @ [p])"
    unfolding accumulated_def using acc
    by (intro conjI rest all w'(3) ids) (simp_all add: accumulated_def child_spec_def)
  then show ?thesis using w'(1,2) by (auto simp: builder_child_spec_def)
qed

lemma nested_ids_match:
  assumes "length ds = length xs" "\<forall>j < length xs. map_option fst (nested_identity (ds ! j)) = scope_id (xs ! j)"
  shows "map fst (List.map_filter nested_identity ds) = List.map_filter scope_id xs"
  using assms
proof (induction ds xs rule: list_induct2)
  case (Cons d ds x xs)
  have "map_option fst (nested_identity d) = scope_id x"
    "\<forall>j < length xs. map_option fst (nested_identity (ds ! j)) = scope_id (xs ! j)"
    using Cons.prems by (auto simp: All_less_Suc2)
  with Cons.IH show ?case by (cases "nested_identity d"; cases "scope_id x") (auto simp: map_filter_simps)
qed (simp add: map_filter_simps)

text \<open>While the ids of the nested scopes differ, every one of them stays registered.\<close>

lemma accumulated_linked:
  assumes acc: "accumulated \<rho> w rs c n actors xs b ps"
    and same: "\<And>m. m \<in> set (n # concat (map payload_ids ps)) \<Longrightarrow> links w1 m = links w m"
    and un: "distinct (List.map_filter scope_id xs)" "list_all unambiguous_child xs"
  shows "linked (links w1) (Lowered cfg n actors ps)"
proof -
  note D = accumulatedD [OF acc]
  have rel: "child_rel \<rho> w c (xs ! j) (ob_children b ! j) (ps ! j)" if "j < length xs" for j using D(5) that by blast
  have nested: "nested_identity (ob_children b ! j)
      = map_option (\<lambda>l. (cd_id (ob_children b ! j), lo_channels l)) (payload_scope (ps ! j))" if "j < length xs" for j
    using rel [OF that] by (simp only: child_rel_def)
  have "map fst (List.map_filter nested_identity (ob_children b)) = List.map_filter scope_id xs"
  proof (rule nested_ids_match)
    show "\<forall>j < length xs. map_option fst (nested_identity (ob_children b ! j)) = scope_id (xs ! j)"
      using rel unfolding child_rel_def by (simp add: nested option.map_comp comp_def)
  qed (rule D(3))
  with un(1) prepared_distinct [of "ordered_config b"]
  have links: "links w n = map snd (List.map_filter nested_identity (ob_children b))"
    by (simp add: D(6) ordered_config_def)
  have "payload_linked (links w) n (ps ! j)" if j: "j < length ps" for j
  proof (cases "ps ! j")
    case (PayloadScope l)
    have "nested_identity (ob_children b ! j) = Some (cd_id (ob_children b ! j), lo_channels l)"
      using nested [of j] j D(4) PayloadScope by simp
    moreover have "ob_children b ! j \<in> set (ob_children b)" using j D(3,4) by simp
    ultimately have "lo_channels l \<in> set (links w n)"
      by (force simp: links List.map_filter_def)
    moreover have "unambiguous_child (xs ! j)" using un(2) j D(4) by (simp add: list_all_length)
    then have "linked (links w) l" using rel [of j] j D(4) PayloadScope by (simp add: child_rel_def)
    ultimately show ?thesis by (simp add: PayloadScope)
  qed simp_all
  then have "linked (links w) (Lowered cfg n actors ps)" by (simp add: list_all_length)
  moreover have "linked (links w1) (Lowered cfg n actors ps) = linked (links w) (Lowered cfg n actors ps)"
    by (rule linked_cong(1)) (use same in simp)
  ultimately show ?thesis by blast
qed

text \<open>Dropping the builder of a scope ends every scope registered below it.\<close>

lemma accumulated_ends:
  assumes acc: "accumulated \<rho> w rs c n actors xs b ps"
    and same: "\<And>m. m \<in> set (n # concat (map payload_ids ps)) \<Longrightarrow> links w1 m = links w m"
      "length (w_identities w1) = length (w_identities w)"
    and un: "distinct (List.map_filter scope_id xs)" "list_all unambiguous_child xs"
  shows "\<forall>m \<in> set (n # concat (map payload_ids ps)). ended (terminate_identity n w1) m"
proof -
  note D = accumulatedD [OF acc]
  have l: "linked (links w1) (Lowered cfg n actors ps)" for cfg by (rule accumulated_linked [OF acc same(1) un])
  let ?I = "n # concat (map payload_ids ps)"
  have bound: "set ?I \<subseteq> {..< length (w_identities w1)}"
    using D(1,9) same(2) by (auto simp: live_def)
  have "length ?I = card (set ?I)" using distinct_card [OF D(7)] by simp
  also have "\<dots> \<le> length (w_identities w1)" using card_mono [OF _ bound] by simp
  finally have "length ?I \<le> Suc (length (w_identities w1))" by simp
  then have "set ?I \<subseteq> set (descendants (length (w_identities w1)) w1 n)"
    using linked_reached(1) [OF l, of _ "length (w_identities w1)"] by simp
  with bound show ?thesis by (auto simp: ended_terminate_identity)
qed

section \<open>Lowering one child\<close>

definition abandons ::
    "nat set \<Rightarrow> bool \<Rightarrow> store \<Rightarrow> scope_reservation list \<Rightarrow> store \<Rightarrow> scope_reservation list \<Rightarrow> bool" where
  "abandons N U w rs w' rs' \<longleftrightarrow> set rs' \<subseteq> set rs \<and> length (w_identities w') = length (w_identities w)
     \<and> (\<forall>m. m \<notin> N \<union> chan ` set rs \<longrightarrow> links w' m = links w m)
     \<and> (U \<longrightarrow> (\<forall>r \<in> set rs - set rs'. ended w' (chan r)))"

lemma links_terminal [simp]: "links (terminate_identity n w) = links w"
proof -
  have "links (mark_terminal m v) = links v" for m v by (simp add: links_def fun_eq_iff)
  then have "links (fold mark_terminal ns v) = links v" for ns v by (induction ns arbitrary: v) simp_all
  then show ?thesis by (simp add: terminate_identity_def)
qed

definition told_apart :: "'m supervision_child list \<Rightarrow> bool" where
  "told_apart xs \<longleftrightarrow> distinct (List.map_filter scope_id xs) \<and> list_all unambiguous_child xs"

lemma told_apart_prefix: "told_apart (xs @ ys) \<Longrightarrow> told_apart xs"
  by (auto simp: told_apart_def map_filter_def)

definition child_post ::
    "(u64 \<Rightarrow> scope_reservation) \<Rightarrow> scope_config \<Rightarrow> nat \<Rightarrow> nat \<Rightarrow> 'm supervision_child list \<Rightarrow>
     'm supervision_child \<Rightarrow> payload list \<Rightarrow> store \<Rightarrow> scope_reservation list \<Rightarrow>
     (tree_error + owned_ordered \<times> payload) \<times> lowering \<Rightarrow> bool" where
  "child_post \<rho> c actors n xs x ps w rs res \<longleftrightarrow>
     (case res of
        (Inl TreePanic, _) \<Rightarrow> False
      | (Inl (TreeBuild e), (w', rs')) \<Rightarrow>
          \<not> valid_child x \<and> abandons {} (told_apart (xs @ [x])) w rs w' rs'
          \<and> (told_apart (xs @ [x]) \<longrightarrow> (\<forall>m \<in> set (n # concat (map payload_ids ps)). ended w' m))
      | (Inr ((b', n'), p), (w', rs')) \<Rightarrow>
          valid_child x \<and> n' = n \<and> distinct rs' \<and> set rs' = set rs - used rs (child_scopes x)
          \<and> keeps (insert n (chan ` used rs (child_scopes x))) (sr_actors ` used rs (child_scopes x)) w w'
          \<and> accumulated \<rho> w' rs' c n actors (xs @ [x]) b' (ps @ [p]))"

lemma keeps_same_store: "w_identities w' = w_identities w \<Longrightarrow> w_states w' = w_states w \<Longrightarrow> keeps N A w w'"
  by (simp add: keeps_def live_def channels_at_def links_def)

lemma drop_post:
  assumes acc: "accumulated \<rho> w rs c n actors xs b ps" and "\<not> valid_child x" "abandons {} U w rs w1 rs1"
    and "told_apart (xs @ [x]) \<Longrightarrow> U"
  shows "child_post \<rho> c actors n xs x ps w rs (Inl (TreeBuild e), drop_builder n (w1, rs1))"
proof -
  have out: "links w1 m = links w m" if "m \<in> set (n # concat (map payload_ids ps))" for m
  proof -
    have "m \<notin> chan ` set rs" using that accumulatedD(8) [OF acc] by blast
    then show ?thesis using assms(3) by (simp add: abandons_def)
  qed
  have "told_apart (xs @ [x]) \<Longrightarrow> \<forall>m \<in> set (n # concat (map payload_ids ps)). ended (terminate_identity n w1) m"
    using accumulated_ends [OF acc out] assms(3) told_apart_prefix [of xs "[x]"]
    by (simp add: told_apart_def abandons_def)
  then show ?thesis
    using assms(2-4) ended_stays by (auto simp: child_post_def drop_builder_def abandons_def)
qed

lemma lower_task_post:
  assumes acc: "accumulated \<rho> w rs c n actors xs b ps" and "cd_kind d = ChildTask" "distinct rs"
  shows "child_post \<rho> c actors n xs (TaskChild d) ps w rs (lower_task d (b, n) (w, rs))"
proof -
  have rel: "child_rel \<rho> w c (TaskChild d) d PayloadTask"
    using assms(2)
    by (simp add: child_rel_def nested_identity_def apply_defaults_resolved [of _ _ d, symmetric])
  obtain w' where "builder_child_spec d (b, n) w = (Inr (child_spec d b, n), w')" "keeps {n} {} w w'"
    "accumulated \<rho> w' rs c n actors (xs @ [TaskChild d]) (child_spec d b) (ps @ [PayloadTask])"
    using accumulated_push [OF acc rel] by auto
  then show ?thesis
    using assms(3) by (simp add: lower_task_def in_store_def and_then_def return_ok_def child_post_def)
qed

lemma materialized:
  assumes "an_actor a = None" "an_deferred a = Some f" "materialize_actor_node actors a w = (a', w')"
  shows "\<exists>r. an_actor a' = Some r \<and> ra_actor_id r = da_actor_id f" "an_restart a' = an_restart a"
    "an_shutdown a' = an_shutdown a" "an_mailbox_shutdown a' = an_mailbox_shutdown a"
    "an_remove_on_terminal_exit a' = an_remove_on_terminal_exit a" "keeps {} {} w w'"
proof -
  have "w_identities w' = w_identities w \<and> w_states w' = w_states w"
    using assms
    by (auto simp: materialize_actor_node_def node_materialize_def deferred_materialize_def binding_get_or_init_def
        binding_alloc_def set_message_size_entry_def Let_def split: option.splits if_splits prod.splits)
  then show "keeps {} {} w w'" by (simp add: keeps_same_store)
qed (use assms in \<open>auto simp: materialize_actor_node_def node_materialize_def deferred_materialize_def
      actor_from_parts_def Let_def split: prod.splits\<close>)

lemma actor_child_rel:
  assumes "an_deferred a = Some f" "an_actor a = None" "ra_actor_id r = da_actor_id f"
    and opts: "co_restart opts = unwrap_or (an_restart a) (sc_default_child_restart c)"
      "co_shutdown opts = unwrap_or (an_shutdown a) (sc_default_child_shutdown c)"
      "co_mailbox_shutdown opts = unwrap_or (an_mailbox_shutdown a) (sc_default_actor_mailbox_shutdown c)"
      "co_remove_on_terminal_exit opts = an_remove_on_terminal_exit a"
    and d: "actor_child_spec r actors opts w = (d, w')"
  shows "child_rel \<rho> v c (ActorChild a) d (PayloadActor r opts)" "keeps {} {} w w'"
proof -
  have "w_identities w' = w_identities w \<and> w_states w' = w_states w"
    using d by (auto simp: actor_child_spec_def attach_def Let_def)
  then show "keeps {} {} w w'" by (simp add: keeps_same_store)
  have "cd_id d = da_actor_id f" "cd_restart d = co_restart opts" "\<not> cd_restart_is_default d"
    "cd_shutdown_policy d = co_shutdown opts" "\<not> cd_shutdown_is_default d" "cd_kind d = ChildTask"
    "cd_remove_on_terminal_exit d = co_remove_on_terminal_exit opts"
    using d assms(3) by (auto simp: actor_child_spec_def attach_def Let_def task_spec_new_def spec_attachment_def
        automatic_readiness_def spec_restart_def spec_shutdown_def remove_on_terminal_exit_def
        split: if_splits)
  then show "child_rel \<rho> v c (ActorChild a) d (PayloadActor r opts)"
    using assms(1,2) opts by (simp add: child_rel_def apply_defaults_def Let_def node_label_def nested_identity_def)
qed

lemma lower_actor_post:
  assumes acc: "accumulated \<rho> w rs c n actors xs b ps" and proper: "an_actor a = None" "an_deferred a = Some f" and "distinct rs"
  shows "child_post \<rho> c actors n xs (ActorChild a) ps w rs (lower_actor c actors a (b, n) (w, rs))"
proof (cases "node_validate a")
  case None
  with proper show ?thesis by (simp add: node_validate_def)
next
  case (Some v)
  show ?thesis
  proof (cases v)
    case (Inl e)
    have "abandons {} True w rs w rs" by (simp add: abandons_def)
    from drop_post [OF acc _ this, of "ActorChild a"] Some Inl show ?thesis by (simp add: lower_actor_def)
  next
    case (Inr u)
    obtain a' w1 where m: "materialize_actor_node actors a w = (a', w1)" by force
    note M = materialized [OF proper m]
    from M(1) obtain r where r: "an_actor a' = Some r" "ra_actor_id r = da_actor_id f" by blast
    let ?opts = "\<lparr>co_restart = unwrap_or (an_restart a') (sc_default_child_restart c),
        co_shutdown = unwrap_or (an_shutdown a') (sc_default_child_shutdown c),
        co_mailbox_shutdown = unwrap_or (an_mailbox_shutdown a') (sc_default_actor_mailbox_shutdown c),
        co_remove_on_terminal_exit = an_remove_on_terminal_exit a'\<rparr>"
    obtain d w2 where d: "actor_child_spec r actors ?opts w1 = (d, w2)" by force
    have rel: "child_rel \<rho> w2 c (ActorChild a) d (PayloadActor r ?opts)" and k2: "keeps {} {} w1 w2"
      by (rule actor_child_rel [OF proper(2,1) r(2) _ _ _ _ d]; simp add: M)+
    have k: "keeps {} {} w w2" by (rule keeps_chain [OF M(6) k2])
    have acc2: "accumulated \<rho> w2 rs c n actors xs b ps" by (rule accumulated_keeps [OF acc k]) auto
    obtain w3 where w3: "builder_child_spec d (b, n) w2 = (Inr (child_spec d b, n), w3)" "keeps {n} {} w2 w3"
      "accumulated \<rho> w3 rs c n actors (xs @ [ActorChild a]) (child_spec d b) (ps @ [PayloadActor r ?opts])"
      using accumulated_push [OF acc2 rel] by auto
    have "keeps {n} {} w w3" using keeps_trans [OF k w3(2)] by simp
    with w3 m r d Some Inr show ?thesis
      using assms(4)
      by (simp add: lower_actor_def Let_def in_store_def and_then_def return_ok_def child_post_def)
  qed
qed

end
