(* ===== verification/Tree_Properties.thy ===== *)
theory Tree_Properties
  imports Tree_Lowering
begin

text \<open>
  The lowering of whole trees, the trees that the public operations build, and the properties
  of both.
\<close>

section \<open>Lowering a nested scope\<close>

lemma distinct_ids_of:
  assumes "reserved w rs" "agrees \<rho> rs" "covers rs S"
  shows "distinct (ids_of \<rho> S)"
proof -
  have "inj_on (\<lambda>i. chan (\<rho> (the i))) (fst ` set S)"
  proof (rule inj_onI)
    fix i j assume ij: "i \<in> fst ` set S" "j \<in> fst ` set S" "chan (\<rho> (the i)) = chan (\<rho> (the j))"
    from ij(1,2) obtain k l where "(i, k) \<in> set S" "(j, l) \<in> set S" by auto
    with coversD [OF assms(3)] obtain r q where rq: "r \<in> set rs" "i = Some (sr_id r)" "q \<in> set rs" "j = Some (sr_id q)"
      by blast
    with ij(3) assms(2) have "chan r = chan q" by (simp add: agrees_def)
    with rq assms(1) have "r = q" by (auto simp: reserved_def dest: inj_onD)
    with rq show "i = j" by simp
  qed
  moreover have "distinct (map fst S)" using assms(3) by (simp add: covers_def)
  ultimately have "distinct (map (\<lambda>i. chan (\<rho> (the i))) (map fst S))"
    by (simp add: distinct_map comp_inj_on inj_on_def)
  moreover have "ids_of \<rho> S = map (\<lambda>i. chan (\<rho> (the i))) (map fst S)"
    by (simp add: ids_of_def case_prod_unfold)
  ultimately show ?thesis by (simp only:)
qed

definition lower_post ::
    "(u64 \<Rightarrow> scope_reservation) \<Rightarrow> 'm scope_node \<Rightarrow> store \<Rightarrow> scope_reservation list \<Rightarrow>
     (tree_error + lowered) \<times> lowering \<Rightarrow> bool" where
  "lower_post \<rho> n w rs res \<longleftrightarrow>
     (case res of
        (Inl TreePanic, _) \<Rightarrow> False
      | (Inl (TreeBuild e), (w', rs')) \<Rightarrow> \<not> valid_node n \<and> abandons {} (unambiguous n) w rs w' rs'
      | (Inr l, (w', rs')) \<Rightarrow>
          valid_node n \<and> consumes w rs (scopes n) w' rs'
          \<and> lowered_ids l = ids_of \<rho> (scopes n) \<and> lowered_actors l = actors_of \<rho> (scopes n)
          \<and> lowered_outline w' l = outline n \<and> (unambiguous n \<longrightarrow> linked (links w') l)
          \<and> ss_children (initial_snapshot (lo_config l))
              = projected_children (map (projection (node_config n)) (declared_children n)))"

lemma scope_child_rel:
  assumes "lowered_ids l = ids_of \<rho> (scopes n)" "lowered_actors l = actors_of \<rho> (scopes n)"
    and "lowered_outline w l = outline n" "unambiguous n \<longrightarrow> linked (links w) l"
    and "d = spec_attachment k (scope_definition i (lo_channels l) restart sd)"
  shows "child_rel \<rho> w c (ScopeChild i n restart sd) d (PayloadScope l)"
  using assms
  by (auto simp: child_rel_def nested_identity_def apply_defaults_def Let_def scope_definition_def supervisor_spec_def
      spec_attachment_def spec_restart_def spec_shutdown_def unwrap_or_def split: option.split)

lemma lower_scope_post:
  assumes acc: "accumulated \<rho> w rs c n actors xs b ps"
    and rs: "reserved w rs" "agrees \<rho> rs" "covers rs (scopes node)"
    and post: "lower_post \<rho> node w rs (lower node (w, rs))"
  shows "child_post \<rho> c actors n xs (ScopeChild i node restart sd) ps w rs
    (lower_child c actors (ScopeChild i node restart sd) (b, n) (w, rs))"
proof -
  obtain res w1 rs1 where low: "lower node (w, rs) = (res, (w1, rs1))" by (metis prod.exhaust)
  show ?thesis
  proof (cases res)
    case (Inl e)
    with post low obtain e' where e: "e = TreeBuild e'" "\<not> valid_node node" "abandons {} (unambiguous node) w rs w1 rs1"
      by (cases e) (auto simp: lower_post_def)
    have "told_apart (xs @ [ScopeChild i node restart sd]) \<Longrightarrow> unambiguous node" by (simp add: told_apart_def)
    from drop_post [OF acc _ e(3) this] e low Inl show ?thesis by simp
  next
    case (Inr l)
    have l: "valid_node node" "consumes w rs (scopes node) w1 rs1" "lowered_ids l = ids_of \<rho> (scopes node)"
      "lowered_actors l = actors_of \<rho> (scopes node)" "lowered_outline w1 l = outline node"
      "unambiguous node \<longrightarrow> linked (links w1) l"
      using post low Inr by (auto simp: lower_post_def)
    have sub: "set rs1 \<subseteq> set rs" and k1: "keeps (chan ` used rs (scopes node)) (sr_actors ` used rs (scopes node)) w w1"
      and rs1: "distinct rs1" "set rs1 = set rs - used rs (scopes node)"
      using l(2) by (auto simp: consumes_def)
    let ?d = "spec_attachment (length (w_attachments w1)) (scope_definition i (lo_channels l) restart sd)"
    let ?w2 = "w1\<lparr>w_attachments := w_attachments w1 @ [attachment_subtree actors (lo_actors l)]\<rparr>"
    have k2: "keeps {} {} w1 ?w2" by (simp add: keeps_same_store)
    have k: "keeps (chan ` used rs (scopes node)) (sr_actors ` used rs (scopes node)) w ?w2"
      using keeps_trans [OF k1 k2] by simp
    have acc2: "accumulated \<rho> ?w2 rs1 c n actors xs b ps"
      by (rule accumulated_keeps [OF acc k _ _ sub]) (auto simp: used_def)
    have o2: "lowered_outline ?w2 l = outline node" using l(5) lowered_outline_cong(1) [of l ?w2 w1] by simp
    have "links ?w2 = links w1" using k2 by (auto simp: keeps_def)
    with scope_child_rel [OF l(3,4) o2] l(6)
    have rel: "child_rel \<rho> ?w2 c (ScopeChild i node restart sd) ?d (PayloadScope l)" by simp
    have ids: "set (payload_ids (PayloadScope l)) = chan ` used rs (scopes node)"
      "set (payload_actors (PayloadScope l)) = sr_actors ` used rs (scopes node)"
      using l(3,4) set_ids_of [OF rs(2,3)] by simp_all
    have u: "used rs (scopes node) \<subseteq> set rs" by (auto simp: used_def)
    have "chan ` used rs (scopes node) \<inter> chan ` set rs1 = {}" "sr_actors ` used rs (scopes node) \<inter> sr_actors ` set rs1 = {}"
      using rs(1) rs1(2) u by (auto simp: reserved_def dest!: inj_onD)
    moreover have "chan ` used rs (scopes node) \<inter> set (n # concat (map payload_ids ps)) = {}"
      using accumulatedD(8) [OF acc] u by blast
    moreover have "\<forall>m \<in> chan ` used rs (scopes node). m < length (w_identities ?w2)"
      using rs(1) u keeps_length(1) [OF k1] by (auto simp: reserved_def live_def)
    ultimately obtain w3 where w3: "builder_child_spec ?d (b, n) ?w2 = (Inr (child_spec ?d b, n), w3)" "keeps {n} {} ?w2 w3"
      "accumulated \<rho> w3 rs1 c n actors (xs @ [ScopeChild i node restart sd]) (child_spec ?d b) (ps @ [PayloadScope l])"
      using accumulated_push [OF acc2 rel] distinct_ids_of [OF rs] l(3) unfolding ids by auto
    have "keeps (insert n (chan ` used rs (scopes node))) (sr_actors ` used rs (scopes node)) w w3"
      using keeps_trans [OF k w3(2)] by simp
    with w3 low Inr l(1) rs1 show ?thesis
      by (simp add: attach_scope_def attach_def Let_def in_store_def and_then_def return_ok_def child_post_def)
  qed
qed

section \<open>Lowering the children of a scope\<close>

definition children_post ::
    "(u64 \<Rightarrow> scope_reservation) \<Rightarrow> scope_config \<Rightarrow> nat \<Rightarrow> nat \<Rightarrow> 'm supervision_child list \<Rightarrow>
     'm supervision_child list \<Rightarrow> payload list \<Rightarrow> store \<Rightarrow> scope_reservation list \<Rightarrow>
     (tree_error + owned_ordered \<times> payload list) \<times> lowering \<Rightarrow> bool" where
  "children_post \<rho> c actors n xs ys ps w rs res \<longleftrightarrow>
     (let S = concat (map child_scopes ys) in
      case res of
        (Inl TreePanic, _) \<Rightarrow> False
      | (Inl (TreeBuild e), (w', rs')) \<Rightarrow>
          \<not> list_all valid_child ys \<and> abandons {n} (told_apart (xs @ ys)) w rs w' rs'
          \<and> (told_apart (xs @ ys) \<longrightarrow> (\<forall>m \<in> set (n # concat (map payload_ids ps)). ended w' m))
      | (Inr ((b', n'), ps'), (w', rs')) \<Rightarrow>
          list_all valid_child ys \<and> n' = n \<and> distinct rs' \<and> set rs' = set rs - used rs S
          \<and> keeps (insert n (chan ` used rs S)) (sr_actors ` used rs S) w w'
          \<and> accumulated \<rho> w' rs' c n actors (xs @ ys) b' ps')"

lemma children_post_Nil:
  "accumulated \<rho> w rs c n actors xs b ps \<Longrightarrow> distinct rs
    \<Longrightarrow> children_post \<rho> c actors n xs [] ps w rs (Inr ((b, n), ps), (w, rs))"
  by (simp add: children_post_def)

text \<open>A failing child ends the lowering of its siblings.\<close>

lemma children_post_fail:
  assumes "child_post \<rho> c actors n xs y ps w rs (Inl e, s)"
  shows "children_post \<rho> c actors n xs (y # ys) ps w rs (Inl e, s)"
proof -
  have "told_apart (xs @ y # ys) \<Longrightarrow> told_apart (xs @ [y])" using told_apart_prefix [of "xs @ [y]" ys] by simp
  then show ?thesis
    using assms by (cases e; cases s) (auto simp: child_post_def children_post_def abandons_def Let_def)
qed

lemma children_post_Cons:
  assumes "reserved w rs" "agrees \<rho> rs" "covers rs (concat (map child_scopes (y # ys)))"
    and child: "child_post \<rho> c actors n xs y ps w rs (Inr ((b', n'), p), (w1, rs1))"
    and rest: "children_post \<rho> c actors n (xs @ [y]) ys (ps @ [p]) w1 rs1 res"
  shows "children_post \<rho> c actors n xs (y # ys) ps w rs res"
proof -
  let ?S = "child_scopes y" and ?T = "concat (map child_scopes ys)"
  have c: "valid_child y" "distinct rs1" "set rs1 = set rs - used rs ?S"
    "keeps (insert n (chan ` used rs ?S)) (sr_actors ` used rs ?S) w w1"
    "accumulated \<rho> w1 rs1 c n actors (xs @ [y]) b' (ps @ [p])"
    using child by (auto simp: child_post_def)
  have u: "used rs (?S @ ?T) = used rs ?S \<union> used rs1 ?T" and sub: "set rs1 \<subseteq> set rs" using c(3) by (auto simp: used_def)
  have y: "covers rs ?S" using assms(3) by (auto simp: covers_def)
  have p: "set (payload_ids p) = chan ` used rs ?S"
  proof -
    have "child_rel \<rho> w1 c ((xs @ [y]) ! length xs) (ob_children b' ! length xs) ((ps @ [p]) ! length xs)"
      using accumulatedD(5) [OF c(5)] by (metis length_append_singleton lessI)
    moreover have "length ps = length xs" using accumulatedD(4) [OF c(5)] by simp
    ultimately show ?thesis using set_ids_of(1) [OF assms(2) y] by (simp add: child_rel_def nth_append)
  qed
  obtain r w2 rs2 where res: "res = (r, (w2, rs2))" by (metis prod.exhaust)
  show ?thesis
  proof (cases r)
    case (Inl e)
    with rest res obtain e' where e: "e = TreeBuild e'" "\<not> list_all valid_child ys"
      "abandons {n} (told_apart (xs @ y # ys)) w1 rs1 w2 rs2"
      "told_apart (xs @ y # ys) \<longrightarrow> (\<forall>m \<in> set (n # concat (map payload_ids (ps @ [p]))). ended w2 m)"
      by (cases e) (auto simp: children_post_def Let_def)
    have "ended w2 (chan r)" if "told_apart (xs @ y # ys)" "r \<in> set rs - set rs2" for r
    proof (cases "r \<in> set rs1")
      case True then show ?thesis using e(3) that by (simp add: abandons_def)
    next
      case False
      then have "chan r \<in> set (payload_ids p)" using that(2) c(3) p by auto
      then show ?thesis using e(4) that(1) by simp
    qed
    moreover have "links w2 m = links w m" if "m \<notin> {n} \<union> chan ` set rs" for m
    proof -
      have "m \<notin> {n} \<union> chan ` set rs1" using that sub by auto
      then have "links w2 m = links w1 m" using e(3) by (simp add: abandons_def)
      also have "\<dots> = links w m" by (rule keeps_links [OF c(4)]) (use that in \<open>auto simp: used_def\<close>)
      finally show ?thesis .
    qed
    ultimately have "abandons {n} (told_apart (xs @ y # ys)) w rs w2 rs2"
      using e(3) sub keeps_length(1) [OF c(4)] by (auto simp: abandons_def)
    moreover have "\<forall>m \<in> set (n # concat (map payload_ids ps)). ended w2 m" if "told_apart (xs @ y # ys)"
      using e(4) that by simp
    ultimately show ?thesis using e(1,2) res Inl by (auto simp: children_post_def simp del: set_concat set_map)
  next
    case (Inr x)
    obtain b2 n2 ps2 where x: "x = ((b2, n2), ps2)" by (metis prod.exhaust)
    have r: "list_all valid_child ys" "n2 = n" "distinct rs2" "set rs2 = set rs1 - used rs1 ?T"
      "keeps (insert n (chan ` used rs1 ?T)) (sr_actors ` used rs1 ?T) w1 w2"
      "accumulated \<rho> w2 rs2 c n actors (xs @ y # ys) b2 ps2"
      using rest res Inr x by (auto simp: children_post_def Let_def)
    have "set rs2 = set rs - used rs (?S @ ?T)" using r(4) c(3) u by auto
    moreover have "keeps (insert n (chan ` used rs (?S @ ?T))) (sr_actors ` used rs (?S @ ?T)) w w2"
      using keeps_trans [OF c(4) r(5)] by (simp add: u image_Un Un_assoc)
    ultimately show ?thesis using r c(1) res Inr x by (simp add: children_post_def)
  qed
qed

section \<open>Lowering a scope\<close>

lemma build_ordered_ok:
  "build_ordered b = Inr cfg \<longleftrightarrow>
     restart_validate (ob_default_child_restart b) = Inr () \<and> validate_children [] (ob_children b) = Inr ()
     \<and> cfg = ordered_config (b\<lparr>ob_children := map (apply_defaults (ob_default_child_restart b)
          (ob_default_child_shutdown b)) (ob_children b)\<rparr>)"
  by (auto simp: build_ordered_def split: sum.splits)

lemma accumulated_valid:
  assumes acc: "accumulated \<rho> w rs c n actors xs b ps"
  shows "validate_children [] (ob_children b) = Inr () \<longleftrightarrow>
    list_all (restart_ok c) xs \<and> distinct (map declared_id xs) \<and> Some [] \<notin> set (map declared_id xs)"
proof -
  note D = accumulatedD [OF acc]
  have rel: "declared_id (xs ! j) = Some (cd_id (ob_children b ! j))"
    "(restart_validate (cd_restart (ob_children b ! j)) = Inr ()) = restart_ok c (xs ! j)" if "j < length xs" for j
    using D(5) that by (auto simp: child_rel_def)
  have ids: "map declared_id xs = map Some (map cd_id (ob_children b))"
    by (rule nth_equalityI) (simp_all add: D(3) rel(1))
  have r: "(\<forall>d \<in> set (ob_children b). restart_validate (cd_restart d) = Inr ()) \<longleftrightarrow> list_all (restart_ok c) xs"
    using rel(2) by (auto simp: list_all_length all_set_conv_all_nth D(3))
  have "distinct (map declared_id xs) = distinct (map cd_id (ob_children b))"
    using distinct_map [of Some "map cd_id (ob_children b)"] unfolding ids by simp
  moreover have "Some [] \<notin> set (map declared_id xs) \<longleftrightarrow> (\<forall>d \<in> set (ob_children b). cd_id d \<noteq> [])"
    unfolding ids by (force simp: image_iff)
  ultimately show ?thesis using r by (auto simp: validate_children_ok)
qed

lemma accumulated_outline:
  assumes acc: "accumulated \<rho> w rs c n actors xs b ps"
    and cfg: "cfg = ordered_config (b\<lparr>ob_children := map (apply_defaults (ob_default_child_restart b)
          (ob_default_child_shutdown b)) (ob_children b)\<rparr>)"
  shows "lowered_outline w (Lowered cfg n actors ps) = outline (OrderedNode c xs)"
    and "ss_children (initial_snapshot cfg) = projected_children (map (projection c) xs)"
proof -
  note D = accumulatedD [OF acc]
  have b: "ob_strategy b = sc_strategy c" "ob_default_child_restart b = sc_default_child_restart c"
    "ob_default_child_shutdown b = sc_default_child_shutdown c"
    using acc by (simp_all add: accumulated_def)
  let ?f = "apply_defaults (sc_default_child_restart c) (sc_default_child_shutdown c)"
  have "map (\<lambda>(f, d). f d) (zip (map (payload_outline w) ps) (map ?f (ob_children b)))
      = map (outline_of_child (sc_default_child_restart c) (sc_default_child_shutdown c)
          (sc_default_actor_mailbox_shutdown c)) xs"
    using D(3-5) by (intro nth_equalityI) (auto simp: child_rel_def)
  then show "lowered_outline w (Lowered cfg n actors ps) = outline (OrderedNode c xs)"
    by (simp add: cfg b ordered_config_def D(2) runtime_config_def)
  have "map (projection c) xs = map (\<lambda>d. (cd_id d, cd_restart (?f d), cd_remove_on_terminal_exit d)) (ob_children b)"
    using D(3-5) by (intro nth_equalityI) (auto simp: child_rel_def)
  then show "ss_children (initial_snapshot cfg) = projected_children (map (projection c) xs)"
    by (simp add: cfg b ordered_config_def initial_snapshot_def projected_children_def declared_child_def
        enumerate_eq_zip zip_map2 case_prod_unfold)
qed

lemma lower_dynamic_post:
  assumes rs: "reserved w rs" "agrees \<rho> rs" "covers rs (scopes (DynamicNode c))" and "sc_strategy c = OneForOne"
  shows "lower_post \<rho> (DynamicNode c) w rs (lower_dynamic c (w, rs))"
proof (cases "sc_default_actor_mailbox_capacity c = 0")
  case True
  then show ?thesis by (simp add: lower_dynamic_def lower_post_def abandons_def)
next
  case cap: False
  have S: "covers rs ((sc_reservation c, Dynamic) # [])" using rs(3) by simp
  obtain r w1 rs1 where o: "r \<in> set rs" "sc_reservation c = Some (sr_id r)" "fits Dynamic r"
    "take_reservation c (w, rs) = (Some r, (w, rs1))" "scope_state c (Some r) (w, rs1) = (sr_actors r, (w1, rs1))"
    "consumes w rs [(sc_reservation c, Dynamic)] w1 rs1" "live w1 (chan r)"
    "w_states w1 ! sr_actors r = runtime_config c" "used rs [(sc_reservation c, Dynamic)] = {r}" "links w1 = links w"
    by (rule open_scope [OF rs(1) S])
  from o(3) obtain b n where b: "sr_builder r = ReservedDynamic (Some (b, n))" by auto
  then have n: "chan r = n" by (simp add: chan_def)
  let ?b = "b\<lparr>db_default_child_restart := sc_default_child_restart c, db_default_child_shutdown := sc_default_child_shutdown c\<rparr>"
  have \<rho>: "\<rho> (sr_id r) = r" using rs(2) o(1) by (simp add: agrees_def)
  have run: "lower_dynamic c (w, rs) = and_then (in_store (owned_build (build_dynamic ?b) n))
      (\<lambda>cfg. return_ok (Lowered cfg n (sr_actors r) [])) (w1, rs1)"
    using cap o(4,5) b by (simp add: lower_dynamic_def owned_dynamic_for_def)
  show ?thesis
  proof (cases "restart_validate (sc_default_child_restart c)")
    case (Inl e)
    have len: "length (w_identities w1) = length (w_identities w)" "set rs1 = set rs - {r}"
      using o(6,9) by (auto simp: consumes_def keeps_def)
    have "n < length (w_identities w1)" using o(7) n by (simp add: live_def)
    then have "ended (terminate_identity n w1) (chan r)" by (simp only: n ended_self)
    then have "abandons {} (unambiguous (DynamicNode c)) w rs (terminate_identity n w1) rs1"
      using len o(10) by (auto simp: abandons_def)
    with Inl run show ?thesis
      by (simp add: lower_post_def build_dynamic_def owned_build_def in_store_def and_then_def)
  next
    case (Inr u)
    have built: "build_dynamic ?b = Inr (dynamic_config ?b)" using Inr by (simp add: build_dynamic_def)
    have "live w1 n" using o(7) n by simp
    from build_published [OF this built] obtain w2 where
      w2: "owned_build (build_dynamic ?b) n w1 = (Inr (dynamic_config ?b), w2)" "keeps {n} {} w1 w2" by blast
    have "consumes w rs [(sc_reservation c, Dynamic)] w2 rs1"
      by (rule consumes_within [OF o(6) w2(2)]) (simp_all add: o(9) n)
    moreover have "w_states w2 ! sr_actors r = runtime_config c" using keeps_states [OF w2(2)] o(8) by simp
    ultimately show ?thesis
      using run w2(1) Inr cap o(2) n \<rho> assms(4)
      by (simp add: lower_post_def in_store_def and_then_def return_ok_def dynamic_config_def runtime_config_def
          initial_snapshot_def projected_children_def)
  qed
qed

text \<open>Applying the scope's defaults changes neither the ids nor the identities of the children.\<close>

lemma nested_defaults [simp]: "nested_identity (apply_defaults r s d) = nested_identity d"
  by (auto simp: nested_identity_def apply_defaults_def Let_def split: child_kind.split)

lemma prepared_defaults:
  "prepared_channels (ordered_config (b\<lparr>ob_children := map (apply_defaults r s) (ob_children b)\<rparr>))
    = prepared_channels (ordered_config b)"
  by (simp add: prepared_channels_def ordered_config_def List.map_filter_def comp_def filter_map)

lemma finish_ordered_post:
  assumes acc: "accumulated \<rho> w2 rs2 c n actors cs b ps"
    and k: "consumes w rs (scopes (OrderedNode c cs)) w2 rs2" and rs: "agrees \<rho> rs" "covers rs (scopes (OrderedNode c cs))"
    and n: "n = chan (\<rho> (the (sc_reservation c)))" "actors = sr_actors (\<rho> (the (sc_reservation c)))"
    and ok: "list_all valid_child cs" "sc_default_actor_mailbox_capacity c \<noteq> 0"
  shows "lower_post \<rho> (OrderedNode c cs) w rs (finish_ordered actors ((b, n), ps) (w2, rs2))"
proof -
  note D = accumulatedD [OF acc]
  let ?S = "scopes (OrderedNode c cs)"
  have rel: "payload_ids (ps ! j) = ids_of \<rho> (child_scopes (cs ! j))"
    "payload_actors (ps ! j) = actors_of \<rho> (child_scopes (cs ! j))" if "j < length cs" for j
    using D(5) that by (auto simp: child_rel_def)
  have "map payload_ids ps = map (\<lambda>x. ids_of \<rho> (child_scopes x)) cs"
    "map payload_actors ps = map (\<lambda>x. actors_of \<rho> (child_scopes x)) cs"
    by (rule nth_equalityI; simp add: D(4) rel)+
  then have ids: "n # concat (map payload_ids ps) = ids_of \<rho> ?S"
    "actors # concat (map payload_actors ps) = actors_of \<rho> ?S"
    by (simp_all add: n ids_of_concat comp_def)
  have used: "set (n # concat (map payload_ids ps)) = chan ` used rs ?S" using set_ids_of(1) [OF rs] ids(1) by simp
  have b: "ob_default_child_restart b = sc_default_child_restart c" using acc by (simp add: accumulated_def)
  show ?thesis
  proof (cases "build_ordered b")
    case (Inl e)
    have "\<not> valid_node (OrderedNode c cs)"
      using Inl accumulated_valid [OF acc] b build_ordered_ok [of b] by (auto simp: build_ordered_def)
    moreover have "abandons {} (unambiguous (OrderedNode c cs)) w rs (terminate_identity n w2) rs2"
      (is "abandons {} ?U w rs ?w rs2")
    proof -
      have sub: "set rs2 = set rs - used rs ?S" "keeps (chan ` used rs ?S) (sr_actors ` used rs ?S) w w2"
        using k by (auto simp: consumes_def)
      have "ended ?w (chan r)" if "?U" "r \<in> set rs - set rs2" for r
      proof -
        have "chan r \<in> chan ` used rs ?S" using that(2) sub(1) by blast
        then have "chan r \<in> set (n # concat (map payload_ids ps))" using used by blast
        with accumulated_ends [OF acc refl refl] that(1) show ?thesis by auto
      qed
      moreover have "links ?w m = links w m" if "m \<notin> {} \<union> chan ` set rs" for m
      proof -
        have "m \<notin> chan ` used rs ?S" using that by (auto simp: used_def)
        then show ?thesis using keeps_links [OF sub(2)] by simp
      qed
      moreover have "set rs2 \<subseteq> set rs" using sub(1) by blast
      ultimately show ?thesis using keeps_length(1) [OF sub(2)] unfolding abandons_def by simp
    qed
    ultimately show ?thesis
      using Inl by (simp add: finish_ordered_def lower_post_def owned_build_def in_store_def and_then_def)
  next
    case (Inr cfg)
    from build_published [OF D(1) Inr] obtain w3 where
      w3: "owned_build (build_ordered b) n w2 = (Inr cfg, w3)" "keeps {n} {} w2 w3"
      "links w3 n = map snd (prepared_channels cfg)" by blast
    have cfg: "cfg = ordered_config (b\<lparr>ob_children := map (apply_defaults (ob_default_child_restart b)
          (ob_default_child_shutdown b)) (ob_children b)\<rparr>)"
      and v: "restart_validate (sc_default_child_restart c) = Inr ()" "validate_children [] (ob_children b) = Inr ()"
      using Inr b by (simp_all add: build_ordered_ok)
    have "valid_node (OrderedNode c cs)" using v ok accumulated_valid [OF acc] by simp
    moreover have "consumes w rs ?S w3 rs2"
      by (rule consumes_within [OF k w3(2)]) (use used in auto)
    moreover have "lowered_outline w3 (Lowered cfg n actors ps) = lowered_outline w2 (Lowered cfg n actors ps)"
      by (rule lowered_outline_cong(1)) (use keeps_states [OF w3(2)] in simp)
    moreover have "linked (links w3) (Lowered cfg n actors ps)" if "unambiguous (OrderedNode c cs)"
    proof (rule accumulated_linked [OF acc])
      have "links w3 n = links w2 n" using w3(3) D(6) by (simp add: prepared_defaults cfg)
      then show "links w3 m = links w2 m" for m using keeps_links [OF w3(2), of m] by (cases "m = n") auto
    qed (use that in simp_all)
    ultimately show ?thesis
      using w3(1) Inr ids accumulated_outline [OF acc cfg]
      by (simp add: finish_ordered_def lower_post_def in_store_def and_then_def return_ok_def)
  qed
qed

text \<open>The scope's own builder, before any child is lowered.\<close>

lemma accumulated_start:
  assumes "live w n" "w_states w ! actors = runtime_config c" "ob_children b = []"
    and "n \<notin> chan ` set rs" "actors \<notin> sr_actors ` set rs"
  shows "\<exists>w' b'. builder_strategy (sc_strategy c) (b, n) w = (Inr (b', n), w') \<and> keeps {n} {} w w'
    \<and> accumulated \<rho> w' rs c n actors []
        (fst (builder_defaults (sc_default_child_restart c) (sc_default_child_shutdown c) (b', n))) []"
proof -
  let ?b = "b\<lparr>ob_strategy := sc_strategy c\<rparr>"
  let ?d = "fst (builder_defaults (sc_default_child_restart c) (sc_default_child_shutdown c) (?b, n))"
  obtain w' where w': "refresh_declaration (?b, n) w = (Inr (?b, n), w')" "keeps {n} {} w w'"
    "links w' n = map snd (prepared_channels (ordered_config ?b))"
    using refresh_builder [OF assms(1)] by blast
  have "prepared_channels (ordered_config ?b) = prepared_channels (ordered_config ?d)"
    by (rule prepared_children) (simp add: ordered_config_def builder_defaults_def)
  then have "accumulated \<rho> w' rs c n actors [] ?d []"
    using assms w'(3) keeps_live [OF w'(2)] keeps_states [OF w'(2)]
    by (simp add: accumulated_def builder_defaults_def)
  then show ?thesis using w'(1,2) by (auto simp: builder_strategy_def)
qed

lemma reserved_keeps:
  assumes "keeps N A w w'" "reserved w rs" "set rs' \<subseteq> set rs" "distinct rs'"
  shows "reserved w' rs'"
proof -
  have "inj_on sr_id (set rs')" "inj_on chan (set rs')" "inj_on sr_actors (set rs')"
    using assms(2) by (simp_all add: reserved_def inj_on_subset [OF _ assms(3)])
  moreover have "\<forall>r \<in> set rs'. live w' (chan r) \<and> sr_actors r < length (w_states w')"
    using assms(2,3) keeps_live [OF assms(1)] keeps_length(2) [OF assms(1)] by (auto simp: reserved_def)
  ultimately show ?thesis using assms(4) by (simp add: reserved_def)
qed

lemma covers_rest:
  assumes "set rs' = set rs - used rs S" "covers rs (S @ T)"
  shows "covers rs' T"
  unfolding covers_def
proof safe
  show "distinct (map fst T)" using assms(2) by (simp add: covers_def)
  fix i k assume ik: "(i, k) \<in> set T"
  then obtain r where "r \<in> set rs" "i = Some (sr_id r)" "fits k r"
    using coversD [OF assms(2), of i k] by auto
  moreover have "i \<in> fst ` set T" using ik by (rule image_eqI [rotated]) simp
  then have "i \<notin> fst ` set S" using assms(2) by (auto simp: covers_def)
  ultimately show "\<exists>r \<in> set rs'. i = Some (sr_id r) \<and> fits k r" using assms(1) by (auto simp: used_def)
qed

lemma abandons_opened:
  assumes ab: "abandons {n} U w1 rs1 w2 rs2" and k: "consumes w rs S w1 rs1"
    and "used rs S = {r}" "chan r = n" "U \<longrightarrow> ended w2 n" "V \<Longrightarrow> U"
  shows "abandons {} V w rs w2 rs2"
proof -
  have sub: "set rs1 = set rs - {r}" and kp: "keeps {n} (sr_actors ` {r}) w w1"
    using k assms(3,4) by (auto simp: consumes_def)
  have r: "r \<in> set rs" using assms(3) by (auto simp: used_def)
  have "links w2 m = links w m" if "m \<notin> {} \<union> chan ` set rs" for m
  proof -
    have "m \<noteq> n" "m \<notin> chan ` set rs1" using that r assms(4) sub by auto
    then show ?thesis using ab keeps_links [OF kp, of m] by (simp add: abandons_def)
  qed
  moreover have "ended w2 (chan q)" if "V" "q \<in> set rs - set rs2" for q
    using that ab assms(4-6) sub by (cases "q = r") (auto simp: abandons_def)
  moreover have "set rs2 \<subseteq> set rs" "length (w_identities w2) = length (w_identities w)"
    using ab sub keeps_length(1) [OF kp] by (auto simp: abandons_def)
  ultimately show ?thesis unfolding abandons_def by blast
qed

lemma children_lowered:
  assumes "\<And>x c actors n xs b ps w rs. \<lbrakk>x \<in> set ys; accumulated \<rho> w rs c n actors xs b ps; reserved w rs;
      agrees \<rho> rs; covers rs (child_scopes x)\<rbrakk>
    \<Longrightarrow> child_post \<rho> c actors n xs x ps w rs (lower_child c actors x (b, n) (w, rs))"
    and "accumulated \<rho> w rs c n actors xs b ps" "reserved w rs" "agrees \<rho> rs"
    and "covers rs (concat (map child_scopes ys))"
  shows "children_post \<rho> c actors n xs ys ps w rs (lower_children c actors ys ((b, n), ps) (w, rs))"
  using assms
proof (induction ys arbitrary: xs b ps w rs)
  case Nil
  have "distinct rs" using Nil.prems(3) by (simp add: reserved_def)
  with children_post_Nil [OF Nil.prems(2)] show ?case by simp
next
  case (Cons y ys)
  have "covers rs (child_scopes y)" using Cons.prems(5) by simp
  then have y: "child_post \<rho> c actors n xs y ps w rs (lower_child c actors y (b, n) (w, rs))"
    using Cons.prems(1) [of y] Cons.prems(2-4) by simp
  obtain res s where low: "lower_child c actors y (b, n) (w, rs) = (res, s)" by (metis prod.exhaust)
  show ?case
  proof (cases res)
    case (Inl e)
    with y low children_post_fail show ?thesis by simp
  next
    case (Inr z)
    obtain b' n' p w1 rs1 where z: "z = ((b', n'), p)" "s = (w1, rs1)" by (metis prod.exhaust)
    have child: "child_post \<rho> c actors n xs y ps w rs (Inr ((b', n'), p), (w1, rs1))" using y low Inr z by simp
    then have f: "n' = n" "distinct rs1" "set rs1 = set rs - used rs (child_scopes y)"
      "keeps (insert n (chan ` used rs (child_scopes y))) (sr_actors ` used rs (child_scopes y)) w w1"
      "accumulated \<rho> w1 rs1 c n actors (xs @ [y]) b' (ps @ [p])"
      by (auto simp: child_post_def)
    have sub: "set rs1 \<subseteq> set rs" using f(3) by blast
    have rs1: "reserved w1 rs1" by (rule reserved_keeps [OF f(4) Cons.prems(3) sub f(2)])
    have "agrees \<rho> rs1" using Cons.prems(4) sub by (auto simp: agrees_def)
    moreover have "covers rs1 (concat (map child_scopes ys))"
      by (rule covers_rest [OF f(3)]) (use Cons.prems(5) in simp)
    ultimately have "children_post \<rho> c actors n (xs @ [y]) ys (ps @ [p]) w1 rs1
        (lower_children c actors ys ((b', n), ps @ [p]) (w1, rs1))"
      using Cons.IH [of w1 rs1 "xs @ [y]" b' "ps @ [p]"] Cons.prems(1) f(5) rs1 by simp
    from children_post_Cons [OF Cons.prems(3-5) child this] low Inr z f(1) show ?thesis by simp
  qed
qed

lemma lower_ordered_post:
  fixes cs :: "'m supervision_child list"
  assumes rs: "reserved w rs" "agrees \<rho> rs" "covers rs (scopes (OrderedNode c cs))"
    and post: "\<And>x c actors n xs b ps w rs. \<lbrakk>x \<in> set cs; accumulated \<rho> w rs c n actors xs b ps; reserved w rs;
      agrees \<rho> rs; covers rs (child_scopes x)\<rbrakk>
    \<Longrightarrow> child_post \<rho> c actors n xs x ps w rs (lower_child c actors x (b, n) (w, rs))"
  shows "lower_post \<rho> (OrderedNode c cs) w rs (lower (OrderedNode c cs) (w, rs))"
proof (cases "sc_default_actor_mailbox_capacity c = 0")
  case True
  then show ?thesis by (simp add: lower_post_def abandons_def)
next
  case cap: False
  let ?S = "[(sc_reservation c, Ordered)]" and ?T = "concat (map child_scopes cs)"
  have S: "covers rs ((sc_reservation c, Ordered) # ?T)" using rs(3) by simp
  obtain r w1 rs1 where o: "r \<in> set rs" "sc_reservation c = Some (sr_id r)" "fits Ordered r"
    "take_reservation c (w, rs) = (Some r, (w, rs1))" "scope_state c (Some r) (w, rs1) = (sr_actors r, (w1, rs1))"
    "consumes w rs ?S w1 rs1" "live w1 (chan r)"
    "w_states w1 ! sr_actors r = runtime_config c" "used rs ?S = {r}" "links w1 = links w"
    by (rule open_scope [OF rs(1) S])
  from o(3) obtain b n where b: "sr_builder r = ReservedOrdered (Some (b, n))" "ob_children b = []" by auto
  then have n: "chan r = n" by (simp add: chan_def)
  have \<rho>: "\<rho> (sr_id r) = r" using rs(2) o(1) by (simp add: agrees_def)
  have rs1: "set rs1 = set rs - {r}" "reserved w1 rs1"
    using o(6,9) consumes_reserved [OF o(6) rs(1)] by (auto simp: consumes_def)
  have "n \<notin> chan ` set rs1" "sr_actors r \<notin> sr_actors ` set rs1"
    using rs(1) rs1(1) o(1) unfolding n [symmetric] by (auto simp: reserved_def dest: inj_onD)
  from accumulated_start [OF _ o(8) b(2) this, of \<rho>] o(7) obtain w2 b' where
    w2: "builder_strategy (sc_strategy c) (b, n) w1 = (Inr (b', n), w2)" "keeps {n} {} w1 w2"
    and acc: "accumulated \<rho> w2 rs1 c n (sr_actors r) ([] :: 'm supervision_child list)
        (fst (builder_defaults (sc_default_child_restart c) (sc_default_child_shutdown c) (b', n))) []"
    unfolding n by blast
  have k2: "consumes w rs ?S w2 rs1" by (rule consumes_within [OF o(6) w2(2)]) (simp_all add: o(9) n)
  define b2 where "b2 = fst (builder_defaults (sc_default_child_restart c) (sc_default_child_shutdown c) (b', n))"
  obtain res w3 rs3 where low: "lower_children c (sr_actors r) cs ((b2, n), []) (w2, rs1) = (res, (w3, rs3))"
    by (metis prod.exhaust)
  have run: "lower (OrderedNode c cs) (w, rs) =
      (case res of Inl e \<Rightarrow> (Inl e, (w3, rs3)) | Inr bp \<Rightarrow> finish_ordered (sr_actors r) bp (w3, rs3))"
    using cap o(4,5) b(1) w2(1) low
    by (simp add: owned_ordered_for_def in_store_def b2_def builder_defaults_def split: sum.split)
  have agr: "agrees \<rho> rs1" using rs(2) rs1(1) by (simp add: agrees_def)
  have "covers rs1 ?T" using consumes_covers [OF k2, of ?T] rs(3) by simp
  from children_lowered [OF post acc [folded b2_def] consumes_reserved [OF k2 rs(1)] agr this] low
  have cp: "children_post \<rho> c (sr_actors r) n [] cs [] w2 rs1 (res, (w3, rs3))" by simp
  show ?thesis
  proof (cases res)
    case (Inl e)
    with cp obtain e' where e: "e = TreeBuild e'" "\<not> list_all valid_child cs"
      "abandons {n} (told_apart cs) w2 rs1 w3 rs3" "told_apart cs \<longrightarrow> ended w3 n"
      by (cases e) (auto simp: children_post_def Let_def)
    have "abandons {} (unambiguous (OrderedNode c cs)) w rs w3 rs3"
      by (rule abandons_opened [OF e(3) k2 o(9) n e(4)]) (simp add: told_apart_def)
    with run Inl e(1,2) show ?thesis by (simp add: lower_post_def)
  next
    case (Inr bp)
    obtain b3 n3 ps3 where bp: "bp = ((b3, n3), ps3)" by (metis prod.exhaust)
    with cp Inr have f: "list_all valid_child cs" "n3 = n" "distinct rs3" "set rs3 = set rs1 - used rs1 ?T"
      "keeps (insert n (chan ` used rs1 ?T)) (sr_actors ` used rs1 ?T) w2 w3"
      "accumulated \<rho> w3 rs3 c n (sr_actors r) cs b3 ps3"
      by (auto simp: children_post_def Let_def)
    have u: "used rs (?S @ ?T) = used rs ?S \<union> used rs1 ?T" by (rule used_rest(1) [OF k2])
    have "consumes w rs (?S @ ?T) w3 rs3"
      using k2 keeps_trans [of "{n}" "{sr_actors r}" w w2 "insert n (chan ` used rs1 ?T)" "sr_actors ` used rs1 ?T" w3] f rs1(1)
      unfolding consumes_def u o(9) by (auto simp: n insert_absorb)
    then have k3: "consumes w rs (scopes (OrderedNode c cs)) w3 rs3" by simp
    have "n = chan (\<rho> (the (sc_reservation c)))" "sr_actors r = sr_actors (\<rho> (the (sc_reservation c)))"
      using o(2) \<rho> n by simp_all
    from finish_ordered_post [OF f(6) k3 rs(2,3) this f(1) cap] run Inr bp f(2) show ?thesis by simp
  qed
qed

theorem lower_meets_post:
  fixes nd :: "'m scope_node" and x :: "'m supervision_child" and xs :: "'m supervision_child list"
  shows "\<lbrakk>proper_node nd; reserved w rs; agrees \<rho> rs; covers rs (scopes nd)\<rbrakk> \<Longrightarrow> lower_post \<rho> nd w rs (lower nd (w, rs))"
    and "\<lbrakk>proper_child x; accumulated \<rho> w rs c n actors xs b ps; reserved w rs; agrees \<rho> rs; covers rs (child_scopes x)\<rbrakk>
      \<Longrightarrow> child_post \<rho> c actors n xs x ps w rs (lower_child c actors x (b, n) (w, rs))"
proof (induction nd and x arbitrary: w rs and w rs c n actors xs b ps)
  case (OrderedNode c cs)
  show ?case
  proof (rule lower_ordered_post [OF OrderedNode.prems(2-4)])
    fix x :: "'m supervision_child" and c actors n b ps w rs and xs :: "'m supervision_child list"
    assume x: "x \<in> set cs" "accumulated \<rho> w rs c n actors xs b ps" "reserved w rs" "agrees \<rho> rs" "covers rs (child_scopes x)"
    have "proper_child x" using OrderedNode.prems(1) x(1) by (simp add: list_all_iff)
    with OrderedNode.IH x show "child_post \<rho> c actors n xs x ps w rs (lower_child c actors x (b, n) (w, rs))" by blast
  qed
next
  case (DynamicNode c)
  then show ?case using lower_dynamic_post [of w rs \<rho> c] by simp
next
  case (ActorChild a)
  then obtain f where "an_actor a = None" "an_deferred a = Some f" by auto
  with lower_actor_post [OF ActorChild.prems(2)] ActorChild.prems(3) show ?case by (simp add: reserved_def)
next
  case (TaskChild d)
  with lower_task_post [OF TaskChild.prems(2)] show ?case by (simp add: reserved_def)
next
  case (ScopeChild i nd restart sd)
  have "lower_post \<rho> nd w rs (lower nd (w, rs))" using ScopeChild by simp
  with lower_scope_post [OF ScopeChild.prems(2-4)] ScopeChild.prems(5) show ?case by simp
qed

end
