(* ===== verification/Forest.thy ===== *)
theory Forest
  imports Tree_Properties
begin

text \<open>
  The trees a program declares through the public operations of \<open>supervision.rs\<close>: any sequence of
  operations on any number of trees, none of which panics, and what spawning one of the
  trees does.  An operation that the types of the crate rule out (a child for a dynamic tree, a
  consumed tree used again) is skipped.
\<close>

section \<open>Sequences of operations\<close>

record 'm forest =
  fo_store :: store
  fo_trees :: "'m identity_tree option list"

definition forest_new :: "'m forest" where
  "forest_new = \<lparr>fo_store = store_new, fo_trees = []\<rparr>"

datatype 'm tree_op =
    OpNew
  | OpNewDynamic
  | OpConfigure nat config_op
  | OpActor nat "'m actor_spec"
  | OpTask nat child_definition
  | OpSubtree nat string nat "restart_policy option" "shutdown option"

definition tree_at :: "nat \<Rightarrow> 'm forest \<Rightarrow> 'm identity_tree option" where
  "tree_at k f = (if k < length (fo_trees f) then fo_trees f ! k else None)"

definition is_ordered :: "'m identity_tree \<Rightarrow> bool" where
  "is_ordered t \<longleftrightarrow> node_kind (it_node t) = Ordered"

fun sets_strategy :: "config_op \<Rightarrow> bool" where
  "sets_strategy (SetStrategy s) = True"
| "sets_strategy _ = False"

text \<open>Running an operation on one tree; \<^const>\<open>None\<close> is a panic.\<close>

definition at_tree ::
    "nat \<Rightarrow> ('m identity_tree \<Rightarrow> bool) \<Rightarrow> ('m identity_tree \<Rightarrow> (store, tree_error, 'm identity_tree) run) \<Rightarrow>
     'm forest \<Rightarrow> 'm forest option" where
  "at_tree k P m f =
     (case tree_at k f of
        None \<Rightarrow> Some f
      | Some t \<Rightarrow>
          if \<not> P t then Some f
          else (case m t (fo_store f) of
                  (Inl _, _) \<Rightarrow> None
                | (Inr t', w) \<Rightarrow> Some (f\<lparr>fo_store := w, fo_trees := (fo_trees f)[k := Some t']\<rparr>)))"

definition plant :: "(store, tree_error, 'm identity_tree) run \<Rightarrow> 'm forest \<Rightarrow> 'm forest option" where
  "plant m f =
     (case m (fo_store f) of
        (Inl _, _) \<Rightarrow> None
      | (Inr t, w) \<Rightarrow> Some (f\<lparr>fo_store := w, fo_trees := fo_trees f @ [Some t]\<rparr>))"

fun forest_step :: "'m tree_op \<Rightarrow> 'm forest \<Rightarrow> 'm forest option" where
  "forest_step OpNew f = plant tree_new f"
| "forest_step OpNewDynamic f = plant dynamic_tree_new f"
| "forest_step (OpConfigure k op) f = at_tree k (\<lambda>t. is_ordered t \<or> \<not> sets_strategy op) (configure_tree op) f"
| "forest_step (OpActor k a) f =
     at_tree k is_ordered (\<lambda>t. and_then (add_actor_spec a t) (\<lambda>(b, t'). return_ok t')) f"
| "forest_step (OpTask k d) f =
     at_tree k (\<lambda>t. is_ordered t \<and> cd_kind d = ChildTask)
       (\<lambda>t. and_then (add_task_spec d t) (\<lambda>(l, t'). return_ok t')) f"
| "forest_step (OpSubtree k i j restart sd) f =
     (case (tree_at k f, tree_at j f) of
        (Some t, Some sub) \<Rightarrow>
          if j = k \<or> \<not> is_ordered t then Some f
          else at_tree k is_ordered (add_subtree_spec i sub restart sd)
                 (f\<lparr>fo_trees := (fo_trees f)[j := None]\<rparr>)
      | _ \<Rightarrow> Some f)"

fun forest_run :: "'m tree_op list \<Rightarrow> 'm forest \<Rightarrow> 'm forest option" where
  "forest_run [] f = Some f"
| "forest_run (op # ops) f = Option.bind (forest_step op f) (forest_run ops)"

section \<open>Well-formed trees\<close>

definition well_reserved :: "store \<Rightarrow> 'm identity_tree \<Rightarrow> bool" where
  "well_reserved w t \<longleftrightarrow> reserved w (it_reservations t) \<and> proper_node (it_node t)
     \<and> covers (it_reservations t) (scopes (it_node t))
     \<and> used (it_reservations t) (scopes (it_node t)) = set (it_reservations t)"

text \<open>The tree's scope handle shows the declared children, in order and with their policies.\<close>

definition shown_children :: "nat \<Rightarrow> store \<Rightarrow> child_snapshot list" where
  "shown_children n w = ss_children (st_snapshot (channels_at n w))"

definition declared_view :: "'m scope_node \<Rightarrow> child_snapshot list" where
  "declared_view node = projected_children (map (projection (node_config node)) (declared_children node))"

definition shows_children :: "store \<Rightarrow> 'm identity_tree \<Rightarrow> bool" where
  "shows_children w t \<longleftrightarrow> (\<exists>n. tree_scope t = Some n \<and> shown_children n w = declared_view (it_node t))"

definition same_reservation :: "scope_reservation \<Rightarrow> scope_reservation \<Rightarrow> bool" where
  "same_reservation r r' \<longleftrightarrow> sr_id r' = sr_id r \<and> chan r' = chan r \<and> sr_actors r' = sr_actors r
     \<and> (\<forall>k. fits k r \<longrightarrow> fits k r')"

lemma same_reservation_refl [simp]: "same_reservation r r"
  by (simp add: same_reservation_def)

lemma reserved_iff:
  "reserved w rs \<longleftrightarrow> distinct (map sr_id rs) \<and> distinct (map chan rs) \<and> distinct (map sr_actors rs)
     \<and> (\<forall>r \<in> set rs. live w (chan r) \<and> sr_actors r < length (w_states w))"
  by (auto simp: reserved_def distinct_map)

lemma same_keys:
  assumes "list_all2 same_reservation rs rs'"
  shows "map sr_id rs' = map sr_id rs" "map chan rs' = map chan rs" "map sr_actors rs' = map sr_actors rs"
  using assms by (induction rule: list_all2_induct) (auto simp: same_reservation_def)

lemma same_sets:
  assumes "list_all2 same_reservation rs rs'"
  shows "sr_id ` set rs' = sr_id ` set rs" "chan ` set rs' = chan ` set rs" "sr_actors ` set rs' = sr_actors ` set rs"
  using same_keys [OF assms] by (metis list.set_map)+

lemma same_member:
  assumes "list_all2 same_reservation rs rs'" "r \<in> set rs"
  shows "\<exists>r' \<in> set rs'. same_reservation r r'"
  using assms by (induction rule: list_all2_induct) auto

lemma reserved_same:
  assumes "list_all2 same_reservation rs rs'" "reserved w rs" "keeps N A w w'"
  shows "reserved w' rs'"
proof -
  have "live w' (chan r) \<and> sr_actors r < length (w_states w')" if "r \<in> set rs'" for r
  proof -
    have "chan r \<in> chan ` set rs" "sr_actors r \<in> sr_actors ` set rs" using that same_sets [OF assms(1)] by auto
    then show ?thesis using assms(2) keeps_live [OF assms(3)] keeps_length(2) [OF assms(3)] by (auto simp: reserved_def)
  qed
  then show ?thesis using assms(2) same_keys [OF assms(1)] by (simp add: reserved_iff)
qed

lemma covers_same:
  assumes "list_all2 same_reservation rs rs'" "covers rs S"
  shows "covers rs' S"
  unfolding covers_def
proof safe
  show "distinct (map fst S)" using assms(2) by (simp add: covers_def)
  fix i k assume "(i, k) \<in> set S"
  then obtain r where "r \<in> set rs" "i = Some (sr_id r)" "fits k r" using coversD [OF assms(2)] by blast
  moreover from same_member [OF assms(1) this(1)] obtain r' where "r' \<in> set rs'" "same_reservation r r'" by blast
  ultimately show "\<exists>r \<in> set rs'. i = Some (sr_id r) \<and> fits k r" unfolding same_reservation_def by metis
qed

lemma all_used: "used rs S = set rs \<longleftrightarrow> sr_id ` set rs \<subseteq> {i. Some i \<in> fst ` set S}"
  by (auto simp: used_def)

lemma well_reserved_same:
  assumes "well_reserved w t" "keeps N A w w'" "it_node t' = it_node t"
    "list_all2 same_reservation (it_reservations t) (it_reservations t')"
  shows "well_reserved w' t'"
  using assms reserved_same [OF assms(4) _ assms(2)] covers_same [OF assms(4)] same_sets(1) [OF assms(4)]
  by (simp add: well_reserved_def all_used)

section \<open>Refreshing the root of a tree\<close>

lemma scopes_head: "\<exists>S. scopes node = (sc_reservation (node_config node), node_kind node) # S"
  by (cases node) simp_all

lemma root_reserved:
  assumes "well_reserved w t"
  obtains k r where "root_position t = Some k" "k < length (it_reservations t)" "it_reservations t ! k = r"
    "r \<in> set (it_reservations t)" "fits (node_kind (it_node t)) r" "live w (chan r)"
    "sr_actors r < length (w_states w)" "tree_scope t = Some (chan r)"
proof -
  let ?rs = "it_reservations t" and ?c = "node_config (it_node t)"
  have w: "reserved w ?rs" "covers ?rs (scopes (it_node t))" using assms by (simp_all add: well_reserved_def)
  from scopes_head [of "it_node t"] coversD [OF w(2)] obtain r where
    r: "r \<in> set ?rs" "sc_reservation ?c = Some (sr_id r)" "fits (node_kind (it_node t)) r"
    by (metis list.set_intros(1))
  have "y = r" if "y \<in> set ?rs" "sr_id y = sr_id r" for y
    using w(1) r(1) that by (auto simp: reserved_def dest: inj_onD)
  with position_unique [OF r(1), of "\<lambda>x. sr_id x = sr_id r"] obtain k where
    k: "k < length ?rs" "position (\<lambda>x. sr_id x = sr_id r) ?rs = Some k" "?rs ! k = r" by blast
  have p: "root_position t = Some k" using k(2) r(2) by (simp add: root_position_def)
  have "reserved_channels (sr_builder r) = Some (chan r)"
    using r(3) by (cases "node_kind (it_node t)") (auto simp: chan_def)
  then have "tree_scope t = Some (chan r)" by (simp add: tree_scope_def p k(3))
  moreover have "live w (chan r)" "sr_actors r < length (w_states w)" using w(1) r(1) by (auto simp: reserved_def)
  ultimately show thesis using that p k(1,3) r(1,3) by blast
qed

lemma position_map: "position P (map f xs) = position (\<lambda>x. P (f x)) xs"
  by (induction xs) auto

lemma root_position_same:
  assumes "it_node t' = it_node t" "list_all2 same_reservation (it_reservations t) (it_reservations t')"
  shows "root_position t' = root_position t"
proof -
  have "position (\<lambda>r. sr_id r = i) (it_reservations u) = position (\<lambda>j. j = i) (map sr_id (it_reservations u))"
    for i and u :: "'a identity_tree"
    by (simp add: position_map)
  then show ?thesis using assms(1) same_keys(1) [OF assms(2)] by (simp add: root_position_def)
qed

lemma nth_same:
  assumes "same_reservation (rs ! k) r"
  shows "list_all2 same_reservation rs (rs[k := r])"
  using assms by (cases "k < length rs") (auto simp: list_all2_conv_all_nth nth_list_update list_update_beyond)

text \<open>A builder without children publishes its declaration without touching other identities.\<close>

definition only_identity :: "nat \<Rightarrow> store \<Rightarrow> store \<Rightarrow> bool" where
  "only_identity n w w' \<longleftrightarrow> (\<forall>m. m \<noteq> n \<longrightarrow> w_identities w' ! m = w_identities w ! m)
     \<and> w_next_reservation w' = w_next_reservation w"

lemma refresh_empty:
  assumes "live w n" "ob_children b = []"
  shows "\<exists>w'. refresh_declaration (b, n) w = (Inr (b, n), w') \<and> keeps {n} {} w w' \<and> only_identity n w w'"
proof -
  obtain w' where w': "refresh_declaration (b, n) w = (Inr (b, n), w')" "keeps {n} {} w w'"
    using refresh_builder [OF assms(1)] by blast
  have "only_identity n w w'"
    using w'(1) assms
    by (auto simp: refresh_declaration_def and_then_def return_ok_def refresh_declaration_for_config_def
        prepare_nested_channels_def ordered_config_def map_filter_simps only_identity_def map_identity_def
        split: option.splits)
  with w' show ?thesis by blast
qed

lemma set_children_get [simp]: "ss_children (set_children cs s) = cs"
  by (cases s) simp

lemma project_ok:
  assumes "live w n"
  shows "\<exists>w'. project_declared_children decl n w = (Inr (), w') \<and> keeps {} {} w w' \<and> only_identity n w w'
    \<and> shown_children n w' = projected_children decl"
proof -
  let ?c = "channels_at n w"
  let ?w = "map_identity n (\<lambda>x. x\<lparr>ci_channels := ?c\<lparr>st_snapshot := set_children (projected_children decl) (st_snapshot ?c)\<rparr>\<rparr>) w"
  have "project_declared_children decl n w = (Inr (), ?w)"
    using assms by (simp add: project_declared_children_def Let_def live_def dormant_def)
  moreover have "keeps {} {} w ?w" by (rule keeps_map_identity) (auto simp: dormant_def channels_at_def)
  moreover have "only_identity n w ?w" by (simp add: only_identity_def) (simp add: map_identity_def)
  moreover have "shown_children n ?w = projected_children decl"
    using assms by (simp add: shown_children_def live_def channels_at_def [of _ "map_identity n f w" for f])
  ultimately show ?thesis by blast
qed

lemma configured:
  "keeps {} {a} w (state_configure a c w)" "only_identity n w (state_configure a c w)"
  "channels_at m (state_configure a c w) = channels_at m w"
  by (auto simp: state_configure_def keeps_def live_def channels_at_def links_def only_identity_def)

lemma only_identity_trans: "only_identity n w w1 \<Longrightarrow> only_identity n w1 w2 \<Longrightarrow> only_identity n w w2"
  by (simp add: only_identity_def)

definition refreshed :: "'m identity_tree \<Rightarrow> store \<Rightarrow> 'm identity_tree \<Rightarrow> store \<Rightarrow> bool" where
  "refreshed t w t' w' \<longleftrightarrow>
     well_reserved w' t' \<and> shows_children w' t' \<and> it_node t' = it_node t
     \<and> list_all2 same_reservation (it_reservations t) (it_reservations t')
     \<and> keeps (chan ` set (it_reservations t)) (sr_actors ` set (it_reservations t)) w w'
     \<and> (\<exists>n. tree_scope t' = Some n \<and> n \<in> chan ` set (it_reservations t) \<and> only_identity n w w')"

lemma refresh_root_ok:
  assumes t: "well_reserved w t" and dyn: "\<not> is_ordered t \<Longrightarrow> shows_children w t"
  shows "\<exists>t' w'. refresh_root t w = (Inr t', w') \<and> refreshed t w t' w'"
proof -
  let ?rs = "it_reservations t" and ?c = "node_config (it_node t)"
  obtain k r where r: "root_position t = Some k" "k < length ?rs" "?rs ! k = r" "r \<in> set ?rs"
    "fits (node_kind (it_node t)) r" "live w (chan r)" "sr_actors r < length (w_states w)" "tree_scope t = Some (chan r)"
    by (rule root_reserved [OF t])
  let ?w1 = "state_configure (sr_actors r) (runtime_config ?c) w"
  note C = configured [where a = "sr_actors r" and w = w and c = "runtime_config ?c"]
  show ?thesis
  proof (cases "is_ordered t")
    case True
    with r(5) obtain b n where b: "sr_builder r = ReservedOrdered (Some (b, n))" "ob_children b = []"
      by (auto simp: is_ordered_def)
    then have n: "chan r = n" by (simp add: chan_def)
    let ?b = "b\<lparr>ob_strategy := sc_strategy ?c\<rparr>"
    have l1: "live ?w1 n" using keeps_live [OF C(1) r(6)] n by simp
    obtain w2 where w2: "refresh_declaration (?b, n) ?w1 = (Inr (?b, n), w2)" "keeps {n} {} ?w1 w2" "only_identity n ?w1 w2"
      using refresh_empty [OF l1, of ?b] b(2) by auto
    obtain w3 where w3: "project_declared_children (map (projection ?c) (declared_children (it_node t))) n w2 = (Inr (), w3)"
      "keeps {} {} w2 w3" "only_identity n w2 w3" "shown_children n w3 = declared_view (it_node t)"
      using project_ok [OF keeps_live [OF w2(2) l1]] unfolding declared_view_def by blast
    let ?t = "set_builder k (?b, n) t"
    have run: "refresh_root t w = (Inr ?t, w3)"
      using r(1,3) b w2(1) w3(1)
      by (simp add: refresh_root_def Let_def builder_strategy_def and_then_def return_ok_def)
    have same: "list_all2 same_reservation ?rs (it_reservations ?t)"
      using b r(3) by (auto simp: set_builder_def same_reservation_def chan_def intro!: nth_same elim!: fits.elims)
    have "keeps {n} {sr_actors r} w w3"
      using keeps_trans [OF keeps_trans [OF C(1) w2(2)] w3(2)] by (simp add: insert_commute)
    then have kp: "keeps (chan ` set ?rs) (sr_actors ` set ?rs) w w3"
      by (rule keeps_mono) (use r(4) n in auto)
    have node: "it_node ?t = it_node t" by (simp add: set_builder_def)
    have well: "well_reserved w3 ?t" by (rule well_reserved_same [OF t kp node same])
    have scope: "tree_scope ?t = Some n"
    proof -
      have "root_position ?t = Some k" using root_position_same [OF node same] r(1) by simp
      then show ?thesis using r(2) by (simp add: tree_scope_def set_builder_def)
    qed
    have only: "only_identity n w w3" using only_identity_trans C(2) w2(3) w3(3) by blast
    have "shows_children w3 ?t" using scope w3(4) node by (simp add: shows_children_def)
    with well same kp only scope node r(4) n have "refreshed t w ?t w3" by (auto simp: refreshed_def)
    with run show ?thesis by blast
  next
    case False
    then have "node_kind (it_node t) = Dynamic" by (cases "it_node t") (auto simp: is_ordered_def)
    with r(5) obtain b where b: "sr_builder r = ReservedDynamic (Some b)" by auto
    have run: "refresh_root t w = (Inr t, ?w1)" using r(1,3) b by (simp add: refresh_root_def Let_def)
    have kp: "keeps (chan ` set ?rs) (sr_actors ` set ?rs) w ?w1" by (rule keeps_mono [OF C(1)]) (use r(4) in auto)
    have same: "list_all2 same_reservation ?rs ?rs" by (simp add: list_all2_refl)
    have "well_reserved ?w1 t" by (rule well_reserved_same [OF t kp refl same])
    moreover have "shows_children ?w1 t" using dyn [OF False] C(3) by (simp add: shows_children_def shown_children_def)
    ultimately have "refreshed t w t ?w1" using same kp C(2) r(4,8) by (auto simp: refreshed_def)
    with run show ?thesis by blast
  qed
qed

section \<open>The operations on a tree\<close>

lemma configure_ok:
  assumes "well_reserved w t" "shows_children w t" "is_ordered t \<or> \<not> sets_strategy op"
  shows "\<exists>t' w'. configure_tree op t w = (Inr t', w') \<and> refreshed (t\<lparr>it_node := map_config (config_update op) (it_node t)\<rparr>) w t' w'"
proof -
  let ?t = "t\<lparr>it_node := map_config (config_update op) (it_node t)\<rparr>"
  have kept: "sc_reservation (config_update op c) = sc_reservation c" for c by (cases op) simp_all
  have s: "scopes (it_node ?t) = scopes (it_node t)" by (cases "it_node t") (simp_all add: kept)
  have "proper_node (it_node ?t)"
    using assms(1,3) by (cases "it_node t"; cases op) (auto simp: well_reserved_def is_ordered_def)
  then have "well_reserved w ?t" using assms(1) s by (simp add: well_reserved_def)
  moreover have "shows_children w ?t" if "\<not> is_ordered ?t"
  proof -
    have "node_kind (it_node t) \<noteq> Ordered" using that by (cases "it_node t") (simp_all add: is_ordered_def)
    then obtain c where c: "it_node t = DynamicNode c" by (cases "it_node t") simp_all
    then have "tree_scope ?t = tree_scope t" by (simp add: tree_scope_def root_position_def kept)
    then show ?thesis using assms(2) c by (simp add: shows_children_def declared_view_def)
  qed
  ultimately show ?thesis using refresh_root_ok [of w ?t] by (simp add: configure_tree_def map_tree_def)
qed

lemma add_child_ok:
  assumes t: "is_ordered t" "proper_node (it_node t)" "proper_child x"
    and rs: "reserved w (it_reservations t)" "covers (it_reservations t) (scopes (it_node t) @ child_scopes x)"
      "used (it_reservations t) (scopes (it_node t) @ child_scopes x) = set (it_reservations t)"
  shows "\<exists>t' w' node. add_child_to x t w = (Inr t', w') \<and> refreshed (t\<lparr>it_node := node\<rparr>) w t' w'
    \<and> push_child x (it_node t) = Some node"
proof -
  from t(1) obtain c cs where node: "it_node t = OrderedNode c cs"
    by (cases "it_node t") (auto simp: is_ordered_def)
  let ?node = "OrderedNode c (cs @ [x])"
  have "well_reserved w (t\<lparr>it_node := ?node\<rparr>)" "is_ordered (t\<lparr>it_node := ?node\<rparr>)"
    using t(2,3) rs node by (simp_all add: well_reserved_def is_ordered_def)
  with refresh_root_ok [of w "t\<lparr>it_node := ?node\<rparr>"] show ?thesis using node by (auto simp: add_child_to_def)
qed

lemma leaf_ok:
  assumes "well_reserved w t" "is_ordered t" "proper_child x" "child_scopes x = []"
  shows "\<exists>t' w' node. add_child_to x t w = (Inr t', w') \<and> refreshed (t\<lparr>it_node := node\<rparr>) w t' w'
    \<and> push_child x (it_node t) = Some node"
  using add_child_ok [of t x w] assms by (simp add: well_reserved_def)

lemma push_view: "push_child x (OrderedNode c cs) = Some node \<Longrightarrow> length (declared_view node) = Suc (length cs)"
  by (auto simp: declared_view_def projected_children_def)

lemma task_ok:
  assumes "well_reserved w t" "is_ordered t" "cd_kind d = ChildTask"
  shows "\<exists>l t' w' node. add_task_spec d t w = (Inr (l, t'), w') \<and> refreshed (t\<lparr>it_node := node\<rparr>) w t' w'"
proof -
  from leaf_ok [OF assms(1,2), of "TaskChild d"] assms(3) obtain t' w' node where
    t': "add_child_to (TaskChild d) t w = (Inr t', w')" "refreshed (t\<lparr>it_node := node\<rparr>) w t' w'"
    "push_child (TaskChild d) (it_node t) = Some node" by auto
  from assms(2) obtain c cs where "it_node t = OrderedNode c cs" by (cases "it_node t") (auto simp: is_ordered_def)
  with t'(3) push_view [of "TaskChild d" c cs node] have "declared_view node \<noteq> []" by auto
  with t'(2) obtain n where "tree_scope t' = Some n" "ss_children (st_snapshot (channels_at n w')) \<noteq> []"
    by (auto simp: refreshed_def shows_children_def shown_children_def)
  then have "add_task_spec d t w = (Inr (cs_lineage (last (ss_children (st_snapshot (channels_at n w')))), t'), w')"
    using t'(1) by (simp add: add_task_spec_def and_then_def split: list.split)
  with t'(2) show ?thesis by blast
qed

lemma ref_keeps: "actor_spec_ref a w = (b, a', w') \<Longrightarrow> keeps {} {} w w' \<and> only_identity n w w'"
  by (auto simp: actor_spec_ref_def binding_get_or_init_def binding_alloc_def Let_def only_identity_def
      split: option.splits prod.splits intro!: keeps_same_store)

lemma refreshed_after:
  assumes "refreshed t w1 t' w'" "keeps {} {} w w1" "\<And>n. only_identity n w w1"
  shows "refreshed t w t' w'"
proof -
  have "keeps (chan ` set (it_reservations t)) (sr_actors ` set (it_reservations t)) w w'"
    using assms(1) keeps_trans [OF assms(2)] by (auto simp: refreshed_def)
  moreover obtain n where "tree_scope t' = Some n" "n \<in> chan ` set (it_reservations t)" "only_identity n w1 w'"
    using assms(1) by (auto simp: refreshed_def)
  ultimately show ?thesis using assms(1) only_identity_trans [OF assms(3)] by (auto simp: refreshed_def)
qed

lemma actor_ok:
  assumes "well_reserved w t" "is_ordered t"
  shows "\<exists>b t' w' node. add_actor_spec a t w = (Inr (b, t'), w') \<and> refreshed (t\<lparr>it_node := node\<rparr>) w t' w'"
proof -
  obtain b a' w1 where r: "actor_spec_ref a w = (b, a', w1)" by (metis prod.exhaust)
  note k = ref_keeps [OF r]
  have "list_all2 same_reservation (it_reservations t) (it_reservations t)" by (simp add: list_all2_refl)
  then have "well_reserved w1 t" using well_reserved_same [OF assms(1) _ refl] k by blast
  from leaf_ok [OF this assms(2), of "ActorChild (into_deferred_node a')"] obtain t' w' node where
    "add_child_to (ActorChild (into_deferred_node a')) t w1 = (Inr t', w')" "refreshed (t\<lparr>it_node := node\<rparr>) w1 t' w'"
    by (auto simp: into_deferred_node_def)
  moreover from this(2) have "refreshed (t\<lparr>it_node := node\<rparr>) w t' w'" by (rule refreshed_after) (use k in auto)
  ultimately show ?thesis using r by (auto simp: add_actor_spec_def and_then_def return_ok_def)
qed

definition apart :: "'m identity_tree \<Rightarrow> 'm identity_tree \<Rightarrow> bool" where
  "apart t u \<longleftrightarrow> sr_id ` set (it_reservations t) \<inter> sr_id ` set (it_reservations u) = {}
     \<and> chan ` set (it_reservations t) \<inter> chan ` set (it_reservations u) = {}
     \<and> sr_actors ` set (it_reservations t) \<inter> sr_actors ` set (it_reservations u) = {}"

lemma subtree_ok:
  assumes t: "well_reserved w t" "is_ordered t" and sub: "well_reserved w sub" and ap: "apart t sub"
  shows "\<exists>t' w' node. add_subtree_spec i sub restart sd t w = (Inr t', w')
    \<and> refreshed (t\<lparr>it_reservations := it_reservations t @ it_reservations sub, it_node := node\<rparr>) w t' w'"
proof -
  let ?t = "t\<lparr>it_reservations := it_reservations t @ it_reservations sub\<rparr>"
  let ?S = "scopes (it_node t)" and ?T = "scopes (it_node sub)"
  have T: "reserved w (it_reservations t)" "covers (it_reservations t) ?S" "sr_id ` set (it_reservations t) \<subseteq> {i. Some i \<in> fst ` set ?S}"
    and U: "reserved w (it_reservations sub)" "covers (it_reservations sub) ?T" "sr_id ` set (it_reservations sub) \<subseteq> {i. Some i \<in> fst ` set ?T}"
    using t sub by (simp_all add: well_reserved_def all_used)
  have "reserved w (it_reservations ?t)"
    using T(1) U(1) ap unfolding reserved_iff apart_def by auto
  moreover have "covers (it_reservations ?t) (?S @ ?T)"
  proof -
    have "fst ` set ?S \<subseteq> Some ` sr_id ` set (it_reservations t)" "fst ` set ?T \<subseteq> Some ` sr_id ` set (it_reservations sub)"
      using T(2) U(2) by (auto simp: covers_def split: prod.splits) fast+
    moreover have "Some ` sr_id ` set (it_reservations t) \<inter> Some ` sr_id ` set (it_reservations sub) = {}"
      using ap by (auto simp: apart_def)
    ultimately have "fst ` set ?S \<inter> fst ` set ?T = {}" by blast
    then show ?thesis using T(2) U(2) by (auto simp: covers_def)
  qed
  moreover have "used (it_reservations ?t) (?S @ ?T) = set (it_reservations ?t)"
    unfolding all_used using T(3) U(3) by auto
  ultimately show ?thesis
    using add_child_ok [of ?t "ScopeChild i (it_node sub) restart sd" w] t sub
    by (auto simp: add_subtree_spec_def is_ordered_def well_reserved_def)
qed

section \<open>New trees\<close>

lemma dormant_new [simp]: "dormant (stable_new s a)"
  by (simp add: dormant_def stable_new_def peek_lineage_def hub_new_def)

lemma new_builders:
  "supervisor_ordered w = ((ordered_builder_new, length (w_identities w)),
     w\<lparr>w_identities := w_identities w @ [\<lparr>ci_channels = stable_new (initial_snapshot (ordered_config ordered_builder_new)) [],
        ci_nested = [], ci_terminalize_on_drop = False\<rparr>]\<rparr>)"
  "supervisor_dynamic w = ((dynamic_builder_new, length (w_identities w)),
     w\<lparr>w_identities := w_identities w @ [\<lparr>ci_channels = stable_new (initial_snapshot (dynamic_config dynamic_builder_new)) [],
        ci_nested = [], ci_terminalize_on_drop = False\<rparr>]\<rparr>)"
  by (simp_all add: supervisor_ordered_def supervisor_dynamic_def stable_channels_for_config_def
      prepare_nested_channels_def prepared_channels_def ordered_config_def dynamic_config_def ordered_builder_new_def
      initial_attached_children_def map_filter_simps)

definition grown :: "store \<Rightarrow> store \<Rightarrow> bool" where
  "grown w w' \<longleftrightarrow> (\<forall>m < length (w_identities w). w_identities w' ! m = w_identities w ! m)
     \<and> length (w_identities w) \<le> length (w_identities w') \<and> length (w_states w) \<le> length (w_states w')"

definition fresh_tree :: "store \<Rightarrow> 'm identity_tree \<Rightarrow> store \<Rightarrow> bool" where
  "fresh_tree w t w' \<longleftrightarrow> well_reserved w' t \<and> shows_children w' t \<and> grown w w'
     \<and> sr_id ` set (it_reservations t) = {w_next_reservation w}
     \<and> chan ` set (it_reservations t) = {length (w_identities w)}
     \<and> sr_actors ` set (it_reservations t) = {length (w_states w)}
     \<and> w_next_reservation w' = Suc (w_next_reservation w)"

lemma fresh_refreshed:
  assumes r: "refreshed t w1 t' w2" and "grown w w1" "w_next_reservation w1 = Suc (w_next_reservation w)"
    and "it_reservations t = [q]" "sr_id q = w_next_reservation w" "chan q = length (w_identities w)"
      "sr_actors q = length (w_states w)"
  shows "fresh_tree w t' w2"
proof -
  have same: "list_all2 same_reservation (it_reservations t) (it_reservations t')" using r by (simp add: refreshed_def)
  have k: "keeps {length (w_identities w)} {length (w_states w)} w1 w2"
    and o: "only_identity (length (w_identities w)) w1 w2"
    using r assms(4,6,7) by (auto simp: refreshed_def)
  have "grown w w2"
    using assms(2) o keeps_length [OF k] by (simp add: grown_def only_identity_def)
  then show ?thesis
    using r o same_sets [OF same] assms(3-7) by (simp add: fresh_tree_def refreshed_def only_identity_def)
qed

lemma new_tree:
  assumes "node = OrderedNode scope_config_new [] \<or> node = DynamicNode scope_config_new"
    and "Suc (w_next_reservation w) < 2 ^ 64"
  shows "\<exists>t w'. identity_tree_new node w = (Inr t, w') \<and> fresh_tree w t w'"
proof -
  let ?i = "w_next_reservation w" and ?n = "length (w_identities w)"
  let ?node = "map_config (\<lambda>c. c\<lparr>sc_reservation := Some ?i\<rparr>) node"
  let ?ordered = "node_kind node = Ordered"
  let ?cfg = "if ?ordered then ordered_config ordered_builder_new else dynamic_config dynamic_builder_new"
  let ?b = "if ?ordered then ReservedOrdered (Some (ordered_builder_new, ?n)) else ReservedDynamic (Some (dynamic_builder_new, ?n))"
  let ?w = "w\<lparr>w_next_reservation := Suc ?i, w_states := w_states w @ [runtime_config (node_config ?node)],
      w_identities := w_identities w @ [\<lparr>ci_channels = stable_new (initial_snapshot ?cfg) [], ci_nested = [],
        ci_terminalize_on_drop = False\<rparr>]\<rparr>"
  let ?q = "\<lparr>sr_id = ?i, sr_builder = ?b, sr_actors = length (w_states w)\<rparr>"
  let ?t = "\<lparr>it_node = ?node, it_reservations = [?q]\<rparr>"
  have run: "identity_tree_new node w = refresh_root ?t ?w"
    using assms by (auto simp: identity_tree_new_def Let_def state_alloc_def new_builders)
  have live: "live ?w ?n" by (simp add: live_def channels_at_def)
  have q: "chan ?q = ?n" "fits (node_kind node) ?q"
    by (cases "node_kind node"; simp add: chan_def ordered_builder_new_def)+
  have sc: "scopes ?node = [(Some ?i, node_kind node)]" using assms(1) by auto
  have "proper_node ?node" using assms(1) by (auto simp: scope_config_new_def default_strategy_def)
  moreover have "used [?q] [(Some ?i, node_kind node)] = {?q}" by (auto simp: used_def)
  ultimately have well: "well_reserved ?w ?t"
    using live q by (simp add: well_reserved_def sc reserved_iff covers_def)
  have "tree_scope ?t = Some ?n" "declared_view ?node = []"
    using assms(1) by (auto simp: tree_scope_def root_position_def declared_view_def projected_children_def)
  then have "shows_children ?w ?t"
    by (auto simp: shows_children_def shown_children_def channels_at_def stable_new_def initial_snapshot_def
        dynamic_config_def ordered_config_def ordered_builder_new_def)
  with refresh_root_ok [OF well] obtain t' w' where "refresh_root ?t ?w = (Inr t', w')" "refreshed ?t ?w t' w'" by blast
  moreover from this(2) have "fresh_tree w t' w'"
    by (rule fresh_refreshed [where q = ?q]) (simp_all add: grown_def nth_append q del: if_split)
  ultimately show ?thesis using run by auto
qed

section \<open>Well-formed forests\<close>

definition forest_ok :: "'m forest \<Rightarrow> bool" where
  "forest_ok f \<longleftrightarrow>
     (\<forall>k t. tree_at k f = Some t \<longrightarrow> well_reserved (fo_store f) t \<and> shows_children (fo_store f) t
        \<and> (\<forall>i \<in> sr_id ` set (it_reservations t). i < w_next_reservation (fo_store f)))
     \<and> (\<forall>j k t u. tree_at j f = Some t \<longrightarrow> tree_at k f = Some u \<longrightarrow> j \<noteq> k \<longrightarrow> apart t u)"

lemma forest_okD:
  assumes "forest_ok f" "tree_at k f = Some t"
  shows "well_reserved (fo_store f) t" "shows_children (fo_store f) t"
    "\<And>i. i \<in> sr_id ` set (it_reservations t) \<Longrightarrow> i < w_next_reservation (fo_store f)"
    "\<And>j u. tree_at j f = Some u \<Longrightarrow> j \<noteq> k \<Longrightarrow> apart t u"
  using assms unfolding forest_ok_def by blast+

lemma forest_okI:
  assumes "\<And>k t. tree_at k f = Some t \<Longrightarrow> well_reserved (fo_store f) t \<and> shows_children (fo_store f) t
        \<and> (\<forall>i \<in> sr_id ` set (it_reservations t). i < w_next_reservation (fo_store f))"
    and "\<And>j k t u. tree_at j f = Some t \<Longrightarrow> tree_at k f = Some u \<Longrightarrow> j \<noteq> k \<Longrightarrow> apart t u"
  shows "forest_ok f"
  using assms unfolding forest_ok_def by blast

lemma apart_sym: "apart t u \<Longrightarrow> apart u t"
  by (auto simp: apart_def)

text \<open>A tree that an operation does not touch.\<close>

lemma tree_untouched:
  assumes "well_reserved w t" "shows_children w t"
    and "\<And>m. m \<in> chan ` set (it_reservations t) \<Longrightarrow> w_identities w' ! m = w_identities w ! m"
    and "length (w_identities w) \<le> length (w_identities w')" "length (w_states w) \<le> length (w_states w')"
  shows "well_reserved w' t \<and> shows_children w' t"
proof
  have "live w' (chan r)" if "r \<in> set (it_reservations t)" for r
    using assms(1,4) assms(3) [of "chan r"] that by (auto simp: well_reserved_def reserved_def live_def channels_at_def)
  then show "well_reserved w' t" using assms(1,5) by (auto simp: well_reserved_def reserved_def)
  from root_reserved [OF assms(1)] obtain r where r: "r \<in> set (it_reservations t)" "tree_scope t = Some (chan r)" by metis
  then show "shows_children w' t"
    using assms(2) assms(3) [of "chan r"] by (auto simp: shows_children_def shown_children_def channels_at_def)
qed

lemma forest_updated:
  assumes f: "forest_ok f" and r: "refreshed t (fo_store f) t' w'" and k: "k < length (fo_trees f)"
    and ap: "\<And>j u. tree_at j f = Some u \<Longrightarrow> j \<noteq> k \<Longrightarrow> apart t u"
    and ids: "\<And>i. i \<in> sr_id ` set (it_reservations t) \<Longrightarrow> i < w_next_reservation (fo_store f)"
  shows "forest_ok (f\<lparr>fo_store := w', fo_trees := (fo_trees f)[k := Some t']\<rparr>)" (is "forest_ok ?f")
proof -
  have same: "list_all2 same_reservation (it_reservations t) (it_reservations t')" using r by (simp add: refreshed_def)
  have kp: "keeps (chan ` set (it_reservations t)) (sr_actors ` set (it_reservations t)) (fo_store f) w'"
    using r by (simp add: refreshed_def)
  obtain n where n: "n \<in> chan ` set (it_reservations t)" "only_identity n (fo_store f) w'" using r by (auto simp: refreshed_def)
  have at: "tree_at j ?f = (if j = k then Some t' else tree_at j f)" for j using k by (simp add: tree_at_def)
  have ap': "apart t' u" if "tree_at j f = Some u" "j \<noteq> k" for j u
    using ap [OF that] same_sets [OF same] by (simp add: apart_def)
  have next': "w_next_reservation w' = w_next_reservation (fo_store f)" using n(2) by (simp add: only_identity_def)
  show ?thesis
  proof (rule forest_okI)
    fix j u assume u: "tree_at j ?f = Some u"
    show "well_reserved (fo_store ?f) u \<and> shows_children (fo_store ?f) u
        \<and> (\<forall>i \<in> sr_id ` set (it_reservations u). i < w_next_reservation (fo_store ?f))"
    proof (cases "j = k")
      case True
      with u at have "u = t'" by simp
      then show ?thesis using r ids next' same_sets(1) [OF same] by (auto simp: refreshed_def)
    next
      case False
      with u at have u': "tree_at j f = Some u" by simp
      have "n \<notin> chan ` set (it_reservations u)" using ap [OF u' False] n(1) by (auto simp: apart_def)
      then have "w_identities w' ! m = w_identities (fo_store f) ! m" if "m \<in> chan ` set (it_reservations u)" for m
        using n(2) that unfolding only_identity_def by metis
      from tree_untouched [OF forest_okD(1,2) [OF f u'] this] forest_okD(3) [OF f u'] next' keeps_length [OF kp]
      show ?thesis by auto
    qed
  next
    fix i j x y assume "tree_at i ?f = Some x" "tree_at j ?f = Some y" "i \<noteq> j"
    then show "apart x y"
      using at apart_sym [OF ap'] ap' forest_okD(4) [OF f] by (cases "i = k"; cases "j = k") auto
  qed
qed

lemma forest_planted:
  assumes f: "forest_ok f" and new: "fresh_tree (fo_store f) t w'"
  shows "forest_ok (f\<lparr>fo_store := w', fo_trees := fo_trees f @ [Some t]\<rparr>)" (is "forest_ok ?f")
proof -
  let ?w = "fo_store f"
  have at: "tree_at j ?f = (if j = length (fo_trees f) then Some t else tree_at j f)" for j
    by (auto simp: tree_at_def nth_append)
  have ap: "apart u t" if u: "tree_at j f = Some u" for j u
  proof -
    have "w_next_reservation ?w \<notin> sr_id ` set (it_reservations u)" using forest_okD(3) [OF f u] by blast
    moreover have "length (w_identities ?w) \<notin> chan ` set (it_reservations u)"
      "length (w_states ?w) \<notin> sr_actors ` set (it_reservations u)"
      using forest_okD(1) [OF f u] by (auto simp: well_reserved_def reserved_def live_def)
    ultimately show ?thesis using new by (simp add: apart_def fresh_tree_def)
  qed
  show ?thesis
  proof (rule forest_okI)
    fix j u assume u: "tree_at j ?f = Some u"
    show "well_reserved (fo_store ?f) u \<and> shows_children (fo_store ?f) u
        \<and> (\<forall>i \<in> sr_id ` set (it_reservations u). i < w_next_reservation (fo_store ?f))"
    proof (cases "j = length (fo_trees f)")
      case True
      with u at new show ?thesis by (auto simp: fresh_tree_def)
    next
      case False
      with u at have u': "tree_at j f = Some u" by simp
      have "w_identities w' ! m = w_identities ?w ! m" if "m \<in> chan ` set (it_reservations u)" for m
        using that new forest_okD(1) [OF f u'] by (auto simp: fresh_tree_def grown_def well_reserved_def reserved_def live_def)
      from tree_untouched [OF forest_okD(1,2) [OF f u'] this] forest_okD(3) [OF f u'] new
      show ?thesis by (auto simp: fresh_tree_def grown_def less_Suc_eq)
    qed
  next
    fix i j x y assume "tree_at i ?f = Some x" "tree_at j ?f = Some y" "i \<noteq> j"
    then show "apart x y"
      using at ap apart_sym [OF ap] forest_okD(4) [OF f] by (cases "i = length (fo_trees f)"; cases "j = length (fo_trees f)") auto
  qed
qed

section \<open>No operation panics\<close>

lemma at_tree_ok:
  assumes f: "forest_ok f"
    and m: "\<And>t. \<lbrakk>tree_at k f = Some t; P t; well_reserved (fo_store f) t; shows_children (fo_store f) t\<rbrakk>
      \<Longrightarrow> \<exists>t' w' node. m t (fo_store f) = (Inr t', w') \<and> refreshed (t\<lparr>it_node := node\<rparr>) (fo_store f) t' w'"
  shows "\<exists>f'. at_tree k P m f = Some f' \<and> forest_ok f'
    \<and> w_next_reservation (fo_store f') = w_next_reservation (fo_store f)"
proof (cases "tree_at k f")
  case (Some t)
  show ?thesis
  proof (cases "P t")
    case True
    note D = forest_okD [OF f Some]
    from m [OF Some True D(1,2)] obtain t' w' node where
      r: "m t (fo_store f) = (Inr t', w')" "refreshed (t\<lparr>it_node := node\<rparr>) (fo_store f) t' w'" by blast
    have k: "k < length (fo_trees f)" using Some by (auto simp: tree_at_def split: if_splits)
    have "forest_ok (f\<lparr>fo_store := w', fo_trees := (fo_trees f)[k := Some t']\<rparr>)"
      by (rule forest_updated [OF f r(2) k]) (use D(3,4) in \<open>auto simp: apart_def\<close>)
    moreover have "w_next_reservation w' = w_next_reservation (fo_store f)"
      using r(2) by (auto simp: refreshed_def only_identity_def)
    ultimately show ?thesis using Some True r(1) by (simp add: at_tree_def)
  qed (use f Some in \<open>simp add: at_tree_def\<close>)
qed (use f in \<open>simp add: at_tree_def\<close>)

lemma subtree_step_ok:
  assumes f: "forest_ok f" and t: "tree_at k f = Some t" "is_ordered t" and sub: "tree_at j f = Some sub" "j \<noteq> k"
  shows "\<exists>f'. at_tree k is_ordered (add_subtree_spec i sub restart sd) (f\<lparr>fo_trees := (fo_trees f)[j := None]\<rparr>) = Some f'
    \<and> forest_ok f' \<and> w_next_reservation (fo_store f') = w_next_reservation (fo_store f)"
proof -
  let ?f = "f\<lparr>fo_trees := (fo_trees f)[j := None]\<rparr>"
  note T = forest_okD [OF f t(1)] and S = forest_okD [OF f sub(1)]
  have at: "tree_at l ?f = (if l = j then None else tree_at l f)" for l
    by (auto simp: tree_at_def nth_list_update list_update_beyond)
  then have f': "forest_ok ?f" using f unfolding forest_ok_def by (auto split: if_splits)
  have k: "k < length (fo_trees ?f)" using t(1) by (auto simp: tree_at_def split: if_splits)
  from subtree_ok [OF T(1) t(2) S(1) T(4) [OF sub], of i restart sd] obtain t' w' node where
    r: "add_subtree_spec i sub restart sd t (fo_store ?f) = (Inr t', w')"
    "refreshed (t\<lparr>it_reservations := it_reservations t @ it_reservations sub, it_node := node\<rparr>) (fo_store ?f) t' w'"
    by auto
  have ap: "apart (t\<lparr>it_reservations := it_reservations t @ it_reservations sub, it_node := node\<rparr>) u"
    if "tree_at l ?f = Some u" "l \<noteq> k" for l u
  proof -
    have "l \<noteq> j" "tree_at l f = Some u" using that(1) at by (auto split: if_splits)
    then have "apart t u" "apart sub u" using T(4) S(4) that(2) by auto
    then show ?thesis by (auto simp: apart_def image_Un)
  qed
  have "forest_ok (?f\<lparr>fo_store := w', fo_trees := (fo_trees ?f)[k := Some t']\<rparr>)"
    by (rule forest_updated [OF f' r(2) k]) (use ap T(3) S(3) in auto)
  moreover have "w_next_reservation w' = w_next_reservation (fo_store f)"
    using r(2) by (auto simp: refreshed_def only_identity_def)
  ultimately show ?thesis using r(1) t sub(2) at by (auto simp: at_tree_def)
qed

lemma forest_step_ok:
  assumes f: "forest_ok f" and room: "Suc (w_next_reservation (fo_store f)) < 2 ^ 64"
  shows "\<exists>f'. forest_step op f = Some f' \<and> forest_ok f'
    \<and> w_next_reservation (fo_store f') \<le> Suc (w_next_reservation (fo_store f))"
proof -
  have planted: "\<exists>f'. plant (identity_tree_new node) f = Some f' \<and> forest_ok f'
      \<and> w_next_reservation (fo_store f') \<le> Suc (w_next_reservation (fo_store f))"
    if "node = OrderedNode scope_config_new [] \<or> node = DynamicNode scope_config_new" for node
    using new_tree [OF that room] forest_planted [OF f] by (auto simp: plant_def fresh_tree_def)
  show ?thesis
  proof (cases op)
    case (OpConfigure k c)
    have "\<exists>f'. at_tree k (\<lambda>t. is_ordered t \<or> \<not> sets_strategy c) (configure_tree c) f = Some f' \<and> forest_ok f'
        \<and> w_next_reservation (fo_store f') = w_next_reservation (fo_store f)"
      by (rule at_tree_ok [OF f]) (use configure_ok in blast)
    with OpConfigure show ?thesis by auto
  next
    case (OpActor k a)
    have "\<exists>f'. at_tree k is_ordered (\<lambda>t. and_then (add_actor_spec a t) (\<lambda>(b, t'). return_ok t')) f = Some f' \<and> forest_ok f'
        \<and> w_next_reservation (fo_store f') = w_next_reservation (fo_store f)"
      by (rule at_tree_ok [OF f]) (use actor_ok [of "fo_store f" _ a] in \<open>fastforce simp: and_then_def return_ok_def\<close>)
    with OpActor show ?thesis by auto
  next
    case (OpTask k d)
    have "\<exists>f'. at_tree k (\<lambda>t. is_ordered t \<and> cd_kind d = ChildTask)
          (\<lambda>t. and_then (add_task_spec d t) (\<lambda>(l, t'). return_ok t')) f = Some f' \<and> forest_ok f'
        \<and> w_next_reservation (fo_store f') = w_next_reservation (fo_store f)"
      by (rule at_tree_ok [OF f]) (use task_ok [of "fo_store f" _ d] in \<open>fastforce simp: and_then_def return_ok_def\<close>)
    with OpTask show ?thesis by auto
  next
    case (OpSubtree k i j restart sd)
    show ?thesis
    proof (cases "\<exists>t sub. tree_at k f = Some t \<and> tree_at j f = Some sub \<and> is_ordered t \<and> j \<noteq> k")
      case True
      then obtain t sub where *: "tree_at k f = Some t" "is_ordered t" "tree_at j f = Some sub" "j \<noteq> k" by blast
      from subtree_step_ok [OF f *, of i restart sd] OpSubtree * show ?thesis by auto
    next
      case False
      then have "forest_step op f = Some f" using OpSubtree by (auto split: option.splits)
      with f show ?thesis by simp
    qed
  qed (use planted in \<open>simp_all add: tree_new_def dynamic_tree_new_def\<close>)
qed

lemma forest_run_ok:
  assumes "forest_ok f" "w_next_reservation (fo_store f) + length ops < 2 ^ 64"
  shows "\<exists>f'. forest_run ops f = Some f' \<and> forest_ok f'"
  using assms
proof (induction ops arbitrary: f)
  case (Cons op ops)
  from forest_step_ok [OF Cons.prems(1)] Cons.prems(2) obtain f1 where
    f1: "forest_step op f = Some f1" "forest_ok f1" "w_next_reservation (fo_store f1) \<le> Suc (w_next_reservation (fo_store f))"
    by fastforce
  with Cons.IH [OF f1(2)] Cons.prems(2) show ?case by simp
qed simp

lemma forest_new_ok: "forest_ok forest_new" "w_next_reservation (fo_store forest_new) = 1"
  by (simp_all add: forest_ok_def forest_new_def tree_at_def store_new_def)

end
