(* ===== verification/Tree_Spawn.thy ===== *)
theory Tree_Spawn
  imports Forest Samples
begin

text \<open>
  The start of the root of a lowered tree: a declared scope has at most as many children as there
  were declaring operations, so that their lineages fit the counter of its identity, and the
  root starts on its reserved identity, which no incarnation has used.
\<close>

section \<open>The number of children\<close>

text \<open>Every operation adds at most one child to a tree.\<close>

definition narrow :: "nat \<Rightarrow> 'm forest \<Rightarrow> bool" where
  "narrow n f \<longleftrightarrow> (\<forall>k t. tree_at k f = Some t \<longrightarrow> length (declared_children (it_node t)) \<le> n)"

lemma declared_view_length [simp]: "length (declared_view node) = length (declared_children node)"
  by (simp add: declared_view_def projected_children_def)

lemma forest_new_narrow: "narrow 0 forest_new"
  by (simp add: narrow_def forest_new_def tree_at_def)

lemma refresh_keeps_node: "refresh_root t w = (Inr t', w') \<Longrightarrow> it_node t' = it_node t"
  by (auto simp: refresh_root_def Let_def and_then_def return_ok_def set_builder_def
      split: option.splits reserved_builder.splits prod.splits sum.splits)

lemma add_child_narrow:
  assumes "add_child_to x t w = (Inr t', w')"
  shows "length (declared_children (it_node t')) = Suc (length (declared_children (it_node t)))"
  using assms by (cases "it_node t") (auto simp: add_child_to_def dest!: refresh_keeps_node)

lemma at_tree_narrow:
  assumes "at_tree k P m f = Some f'" "narrow n f"
    and "\<And>t t' w'. m t (fo_store f) = (Inr t', w') \<Longrightarrow>
      length (declared_children (it_node t')) \<le> Suc (length (declared_children (it_node t)))"
  shows "narrow (Suc n) f'"
proof (cases "f' = f")
  case False
  with assms(1) obtain t t' w' where t: "tree_at k f = Some t" "m t (fo_store f) = (Inr t', w')"
    "f' = f\<lparr>fo_store := w', fo_trees := (fo_trees f)[k := Some t']\<rparr>"
    by (auto simp: at_tree_def split: option.splits if_splits prod.splits sum.splits)
  have "tree_at j f' = Some u \<Longrightarrow> u = t' \<or> tree_at j f = Some u" for j u
    using t(3) by (cases "j = k") (auto simp: tree_at_def split: if_splits)
  moreover have "length (declared_children (it_node t')) \<le> Suc n"
    using assms(2,3) t(1,2) by (meson Suc_le_mono le_trans narrow_def)
  ultimately show ?thesis using assms(2) unfolding narrow_def by (metis le_SucI)
qed (use assms(2) in \<open>auto simp: narrow_def intro: le_SucI\<close>)

lemma plant_narrow:
  assumes "plant (identity_tree_new node) f = Some f'" "narrow n f" "declared_children node = []"
  shows "narrow (Suc n) f'"
proof -
  from assms(1) obtain t w' where t: "identity_tree_new node (fo_store f) = (Inr t, w')"
    "f' = f\<lparr>fo_store := w', fo_trees := fo_trees f @ [Some t]\<rparr>"
    by (auto simp: plant_def split: prod.splits sum.splits)
  have "it_node t = map_config (\<lambda>c. c\<lparr>sc_reservation := Some (w_next_reservation (fo_store f))\<rparr>) node"
    using t(1) by (auto simp: identity_tree_new_def Let_def split: prod.splits dest!: refresh_keeps_node)
  then have "declared_children (it_node t) = []" using assms(3) by (cases node) simp_all
  then show ?thesis
    using assms(2) t(2) by (auto simp: narrow_def tree_at_def nth_append intro: le_SucI split: if_splits)
qed

lemma forest_step_narrow:
  assumes "forest_step op f = Some f'" "narrow n f"
  shows "narrow (Suc n) f'"
proof (cases op)
  case (OpConfigure k c)
  have "declared_children (map_config g n) = declared_children n" for g and n :: "'a scope_node"
    by (cases n) simp_all
  then show ?thesis
    using at_tree_narrow [OF _ assms(2)] assms(1) OpConfigure
    by (fastforce simp: configure_tree_def map_tree_def dest: refresh_keeps_node)
next
  case (OpActor k a)
  show ?thesis
    by (rule at_tree_narrow [OF _ assms(2)], use assms(1) OpActor in simp)
      (auto simp: add_actor_spec_def and_then_def return_ok_def dest!: add_child_narrow
        split: prod.splits sum.splits)
next
  case (OpTask k d)
  show ?thesis
    by (rule at_tree_narrow [OF _ assms(2)], use assms(1) OpTask in simp)
      (auto simp: add_task_spec_def and_then_def return_ok_def dest!: add_child_narrow
        split: prod.splits sum.splits option.splits list.splits)
next
  case (OpSubtree k i j restart sd)
  show ?thesis
  proof (cases "f' = f")
    case False
    with assms(1) OpSubtree have f': "at_tree k is_ordered (add_subtree_spec i (the (tree_at j f)) restart sd)
        (f\<lparr>fo_trees := (fo_trees f)[j := None]\<rparr>) = Some f'"
      by (auto split: option.splits if_splits)
    have "tree_at l (f\<lparr>fo_trees := (fo_trees f)[j := None]\<rparr>) = (if l = j then None else tree_at l f)" for l
      by (auto simp: tree_at_def nth_list_update list_update_beyond)
    then have "narrow n (f\<lparr>fo_trees := (fo_trees f)[j := None]\<rparr>)" using assms(2) by (simp add: narrow_def)
    from at_tree_narrow [OF f' this] show ?thesis
      by (fastforce simp: add_subtree_spec_def dest: add_child_narrow)
  qed (use assms(2) in \<open>auto simp: narrow_def intro: le_SucI\<close>)
qed (use assms plant_narrow in \<open>fastforce simp: tree_new_def dynamic_tree_new_def\<close>)+

lemma forest_run_narrow:
  "forest_run ops f = Some f' \<Longrightarrow> narrow n f \<Longrightarrow> tree_at k f' = Some t \<Longrightarrow>
   length (declared_children (it_node t)) \<le> n + length ops"
proof (induction ops arbitrary: f n)
  case Nil
  then show ?case by (auto simp: narrow_def)
next
  case (Cons op ops)
  then obtain f1 where f1: "forest_step op f = Some f1" "forest_run ops f1 = Some f'"
    by (auto simp: bind_eq_Some_conv)
  from Cons.IH [OF f1(2) forest_step_narrow [OF f1(1) Cons.prems(2)] Cons.prems(3)] show ?case by simp
qed

section \<open>Starting the root\<close>

lemma proper_declared_id:
  assumes "proper_child x"
  shows "declared_id x = Some (fst (projection c x))"
  using assms by (cases x) (auto simp: node_label_def)

lemma declared_view_ids: "map cs_id (declared_view node) =
  map (\<lambda>x. fst (projection (node_config node) x)) (declared_children node)"
proof -
  have "map (\<lambda>(l, i, r, b). i) (enumerate m xs) = map fst xs" for m and xs :: "(string \<times> restart_policy \<times> bool) list"
    by (induction xs arbitrary: m) auto
  then show ?thesis
    by (simp add: declared_view_def projected_children_def comp_def case_prod_beta' cong: map_cong)
qed

lemma declared_view_lineages: "map cs_lineage (declared_view node) = [0..<length (declared_children node)]"
  by (simp add: declared_view_def projected_children_def comp_def case_prod_beta enumerate_eq_zip
      map_fst_zip)

lemma valid_declared_ids:
  assumes "valid_node node" "proper_node node"
  shows "distinct (map cs_id (declared_view node)) \<and> [] \<notin> set (map cs_id (declared_view node))"
proof (cases node)
  case (OrderedNode c cs)
  have "map declared_id cs = map Some (map (\<lambda>x. fst (projection c x)) cs)"
    using assms(2) OrderedNode proper_declared_id by (auto simp: list_all_iff)
  with assms(1) OrderedNode have "distinct (map Some (map (\<lambda>x. fst (projection c x)) cs))"
    "Some [] \<notin> set (map Some (map (\<lambda>x. fst (projection c x)) cs))" by simp_all
  then show ?thesis unfolding declared_view_ids by (auto simp: OrderedNode distinct_map inj_on_def image_iff)
qed (simp add: declared_view_def projected_children_def)

lemma initial_ids: "map cs_id (ss_children (initial_snapshot cfg)) = map cd_id (cfg_children cfg)"
proof -
  have "map (\<lambda>(l, d). cd_id d) (enumerate m ds) = map cd_id ds" for m ds
    by (induction ds arbitrary: m) auto
  then show ?thesis
    by (simp add: initial_snapshot_def declared_child_def comp_def case_prod_beta' cong: map_cong)
qed

lemma supervisor_spawn_starts:
  assumes E: "env_ok E" and node: "valid_node node" "proper_node node"
    and view: "ss_children (initial_snapshot (lo_config l)) = declared_view node"
    and len: "length (declared_children node) \<le> u64_max" and live: "live w (lo_channels l)"
  shows "\<exists>s w'. supervisor_spawn E done_rx now l w = (Inr s, w') \<and> consistent s
    \<and> roster s = map (\<lambda>c. (cs_id c, cs_lineage c)) (declared_view node)
    \<and> channels_at (lo_channels l) w' = rt_own s"
proof -
  let ?cfg = "lo_config l" and ?x = "w_identities w ! lo_channels l"
  let ?st = "stable_tree_at (length (w_identities w)) w"
  have own: "\<not> st_terminal (ci_channels ?x)" "st_initial_incarnation (ci_channels ?x)"
    "st_root_extra (ci_channels ?x) = NotRoot" "hub_next_lineage (st_lifecycle (ci_channels ?x)) = 0"
    using live by (auto simp: live_def dormant_def channels_at_def peek_lineage_def)
  have ids: "map cd_id (cfg_children ?cfg) = map cs_id (declared_view node)"
    using initial_ids [of ?cfg] view by simp
  have cfg: "config_ok ?cfg"
    using valid_declared_ids [OF node] unfolding config_ok_def ids [symmetric] by force
  have children: "length (cfg_children ?cfg) = length (declared_children node)"
    using arg_cong [OF ids, of length] by simp
  have N: "first_lineages ?cfg (ci_channels ?x) \<le> u64_max"
    using len by (simp add: first_lineages_def own children)
  obtain s where s: "spawn_root E ?cfg (ci_channels ?x) done_rx (ci_nested ?x) ?st now = Some s"
    "fresh_incarnation ?cfg (ci_channels ?x) (st_next_binding_epoch (ci_channels ?x)) False s"
    using spawn_root_starts [OF E cfg N own(1-3), of done_rx "ci_nested ?x" ?st now] by blast
  have "consistent s" using s(2) by (auto simp: fresh_incarnation_def run_inv_def)
  moreover have "roster s = zip (map cs_id (declared_view node)) (map cs_lineage (declared_view node))"
    using s(2) by (simp add: fresh_incarnation_def first_lineages_def own children ids declared_view_lineages)
  moreover have "length (w_identities (fold hide_view ns v)) = length (w_identities v)" for ns v
    by (induction ns arbitrary: v) (simp_all add: hide_view_def)
  ultimately show ?thesis
    using live s(1) by (simp add: supervisor_spawn_def Let_def live_def channels_at_def zip_map_map zip_same_conv_map)
qed

end
