(* ===== verification/Tree_Guarantees.thy ===== *)
theory Tree_Guarantees
  imports Tree_Spawn
begin

text \<open>
  What a program that declares trees through the public operations can rely on when it spawns
  one of them.
\<close>

section \<open>Spawning a tree of a well-formed forest\<close>

definition reserving :: "scope_reservation list \<Rightarrow> u64 \<Rightarrow> scope_reservation" where
  "reserving rs i = the (List.find (\<lambda>r. sr_id r = i) rs)"

lemma reserving_agrees:
  assumes "reserved w rs"
  shows "agrees (reserving rs) rs"
proof -
  have "reserving rs (sr_id r) = r" if r: "r \<in> set rs" for r
  proof -
    obtain q where q: "List.find (\<lambda>x. sr_id x = sr_id r) rs = Some q"
      using r by (cases "List.find (\<lambda>x. sr_id x = sr_id r) rs") (auto simp: find_None_iff)
    then have "q \<in> set rs" "sr_id q = sr_id r" by (auto simp: find_Some_iff)
    with assms r q show ?thesis by (auto simp: reserving_def reserved_def dest: inj_onD)
  qed
  then show ?thesis by (simp add: agrees_def)
qed

lemma ended_dropped:
  assumes "\<And>r. r \<in> set rs \<Longrightarrow> reserved_channels (sr_builder r) = Some (chan r)"
    and "ended w m \<or> (m \<in> chan ` set rs \<and> m < length (w_identities w))"
  shows "ended (drop_reservations rs w) m"
proof -
  have "set (List.map_filter (\<lambda>r. reserved_channels (sr_builder r)) rs) = chan ` set rs"
    using assms(1) by (force simp: map_filter_def)
  then show ?thesis unfolding drop_reservations_def using assms(2) ended_all by simp
qed

lemma reserved_owned:
  assumes "covers rs S" "used rs S = set rs" "inj_on sr_id (set rs)" "r \<in> set rs"
  shows "reserved_channels (sr_builder r) = Some (chan r)"
proof -
  have "r \<in> used rs S" using assms(2,4) by simp
  then obtain k where "(Some (sr_id r), k) \<in> set S" by (auto simp: used_def)
  from coversD [OF assms(1) this] obtain q where "q \<in> set rs" "sr_id q = sr_id r" "fits k q" by auto
  with assms(3,4) have "fits k r" by (auto dest: inj_onD)
  then show ?thesis by (cases k) (auto simp: chan_def)
qed

lemma scope_of_lowered:
  assumes "well_reserved w t" "lowered_ids l = ids_of (reserving (it_reservations t)) (scopes (it_node t))"
  shows "tree_scope t = Some (lo_channels l)"
proof -
  obtain k r where r: "root_position t = Some k" "k < length (it_reservations t)" "it_reservations t ! k = r"
    "r \<in> set (it_reservations t)" "tree_scope t = Some (chan r)"
    using root_reserved [OF assms(1)] by metis
  have "reserved w (it_reservations t)" using assms(1) by (simp add: well_reserved_def)
  from reserving_agrees [OF this] r(4) have \<rho>: "reserving (it_reservations t) (sr_id r) = r" by (simp add: agrees_def)
  have "sc_reservation (node_config (it_node t)) = Some (sr_id r)"
    using r(1,3) position_Some by (fastforce simp: root_position_def bind_eq_Some_conv)
  with scopes_head [of "it_node t"] assms(2) \<rho> have "hd (lowered_ids l) = chan r" by auto
  then show ?thesis using r(5) by (cases l) simp
qed

lemma spawn_post:
  assumes t: "well_reserved w t"
  shows "(case into_parts t w of
      (Inl TreePanic, _) \<Rightarrow> False
    | (Inl (TreeBuild e), w') \<Rightarrow> \<not> valid_node (it_node t)
        \<and> (unambiguous (it_node t) \<longrightarrow> (\<forall>r \<in> set (it_reservations t). ended w' (chan r)))
    | (Inr l, w') \<Rightarrow> valid_node (it_node t) \<and> lowered_outline w' l = outline (it_node t)
        \<and> distinct (lowered_ids l) \<and> set (lowered_ids l) = chan ` set (it_reservations t)
        \<and> tree_scope t = Some (lo_channels l)
        \<and> ss_children (initial_snapshot (lo_config l)) = declared_view (it_node t)
        \<and> (\<forall>r \<in> set (it_reservations t). live w' (chan r)))"
proof -
  let ?rs = "it_reservations t" and ?n = "it_node t"
  have W: "reserved w ?rs" "proper_node ?n" "covers ?rs (scopes ?n)" "used ?rs (scopes ?n) = set ?rs"
    using t by (simp_all add: well_reserved_def)
  note agr = reserving_agrees [OF W(1)]
  have post: "lower_post (reserving ?rs) ?n w ?rs (lower ?n (w, ?rs))"
    by (rule lower_meets_post(1) [OF W(2,1) agr W(3)])
  obtain res w1 rs1 where low: "lower ?n (w, ?rs) = (res, (w1, rs1))" by (metis prod.exhaust)
  show ?thesis
  proof (cases res)
    case (Inl e)
    with post low obtain e' where e: "e = TreeBuild e'" "\<not> valid_node ?n" "abandons {} (unambiguous ?n) w ?rs w1 rs1"
      by (cases e) (auto simp: lower_post_def)
    have sub: "set rs1 \<subseteq> set ?rs" and len: "length (w_identities w1) = length (w_identities w)"
      using e(3) by (simp_all add: abandons_def)
    have owned: "reserved_channels (sr_builder r) = Some (chan r)" if "r \<in> set ?rs" for r
      by (rule reserved_owned [OF W(3,4) _ that]) (use W(1) in \<open>simp add: reserved_def\<close>)
    have "ended (drop_reservations rs1 w1) (chan r)" if U: "unambiguous ?n" and r: "r \<in> set ?rs" for r
    proof (rule ended_dropped)
      show "reserved_channels (sr_builder q) = Some (chan q)" if "q \<in> set rs1" for q using owned that sub by blast
      have "chan r < length (w_identities w1)" using W(1) r len by (simp add: reserved_def live_def)
      then show "ended w1 (chan r) \<or> (chan r \<in> chan ` set rs1 \<and> chan r < length (w_identities w1))"
        using e(3) U r by (cases "r \<in> set rs1") (auto simp: abandons_def)
    qed
    with e low Inl show ?thesis by (simp add: into_parts_def)
  next
    case (Inr l)
    have l: "valid_node ?n" "consumes w ?rs (scopes ?n) w1 rs1" "lowered_ids l = ids_of (reserving ?rs) (scopes ?n)"
      "lowered_outline w1 l = outline ?n" "ss_children (initial_snapshot (lo_config l)) = declared_view ?n"
      using post low Inr by (auto simp: lower_post_def declared_view_def)
    have "rs1 = []" using l(2) W(4) by (simp add: consumes_def)
    then have run: "into_parts t w = (Inr l, w1)" using low Inr by (simp add: into_parts_def)
    have ids: "distinct (lowered_ids l)" "set (lowered_ids l) = chan ` set ?rs"
      using distinct_ids_of [OF W(1) agr W(3)] set_ids_of(1) [OF agr W(3)] W(4) l(3) by simp_all
    have "tree_scope t = Some (lo_channels l)" by (rule scope_of_lowered [OF t l(3)])
    moreover have "\<forall>r \<in> set ?rs. live w1 (chan r)"
      using W(1) l(2) by (auto simp: reserved_def consumes_def intro: keeps_live)
    ultimately show ?thesis using run l ids by simp
  qed
qed

section \<open>References issued by a declaration\<close>

fun declared_bindings :: "'m scope_node \<Rightarrow> nat option list"
  and child_bindings :: "'m supervision_child \<Rightarrow> nat option list" where
  "declared_bindings (OrderedNode c cs) = concat (map child_bindings cs)"
| "declared_bindings (DynamicNode c) = []"
| "child_bindings (ActorChild a) = [Option.bind (an_deferred a) da_binding]"
| "child_bindings (TaskChild d) = []"
| "child_bindings (ScopeChild i n restart sd) = declared_bindings n"

fun lowered_bindings :: "lowered \<Rightarrow> nat list" and payload_bindings :: "payload \<Rightarrow> nat list" where
  "lowered_bindings (Lowered cfg n a ps) = concat (map payload_bindings ps)"
| "payload_bindings (PayloadActor r opts) = [ra_binding r]"
| "payload_bindings PayloadTask = []"
| "payload_bindings (PayloadScope l) = lowered_bindings l"

lemma actor_bindings:
  assumes "lower_actor c actors a bn s = (Inr (bn', p), s')" "an_deferred a = Some f" "da_binding f = Some b"
  shows "payload_bindings p = [b]"
  using assms
  by (auto simp: lower_actor_def materialize_actor_node_def node_materialize_def deferred_materialize_def
      binding_get_or_init_def actor_from_parts_def Let_def and_then_def return_ok_def
      split: option.splits sum.splits prod.splits if_splits)

lemma children_bindings:
  assumes "\<And>x c actors bn s bn' p s'. x \<in> set xs \<Longrightarrow> lower_child c actors x bn s = (Inr (bn', p), s') \<Longrightarrow> None \<notin> set (child_bindings x)
      \<Longrightarrow> map Some (payload_bindings p) = child_bindings x"
    and "lower_children c actors xs (bn, ps) s = (Inr (bn', ps'), s')" "None \<notin> set (concat (map child_bindings xs))"
  shows "map Some (concat (map payload_bindings ps')) = map Some (concat (map payload_bindings ps)) @ concat (map child_bindings xs)"
  using assms
proof (induction xs arbitrary: bn ps s)
  case (Cons x xs)
  from Cons.prems(2) obtain bn1 p s1 where
    x: "lower_child c actors x bn s = (Inr (bn1, p), s1)" "lower_children c actors xs (bn1, ps @ [p]) s1 = (Inr (bn', ps'), s')"
    by (auto split: prod.splits sum.splits)
  have "map Some (payload_bindings p) = child_bindings x" using Cons.prems(1) [OF _ x(1)] Cons.prems(3) by simp
  moreover have "map Some (concat (map payload_bindings ps'))
      = map Some (concat (map payload_bindings (ps @ [p]))) @ concat (map child_bindings xs)"
    by (rule Cons.IH [OF _ x(2)]) (use Cons.prems(1,3) in auto)
  ultimately show ?case by simp
qed simp

lemma lower_bindings:
  fixes nd :: "'m scope_node" and x :: "'m supervision_child"
  shows "lower nd s = (Inr l, s') \<Longrightarrow> None \<notin> set (declared_bindings nd) \<Longrightarrow> map Some (lowered_bindings l) = declared_bindings nd"
    and "lower_child c actors x bn s = (Inr (bn', p), s') \<Longrightarrow> None \<notin> set (child_bindings x)
    \<Longrightarrow> map Some (payload_bindings p) = child_bindings x"
proof (induction nd and x arbitrary: s l s' and c actors bn s bn' p s')
  case (OrderedNode c cs)
  from OrderedNode.prems(1) obtain actors bn bn' ps s1 s2 where
    "lower_children c actors cs (bn, []) s1 = (Inr (bn', ps), s2)" "finish_ordered actors (bn', ps) s2 = (Inr l, s')"
    by (auto simp: Let_def builder_defaults_def split: if_splits prod.splits option.splits sum.splits)
  moreover from this(2) have "lowered_bindings l = concat (map payload_bindings ps)"
    by (auto simp: finish_ordered_def and_then_def return_ok_def split: prod.splits sum.splits)
  ultimately show ?case
    using children_bindings [of cs c actors bn "[]" s1 bn' ps s2] OrderedNode.IH OrderedNode.prems(2) by simp
next
  case (DynamicNode c)
  then show ?case
    by (auto simp: lower_dynamic_def Let_def and_then_def return_ok_def split: if_splits prod.splits option.splits sum.splits)
next
  case (ActorChild a)
  then obtain f b where "an_deferred a = Some f" "da_binding f = Some b" by (cases "an_deferred a"; cases "da_binding (the (an_deferred a))") auto
  with actor_bindings [of c actors a bn s bn' p s' f b] ActorChild.prems(1) show ?case by simp
next
  case (TaskChild d)
  then show ?case by (auto simp: lower_task_def and_then_def return_ok_def split: prod.splits sum.splits)
next
  case (ScopeChild i n restart sd)
  from ScopeChild.prems(1) obtain low s1 where
    "lower n s = (Inr low, s1)" "attach_scope i restart sd actors low bn s1 = (Inr (bn', p), s')"
    by (auto split: prod.splits sum.splits)
  moreover from this(2) have "p = PayloadScope low"
    by (auto simp: attach_scope_def Let_def and_then_def return_ok_def split: prod.splits sum.splits)
  ultimately show ?case using ScopeChild.IH ScopeChild.prems(2) by simp
qed

lemma add_child_bindings:
  assumes "add_child_to x t w = (Inr t', w')"
  shows "declared_bindings (it_node t') = declared_bindings (it_node t) @ child_bindings x"
proof -
  from assms obtain node where "push_child x (it_node t) = Some node" "refresh_root (t\<lparr>it_node := node\<rparr>) w = (Inr t', w')"
    by (auto simp: add_child_to_def split: option.splits)
  moreover from this(1) have "declared_bindings node = declared_bindings (it_node t) @ child_bindings x"
    by (cases "it_node t") auto
  ultimately show ?thesis using refresh_keeps_node by fastforce
qed

lemma add_actor_bindings:
  assumes "add_actor_spec a t w = (Inr (b, t'), w')"
  shows "declared_bindings (it_node t') = declared_bindings (it_node t) @ [Some b]"
proof -
  obtain b0 a' w1 where r: "actor_spec_ref a w = (b0, a', w1)" by (metis prod.exhaust)
  with assms have "add_child_to (ActorChild (into_deferred_node a')) t w1 = (Inr t', w')" "b0 = b"
    by (auto simp: add_actor_spec_def and_then_def return_ok_def split: prod.splits sum.splits)
  moreover have "as_binding a' = Some b0" using r by (auto simp: actor_spec_ref_def Let_def split: prod.splits)
  ultimately show ?thesis using add_child_bindings by (fastforce simp: into_deferred_node_def)
qed

definition all_bound :: "'m forest \<Rightarrow> bool" where
  "all_bound f \<longleftrightarrow> (\<forall>k t. tree_at k f = Some t \<longrightarrow> None \<notin> set (declared_bindings (it_node t)))"

lemma at_tree_bound:
  assumes "at_tree k P m f = Some f'" "all_bound f"
    and "\<And>t t' w'. m t (fo_store f) = (Inr t', w') \<Longrightarrow> None \<notin> set (declared_bindings (it_node t))
      \<Longrightarrow> None \<notin> set (declared_bindings (it_node t'))"
  shows "all_bound f'"
proof (cases "f' = f")
  case False
  with assms(1) obtain t t' w' where t: "tree_at k f = Some t" "m t (fo_store f) = (Inr t', w')"
    "f' = f\<lparr>fo_store := w', fo_trees := (fo_trees f)[k := Some t']\<rparr>"
    by (auto simp: at_tree_def split: option.splits if_splits prod.splits sum.splits)
  have "tree_at j f' = Some u \<Longrightarrow> u = t' \<or> tree_at j f = Some u" for j u
    using t(3) by (cases "j = k") (auto simp: tree_at_def split: if_splits)
  moreover have "None \<notin> set (declared_bindings (it_node t'))" using assms(2,3) t(1,2) by (auto simp: all_bound_def)
  ultimately show ?thesis using assms(2) unfolding all_bound_def by metis
qed (use assms(2) in simp)

lemma plant_bound:
  assumes "plant (identity_tree_new node) f = Some f'" "all_bound f" "declared_bindings node = []"
  shows "all_bound f'"
proof -
  from assms(1) obtain t w' where t: "identity_tree_new node (fo_store f) = (Inr t, w')"
    "f' = f\<lparr>fo_store := w', fo_trees := fo_trees f @ [Some t]\<rparr>"
    by (auto simp: plant_def split: prod.splits sum.splits)
  have "it_node t = map_config (\<lambda>c. c\<lparr>sc_reservation := Some (w_next_reservation (fo_store f))\<rparr>) node"
    using t(1) by (auto simp: identity_tree_new_def Let_def split: prod.splits dest!: refresh_keeps_node)
  then have "declared_bindings (it_node t) = []" using assms(3) by (cases node) simp_all
  then show ?thesis using assms(2) t(2) by (auto simp: all_bound_def tree_at_def nth_append split: if_splits)
qed

lemma forest_step_bound:
  assumes "forest_step op f = Some f'" "all_bound f"
  shows "all_bound f'"
proof (cases op)
  case (OpConfigure k c)
  have "declared_bindings (map_config g n) = declared_bindings n" for g and n :: "'a scope_node" by (cases n) simp_all
  then show ?thesis
    using at_tree_bound [OF _ assms(2)] assms(1) OpConfigure
    by (fastforce simp: configure_tree_def map_tree_def dest: refresh_keeps_node)
next
  case (OpActor k a)
  show ?thesis
    by (rule at_tree_bound [OF _ assms(2)], use assms(1) OpActor in simp)
      (auto simp: and_then_def return_ok_def dest: add_actor_bindings split: prod.splits sum.splits)
next
  case (OpTask k d)
  have t: "None \<notin> set (declared_bindings (it_node t'))"
    if "and_then (add_task_spec d t) (\<lambda>(l, t'). return_ok t') w = (Inr t', w')" "None \<notin> set (declared_bindings (it_node t))"
    for t t' :: "'a identity_tree" and w w'
    using that by (auto simp: and_then_def return_ok_def add_task_spec_def dest!: add_child_bindings
        split: prod.splits sum.splits option.splits list.splits)
  show ?thesis by (rule at_tree_bound [OF _ assms(2) t]) (use assms(1) OpTask in auto)
next
  case (OpSubtree k i j restart sd)
  show ?thesis
  proof (cases "f' = f")
    case False
    with assms(1) OpSubtree obtain sub where sub: "tree_at j f = Some sub"
      "at_tree k is_ordered (add_subtree_spec i sub restart sd) (f\<lparr>fo_trees := (fo_trees f)[j := None]\<rparr>) = Some f'"
      by (auto split: option.splits if_splits)
    have "tree_at l (f\<lparr>fo_trees := (fo_trees f)[j := None]\<rparr>) = (if l = j then None else tree_at l f)" for l
      by (auto simp: tree_at_def nth_list_update list_update_beyond)
    then have "all_bound (f\<lparr>fo_trees := (fo_trees f)[j := None]\<rparr>)" using assms(2) by (simp add: all_bound_def)
    from at_tree_bound [OF sub(2) this] sub(1) assms(2) show ?thesis
      by (fastforce simp: add_subtree_spec_def all_bound_def dest: add_child_bindings)
  qed (use assms(2) in simp)
qed (use assms plant_bound in \<open>fastforce simp: tree_new_def dynamic_tree_new_def\<close>)+

lemma forest_run_bound: "forest_run ops f = Some f' \<Longrightarrow> all_bound f \<Longrightarrow> all_bound f'"
  by (induction ops arbitrary: f) (auto simp: bind_eq_Some_conv dest: forest_step_bound)

section \<open>A sample program\<close>

text \<open>
  Three trees: an ordered root with a task, an actor and two subtrees, one of them with an actor, the
  other dynamic.  The ids of the subtrees are parameters.
\<close>

definition sample_ops :: "string \<Rightarrow> string \<Rightarrow> unit tree_op list" where
  "sample_ops i j =
     [OpNew, OpNew, OpNewDynamic, OpActor 1 (actor_spec_new ''a''), OpConfigure 0 (SetStrategy OneForAll),
      OpTask 0 (task_spec_new ''t''), OpActor 0 (actor_spec_new ''b''), OpSubtree 0 i 1 None None,
      OpSubtree 0 j 2 (Some Never) None]"

definition spawn_sample :: "string \<Rightarrow> string \<Rightarrow> (unit forest \<times> unit identity_tree \<times> (tree_error + lowered) \<times> store) option" where
  "spawn_sample i j =
     Option.bind (forest_run (sample_ops i j) forest_new)
       (\<lambda>f. map_option (\<lambda>t. (f, t, into_parts t (fo_store f))) (tree_at 0 f))"

lemma spawn_sampleE:
  assumes "case spawn_sample i j of Some (f, t, r, w) \<Rightarrow> P f t r w | None \<Rightarrow> False"
  obtains f t r w where "forest_run (sample_ops i j) forest_new = Some f" "tree_at 0 f = Some t"
    "into_parts t (fo_store f) = (r, w)" "P f t r w"
  using assms by (auto simp: spawn_sample_def bind_eq_Some_conv split: option.splits prod.splits)

lemma sample_spawned:
  "case spawn_sample ''x'' ''y'' of
     Some (f, t, r, w) \<Rightarrow> (case r of Inl e \<Rightarrow> False | Inr l \<Rightarrow> length (lo_payloads l) = 4) | None \<Rightarrow> False"
  by code_simp

lemma sample_declared:
  "case spawn_sample ''x'' ''y'' of
     Some (f, t, r, w) \<Rightarrow> length (declared_view (it_node t)) = 4 \<and> valid_node (it_node t) | None \<Rightarrow> False"
  by code_simp

lemma sample_added:
  "case spawn_sample ''x'' ''y'' of
     Some (f, t, r, w) \<Rightarrow> (case add_actor_spec (actor_spec_new ''c'') t (fo_store f) of
        (Inr (b, t'), w) \<Rightarrow> \<not> isl (fst (into_parts t' w)) | _ \<Rightarrow> False)
   | None \<Rightarrow> False"
  by code_simp

lemma sample_refused:
  "case spawn_sample ''t'' ''y'' of
     Some (f, t, r, w) \<Rightarrow> r = Inl (TreeBuild (DuplicateChildId ''t'')) \<and> unambiguous (it_node t)
       \<and> length (it_reservations t) = 3
   | None \<Rightarrow> False"
  by code_simp

lemma sample_duplicate:
  "case spawn_sample ''x'' ''x'' of
     Some (f, t, r, w) \<Rightarrow> r = Inl (TreeBuild (DuplicateChildId ''x''))
       \<and> map chan (it_reservations t) = [0, 1, 2] \<and> ended w 0 \<and> \<not> ended w 1 \<and> ended w 2
   | None \<Rightarrow> False"
  by code_simp

lemma sample_length: "Suc (length (sample_ops i j)) < 2 ^ 64"
  by (simp add: sample_ops_def)

section \<open>Guarantees\<close>

lemma forest_run_new:
  assumes "Suc (length ops) < 2 ^ 64"
  shows "\<exists>f. forest_run ops forest_new = Some f \<and> forest_ok f"
  by (rule forest_run_ok) (use assms in \<open>simp_all add: forest_new_ok\<close>)

lemma reached_forest:
  assumes "Suc (length ops) < 2 ^ 64" "forest_run ops forest_new = Some f"
  shows "forest_ok f" "all_bound f"
  using forest_run_new [OF assms(1)] forest_run_bound [OF assms(2)] assms(2)
  by (auto simp: all_bound_def forest_new_def tree_at_def)

text \<open>
  C5. Declaring trees never panics: whatever sequence of constructors, configuration methods and
  additions of actors, tasks and subtrees a program runs, every assertion on the way holds, and the
  scope handle of every tree it holds shows the declared children, in order, with the restart
  policies they will have.  (The bound is the number of trees after which the reservation
  counter would wrap.)
\<close>

theorem declaring_never_panics:
  assumes "Suc (length ops) < 2 ^ 64"
  shows "\<exists>f. forest_run ops (forest_new :: 'm forest) = Some f
    \<and> (\<forall>k t. tree_at k f = Some t \<longrightarrow> well_reserved (fo_store f) t \<and> shows_children (fo_store f) t)"
proof -
  from forest_run_new [OF assms] obtain f where "forest_run ops (forest_new :: 'm forest) = Some f" "forest_ok f"
    by blast
  with forest_okD(1,2) show ?thesis by blast
qed

theorem declaring_never_panics_witness:
  "\<exists>f. forest_run (sample_ops ''x'' ''y'') forest_new = Some f
    \<and> (\<forall>k t. tree_at k f = Some t \<longrightarrow> well_reserved (fo_store f) t \<and> shows_children (fo_store f) t)"
  by (rule declaring_never_panics [OF sample_length])

text \<open>
  C9. Spawning a declared tree never panics, and it fails exactly when the declaration is invalid:
  a mailbox capacity of zero, a restart policy that does not validate, or an empty or
  duplicate child id anywhere in the tree.  Spawning is the lowering followed by the start of the
  root supervisor, with the assertions that the root's identity is classified and installed once and
  the expectations that it is fresh and binds.  A spawned root has the declared children, with
  the lineages its handle has been showing, runs on the identity of that handle, and is in a
  consistent state.
\<close>

theorem spawn_fails_iff_invalid:
  assumes "Suc (length ops) < 2 ^ 64" "forest_run ops forest_new = Some f" "tree_at k f = Some t"
    and "env_ok E"
  shows "case tree_spawn E done_rx now t (fo_store f) of
      (Inl TreePanic, _) \<Rightarrow> False
    | (Inl (TreeBuild e), _) \<Rightarrow> \<not> valid_node (it_node t)
    | (Inr s, w) \<Rightarrow> valid_node (it_node t) \<and> consistent s
        \<and> roster s = map (\<lambda>c. (cs_id c, cs_lineage c)) (declared_view (it_node t))
        \<and> (\<exists>n. tree_scope t = Some n \<and> channels_at n w = rt_own s)"
proof -
  note D = forest_okD [OF reached_forest(1) [OF assms(1,2)] assms(3)]
  have len: "length (declared_children (it_node t)) \<le> u64_max"
    using forest_run_narrow [OF assms(2), of 0 k t] assms(1,3)
    by (simp add: forest_new_narrow u64_max_def)
  show ?thesis
  proof (cases "into_parts t (fo_store f)")
    case (Pair res w)
    show ?thesis
    proof (cases res)
      case (Inl e)
      with spawn_post [OF D(1)] Pair show ?thesis
        by (auto simp: tree_spawn_def and_then_def split: tree_error.splits)
    next
      case (Inr l)
      have "lo_channels l \<in> set (lowered_ids l)" by (cases l) simp
      with Inr spawn_post [OF D(1)] Pair have l: "valid_node (it_node t)" "tree_scope t = Some (lo_channels l)"
        "ss_children (initial_snapshot (lo_config l)) = declared_view (it_node t)" "live w (lo_channels l)"
        by auto
      have "proper_node (it_node t)" using D(1) by (simp add: well_reserved_def)
      from supervisor_spawn_starts [OF assms(4) l(1) this l(3) len l(4)]
      obtain s w' where "supervisor_spawn E done_rx now l w = (Inr s, w')" "consistent s"
        "roster s = map (\<lambda>c. (cs_id c, cs_lineage c)) (declared_view (it_node t))"
        "channels_at (lo_channels l) w' = rt_own s" by blast
      with Inr Pair l show ?thesis by (simp add: tree_spawn_def and_then_def)
    qed
  qed
qed

theorem spawn_fails_iff_invalid_witness:
  "\<exists>f t s w. forest_run (sample_ops ''x'' ''y'') forest_new = Some f \<and> tree_at 0 f = Some t
    \<and> env_ok sample_env \<and> tree_spawn sample_env 0 0 t (fo_store f) = (Inr s, w)
    \<and> valid_node (it_node t) \<and> consistent s
    \<and> roster s = map (\<lambda>c. (cs_id c, cs_lineage c)) (declared_view (it_node t)) \<and> length (roster s) = 4"
proof -
  obtain f t where ft: "forest_run (sample_ops ''x'' ''y'') forest_new = Some f" "tree_at 0 f = Some t"
    and d: "length (declared_view (it_node t)) = 4 \<and> valid_node (it_node t)"
    by (rule spawn_sampleE [OF sample_declared])
  obtain res w where r: "tree_spawn sample_env 0 0 t (fo_store f) = (res, w)"
    by (cases "tree_spawn sample_env 0 0 t (fo_store f)")
  note S = spawn_fails_iff_invalid [OF sample_length ft sample_env_ok, of 0 0, unfolded r split]
  obtain s where s: "res = Inr s" using S d by (cases res) (auto split: tree_error.splits)
  from S have S': "valid_node (it_node t) \<and> consistent s
      \<and> roster s = map (\<lambda>c. (cs_id c, cs_lineage c)) (declared_view (it_node t))" by (simp add: s)
  moreover have "length (roster s) = 4"
    unfolding S' [THEN conjunct2, THEN conjunct2] using d by simp
  ultimately show ?thesis
    using ft r s sample_env_ok by (intro exI [of _ f] exI [of _ t] exI [of _ s] exI [of _ w] conjI) simp_all
qed

text \<open>
  C8. A spawned tree is the declared one: the supervisors built say about themselves what the outline
  of the declaration says, the identity of every scope handle is used for exactly one of
  them, the root's handle among them for the root, and the running root starts with the children its
  handle has been showing.
\<close>

theorem spawned_tree_is_the_declared_one:
  assumes "Suc (length ops) < 2 ^ 64" "forest_run ops forest_new = Some f" "tree_at k f = Some t"
    and "into_parts t (fo_store f) = (Inr l, w)"
  shows "lowered_outline w l = outline (it_node t)
    \<and> distinct (lowered_ids l) \<and> set (lowered_ids l) = chan ` set (it_reservations t)
    \<and> tree_scope t = Some (lo_channels l)
    \<and> shown_children (lo_channels l) (fo_store f) = ss_children (initial_snapshot (lo_config l))"
proof -
  note D = forest_okD [OF reached_forest(1) [OF assms(1,2)] assms(3)]
  from spawn_post [OF D(1)] assms(4) D(2) show ?thesis by (auto simp: shows_children_def)
qed


theorem spawned_tree_is_the_declared_one_witness:
  "\<exists>f t l w. into_parts t (fo_store f) = (Inr l, w) \<and> length (lo_payloads l) = 4
    \<and> lowered_outline w l = outline (it_node t)
    \<and> distinct (lowered_ids l) \<and> set (lowered_ids l) = chan ` set (it_reservations (t :: unit identity_tree))
    \<and> tree_scope t = Some (lo_channels l)
    \<and> shown_children (lo_channels l) (fo_store (f :: unit forest)) = ss_children (initial_snapshot (lo_config l))"
proof -
  obtain f t r w where s: "forest_run (sample_ops ''x'' ''y'') forest_new = Some f" "tree_at 0 f = Some t"
    "into_parts t (fo_store f) = (r, w)" "case r of Inl e \<Rightarrow> False | Inr l \<Rightarrow> length (lo_payloads l) = 4"
    by (rule spawn_sampleE [OF sample_spawned])
  from s(4) obtain l where l: "r = Inr l" "length (lo_payloads l) = 4" by (auto split: sum.splits)
  from spawned_tree_is_the_declared_one [OF sample_length s(1,2)] s(3) l show ?thesis by blast
qed

text \<open>
  C10. References survive the spawn: the reference an actor declaration hands out names the binding of the
  actor that is spawned for it, and the bindings of a spawned tree are those handed out, in the
  order of the declarations.
\<close>

theorem references_reach_their_actors:
  assumes "Suc (length ops) < 2 ^ 64" "forest_run ops forest_new = Some f" "tree_at k f = Some t"
    and "add_actor_spec a t (fo_store f) = (Inr (b, t'), w)" "into_parts t' w = (Inr l, w')"
  shows "map Some (lowered_bindings l) = declared_bindings (it_node t) @ [Some b]"
proof -
  have "None \<notin> set (declared_bindings (it_node t))"
    using reached_forest(2) [OF assms(1,2)] assms(3) by (auto simp: all_bound_def)
  with add_actor_bindings [OF assms(4)] have t': "None \<notin> set (declared_bindings (it_node t'))" by simp
  from assms(5) obtain s where "lower (it_node t') (w, it_reservations t') = (Inr l, s)"
    by (auto simp: into_parts_def split: prod.splits sum.splits if_splits)
  from lower_bindings(1) [OF this t'] add_actor_bindings [OF assms(4)] show ?thesis by simp
qed


theorem references_reach_their_actors_witness:
  "\<exists>f t b t' w l w'. forest_run (sample_ops ''x'' ''y'') forest_new = Some f \<and> tree_at 0 f = Some t
    \<and> add_actor_spec (actor_spec_new ''c'') t (fo_store f) = (Inr (b, t'), w) \<and> into_parts t' w = (Inr l, w')
    \<and> map Some (lowered_bindings l) = declared_bindings (it_node t) @ [Some b]"
proof -
  obtain f t r w where s: "forest_run (sample_ops ''x'' ''y'') forest_new = Some f" "tree_at 0 f = Some t"
    and r: "case add_actor_spec (actor_spec_new ''c'') t (fo_store f) of
        (Inr (b, t'), w) \<Rightarrow> \<not> isl (fst (into_parts t' w)) | _ \<Rightarrow> False"
    by (rule spawn_sampleE [OF sample_added])
  from r obtain b t' w where
    a: "add_actor_spec (actor_spec_new ''c'') t (fo_store f) = (Inr (b, t'), w)" "\<not> isl (fst (into_parts t' w))"
    by (auto split: prod.splits sum.splits)
  then obtain l w' where p: "into_parts t' w = (Inr l, w')"
    by (cases "into_parts t' w"; cases "fst (into_parts t' w)") auto
  with s a(1) references_reach_their_actors [OF sample_length s a(1) p] show ?thesis by blast
qed

text \<open>
  C36. A failed spawn makes every scope handle of the tree terminal, provided that no two subtrees of
  one scope have the same id.
\<close>

theorem failed_spawn_ends_handles:
  assumes "Suc (length ops) < 2 ^ 64" "forest_run ops forest_new = Some f" "tree_at k f = Some t"
    and "into_parts t (fo_store f) = (Inl e, w)" "unambiguous (it_node t)"
  shows "\<forall>r \<in> set (it_reservations t). ended w (chan r)"
  using spawn_post [OF forest_okD(1) [OF reached_forest(1) [OF assms(1,2)] assms(3)]] assms(4,5)
  by (cases e) auto


theorem failed_spawn_ends_handles_witness:
  "\<exists>f t w. into_parts t (fo_store f) = (Inl (TreeBuild (DuplicateChildId ''t'')), w)
    \<and> length (it_reservations (t :: unit identity_tree)) = 3
    \<and> (\<forall>r \<in> set (it_reservations t). ended w (chan r)) \<and> tree_at 0 (f :: unit forest) = Some t"
proof -
  obtain f t r w where s: "forest_run (sample_ops ''t'' ''y'') forest_new = Some f" "tree_at 0 f = Some t"
    "into_parts t (fo_store f) = (r, w)"
    "r = Inl (TreeBuild (DuplicateChildId ''t'')) \<and> unambiguous (it_node t) \<and> length (it_reservations t) = 3"
    by (rule spawn_sampleE [OF sample_refused])
  from failed_spawn_ends_handles [OF sample_length s(1,2)] s show ?thesis by blast
qed

text \<open>
  Without that proviso a handle can outlive the failure, as in this example: two subtrees with one id make the spawn fail
  with a duplicate-id error, and the identity of the first is never marked terminal, because
  its registration was overwritten after its builder had given up the duty to terminate it.
\<close>

lemma duplicate_subtree_outlives_failed_spawn:
  "\<exists>f t w. forest_run (sample_ops ''x'' ''x'') forest_new = Some f \<and> tree_at 0 f = Some t
    \<and> into_parts t (fo_store f) = (Inl (TreeBuild (DuplicateChildId ''x'')), w)
    \<and> map chan (it_reservations t) = [0, 1, 2] \<and> ended w 0 \<and> \<not> ended w 1 \<and> ended w 2"
proof -
  obtain f t r w where "forest_run (sample_ops ''x'' ''x'') forest_new = Some f" "tree_at 0 f = Some t"
    "into_parts t (fo_store f) = (r, w)"
    "r = Inl (TreeBuild (DuplicateChildId ''x'')) \<and> map chan (it_reservations t) = [0, 1, 2]
      \<and> ended w 0 \<and> \<not> ended w 1 \<and> ended w 2"
    by (rule spawn_sampleE [OF sample_duplicate])
  then show ?thesis by auto
qed

end
