(* ===== verification/Scope_Handle.thy ===== *)
theory Scope_Handle
  imports Stable_Channels
begin

text \<open>
  Waiting on a supervisor through its handle (\<open>supervisor/handle.rs\<close>, \<open>SupervisorHandle\<close>):
  \<open>wait\<close> and \<open>wait_started\<close> as state machines that advance one poll at a time, interleaved with
  every transition of the identity they watch and with the completion channels of its
  incarnations.  A wake-up of the binding-revision channel is seen as a change of the revision.
\<close>

section \<open>What a handle can observe\<close>

text \<open>
  A completion channel: no result yet, a result, or closed without one.  The join slot of a root
  holds the task's handle until a waiter takes it; \<open>sw_joined\<close> is the outcome of joining, on the
  left the message of a join error.
\<close>

datatype done_channel = DoneOpen | DoneSent "supervisor_error + unit" | DoneClosed

record scope_world =
  sw_own :: stable_channels
  sw_done :: "nat \<Rightarrow> done_channel"
  sw_root_done :: nat
  sw_join_state :: bool
  sw_joined :: "(string + (supervisor_error + unit)) option"

definition current_binding :: "stable_channels \<Rightarrow> incarnation_binding option" where
  "current_binding c = (if st_terminal c then None else st_current c)"

definition handle_shutdown :: "stable_channels \<Rightarrow> stable_channels" where
  "handle_shutdown c =
     (case current_binding c of
        None \<Rightarrow> c
      | Some b \<Rightarrow> c\<lparr>st_signalled := st_signalled c @ [ib_epoch b]\<rparr>)"

definition control_endpoint :: "stable_channels \<Rightarrow> control_error + u64" where
  "control_endpoint c =
     (case current_binding c of None \<Rightarrow> Inl Unavailable | Some b \<Rightarrow> Inr (ib_epoch b))"

definition handle_kind :: "stable_channels \<Rightarrow> scope_kind" where
  "handle_kind c = ss_kind (st_snapshot c)"

section \<open>Waiting for the identity to stop\<close>

datatype wait_phase =
    WaitSelect
  | WaitChanged
  | WaitJoin
  | WaitDone nat
  | WaitReturned "supervisor_error + unit"

record scope_waiter =
  wt_seen :: u64
  wt_phase :: wait_phase

definition scope_wait :: "scope_world \<Rightarrow> scope_waiter" where
  "scope_wait w = \<lparr>wt_seen = st_revision (sw_own w), wt_phase = WaitSelect\<rparr>"

definition terminal_error :: supervisor_error where
  "terminal_error = Internal ''supervisor identity is terminal and cannot run again''"

definition completion_closed_error :: supervisor_error where
  "completion_closed_error = Internal ''supervisor completion channel closed''"

definition join_error :: "string \<Rightarrow> supervisor_error" where
  "join_error e = Internal (''supervisor task failed to join: '' @ e)"

definition wait_select :: "scope_waiter \<Rightarrow> scope_world \<Rightarrow> scope_waiter \<times> scope_world" where
  "wait_select v w =
     (case st_root_extra (sw_own w) of
        RootReady \<Rightarrow>
          (case sw_done w (sw_root_done w) of
             DoneSent r \<Rightarrow> (v\<lparr>wt_phase := WaitReturned r\<rparr>, w)
           | _ \<Rightarrow>
               if sw_join_state w then (v\<lparr>wt_phase := WaitJoin\<rparr>, w\<lparr>sw_join_state := False\<rparr>)
               else (v\<lparr>wt_phase := WaitDone (sw_root_done w)\<rparr>, w))
      | RootPending \<Rightarrow> (v\<lparr>wt_phase := WaitChanged\<rparr>, w)
      | NotRoot \<Rightarrow>
          (case wait_target (sw_own w) of
             WaitTerminal (Some d) \<Rightarrow> (v\<lparr>wt_phase := WaitDone d\<rparr>, w)
           | WaitTerminal None \<Rightarrow> (v\<lparr>wt_phase := WaitReturned (Inl terminal_error)\<rparr>, w)
           | _ \<Rightarrow> (v\<lparr>wt_phase := WaitChanged\<rparr>, w)))"

fun wait_poll :: "scope_waiter \<Rightarrow> scope_world \<Rightarrow> scope_waiter \<times> scope_world" where
  "wait_poll v w =
     (case wt_phase v of
        WaitSelect \<Rightarrow> wait_select v w
      | WaitChanged \<Rightarrow>
          if st_revision (sw_own w) = wt_seen v then (v, w)
          else (\<lparr>wt_seen = st_revision (sw_own w), wt_phase = WaitSelect\<rparr>, w)
      | WaitJoin \<Rightarrow>
          (case sw_joined w of
             None \<Rightarrow> (v, w)
           | Some j \<Rightarrow>
               (let r = (case j of Inl e \<Rightarrow> Inl (join_error e) | Inr r \<Rightarrow> r)
                in (v\<lparr>wt_phase := WaitReturned r\<rparr>, w\<lparr>sw_done := (sw_done w)(sw_root_done w := DoneSent r)\<rparr>)))
      | WaitDone d \<Rightarrow>
          (case sw_done w d of
             DoneOpen \<Rightarrow> (v, w)
           | DoneSent r \<Rightarrow> (v\<lparr>wt_phase := WaitReturned r\<rparr>, w)
           | DoneClosed \<Rightarrow> (v\<lparr>wt_phase := WaitReturned (Inl completion_closed_error)\<rparr>, w))
      | WaitReturned r \<Rightarrow> (v, w))"

section \<open>Waiting for startup\<close>

fun view_started :: "child_state_view \<Rightarrow> bool" where
  "view_started (CVRunning p) = True"
| "view_started (CVStopping st p) = st"
| "view_started (CVStopped st e) = st"
| "view_started (CVStarting p) = False"
| "view_started (CVStartupAborted e) = False"

definition active_membership :: "child_snapshot \<Rightarrow> bool" where
  "active_membership c \<longleftrightarrow> cs_membership c = MVActive"

definition all_started :: "supervisor_snapshot \<Rightarrow> bool" where
  "all_started s \<longleftrightarrow> list_all (\<lambda>c. active_membership c \<longrightarrow> view_started (cs_state c)) (ss_children s)"

fun is_aborted :: "child_state_view \<Rightarrow> bool" where
  "is_aborted (CVStartupAborted e) = True"
| "is_aborted _ = False"

definition aborted_child :: "supervisor_snapshot \<Rightarrow> child_snapshot option" where
  "aborted_child s = List.find (\<lambda>c. active_membership c \<and> is_aborted (cs_state c)) (ss_children s)"

datatype start_phase =
    StartLoop
  | StartUnbound
  | StartSelect
  | StartStopping scope_waiter
  | StartReturned "supervisor_error + unit"

record start_waiter =
  sa_seen :: u64
  sa_snapshot :: supervisor_snapshot
  sa_phase :: start_phase

definition scope_wait_started :: "scope_world \<Rightarrow> start_waiter" where
  "scope_wait_started w =
     \<lparr>sa_seen = st_revision (sw_own w), sa_snapshot = st_snapshot (sw_own w), sa_phase = StartLoop\<rparr>"

definition startup_terminal_error :: supervisor_error where
  "startup_terminal_error = StartupAborted ''supervisor became terminal before startup''"

definition stopped_before_ready_error :: supervisor_error where
  "stopped_before_ready_error = StartupAborted ''supervisor stopped before all children reported readiness''"

definition child_aborted_error :: "string \<Rightarrow> supervisor_error" where
  "child_aborted_error i = StartupAborted (''child `'' @ i @ ''` exited before reporting readiness'')"

definition start_loop :: "start_waiter \<Rightarrow> scope_world \<Rightarrow> start_waiter" where
  "start_loop v w =
     (case startup_snapshot (sw_own w) of
        StartupTerminal \<Rightarrow> v\<lparr>sa_phase := StartReturned (Inl startup_terminal_error)\<rparr>
      | StartupUnbound \<Rightarrow> v\<lparr>sa_phase := StartUnbound\<rparr>
      | StartupBound s \<Rightarrow>
          v\<lparr>sa_snapshot := s,
            sa_phase :=
              (if all_started s then StartReturned (Inr ())
               else case aborted_child s of
                 Some c \<Rightarrow> StartReturned (Inl (child_aborted_error (cs_id c)))
               | None \<Rightarrow> if ss_state s = SVStopped then StartStopping (scope_wait w) else StartSelect)\<rparr>)"

text \<open>
  With both sources ready the unbiased select takes either; \<open>first\<close> says whether it looks at the
  snapshots first.  A closed snapshot channel reports a value not yet seen before its closing.
\<close>

definition start_select :: "bool \<Rightarrow> start_waiter \<Rightarrow> scope_world \<Rightarrow> start_waiter" where
  "start_select first v w =
     (let c = sw_own w;
          revised = (st_revision c \<noteq> sa_seen v);
          changed = (st_snapshot c \<noteq> sa_snapshot v);
          closed = (\<not> st_snapshot_open c);
          by_revision = v\<lparr>sa_seen := st_revision c, sa_phase := StartLoop\<rparr>;
          by_snapshot = (if changed then v\<lparr>sa_snapshot := st_snapshot c, sa_phase := StartLoop\<rparr>
                         else v\<lparr>sa_phase := StartReturned (Inl stopped_before_ready_error)\<rparr>)
      in if (changed \<or> closed) \<and> (first \<or> \<not> revised) then by_snapshot
         else if revised then by_revision else v)"

fun start_poll :: "bool \<Rightarrow> start_waiter \<Rightarrow> scope_world \<Rightarrow> start_waiter \<times> scope_world" where
  "start_poll first v w =
     (case sa_phase v of
        StartLoop \<Rightarrow> (start_loop v w, w)
      | StartUnbound \<Rightarrow>
          if st_revision (sw_own w) = sa_seen v then (v, w)
          else (v\<lparr>sa_seen := st_revision (sw_own w), sa_phase := StartLoop\<rparr>, w)
      | StartSelect \<Rightarrow> (start_select first v w, w)
      | StartStopping u \<Rightarrow>
          (let (u', w') = wait_poll u w
           in (v\<lparr>sa_phase :=
                 (case wt_phase u' of
                    WaitReturned (Inl e) \<Rightarrow> StartReturned (Inl e)
                  | WaitReturned (Inr _) \<Rightarrow> StartReturned (Inl stopped_before_ready_error)
                  | _ \<Rightarrow> StartStopping u')\<rparr>, w'))
      | StartReturned r \<Rightarrow> (v, w))"

section \<open>Interleavings\<close>

text \<open>
  The transitions of an identity: binding and releasing an incarnation, publishing a snapshot,
  the end of the identity, a root being marked and its join slot installed (once, and only while
  the identity can still run), a completion channel receiving a result or being dropped, and the
  root's task being joined.
\<close>

datatype scope_event =
    EvBind u64 nat supervisor_snapshot "attached_child_state list"
  | EvUnbind u64
  | EvPublish u64 supervisor_snapshot
  | EvTerminal
  | EvMarkRoot
  | EvInstallRoot nat
  | EvDone nat "supervisor_error + unit"
  | EvDoneDropped nat
  | EvJoined "string + (supervisor_error + unit)"

fun scope_step :: "scope_event \<Rightarrow> scope_world \<Rightarrow> scope_world" where
  "scope_step (EvBind g d s as) w = w\<lparr>sw_own := snd (bind_prepared g d s as (sw_own w))\<rparr>"
| "scope_step (EvUnbind e) w = w\<lparr>sw_own := binding_guard_drop e (sw_own w)\<rparr>"
| "scope_step (EvPublish e s) w = w\<lparr>sw_own := publish_snapshot_slot e s (sw_own w)\<rparr>"
| "scope_step EvTerminal w = w\<lparr>sw_own := terminal (sw_own w)\<rparr>"
| "scope_step EvMarkRoot w =
     (if st_terminal (sw_own w) then w
      else case mark_root (sw_own w) of None \<Rightarrow> w | Some c \<Rightarrow> w\<lparr>sw_own := c\<rparr>)"
| "scope_step (EvInstallRoot d) w =
     (case install_root_extra (sw_own w) of
        None \<Rightarrow> w
      | Some c \<Rightarrow> w\<lparr>sw_own := c, sw_root_done := d, sw_join_state := True\<rparr>)"
| "scope_step (EvDone d r) w = (if sw_done w d = DoneClosed then w else w\<lparr>sw_done := (sw_done w)(d := DoneSent r)\<rparr>)"
| "scope_step (EvDoneDropped d) w = (if sw_done w d = DoneOpen then w\<lparr>sw_done := (sw_done w)(d := DoneClosed)\<rparr> else w)"
| "scope_step (EvJoined j) w = (if sw_joined w = None then w\<lparr>sw_joined := Some j\<rparr> else w)"

text \<open>An execution as one waiter sees it: transitions of the world, and its own polls.\<close>

fun wait_run :: "scope_event option list \<Rightarrow> scope_waiter \<times> scope_world \<Rightarrow> scope_waiter \<times> scope_world" where
  "wait_run [] x = x"
| "wait_run (None # evs) x = wait_run evs (wait_poll (fst x) (snd x))"
| "wait_run (Some e # evs) x = wait_run evs (fst x, scope_step e (snd x))"

fun start_run :: "(scope_event + bool) list \<Rightarrow> start_waiter \<times> scope_world \<Rightarrow> start_waiter \<times> scope_world" where
  "start_run [] x = x"
| "start_run (Inr first # evs) x = start_run evs (start_poll first (fst x) (snd x))"
| "start_run (Inl e # evs) x = start_run evs (fst x, scope_step e (snd x))"

definition scope_world_new :: "supervisor_snapshot \<Rightarrow> attached_child_state list \<Rightarrow> scope_world" where
  "scope_world_new s as =
     \<lparr>sw_own = stable_new s as, sw_done = (\<lambda>_. DoneOpen), sw_root_done = 0, sw_join_state = False, sw_joined = None\<rparr>"

definition scope_history :: "scope_event list \<Rightarrow> supervisor_snapshot \<Rightarrow> attached_child_state list \<Rightarrow> scope_world" where
  "scope_history es s as = fold scope_step es (scope_world_new s as)"

section \<open>What a wait reports\<close>

text \<open>
  The specification: the result of a root is that of its completion channel, the result of a nested identity
  that of its last incarnation, once no further incarnation can run.
\<close>

fun done_result :: "done_channel \<Rightarrow> (supervisor_error + unit) option" where
  "done_result DoneOpen = None"
| "done_result (DoneSent r) = Some r"
| "done_result DoneClosed = Some (Inl completion_closed_error)"

definition stop_result :: "scope_world \<Rightarrow> (supervisor_error + unit) option" where
  "stop_result w =
     (case st_root_extra (sw_own w) of
        RootReady \<Rightarrow> done_result (sw_done w (sw_root_done w))
      | RootPending \<Rightarrow> None
      | NotRoot \<Rightarrow>
          if \<not> st_terminal (sw_own w) then None
          else (case st_last_done (sw_own w) of
                  None \<Rightarrow> Some (Inl terminal_error)
                | Some d \<Rightarrow> done_result (sw_done w d)))"

definition released :: "stable_channels \<Rightarrow> bool" where
  "released c \<longleftrightarrow> (st_terminal c \<longrightarrow> st_current c = None)"

text \<open>A waiter past the selection waits for the right channel.\<close>

definition targeted :: "scope_waiter \<Rightarrow> scope_world \<Rightarrow> bool" where
  "targeted v w \<longleftrightarrow> released (sw_own w)
     \<and> (case wt_phase v of
          WaitDone d \<Rightarrow>
            (st_root_extra (sw_own w) = RootReady \<and> sw_root_done w = d)
            \<or> (st_root_extra (sw_own w) = NotRoot \<and> st_terminal (sw_own w) \<and> st_last_done (sw_own w) = Some d)
        | WaitJoin \<Rightarrow> st_root_extra (sw_own w) = RootReady
        | _ \<Rightarrow> True)"

lemma bind_terminal: "st_terminal c \<Longrightarrow> bind_prepared g d s as c = (None, c)"
  by (simp add: bind_prepared_def)

lemma bind_fields [simp]:
  "st_root_extra (snd (bind_prepared g d s as c)) = st_root_extra c"
  "st_terminal (snd (bind_prepared g d s as c)) = st_terminal c"
  "st_last_done (snd (bind_prepared g d s as c)) = st_last_done c"
  by (simp_all add: bind_prepared_def Let_def bump_binding_revision_def split: prod.split)

lemma unbind_fields [simp]:
  "st_root_extra (binding_guard_drop e c) = st_root_extra c"
  "st_terminal (binding_guard_drop e c) = st_terminal c"
  by (simp_all add: binding_guard_drop_def bump_binding_revision_def invalidate_attachment_view_def split: option.split)

lemma terminal_kept [simp]:
  "st_root_extra (terminal c) = st_root_extra c"
  "st_current c = None \<Longrightarrow> st_last_done (terminal c) = st_last_done c"
  by (simp_all add: terminal_def Let_def bump_binding_revision_def split: option.split)

definition rooted :: "stable_channels \<Rightarrow> stable_channels" where
  "rooted c = c\<lparr>st_root_extra := RootPending, st_attached := (st_attached c)\<lparr>av_generation := None\<rparr>\<rparr>"

lemma rooted_fields [simp]:
  "st_root_extra (rooted c) = RootPending" "st_terminal (rooted c) = st_terminal c"
  "st_current (rooted c) = st_current c" "st_revision (rooted c) = st_revision c"
  by (simp_all add: rooted_def)

lemma mark_root_step:
  "scope_step EvMarkRoot w =
     (if st_root_extra (sw_own w) = NotRoot \<and> \<not> st_terminal (sw_own w)
      then w\<lparr>sw_own := rooted (sw_own w)\<rparr> else w)"
  by (simp add: mark_root_def rooted_def)

lemma install_root_step:
  "scope_step (EvInstallRoot d) w =
     (if st_root_extra (sw_own w) = RootPending
      then w\<lparr>sw_own := bump_binding_revision ((sw_own w)\<lparr>st_root_extra := RootReady\<rparr>),
             sw_root_done := d, sw_join_state := True\<rparr> else w)"
  by (simp add: install_root_extra_def)

declare scope_step.simps(5,6) [simp del] mark_root_step [simp] install_root_step [simp]

lemma bump_fields [simp]:
  "st_root_extra (bump_binding_revision c) = st_root_extra c" "st_terminal (bump_binding_revision c) = st_terminal c"
  "st_current (bump_binding_revision c) = st_current c" "st_last_done (bump_binding_revision c) = st_last_done c"
  "st_revision (bump_binding_revision c) = u64_wrapping_succ (st_revision c)"
  by (simp_all add: bump_binding_revision_def)

lemma publish_fields [simp]:
  "st_root_extra (publish_snapshot_slot e s c) = st_root_extra c"
  "st_terminal (publish_snapshot_slot e s c) = st_terminal c"
  "st_current (publish_snapshot_slot e s c) = st_current c"
  "st_last_done (publish_snapshot_slot e s c) = st_last_done c"
  "st_revision (publish_snapshot_slot e s c) = st_revision c"
  by (simp_all add: publish_snapshot_slot_def)

lemma step_released: "released (sw_own w) \<Longrightarrow> released (sw_own (scope_step e w))"
  by (cases e) (auto simp: released_def bind_terminal binding_guard_drop_def bump_binding_revision_def
      invalidate_attachment_view_def split: option.splits)

lemma unbind_last: "st_current c = None \<Longrightarrow> binding_guard_drop e c = c"
  by (simp add: binding_guard_drop_def)

lemma step_targeted: "targeted v w \<Longrightarrow> targeted v (scope_step e w)"
  using step_released [of w e]
  by (cases e) (auto simp: targeted_def released_def unbind_last split: wait_phase.splits)

lemma poll_targeted:
  assumes "targeted v w" "wait_poll v w = (v', w')"
  shows "targeted v' w'"
  using assms
  by (auto simp: targeted_def wait_select_def wait_target_def Let_def
      split: wait_phase.splits root_extra_slot.splits done_channel.splits option.splits if_splits sum.splits)

lemma run_targeted: "targeted (fst x) (snd x) \<Longrightarrow> wait_run evs x = (v, w) \<Longrightarrow> targeted v w"
proof (induction evs x rule: wait_run.induct)
  case (2 evs x)
  then show ?case using poll_targeted [of "fst x" "snd x"] by (cases "wait_poll (fst x) (snd x)") auto
qed (auto intro: step_targeted)

lemma history_released: "released (sw_own (scope_history es s as))"
proof -
  have "released (sw_own (fold scope_step es w))" if "released (sw_own w)" for w
    using that by (induction es arbitrary: w) (auto intro: step_released)
  then show ?thesis by (simp add: scope_history_def scope_world_new_def released_def stable_new_def)
qed

lemma wait_targeted: "released (sw_own w) \<Longrightarrow> targeted (scope_wait w) w"
  by (simp add: targeted_def scope_wait_def)

section \<open>No wake-up is lost\<close>

definition undecided :: "stable_channels \<Rightarrow> bool" where
  "undecided c \<longleftrightarrow> st_root_extra c \<noteq> RootReady \<and> (st_root_extra c = NotRoot \<longrightarrow> \<not> st_terminal c)"

text \<open>
  \<open>alert n seen P\<close>: at most \<open>n\<close> transitions happened since the revision the waiter has seen, and
  either the revision moved on or \<open>P\<close> still holds, a condition that only transitions which move the
  revision can break.
\<close>

definition alert :: "nat \<Rightarrow> u64 \<Rightarrow> (stable_channels \<Rightarrow> bool) \<Rightarrow> stable_channels \<Rightarrow> bool" where
  "alert n seen P c \<longleftrightarrow> seen < 2 ^ 64
     \<and> (\<exists>k \<le> n. st_revision c = (seen + k) mod 2 ^ 64 \<and> (k = 0 \<longrightarrow> P c))"

definition steady :: "(stable_channels \<Rightarrow> bool) \<Rightarrow> bool" where
  "steady P \<longleftrightarrow> (\<forall>c. P c \<longrightarrow> \<not> st_terminal c \<longrightarrow> P (rooted c)) \<and> (\<forall>c e s. P c \<longrightarrow> P (publish_snapshot_slot e s c))"

lemma alert_bump:
  assumes "alert n seen P c" "st_revision c' = u64_wrapping_succ (st_revision c)"
  shows "alert (Suc n) seen P c'"
proof -
  from assms(1) obtain k where k: "k \<le> n" "st_revision c = (seen + k) mod 2 ^ 64" and s: "seen < 2 ^ 64"
    by (auto simp: alert_def)
  have "st_revision c' = (seen + Suc k) mod 2 ^ 64"
    using assms(2) k(2) by (simp add: u64_wrapping_succ_def mod_Suc_eq)
  then show ?thesis using s k(1) unfolding alert_def by (intro conjI exI [of _ "Suc k"]) auto
qed

lemma alert_same:
  assumes "alert n seen P c" "st_revision c' = st_revision c" "P c \<Longrightarrow> P c'"
  shows "alert (Suc n) seen P c'"
proof -
  from assms(1) obtain k where k: "k \<le> n" "st_revision c = (seen + k) mod 2 ^ 64" "k = 0 \<longrightarrow> P c"
    and s: "seen < 2 ^ 64" by (auto simp: alert_def)
  then show ?thesis using assms(2,3) unfolding alert_def by (intro conjI exI [of _ k]) auto
qed

lemma alert_step:
  assumes a: "alert n seen P (sw_own w)" and P: "steady P"
  shows "alert (Suc n) seen P (sw_own (scope_step e w))"
proof -
  have same: "alert (Suc n) seen P (sw_own w)" by (rule alert_same [OF a]) simp_all
  show ?thesis
  proof (cases e)
    case (EvBind g d s as)
    show ?thesis
    proof (cases "st_terminal (sw_own w)")
      case True
      with same EvBind show ?thesis by (simp add: bind_terminal)
    next
      case False
      then show ?thesis
        unfolding EvBind by (intro alert_bump [OF a])
          (simp add: bind_prepared_def Let_def bump_binding_revision_def split: prod.split)
    qed
  next
    case (EvUnbind x)
    show ?thesis
    proof (cases "binding_guard_drop x (sw_own w) = sw_own w")
      case True
      with same EvUnbind show ?thesis by simp
    next
      case False
      then show ?thesis
        unfolding EvUnbind by (intro alert_bump [OF a])
          (auto simp: binding_guard_drop_def bump_binding_revision_def invalidate_attachment_view_def
            split: option.splits if_splits)
    qed
  next
    case (EvPublish x s)
    then show ?thesis using P by (intro alert_same [OF a]) (simp_all add: steady_def)
  next
    case EvTerminal
    then show ?thesis
      by (intro alert_bump [OF a]) (simp add: terminal_def Let_def bump_binding_revision_def split: option.split)
  next
    case EvMarkRoot
    then show ?thesis using same P alert_same [OF a, of "rooted (sw_own w)"] by (simp add: steady_def)
  next
    case (EvInstallRoot d)
    then show ?thesis using same alert_bump [OF a] by simp
  qed (use same in simp_all)
qed

lemma alert_seen:
  assumes "alert n seen P c" "n < 2 ^ 64" "st_revision c = seen"
  shows "P c"
proof -
  from assms obtain k where k: "k \<le> n" "seen = (seen + k) mod 2 ^ 64" "k = 0 \<longrightarrow> P c" "seen < 2 ^ 64"
    by (auto simp: alert_def)
  have "k = 0"
  proof (rule ccontr)
    assume "k \<noteq> 0"
    show False
    proof (cases "seen + k < 2 ^ 64")
      case True
      then show False using k(2) \<open>k \<noteq> 0\<close> by simp
    next
      case False
      then have "(seen + k) mod 2 ^ 64 = seen + k - 2 ^ 64" using k(1,4) assms(2) by (simp add: mod_if)
      then show False using k(1,2) assms(2) False by simp
    qed
  qed
  with k(3) show ?thesis by simp
qed

lemma alert_now: "st_revision c < 2 ^ 64 \<Longrightarrow> P c \<Longrightarrow> alert n (st_revision c) P c"
  unfolding alert_def by (intro conjI exI [of _ 0]) auto

lemma alert_bound: "alert n seen P c \<Longrightarrow> st_revision c < 2 ^ 64"
  by (auto simp: alert_def)

lemma alert_mono: "alert n seen P c \<Longrightarrow> n \<le> m \<Longrightarrow> alert m seen P c"
  unfolding alert_def using le_trans by blast

lemma alert_for: "alert n seen P c \<Longrightarrow> Q c \<Longrightarrow> alert n seen Q c"
  by (auto simp: alert_def)

lemma history_bound: "st_revision (sw_own (scope_history es s as)) < 2 ^ 64"
proof -
  have P: "steady (\<lambda>c. True)" by (simp add: steady_def)
  have all: "st_revision (sw_own (fold scope_step es w)) < 2 ^ 64" if "alert n seen (\<lambda>c. True) (sw_own w)" for n seen w
    using that
  proof (induction es arbitrary: n w)
    case (Cons e es)
    from Cons.IH [OF alert_step [OF Cons.prems P]] show ?case by simp
  qed (auto dest: alert_bound)
  show ?thesis
    unfolding scope_history_def
    by (rule all [of 0 0]) (simp add: alert_def scope_world_new_def stable_new_def)
qed

definition parked :: "scope_waiter \<Rightarrow> stable_channels \<Rightarrow> bool" where
  "parked v c \<longleftrightarrow> (wt_phase v = WaitChanged \<longrightarrow> undecided c)"

lemma parked_steady: "steady (parked v)"
  by (simp add: steady_def parked_def undecided_def)

lemma select_parks:
  "wait_select v w = (v', w') \<Longrightarrow> sw_own w' = sw_own w \<and> wt_seen v' = wt_seen v \<and> parked v' (sw_own w)"
  by (auto simp: wait_select_def wait_target_def undecided_def parked_def
      split: root_extra_slot.splits done_channel.splits option.splits if_splits)

lemma poll_attentive:
  assumes "alert n (wt_seen v) (parked v) (sw_own w)" "wait_poll v w = (v', w')"
  shows "alert n (wt_seen v') (parked v') (sw_own w')"
proof (cases "wt_phase v")
  case WaitSelect
  with assms(2) have "wait_select v w = (v', w')" by simp
  from select_parks [OF this] assms(1) alert_for show ?thesis by metis
next
  case WaitChanged
  with assms alert_now [OF alert_bound [OF assms(1)], of "parked v'"] show ?thesis
    by (auto simp: parked_def split: if_splits)
next
  case (WaitDone d)
  with assms(2) have "sw_own w' = sw_own w" "wt_seen v' = wt_seen v" "parked v' (sw_own w)"
    by (auto simp: parked_def split: done_channel.splits)
  with assms(1) alert_for show ?thesis by metis
next
  case WaitJoin
  with assms(2) have "sw_own w' = sw_own w" "wt_seen v' = wt_seen v" "parked v' (sw_own w)"
    by (auto simp: parked_def Let_def split: option.splits)
  with assms(1) alert_for show ?thesis by metis
qed (use assms in simp)

lemma run_attentive:
  "alert n (wt_seen (fst x)) (parked (fst x)) (sw_own (snd x)) \<Longrightarrow> wait_run evs x = (v, w)
    \<Longrightarrow> alert (n + length evs) (wt_seen v) (parked v) (sw_own w)"
proof (induction evs x arbitrary: n rule: wait_run.induct)
  case (2 evs x)
  obtain v1 w1 where p: "wait_poll (fst x) (snd x) = (v1, w1)" by (metis prod.exhaust)
  from alert_mono [OF poll_attentive [OF "2.prems"(1) p], of "Suc n"] "2.IH" [of "Suc n"] "2.prems"(2) p
  show ?case by simp
next
  case (3 e evs x)
  from "3.IH" [of "Suc n"] alert_step [OF "3.prems"(1) parked_steady] "3.prems"(2) show ?case by simp
qed simp

lemma wait_attentive:
  "wait_run evs (scope_wait (scope_history es s as), scope_history es s as) = (v, w)
    \<Longrightarrow> alert (length evs) (wt_seen v) (parked v) (sw_own w)"
  using run_attentive [of 0 "(scope_wait (scope_history es s as), scope_history es s as)" evs v w]
    alert_now [OF history_bound, of "parked (scope_wait (scope_history es s as))" es s as 0]
  by (simp add: scope_wait_def parked_def)

section \<open>Guarantees of a wait\<close>

text \<open>
  C12. A wait reports how the identity stopped: however its polls interleave with bindings, restarts,
  terminations and completions, when it returns the identity of a nested scope is terminal and
  the result is that of its last incarnation, and a root's result is the one on its completion
  channel.
\<close>

theorem wait_reports_the_stop:
  assumes "wait_run evs (scope_wait (scope_history es s as), scope_history es s as) = (v, w)"
    and "wait_poll v w = (v', w')" "wt_phase v \<noteq> wt_phase v'" "wt_phase v' = WaitReturned r"
  shows "stop_result w' = Some r"
proof -
  have "targeted v w" using run_targeted [OF _ assms(1)] wait_targeted [OF history_released] by simp
  then show ?thesis
    using assms(2-4)
    by (auto simp: targeted_def stop_result_def wait_select_def wait_target_def Let_def
        split: wait_phase.splits root_extra_slot.splits done_channel.splits option.splits if_splits sum.splits)
qed

lemma stopped_wait_returns:
  assumes t: "targeted v w" and "alert n (wt_seen v) (parked v) (sw_own w)" "n < 2 ^ 64"
    and "stop_result w \<noteq> None" "st_root_extra (sw_own w) = RootReady \<longrightarrow> sw_joined w \<noteq> None"
  shows "\<exists>r. wt_phase (fst (wait_run [None, None, None] (v, w))) = WaitReturned r"
proof -
  have p: "wt_phase v = WaitChanged \<Longrightarrow> st_revision (sw_own w) = wt_seen v \<Longrightarrow> undecided (sw_own w)"
    using alert_seen [OF assms(2,3)] by (simp add: parked_def)
  have u: "\<not> undecided (sw_own w)"
    using assms(4) by (auto simp: stop_result_def undecided_def split: root_extra_slot.splits if_splits)
  show ?thesis
    using t u p assms(4,5)
    by (cases "wt_phase v"; cases "st_root_extra (sw_own w)")
      (auto simp: targeted_def stop_result_def wait_select_def wait_target_def Let_def undecided_def
        split: done_channel.splits option.splits if_splits sum.splits)
qed

text \<open>
  C11. No wake-up is lost: once an identity has stopped with a result, and a root's task can be joined,
  three more polls finish any wait that began before or after (as long as fewer than \<open>2\<^sup>64\<close> transitions and
  polls lie in between).
\<close>

theorem wait_returns_once_stopped:
  assumes "wait_run evs (scope_wait (scope_history es s as), scope_history es s as) = (v, w)" "length evs < 2 ^ 64"
    and "stop_result w \<noteq> None" "st_root_extra (sw_own w) = RootReady \<longrightarrow> sw_joined w \<noteq> None"
  shows "\<exists>r. wt_phase (fst (wait_run [None, None, None] (v, w))) = WaitReturned r"
proof -
  have "targeted v w" using run_targeted [OF _ assms(1)] wait_targeted [OF history_released] by simp
  from stopped_wait_returns [OF this wait_attentive [OF assms(1)] assms(2-4)] show ?thesis .
qed

section \<open>Guarantees of a startup wait\<close>

definition start_parked :: "start_waiter \<Rightarrow> stable_channels \<Rightarrow> bool" where
  "start_parked v c \<longleftrightarrow> (sa_phase v = StartUnbound \<longrightarrow> startup_snapshot c = StartupUnbound)
     \<and> (sa_phase v = StartSelect \<longrightarrow> \<not> st_terminal c)"

lemma start_parked_steady: "steady (start_parked v)"
  by (auto simp: steady_def start_parked_def startup_snapshot_def)

definition start_inv :: "nat \<Rightarrow> start_waiter \<Rightarrow> scope_world \<Rightarrow> bool" where
  "start_inv n v w \<longleftrightarrow> alert n (sa_seen v) (start_parked v) (sw_own w)
     \<and> released (sw_own w)
     \<and> (\<forall>u. sa_phase v = StartStopping u \<longrightarrow> targeted u w \<and> alert n (wt_seen u) (parked u) (sw_own w))
     \<and> (sa_phase v = StartSelect \<longrightarrow> \<not> all_started (sa_snapshot v) \<and> aborted_child (sa_snapshot v) = None)"

lemma start_loop_inv:
  assumes "start_inv n v w" "start_loop v w = v'"
  shows "start_inv n v' w"
proof -
  have "sa_seen v' = sa_seen v" "start_parked v' (sw_own w)"
    using assms(2)
    by (auto simp: start_loop_def start_parked_def startup_snapshot_def split: startup_snapshot.splits option.splits if_splits)
  then have "alert n (sa_seen v') (start_parked v') (sw_own w)"
    using assms(1) alert_for unfolding start_inv_def by metis
  moreover have "sa_phase v' = StartSelect \<longrightarrow> \<not> all_started (sa_snapshot v') \<and> aborted_child (sa_snapshot v') = None"
    using assms(2) by (auto simp: start_loop_def split: startup_snapshot.splits option.splits if_splits)
  moreover have "targeted u w \<and> alert n (wt_seen u) (parked u) (sw_own w)" if "sa_phase v' = StartStopping u" for u
  proof -
    have "u = scope_wait w"
      using that assms(2) by (auto simp: start_loop_def split: startup_snapshot.splits option.splits if_splits)
    moreover have "released (sw_own w)" "st_revision (sw_own w) < 2 ^ 64"
      using assms(1) alert_bound by (auto simp: start_inv_def)
    ultimately show ?thesis
      using wait_targeted alert_now [of "sw_own w" "parked u" n] by (simp add: scope_wait_def parked_def)
  qed
  ultimately show ?thesis using assms(1) by (simp add: start_inv_def)
qed

lemma start_inv_settled:
  assumes "start_inv n v w" "sa_seen v' = sa_seen v" "start_parked v' (sw_own w)"
    and "sa_phase v' \<noteq> StartSelect" "\<And>u. sa_phase v' \<noteq> StartStopping u"
  shows "start_inv n v' w"
  using assms alert_for unfolding start_inv_def by metis

lemma start_poll_inv:
  assumes "start_inv n v w" "start_poll first v w = (v', w')"
  shows "start_inv n v' w'"
proof (cases "sa_phase v")
  case StartLoop
  with assms start_loop_inv [of n v w v'] show ?thesis by auto
next
  case (StartStopping u)
  obtain u' w1 where u: "wait_poll u w = (u', w1)" by (metis prod.exhaust)
  have own: "sw_own w1 = sw_own w"
    using u by (auto simp: Let_def split: wait_phase.splits option.splits done_channel.splits if_splits sum.splits
        dest: select_parks)
  have t: "targeted u w" "alert n (wt_seen u) (parked u) (sw_own w)"
    using assms(1) StartStopping by (simp_all add: start_inv_def)
  have t': "targeted u' w1" "alert n (wt_seen u') (parked u') (sw_own w1)"
    by (rule poll_targeted [OF t(1) u], rule poll_attentive [OF t(2) u])
  have "w' = w1" "sa_seen v' = sa_seen v" "start_parked v' (sw_own w)" "sa_phase v' \<noteq> StartSelect"
    "\<forall>y. sa_phase v' = StartStopping y \<longrightarrow> y = u'"
    using assms(2) StartStopping u by (auto simp: start_parked_def split: wait_phase.splits sum.splits)
  moreover from this have "alert n (sa_seen v') (start_parked v') (sw_own w)"
    using assms(1) alert_for unfolding start_inv_def by metis
  ultimately show ?thesis using assms(1) t' own by (auto simp: start_inv_def)
next
  case StartSelect
  note b = alert_bound [of n "sa_seen v" "start_parked v" "sw_own w"]
  have "w' = w" and v': "v' = start_select first v w" using assms(2) StartSelect by auto
  moreover have "alert n (sa_seen v') (start_parked v') (sw_own w)"
    using assms(1) StartSelect b alert_now [of "sw_own w" "start_parked v'" n] alert_for [of n "sa_seen v" "start_parked v" "sw_own w" "start_parked v'"]
    unfolding v' by (auto simp: start_inv_def start_select_def Let_def start_parked_def)
  moreover have "sa_phase v' = StartSelect \<longrightarrow> v' = v" "sa_phase v' \<noteq> StartStopping u" for u
    unfolding v' using StartSelect by (auto simp: start_select_def Let_def)
  ultimately show ?thesis using assms(1) by (auto simp: start_inv_def)
next
  case StartUnbound
  note b = alert_bound [of n "sa_seen v" "start_parked v" "sw_own w"]
  show ?thesis
    using assms StartUnbound b alert_now [of "sw_own w" "start_parked v'" n]
    by (auto simp: start_inv_def start_parked_def split: if_splits)
qed (use assms in simp)

lemma start_run_inv:
  "start_inv n (fst x) (snd x) \<Longrightarrow> start_run evs x = (v, w) \<Longrightarrow> start_inv (n + length evs) v w"
proof (induction evs x arbitrary: n rule: start_run.induct)
  case (2 first evs x)
  obtain v1 w1 where p: "start_poll first (fst x) (snd x) = (v1, w1)" by (metis prod.exhaust)
  have "start_inv (Suc n) v1 w1"
    using start_poll_inv [OF "2.prems"(1) p] alert_mono [of n _ _ _ "Suc n"] unfolding start_inv_def by auto
  with "2.IH" [of "Suc n"] "2.prems"(2) p show ?case by simp
next
  case (3 e evs x)
  from "3.prems"(1) alert_step [OF _ start_parked_steady] alert_step [OF _ parked_steady] step_targeted step_released
  have "start_inv (Suc n) (fst x) (scope_step e (snd x))" by (simp add: start_inv_def)
  with "3.IH" [of "Suc n"] "3.prems"(2) show ?case by simp
qed simp

text \<open>What a startup wait has to report, and that reporting is final.\<close>

definition start_verdict :: "scope_world \<Rightarrow> supervisor_snapshot \<Rightarrow> supervisor_error + unit \<Rightarrow> bool" where
  "start_verdict w x r \<longleftrightarrow> (r = Inr () \<longleftrightarrow> startup_snapshot (sw_own w) = StartupBound x \<and> all_started x)"

definition start_decided :: "scope_world \<Rightarrow> supervisor_snapshot \<Rightarrow> bool" where
  "start_decided w x \<longleftrightarrow> startup_snapshot (sw_own w) = StartupBound x \<and> (all_started x \<or> aborted_child x \<noteq> None)
     \<or> startup_snapshot (sw_own w) = StartupTerminal"

lemma start_stays: "sa_phase y = StartReturned r \<Longrightarrow> start_run (map Inr fs) (y, w) = (y, w)"
  by (induction fs) auto

lemma start_loop_decides:
  assumes "start_decided w x"
  shows "\<exists>r. sa_phase (start_loop v w) = StartReturned r \<and> start_verdict w x r"
  using assms by (auto simp: start_loop_def start_decided_def start_verdict_def split: option.split)

lemma start_polls_decide:
  assumes "start_decided w x" "sa_phase v = StartLoop"
  shows "\<exists>r. sa_phase (fst (start_run (map Inr (f # fs)) (v, w))) = StartReturned r \<and> start_verdict w x r"
proof -
  from start_loop_decides [OF assms(1)] obtain r where r: "sa_phase (start_loop v w) = StartReturned r" "start_verdict w x r"
    by blast
  from start_stays [OF r(1), of fs] assms(2) r show ?thesis by simp
qed

lemma start_select_decides:
  assumes "start_inv n v w" "n < 2 ^ 64" "start_decided w x" "sa_phase v = StartSelect"
  shows "sa_phase (start_select f v w) = StartLoop
    \<or> (st_terminal (sw_own w) \<and> (\<exists>e. sa_phase (start_select f v w) = StartReturned (Inl e)))"
proof -
  have t: "st_terminal (sw_own w) \<Longrightarrow> st_revision (sw_own w) \<noteq> sa_seen v"
    using alert_seen [of n "sa_seen v" "start_parked v" "sw_own w"] assms
    by (auto simp: start_inv_def start_parked_def)
  have s: "startup_snapshot (sw_own w) = StartupBound x \<Longrightarrow> st_snapshot (sw_own w) \<noteq> sa_snapshot v"
    using assms by (auto simp: start_inv_def start_decided_def startup_snapshot_def split: if_splits)
  show ?thesis
    using t s assms(3) by (auto simp: start_select_def Let_def start_decided_def startup_snapshot_def split: if_splits)
qed

text \<open>
  Once the snapshot of a stopped incarnation made it give up, a startup wait is a wait for the
  identity's stop, and it reports an error whatever that stop reports.
\<close>

lemma stopping_polls:
  "sa_phase v = StartStopping u \<Longrightarrow>
   wt_phase (fst (wait_run (map (\<lambda>_. None) (f # fs)) (u, w))) = WaitReturned r \<Longrightarrow>
   \<exists>e. sa_phase (fst (start_run (map Inr (f # fs)) (v, w))) = StartReturned (Inl e)"
proof (induction fs arbitrary: f v u w)
  case Nil
  then show ?case by (cases "wait_poll u w"; cases r) (auto simp del: wait_poll.simps)
next
  case (Cons g fs)
  obtain u1 w1 where u1: "wait_poll u w = (u1, w1)" by (metis prod.exhaust)
  obtain v1 where v1: "start_poll f v w = (v1, w1)"
    "sa_phase v1 = (case wt_phase u1 of WaitReturned (Inl e) \<Rightarrow> StartReturned (Inl e)
       | WaitReturned (Inr _) \<Rightarrow> StartReturned (Inl stopped_before_ready_error) | _ \<Rightarrow> StartStopping u1)"
    using Cons.prems(1) u1 by (simp del: wait_poll.simps)
  show ?case
  proof (cases "\<exists>x. wt_phase u1 = WaitReturned x")
    case True
    with v1(2) obtain e where e: "sa_phase v1 = StartReturned (Inl e)" by (auto split: sum.splits)
    from start_stays [OF e, of "g # fs"] e v1(1) show ?thesis by simp
  next
    case False
    with v1(2) have "sa_phase v1 = StartStopping u1" by (cases "wt_phase u1") auto
    from Cons.IH [OF this, of g w1] Cons.prems(2) u1 v1(1) show ?thesis by (simp del: wait_poll.simps)
  qed
qed

text \<open>
  C13. A startup wait settles correctly, however its polls interleave with the transitions of the
  identity and whichever source its select looks at first.  As long as it has not seen its
  incarnation stop: once the bound incarnation has every active child started it returns
  successfully within three polls, and once a child gave up before readiness or the identity became
  terminal it fails within three polls.  A wait that has seen its incarnation stop before every
  child was ready only waits for the identity's stop, whatever later incarnations do: once the
  identity has stopped with a result, and a root's task can be joined, it fails within three polls.
\<close>

theorem startup_wait_settles:
  assumes "start_run evs (scope_wait_started (scope_history es s as), scope_history es s as) = (v, w)" "length evs < 2 ^ 64"
    and "\<And>r. sa_phase v \<noteq> StartReturned r"
  shows "case sa_phase v of
      StartStopping u \<Rightarrow>
        stop_result w \<noteq> None \<and> (st_root_extra (sw_own w) = RootReady \<longrightarrow> sw_joined w \<noteq> None) \<longrightarrow>
        (\<exists>e. sa_phase (fst (start_run [Inr a, Inr b, Inr c] (v, w))) = StartReturned (Inl e))
    | _ \<Rightarrow> start_decided w x \<longrightarrow>
        (\<exists>r. sa_phase (fst (start_run [Inr a, Inr b, Inr c] (v, w))) = StartReturned r \<and> start_verdict w x r)"
proof -
  have "start_inv 0 (scope_wait_started (scope_history es s as)) (scope_history es s as)"
    using alert_now [OF history_bound, of "start_parked (scope_wait_started (scope_history es s as))" es s as 0]
      history_released
    by (simp add: start_inv_def scope_wait_started_def start_parked_def)
  from start_run_inv [of 0 "(scope_wait_started (scope_history es s as), scope_history es s as)" evs v w] this assms(1)
  have inv: "start_inv (length evs) v w" by simp
  show ?thesis
  proof (cases "sa_phase v")
    case (StartStopping u)
    have "\<exists>e. sa_phase (fst (start_run [Inr a, Inr b, Inr c] (v, w))) = StartReturned (Inl e)"
      if "stop_result w \<noteq> None" "st_root_extra (sw_own w) = RootReady \<longrightarrow> sw_joined w \<noteq> None"
    proof -
      have "targeted u w" "alert (length evs) (wt_seen u) (parked u) (sw_own w)"
        using inv StartStopping by (simp_all add: start_inv_def)
      from stopped_wait_returns [OF this assms(2) that]
      obtain r where "wt_phase (fst (wait_run [None, None, None] (u, w))) = WaitReturned r" by blast
      with stopping_polls [OF StartStopping, of a "[b, c]" w r] show ?thesis by (simp only: list.map)
    qed
    then show ?thesis unfolding StartStopping start_phase.case by blast
  next
    case (StartReturned r)
    then show ?thesis using assms(3) [of r] by contradiction
  next
    case StartLoop
    then show ?thesis using start_polls_decide [of w x v a "[b, c]"] unfolding StartLoop start_phase.case
      by (simp only: list.map) blast
  next
    case StartUnbound
    have "st_revision (sw_own w) \<noteq> sa_seen v" if "start_decided w x"
      using alert_seen [of "length evs" "sa_seen v" "start_parked v" "sw_own w"] inv assms(2) that StartUnbound
      by (auto simp: start_inv_def start_parked_def start_decided_def)
    with StartUnbound start_polls_decide [of w x "v\<lparr>sa_seen := st_revision (sw_own w), sa_phase := StartLoop\<rparr>" b "[c]"]
    show ?thesis by simp
  next
    case StartSelect
    have "\<exists>r. sa_phase (fst (start_run [Inr a, Inr b, Inr c] (v, w))) = StartReturned r \<and> start_verdict w x r"
      if d: "start_decided w x"
      using start_select_decides [OF inv assms(2) d StartSelect, of a]
    proof (elim disjE conjE exE)
      assume "sa_phase (start_select a v w) = StartLoop"
      from start_polls_decide [OF d this, of b "[c]"] StartSelect show ?thesis by simp
    next
      fix e assume e: "st_terminal (sw_own w)" "sa_phase (start_select a v w) = StartReturned (Inl e)"
      from start_stays [OF e(2), of "[b, c]"] e StartSelect show ?thesis
        by (simp add: startup_snapshot_def start_verdict_def)
    qed
    with StartSelect show ?thesis by simp
  qed
qed

section \<open>Sample executions\<close>

definition idle_view :: supervisor_snapshot where
  "idle_view = SupervisorSnapshot SVRunning Dynamic OneForOne 0 0 []"

definition restarted_history :: "scope_event option list" where
  "restarted_history =
     [None, Some (EvBind 0 7 idle_view []), None, None, Some (EvDone 7 (Inl RestartIntensityExceeded)), Some (EvUnbind 0), None,
      Some (EvBind 0 8 idle_view []), Some (EvDone 8 (Inr ())), Some (EvUnbind 1), Some EvTerminal]"

definition sample_world :: scope_world where
  "sample_world = scope_history [] idle_view []"

lemmas sample_defs = restarted_history_def sample_world_def scope_history_def scope_world_new_def stable_new_def
  idle_view_def scope_wait_def wait_select_def wait_target_def bind_prepared_def Let_def bump_binding_revision_def
  u64_wrapping_succ_def binding_guard_drop_def invalidate_attachment_view_def terminal_def stop_result_def hub_new_def

lemma wait_run_append: "wait_run (as @ bs) x = wait_run bs (wait_run as x)"
  by (induction as x rule: wait_run.induct) simp_all

lemma sample_phases:
  "wt_phase (fst (wait_run (restarted_history @ [None]) (scope_wait sample_world, sample_world))) = WaitDone 8"
  "wt_phase (fst (wait_poll (fst (wait_run (restarted_history @ [None]) (scope_wait sample_world, sample_world)))
      (snd (wait_run (restarted_history @ [None]) (scope_wait sample_world, sample_world))))) = WaitReturned (Inr ())"
  "stop_result (snd (wait_run restarted_history (scope_wait sample_world, sample_world))) = Some (Inr ())"
  "st_root_extra (sw_own (snd (wait_run restarted_history (scope_wait sample_world, sample_world)))) = NotRoot"
  by (simp_all add: sample_defs)

text \<open>The wait that began before the first incarnation reports the result of the second, the last one.\<close>

theorem wait_reports_the_stop_witness:
  "stop_result (snd (wait_run (restarted_history @ [None, None]) (scope_wait sample_world, sample_world))) = Some (Inr ())"
proof -
  let ?x = "wait_run (restarted_history @ [None]) (scope_wait sample_world, sample_world)"
  have "stop_result (snd (wait_poll (fst ?x) (snd ?x))) = Some (Inr ())"
    using wait_reports_the_stop [of "restarted_history @ [None]" "[]" idle_view "[]" "fst ?x" "snd ?x"
        "fst (wait_poll (fst ?x) (snd ?x))" "snd (wait_poll (fst ?x) (snd ?x))" "Inr ()"] sample_phases(1,2)
    by (simp add: sample_world_def)
  moreover have "wait_run (restarted_history @ [None, None]) (scope_wait sample_world, sample_world)
      = wait_poll (fst ?x) (snd ?x)"
    using wait_run_append [of "restarted_history @ [None]" "[None]"] by (simp del: wait_poll.simps)
  ultimately show ?thesis by (simp only:)
qed

theorem wait_returns_once_stopped_witness:
  "\<exists>r. wt_phase (fst (wait_run [None, None, None] (wait_run restarted_history (scope_wait sample_world, sample_world)))) = WaitReturned r"
  using wait_returns_once_stopped [of restarted_history "[]" idle_view "[]"
      "fst (wait_run restarted_history (scope_wait sample_world, sample_world))"
      "snd (wait_run restarted_history (scope_wait sample_world, sample_world))"] sample_phases(3,4)
  by (simp add: sample_world_def restarted_history_def del: wait_run.simps)

text \<open>
  Two waits on one identity: the first polls before the identity is bound and returns success when
  an incarnation without children is bound; the second has seen its incarnation stop, and fails once
  the identity has stopped although the last incarnation had every child started.
\<close>

definition pending_view :: "supervisor_state_view \<Rightarrow> supervisor_snapshot" where
  "pending_view st = SupervisorSnapshot st Ordered OneForOne 0 0
     [ChildSnapshot ''c'' 0 0 (CVStarting None) MVActive 0 Never False None None]"

definition stopping_history :: "(scope_event + bool) list" where
  "stopping_history =
     [Inl (EvBind 0 7 (pending_view SVRunning) []), Inl (EvPublish 0 (pending_view SVStopped)), Inr True,
      Inl (EvDone 7 (Inr ())), Inl (EvUnbind 0), Inl (EvBind 1 8 idle_view []), Inl (EvDone 8 (Inr ())),
      Inl (EvUnbind 1), Inl EvTerminal]"

theorem startup_wait_settles_witness:
  "(\<exists>r. sa_phase (fst (start_run [Inr False, Inr True, Inr True]
      (start_run [Inr True, Inl (EvBind 0 7 idle_view [])] (scope_wait_started sample_world, sample_world)))) = StartReturned r
    \<and> start_verdict (snd (start_run [Inr True, Inl (EvBind 0 7 idle_view [])] (scope_wait_started sample_world, sample_world))) idle_view r)
   \<and> (\<exists>e. sa_phase (fst (start_run [Inr True, Inr True, Inr True]
      (start_run stopping_history (scope_wait_started sample_world, sample_world)))) = StartReturned (Inl e))"
proof
  let ?x = "start_run [Inr True, Inl (EvBind 0 7 idle_view [])] (scope_wait_started sample_world, sample_world)"
  have "sa_phase (fst ?x) = StartUnbound" "start_decided (snd ?x) idle_view"
    by (simp_all add: sample_defs start_loop_def scope_wait_started_def startup_snapshot_def start_decided_def all_started_def)
  then show "\<exists>r. sa_phase (fst (start_run [Inr False, Inr True, Inr True] ?x)) = StartReturned r \<and> start_verdict (snd ?x) idle_view r"
    using startup_wait_settles [of "[Inr True, Inl (EvBind 0 7 idle_view [])]" "[]" idle_view "[]" "fst ?x" "snd ?x" idle_view
        False True True]
    by (simp add: sample_world_def del: start_run.simps)
next
  let ?y = "start_run stopping_history (scope_wait_started sample_world, sample_world)"
  have y: "(case sa_phase (fst ?y) of StartStopping u \<Rightarrow> True | _ \<Rightarrow> False)"
    "stop_result (snd ?y) = Some (Inr ())" "st_root_extra (sw_own (snd ?y)) = NotRoot"
    by (simp_all add: sample_defs stopping_history_def pending_view_def start_loop_def scope_wait_started_def
        startup_snapshot_def all_started_def aborted_child_def active_membership_def publish_snapshot_slot_def
        owns_binding_def next_lineage_def u64_max_def)
  then obtain u where u: "sa_phase (fst ?y) = StartStopping u" by (auto split: start_phase.splits)
  show "\<exists>e. sa_phase (fst (start_run [Inr True, Inr True, Inr True] ?y)) = StartReturned (Inl e)"
  proof -
    have run: "start_run stopping_history (scope_wait_started (scope_history [] idle_view []), scope_history [] idle_view [])
        = (fst ?y, snd ?y)" by (simp only: sample_world_def [symmetric] prod.collapse)
    have len: "length stopping_history < 2 ^ 64" by (simp add: stopping_history_def)
    have ret: "sa_phase (fst ?y) \<noteq> StartReturned r" for r by (simp only: u) simp
    have "stop_result (snd ?y) \<noteq> None \<and> (st_root_extra (sw_own (snd ?y)) = RootReady \<longrightarrow> sw_joined (snd ?y) \<noteq> None)"
      by (simp only: y(2,3)) simp
    with startup_wait_settles [OF run len ret, where a = True and b = True and c = True]
    show ?thesis unfolding u start_phase.case prod.collapse by blast
  qed
qed

end
