(* ===== verification/Task_Ref.thy ===== *)
theory Task_Ref
  imports Scope_Handle
begin

text \<open>
  Following one task membership (\<open>runtime.rs\<close>, \<open>TaskRef\<close>): the tracker that folds the membership's
  lifecycle events, each with the scope's snapshot at the time it is handled, into what the waits on
  the task report.
\<close>

section \<open>What a snapshot says about a task\<close>

datatype task_ref_error =
    StoppedBeforeReady string
  | TaskReadinessMissed string duration
  | TaskUnavailable string

record task_tracking_state =
  tk_started :: bool
  tk_outcome :: "(task_ref_error + exit_status) option"

definition tracking_default :: task_tracking_state where
  "tracking_default = \<lparr>tk_started = False, tk_outcome = None\<rparr>"

definition task_snapshot :: "supervisor_snapshot \<Rightarrow> string \<Rightarrow> u64 \<Rightarrow> child_snapshot option" where
  "task_snapshot s i l = List.find (\<lambda>c. cs_id c = i \<and> cs_lineage c = l) (ss_children s)"

definition task_is_revivable_by_group :: "supervisor_snapshot \<Rightarrow> child_snapshot \<Rightarrow> bool" where
  "task_is_revivable_by_group s c =
     (if is_never (cs_restart_policy c) then False
      else case ss_strategy s of
        OneForOne \<Rightarrow> False
      | OneForAll \<Rightarrow> True
      | RestForOne \<Rightarrow> (case ss_children s of [] \<Rightarrow> False | first # _ \<Rightarrow> cs_lineage first \<noteq> cs_lineage c))"

definition can_restart :: "supervisor_snapshot \<Rightarrow> child_snapshot \<Rightarrow> exit_status \<Rightarrow> bool" where
  "can_restart s c e \<longleftrightarrow> ss_state s = SVRunning \<and> cs_membership c = MVActive
     \<and> (should_restart (cs_restart_policy c) (status_is_failure e) \<or> task_is_revivable_by_group s c)"

definition task_state_from_snapshot :: "supervisor_snapshot \<Rightarrow> string \<Rightarrow> u64 \<Rightarrow> task_tracking_state option" where
  "task_state_from_snapshot s i l =
     map_option (\<lambda>c.
       \<lparr>tk_started = view_started (cs_state c),
        tk_outcome =
          Option.bind (view_last_exit (cs_state c))
            (\<lambda>e. if view_is_terminal (cs_state c) \<and> \<not> can_restart s c e \<and> cs_next_restart_in c = None
                 then Some (Inr e) else None)\<rparr>) (task_snapshot s i l)"

section \<open>The tracker\<close>

definition matches_task :: "string \<Rightarrow> u64 \<Rightarrow> lifecycle_event \<Rightarrow> bool" where
  "matches_task i l e =
     (case le_kind e of LChild c \<Rightarrow> ev_child_id c = i \<and> ev_lineage c = l | _ \<Rightarrow> False)"

fun event_exit :: "lifecycle_event_kind \<Rightarrow> exit_status option" where
  "event_exit (LChild c) = (case ev_kind c of Exited g x \<Rightarrow> Some x | _ \<Rightarrow> None)"
| "event_exit _ = None"

fun event_removed :: "lifecycle_event_kind \<Rightarrow> bool" where
  "event_removed (LChild c) = (ev_kind c = Removed)"
| "event_removed _ = False"

datatype tracking =
    Tracking (tr_last_exit: "exit_status option") (tr_state: task_tracking_state)
  | Tracked (tr_state: task_tracking_state)

definition final_outcome :: "string \<Rightarrow> exit_status option \<Rightarrow> task_ref_error + exit_status" where
  "final_outcome i lx = (case lx of None \<Rightarrow> Inl (TaskUnavailable i) | Some x \<Rightarrow> Inr x)"

definition tracking_publish :: "exit_status option \<Rightarrow> task_tracking_state \<Rightarrow> tracking" where
  "tracking_publish lx st = (if tk_outcome st \<noteq> None then Tracked st else Tracking lx st)"

definition track_begin :: "string \<Rightarrow> u64 \<Rightarrow> supervisor_snapshot \<Rightarrow> tracking" where
  "track_begin i l s =
     (case task_state_from_snapshot s i l of
        None \<Rightarrow> Tracking None tracking_default
      | Some st \<Rightarrow>
          tracking_publish (case tk_outcome st of Some (Inr x) \<Rightarrow> Some x | _ \<Rightarrow> None) st)"

fun track_event :: "string \<Rightarrow> u64 \<Rightarrow> lifecycle_event \<times> supervisor_snapshot \<Rightarrow> tracking \<Rightarrow> tracking" where
  "track_event i l (e, s) (Tracked st) = Tracked st"
| "track_event i l (e, s) (Tracking lx st) =
     (let m = matches_task i l e;
          lx' = (if m \<and> event_exit (le_kind e) \<noteq> None then event_exit (le_kind e) else lx)
      in if m \<and> event_removed (le_kind e)
         then Tracked \<lparr>tk_started = tk_started st, tk_outcome = Some (final_outcome i lx)\<rparr>
         else if m \<or> is_lagged e
         then (case task_state_from_snapshot s i l of
                 Some st' \<Rightarrow> tracking_publish lx' st'
               | None \<Rightarrow> Tracking lx' st)
         else Tracking lx' st)"

text \<open>The stream ends when the scope's identity is terminal and its events are drained.\<close>

fun track_end :: "string \<Rightarrow> tracking \<Rightarrow> tracking" where
  "track_end i (Tracked st) = Tracked st"
| "track_end i (Tracking lx st) = Tracked \<lparr>tk_started = tk_started st, tk_outcome = Some (final_outcome i lx)\<rparr>"

definition track_task ::
    "string \<Rightarrow> u64 \<Rightarrow> supervisor_snapshot \<Rightarrow> (lifecycle_event \<times> supervisor_snapshot) list \<Rightarrow> tracking" where
  "track_task i l s evs = fold (track_event i l) evs (track_begin i l s)"

section \<open>The waits\<close>

text \<open>Both waits look at the tracking state, at once and after every change, until it decides.\<close>

definition task_wait_started :: "string \<Rightarrow> task_tracking_state \<Rightarrow> (task_ref_error + unit) option" where
  "task_wait_started i st =
     (if tk_started st then Some (Inr ())
      else map_option (\<lambda>outcome.
        case outcome of
          Inr (EReadinessTimedOut t c) \<Rightarrow> Inl (TaskReadinessMissed i t)
        | Inr _ \<Rightarrow> Inl (StoppedBeforeReady i)
        | Inl e \<Rightarrow> Inl e) (tk_outcome st))"

definition task_wait :: "task_tracking_state \<Rightarrow> (task_ref_error + exit_status) option" where
  "task_wait st = tk_outcome st"

section \<open>Properties\<close>

text \<open>The exits of the membership among the events handled so far.\<close>

definition own_exits :: "string \<Rightarrow> u64 \<Rightarrow> (lifecycle_event \<times> supervisor_snapshot) list \<Rightarrow> exit_status list" where
  "own_exits i l evs = List.map_filter (\<lambda>(e, s). if matches_task i l e then event_exit (le_kind e) else None) evs"

lemma own_exits_simps [simp]:
  "own_exits i l [] = []"
  "own_exits i l (evs @ [(e, s)]) =
     own_exits i l evs @ (case (if matches_task i l e then event_exit (le_kind e) else None) of Some x \<Rightarrow> [x] | None \<Rightarrow> [])"
  by (auto simp: own_exits_def List.map_filter_def split: option.split)

definition settled_in :: "string \<Rightarrow> u64 \<Rightarrow> exit_status \<Rightarrow> supervisor_snapshot \<Rightarrow> bool" where
  "settled_in i l x s \<longleftrightarrow> (\<exists>c. task_snapshot s i l = Some c \<and> view_is_terminal (cs_state c)
     \<and> view_last_exit (cs_state c) = Some x \<and> \<not> can_restart s c x \<and> cs_next_restart_in c = None)"

lemma snapshot_outcome:
  "task_state_from_snapshot s i l = Some st \<Longrightarrow> tk_outcome st = None \<or> (\<exists>x. tk_outcome st = Some (Inr x) \<and> settled_in i l x s)"
  by (auto simp: task_state_from_snapshot_def settled_in_def split: bind_splits if_splits)

text \<open>The membership was removed after exactly the given exits had been reported.\<close>

definition removed_after :: "string \<Rightarrow> u64 \<Rightarrow> (lifecycle_event \<times> supervisor_snapshot) list \<Rightarrow> exit_status list \<Rightarrow> bool" where
  "removed_after i l evs xs \<longleftrightarrow> (\<exists>pre e s post. evs = pre @ (e, s) # post \<and> matches_task i l e
     \<and> event_removed (le_kind e) \<and> own_exits i l pre = xs)"

lemma removed_after_append: "removed_after i l evs xs \<Longrightarrow> removed_after i l (evs @ fs) xs"
  by (fastforce simp: removed_after_def)

definition outcome_ok ::
    "string \<Rightarrow> u64 \<Rightarrow> supervisor_snapshot \<Rightarrow> (lifecycle_event \<times> supervisor_snapshot) list \<Rightarrow>
     task_ref_error + exit_status \<Rightarrow> bool" where
  "outcome_ok i l s evs r \<longleftrightarrow>
     (case r of
        Inl e \<Rightarrow> e = TaskUnavailable i \<and> removed_after i l evs []
      | Inr x \<Rightarrow> (\<exists>s' \<in> insert s (snd ` set evs). settled_in i l x s') \<or> (\<exists>xs. removed_after i l evs (xs @ [x])))"

lemma outcome_ok_append: "outcome_ok i l s evs r \<Longrightarrow> outcome_ok i l s (evs @ fs) r"
  by (auto simp: outcome_ok_def intro: removed_after_append split: sum.splits)

definition tracked_ok ::
    "string \<Rightarrow> u64 \<Rightarrow> supervisor_snapshot \<Rightarrow> (lifecycle_event \<times> supervisor_snapshot) list \<Rightarrow> tracking \<Rightarrow> bool" where
  "tracked_ok i l s evs t \<longleftrightarrow>
     (case t of
        Tracking lst st \<Rightarrow> tk_outcome st = None
          \<and> lst = (if own_exits i l evs = [] then None else Some (last (own_exits i l evs)))
      | Tracked st \<Rightarrow> (\<exists>r. tk_outcome st = Some r \<and> outcome_ok i l s evs r))"

lemma publish_ok:
  assumes "task_state_from_snapshot s' i l = Some st" "s' \<in> insert s (snd ` set evs)"
    and "lst = (if own_exits i l evs = [] then None else Some (last (own_exits i l evs)))"
  shows "tracked_ok i l s evs (tracking_publish lst st)"
  using snapshot_outcome [OF assms(1)] assms(2,3)
  by (force simp: tracking_publish_def tracked_ok_def outcome_ok_def)

lemma begin_ok: "tracked_ok i l s [] (track_begin i l s)"
proof (cases "task_state_from_snapshot s i l")
  case (Some st)
  show ?thesis
  proof (cases "tk_outcome st")
    case None
    with Some publish_ok [OF Some, of s "[]" None] show ?thesis by (simp add: track_begin_def)
  next
    case (Some r)
    with snapshot_outcome [OF \<open>task_state_from_snapshot s i l = Some st\<close>] \<open>task_state_from_snapshot s i l = Some st\<close>
    show ?thesis by (auto simp: track_begin_def tracking_publish_def tracked_ok_def outcome_ok_def)
  qed
qed (simp add: track_begin_def tracked_ok_def tracking_default_def)

lemma event_ok:
  assumes "tracked_ok i l s evs t"
  shows "tracked_ok i l s (evs @ [(e, s')]) (track_event i l (e, s') t)"
proof (cases t)
  case (Tracked st)
  with assms outcome_ok_append show ?thesis by (auto simp: tracked_ok_def)
next
  case (Tracking lst st)
  let ?m = "matches_task i l e"
  let ?lst = "if ?m \<and> event_exit (le_kind e) \<noteq> None then event_exit (le_kind e) else lst"
  have l: "tk_outcome st = None" "lst = (if own_exits i l evs = [] then None else Some (last (own_exits i l evs)))"
    using assms Tracking by (simp_all add: tracked_ok_def)
  show ?thesis
  proof (cases "?m \<and> event_removed (le_kind e)")
    case True
    then have r: "removed_after i l (evs @ [(e, s')]) (own_exits i l evs)" by (auto simp: removed_after_def)
    have "outcome_ok i l s (evs @ [(e, s')]) (final_outcome i lst)"
    proof (cases "own_exits i l evs = []")
      case False
      then have "own_exits i l evs = butlast (own_exits i l evs) @ [last (own_exits i l evs)]" by simp
      with r l(2) False show ?thesis unfolding outcome_ok_def final_outcome_def by (auto intro: exI [of _ "butlast (own_exits i l evs)"])
    qed (use r l(2) in \<open>simp add: outcome_ok_def final_outcome_def\<close>)
    with Tracking True show ?thesis by (simp add: tracked_ok_def)
  next
    case False
    have l': "?lst = (if own_exits i l (evs @ [(e, s')]) = [] then None else Some (last (own_exits i l (evs @ [(e, s')]))))"
      using l(2) by (auto split: option.splits)
    show ?thesis
    proof (cases "task_state_from_snapshot s' i l")
      case None
      with Tracking False l(1) l' show ?thesis by (auto simp: tracked_ok_def Let_def)
    next
      case (Some st')
      from publish_ok [OF Some _ l', of s] Tracking False Some l(1) l' show ?thesis
        by (auto simp: tracked_ok_def Let_def)
    qed
  qed
qed

lemma track_ok: "tracked_ok i l s evs (track_task i l s evs)"
  by (induction evs rule: rev_induct) (auto simp: track_task_def begin_ok event_ok simp del: track_event.simps)

text \<open>
  When the stream of events ends before the tracker is done, the outcome is the last exit announced for the
  membership, or that the task is unavailable if none was announced.
\<close>

definition end_outcome_ok ::
    "string \<Rightarrow> u64 \<Rightarrow> supervisor_snapshot \<Rightarrow> (lifecycle_event \<times> supervisor_snapshot) list \<Rightarrow>
     task_ref_error + exit_status \<Rightarrow> bool" where
  "end_outcome_ok i l s evs r \<longleftrightarrow> outcome_ok i l s evs r
     \<or> (case r of
          Inl e \<Rightarrow> e = TaskUnavailable i \<and> own_exits i l evs = []
        | Inr x \<Rightarrow> \<exists>xs. own_exits i l evs = xs @ [x])"

lemma end_ok:
  assumes "tracked_ok i l s evs t"
  shows "\<exists>st r. track_end i t = Tracked st \<and> task_wait st = Some r \<and> end_outcome_ok i l s evs r
    \<and> (\<forall>st'. t = Tracked st' \<longrightarrow> outcome_ok i l s evs r)"
proof (cases t)
  case (Tracking lst st)
  with assms have "lst = (if own_exits i l evs = [] then None else Some (last (own_exits i l evs)))"
    by (simp add: tracked_ok_def)
  moreover have "\<exists>xs. ys = xs @ [last ys]" if "ys \<noteq> []" for ys :: "exit_status list"
    using that by (intro exI [of _ "butlast ys"]) simp
  ultimately show ?thesis
    using Tracking by (auto simp: task_wait_def end_outcome_ok_def final_outcome_def)
qed (use assms in \<open>auto simp: tracked_ok_def task_wait_def end_outcome_ok_def\<close>)

text \<open>
  C17. The outcome a task reference reports is true of its own membership, whenever it is reported. While the scope's
  events arrive, nothing is reported until the tracker is done, and then an exit it reports is the last one announced
  before the membership was removed, or the exit of a terminal state shown by the scope from which
  neither its restart policy nor its group brings the task back; and it reports the task as unavailable only if the
  membership was removed without an exit. When the stream of events ends, an outcome is always reported, and an undecided
  tracker reports the last exit announced for the membership, and reports it as unavailable only if no exit was announced.
\<close>

theorem task_outcome_truthful:
  "(case track_task i l s evs of
      Tracking lx st \<Rightarrow> task_wait st = None
    | Tracked st \<Rightarrow> (\<exists>r. task_wait st = Some r \<and> outcome_ok i l s evs r))
   \<and> (\<exists>st r. track_end i (track_task i l s evs) = Tracked st \<and> task_wait st = Some r \<and> end_outcome_ok i l s evs r)"
  using track_ok [of i l s evs] end_ok [OF track_ok, of i l s evs]
  by (auto simp: tracked_ok_def task_wait_def split: tracking.splits)

text \<open>
  A task reference is tied to one membership: the events of every other membership, also of a later task with the same id,
  leave what it reports unchanged.
\<close>

theorem task_ref_never_retargets:
  "track_task i l s evs = track_task i l s (filter (\<lambda>(e, s'). matches_task i l e \<or> is_lagged e) evs)"
proof -
  have skip: "track_event i l (e, s') t = t" if "\<not> (matches_task i l e \<or> is_lagged e)" for e s' t
    using that by (cases t) auto
  have "fold (track_event i l) evs t = fold (track_event i l) (filter (\<lambda>(e, s'). matches_task i l e \<or> is_lagged e) evs) t" for t
  proof (induction evs arbitrary: t)
    case (Cons x evs)
    then show ?case using skip [of "fst x" "snd x" t] by (cases "matches_task i l (fst x) \<or> is_lagged (fst x)") auto
  qed simp
  then show ?thesis by (simp add: track_task_def)
qed

definition task_event :: "child_event_kind \<Rightarrow> lifecycle_event" where
  "task_event k = local_event (LChild \<lparr>ev_seq = 0, ev_child_id = ''job'', ev_lineage = 0, ev_total_restarts = 0,
     ev_child_restart_count = 0, ev_kind = k\<rparr>)"

definition removed_view :: supervisor_snapshot where
  "removed_view = SupervisorSnapshot SVRunning Dynamic OneForOne 0 4 []"

text \<open>A tracker that is shown no snapshot of its membership never learns that the task started.\<close>

lemma unseen_tracker:
  assumes "\<forall>s' \<in> insert s (snd ` set evs). task_snapshot s' i l = None"
    and "\<forall>(e, s') \<in> set evs. \<not> (matches_task i l e \<and> event_removed (le_kind e))"
  shows "track_task i l s evs =
    Tracking (if own_exits i l evs = [] then None else Some (last (own_exits i l evs))) tracking_default"
  using assms
proof (induction evs rule: rev_induct)
  case Nil
  then show ?case by (simp add: track_task_def track_begin_def task_state_from_snapshot_def)
next
  case (snoc x evs)
  obtain e s' where x: "x = (e, s')" by force
  from snoc have "track_task i l s evs =
      Tracking (if own_exits i l evs = [] then None else Some (last (own_exits i l evs))) tracking_default"
    by simp
  moreover have "\<not> (matches_task i l e \<and> event_removed (le_kind e))" "task_state_from_snapshot s' i l = None"
    using snoc.prems by (simp_all add: x task_state_from_snapshot_def)
  ultimately show ?case
    by (auto simp: x track_task_def Let_def split: option.splits)
qed

text \<open>
  C39. Readiness can be misreported: when the tracker saw the membership in no snapshot and its events show that it exited
  (not for a missed readiness deadline) and was then removed, the wait for startup reports that the task stopped before
  it was ready, whatever the events said before, in particular when they announced the task's start.
\<close>

theorem quick_task_reported_not_ready:
  assumes "\<forall>s' \<in> insert s (snd ` set evs). task_snapshot s' i l = None"
    and "evs = pre @ (e, s') # post" "matches_task i l e" "event_removed (le_kind e)"
    and "\<forall>(d, s') \<in> set pre. \<not> (matches_task i l d \<and> event_removed (le_kind d))"
    and "own_exits i l pre = xs @ [x]" "\<forall>t c. x \<noteq> EReadinessTimedOut t c"
  shows "task_wait_started i (tr_state (track_task i l s evs)) = Some (Inl (StoppedBeforeReady i))"
proof -
  have "track_task i l s pre = Tracking (Some x) tracking_default"
    using unseen_tracker [of s pre i l] assms by auto
  moreover have "fold (track_event i l) post (Tracked st) = Tracked st" for st
    by (induction post) auto
  ultimately have "track_task i l s evs = Tracked \<lparr>tk_started = False, tk_outcome = Some (Inr x)\<rparr>"
    using assms(2-4) by (simp add: track_task_def tracking_default_def final_outcome_def)
  with assms(7) show ?thesis by (auto simp: task_wait_started_def split: exit_status.splits)
qed

text \<open>
  A task announced as added and started, that completed and was removed before the tracker read a snapshot.
\<close>

definition quick_task_history :: "child_event_kind list \<Rightarrow> (lifecycle_event \<times> supervisor_snapshot) list" where
  "quick_task_history = map (\<lambda>k. (task_event k, removed_view))"

theorem quick_task_reported_not_ready_witness:
  "task_wait_started ''job'' (tr_state (track_task ''job'' 0 removed_view
      (quick_task_history [Added, Started 0, Exited 0 (ECompleted False), Removed])))
    = Some (Inl (StoppedBeforeReady ''job''))"
  by (rule quick_task_reported_not_ready [of _ _ _ _ "quick_task_history [Added, Started 0, Exited 0 (ECompleted False)]"
        "task_event Removed" removed_view "[]" "[]" "ECompleted False"])
    (simp_all add: quick_task_history_def task_snapshot_def removed_view_def task_event_def local_event_def
      matches_task_def own_exits_def List.map_filter_def)

end
