(* ===== verification/Scope_Ref.thy ===== *)
theory Scope_Ref
  imports Tree_Guarantees Task_Ref
begin

text \<open>
  References to scopes (\<open>runtime.rs\<close>: \<open>ScopeRef\<close>, \<open>DynamicScopeRef\<close>): looking up the children attached
  below a scope, resolving a child handle to the membership it names, and the membership commands a
  dynamic scope sends to its supervisor.
\<close>

section \<open>Attached children\<close>

record attached_child_identity =
  ai_id :: string
  ai_lineage :: u64
  ai_generation :: u64

record attached_entry =
  ac_path :: "attached_child_identity list"
  ac_attachment :: runtime_attachment
  ac_supervisor :: "nat option"

definition identity_of :: "attached_child_state \<Rightarrow> attached_child_identity" where
  "identity_of c = \<lparr>ai_id = at_id c, ai_lineage = at_lineage c, ai_generation = at_generation c\<rparr>"

definition attached_at ::
    "store \<Rightarrow> attached_child_identity list \<Rightarrow> attached_child_state \<Rightarrow> attached_entry option" where
  "attached_at w path c =
     map_option (\<lambda>a. \<lparr>ac_path = path @ [identity_of c], ac_attachment = w_attachments w ! a,
                       ac_supervisor = at_supervisor c\<rparr>) (at_attachment c)"

definition view_hidden :: "u64 option \<Rightarrow> attached_children_view \<Rightarrow> bool" where
  "view_hidden expected v \<longleftrightarrow>
     av_terminal v \<or> (case expected of None \<Rightarrow> False | Some g \<Rightarrow> av_generation v \<noteq> Some g)"

text \<open>
  Direct children before descendants; a nested view counts only for the generation its parent
  shows.  The fuel bounds the depth: identities nest without cycles, so there are no more levels
  than identities.
\<close>

fun collect_attached_children ::
    "nat \<Rightarrow> store \<Rightarrow> nat \<Rightarrow> u64 option \<Rightarrow> attached_child_identity list \<Rightarrow> attached_entry list" where
  "collect_attached_children 0 w n expected path = []"
| "collect_attached_children (Suc k) w n expected path =
     (let view = st_attached (channels_at n w) in
      if view_hidden expected view then []
      else List.map_filter (attached_at w path) (av_children view)
        @ concat (map (\<lambda>c. case at_supervisor c of
              None \<Rightarrow> []
            | Some m \<Rightarrow> collect_attached_children k w m (Some (at_generation c)) (path @ [identity_of c]))
            (av_children view)))"

definition handle_attached_children :: "store \<Rightarrow> nat \<Rightarrow> attached_entry list" where
  "handle_attached_children w n = collect_attached_children (Suc (length (w_identities w))) w n None []"

section \<open>Scope references\<close>

record parent_scope_membership =
  pm_parent :: nat
  pm_id :: string
  pm_lineage :: u64

record scope_ref =
  rf_supervisor :: nat
  rf_actors :: nat
  rf_parent :: "parent_scope_membership option"

definition scope_ref_new :: "nat \<Rightarrow> nat \<Rightarrow> scope_ref" where
  "scope_ref_new n a = \<lparr>rf_supervisor = n, rf_actors = a, rf_parent = None\<rparr>"

definition with_parent_membership :: "nat \<Rightarrow> nat \<Rightarrow> nat \<Rightarrow> string \<Rightarrow> u64 \<Rightarrow> scope_ref" where
  "with_parent_membership n a parent i l =
     \<lparr>rf_supervisor = n, rf_actors = a, rf_parent = Some \<lparr>pm_parent = parent, pm_id = i, pm_lineage = l\<rparr>\<rparr>"

definition scope_kind_of :: "store \<Rightarrow> scope_ref \<Rightarrow> scope_kind" where
  "scope_kind_of w r = handle_kind (channels_at (rf_supervisor r) w)"

definition request_shutdown :: "scope_ref \<Rightarrow> store \<Rightarrow> store" where
  "request_shutdown r = map_identity (rf_supervisor r) (\<lambda>x. x\<lparr>ci_channels := handle_shutdown (ci_channels x)\<rparr>)"

definition find_map :: "('a \<Rightarrow> 'b option) \<Rightarrow> 'a list \<Rightarrow> 'b option" where
  "find_map f xs = (case List.map_filter f xs of [] \<Rightarrow> None | y # _ \<Rightarrow> Some y)"

definition direct_identity :: "attached_entry \<Rightarrow> attached_child_identity option" where
  "direct_identity a = (case ac_path a of [i] \<Rightarrow> Some i | _ \<Rightarrow> None)"

definition runtime_subtree_membership ::
    "attached_entry list \<Rightarrow> nat \<Rightarrow> nat \<Rightarrow> string \<Rightarrow> u64 option \<Rightarrow> scope_ref option" where
  "runtime_subtree_membership attached actors parent i lineage =
     find_map (\<lambda>a. Option.bind (direct_identity a) (\<lambda>x.
       if ai_id x \<noteq> i \<or> (case lineage of None \<Rightarrow> False | Some l \<Rightarrow> ai_lineage x \<noteq> l)
          \<or> \<not> belongs_to actors (ac_attachment a) then None
       else case at_kind (ac_attachment a) of
         AttachActor _ \<Rightarrow> None
       | AttachSubtree state \<Rightarrow>
           map_option (\<lambda>m. with_parent_membership m state parent (ai_id x) (ai_lineage x)) (ac_supervisor a))) attached"

definition subtree_membership :: "store \<Rightarrow> scope_ref \<Rightarrow> string \<Rightarrow> u64 option \<Rightarrow> scope_ref option" where
  "subtree_membership w r i lineage =
     runtime_subtree_membership (handle_attached_children w (rf_supervisor r)) (rf_actors r) (rf_supervisor r) i lineage"

definition scope_subtree :: "store \<Rightarrow> scope_ref \<Rightarrow> string \<Rightarrow> scope_ref option" where
  "scope_subtree w r i = subtree_membership w r i None"

definition pre_insert_subtree_membership ::
    "attached_entry list \<Rightarrow> nat \<Rightarrow> scope_ref \<Rightarrow> (string \<times> u64) option" where
  "pre_insert_subtree_membership attached actors sub =
     find_map (\<lambda>a. Option.bind (direct_identity a) (\<lambda>x.
       case at_kind (ac_attachment a) of
         AttachActor _ \<Rightarrow> None
       | AttachSubtree _ \<Rightarrow>
           if belongs_to actors (ac_attachment a) \<and> ac_supervisor a = Some (rf_supervisor sub)
           then Some (ai_id x, ai_lineage x) else None)) attached"

text \<open>
  The statistics of the actors below a scope: an attachment counts only if it belongs to the actor
  runtime of the scope that shows it; a subtree's attachment makes its own runtime the owner of what
  is attached below.
\<close>

definition actor_stats_step ::
    "attached_entry \<Rightarrow> (attached_child_identity list \<Rightarrow> nat option) \<times> (attached_child_identity list \<times> u64 \<times> nat) list \<Rightarrow>
     (attached_child_identity list \<Rightarrow> nat option) \<times> (attached_child_identity list \<times> u64 \<times> nat) list" where
  "actor_stats_step a s =
     (case rev (ac_path a) of
        [] \<Rightarrow> s
      | child # rev_scope \<Rightarrow>
          (case fst s (rev rev_scope) of
             None \<Rightarrow> s
           | Some owner \<Rightarrow>
               if \<not> belongs_to owner (ac_attachment a) then s
               else case at_kind (ac_attachment a) of
                 AttachActor x \<Rightarrow> (fst s, snd s @ [(rev rev_scope, ai_lineage child, ra_binding x)])
               | AttachSubtree state \<Rightarrow> ((fst s)(ac_path a \<mapsto> state), snd s)))"

definition scope_actor_stats :: "store \<Rightarrow> scope_ref \<Rightarrow> (attached_child_identity list \<times> u64 \<times> nat) list" where
  "scope_actor_stats w r = snd (fold actor_stats_step (handle_attached_children w (rf_supervisor r)) ([[] \<mapsto> rf_actors r], []))"

section \<open>Dynamic scopes\<close>

definition dynamic_supervisor :: "store \<Rightarrow> scope_ref \<Rightarrow> control_error + unit" where
  "dynamic_supervisor w r =
     (if scope_kind_of w r \<noteq> Dynamic then Inl Unavailable
      else case control_endpoint (channels_at (rf_supervisor r) w) of Inl e \<Rightarrow> Inl e | Inr _ \<Rightarrow> Inr ())"

datatype child_handle =
    ActorHandle nat string
  | TaskHandle scope_ref string u64
  | ScopeHandle scope_ref

definition resolve_actor_membership :: "store \<Rightarrow> scope_ref \<Rightarrow> nat \<Rightarrow> string \<Rightarrow> control_error + string \<times> u64" where
  "resolve_actor_membership w r b i =
     (case find_map (\<lambda>a. Option.bind (direct_identity a) (\<lambda>x.
        if \<not> belongs_to (rf_actors r) (ac_attachment a) then None
        else case at_kind (ac_attachment a) of
          AttachSubtree _ \<Rightarrow> None
        | AttachActor m \<Rightarrow> if ra_binding m = b then Some (ai_id x, ai_lineage x) else None))
        (handle_attached_children w (rf_supervisor r)) of
        None \<Rightarrow> Inl (UnknownChildId i)
      | Some m \<Rightarrow> Inr m)"

fun resolve_membership :: "store \<Rightarrow> scope_ref \<Rightarrow> child_handle \<Rightarrow> control_error + string \<times> u64" where
  "resolve_membership w r (ActorHandle b i) = resolve_actor_membership w r b i"
| "resolve_membership w r (TaskHandle s i l) =
     (if rf_supervisor r \<noteq> rf_supervisor s then Inl (UnknownChildId i) else Inr (i, l))"
| "resolve_membership w r (ScopeHandle q) =
     (case rf_parent q of
        Some m \<Rightarrow>
          if rf_supervisor r \<noteq> pm_parent m then Inl (UnknownChildId (pm_id m)) else Inr (pm_id m, pm_lineage m)
      | None \<Rightarrow>
          (case pre_insert_subtree_membership (handle_attached_children w (rf_supervisor r)) (rf_actors r) q of
             None \<Rightarrow> Inl UnknownChildHandle
           | Some m \<Rightarrow> Inr m))"

definition scope_remove :: "store \<Rightarrow> scope_ref \<Rightarrow> child_handle \<Rightarrow> nat \<Rightarrow> control_error + supervisor_command" where
  "scope_remove w r h reply =
     (case dynamic_supervisor w r of
        Inl e \<Rightarrow> Inl e
      | Inr _ \<Rightarrow>
          (case resolve_membership w r h of
             Inl e \<Rightarrow> Inl e
           | Inr (i, l) \<Rightarrow> Inr (RemoveChild i (Some l) reply)))"

definition scope_remove_named :: "store \<Rightarrow> scope_ref \<Rightarrow> string \<Rightarrow> nat \<Rightarrow> control_error + supervisor_command" where
  "scope_remove_named w r i reply =
     (case dynamic_supervisor w r of Inl e \<Rightarrow> Inl e | Inr _ \<Rightarrow> Inr (RemoveChild i None reply))"

text \<open>
  Adding: the command that is sent, and what the caller makes of the lineage in the reply.  An error
  is the control error that is returned, or None for a panic.
\<close>

definition add_child_spec :: "child_definition \<Rightarrow> nat \<Rightarrow> supervisor_command" where
  "add_child_spec d reply = (if is_supervisor (cd_kind d) then AddNested d reply else AddChild d reply)"

definition scope_add_task :: "store \<Rightarrow> scope_ref \<Rightarrow> child_definition \<Rightarrow> nat \<Rightarrow> control_error + supervisor_command" where
  "scope_add_task w r d reply =
     (case dynamic_supervisor w r of Inl e \<Rightarrow> Inl e | Inr _ \<Rightarrow> Inr (add_child_spec d reply))"

definition task_handle :: "scope_ref \<Rightarrow> child_definition \<Rightarrow> u64 \<Rightarrow> child_handle" where
  "task_handle r d lineage = TaskHandle r (cd_id d) lineage"

definition scope_add_actor ::
    "scope_ref \<Rightarrow> 'm actor_spec \<Rightarrow> nat \<Rightarrow> store \<Rightarrow>
     (control_error option + nat \<times> supervisor_command) \<times> store" where
  "scope_add_actor r a reply w =
     (case dynamic_supervisor w r of
        Inl e \<Rightarrow> (Inl (Some e), w)
      | Inr _ \<Rightarrow>
          (let (b, a1, w1) = actor_spec_ref a w
           in case options_validate (as_options a1) of
                Inl e \<Rightarrow> (Inl (Some (Rejected (InvalidConfig (options_error_message e)))), w1)
              | Inr _ \<Rightarrow>
                  (let (restart, sd, mailbox) = actor_defaults (rf_actors r) w1;
                       opts = \<lparr>co_restart = unwrap_or (as_restart a1) restart,
                               co_shutdown = unwrap_or (as_shutdown a1) sd,
                               co_mailbox_shutdown = unwrap_or (as_mailbox_shutdown a1) mailbox,
                               co_remove_on_terminal_exit = as_remove_on_terminal_exit a1\<rparr>;
                       (n, w2) = into_node (ax_mailbox_capacity (w_states w1 ! rf_actors r)) a1 w1
                   in case an_actor n of
                        None \<Rightarrow> (Inl None, w2)
                      | Some runnable \<Rightarrow>
                          (let (d, w3) = actor_child_spec runnable (rf_actors r) opts w2
                           in (Inr (b, add_child_spec d reply), w3)))))"

definition scope_add_subtree ::
    "scope_ref \<Rightarrow> string \<Rightarrow> 'm identity_tree \<Rightarrow> restart_policy option \<Rightarrow> shutdown option \<Rightarrow> nat \<Rightarrow> store \<Rightarrow>
     (control_error option + supervisor_command) \<times> store" where
  "scope_add_subtree r i sub restart sd reply w =
     (case dynamic_supervisor w r of
        Inl e \<Rightarrow> (Inl (Some e), tree_drop sub w)
      | Inr _ \<Rightarrow>
          (case into_parts sub w of
             (Inl TreePanic, w1) \<Rightarrow> (Inl None, w1)
           | (Inl (TreeBuild e), w1) \<Rightarrow> (Inl (Some (Rejected e)), w1)
           | (Inr low, w1) \<Rightarrow>
               (let (d, w2) = attach (attachment_subtree (rf_actors r) (lo_actors low))
                                (scope_definition i (lo_channels low) restart sd) w1
                in (Inr (add_child_spec d reply), w2))))"

definition subtree_added :: "store \<Rightarrow> scope_ref \<Rightarrow> string \<Rightarrow> u64 \<Rightarrow> control_error + scope_ref" where
  "subtree_added w r i lineage =
     (case subtree_membership w r i (Some lineage) of None \<Rightarrow> Inl Unavailable | Some q \<Rightarrow> Inr q)"

section \<open>What a scope shows\<close>

abbreviation shown :: "store \<Rightarrow> scope_ref \<Rightarrow> attached_child_state list" where
  "shown w r \<equiv>
     (if av_terminal (st_attached (channels_at (rf_supervisor r) w)) then []
      else av_children (st_attached (channels_at (rf_supervisor r) w)))"

lemma set_map_filter_iff: "y \<in> set (List.map_filter f xs) \<longleftrightarrow> (\<exists>x\<in>set xs. f x = Some y)"
  by (induction xs) (auto simp: List.map_filter_simps split: option.splits)

lemma find_map_Some: "find_map f xs = Some y \<Longrightarrow> \<exists>x\<in>set xs. f x = Some y"
  unfolding find_map_def using set_map_filter_iff [of y f xs] by (auto split: list.splits)

lemma find_map_None: "find_map f xs = None \<longleftrightarrow> (\<forall>x\<in>set xs. f x = None)"
proof -
  have "find_map f xs = None \<longleftrightarrow> set (List.map_filter f xs) = {}"
    by (auto simp: find_map_def split: list.splits)
  also have "\<dots> \<longleftrightarrow> (\<forall>x\<in>set xs. f x = None)"
    by (auto simp: set_eq_iff set_map_filter_iff) (metis not_None_eq)
  finally show ?thesis .
qed

lemma collected_path:
  "a \<in> set (collect_attached_children k w n e path) \<Longrightarrow> \<exists>xs. xs \<noteq> [] \<and> ac_path a = path @ xs"
proof (induction k arbitrary: n e path)
  case (Suc k)
  from Suc.prems consider
      (direct) c where "attached_at w path c = Some a"
    | (nested) m g c where "a \<in> set (collect_attached_children k w m g (path @ [identity_of c]))"
    by (auto simp: Let_def set_map_filter_iff split: if_splits option.splits)
  then show ?case
  proof cases
    case direct
    then show ?thesis by (auto simp: attached_at_def)
  next
    case nested
    then show ?thesis using Suc.IH by fastforce
  qed
qed simp

lemma direct_of_nested:
  assumes "a \<in> set (collect_attached_children k w m g [i])"
  shows "direct_identity a = None"
proof -
  from collected_path [OF assms] obtain xs where "xs \<noteq> []" "ac_path a = [i] @ xs" by blast
  then show ?thesis by (auto simp: direct_identity_def split: list.splits)
qed

text \<open>The direct children of a scope are exactly what its own view shows.\<close>

lemma direct_child_iff:
  "(a \<in> set (handle_attached_children w (rf_supervisor r)) \<and> direct_identity a = Some x)
     \<longleftrightarrow> (\<exists>c\<in>set (shown w r). attached_at w [] c = Some a \<and> x = identity_of c)"
  (is "?l \<longleftrightarrow> ?r")
proof
  assume ?r
  then show ?l
    by (auto simp: handle_attached_children_def view_hidden_def Let_def set_map_filter_iff attached_at_def
        direct_identity_def split: if_splits)
next
  assume l: ?l
  then obtain c where c: "c \<in> set (shown w r)" "attached_at w [] c = Some a"
    by (auto simp: handle_attached_children_def view_hidden_def Let_def set_map_filter_iff direct_of_nested
        split: if_splits option.splits)
  moreover have "x = identity_of c" using l c(2) by (auto simp: attached_at_def direct_identity_def)
  ultimately show ?r by blast
qed

lemma bind_direct_None:
  "(\<forall>a\<in>set (handle_attached_children w (rf_supervisor r)). Option.bind (direct_identity a) (f a) = None)
     \<longleftrightarrow> (\<forall>c\<in>set (shown w r). \<forall>a. attached_at w [] c = Some a \<longrightarrow> f a (identity_of c) = None)"
proof -
  have "(\<forall>a\<in>set (handle_attached_children w (rf_supervisor r)). Option.bind (direct_identity a) (f a) = None)
      \<longleftrightarrow> (\<forall>a x. (a \<in> set (handle_attached_children w (rf_supervisor r)) \<and> direct_identity a = Some x) \<longrightarrow> f a x = None)"
    by (simp add: Option.bind_eq_None_conv) (metis not_None_eq option.sel)
  also have "\<dots> \<longleftrightarrow> (\<forall>c\<in>set (shown w r). \<forall>a. attached_at w [] c = Some a \<longrightarrow> f a (identity_of c) = None)"
    unfolding direct_child_iff by metis
  finally show ?thesis .
qed

lemma find_direct_Some:
  assumes "find_map (\<lambda>a. Option.bind (direct_identity a) (f a)) (handle_attached_children w (rf_supervisor r)) = Some y"
  shows "\<exists>c\<in>set (shown w r). \<exists>a. attached_at w [] c = Some a \<and> f a (identity_of c) = Some y"
proof -
  from find_map_Some [OF assms] obtain a x where a: "a \<in> set (handle_attached_children w (rf_supervisor r))"
      and x: "direct_identity a = Some x" and f: "f a x = Some y"
    by (auto simp: Option.bind_eq_Some_conv)
  from a x direct_child_iff [of a w r x] show ?thesis using f by blast
qed

section \<open>Handles name memberships\<close>

text \<open>
  What a handle means to a scope, written down without the lookup: the actor that is attached with
  this binding, the task of this scope with the handle's own lineage, the subtree that was obtained
  from this scope or the subtree whose supervisor is attached here.
\<close>

fun names_membership :: "store \<Rightarrow> scope_ref \<Rightarrow> child_handle \<Rightarrow> string \<times> u64 \<Rightarrow> bool" where
  "names_membership w r (ActorHandle b _) m \<longleftrightarrow>
     (\<exists>c\<in>set (shown w r). \<exists>a x. (at_id c, at_lineage c) = m \<and> at_attachment c = Some a \<and>
        belongs_to (rf_actors r) (w_attachments w ! a) \<and> at_kind (w_attachments w ! a) = AttachActor x \<and> ra_binding x = b)"
| "names_membership w r (TaskHandle q i l) m \<longleftrightarrow> rf_supervisor q = rf_supervisor r \<and> m = (i, l)"
| "names_membership w r (ScopeHandle q) m \<longleftrightarrow>
     (case rf_parent q of
        Some p \<Rightarrow> pm_parent p = rf_supervisor r \<and> m = (pm_id p, pm_lineage p)
      | None \<Rightarrow> (\<exists>c\<in>set (shown w r). \<exists>a x. (at_id c, at_lineage c) = m \<and> at_attachment c = Some a \<and>
          at_supervisor c = Some (rf_supervisor q) \<and> belongs_to (rf_actors r) (w_attachments w ! a) \<and>
          at_kind (w_attachments w ! a) = AttachSubtree x))"

lemma resolved_is_named:
  assumes "resolve_membership w r h = Inr m"
  shows "names_membership w r h m"
proof (cases h)
  case (ActorHandle b i)
  with assms show ?thesis
    by (auto simp: resolve_actor_membership_def attached_at_def identity_of_def
        dest!: find_direct_Some split: option.splits if_splits runtime_attachment_kind.splits) blast
next
  case (TaskHandle q i l)
  with assms show ?thesis by (auto split: if_splits)
next
  case (ScopeHandle q)
  show ?thesis
  proof (cases "rf_parent q")
    case None
    with assms ScopeHandle show ?thesis
      by (auto simp: pre_insert_subtree_membership_def attached_at_def identity_of_def
          dest!: find_direct_Some split: option.splits if_splits runtime_attachment_kind.splits) blast
  next
    case (Some p)
    with assms ScopeHandle show ?thesis by (auto split: if_splits)
  qed
qed

lemma remove_child_other_lineage:
  assumes "rt_children_by_id s i = Some k" "child_at s k = Some e" "ce_lineage e \<noteq> l" "rm_kind (rt_meta s) = Dynamic"
  shows "handle_command E (RemoveChild i (Some l) reply) s =
    (Inr (), send_reply reply (ReplyRemove (Inl (UnknownChildId i))) (s\<lparr>rt_received := rt_received s @ [reply]\<rparr>))"
  using assms by (simp add: handle_command_def remove_child_def)

text \<open>
  C14. Removing a child through a handle is exact: the command that a dynamic scope sends carries the
  identifier and the lineage of the one membership the handle names in this scope, and the
  supervisor answers it with an unknown-child error and leaves all its children as they are when the
  identifier meanwhile belongs to another membership.
\<close>

theorem handle_removal_is_exact:
  assumes "scope_remove w r h reply = Inr cmd"
  shows "\<exists>i l. cmd = RemoveChild i (Some l) reply \<and> names_membership w r h (i, l) \<and>
    (\<forall>E s k e. rt_children_by_id s i = Some k \<longrightarrow> child_at s k = Some e \<longrightarrow> ce_lineage e \<noteq> l \<longrightarrow>
       rm_kind (rt_meta s) = Dynamic \<longrightarrow>
       (let s' = snd (handle_command E cmd s)
        in rt_children s' = rt_children s \<and> rt_children_by_id s' = rt_children_by_id s \<and>
           rt_replies s' = rt_replies s @ [(reply, ReplyRemove (Inl (UnknownChildId i)))]))"
proof -
  from assms obtain i l where cmd: "cmd = RemoveChild i (Some l) reply"
      and m: "resolve_membership w r h = Inr (i, l)"
    by (auto simp: scope_remove_def split: sum.splits prod.splits)
  moreover note resolved_is_named [OF m]
  ultimately show ?thesis by (auto simp: remove_child_other_lineage Let_def send_reply_def)
qed

section \<open>Handles of subtrees\<close>

lemma subtree_membership_Some:
  assumes "subtree_membership w r i lineage = Some q"
  shows "\<exists>c\<in>set (shown w r). at_id c = i \<and> (case lineage of None \<Rightarrow> True | Some l \<Rightarrow> at_lineage c = l) \<and>
    at_supervisor c = Some (rf_supervisor q) \<and>
    rf_parent q = Some \<lparr>pm_parent = rf_supervisor r, pm_id = i, pm_lineage = at_lineage c\<rparr>"
  using assms unfolding subtree_membership_def runtime_subtree_membership_def
  by (auto simp: attached_at_def identity_of_def with_parent_membership_def dest!: find_direct_Some
      split: if_splits runtime_attachment_kind.splits option.splits) blast+

lemma subtree_membership_None:
  "subtree_membership w r i lineage = None \<longleftrightarrow>
    (\<forall>c\<in>set (shown w r). \<forall>a x m. at_id c = i \<longrightarrow> (case lineage of None \<Rightarrow> True | Some l \<Rightarrow> at_lineage c = l) \<longrightarrow>
       at_attachment c = Some a \<longrightarrow> belongs_to (rf_actors r) (w_attachments w ! a) \<longrightarrow>
       at_kind (w_attachments w ! a) = AttachSubtree x \<longrightarrow> at_supervisor c \<noteq> Some m)"
  unfolding subtree_membership_def runtime_subtree_membership_def find_map_None bind_direct_None
  by (auto simp: attached_at_def identity_of_def split: runtime_attachment_kind.splits option.splits)

text \<open>
  C16. The handle of a subtree leads back to its membership: a scope finds a subtree by identifier exactly
  when its view shows one that belongs to its actor runtime; the handle refers to the supervisor of
  that membership, and it resolves to the identifier and lineage of that membership in this scope at
  every later time, whatever is shown then, and in no other scope.
\<close>

theorem subtree_handle_roundtrip:
  assumes "scope_subtree w r i = Some q"
  shows "\<exists>c\<in>set (shown w r). at_id c = i \<and> at_supervisor c = Some (rf_supervisor q) \<and>
    (\<forall>w' r'. resolve_membership w' r' (ScopeHandle q) =
       (if rf_supervisor r' = rf_supervisor r then Inr (i, at_lineage c) else Inl (UnknownChildId i)))"
proof -
  from subtree_membership_Some [OF assms [unfolded scope_subtree_def]] obtain c
    where "c \<in> set (shown w r)" "at_id c = i" "at_supervisor c = Some (rf_supervisor q)"
      and "rf_parent q = Some \<lparr>pm_parent = rf_supervisor r, pm_id = i, pm_lineage = at_lineage c\<rparr>"
    by auto
  then show ?thesis by (intro bexI [of _ c]) auto
qed

text \<open>
  Adding a subtree returns the handle of that very membership: the handle of a completed addition carries the
  lineage in the supervisor's reply, and the addition fails as unavailable exactly when no membership with
  this identifier and lineage shows a subtree of the scope's actor runtime any more.
\<close>

theorem added_subtree_is_the_reply:
  "case subtree_added w r i l of
     Inr q \<Rightarrow> rf_parent q = Some \<lparr>pm_parent = rf_supervisor r, pm_id = i, pm_lineage = l\<rparr>
   | Inl e \<Rightarrow> e = Unavailable \<and> \<not> (\<exists>c\<in>set (shown w r). \<exists>a x m. at_id c = i \<and> at_lineage c = l \<and> at_attachment c = Some a \<and>
        belongs_to (rf_actors r) (w_attachments w ! a) \<and> at_kind (w_attachments w ! a) = AttachSubtree x \<and> at_supervisor c = Some m)"
  using subtree_membership_None [of w r i "Some l"] subtree_membership_Some [of w r i "Some l"]
  by (fastforce simp: subtree_added_def split: option.splits)

section \<open>Adding actors\<close>

lemma spec_ref_stable:
  assumes "actor_spec_ref a w = (b, a', w')" "into_node capacity a' w1 = (n, w2)"
  shows "\<exists>x. an_actor n = Some x \<and> ra_binding x = b"
  using spec_ref_survives [OF assms(1), of capacity "\<lambda>a. a" w1 n w2] assms(2) by simp

lemma actor_child_spec_attachment:
  assumes "actor_child_spec x owner opts w = (d, w')"
  shows "cd_attachment d = Some (length (w_attachments w)) \<and> w_attachments w' = w_attachments w @ [attachment_actor owner x]
    \<and> \<not> is_supervisor (cd_kind d)"
  using assms
  by (auto simp: actor_child_spec_def attach_def spec_attachment_def spec_shutdown_def spec_restart_def
      automatic_readiness_def remove_on_terminal_exit_def task_spec_new_def Let_def split: prod.splits if_splits)

lemma scope_add_actor_cases:
  assumes "scope_add_actor r a reply w = (x, w')"
  obtains (failed) e where "x = Inl (Some e)"
  | (added) b d y where "x = Inr (b, AddChild d reply)" "cd_attachment d = Some (length (w_attachments w') - 1)"
      "w_attachments w' \<noteq> []" "last (w_attachments w') = attachment_actor (rf_actors r) y" "ra_binding y = b"
proof (cases "dynamic_supervisor w r")
  case (Inl e)
  with assms show thesis by (intro failed [of e]) (simp add: scope_add_actor_def)
next
  case (Inr u)
  obtain b a1 w1 where ref: "actor_spec_ref a w = (b, a1, w1)" by (cases "actor_spec_ref a w") auto
  obtain restart sd mb where df: "actor_defaults (rf_actors r) w1 = (restart, sd, mb)"
    by (cases "actor_defaults (rf_actors r) w1") auto
  obtain n w2 where n: "into_node (ax_mailbox_capacity (w_states w1 ! rf_actors r)) a1 w1 = (n, w2)"
    by (meson surj_pair)
  from spec_ref_stable [OF ref n] obtain y where y: "an_actor n = Some y" "ra_binding y = b" by blast
  let ?opts = "\<lparr>co_restart = unwrap_or (as_restart a1) restart, co_shutdown = unwrap_or (as_shutdown a1) sd,
    co_mailbox_shutdown = unwrap_or (as_mailbox_shutdown a1) mb, co_remove_on_terminal_exit = as_remove_on_terminal_exit a1\<rparr>"
  obtain d w3 where d: "actor_child_spec y (rf_actors r) ?opts w2 = (d, w3)" by (meson surj_pair)
  show thesis
  proof (cases "options_validate (as_options a1)")
    case (Inl e)
    with Inr ref assms show thesis by (intro failed) (auto simp: scope_add_actor_def)
  next
    case (Inr v)
    with \<open>dynamic_supervisor w r = Inr u\<close> ref df n y d assms
    have "x = Inr (b, add_child_spec d reply)" "w' = w3" by (simp_all add: scope_add_actor_def)
    with actor_child_spec_attachment [OF d] y(2) show thesis by (intro added) (auto simp: add_child_spec_def)
  qed
qed

text \<open>
  C15. Adding an actor hands out a reference that leads back to it: the addition never panics, the
  supervisor is sent a child whose attachment is an actor of the scope's own runtime with the binding
  of the returned reference, and as long as a child with this attachment is shown, the reference
  resolves to a membership of the scope.
\<close>

theorem added_actor_is_resolvable:
  assumes "scope_add_actor r a reply w = (x, w')"
  shows "(\<exists>e. x = Inl (Some e)) \<or>
    (\<exists>b d z. x = Inr (b, AddChild d reply) \<and> cd_attachment d = Some z \<and> z < length (w_attachments w') \<and>
       (\<forall>w'' i. w_attachments w'' ! z = w_attachments w' ! z \<longrightarrow>
          (\<exists>c\<in>set (shown w'' r). at_attachment c = Some z) \<longrightarrow>
          (\<exists>m. resolve_membership w'' r (ActorHandle b i) = Inr m \<and> names_membership w'' r (ActorHandle b i) m)))"
  using assms
proof (cases rule: scope_add_actor_cases)
  case (added b d y)
  let ?z = "length (w_attachments w') - 1"
  have z: "w_attachments w' ! ?z = attachment_actor (rf_actors r) y" using added by (simp add: last_conv_nth)
  have "\<exists>m. resolve_membership w'' r (ActorHandle b i) = Inr m"
    if at: "w_attachments w'' ! ?z = w_attachments w' ! ?z" and c: "c \<in> set (shown w'' r)" "at_attachment c = Some ?z" for w'' i c
  proof (rule ccontr)
    assume "\<not> ?thesis"
    then obtain e where "resolve_actor_membership w'' r b i = Inl e"
      by (cases "resolve_actor_membership w'' r b i") auto
    then have "find_map (\<lambda>a. Option.bind (direct_identity a) (\<lambda>x.
        if \<not> belongs_to (rf_actors r) (ac_attachment a) then None
        else case at_kind (ac_attachment a) of
          AttachSubtree _ \<Rightarrow> None
        | AttachActor m \<Rightarrow> if ra_binding m = b then Some (ai_id x, ai_lineage x) else None))
        (handle_attached_children w'' (rf_supervisor r)) = None"
      by (simp add: resolve_actor_membership_def split: option.splits)
    then show False
      using c at z added unfolding find_map_None bind_direct_None
      by (auto simp: attached_at_def attachment_actor_def belongs_to_def)
  qed
  moreover have "?z < length (w_attachments w')" using added by simp
  ultimately show ?thesis using added resolved_is_named by blast
qed blast

section \<open>Statistics\<close>

definition stats_entry :: "store \<Rightarrow> scope_ref \<Rightarrow> attached_child_state \<Rightarrow> (attached_child_identity list \<times> u64 \<times> nat) option" where
  "stats_entry w r c =
     Option.bind (at_attachment c) (\<lambda>a.
       if belongs_to (rf_actors r) (w_attachments w ! a)
       then case at_kind (w_attachments w ! a) of AttachActor x \<Rightarrow> Some ([], at_lineage c, ra_binding x) | AttachSubtree _ \<Rightarrow> None
       else None)"

definition own_entry :: "nat \<Rightarrow> attached_entry \<Rightarrow> (attached_child_identity list \<times> u64 \<times> nat) option" where
  "own_entry owner a =
     Option.bind (direct_identity a) (\<lambda>x.
       if belongs_to owner (ac_attachment a)
       then case at_kind (ac_attachment a) of AttachActor m \<Rightarrow> Some ([], ai_lineage x, ra_binding m) | AttachSubtree _ \<Rightarrow> None
       else None)"

lemma stats_step_own:
  assumes "ac_path a \<noteq> []" "fst s [] = Some owner"
  shows "fst (actor_stats_step a s) [] = Some owner"
    and "filter (\<lambda>e. fst e = []) (snd (actor_stats_step a s)) =
      filter (\<lambda>e. fst e = []) (snd s) @ List.map_filter (own_entry owner) [a]"
proof -
  obtain p x where p: "ac_path a = p @ [x]" using assms(1) by (metis rev_exhaust)
  show "fst (actor_stats_step a s) [] = Some owner"
    using assms(2) by (auto simp: actor_stats_step_def p split: option.splits runtime_attachment_kind.splits)
  show "filter (\<lambda>e. fst e = []) (snd (actor_stats_step a s)) =
      filter (\<lambda>e. fst e = []) (snd s) @ List.map_filter (own_entry owner) [a]"
  proof (cases p)
    case Nil
    then show ?thesis using assms(2)
      by (auto simp: actor_stats_step_def p own_entry_def direct_identity_def List.map_filter_simps
          split: option.splits runtime_attachment_kind.splits)
  next
    case (Cons y ys)
    then have "own_entry owner a = None"
      by (cases ys) (simp_all add: own_entry_def direct_identity_def p)
    then show ?thesis using Cons
      by (auto simp: actor_stats_step_def p List.map_filter_simps split: option.splits runtime_attachment_kind.splits)
  qed
qed

lemma stats_fold_own:
  assumes "\<forall>a\<in>set xs. ac_path a \<noteq> []" "fst s [] = Some owner"
  shows "filter (\<lambda>e. fst e = []) (snd (fold actor_stats_step xs s)) =
    filter (\<lambda>e. fst e = []) (snd s) @ List.map_filter (own_entry owner) xs"
  using assms
  by (induction xs arbitrary: s) (auto simp: stats_step_own List.map_filter_simps split: option.splits)

lemma map_filter_None: "\<forall>x\<in>set xs. f x = None \<Longrightarrow> List.map_filter f xs = []"
  by (induction xs) (simp_all add: List.map_filter_simps)

lemma map_filter_append: "List.map_filter f (xs @ ys) = List.map_filter f xs @ List.map_filter f ys"
  by (simp add: List.map_filter_def)

lemma own_entry_direct:
  "Option.bind (attached_at w [] c) (own_entry (rf_actors r)) = stats_entry w r c"
  by (cases "at_attachment c")
    (auto simp: own_entry_def stats_entry_def attached_at_def direct_identity_def identity_of_def
      split: runtime_attachment_kind.splits)

lemma own_entries_direct:
  "List.map_filter (own_entry (rf_actors r)) (List.map_filter (attached_at w []) cs) = List.map_filter (stats_entry w r) cs"
proof (induction cs)
  case (Cons c cs)
  then show ?case
    by (cases "attached_at w [] c") (simp_all add: own_entry_direct [symmetric] List.map_filter_simps split: option.split)
qed (simp add: List.map_filter_simps)

text \<open>
  The statistics of a scope count its own actors exactly once and in order: the entries that the
  statistics report for the scope itself are, in the order of its children, those children that are
  attached actors of its actor runtime, each with its lineage and its binding.
\<close>

theorem own_actor_stats:
  "filter (\<lambda>e. fst e = []) (scope_actor_stats w r) = List.map_filter (stats_entry w r) (shown w r)"
proof -
  let ?all = "handle_attached_children w (rf_supervisor r)"
  have "\<forall>a\<in>set ?all. ac_path a \<noteq> []"
    unfolding handle_attached_children_def using collected_path by fastforce
  then have "filter (\<lambda>e. fst e = []) (scope_actor_stats w r) = List.map_filter (own_entry (rf_actors r)) ?all"
    using stats_fold_own [of ?all "([[] \<mapsto> rf_actors r], [])" "rf_actors r"] by (simp add: scope_actor_stats_def)
  also have "\<dots> = List.map_filter (stats_entry w r) (shown w r)"
  proof (cases "av_terminal (st_attached (channels_at (rf_supervisor r) w))")
    case True
    then show ?thesis by (simp add: handle_attached_children_def view_hidden_def List.map_filter_simps)
  next
    case False
    then show ?thesis
      by (auto simp: handle_attached_children_def view_hidden_def map_filter_append own_entries_direct Let_def
          own_entry_def direct_of_nested intro!: map_filter_None split: option.splits)
  qed
  finally show ?thesis .
qed

section \<open>A scope with children\<close>

text \<open>A running dynamic scope that shows a task, an actor and a subtree.\<close>

definition sample_actor :: runnable_actor where
  "sample_actor = \<lparr>ra_actor_id = ''worker'', ra_binding = 4, ra_mailbox_capacity = 64, ra_running = False, ra_running_actors = 0\<rparr>"

definition sample_children :: "attached_child_state list" where
  "sample_children =
     [\<lparr>at_id = ''job'', at_lineage = 1, at_generation = 0, at_attachment = None, at_supervisor = None\<rparr>,
      \<lparr>at_id = ''worker'', at_lineage = 2, at_generation = 0, at_attachment = Some 0, at_supervisor = None\<rparr>,
      \<lparr>at_id = ''sub'', at_lineage = 3, at_generation = 0, at_attachment = Some 1, at_supervisor = Some 1\<rparr>]"

definition sample_scopes :: store where
  "sample_scopes =
     (let view = SupervisorSnapshot SVRunning Dynamic OneForOne 0 0 []
      in store_new\<lparr>w_identities :=
           [\<lparr>ci_channels = (stable_new view sample_children)\<lparr>st_current := Some \<lparr>ib_epoch = 0, ib_done = 0\<rparr>\<rparr>,
             ci_nested = [(''sub'', 1)], ci_terminalize_on_drop = False\<rparr>,
            \<lparr>ci_channels = stable_new view [], ci_nested = [], ci_terminalize_on_drop = False\<rparr>],
         w_attachments := [attachment_actor 0 sample_actor, attachment_subtree 0 1]\<rparr>)"

lemmas scope_sample_defs = sample_scopes_def sample_children_def sample_actor_def stable_new_def scope_ref_new_def
  handle_attached_children_def view_hidden_def attached_at_def direct_identity_def identity_of_def
  channels_at_def find_map_def attachment_actor_def attachment_subtree_def belongs_to_def store_new_def
  List.map_filter_simps Let_def

definition sample_runtime :: actor_runtime_config where
  "sample_runtime = \<lparr>ax_mailbox_capacity = 64, ax_default_child_restart = default_restart_policy,
     ax_default_child_shutdown = default_shutdown, ax_default_actor_mailbox_shutdown = Drain\<rparr>"

theorem handle_removal_is_exact_witness:
  "scope_remove sample_scopes (scope_ref_new 0 0) (ActorHandle 4 ''worker'') 9 = Inr (RemoveChild ''worker'' (Some 2) 9)
   \<and> names_membership sample_scopes (scope_ref_new 0 0) (ActorHandle 4 ''worker'') (''worker'', 2)"
proof -
  have c: "scope_remove sample_scopes (scope_ref_new 0 0) (ActorHandle 4 ''worker'') 9 = Inr (RemoveChild ''worker'' (Some 2) 9)"
    by (simp add: scope_sample_defs scope_remove_def dynamic_supervisor_def scope_kind_of_def handle_kind_def
        control_endpoint_def current_binding_def resolve_actor_membership_def)
  then show ?thesis using handle_removal_is_exact [OF c] by simp
qed

theorem subtree_handle_roundtrip_witness:
  "\<exists>q. scope_subtree sample_scopes (scope_ref_new 0 0) ''sub'' = Some q
    \<and> resolve_membership store_new (scope_ref_new 0 5) (ScopeHandle q) = Inr (''sub'', 3)"
proof -
  obtain q where q: "scope_subtree sample_scopes (scope_ref_new 0 0) ''sub'' = Some q"
    by (simp add: scope_sample_defs scope_subtree_def subtree_membership_def runtime_subtree_membership_def)
  from subtree_handle_roundtrip [OF q] obtain c where "c \<in> set (shown sample_scopes (scope_ref_new 0 0))" "at_id c = ''sub''"
      and "resolve_membership store_new (scope_ref_new 0 5) (ScopeHandle q) = Inr (''sub'', at_lineage c)"
    by (force simp: scope_ref_new_def)
  moreover from this have "at_lineage c = 3" by (auto simp: scope_sample_defs split: if_splits)
  ultimately show ?thesis using q by auto
qed

theorem added_actor_is_resolvable_witness:
  "\<exists>b d w'. scope_add_actor (scope_ref_new 0 0) (actor_spec_new ''w2'' :: unit actor_spec) 9
      (sample_scopes\<lparr>w_states := [sample_runtime]\<rparr>) = (Inr (b, AddChild d 9), w')
    \<and> (\<exists>z. cd_attachment d = Some z \<and> z < length (w_attachments w'))"
proof -
  let ?w = "sample_scopes\<lparr>w_states := [sample_runtime]\<rparr>"
  obtain x w' where x: "scope_add_actor (scope_ref_new 0 0) (actor_spec_new ''w2'' :: unit actor_spec) 9 ?w = (x, w')"
    by (meson surj_pair)
  moreover have "\<not> isl (fst (scope_add_actor (scope_ref_new 0 0) (actor_spec_new ''w2'' :: unit actor_spec) 9 ?w))"
    by (simp add: scope_sample_defs scope_add_actor_def dynamic_supervisor_def scope_kind_of_def handle_kind_def
        control_endpoint_def current_binding_def sample_runtime_def actor_spec_ref_def actor_spec_new_def
        binding_get_or_init_def binding_alloc_def options_validate_def actor_options_new_def into_node_def
        into_deferred_node_def node_materialize_def deferred_materialize_def actor_defaults_def inherited_queue_def capacity_or_def split: prod.split)
  ultimately show ?thesis using added_actor_is_resolvable [OF x] by auto
qed

end
