(* ===== verification/Completion.thy ===== *)
theory Completion
  imports Scope_Handle
begin

text \<open>
  Waiting for children that represent finite work (\<open>supervisor/completion.rs\<close>): the reduction of a
  scope's lifecycle events and snapshots into the set of awaited children that are done, and the wait
  that returns once all of them are.
\<close>

section \<open>The completion set\<close>

datatype completion_error = NotDynamic | UnknownChild string | ScopeClosed

record completion_set =
  cp_awaited :: "string list"
  cp_satisfied :: "string set"
  cp_seen :: "string set"
  cp_lineages :: "string \<Rightarrow> u64 option"
  cp_policies :: "string \<Rightarrow> restart_policy option"

definition completion_set_new :: "string list \<Rightarrow> completion_set" where
  "completion_set_new ids =
     \<lparr>cp_awaited = ids, cp_satisfied = {}, cp_seen = {}, cp_lineages = Map.empty, cp_policies = Map.empty\<rparr>"

definition is_complete :: "completion_set \<Rightarrow> bool" where
  "is_complete c \<longleftrightarrow> list_all (\<lambda>i. i \<in> cp_satisfied c) (cp_awaited c)"

definition awaits :: "completion_set \<Rightarrow> string \<Rightarrow> bool" where
  "awaits c i \<longleftrightarrow> i \<in> set (cp_awaited c)"

fun is_always :: "restart_policy \<Rightarrow> bool" where
  "is_always (Always m w b) = True"
| "is_always p = False"

fun exit_in_view :: "child_state_view \<Rightarrow> exit_status option" where
  "exit_in_view (CVStopped st e) = e"
| "exit_in_view (CVStartupAborted e) = Some e"
| "exit_in_view _ = None"

definition clean_exit :: "exit_status \<Rightarrow> bool" where
  "clean_exit e \<longleftrightarrow> status_is_completed e \<and> \<not> cancelled e"

definition is_completed :: "child_snapshot \<Rightarrow> bool" where
  "is_completed c \<longleftrightarrow>
     cs_membership c = MVRemoving \<or>
     \<not> is_always (cs_restart_policy c) \<and> cs_next_restart_in c = None \<and>
     (case exit_in_view (cs_state c) of None \<Rightarrow> False | Some e \<Rightarrow> clean_exit e)"

definition mark :: "bool \<Rightarrow> string \<Rightarrow> completion_set \<Rightarrow> completion_set" where
  "mark b i c =
     c\<lparr>cp_satisfied := if b then insert i (cp_satisfied c) else cp_satisfied c - {i}\<rparr>"

definition realign_one :: "supervisor_snapshot \<Rightarrow> string \<Rightarrow> completion_set \<Rightarrow> completion_set" where
  "realign_one s i c =
     (case snapshot_child s i of
        None \<Rightarrow> mark (i \<in> cp_seen c) i c
      | Some x \<Rightarrow>
          if (case cp_lineages c i of None \<Rightarrow> False | Some newest \<Rightarrow> cs_lineage x < newest) then c
          else mark (is_completed x) i
                 (c\<lparr>cp_lineages := (cp_lineages c)(i \<mapsto> cs_lineage x),
                    cp_policies := (cp_policies c)(i \<mapsto> cs_restart_policy x),
                    cp_seen := insert i (cp_seen c)\<rparr>))"

definition realign :: "supervisor_snapshot \<Rightarrow> completion_set \<Rightarrow> completion_set \<times> u64" where
  "realign s c = (fold (realign_one s) (cp_awaited c) c, ss_lifecycle_seq s)"

datatype completion_transition = TRunning | TExited exit_status | TRemoved

fun transition_of :: "child_event_kind \<Rightarrow> completion_transition option" where
  "transition_of Added = Some TRunning"
| "transition_of (Started g) = Some TRunning"
| "transition_of (Exited g e) = Some (TExited e)"
| "transition_of Removed = Some TRemoved"
| "transition_of (RestartScheduled g d) = None"

fun apply_transition :: "string \<Rightarrow> completion_transition \<Rightarrow> completion_set \<Rightarrow> completion_set" where
  "apply_transition i TRunning c = mark False i c"
| "apply_transition i (TExited e) c =
     mark (clean_exit e \<and> \<not> (case cp_policies c i of None \<Rightarrow> False | Some p \<Rightarrow> is_always p)) i c"
| "apply_transition i TRemoved c = mark True i c"

definition apply_child :: "child_event \<Rightarrow> completion_transition \<Rightarrow> completion_set \<Rightarrow> completion_set" where
  "apply_child x t c =
     (let i = ev_child_id x; l = ev_lineage x;
          newest = (case cp_lineages c i of None \<Rightarrow> l | Some l' \<Rightarrow> l')
      in if \<not> awaits c i then c
         else if l < newest then c
         else apply_transition i t
                (c\<lparr>cp_policies := if newest < l then (cp_policies c)(i := None) else cp_policies c,
                   cp_lineages := (cp_lineages c)(i \<mapsto> l), cp_seen := insert i (cp_seen c)\<rparr>))"

definition apply_event :: "lifecycle_event \<Rightarrow> completion_set \<Rightarrow> completion_set" where
  "apply_event e c =
     (case le_kind e of
        LChild x \<Rightarrow> (case transition_of (ev_kind x) of None \<Rightarrow> c | Some t \<Rightarrow> apply_child x t c)
      | _ \<Rightarrow> c)"

definition initialize :: "supervisor_snapshot \<Rightarrow> bool \<Rightarrow> completion_set \<Rightarrow> completion_error + completion_set \<times> u64" where
  "initialize s allow_future_members c =
     (case (if allow_future_members then None else List.find (\<lambda>i. snapshot_child s i = None) (cp_awaited c)) of
        Some i \<Rightarrow> Inl (UnknownChild i)
      | None \<Rightarrow> Inr (realign s c))"

section \<open>The wait\<close>

record completion_operation =
  op_set :: completion_set
  op_baseline :: u64

definition completion_operation_new ::
    "string list \<Rightarrow> bool \<Rightarrow> scope_kind \<Rightarrow> supervisor_snapshot \<Rightarrow> completion_error + completion_operation" where
  "completion_operation_new ids allow_future_members kind s =
     (if allow_future_members \<and> kind \<noteq> Dynamic then Inl NotDynamic
      else case initialize s allow_future_members (completion_set_new ids) of
        Inl e \<Rightarrow> Inl e
      | Inr (c, b) \<Rightarrow> Inr \<lparr>op_set = c, op_baseline = b\<rparr>)"

definition op_realign :: "supervisor_snapshot \<Rightarrow> completion_operation \<Rightarrow> completion_operation" where
  "op_realign s p = (let (c, b) = realign s (op_set p) in \<lparr>op_set = c, op_baseline = b\<rparr>)"

fun needs_realign :: "lifecycle_event_kind \<Rightarrow> bool" where
  "needs_realign (LChild x) = (case ev_kind x of Added \<Rightarrow> True | Exited g e \<Rightarrow> True | _ \<Rightarrow> False)"
| "needs_realign _ = False"

definition completion_event :: "lifecycle_event \<Rightarrow> supervisor_snapshot \<Rightarrow> completion_operation \<Rightarrow> completion_operation" where
  "completion_event e s p =
     (if is_lagged e then op_realign s p
      else if scope_path e = [] \<and> (case event_seq (le_kind e) of None \<Rightarrow> False | Some q \<Rightarrow> op_baseline p < q) then
        (let p1 = p\<lparr>op_set := apply_event e (op_set p)\<rparr>
         in if needs_realign (le_kind e) then op_realign s p1 else p1)
      else p)"

text \<open>One pass over the head of the loop: does the wait return?\<close>

definition completion_check :: "supervisor_snapshot \<Rightarrow> completion_operation \<Rightarrow> bool \<times> completion_operation" where
  "completion_check s p =
     (if is_complete (op_set p) then (let p1 = op_realign s p in (is_complete (op_set p1), p1)) else (False, p))"

text \<open>
  The loop over its turns: the snapshot read at the head, the next event of the watch (none when it
  has ended) and the snapshot read for that event.  A wait that is still pending has no result.
\<close>

fun completion_wait ::
    "(supervisor_snapshot \<times> lifecycle_event option \<times> supervisor_snapshot) list \<Rightarrow> completion_operation \<Rightarrow>
     (completion_error + unit) option \<times> completion_operation" where
  "completion_wait [] p = (None, p)"
| "completion_wait ((s1, e, s2) # ts) p =
     (case completion_check s1 p of
        (True, p1) \<Rightarrow> (Some (Inr ()), p1)
      | (False, p1) \<Rightarrow>
          (case e of
             None \<Rightarrow> (Some (Inl ScopeClosed), p1)
           | Some e \<Rightarrow> completion_wait ts (completion_event e s2 p1)))"

text \<open>The task behind a completion guard: what it does to the scope when its select resolves.\<close>

definition completion_shutdown :: "bool \<Rightarrow> completion_error + unit \<Rightarrow> stable_channels \<Rightarrow> stable_channels" where
  "completion_shutdown task_cancelled result c =
     (if task_cancelled then c else case result of Inr _ \<Rightarrow> handle_shutdown c | Inl _ \<Rightarrow> c)"

section \<open>What one child's events and snapshots do to its place in the set\<close>

definition status :: "string \<Rightarrow> completion_set \<Rightarrow> bool \<times> bool \<times> u64 option \<times> restart_policy option" where
  "status i c = (i \<in> cp_satisfied c, i \<in> cp_seen c, cp_lineages c i, cp_policies c i)"

fun realign_status ::
    "supervisor_snapshot \<Rightarrow> string \<Rightarrow> bool \<times> bool \<times> u64 option \<times> restart_policy option \<Rightarrow>
     bool \<times> bool \<times> u64 option \<times> restart_policy option" where
  "realign_status s i (sat, seen, lin, pol) =
     (case snapshot_child s i of
        None \<Rightarrow> (seen, seen, lin, pol)
      | Some x \<Rightarrow>
          if (case lin of None \<Rightarrow> False | Some newest \<Rightarrow> cs_lineage x < newest) then (sat, seen, lin, pol)
          else (is_completed x, True, Some (cs_lineage x), Some (cs_restart_policy x)))"

lemma realign_one_status:
  "status j (realign_one s i c) = (if i = j then realign_status s i (status j c) else status j c)"
  by (auto simp: status_def realign_one_def mark_def split: option.splits)

lemma realign_status_idem [simp]: "realign_status s i (realign_status s i st) = realign_status s i st"
  by (cases st) (auto split: option.splits)

lemma fold_realign_status:
  "status i (fold (realign_one s) xs c) = (if i \<in> set xs then realign_status s i (status i c) else status i c)"
  by (induction xs arbitrary: c) (auto simp: realign_one_status)

lemma realign_one_awaited [simp]: "cp_awaited (realign_one s i c) = cp_awaited c"
  by (auto simp: realign_one_def mark_def split: option.splits)

lemma fold_realign_awaited [simp]: "cp_awaited (fold (realign_one s) xs c) = cp_awaited c"
  by (induction xs arbitrary: c) simp_all

lemma op_realign_awaited [simp]: "cp_awaited (op_set (op_realign s p)) = cp_awaited (op_set p)"
  by (simp add: op_realign_def realign_def)

lemma op_realign_baseline [simp]: "op_baseline (op_realign s p) = ss_lifecycle_seq s"
  by (simp add: op_realign_def realign_def)

lemma op_realign_status:
  "i \<in> set (cp_awaited (op_set p)) \<Longrightarrow> status i (op_set (op_realign s p)) = realign_status s i (status i (op_set p))"
  by (simp add: op_realign_def realign_def fold_realign_status)

lemma apply_transition_frame [simp]:
  "cp_awaited (apply_transition i t c) = cp_awaited c"
  "cp_seen (apply_transition i t c) = cp_seen c"
  "cp_lineages (apply_transition i t c) = cp_lineages c"
  by (cases t; simp add: mark_def)+

lemma apply_awaited [simp]: "cp_awaited (apply_event e c) = cp_awaited c"
  by (simp add: apply_event_def apply_child_def Let_def split: lifecycle_event_kind.splits option.splits)

lemma apply_other:
  assumes "\<And>x. le_kind e = LChild x \<Longrightarrow> ev_child_id x \<noteq> i"
  shows "status i (apply_event e c) = status i c"
proof -
  have "status i (apply_transition j t d) = status i d" if "j \<noteq> i" for j t d
    using that by (cases t) (auto simp: mark_def status_def)
  with assms show ?thesis
    by (auto simp: apply_event_def apply_child_def Let_def status_def split: lifecycle_event_kind.splits option.splits)
qed

lemma is_complete_iff: "is_complete c \<longleftrightarrow> (\<forall>i\<in>set (cp_awaited c). fst (status i c))"
  by (simp add: is_complete_def list_all_iff status_def)

text \<open>The set knows a membership of the child, none newer than lineage \<open>l\<close>.\<close>

definition known :: "string \<Rightarrow> u64 \<Rightarrow> completion_set \<Rightarrow> bool" where
  "known i l c \<longleftrightarrow> i \<in> set (cp_awaited c) \<and> (\<exists>sat n pol. status i c = (sat, True, Some n, pol) \<and> n \<le> l)"

lemma known_apply:
  assumes "known i l c" "\<And>x. le_kind e = LChild x \<Longrightarrow> ev_child_id x = i \<Longrightarrow> ev_lineage x \<le> l"
  shows "known i l (apply_event e c)"
proof (cases "\<exists>x. le_kind e = LChild x \<and> ev_child_id x = i")
  case False
  then show ?thesis using assms(1) apply_other [of e i c] by (auto simp: known_def)
next
  case True
  then obtain x where x: "le_kind e = LChild x" "ev_child_id x = i" by blast
  from assms x show ?thesis
    by (auto simp: known_def apply_event_def apply_child_def Let_def status_def split: option.splits)
qed

lemma applied_removal:
  assumes "known i l c" "le_kind e = LChild x" "ev_child_id x = i" "ev_lineage x = l" "ev_kind x = Removed"
  shows "fst (status i (apply_event e c))"
  using assms by (auto simp: known_def apply_event_def apply_child_def Let_def status_def awaits_def mark_def)

section \<open>A wait over a history\<close>

text \<open>
  The history of a scope is the sequence of its snapshots, the \<open>n\<close>-th after \<open>n\<close> transitions.  A wait
  reads snapshots that do not go back in time; an event is handled after it happened, and
  the watch delivers the scope's own events in order.
\<close>

definition history :: "(nat \<Rightarrow> supervisor_snapshot) \<Rightarrow> bool" where
  "history H \<longleftrightarrow> (\<forall>n. ss_lifecycle_seq (H n) = n)"

type_synonym wait_turn = "nat \<times> lifecycle_event \<times> nat"

fun turns_ok :: "nat \<Rightarrow> nat \<Rightarrow> wait_turn list \<Rightarrow> bool" where
  "turns_ok m q [] \<longleftrightarrow> True"
| "turns_ok m q ((n1, e, n2) # ts) \<longleftrightarrow>
     m \<le> n1 \<and> n1 \<le> n2 \<and> scope_path e = [] \<and>
     (case event_seq (le_kind e) of None \<Rightarrow> turns_ok n2 q ts | Some d \<Rightarrow> q < d \<and> d \<le> n2 \<and> turns_ok n2 d ts)"

fun last_read :: "nat \<Rightarrow> wait_turn list \<Rightarrow> nat" where
  "last_read m [] = m"
| "last_read m ((n1, e, n2) # ts) = last_read n2 ts"

definition reads :: "(nat \<Rightarrow> supervisor_snapshot) \<Rightarrow> wait_turn \<Rightarrow> supervisor_snapshot \<times> lifecycle_event option \<times> supervisor_snapshot" where
  "reads H t = (case t of (n1, e, n2) \<Rightarrow> (H n1, Some e, H n2))"

text \<open>
  A child is finished from transition \<open>k\<close> on: its newest membership has lineage \<open>l\<close>, and every later snapshot
  shows it completed or no longer shows it.
\<close>

definition finished_from :: "(nat \<Rightarrow> supervisor_snapshot) \<Rightarrow> string \<Rightarrow> nat \<Rightarrow> u64 \<Rightarrow> bool" where
  "finished_from H i k l \<longleftrightarrow>
     (\<forall>n c. snapshot_child (H n) i = Some c \<longrightarrow> cs_lineage c \<le> l \<and> (k \<le> n \<longrightarrow> cs_lineage c = l \<and> is_completed c))"

definition event_within :: "string \<Rightarrow> nat \<Rightarrow> u64 \<Rightarrow> wait_turn \<Rightarrow> bool" where
  "event_within i k l t \<longleftrightarrow>
     (case t of (n1, e, n2) \<Rightarrow>
        case le_kind e of LChild x \<Rightarrow> ev_child_id x = i \<longrightarrow> ev_seq x \<le> k \<and> ev_lineage x \<le> l | _ \<Rightarrow> True)"

text \<open>The turn tells the wait of the last transition: by its event, or by an overflow after it.\<close>

definition covers :: "string \<Rightarrow> nat \<Rightarrow> u64 \<Rightarrow> wait_turn \<Rightarrow> bool" where
  "covers i k l t \<longleftrightarrow>
     (case t of (n1, e, n2) \<Rightarrow>
        case le_kind e of
          LChild x \<Rightarrow> ev_child_id x = i \<and> ev_seq x = k \<and> ev_lineage x = l \<and>
            (case ev_kind x of Exited g r \<Rightarrow> True | Removed \<Rightarrow> True | _ \<Rightarrow> False)
        | LLagged d \<Rightarrow> k \<le> n2
        | _ \<Rightarrow> False)"

definition tracked :: "string \<Rightarrow> nat \<Rightarrow> u64 \<Rightarrow> bool \<Rightarrow> nat \<Rightarrow> nat \<Rightarrow> completion_operation \<Rightarrow> bool" where
  "tracked i k l cov m q p \<longleftrightarrow>
     known i l (op_set p) \<and> op_baseline p \<le> m \<and> (cov \<longrightarrow> k \<le> m \<and> (k \<le> q \<or> k \<le> op_baseline p)) \<and>
     (cov \<or> k \<le> op_baseline p \<longrightarrow> fst (status i (op_set p)))"

lemma realign_known:
  assumes "finished_from H i k l" "known i l (op_set p)"
  shows "known i l (op_set (op_realign (H n) p))" "k \<le> n \<Longrightarrow> fst (status i (op_set (op_realign (H n) p)))"
  using assms op_realign_status [of i p "H n"]
  by (auto simp: known_def finished_from_def split: option.splits)

lemma tracked_realign:
  assumes "history H" "finished_from H i k l" "tracked i k l cov m q p" "m \<le> n"
  shows "tracked i k l cov n q (op_realign (H n) p)"
proof -
  have k: "known i l (op_set p)" using assms(3) by (simp add: tracked_def)
  note r = realign_known [OF assms(2) k]
  show ?thesis using assms r by (auto simp: tracked_def history_def)
qed

lemma fresh_event:
  assumes "\<not> is_lagged e" "scope_path e = []" "le_kind e = LChild x" "op_baseline p < ev_seq x"
  shows "completion_event e s p =
    (let p1 = p\<lparr>op_set := apply_event e (op_set p)\<rparr> in if needs_realign (le_kind e) then op_realign s p1 else p1)"
  using assms by (simp add: completion_event_def)

lemma tracked_own_event:
  assumes H: "history H" and F: "finished_from H i k l" and tr: "tracked i k l cov m q p"
    and x: "le_kind e = LChild x" "ev_child_id x = i" "op_baseline p < ev_seq x" "scope_path e = []"
    and d: "q < ev_seq x" "ev_seq x \<le> n" "m \<le> n" and w: "ev_seq x \<le> k" "ev_lineage x \<le> l"
  shows "tracked i k l (cov \<or> covers i k l (n', e, n)) n (ev_seq x) (completion_event e (H n) p)"
proof -
  let ?p1 = "p\<lparr>op_set := apply_event e (op_set p)\<rparr>"
  have ev: "completion_event e (H n) p = (if needs_realign (le_kind e) then op_realign (H n) ?p1 else ?p1)"
    using fresh_event [of e x p "H n"] x by (simp add: is_lagged_def Let_def)
  have kn: "known i l (op_set ?p1)" using known_apply [of i l "op_set p" e] tr w x by (simp add: tracked_def)
  have early: "\<not> cov" "op_baseline p < k" using tr w d x(3) by (auto simp: tracked_def)
  have rm: "fst (status i (op_set ?p1))" if "covers i k l (n', e, n)" "\<not> needs_realign (le_kind e)"
    using that applied_removal [of i l "op_set p" e x] tr x
    by (auto simp: covers_def tracked_def split: child_event_kind.splits)
  have ck: "covers i k l (n', e, n) \<Longrightarrow> ev_seq x = k" using x by (simp add: covers_def)
  show ?thesis
  proof (cases "needs_realign (le_kind e)")
    case True
    with kn realign_known [OF F kn, of n] ck d H early show ?thesis by (auto simp: ev tracked_def history_def)
  next
    case False
    with kn rm ck d early tr show ?thesis by (auto simp: ev tracked_def)
  qed
qed

lemma tracked_other_event:
  assumes H: "history H" and F: "finished_from H i k l" and tr: "tracked i k l cov m q p"
    and x: "le_kind e = LChild x" "ev_child_id x \<noteq> i" "op_baseline p < ev_seq x" "scope_path e = []"
    and d: "q < ev_seq x" "m \<le> n"
  shows "tracked i k l cov n (ev_seq x) (completion_event e (H n) p)"
proof -
  let ?p1 = "p\<lparr>op_set := apply_event e (op_set p)\<rparr>"
  have "status i (apply_event e (op_set p)) = status i (op_set p)"
    using x apply_other [of e i "op_set p"] by auto
  then have t1: "tracked i k l cov m (ev_seq x) ?p1" using tr d by (auto simp: tracked_def known_def)
  from fresh_event [of e x p "H n"] tracked_realign [OF H F t1 d(2)] t1 d(2) x show ?thesis
    by (auto simp: tracked_def is_lagged_def Let_def)
qed

lemma tracked_event:
  assumes H: "history H" and F: "finished_from H i k l" and tr: "tracked i k l cov m q p"
    and ok: "turns_ok m q [(n1, e, n2)]" and within: "event_within i k l (n1, e, n2)"
  shows "tracked i k l (cov \<or> covers i k l (n1, e, n2)) n2 (case event_seq (le_kind e) of None \<Rightarrow> q | Some d \<Rightarrow> d)
    (completion_event e (H n2) p)"
proof (cases "event_seq (le_kind e)")
  case None
  show ?thesis
  proof (cases "is_lagged e")
    case True
    then have l: "covers i k l (n1, e, n2) \<longleftrightarrow> k \<le> n2" "completion_event e (H n2) p = op_realign (H n2) p"
      by (cases "le_kind e"; simp add: covers_def is_lagged_def completion_event_def)+
    have "known i l (op_set p)" using tr by (simp add: tracked_def)
    note r = realign_known [OF F this]
    from tr ok None l r [of n2] H show ?thesis by (auto simp: tracked_def history_def)
  next
    case False
    then have "\<not> covers i k l (n1, e, n2)" "completion_event e (H n2) p = p"
      using None by (cases "le_kind e"; simp add: covers_def is_lagged_def completion_event_def)+
    with tr ok None show ?thesis by (auto simp: tracked_def)
  qed
next
  case (Some d)
  then obtain x where x: "le_kind e = LChild x" "ev_seq x = d" by (cases "le_kind e") auto
  have d: "q < d" "d \<le> n2" "m \<le> n2" "scope_path e = []" using ok Some by auto
  consider (stale) "\<not> op_baseline p < d" | (own) "op_baseline p < d" "ev_child_id x = i"
    | (other) "op_baseline p < d" "ev_child_id x \<noteq> i" by blast
  then show ?thesis
  proof cases
    case stale
    with tr d x show ?thesis by (auto simp: tracked_def completion_event_def covers_def is_lagged_def)
  next
    case own
    with within x have "ev_seq x \<le> k" "ev_lineage x \<le> l" by (auto simp: event_within_def)
    with tracked_own_event [OF H F tr x(1), where n = n2] own x d show ?thesis by simp
  next
    case other
    then have "\<not> covers i k l (n1, e, n2)" using x by (simp add: covers_def)
    with tracked_other_event [OF H F tr x(1), where n = n2] other x d show ?thesis by simp
  qed
qed

lemma tracked_check:
  assumes "history H" "finished_from H i k l" "tracked i k l cov m q p" "m \<le> n" "completion_check (H n) p = (b, p1)"
  shows "tracked i k l cov n q p1"
proof -
  have "tracked i k l cov n q p" using assms(3,4) by (auto simp: tracked_def)
  then show ?thesis using assms(5) tracked_realign [OF assms(1-4)]
    by (auto simp: completion_check_def Let_def split: if_splits)
qed

lemma reads_tuple: "reads H (n1, e, n2) = (H n1, Some e, H n2)"
  by (simp add: reads_def)

lemma turns_ok_Cons:
  "turns_ok m q ((n1, e, n2) # ts) \<longleftrightarrow>
     turns_ok m q [(n1, e, n2)] \<and> turns_ok n2 (case event_seq (le_kind e) of None \<Rightarrow> q | Some d \<Rightarrow> d) ts"
  by (auto split: option.splits)

lemma tracked_wait:
  assumes "history H" "finished_from H i k l"
  shows "turns_ok m q ts \<Longrightarrow> \<forall>t\<in>set ts. event_within i k l t \<Longrightarrow> tracked i k l cov m q p \<Longrightarrow>
    completion_wait (map (reads H) ts) p = (None, p') \<Longrightarrow>
    \<exists>q'. tracked i k l (cov \<or> (\<exists>t\<in>set ts. covers i k l t)) (last_read m ts) q' p'"
proof (induction ts arbitrary: m q cov p)
  case (Cons t ts)
  obtain n1 e n2 where t: "t = (n1, e, n2)" by (cases t)
  from Cons.prems(4) obtain p1 where p1: "completion_check (H n1) p = (False, p1)"
    and w: "completion_wait (map (reads H) ts) (completion_event e (H n2) p1) = (None, p')"
    by (auto simp: t reads_tuple split: prod.splits bool.splits)
  have ok: "turns_ok m q [(n1, e, n2)]" "turns_ok n2 (case event_seq (le_kind e) of None \<Rightarrow> q | Some d \<Rightarrow> d) ts"
    using Cons.prems(1) by (simp_all only: t turns_ok_Cons [of m q n1 e n2 ts])
  then have "turns_ok n1 q [(n1, e, n2)]" "m \<le> n1" by (auto split: option.splits)
  from tracked_check [OF assms Cons.prems(3) this(2) p1] have "tracked i k l cov n1 q p1" .
  from tracked_event [OF assms this \<open>turns_ok n1 q [(n1, e, n2)]\<close>] Cons.prems(2)
  have "tracked i k l (cov \<or> covers i k l t) n2 (case event_seq (le_kind e) of None \<Rightarrow> q | Some d \<Rightarrow> d)
      (completion_event e (H n2) p1)" by (simp add: t)
  from Cons.IH [OF ok(2) _ this w] Cons.prems(2) show ?case by (auto simp: t)
qed auto

lemma completion_wait_append:
  "completion_wait (ts @ us) p =
     (case completion_wait ts p of (None, p') \<Rightarrow> completion_wait us p' | (Some r, p') \<Rightarrow> (Some r, p'))"
  by (induction ts p rule: completion_wait.induct) (auto split: prod.splits bool.splits option.splits)

lemma completion_event_awaited [simp]: "cp_awaited (op_set (completion_event e s p)) = cp_awaited (op_set p)"
  by (simp add: completion_event_def Let_def)

lemma completion_check_awaited: "completion_check s p = (b, p') \<Longrightarrow> cp_awaited (op_set p') = cp_awaited (op_set p)"
  by (auto simp: completion_check_def Let_def split: if_splits)

lemma completion_wait_awaited: "cp_awaited (op_set (snd (completion_wait ts p))) = cp_awaited (op_set p)"
  by (induction ts p rule: completion_wait.induct)
    (auto dest: completion_check_awaited split: prod.splits bool.splits option.splits)

lemma open_watch_result: "fst (completion_wait (map (reads H) ts) p) \<in> {None, Some (Inr ())}"
  by (induction ts arbitrary: p) (auto simp: reads_def split: prod.splits bool.splits)

lemma new_operation:
  assumes "completion_operation_new ids allow kind s = Inr p"
  shows "cp_awaited (op_set p) = ids" "op_baseline p = ss_lifecycle_seq s"
    "i \<in> set ids \<Longrightarrow> status i (op_set p) = realign_status s i (False, False, None, None)"
    "\<not> allow \<Longrightarrow> i \<in> set ids \<Longrightarrow> snapshot_child s i \<noteq> None"
proof -
  have p: "op_set p = fold (realign_one s) ids (completion_set_new ids) \<and> op_baseline p = ss_lifecycle_seq s
      \<and> (allow \<or> (\<forall>i\<in>set ids. snapshot_child s i \<noteq> None))"
    using assms by (auto simp: completion_operation_new_def initialize_def realign_def completion_set_new_def
        find_None_iff split: if_splits sum.splits option.splits)
  have new: "status i (completion_set_new ids) = (False, False, None, None)" "cp_awaited (completion_set_new ids) = ids" for i
    by (simp_all add: completion_set_new_def status_def)
  from p show "cp_awaited (op_set p) = ids" "op_baseline p = ss_lifecycle_seq s"
    and "i \<in> set ids \<Longrightarrow> status i (op_set p) = realign_status s i (False, False, None, None)"
    and "\<not> allow \<Longrightarrow> i \<in> set ids \<Longrightarrow> snapshot_child s i \<noteq> None"
    by (auto simp: fold_realign_status new)
qed

lemma new_tracked:
  assumes "completion_operation_new ids False kind (H m) = Inr p" "history H" "finished_from H i k l" "i \<in> set ids"
  shows "tracked i k l (k \<le> m) m 0 p"
proof -
  note n = new_operation [OF assms(1)]
  from n(4) [of i] assms(4) obtain c where c: "snapshot_child (H m) i = Some c" by auto
  then have "status i (op_set p) = (is_completed c, True, Some (cs_lineage c), Some (cs_restart_policy c))"
    using n(3) [OF assms(4)] by simp
  then show ?thesis using c n assms(2-4) by (auto simp: tracked_def known_def history_def finished_from_def)
qed

text \<open>
  C18. A completion wait is not left behind: in a wait for existing children, once every one of
  them is finished for good (completed, or removed) and the watch has delivered its last
  transition or an overflow after it, the next pass of the loop returns success, however the
  snapshots the wait reads run ahead of the events it handles.
\<close>

theorem completion_wait_returns:
  assumes "completion_operation_new ids False kind (H m) = Inr p" "history H" "turns_ok m 0 ts" "last_read m ts \<le> n"
    and "\<forall>i\<in>set ids. \<exists>k l. finished_from H i k l \<and> (\<forall>t\<in>set ts. event_within i k l t) \<and>
      (k \<le> m \<or> (\<exists>t\<in>set ts. covers i k l t))"
  shows "fst (completion_wait (map (reads H) ts @ [(H n, e, s)]) p) = Some (Inr ())"
proof (cases "completion_wait (map (reads H) ts) p")
  case (Pair r p')
  show ?thesis
  proof (cases r)
    case None
    have fin: "\<exists>k l q'. finished_from H i k l \<and> tracked i k l True (last_read m ts) q' p'" if "i \<in> set ids" for i
    proof -
      from assms(5) that obtain k l where f: "finished_from H i k l" "\<forall>t\<in>set ts. event_within i k l t"
        "k \<le> m \<or> (\<exists>t\<in>set ts. covers i k l t)" by blast
      from tracked_wait [OF assms(2) f(1) assms(3) f(2) new_tracked [OF assms(1,2) f(1) that]] Pair None f
      show ?thesis by auto
    qed
    have aw: "cp_awaited (op_set p') = ids"
      using completion_wait_awaited [of "map (reads H) ts" p] new_operation(1) [OF assms(1)] Pair by simp
    have all: "is_complete (op_set p')" using fin by (fastforce simp: is_complete_iff aw tracked_def)
    have "fst (status i (op_set (op_realign (H n) p')))" if "i \<in> set ids" for i
      using fin [OF that] tracked_realign [OF assms(2) _ _ assms(4)] by (fastforce simp: tracked_def)
    then have "is_complete (op_set (op_realign (H n) p'))" by (simp add: is_complete_iff aw)
    with all show ?thesis using Pair None by (simp add: completion_wait_append completion_check_def Let_def)
  next
    case (Some a)
    with open_watch_result [of H ts p] Pair show ?thesis by (auto simp: completion_wait_append)
  qed
qed

section \<open>A completion is confirmed by the scope\<close>

definition shows_lineage :: "supervisor_snapshot \<Rightarrow> string \<Rightarrow> u64 \<Rightarrow> bool" where
  "shows_lineage s i l \<longleftrightarrow> (\<exists>c. snapshot_child s i = Some c \<and> cs_lineage c = l)"

definition event_of :: "lifecycle_event \<Rightarrow> string \<Rightarrow> u64 \<Rightarrow> bool" where
  "event_of e i l \<longleftrightarrow> (\<exists>x. le_kind e = LChild x \<and> ev_child_id x = i \<and> ev_lineage x = l)"

text \<open>The wait has been told of a membership: by a snapshot it read or an event it received.\<close>

definition told ::
    "supervisor_snapshot \<Rightarrow> (supervisor_snapshot \<times> lifecycle_event option \<times> supervisor_snapshot) list \<Rightarrow> string \<Rightarrow> u64 \<Rightarrow> bool" where
  "told s ts i l \<longleftrightarrow>
     shows_lineage s i l \<or>
     (\<exists>(s1, e, s2)\<in>set ts. shows_lineage s1 i l \<or> shows_lineage s2 i l \<or> (\<exists>d. e = Some d \<and> event_of d i l))"

definition grounded :: "(string \<Rightarrow> u64 \<Rightarrow> bool) \<Rightarrow> completion_set \<Rightarrow> bool" where
  "grounded T c \<longleftrightarrow>
     (\<forall>i\<in>set (cp_awaited c). case status i c of (sat, seen, lin, pol) \<Rightarrow>
        (seen \<longrightarrow> lin \<noteq> None) \<and> (\<forall>l. lin = Some l \<longrightarrow> T i l))"

lemma grounded_realign:
  assumes "grounded T (op_set p)" "\<And>i l. shows_lineage s i l \<Longrightarrow> T i l"
  shows "grounded T (op_set (op_realign s p))"
proof -
  have "case realign_status s i st of (sat, seen, lin, pol) \<Rightarrow> (seen \<longrightarrow> lin \<noteq> None) \<and> (\<forall>l. lin = Some l \<longrightarrow> T i l)"
    if "case st of (sat, seen, lin, pol) \<Rightarrow> (seen \<longrightarrow> lin \<noteq> None) \<and> (\<forall>l. lin = Some l \<longrightarrow> T i l)" for i st
    using that assms(2) [of i] by (cases st) (auto simp: shows_lineage_def split: option.splits)
  with assms(1) show ?thesis by (simp add: grounded_def op_realign_status)
qed

lemma grounded_apply:
  assumes "grounded T c" "\<And>i l. event_of e i l \<Longrightarrow> T i l"
  shows "grounded T (apply_event e c)"
  using assms
  by (auto simp: grounded_def event_of_def apply_event_def apply_child_def Let_def status_def awaits_def
      split: lifecycle_event_kind.splits option.splits)

lemma grounded_event:
  assumes "grounded T (op_set p)" "\<And>i l. event_of e i l \<Longrightarrow> T i l" "\<And>i l. shows_lineage s i l \<Longrightarrow> T i l"
  shows "grounded T (op_set (completion_event e s p))"
  using assms grounded_apply [of T "op_set p" e]
  by (auto simp: completion_event_def Let_def intro!: grounded_realign)

lemma grounded_check:
  assumes "grounded T (op_set p)" "\<And>i l. shows_lineage s i l \<Longrightarrow> T i l" "completion_check s p = (b, p')"
  shows "grounded T (op_set p')"
  using assms grounded_realign [of T p s] by (auto simp: completion_check_def Let_def split: if_splits)

definition confirms :: "(string \<Rightarrow> u64 \<Rightarrow> bool) \<Rightarrow> supervisor_snapshot \<Rightarrow> string \<Rightarrow> bool" where
  "confirms T s i \<longleftrightarrow>
     (case snapshot_child s i of
        None \<Rightarrow> \<exists>l. T i l
      | Some c \<Rightarrow> is_completed c \<or> (\<exists>l. T i l \<and> cs_lineage c < l))"

lemma checked_confirms:
  assumes "completion_check s p = (True, p')" "grounded T (op_set p')" "i \<in> set (cp_awaited (op_set p))"
  shows "confirms T s i"
proof -
  from assms(1) have p': "p' = op_realign s p" and all: "is_complete (op_set p')"
    by (auto simp: completion_check_def Let_def split: if_splits)
  obtain sat seen lin pol where st: "status i (op_set p) = (sat, seen, lin, pol)" by (cases "status i (op_set p)")
  have i: "i \<in> set (cp_awaited (op_set p'))" using assms(3) by (simp add: p')
  have "fst (status i (op_set p'))" using all i by (simp add: is_complete_iff)
  moreover have "case status i (op_set p') of (sat, seen, lin, pol) \<Rightarrow> (seen \<longrightarrow> lin \<noteq> None) \<and> (\<forall>l. lin = Some l \<longrightarrow> T i l)"
    using assms(2) [unfolded grounded_def] by (rule bspec) (rule i)
  moreover have "status i (op_set p') = realign_status s i (sat, seen, lin, pol)"
    using op_realign_status [OF assms(3), of s] st by (simp add: p')
  ultimately show ?thesis by (auto simp: confirms_def split: option.splits if_splits)
qed

lemma wait_confirms:
  assumes "completion_wait ts p = (Some (Inr ()), p')" "grounded T (op_set p)"
    and "\<forall>(s1, e, s2)\<in>set ts. \<forall>i l.
      shows_lineage s1 i l \<or> shows_lineage s2 i l \<or> (\<exists>d. e = Some d \<and> event_of d i l) \<longrightarrow> T i l"
  shows "\<exists>t\<in>set ts. \<forall>i\<in>set (cp_awaited (op_set p)). confirms T (fst t) i"
  using assms
proof (induction ts arbitrary: p)
  case (Cons t ts)
  obtain s1 e s2 where t: "t = (s1, e, s2)" by (cases t)
  obtain b p1 where c: "completion_check s1 p = (b, p1)" by (cases "completion_check s1 p")
  have T: "shows_lineage s1 i l \<or> shows_lineage s2 i l \<or> (\<exists>d. e = Some d \<and> event_of d i l) \<Longrightarrow> T i l" for i l
    using Cons.prems(3) by (auto simp: t)
  have g: "grounded T (op_set p1)" using grounded_check [OF Cons.prems(2) _ c] T by blast
  show ?case
  proof (cases b)
    case True
    then show ?thesis using checked_confirms [of s1 p p1 T] c g by (auto simp: t)
  next
    case False
    with Cons.prems(1) c obtain d where d: "e = Some d" "completion_wait ts (completion_event d s2 p1) = (Some (Inr ()), p')"
      by (auto simp: t split: option.splits)
    from grounded_event [OF g] T d have g2: "grounded T (op_set (completion_event d s2 p1))" by blast
    from Cons.IH [OF d(2) g2] Cons.prems(3)
    have "\<exists>t\<in>set ts. \<forall>i\<in>set (cp_awaited (op_set p1)). confirms T (fst t) i" by simp
    then show ?thesis using completion_check_awaited [OF c] by auto
  qed
qed simp

text \<open>
  C19. A completion wait succeeds only on the scope's own word: when it returns, a snapshot that it read
  shows every awaited child completed under its restart policy with no restart pending, or being
  removed, except for children that it no longer shows, or shows in an older membership than one the wait has been told of.
\<close>

theorem completion_is_confirmed:
  assumes "completion_operation_new ids allow kind s = Inr p" "completion_wait ts p = (Some (Inr ()), p')"
  shows "\<exists>t\<in>set ts. \<forall>i\<in>set ids. confirms (told s ts) (fst t) i"
proof -
  note n = new_operation [OF assms(1)]
  have "grounded (told s ts) (op_set p)"
    using n(1,3) by (auto simp: grounded_def told_def shows_lineage_def split: option.splits)
  from wait_confirms [OF assms(2) this] n(1) show ?thesis by (auto simp: told_def)
qed

section \<open>A child the wait never learns of\<close>

text \<open>
  An awaited child that the wait has not seen, with the sequence number up to which it skips events between
  \<open>b\<close> and \<open>m\<close>.
\<close>

definition overlooked :: "string \<Rightarrow> nat \<Rightarrow> nat \<Rightarrow> completion_operation \<Rightarrow> bool" where
  "overlooked i b m p \<longleftrightarrow>
     i \<in> set (cp_awaited (op_set p)) \<and> \<not> fst (status i (op_set p)) \<and> \<not> fst (snd (status i (op_set p)))
       \<and> b \<le> op_baseline p \<and> op_baseline p \<le> m"

definition event_by :: "string \<Rightarrow> nat \<Rightarrow> lifecycle_event \<Rightarrow> bool" where
  "event_by i b e \<longleftrightarrow> (case le_kind e of LChild x \<Rightarrow> ev_child_id x = i \<longrightarrow> ev_seq x \<le> b | _ \<Rightarrow> True)"

definition hidden_in :: "(nat \<Rightarrow> supervisor_snapshot) \<Rightarrow> string \<Rightarrow> wait_turn \<Rightarrow> bool" where
  "hidden_in H i t \<longleftrightarrow> (case t of (n1, e, n2) \<Rightarrow> snapshot_child (H n1) i = None \<and> snapshot_child (H n2) i = None)"

text \<open>A turn whose event makes the wait realign itself on a snapshot.\<close>

definition realigns :: "nat \<Rightarrow> lifecycle_event \<Rightarrow> bool" where
  "realigns m e \<longleftrightarrow> is_lagged e \<or> (\<exists>x. le_kind e = LChild x \<and> needs_realign (LChild x) \<and> m < ev_seq x)"

lemma overlooked_realign:
  assumes "history H" "snapshot_child (H n) i = None" "overlooked i b m p" "b' \<le> n"
  shows "overlooked i b' n (op_realign (H n) p)"
  using assms op_realign_status [of i p "H n"]
  by (cases "status i (op_set p)") (simp add: overlooked_def history_def)

lemma overlooked_pending: "overlooked i b m p \<Longrightarrow> completion_check s p = (False, p)"
  by (auto simp: overlooked_def completion_check_def is_complete_iff)

lemma overlooked_apply:
  assumes "overlooked i b m p" "event_by i b e" "le_kind e = LChild x" "op_baseline p < ev_seq x" "m \<le> n"
  shows "overlooked i b n (p\<lparr>op_set := apply_event e (op_set p)\<rparr>)"
proof -
  have "ev_child_id x \<noteq> i" using assms by (auto simp: overlooked_def event_by_def)
  with assms apply_other [of e i "op_set p"] show ?thesis by (simp add: overlooked_def)
qed

lemma overlooked_event:
  assumes "history H" "snapshot_child (H n) i = None" "overlooked i b m p" "event_by i b e" "b \<le> n" "m \<le> n"
  shows "overlooked i b n (completion_event e (H n) p)"
proof (cases "is_lagged e")
  case True
  with overlooked_realign [OF assms(1-3,5)] show ?thesis by (simp add: completion_event_def)
next
  case False
  have "(\<exists>x. le_kind e = LChild x \<and> op_baseline p < ev_seq x \<and> scope_path e = []) \<or> completion_event e (H n) p = p"
    using False by (cases "le_kind e") (auto simp: completion_event_def)
  then consider x where "le_kind e = LChild x" "op_baseline p < ev_seq x" "scope_path e = []" | "completion_event e (H n) p = p"
    by blast
  then show ?thesis
  proof cases
    case (1 x)
    from overlooked_apply [OF assms(3,4) 1(1,2) assms(6)] overlooked_realign [OF assms(1,2) _ assms(5)]
    show ?thesis using fresh_event [OF False 1(3) 1(1,2)] by (simp add: Let_def)
  qed (use assms in \<open>auto simp: overlooked_def\<close>)
qed

lemma overlooked_wait:
  assumes "history H"
  shows "turns_ok m q ts \<Longrightarrow> overlooked i b m p \<Longrightarrow> b \<le> m \<Longrightarrow> \<forall>t\<in>set ts. hidden_in H i t \<Longrightarrow>
    \<forall>t\<in>set ts. event_by i b (fst (snd t)) \<Longrightarrow>
    \<exists>p'. completion_wait (map (reads H) ts) p = (None, p') \<and> overlooked i b (last_read m ts) p'"
proof (induction ts arbitrary: m q p)
  case (Cons t ts)
  obtain n1 e n2 where t: "t = (n1, e, n2)" by (cases t)
  have ok: "turns_ok m q [(n1, e, n2)]" "turns_ok n2 (case event_seq (le_kind e) of None \<Rightarrow> q | Some d \<Rightarrow> d) ts"
    using Cons.prems(1) by (simp_all only: t turns_ok_Cons [of m q n1 e n2 ts])
  then have "m \<le> n2" by (auto split: option.splits)
  then have "overlooked i b n2 (completion_event e (H n2) p)"
    using overlooked_event [OF assms _ Cons.prems(2)] Cons.prems(3-5) by (auto simp: t hidden_in_def)
  with Cons.IH [OF ok(2) this] Cons.prems \<open>m \<le> n2\<close> show ?case
    by (auto simp: t reads_tuple overlooked_pending)
qed auto

lemma overlooked_realigned:
  assumes "history H" "snapshot_child (H n) i = None" "overlooked i 0 m p" "event_by i 0 e" "m \<le> n"
    "realigns m e" "scope_path e = []"
  shows "overlooked i n n (completion_event e (H n) p)"
proof (cases "is_lagged e")
  case True
  with overlooked_realign [OF assms(1-3), of n] show ?thesis by (simp add: completion_event_def)
next
  case False
  then obtain x where x: "le_kind e = LChild x" "needs_realign (LChild x)" "m < ev_seq x"
    using assms(6) by (auto simp: realigns_def)
  then have b: "op_baseline p < ev_seq x" using assms(3) by (simp add: overlooked_def)
  from overlooked_realign [OF assms(1,2) overlooked_apply [OF assms(3,4) x(1) b assms(5)], of n] show ?thesis
    using fresh_event [OF False assms(7) x(1) b] x by (simp add: Let_def)
qed

text \<open>
  C38. A wait for future children can miss one for good. Let an awaited child be shown by none of the snapshots the wait
  reads, and let the wait first handle, with no event of that child before it, an overflow or the addition or exit of
  another child that is newer than all it has read. If every event of the child had happened when the
  snapshot for that event was read, then the wait skips all of them as already reflected by that snapshot, stays
  pending whatever they say, also that the child was added, completed and removed, and reports that the scope
  closed when the watch ends.
\<close>

theorem future_child_can_be_missed:
  assumes "completion_operation_new ids True kind (H m) = Inr p" "history H" "i \<in> set ids"
    and "turns_ok m 0 (pre @ (n1, e, n2) # post)"
    and "snapshot_child (H m) i = None" "\<forall>t\<in>set (pre @ (n1, e, n2) # post). hidden_in H i t"
    and "\<forall>t\<in>set (pre @ [(n1, e, n2)]). event_by i 0 (fst (snd t))" "realigns (last_read m pre) e"
    and "\<forall>t\<in>set post. event_by i n2 (fst (snd t))"
  shows "fst (completion_wait (map (reads H) (pre @ (n1, e, n2) # post)) p) = None \<and>
    fst (completion_wait (map (reads H) (pre @ (n1, e, n2) # post) @ [(s1, None, s2)]) p) = Some (Inl ScopeClosed)"
proof -
  note n = new_operation [OF assms(1)]
  have o: "overlooked i 0 m p" using n(1,2) n(3) [OF assms(3)] assms(2,3,5) by (simp add: overlooked_def history_def)
  have split: "turns_ok m q (us @ vs) \<Longrightarrow> turns_ok m q us \<and> (\<exists>q'. turns_ok (last_read m us) q' vs)" for m q us vs
    by (induction m q us rule: turns_ok.induct) (auto split: option.splits)
  from split [OF assms(4)] obtain q where ok: "turns_ok m 0 pre" "turns_ok (last_read m pre) q ((n1, e, n2) # post)" by blast
  have ok2: "turns_ok (last_read m pre) q [(n1, e, n2)]"
    "turns_ok n2 (case event_seq (le_kind e) of None \<Rightarrow> q | Some d \<Rightarrow> d) post"
    using ok(2) by (simp_all only: turns_ok_Cons [of _ q n1 e n2 post])
  then have e: "last_read m pre \<le> n2" "scope_path e = []" by (auto split: option.splits)
  from overlooked_wait [OF assms(2) ok(1) o] assms(6,7) obtain p1
    where p1: "completion_wait (map (reads H) pre) p = (None, p1)" "overlooked i 0 (last_read m pre) p1" by auto
  have "overlooked i n2 n2 (completion_event e (H n2) p1)"
    using overlooked_realigned [OF assms(2) _ p1(2) _ e(1) assms(8) e(2)] assms(6,7) by (simp add: hidden_in_def)
  from overlooked_wait [OF assms(2) ok2(2) this] assms(6,9) obtain p2
    where p2: "completion_wait (map (reads H) post) (completion_event e (H n2) p1) = (None, p2)"
      "overlooked i n2 (last_read n2 post) p2" by auto
  have "completion_wait (map (reads H) (pre @ (n1, e, n2) # post)) p = (None, p2)"
    using p1 p2(1) by (simp add: completion_wait_append reads_tuple overlooked_pending)
  moreover from this have "completion_wait (map (reads H) (pre @ (n1, e, n2) # post) @ [(s1, None, s2)]) p
      = (Some (Inl ScopeClosed), p2)"
    by (simp only: completion_wait_append) (simp add: overlooked_pending [OF p2(2)])
  ultimately show ?thesis by simp
qed

section \<open>Samples\<close>

definition job_view :: "child_state_view \<Rightarrow> child_snapshot" where
  "job_view v = ChildSnapshot ''job'' 0 0 v MVActive 0 never False None None"

definition job_history :: "nat \<Rightarrow> supervisor_snapshot" where
  "job_history n = SupervisorSnapshot SVRunning Dynamic OneForOne 0 n
     [job_view (if n = 0 then CVRunning None else CVStopped True (Some (ECompleted False)))]"

definition child_transition :: "nat \<Rightarrow> string \<Rightarrow> u64 \<Rightarrow> child_event_kind \<Rightarrow> lifecycle_event" where
  "child_transition n i l k = local_event (LChild \<lparr>ev_seq = n, ev_child_id = i, ev_lineage = l,
     ev_total_restarts = 0, ev_child_restart_count = 0, ev_kind = k\<rparr>)"

definition job_turns :: "wait_turn list" where
  "job_turns = [(0, child_transition 1 ''job'' 0 (Exited 0 (ECompleted False)), 1)]"

lemmas job_defs = job_history_def job_view_def job_turns_def child_transition_def local_event_def snapshot_child_def
  is_completed_def clean_exit_def

lemma job_sample:
  "\<exists>p. completion_operation_new [''job''] False Dynamic (job_history 0) = Inr p"
  "history job_history" "turns_ok 0 0 job_turns" "last_read 0 job_turns \<le> 1"
  "finished_from job_history ''job'' 1 0" "\<forall>t\<in>set job_turns. event_within ''job'' 1 0 t"
  "\<exists>t\<in>set job_turns. covers ''job'' 1 0 t"
  by (simp_all add: job_defs completion_operation_new_def initialize_def completion_set_new_def realign_def
      history_def finished_from_def event_within_def covers_def never_def)

theorem completion_wait_returns_witness:
  "\<exists>p. completion_operation_new [''job''] False Dynamic (job_history 0) = Inr p \<and>
    fst (completion_wait (map (reads job_history) job_turns @ [(job_history 1, None, job_history 1)]) p) = Some (Inr ())"
proof -
  obtain p where p: "completion_operation_new [''job''] False Dynamic (job_history 0) = Inr p" using job_sample(1) by blast
  have "\<forall>i\<in>set [''job'']. \<exists>k l. finished_from job_history i k l \<and> (\<forall>t\<in>set job_turns. event_within i k l t) \<and>
      (k \<le> 0 \<or> (\<exists>t\<in>set job_turns. covers i k l t))"
    using job_sample(5-7) by auto
  from completion_wait_returns [OF p job_sample(2-4) this] p show ?thesis by blast
qed

theorem completion_is_confirmed_witness:
  "\<exists>p p'. completion_wait [(job_history 1, None, job_history 1)] p = (Some (Inr ()), p') \<and>
     confirms (told (job_history 1) [(job_history 1, None, job_history 1)]) (job_history 1) ''job''"
proof -
  have "\<exists>p p'. completion_operation_new [''job''] False Dynamic (job_history 1) = Inr p \<and>
      completion_wait [(job_history 1, None, job_history 1)] p = (Some (Inr ()), p')"
    by (simp add: job_defs completion_operation_new_def initialize_def completion_set_new_def realign_def
        realign_one_def mark_def completion_check_def is_complete_def op_realign_def never_def)
  then obtain p p' where p: "completion_operation_new [''job''] False Dynamic (job_history 1) = Inr p"
      "completion_wait [(job_history 1, None, job_history 1)] p = (Some (Inr ()), p')" by blast
  with completion_is_confirmed [OF p] show ?thesis by auto
qed

definition quick_history :: "nat \<Rightarrow> supervisor_snapshot" where
  "quick_history n = SupervisorSnapshot SVRunning Dynamic OneForOne 0 n []"

definition quick_events :: "lifecycle_event list" where
  "quick_events =
     [child_transition 1 ''first'' 0 Added, child_transition 2 ''second'' 1 Added,
      child_transition 3 ''first'' 0 (Started 0), child_transition 4 ''second'' 1 (Started 0),
      child_transition 5 ''first'' 0 (Exited 0 (ECompleted False)), child_transition 6 ''first'' 0 Removed,
      child_transition 7 ''second'' 1 (Exited 0 (ECompleted False)), child_transition 8 ''second'' 1 Removed]"

definition quick_turns :: "wait_turn list" where
  "quick_turns = map (\<lambda>e. (8, e, 8)) quick_events"

lemma quick_turns_split:
  "quick_turns = [] @ (8, child_transition 1 ''first'' 0 Added, 8) # tl quick_turns"
  by (simp add: quick_turns_def quick_events_def)

text \<open>
  Two children that are added, complete and are removed while the wait has handled only the addition of the first.
\<close>

theorem future_child_can_be_missed_witness:
  "\<exists>p. completion_operation_new [''first'', ''second''] True Dynamic (quick_history 0) = Inr p \<and>
     fst (completion_wait (map (reads quick_history) quick_turns) p) = None \<and>
     fst (completion_wait (map (reads quick_history) quick_turns @ [(quick_history 8, None, quick_history 8)]) p)
       = Some (Inl ScopeClosed)"
proof -
  obtain p where p: "completion_operation_new [''first'', ''second''] True Dynamic (quick_history 0) = Inr p"
    by (simp add: completion_operation_new_def initialize_def realign_def)
  have "history quick_history" "turns_ok 0 0 quick_turns"
    by (simp_all add: history_def quick_history_def quick_turns_def quick_events_def child_transition_def local_event_def)
  moreover have "snapshot_child (quick_history n) ''second'' = None" for n
    by (simp add: quick_history_def snapshot_child_def)
  moreover have "realigns (last_read 0 []) (child_transition 1 ''first'' 0 Added)"
    "event_by ''second'' 0 (child_transition 1 ''first'' 0 Added)"
    "\<forall>t\<in>set (tl quick_turns). event_by ''second'' 8 (fst (snd t))"
    by (simp_all add: realigns_def event_by_def child_transition_def local_event_def quick_turns_def quick_events_def)
  ultimately show ?thesis
    using p future_child_can_be_missed [where i = "''second''" and pre = "[]" and post = "tl quick_turns" and H = quick_history
        and m = 0 and ?n1.0 = 8 and ?n2.0 = 8 and e = "child_transition 1 ''first'' 0 Added", OF p]
    by (fastforce simp: hidden_in_def quick_turns_split [symmetric, simplified])
qed

end
