(* ===== verification/Forwarding.thy ===== *)
theory Forwarding
  imports Lifecycle
begin

text \<open>
  The pumps that forward a scope's observation streams into an actor (\<open>runtime.rs\<close>:
  \<open>spawn_lifecycle_watch_to\<close>, \<open>spawn_child_observation_to\<close>) and the guard that owns such a task
  (\<open>supervisor/guard.rs\<close>).  A pump is a machine over what its selects resolve to: cancellation, the end
  of the target, a fresh incarnation of the target, the next update, and the mailbox that accepted a
  message.
\<close>

section \<open>Guards\<close>

record guard =
  gd_cancelled :: bool
  gd_finished :: bool
  gd_action :: "bool option"
  gd_cancel_on_drop :: bool
  gd_invocations :: nat

definition guard_from_tokens :: guard where
  "guard_from_tokens =
     \<lparr>gd_cancelled = False, gd_finished = False, gd_action = None, gd_cancel_on_drop = True, gd_invocations = 0\<rparr>"

definition guard_from_tokens_with_cancel :: guard where
  "guard_from_tokens_with_cancel = guard_from_tokens\<lparr>gd_action := Some False\<rparr>"

definition action_invoke :: "guard \<Rightarrow> guard" where
  "action_invoke g =
     (case gd_action g of
        Some False \<Rightarrow> g\<lparr>gd_action := Some True, gd_invocations := Suc (gd_invocations g)\<rparr>
      | _ \<Rightarrow> g)"

definition guard_cancel :: "guard \<Rightarrow> guard" where
  "guard_cancel g = action_invoke (g\<lparr>gd_cancelled := True\<rparr>)"

definition guard_detach :: "guard \<Rightarrow> guard" where
  "guard_detach g = g\<lparr>gd_cancel_on_drop := False\<rparr>"

definition guard_drop :: "guard \<Rightarrow> guard" where
  "guard_drop g = (if gd_cancel_on_drop g then guard_cancel g else g)"

section \<open>Forwarding a lifecycle stream\<close>

datatype pump_input =
    PumpCancelled
  | PumpTerminated
  | PumpIncarnation "nat option"
  | PumpNext
  | PumpEnded
  | PumpSent "nat option"
  | PumpStaged "lifecycle_event list" supervisor_snapshot

datatype watch_phase = WatchIdle | WatchSending lifecycle_event | WatchDone

record watch_pump =
  wp_staged :: "lifecycle_event list"
  wp_phase :: watch_phase
  wp_delivered :: "(nat \<times> lifecycle_event) list"

definition watch_pump_new :: watch_pump where
  "watch_pump_new = \<lparr>wp_staged = [], wp_phase = WatchIdle, wp_delivered = []\<rparr>"

fun is_child_transition :: "lifecycle_event_kind \<Rightarrow> bool" where
  "is_child_transition (LChild x) = True"
| "is_child_transition _ = False"

definition forwarded_event :: "lifecycle_event \<Rightarrow> bool" where
  "forwarded_event e \<longleftrightarrow> is_child_transition (le_kind e) \<or> is_lagged e"

fun watch_pump_step :: "pump_input \<Rightarrow> watch_pump \<Rightarrow> watch_pump" where
  "watch_pump_step (PumpStaged es s) p = p\<lparr>wp_staged := wp_staged p @ es\<rparr>"
| "watch_pump_step i p =
     (case wp_phase p of
        WatchDone \<Rightarrow> p
      | WatchIdle \<Rightarrow>
          (case i of
             PumpCancelled \<Rightarrow> p\<lparr>wp_phase := WatchDone\<rparr>
           | PumpTerminated \<Rightarrow> p\<lparr>wp_phase := WatchDone\<rparr>
           | PumpEnded \<Rightarrow> if wp_staged p = [] then p\<lparr>wp_phase := WatchDone\<rparr> else p
           | PumpNext \<Rightarrow>
               (case wp_staged p of
                  [] \<Rightarrow> p
                | e # es \<Rightarrow> p\<lparr>wp_staged := es, wp_phase := if forwarded_event e then WatchSending e else WatchIdle\<rparr>)
           | _ \<Rightarrow> p)
      | WatchSending e \<Rightarrow>
          (case i of
             PumpCancelled \<Rightarrow> p\<lparr>wp_phase := WatchDone\<rparr>
           | PumpTerminated \<Rightarrow> p\<lparr>wp_phase := WatchDone\<rparr>
           | PumpSent None \<Rightarrow> p\<lparr>wp_phase := WatchDone\<rparr>
           | PumpSent (Some m) \<Rightarrow> p\<lparr>wp_phase := WatchIdle, wp_delivered := wp_delivered p @ [(m, e)]\<rparr>
           | _ \<Rightarrow> p))"

section \<open>Forwarding a child observation\<close>

datatype send_purpose = SendReset | SendUpdate | SendFollowUp

datatype pump_phase = PumpIdle | PumpSending child_observation_update send_purpose | PumpDone

record observation_pump =
  pu_watch :: child_observation_watch
  pu_incarnation :: "nat option"
  pu_phase :: pump_phase
  pu_delivered :: "(nat \<times> child_observation_update) list"

definition observation_pump_new :: "child_observation_watch \<Rightarrow> observation_pump" where
  "observation_pump_new w = \<lparr>pu_watch = w, pu_incarnation = None, pu_phase = PumpIdle, pu_delivered = []\<rparr>"

fun is_reset :: "child_observation_update \<Rightarrow> bool" where
  "is_reset (Reset s d) = True"
| "is_reset (Transition c) = False"

definition current_reset :: "child_observation_watch \<Rightarrow> child_observation_update \<times> child_observation_watch" where
  "current_reset w = recovery_reset 0 w"

definition send_current_reset :: "send_purpose \<Rightarrow> observation_pump \<Rightarrow> observation_pump" where
  "send_current_reset k p =
     (let (r, w) = current_reset (pu_watch p) in p\<lparr>pu_watch := w, pu_phase := PumpSending r k\<rparr>)"

definition observed_incarnation :: "nat \<Rightarrow> observation_pump \<Rightarrow> observation_pump" where
  "observed_incarnation m p =
     (let p1 = p\<lparr>pu_incarnation := Some m\<rparr>
      in if pu_incarnation p = None then p1 else send_current_reset SendReset p1)"

definition accepted :: "nat \<Rightarrow> child_observation_update \<Rightarrow> send_purpose \<Rightarrow> observation_pump \<Rightarrow> observation_pump" where
  "accepted m u k p =
     (let target_restarted = (case pu_incarnation p of None \<Rightarrow> False | Some previous \<Rightarrow> previous \<noteq> m);
          p1 = p\<lparr>pu_incarnation := Some m, pu_phase := PumpIdle, pu_delivered := pu_delivered p @ [(m, u)]\<rparr>
      in if k = SendUpdate \<and> target_restarted \<and> \<not> is_reset u then send_current_reset SendFollowUp p1 else p1)"

fun observation_pump_step :: "pump_input \<Rightarrow> observation_pump \<Rightarrow> observation_pump" where
  "observation_pump_step (PumpStaged es s) p =
     p\<lparr>pu_watch := (pu_watch p)\<lparr>ow_events := ow_events (pu_watch p) @ es, ow_snapshot := s\<rparr>\<rparr>"
| "observation_pump_step i p =
     (case pu_phase p of
        PumpDone \<Rightarrow> p
      | PumpIdle \<Rightarrow>
          (case i of
             PumpCancelled \<Rightarrow> p\<lparr>pu_phase := PumpDone\<rparr>
           | PumpIncarnation None \<Rightarrow> p\<lparr>pu_phase := PumpDone\<rparr>
           | PumpIncarnation (Some m) \<Rightarrow> if pu_incarnation p = Some m then p else observed_incarnation m p
           | PumpNext \<Rightarrow>
               (case observation_next (pu_watch p) of
                  (None, w) \<Rightarrow> p\<lparr>pu_watch := w\<rparr>
                | (Some u, w) \<Rightarrow> p\<lparr>pu_watch := w, pu_phase := PumpSending u SendUpdate\<rparr>)
           | PumpEnded \<Rightarrow> if ow_events (pu_watch p) = [] then p\<lparr>pu_phase := PumpDone\<rparr> else p
           | _ \<Rightarrow> p)
      | PumpSending u k \<Rightarrow>
          (case i of
             PumpCancelled \<Rightarrow> p\<lparr>pu_phase := PumpDone\<rparr>
           | PumpTerminated \<Rightarrow> p\<lparr>pu_phase := PumpDone\<rparr>
           | PumpSent None \<Rightarrow> p\<lparr>pu_phase := PumpDone\<rparr>
           | PumpSent (Some m) \<Rightarrow> accepted m u k p
           | _ \<Rightarrow> p))"

section \<open>Guards cancel once\<close>

text \<open>The life of a guard: cancellations through it, and at the end either a detachment or a drop.\<close>

definition guard_life :: "nat \<Rightarrow> bool \<Rightarrow> guard \<Rightarrow> guard" where
  "guard_life n detached g = guard_drop ((if detached then guard_detach else id) ((guard_cancel ^^ n) g))"

lemma guard_cancel_twice [simp]: "guard_cancel (guard_cancel g) = guard_cancel g"
  by (auto simp: guard_cancel_def action_invoke_def split: option.splits bool.splits)

lemma guard_cancels: "(guard_cancel ^^ Suc n) g = guard_cancel g"
  by (induction n) simp_all

text \<open>
  The cancel action of a guard runs exactly once if the operation is cancelled, by a call or by dropping the guard, and never
  when the guard was only detached.
\<close>

theorem guard_action_once:
  "gd_cancelled (guard_life n detached guard_from_tokens_with_cancel) \<longleftrightarrow> 0 < n \<or> \<not> detached"
  "gd_invocations (guard_life n detached guard_from_tokens_with_cancel) = (if 0 < n \<or> \<not> detached then 1 else 0)"
  by (cases n; simp add: guard_cancels guard_life_def guard_detach_def guard_drop_def guard_cancel_def action_invoke_def
      guard_from_tokens_with_cancel_def guard_from_tokens_def del: funpow.simps(2))+

section \<open>A lifecycle stream arrives in order\<close>

definition staged_by :: "pump_input list \<Rightarrow> lifecycle_event list" where
  "staged_by is = concat (map (\<lambda>i. case i of PumpStaged es s \<Rightarrow> es | _ \<Rightarrow> []) is)"

definition in_flight :: "watch_pump \<Rightarrow> lifecycle_event list" where
  "in_flight p = (case wp_phase p of WatchSending e \<Rightarrow> [e] | _ \<Rightarrow> [])"

definition watch_pump_inv :: "lifecycle_event list \<Rightarrow> watch_pump \<Rightarrow> bool" where
  "watch_pump_inv es p \<longleftrightarrow>
     list_all forwarded_event (in_flight p) \<and>
     (if wp_phase p = WatchDone
      then \<exists>xs. map snd (wp_delivered p) @ xs = filter forwarded_event es
      else map snd (wp_delivered p) @ in_flight p @ filter forwarded_event (wp_staged p) = filter forwarded_event es)"

lemma watch_pump_inv_done:
  "watch_pump_inv es p \<Longrightarrow> watch_pump_inv es (p\<lparr>wp_phase := WatchDone\<rparr>)"
  by (auto simp: watch_pump_inv_def in_flight_def split: if_splits)

lemma watch_pump_inv_step:
  assumes "watch_pump_inv es p"
  shows "watch_pump_inv (es @ staged_by [i]) (watch_pump_step i p)"
proof (cases "\<exists>xs s. i = PumpStaged xs s")
  case True
  then show ?thesis using assms by (auto simp: staged_by_def watch_pump_inv_def in_flight_def) (metis append.assoc)
next
  case False
  then have s: "staged_by [i] = []" by (cases i) (auto simp: staged_by_def)
  have d: "watch_pump_inv es (p\<lparr>wp_phase := WatchDone\<rparr>)" using watch_pump_inv_done [OF assms] .
  have "watch_pump_inv es (watch_pump_step i p)"
  proof (cases "wp_phase p")
    case WatchIdle
    then show ?thesis using assms d False
      by (cases i) (auto simp: watch_pump_inv_def in_flight_def split: list.splits if_splits)
  next
    case (WatchSending e)
    then show ?thesis using assms d False
      by (cases i) (auto simp: watch_pump_inv_def in_flight_def split: option.splits)
  next
    case WatchDone
    then show ?thesis using assms False by (cases i) auto
  qed
  then show ?thesis by (simp add: s)
qed

text \<open>
  The lifecycle pump forwards in order and loses nothing: whatever the order of its inputs, the
  messages the target accepted are a prefix of the stream's child transitions and overflow markers, and while
  the pump has not ended only the one being sent and those still staged are missing.
\<close>

theorem lifecycle_pump_in_order:
  "watch_pump_inv (staged_by is) (fold watch_pump_step is watch_pump_new)"
proof -
  have "watch_pump_inv (es @ staged_by is) (fold watch_pump_step is p)" if "watch_pump_inv es p" for es p
    using that
  proof (induction "is" arbitrary: es p)
    case (Cons i "is")
    from Cons.IH [OF watch_pump_inv_step [OF Cons.prems, of i]] show ?case by (simp add: staged_by_def)
  qed (simp add: staged_by_def)
  moreover have "watch_pump_inv [] watch_pump_new"
    by (simp add: watch_pump_inv_def watch_pump_new_def in_flight_def)
  ultimately show ?thesis by fastforce
qed

section \<open>A restarted target is reset\<close>

text \<open>
  A delivery to another mailbox than the one before is a reset or is followed by one; \<open>b\<close> tells whether a reset that is
  still due at the end counts as missing.
\<close>

fun resets_after_switch :: "bool \<Rightarrow> (nat \<times> child_observation_update) list \<Rightarrow> bool" where
  "resets_after_switch b (d1 # d2 # ds) \<longleftrightarrow>
     (fst d1 = fst d2 \<or> is_reset (snd d2) \<or> (case ds of [] \<Rightarrow> \<not> b | d3 # _ \<Rightarrow> is_reset (snd d3))) \<and>
     resets_after_switch b (d2 # ds)"
| "resets_after_switch b _ \<longleftrightarrow> True"

lemma switch_weaken: "resets_after_switch True ds \<Longrightarrow> resets_after_switch b ds"
proof (induction ds rule: induct_list012)
  case (3 d1 d2 ds)
  then show ?case by (cases ds) auto
qed simp_all

lemma switch_append_due: "resets_after_switch True ds \<Longrightarrow> resets_after_switch False (ds @ [d])"
proof (induction ds rule: induct_list012)
  case (3 d1 d2 ds)
  then show ?case by (cases ds) auto
qed simp_all

lemma switch_due: "resets_after_switch b ds \<Longrightarrow> resets_after_switch False ds"
  using switch_weaken [of ds False] by (cases b) auto

lemma switch_append_reset:
  assumes "is_reset (snd d)"
  shows "resets_after_switch b ds \<Longrightarrow> resets_after_switch True (ds @ [d])"
proof (induction ds rule: induct_list012)
  case (3 d1 d2 ds)
  then show ?case using assms by (cases ds) auto
qed (simp_all add: assms)

lemma switch_append_same:
  "resets_after_switch True ds \<Longrightarrow> ds \<noteq> [] \<longrightarrow> fst (last ds) = fst d \<Longrightarrow> resets_after_switch True (ds @ [d])"
proof (induction ds rule: induct_list012)
  case (3 d1 d2 ds)
  then show ?case by (cases ds) auto
qed simp_all

text \<open>A transition that is delivered after a reset is not contained in it.\<close>

fun after_reset :: "nat \<times> child_observation_update \<Rightarrow> nat \<times> child_observation_update \<Rightarrow> bool" where
  "after_reset (m, Reset s d) (n, Transition c) \<longleftrightarrow> ss_lifecycle_seq s < ev_seq c"
| "after_reset _ _ \<longleftrightarrow> True"

fun reset_within :: "u64 \<Rightarrow> child_observation_update \<Rightarrow> bool" where
  "reset_within q (Reset s d) \<longleftrightarrow> ss_lifecycle_seq s \<le> q"
| "reset_within q (Transition c) \<longleftrightarrow> True"

fun fresh_within :: "u64 \<Rightarrow> child_observation_update \<Rightarrow> bool" where
  "fresh_within q (Reset s d) \<longleftrightarrow> ss_lifecycle_seq s \<le> q"
| "fresh_within q (Transition c) \<longleftrightarrow> q < ev_seq c"

lemma observation_next_fresh:
  assumes "observation_next w = (x, w')"
  shows "ow_minimum_sequence w \<le> ow_minimum_sequence w'"
    "x = Some u \<Longrightarrow> fresh_within (ow_minimum_sequence w') u"
proof -
  have "ow_minimum_sequence w \<le> ow_minimum_sequence w' \<and> (\<forall>u. x = Some u \<longrightarrow> fresh_within (ow_minimum_sequence w') u)"
    if "observation_next_loop es w = (x, w')" for es
    using that
    by (induction es w rule: observation_next_loop.induct)
      (auto simp: recovery_reset_def split: lifecycle_event_kind.splits if_splits)
  with assms show "ow_minimum_sequence w \<le> ow_minimum_sequence w'" "x = Some u \<Longrightarrow> fresh_within (ow_minimum_sequence w') u"
    by (auto simp: observation_next_def)
qed

definition log_ok :: "u64 \<Rightarrow> (nat \<times> child_observation_update) list \<Rightarrow> bool" where
  "log_ok q ds \<longleftrightarrow> sorted_wrt after_reset ds \<and> list_all (\<lambda>d. reset_within q (snd d)) ds"

lemma log_ok_mono: "log_ok q ds \<Longrightarrow> q \<le> q' \<Longrightarrow> log_ok q' ds"
proof -
  have "reset_within q u \<Longrightarrow> q \<le> q' \<Longrightarrow> reset_within q' u" for u by (cases u) auto
  then show "log_ok q ds \<Longrightarrow> q \<le> q' \<Longrightarrow> log_ok q' ds" by (auto simp: log_ok_def list_all_iff)
qed

lemma log_ok_append:
  assumes "log_ok q ds" "fresh_within q u"
  shows "log_ok q (ds @ [(m, u)])"
proof -
  have "after_reset d (m, u)" if "d \<in> set ds" for d
    using assms that by (cases d; cases "snd d"; cases u) (auto simp: log_ok_def list_all_iff)
  moreover have "reset_within q u" using assms(2) by (cases u) auto
  ultimately show ?thesis using assms(1) by (simp add: log_ok_def sorted_wrt_append)
qed

definition pump_inv :: "observation_pump \<Rightarrow> bool" where
  "pump_inv p \<longleftrightarrow>
     log_ok (ow_minimum_sequence (pu_watch p)) (pu_delivered p) \<and>
     (case pu_phase p of
        PumpDone \<Rightarrow> resets_after_switch False (pu_delivered p)
      | PumpIdle \<Rightarrow> resets_after_switch True (pu_delivered p) \<and>
          (pu_delivered p \<noteq> [] \<longrightarrow> pu_incarnation p = Some (fst (last (pu_delivered p))))
      | PumpSending u k \<Rightarrow>
          fresh_within (ow_minimum_sequence (pu_watch p)) u \<and>
          resets_after_switch (k \<noteq> SendFollowUp) (pu_delivered p) \<and> (k \<noteq> SendUpdate \<longrightarrow> is_reset u) \<and>
          (k = SendUpdate \<longrightarrow> pu_delivered p \<noteq> [] \<longrightarrow> pu_incarnation p = Some (fst (last (pu_delivered p)))))"

lemma pump_inv_done: "pump_inv p \<Longrightarrow> pump_inv (p\<lparr>pu_phase := PumpDone\<rparr>)"
  by (auto simp: pump_inv_def intro: switch_due split: pump_phase.splits)

lemma pump_inv_next:
  assumes "pump_inv p" "pu_phase p = PumpIdle" "observation_next (pu_watch p) = (x, w)"
  shows "x = None \<Longrightarrow> pump_inv (p\<lparr>pu_watch := w\<rparr>)"
    "x = Some u \<Longrightarrow> pump_inv (p\<lparr>pu_watch := w, pu_phase := PumpSending u SendUpdate\<rparr>)"
  using assms observation_next_fresh [OF assms(3)] by (auto simp: pump_inv_def intro: log_ok_mono)

lemma pump_inv_send_reset:
  assumes "log_ok (ow_minimum_sequence (pu_watch p)) (pu_delivered p)" "resets_after_switch (k \<noteq> SendFollowUp) (pu_delivered p)"
    and "k \<noteq> SendUpdate"
  shows "pump_inv (send_current_reset k p)"
  using assms by (auto simp: pump_inv_def send_current_reset_def current_reset_def recovery_reset_def intro: log_ok_mono)

lemma pump_inv_accepted:
  assumes "pump_inv p" "pu_phase p = PumpSending u k"
  shows "pump_inv (accepted m u k p)"
proof -
  let ?p1 = "p\<lparr>pu_incarnation := Some m, pu_phase := PumpIdle, pu_delivered := pu_delivered p @ [(m, u)]\<rparr>"
  have log: "log_ok (ow_minimum_sequence (pu_watch p)) (pu_delivered p @ [(m, u)])"
    using assms by (intro log_ok_append) (auto simp: pump_inv_def)
  show ?thesis
  proof (cases "k = SendUpdate \<and> (case pu_incarnation p of None \<Rightarrow> False | Some previous \<Rightarrow> previous \<noteq> m) \<and> \<not> is_reset u")
    case True
    then have "resets_after_switch False (pu_delivered ?p1)" using assms by (auto simp: pump_inv_def intro: switch_append_due)
    with pump_inv_send_reset [of ?p1 SendFollowUp] log True show ?thesis by (simp add: accepted_def)
  next
    case False
    have "resets_after_switch True (pu_delivered p @ [(m, u)])"
    proof (cases "is_reset u")
      case True
      then show ?thesis using assms by (auto simp: pump_inv_def intro: switch_append_reset)
    next
      case plain: False
      then have "k = SendUpdate" using assms by (auto simp: pump_inv_def)
      then show ?thesis using assms False plain
        by (intro switch_append_same) (auto simp: pump_inv_def split: option.splits)
    qed
    with log False show ?thesis by (auto simp: accepted_def pump_inv_def)
  qed
qed

lemma pump_inv_incarnation:
  assumes "pump_inv p" "pu_phase p = PumpIdle"
  shows "pump_inv (observed_incarnation m p)"
  using assms pump_inv_send_reset [of "p\<lparr>pu_incarnation := Some m\<rparr>" SendReset]
  by (auto simp: observed_incarnation_def pump_inv_def Let_def)

lemma pump_inv_staged: "pump_inv p \<Longrightarrow> pump_inv (observation_pump_step (PumpStaged es s) p)"
  by (simp add: pump_inv_def split: pump_phase.splits)

lemma pump_inv_step:
  assumes "pump_inv p"
  shows "pump_inv (observation_pump_step i p)"
proof (cases "pu_phase p")
  case PumpIdle
  then show ?thesis
    using assms pump_inv_done [OF assms] pump_inv_incarnation [OF assms] pump_inv_next [OF assms] pump_inv_staged [OF assms]
    by (cases i) (auto split: option.splits prod.splits)
next
  case (PumpSending u k)
  then show ?thesis
    using assms pump_inv_done [OF assms] pump_inv_accepted [OF assms] pump_inv_staged [OF assms]
    by (cases i) (auto split: option.splits)
next
  case PumpDone
  then show ?thesis using assms pump_inv_staged [OF assms] by (cases i) auto
qed

text \<open>
  C20. A restarted target is brought up to date: whatever the order in which updates, restarts of the target and
  sends resolve, a message accepted by another incarnation of the target than the message before is
  a complete reset or is followed by one (also at the end, unless the pump has ended or that reset
  is being sent), and a transition is never delivered after a reset that already contains it.
\<close>

theorem restarted_target_is_reset:
  "let p = fold observation_pump_step is (observation_pump_new w)
   in resets_after_switch (pu_phase p = PumpIdle) (pu_delivered p) \<and> sorted_wrt after_reset (pu_delivered p)"
proof -
  have "pump_inv (fold observation_pump_step is p)" if "pump_inv p" for p
    using that by (induction "is" arbitrary: p) (auto intro: pump_inv_step)
  moreover have "pump_inv (observation_pump_new w)" by (simp add: pump_inv_def observation_pump_new_def log_ok_def)
  ultimately have "pump_inv (fold observation_pump_step is (observation_pump_new w))" by blast
  then show ?thesis
    by (auto simp: pump_inv_def log_ok_def Let_def intro: switch_due split: pump_phase.splits)
qed

end
