(* ===== verification/Actor_Tasks.thy ===== *)
theory Actor_Tasks
  imports Monitor Timers "HOL-Library.Sublist"
begin

text \<open>
  The helper tasks an actor starts through its context (\<open>actor/context.rs\<close>): the task behind a watch
  (\<open>watch_scoped\<close>), a delayed send (\<open>send_after_to\<close>) and a periodic send (\<open>interval_to\<close>), each as a machine
  over what its selects resolve to.
\<close>

section \<open>The task of a watch\<close>

datatype task_phase = TaskIdle | TaskSending monitor_event | TaskEnded

record watch_task =
  wk_queue :: watch_queue
  wk_phase :: task_phase
  wk_handled :: "monitor_event list"
  wk_sent :: "monitor_event list"

definition watch_task_new :: "string \<Rightarrow> watch_task" where
  "watch_task_new i = \<lparr>wk_queue = watch_queue_new i, wk_phase = TaskIdle, wk_handled = [], wk_sent = []\<rparr>"

text \<open>
  The hub stages an event; the watch is cancelled or its membership stopped; the loop looks at the queue;
  a send resolves, and whether the message was accepted.
\<close>

datatype watch_input = WatchStage monitor_event | WatchStop | WatchLook | WatchSent bool

fun is_terminal_event :: "monitor_event_kind \<Rightarrow> bool" where
  "is_terminal_event (Removed g) = True"
| "is_terminal_event _ = False"

definition watch_task_end :: "watch_task \<Rightarrow> watch_task" where
  "watch_task_end t = t\<lparr>wk_phase := TaskEnded, wk_queue := watch_close (wk_queue t)\<rparr>"

definition watch_task_sent :: "bool \<Rightarrow> monitor_event \<Rightarrow> watch_task \<Rightarrow> watch_task" where
  "watch_task_sent ok e t =
     (let t1 = t\<lparr>wk_phase := TaskIdle, wk_handled := wk_handled t @ [e],
                 wk_sent := wk_sent t @ (if ok then [e] else [])\<rparr>
      in if is_terminal_event (mv_kind e) then watch_task_end t1 else t1)"

fun watch_task_step :: "watch_input \<Rightarrow> watch_task \<Rightarrow> watch_task" where
  "watch_task_step (WatchStage e) t = t\<lparr>wk_queue := watch_push e (wk_queue t)\<rparr>"
| "watch_task_step WatchStop t = (if wk_phase t = TaskEnded then t else watch_task_end t)"
| "watch_task_step WatchLook t =
     (case wk_phase t of
        TaskIdle \<Rightarrow>
          (case watch_pop (wk_queue t) of
             (None, q) \<Rightarrow> t\<lparr>wk_queue := q\<rparr>
           | (Some e, q) \<Rightarrow> t\<lparr>wk_queue := q, wk_phase := TaskSending e\<rparr>)
      | _ \<Rightarrow> t)"
| "watch_task_step (WatchSent ok) t =
     (case wk_phase t of TaskSending e \<Rightarrow> watch_task_sent ok e t | _ \<Rightarrow> t)"

section \<open>Delayed and periodic sends\<close>

datatype delayed_send = DelaySleeping instant | DelaySending | DelayEnded

datatype delay_input = DelayStop | DelayTime instant | DelaySent bool

text \<open>The second component counts the messages the target accepted.\<close>

fun delayed_step :: "delay_input \<Rightarrow> delayed_send \<times> nat \<Rightarrow> delayed_send \<times> nat" where
  "delayed_step DelayStop (d, n) = (DelayEnded, n)"
| "delayed_step (DelayTime now) (DelaySleeping at, n) = (if at \<le> now then DelaySending else DelaySleeping at, n)"
| "delayed_step (DelaySent ok) (DelaySending, n) = (DelayEnded, if ok then Suc n else n)"
| "delayed_step i s = s"

datatype interval_phase = IntervalWaiting | IntervalSending | IntervalEnded

datatype interval_input = IntervalStop | IntervalTick | IntervalSent bool

definition interval_new :: "duration \<Rightarrow> interval_phase \<times> nat" where
  "interval_new period = (if period = 0 then IntervalEnded else IntervalWaiting, 0)"

fun interval_step :: "interval_input \<Rightarrow> interval_phase \<times> nat \<Rightarrow> interval_phase \<times> nat" where
  "interval_step IntervalStop (p, n) = (IntervalEnded, n)"
| "interval_step IntervalTick (IntervalWaiting, n) = (IntervalSending, n)"
| "interval_step (IntervalSent ok) (IntervalSending, n) =
     (if ok then (IntervalWaiting, Suc n) else (IntervalEnded, n))"
| "interval_step i s = s"

section \<open>Timers of helper tasks stop\<close>

lemma delayed_ended: "fold delayed_step is (DelayEnded, n) = (DelayEnded, n)"
proof (induction "is")
  case (Cons i "is")
  then show ?case by (cases i) simp_all
qed simp

lemma delayed_sending: "snd (fold delayed_step is (DelaySending, n)) \<le> Suc n"
proof (induction "is")
  case (Cons i "is")
  then show ?case by (cases i) (simp_all add: delayed_ended)
qed simp

text \<open>A delayed message is accepted at most once, and not before its time.\<close>

theorem delayed_send_once:
  "snd (fold delayed_step is (DelaySleeping at, 0)) \<le> 1"
  "\<forall>now. DelayTime now \<in> set is \<longrightarrow> now < at \<Longrightarrow> snd (fold delayed_step is (DelaySleeping at, 0)) = 0"
proof -
  show "snd (fold delayed_step is (DelaySleeping at, 0)) \<le> 1"
  proof (induction "is")
    case (Cons i "is")
    then show ?case using delayed_sending [of "is" 0] by (cases i) (simp_all add: delayed_ended)
  qed simp
  show "snd (fold delayed_step is (DelaySleeping at, 0)) = 0" if "\<forall>now. DelayTime now \<in> set is \<longrightarrow> now < at"
    using that
  proof (induction "is")
    case (Cons i "is")
    then have rest: "snd (fold delayed_step is (DelaySleeping at, 0)) = 0" by simp
    show ?case
    proof (cases i)
      case (DelayTime now)
      then have "now < at" using Cons.prems by simp
      then show ?thesis using DelayTime rest by simp
    qed (use rest in \<open>simp_all add: delayed_ended\<close>)
  qed simp
qed

lemma interval_ended: "fold interval_step is (IntervalEnded, n) = (IntervalEnded, n)"
proof (induction "is")
  case (Cons i "is")
  then show ?case by (cases i) simp_all
qed simp

text \<open>A periodic send sends no more often than its interval ticks, never again once it is stopped, and not at all with a zero period.\<close>

theorem interval_sends_bounded:
  "snd (fold interval_step is (interval_new period)) \<le> (if period = 0 then 0 else count_list is IntervalTick)"
proof -
  have "snd (fold interval_step is (IntervalWaiting, n)) \<le> n + count_list is IntervalTick \<and>
      snd (fold interval_step is (IntervalSending, n)) \<le> Suc n + count_list is IntervalTick" for n
  proof (induction "is" arbitrary: n)
    case (Cons i "is")
    from Cons.IH [of n] Cons.IH [of "Suc n"] show ?case by (cases i) (auto simp: interval_ended)
  qed simp
  from this [of 0] show ?thesis by (simp add: interval_new_def interval_ended)
qed

section \<open>A watch task hands over its queue in order\<close>

abbreviation proper :: "monitor_event list \<Rightarrow> monitor_event list" where
  "proper \<equiv> filter (\<lambda>e. \<not> watch_lagged e)"

lemma subseq_record_drop: "subseq (proper (watch_record_drop a q)) (proper q)"
proof (cases q)
  case (Cons m ms)
  then show ?thesis by (cases ms) auto
qed simp

lemma subseq_make_room: "subseq (proper (watch_make_room a q)) (proper q)"
proof (induction a q rule: watch_make_room.induct)
  case (1 a q)
  then show ?case using subseq_record_drop [of a q]
    by (auto simp: watch_make_room.simps [of a q] intro: subseq_order.trans)
qed

definition staged_events :: "watch_input list \<Rightarrow> monitor_event list" where
  "staged_events is = concat (map (\<lambda>i. case i of WatchStage e \<Rightarrow> [e] | _ \<Rightarrow> []) is)"

definition sending :: "watch_task \<Rightarrow> monitor_event list" where
  "sending t = (case wk_phase t of TaskSending e \<Rightarrow> [e] | _ \<Rightarrow> [])"

definition watch_task_inv :: "monitor_event list \<Rightarrow> watch_task \<Rightarrow> bool" where
  "watch_task_inv es t \<longleftrightarrow>
     subseq (proper (wk_handled t @ sending t @ wq_events (wk_queue t))) (proper es) \<and>
     subseq (wk_sent t) (wk_handled t) \<and>
     (\<forall>e \<in> set (butlast (wk_handled t)). \<not> is_terminal_event (mv_kind e)) \<and>
     (wk_handled t \<noteq> [] \<and> is_terminal_event (mv_kind (last (wk_handled t))) \<longrightarrow> wk_phase t = TaskEnded)"

lemma watch_task_inv_stage:
  assumes "watch_task_inv es t"
  shows "watch_task_inv (es @ [e]) (watch_task_step (WatchStage e) t)"
proof -
  let ?q = "wq_events (wk_queue t)" and ?r = "watch_make_room (wq_actor_id (wk_queue t)) (wq_events (wk_queue t))"
  have "subseq (proper (wk_handled t @ sending t @ ?r)) (proper (wk_handled t @ sending t @ ?q))"
    using subseq_make_room by (simp add: list_emb_append_mono)
  also have "subseq \<dots> (proper es)" using assms by (simp add: watch_task_inv_def)
  finally have "subseq (proper ((wk_handled t @ sending t @ ?r) @ [e])) (proper (es @ [e]))"
    unfolding filter_append by (rule list_emb_append_mono) simp
  then show ?thesis using assms
    by (simp add: watch_task_inv_def sending_def watch_push_def watch_events_push_def del: filter.simps)
qed

lemma watch_task_inv_end:
  assumes "watch_task_inv es t" "wk_phase t \<noteq> TaskEnded"
  shows "watch_task_inv es (watch_task_end t)"
proof -
  have "subseq (proper (wk_handled t @ wq_events (wk_queue t))) (proper (wk_handled t @ sending t @ wq_events (wk_queue t)))"
    by (simp add: list_emb_append_mono list_emb_append2)
  with assms show ?thesis
    by (auto simp: watch_task_inv_def watch_task_end_def sending_def watch_close_def intro: subseq_order.trans)
qed

lemma watch_task_inv_sent:
  assumes "watch_task_inv es t" "wk_phase t = TaskSending e"
  shows "watch_task_inv es (watch_task_sent ok e t)"
proof -
  let ?t1 = "t\<lparr>wk_phase := TaskIdle, wk_handled := wk_handled t @ [e], wk_sent := wk_sent t @ (if ok then [e] else [])\<rparr>"
  have old: "\<not> is_terminal_event (mv_kind x)" if "x \<in> set (wk_handled t)" for x
    using assms that by (cases "wk_handled t" rule: rev_cases) (auto simp: watch_task_inv_def)
  have sub: "subseq (wk_sent t @ (if ok then [e] else [])) (wk_handled t @ [e])"
    using assms(1) by (intro list_emb_append_mono) (auto simp: watch_task_inv_def)
  show ?thesis using assms old sub
    by (auto simp: watch_task_sent_def watch_task_inv_def watch_task_end_def sending_def watch_close_def Let_def)
qed

lemma watch_task_inv_step:
  assumes "watch_task_inv es t"
  shows "watch_task_inv (es @ staged_events [i]) (watch_task_step i t)"
proof (cases i)
  case (WatchStage e)
  then show ?thesis using watch_task_inv_stage [OF assms, of e] by (simp add: staged_events_def)
next
  case WatchStop
  then show ?thesis using assms watch_task_inv_end [OF assms] by (simp add: staged_events_def)
next
  case WatchLook
  then show ?thesis using assms
    by (auto simp: staged_events_def watch_task_inv_def sending_def watch_pop_def split: task_phase.splits list.splits)
next
  case (WatchSent ok)
  then show ?thesis using assms watch_task_inv_sent [OF assms] by (simp add: staged_events_def split: task_phase.splits)
qed

lemma watch_task_inv_run:
  "watch_task_inv es t \<Longrightarrow> watch_task_inv (es @ staged_events is) (fold watch_task_step is t)"
proof (induction "is" arbitrary: es t)
  case (Cons i "is")
  from Cons.IH [OF watch_task_inv_step [OF Cons.prems, of i]] show ?case by (simp add: staged_events_def)
qed (simp add: staged_events_def)

text \<open>
  A watch task hands over in order: whatever the order of its inputs, the events it has handled are,
  markers of lost events apart, some of those staged for it in the order of their staging, what the
  observer's mailbox accepted is some of them, and the removal of the target is the last of them and
  ends the task.
\<close>

theorem watch_task_in_order:
  "watch_task_inv (staged_events is) (fold watch_task_step is (watch_task_new i))"
  using watch_task_inv_run [of "[]" "watch_task_new i" "is"]
  by (simp add: watch_task_inv_def watch_task_new_def sending_def watch_queue_new_def)

section \<open>The removal reaches the observer\<close>

definition rounds :: "nat \<Rightarrow> watch_input list" where
  "rounds n = concat (replicate n [WatchLook, WatchSent True])"

lemma make_room_length: "length (watch_make_room a q) < watch_buffer_cap"
proof (induction a q rule: watch_make_room.induct)
  case (1 a q)
  then show ?case by (simp add: watch_make_room.simps [of a q])
qed

lemma rounds_deliver:
  assumes "wk_phase t = TaskIdle" "wq_events (wk_queue t) \<noteq> []"
    and "is_terminal_event (mv_kind (last (wq_events (wk_queue t))))" "length (wq_events (wk_queue t)) \<le> n"
  shows "\<exists>e. is_terminal_event (mv_kind e) \<and> e \<in> set (wk_sent (fold watch_task_step (rounds n) t))
    \<and> wk_phase (fold watch_task_step (rounds n) t) = TaskEnded"
  using assms
proof (induction n arbitrary: t)
  case (Suc n)
  then obtain e es where q: "wq_events (wk_queue t) = e # es" by (cases "wq_events (wk_queue t)") auto
  have ended: "wk_phase u = TaskEnded \<Longrightarrow> fold watch_task_step (rounds m) u = u" for m u
    by (induction m) (simp_all add: rounds_def)
  let ?u = "watch_task_step (WatchSent True) (watch_task_step WatchLook t)"
  have step: "?u = watch_task_sent True e (t\<lparr>wk_queue := (wk_queue t)\<lparr>wq_events := es\<rparr>, wk_phase := TaskSending e\<rparr>)"
    using Suc.prems(1) q by (simp add: watch_pop_def)
  have run: "fold watch_task_step (rounds (Suc n)) t = fold watch_task_step (rounds n) ?u"
    by (simp add: rounds_def)
  show ?case
  proof (cases "is_terminal_event (mv_kind e)")
    case True
    then have "wk_phase ?u = TaskEnded" "e \<in> set (wk_sent ?u)"
      unfolding step by (simp_all add: watch_task_sent_def watch_task_end_def)
    then show ?thesis using True ended [of ?u n] by (auto simp: run)
  next
    case False
    then have "es \<noteq> []" using Suc.prems(3) q by auto
    moreover have "wk_phase ?u = TaskIdle" "wq_events (wk_queue ?u) = es"
      unfolding step using False by (simp_all add: watch_task_sent_def)
    ultimately show ?thesis using Suc.IH [of ?u] Suc.prems(3,4) q by (auto simp: run)
  qed
qed simp

text \<open>
  C29. The removal of a watched actor reaches the observer: once the removal has been staged for an idle watch task that
  was not cancelled, the task hands it to the observer's mailbox and ends after as many rounds as its queue
  has events, also if earlier events were lost to an overflow.
\<close>

theorem removal_reaches_observer:
  assumes "wk_phase (fold watch_task_step is (watch_task_new i)) = TaskIdle" "is_terminal_event (mv_kind e)"
  shows "\<exists>x. is_terminal_event (mv_kind x) \<and>
    x \<in> set (wk_sent (fold watch_task_step (is @ [WatchStage e] @ rounds watch_buffer_cap) (watch_task_new i))) \<and>
    wk_phase (fold watch_task_step (is @ [WatchStage e] @ rounds watch_buffer_cap) (watch_task_new i)) = TaskEnded"
proof -
  let ?t = "fold watch_task_step (is @ [WatchStage e]) (watch_task_new i)"
  let ?q = "wq_events (wk_queue (fold watch_task_step is (watch_task_new i)))"
  have q: "wq_events (wk_queue ?t) = watch_events_push (wq_actor_id (wk_queue (fold watch_task_step is (watch_task_new i)))) e ?q"
    by (simp add: watch_push_def)
  have "length (wq_events (wk_queue ?t)) \<le> watch_buffer_cap"
    unfolding q using make_room_length by (simp add: watch_events_push_def Suc_le_eq)
  then show ?thesis using rounds_deliver [of ?t watch_buffer_cap] assms q by (simp add: watch_events_push_def)
qed

theorem removal_reaches_observer_witness:
  "\<exists>x. is_terminal_event (mv_kind x) \<and>
    x \<in> set (wk_sent (fold watch_task_step ([] @ [WatchStage (monitor_event_new ''a'' (Removed None))] @ rounds watch_buffer_cap)
      (watch_task_new ''a'')))"
  using removal_reaches_observer [of "[]" "''a''" "monitor_event_new ''a'' (Removed None)"]
  by (auto simp: watch_task_new_def monitor_event_new_def)

end
