(* ===== verification/Spec2Isabelle.thy ===== *)
theory Spec2Isabelle
  imports Child_Spec Guarantees Operation_Properties Watch_Streams Outbound_Watches Handler_Drain Actor_Ref
    Scope_Ref Completion Forwarding Actor_Tasks
begin

text \<open>
  The kokage supervision library: a verification development.

  \<^bold>\<open>The program.\<close>  Kokage runs trees of supervised tasks and actors.  A program declares a tree
  (\<open>src/crates/kokage/src/supervision.rs\<close>, \<open>actor/builder.rs\<close>, \<open>supervisor/builder.rs\<close>), spawns it, and then
  uses references to its scopes, tasks and actors (\<open>runtime.rs\<close>, \<open>actor/context.rs\<close>).  Every scope has a
  stable identity (\<open>supervisor/handle.rs\<close>) to which one supervisor incarnation after another is bound
  (\<open>supervisor/owner.rs\<close>).  An incarnation is a single loop (\<open>supervisor/runtime/\<close>) that starts children, answers
  membership commands, decides after every exit whether to restart the child, its group or
  nobody, and drains its children when it stops.  It publishes snapshots
  (\<open>supervisor/snapshot.rs\<close>) and lifecycle events (\<open>supervisor/lifecycle.rs\<close>).  An actor is a task with a mailbox that
  outlives its restarts (\<open>actor/binding.rs\<close>, \<open>actor/graph.rs\<close>), watches other actors
  (\<open>actor/monitor.rs\<close>) and runs a receive loop (\<open>actor/handler.rs\<close>).

  \<^bold>\<open>Conventions.\<close>  Structs are records, enums are datatypes, and an operation is a function from the
  old state to its result and the new state, under the source's name.  Errors and panics are values: a sum
  type with the error on the left, with a constructor or \<open>None\<close> for a panic.  An operation of the supervisor loop that
  only changes the state and can panic (indexing the slab at a vacant key, an \<open>expect\<close> on a pending removal, the view of a
  removed membership) sets the flag \<open>rt_panicked\<close> of the state, which nothing resets and the invariant excludes.  Unsigned integers are
  natural numbers; saturating and wrapping arithmetic is written out where the code uses it
  (\<open>Kokage_Prelude\<close>), and the few theorems that need a counter not to overflow assume fewer than \<open>2\<^sup>64\<close>
  steps.  A shared object (a stable identity, an attachment, an actor binding, a done channel) is an index
  into a store, so that sharing and later changes are visible.  An asynchronous operation is a machine over its
  polls, or a function of a script: the list of what its selects resolve to, in any order.  A theorem over all
  scripts therefore holds for every interleaving.  Code outside the repository, such as the bounded channel of tokio,
  is a parameter with its documented contract as a hypothesis.

  \<^bold>\<open>Supervisors: values.\<close>
  \<^item> \<open>Kokage_Prelude\<close>: arithmetic, durations and instants, the slab, list and map lemmas.
  \<^item> \<open>Policies\<close> (\<open>restart.rs\<close>, \<open>shutdown.rs\<close>, \<open>strategy.rs\<close>, \<open>scope.rs\<close>, \<open>error.rs\<close>): policies, backoff, validation, errors.
  \<^item> \<open>Restart_Tracker\<close> (\<open>runtime/intensity.rs\<close>): the restart window refines counting the restarts
    within the window; the exponential backoff in closed form.
  \<^item> \<open>Exit_Status\<close> (\<open>runtime/exit.rs\<close>, \<open>event.rs\<close>): classification of exits.
  \<^item> \<open>Snapshot\<close> (\<open>snapshot.rs\<close>): snapshot values and the forwarding of nested snapshots without lost
    updates.
  \<^item> \<open>Lag_Queue\<close>, \<open>Lifecycle\<close> (\<open>lifecycle.rs\<close>): an interface for bounded queues with a lag marker, interpreted for
    lifecycle queues here and for watch queues in \<open>Monitor\<close>; a queue keeps the newest events and
    accounts for the rest, and recursive forwarding equals forwarding at every level.
  \<^item> \<open>Child_Spec\<close> (\<open>child.rs\<close>, \<open>builder.rs\<close>, \<open>owner.rs\<close>): declarations and configurations; which of them build.

  \<^bold>\<open>Supervisors: one incarnation.\<close>
  \<^item> \<open>Stable_Channels\<close> (\<open>handle.rs\<close>): binding, publication guarded by epochs, termination, which is final.
  \<^item> \<open>Runtime_State\<close>, \<open>Runtime_Start\<close>, \<open>Runtime_Control\<close>, \<open>Runtime_Drain\<close>, \<open>Runtime_Loop\<close>
    (\<open>runtime/supervision.rs\<close>, \<open>spawn.rs\<close>, \<open>shutdown.rs\<close>, \<open>child_runtime.rs\<close>): the state and all operations of the loop.
    A turn takes the wake that the loop received; drains take a script of joins and time steps.
  \<^item> \<open>Runtime_Invariant\<close>, \<open>Drain_Properties\<close>, \<open>Loop_Properties\<close>, \<open>Operation_Properties\<close>: the consistency
    invariant of the state and its preservation by every operation and turn; what each operation does on
    each branch.
  \<^item> \<open>Incarnation\<close> (\<open>owner.rs\<close>): an incarnation between its binding and its end.
  \<^item> \<open>Samples\<close>, \<open>Guarantees\<close>: over whole runs, the state stays consistent, no turn panics, every command
    is answered exactly once, a stop leaves nothing running, and an ordered scope stops in reverse order.

  \<^bold>\<open>Actors.\<close>
  \<^item> \<open>Mailbox\<close>, \<open>Binding\<close> (\<open>binding.rs\<close>): mailboxes, of which the keyed one refines a map with insertion order;
    the binding slot and its agreement with the monitors.
  \<^item> \<open>Monitor\<close>, \<open>Watch_Streams\<close>, \<open>Outbound_Watches\<close> (\<open>monitor.rs\<close>): hubs and watches; every
    watch stream follows the watch automaton and learns of the removal.
  \<^item> \<open>Timers\<close>, \<open>Actor_Context\<close>, \<open>Handler_Loop\<close> (\<open>context.rs\<close>, \<open>handler.rs\<close>): timers, deliveries and the receive loop.  The loop
    and its drain take a list of turns of the environment, and recursion is on that list.
  \<^item> \<open>Handler_Frames\<close>, \<open>Handler_Invariants\<close>, \<open>Handler_Properties\<close>, \<open>Handler_Drain\<close>: what single polls change; an interface for loop
    invariants whose laws are about single polls, interpreted for message order, call
    discipline and shutdown; a graceful stop handles every accepted message, and the drain ends unless its handlers keep
    starting offloads.
  \<^item> \<open>Actor_Ref\<close> (\<open>context.rs\<close>): sends and calls ride through restarts, keep their deadline and report
    errors truthfully.
  \<^item> \<open>Actor_Tasks\<close> (\<open>context.rs\<close>): the tasks behind watches and delayed and periodic sends; a staged removal reaches
    the observer.
  \<^item> \<open>Actor_Run\<close> (\<open>graph.rs\<close>): hosting one incarnation, reporting its exit once.

  \<^bold>\<open>Trees and references.\<close>
  \<^item> \<open>Actor_Spec\<close>, \<open>Tree_Model\<close> (\<open>builder.rs\<close>, \<open>supervision.rs\<close>, \<open>runtime.rs\<close>): declarations, reserved identities, lowering,
    and spawning the root on its identity.
  \<^item> \<open>Tree_Frames\<close>, \<open>Tree_Lowering\<close>, \<open>Tree_Properties\<close>, \<open>Forest\<close>, \<open>Tree_Spawn\<close>, \<open>Tree_Guarantees\<close>: what declaring and
    lowering keep; any sequence of public operations declares trees without a panic, a spawn never panics and fails exactly for
    invalid trees, it builds what was declared, and references reach their actors.
  \<^item> \<open>Scope_Handle\<close> (\<open>handle.rs\<close>): waiting for a stop and for startup; no wake-up is lost, and the result is that of the last
    incarnation.
  \<^item> \<open>Task_Ref\<close>, \<open>Scope_Ref\<close> (\<open>runtime.rs\<close>): outcomes of tasks, lookup of children, and handles that name exactly one
    membership.
  \<^item> \<open>Completion\<close> (\<open>completion.rs\<close>): waits for finite work return when the work is done and not before; when a wait for
    future children misses one.
  \<^item> \<open>Forwarding\<close> (\<open>runtime.rs\<close>, \<open>guard.rs\<close>): pumps from observation streams into actors; a restarted target gets a reset.

  \<^bold>\<open>Fuel.\<close>  Three recursions over the store carry a bound: the descendants of an identity and the tree of
  identities below it (\<open>Tree_Model\<close>) and the attached children below a scope (\<open>Scope_Ref\<close>).  Identities nest without cycles, so
  the number of identities in the store bounds the depth, and they are called with at least that number.  All other functions
  are total by structural recursion or by a measure, or recurse over a script.

  \<^bold>\<open>Not modelled.\<close>  The cancellation tokens of \<open>supervisor/cancellation.rs\<close> wrap a third-party type; models that depend on
  cancellation take it as an input.  Tracing (\<open>supervisor/observability.rs\<close>, the spans of
  \<open>actor/observability.rs\<close>) does not influence the state.  The bodies of user tasks, offloads and blocking
  closures are the environment of the models.  Trait plumbing, \<open>Debug\<close>,
  serialisation, the derive macro, the console (an HTTP and WebSocket server), examples, benchmarks and tests are left out.
\<close>

end
